(* ===== verification/Cmodel_Prelude.thy ===== *)
theory Cmodel_Prelude
  imports Main "HOL-Library.Word" "HOL-Library.Monad_Syntax"
begin

text \<open>
  Shared ground of the development: machine types, the fault monad, checked reads and
  writes of memory blocks, C strings, and the generic list lemmas the component theories use.

  A C operation that can touch memory is a function into \<open>option\<close>: \<open>None\<close> means the operation
  read or wrote outside a live object (a null dereference, an index past the end of a block),
  \<open>Some\<close> carries the new state and the value the C code returns. An error the code reports by its
  return value (\<open>-1\<close>, \<open>NULL\<close>, \<open>EOF\<close>) is an ordinary value of the result.
\<close>

unbundle bit_operations_syntax

named_theorems fault_simps \<open>evaluation of checked memory accesses\<close>
named_theorems cstr_simps \<open>evaluation of C string functions\<close>

type_synonym byte = "8 word"
type_synonym u16 = "16 word"
type_synonym u32 = "32 word"

abbreviation NUL :: char where "NUL \<equiv> CHR 0x00"

subsection \<open>Characters as integers\<close>

text \<open>\<open>uchar c\<close> is the value of an \<^verbatim>\<open>unsigned char\<close> after promotion to \<^verbatim>\<open>int\<close>, \<open>schar c\<close> that of
  a plain \<^verbatim>\<open>char\<close>, which is signed on the targets of this code base (MIPS and x86, gcc);
  \<open>to_char i\<close> is the conversion of an \<^verbatim>\<open>int\<close> back to eight bits.\<close>

definition uchar :: "char \<Rightarrow> int" where
  "uchar c = int (of_char c)"

definition schar :: "char \<Rightarrow> int" where
  "schar c = (if uchar c < 128 then uchar c else uchar c - 256)"

definition to_char :: "int \<Rightarrow> char" where
  "to_char i = char_of (nat (i mod 256))"

definition EOF :: int where "EOF = -1"

lemma uchar_range: "0 \<le> uchar c" "uchar c < 256"
  using nat_of_char_less_256 [of c] by (simp_all add: uchar_def)

lemma to_char_uchar [simp]: "to_char (uchar c) = c"
  using uchar_range [of c] by (simp add: to_char_def) (simp add: uchar_def)

lemma to_char_schar [simp]: "to_char (schar c) = c"
proof -
  have "schar c mod 256 = uchar c mod 256"
    using mod_add_self2 [of "uchar c - 256" 256] by (simp add: schar_def)
  then have "to_char (schar c) = to_char (uchar c)"
    by (simp add: to_char_def)
  then show ?thesis by simp
qed

lemma uchar_neq_EOF [simp]: "uchar c \<noteq> EOF" "EOF \<noteq> uchar c"
  using uchar_range [of c] by (simp_all add: EOF_def)

lemma uchar_inject [simp]: "uchar c = uchar d \<longleftrightarrow> c = d"
  by (metis to_char_uchar)

lemma schar_EOF_iff: "schar c = EOF \<longleftrightarrow> uchar c = 255"
  using uchar_range [of c] by (auto simp: schar_def EOF_def)

subsection \<open>Memory blocks: checked reads and writes\<close>

definition rd :: "'a list \<Rightarrow> nat \<Rightarrow> 'a option" where
  "rd xs i = (if i < length xs then Some (xs ! i) else None)"

definition wr :: "'a list \<Rightarrow> nat \<Rightarrow> 'a \<Rightarrow> 'a list option" where
  "wr xs i v = (if i < length xs then Some (xs[i := v]) else None)"

lemma rd_Some [simp]: "i < length xs \<Longrightarrow> rd xs i = Some (xs ! i)"
  by (simp add: rd_def)

lemma wr_Some [simp]: "i < length xs \<Longrightarrow> wr xs i v = Some (xs[i := v])"
  by (simp add: wr_def)

lemma rd_eq_Some: "rd xs i = Some v \<longleftrightarrow> i < length xs \<and> v = xs ! i"
  by (auto simp: rd_def)

lemma wr_eq_Some: "wr xs i v = Some ys \<longleftrightarrow> i < length xs \<and> ys = xs[i := v]"
  by (auto simp: wr_def)

lemma rd_None: "rd xs i = None \<longleftrightarrow> length xs \<le> i"
  by (auto simp: rd_def)

lemma wr_None: "wr xs i v = None \<longleftrightarrow> length xs \<le> i"
  by (auto simp: wr_def)

lemmas block_simps = rd_eq_Some wr_eq_Some rd_None wr_None

text \<open>\<open>blit xs i ys\<close> is the block after \<^verbatim>\<open>memcpy(xs + i, ys, |ys|)\<close>.\<close>

definition blit :: "'a list \<Rightarrow> nat \<Rightarrow> 'a list \<Rightarrow> 'a list option" where
  "blit xs i ys = (if i + length ys \<le> length xs
     then Some (take i xs @ ys @ drop (i + length ys) xs) else None)"

lemma blit_Some [simp]:
  "i + length ys \<le> length xs \<Longrightarrow> blit xs i ys = Some (take i xs @ ys @ drop (i + length ys) xs)"
  by (simp add: blit_def)

lemma blit_length: "blit xs i ys = Some zs \<Longrightarrow> length zs = length xs"
  by (auto simp: blit_def split: if_splits)

subsection \<open>C strings\<close>

text \<open>The C string that starts a memory block: the characters before the first NUL, or \<open>None\<close>
  when the block holds none (a scan would leave the block).\<close>

fun cstr :: "char list \<Rightarrow> char list option" where
  "cstr [] = None"
| "cstr (c # cs) = (if c = NUL then Some [] else map_option (Cons c) (cstr cs))"

lemma cstr_append: "NUL \<notin> set s \<Longrightarrow> cstr (s @ NUL # r) = Some s"
  by (induction s) auto

lemma cstr_eq_Some_iff:
  "cstr b = Some s \<longleftrightarrow> NUL \<notin> set s \<and> (\<exists>r. b = s @ NUL # r)"
proof (induction b arbitrary: s)
  case Nil
  then show ?case by simp
next
  case (Cons c b)
  show ?case
  proof (cases "c = NUL")
    case True
    then show ?thesis by (cases s) auto
  next
    case False
    then show ?thesis by (cases s) (auto simp: Cons.IH)
  qed
qed

lemma cstr_None_iff: "cstr b = None \<longleftrightarrow> NUL \<notin> set b"
  by (induction b) auto

lemma cstr_total: "NUL \<in> set b \<Longrightarrow> \<exists>s. cstr b = Some s"
  using cstr_None_iff [of b] by (cases "cstr b") auto

lemma cstr_take:
  assumes "n < length b" and "b ! n = NUL" and "NUL \<notin> set (take n b)"
  shows "cstr b = Some (take n b)"
proof -
  have "b = take n b @ NUL # drop (Suc n) b"
    using id_take_nth_drop [OF assms(1)] assms(2) by simp
  then show ?thesis
    using assms(3) cstr_append by metis
qed

subsection \<open>Generic lemmas\<close>

lemma take_Suc_upd:
  "n < length xs \<Longrightarrow> take (Suc n) (xs[n := v]) = take n xs @ [v]"
  by (simp add: take_Suc_conv_app_nth)

lemma take_append_drop_upd:
  "n < length xs \<Longrightarrow> take n xs @ v # drop (Suc n) xs = xs[n := v]"
  by (simp add: upd_conv_take_nth_drop)

lemma bind_Some_iff: "Option.bind m f = Some r \<longleftrightarrow> (\<exists>x. m = Some x \<and> f x = Some r)"
  by (cases m) auto

lemma remove1_append_mid: "x \<notin> set xs \<Longrightarrow> remove1 x (xs @ x # ys) = xs @ ys"
  by (induction xs) auto

lemma less_two_power_eq: "n < 2 ^ k \<longleftrightarrow> n div 2 ^ k = (0::nat)"
  by (simp add: div_eq_0_iff)

end
