(* ===== verification/Dlist.thy ===== *)
theory Dlist
  imports Cmodel_Prelude
begin

text \<open>
  The intrusive doubly linked list of \<^verbatim>\<open>include/dlist.h\<close>, on an explicit heap of link nodes.
  Addresses are natural numbers, \<open>0\<close> is \<^verbatim>\<open>NULL\<close>; a node that is not in the heap (or is null)
  cannot be accessed, so every operation is partial. The representation predicate \<open>dlist\<close> relates a
  heap and a list head to the sequence of entries; the operations refine list operations on it.
  The pools of the memory helper, the select loop and the string object lists are built from these
  links and are modelled on the abstract sequences.
\<close>

subsection \<open>The heap of links\<close>

record dlist_head =
  dl_next :: nat
  dl_prev :: nat

type_synonym dheap = "nat \<rightharpoonup> dlist_head"

definition set_next :: "dheap \<Rightarrow> nat \<Rightarrow> nat \<Rightarrow> dheap option" where
  "set_next h a v = (case h a of None \<Rightarrow> None | Some n \<Rightarrow> Some (h(a \<mapsto> n\<lparr>dl_next := v\<rparr>)))"

definition set_prev :: "dheap \<Rightarrow> nat \<Rightarrow> nat \<Rightarrow> dheap option" where
  "set_prev h a v = (case h a of None \<Rightarrow> None | Some n \<Rightarrow> Some (h(a \<mapsto> n\<lparr>dl_prev := v\<rparr>)))"

definition get_next :: "dheap \<Rightarrow> nat \<Rightarrow> nat option" where
  "get_next h a = map_option dl_next (h a)"

definition get_prev :: "dheap \<Rightarrow> nat \<Rightarrow> nat option" where
  "get_prev h a = map_option dl_prev (h a)"

subsection \<open>The operations of dlist.h\<close>

definition INIT_DLIST_HEAD :: "dheap \<Rightarrow> nat \<Rightarrow> dheap option" where
  "INIT_DLIST_HEAD h e = do { h \<leftarrow> set_prev h e e; set_next h e e }"

definition dlist_add_between :: "dheap \<Rightarrow> nat \<Rightarrow> nat \<Rightarrow> nat \<Rightarrow> dheap option" where
  "dlist_add_between h entry prev next = do {
     h \<leftarrow> set_prev h next entry;
     h \<leftarrow> set_next h entry next;
     h \<leftarrow> set_prev h entry prev;
     set_next h prev entry }"

definition dlist_del_between :: "dheap \<Rightarrow> nat \<Rightarrow> nat \<Rightarrow> dheap option" where
  "dlist_del_between h prev next = do {
     h \<leftarrow> set_prev h next prev;
     set_next h prev next }"

definition dlist_empty :: "dheap \<Rightarrow> nat \<Rightarrow> bool option" where
  "dlist_empty h head = do { n \<leftarrow> get_next h head; Some (n = head) }"

definition dlist_add :: "dheap \<Rightarrow> nat \<Rightarrow> nat \<Rightarrow> dheap option" where
  "dlist_add h entry head = do { n \<leftarrow> get_next h head; dlist_add_between h entry head n }"

definition dlist_add_tail :: "dheap \<Rightarrow> nat \<Rightarrow> nat \<Rightarrow> dheap option" where
  "dlist_add_tail h entry head = do { p \<leftarrow> get_prev h head; dlist_add_between h entry p head }"

definition dlist_del :: "dheap \<Rightarrow> nat \<Rightarrow> dheap option" where
  "dlist_del h entry = do {
     p \<leftarrow> get_prev h entry;
     n \<leftarrow> get_next h entry;
     h \<leftarrow> dlist_del_between h p n;
     h \<leftarrow> set_prev h entry 0;
     set_next h entry 0 }"

definition dlist_del_init :: "dheap \<Rightarrow> nat \<Rightarrow> dheap option" where
  "dlist_del_init h entry = do {
     p \<leftarrow> get_prev h entry;
     n \<leftarrow> get_next h entry;
     h \<leftarrow> dlist_del_between h p n;
     h \<leftarrow> set_prev h entry entry;
     set_next h entry entry }"

definition dlist_get_next :: "dheap \<Rightarrow> nat \<Rightarrow> nat \<Rightarrow> nat option" where
  "dlist_get_next h entry head = do {
     e \<leftarrow> (if entry \<noteq> 0 then get_next h entry else get_next h head);
     Some (if e = head then 0 else e) }"

definition dlist_get_prev :: "dheap \<Rightarrow> nat \<Rightarrow> nat \<Rightarrow> nat option" where
  "dlist_get_prev h entry head = do {
     e \<leftarrow> (if entry \<noteq> 0 then get_prev h entry else get_prev h head);
     Some (if e = head then 0 else e) }"

subsection \<open>The sequence a head represents\<close>

fun dseg :: "dheap \<Rightarrow> nat \<Rightarrow> nat list \<Rightarrow> nat \<Rightarrow> bool" where
  "dseg h a [] b \<longleftrightarrow> get_next h a = Some b \<and> get_prev h b = Some a"
| "dseg h a (x # xs) b \<longleftrightarrow> get_next h a = Some x \<and> get_prev h x = Some a \<and> dseg h x xs b"

definition dlist :: "dheap \<Rightarrow> nat \<Rightarrow> nat list \<Rightarrow> bool" where
  "dlist h head xs \<longleftrightarrow> h 0 = None \<and> distinct (head # xs) \<and> dseg h head xs head"

lemma dseg_split:
  "dseg h a (xs @ ys) b \<longleftrightarrow> dseg h a xs (hd (ys @ [b])) \<and> dseg h (last (a # xs)) ys b"
proof (induction xs arbitrary: a)
  case Nil
  then show ?case by (cases ys) auto
next
  case (Cons x xs)
  then show ?case by simp
qed

lemma dseg_join: "dseg h a xs y \<Longrightarrow> dseg h y ys b \<Longrightarrow> dseg h a (xs @ y # ys) b"
  by (induction xs arbitrary: a) auto

lemma dseg_retarget:
  assumes "dseg h a xs b" and "distinct (a # xs)"
    and "get_next h' (last (a # xs)) = Some e" and "get_prev h' e = Some (last (a # xs))"
    and "\<And>x. x \<in> set (a # xs) \<Longrightarrow> x \<noteq> last (a # xs) \<Longrightarrow> get_next h' x = get_next h x"
    and "\<And>x. x \<in> set xs \<Longrightarrow> get_prev h' x = get_prev h x"
  shows "dseg h' a xs e"
  using assms
proof (induction xs arbitrary: a)
  case Nil
  then show ?case by simp
next
  case (Cons x xs)
  have "dseg h' x xs e"
    by (rule Cons.IH) (use Cons.prems in auto)
  moreover have "a \<noteq> last (x # xs)"
    using Cons.prems(2) last_in_set [of "x # xs"] by auto
  ultimately show ?case
    using Cons.prems(1) Cons.prems(5) [of a] Cons.prems(6) [of x] by simp
qed

lemma dseg_resource:
  assumes "dseg h a xs b"
    and "get_next h' e = Some (hd (xs @ [b]))" and "get_prev h' (hd (xs @ [b])) = Some e"
    and "\<And>x. x \<in> set xs \<Longrightarrow> get_next h' x = get_next h x"
    and "\<And>x. x \<in> set (xs @ [b]) \<Longrightarrow> x \<noteq> hd (xs @ [b]) \<Longrightarrow> get_prev h' x = get_prev h x"
    and "distinct (xs @ [b])"
  shows "dseg h' e xs b"
proof (cases xs)
  case Nil
  with assms show ?thesis by simp
next
  case (Cons x ys)
  have same: "dseg h' y zs b" if "dseg h y zs b" "y \<in> set xs" "set zs \<subseteq> set xs - {x}" for y zs
    using that assms(4,5,6) Cons
  proof (induction zs arbitrary: y)
    case Nil
    then show ?case by auto
  next
    case (Cons z zs)
    then show ?case by force
  qed
  from assms(1) Cons have "dseg h x ys b" by simp
  moreover have "set ys \<subseteq> set xs - {x}" using assms(6) Cons by auto
  ultimately show ?thesis using same [of x ys] assms(2,3) Cons by simp
qed

lemma get_upd [simp]:
  "get_next (h(a \<mapsto> n)) x = (if x = a then Some (dl_next n) else get_next h x)"
  "get_prev (h(a \<mapsto> n)) x = (if x = a then Some (dl_prev n) else get_prev h x)"
  by (simp_all add: get_next_def get_prev_def)

lemma set_next_links:
  "a \<in> dom h \<Longrightarrow> \<exists>h'. set_next h a v = Some h' \<and> dom h' = dom h \<and>
     (\<forall>x. get_next h' x = (if x = a then Some v else get_next h x)) \<and>
     (\<forall>x. get_prev h' x = get_prev h x)"
  by (auto simp: set_next_def get_next_def get_prev_def)

lemma set_prev_links:
  "a \<in> dom h \<Longrightarrow> \<exists>h'. set_prev h a v = Some h' \<and> dom h' = dom h \<and>
     (\<forall>x. get_prev h' x = (if x = a then Some v else get_prev h x)) \<and>
     (\<forall>x. get_next h' x = get_next h x)"
  by (auto simp: set_prev_def get_next_def get_prev_def)

lemma get_in_dom: "get_next h a = Some b \<Longrightarrow> a \<in> dom h" "get_prev h a = Some b \<Longrightarrow> a \<in> dom h"
  by (auto simp: get_next_def get_prev_def)

lemma get_total: "a \<in> dom h \<Longrightarrow> \<exists>b. get_next h a = Some b" "a \<in> dom h \<Longrightarrow> \<exists>b. get_prev h a = Some b"
  by (auto simp: get_next_def get_prev_def)

text \<open>The effect of the two primitive link updates on the whole heap.\<close>

lemma dlist_add_between_links:
  assumes "entry \<in> dom h" "p \<in> dom h" "n \<in> dom h" "entry \<noteq> p" "entry \<noteq> n"
  shows "\<exists>h'. dlist_add_between h entry p n = Some h' \<and> dom h' = dom h \<and>
    (\<forall>x. get_next h' x = (if x = p then Some entry else if x = entry then Some n else get_next h x)) \<and>
    (\<forall>x. get_prev h' x = (if x = entry then Some p else if x = n then Some entry else get_prev h x))"
proof -
  obtain h1 where h1: "set_prev h n entry = Some h1" "dom h1 = dom h"
    "\<And>x. get_prev h1 x = (if x = n then Some entry else get_prev h x)"
    "\<And>x. get_next h1 x = get_next h x"
    using set_prev_links assms(3) by blast
  obtain h2 where h2: "set_next h1 entry n = Some h2" "dom h2 = dom h"
    "\<And>x. get_next h2 x = (if x = entry then Some n else get_next h1 x)"
    "\<And>x. get_prev h2 x = get_prev h1 x"
    using set_next_links [of entry h1 n] assms(1) h1(2) by auto
  obtain h3 where h3: "set_prev h2 entry p = Some h3" "dom h3 = dom h"
    "\<And>x. get_prev h3 x = (if x = entry then Some p else get_prev h2 x)"
    "\<And>x. get_next h3 x = get_next h2 x"
    using set_prev_links [of entry h2 p] assms(1) h2(2) by auto
  obtain h4 where h4: "set_next h3 p entry = Some h4" "dom h4 = dom h"
    "\<And>x. get_next h4 x = (if x = p then Some entry else get_next h3 x)"
    "\<And>x. get_prev h4 x = get_prev h3 x"
    using set_next_links [of p h3 entry] assms(2) h3(2) by auto
  have "dlist_add_between h entry p n = Some h4"
    by (simp add: dlist_add_between_def h1(1) h2(1) h3(1) h4(1))
  then show ?thesis
    using h4(2) by (auto simp: h1(3,4) h2(3,4) h3(3,4) h4(3,4))
qed

lemma dlist_del_links:
  assumes "get_prev h entry = Some p" "get_next h entry = Some n" "p \<in> dom h" "n \<in> dom h"
  shows "\<exists>h'. dlist_del h entry = Some h' \<and> dom h' = dom h \<and>
    (\<forall>x. get_next h' x = (if x = entry then Some 0 else if x = p then Some n else get_next h x)) \<and>
    (\<forall>x. get_prev h' x = (if x = entry then Some 0 else if x = n then Some p else get_prev h x))"
proof -
  have e: "entry \<in> dom h" using assms get_in_dom by blast
  obtain h1 where h1: "set_prev h n p = Some h1" "dom h1 = dom h"
    "\<And>x. get_prev h1 x = (if x = n then Some p else get_prev h x)"
    "\<And>x. get_next h1 x = get_next h x"
    using set_prev_links assms(4) by blast
  obtain h2 where h2: "set_next h1 p n = Some h2" "dom h2 = dom h"
    "\<And>x. get_next h2 x = (if x = p then Some n else get_next h1 x)"
    "\<And>x. get_prev h2 x = get_prev h1 x"
    using set_next_links [of p h1 n] assms(3) h1(2) by auto
  obtain h3 where h3: "set_prev h2 entry 0 = Some h3" "dom h3 = dom h"
    "\<And>x. get_prev h3 x = (if x = entry then Some 0 else get_prev h2 x)"
    "\<And>x. get_next h3 x = get_next h2 x"
    using set_prev_links [of entry h2 0] e h2(2) by auto
  obtain h4 where h4: "set_next h3 entry 0 = Some h4" "dom h4 = dom h"
    "\<And>x. get_next h4 x = (if x = entry then Some 0 else get_next h3 x)"
    "\<And>x. get_prev h4 x = get_prev h3 x"
    using set_next_links [of entry h3 0] e h3(2) by auto
  have "dlist_del h entry = Some h4"
    by (simp add: dlist_del_def dlist_del_between_def assms h1(1) h2(1) h3(1) h4(1))
  then show ?thesis
    using h4(2) by (auto simp: h1(3,4) h2(3,4) h3(3,4) h4(3,4))
qed

lemma dseg_in_dom: "dseg h a xs b \<Longrightarrow> set (a # xs @ [b]) \<subseteq> dom h"
  by (induction xs arbitrary: a) (auto dest: get_in_dom)

lemma dlist_in_dom: "dlist h head xs \<Longrightarrow> set (head # xs) \<subseteq> dom h"
  using dseg_in_dom by (fastforce simp: dlist_def)

lemma dlist_links:
  assumes "dlist h head (xs @ ys)"
  shows "get_next h (last (head # xs)) = Some (hd (ys @ [head]))"
    and "get_prev h (hd (ys @ [head])) = Some (last (head # xs))"
proof -
  have "dseg h (last (head # xs)) ys head"
    using assms by (simp add: dlist_def dseg_split)
  then show "get_next h (last (head # xs)) = Some (hd (ys @ [head]))"
    and "get_prev h (hd (ys @ [head])) = Some (last (head # xs))"
    by (cases ys; simp)+
qed

subsection \<open>The operations refine list operations\<close>

text \<open>The links of a region: no list outside it notices a change of links inside it.\<close>

lemma dlist_frame:
  assumes "dlist h k zs" and "dom h' = dom h"
    and "\<And>x. x \<in> set (k # zs) \<Longrightarrow> get_next h' x = get_next h x \<and> get_prev h' x = get_prev h x"
  shows "dlist h' k zs"
proof -
  have "dseg h' a ys b" if "dseg h a ys b" "set (a # ys @ [b]) \<subseteq> set (k # zs)" for a ys b
    using that
  proof (induction ys arbitrary: a)
    case Nil
    then show ?case using assms(3) [of a] assms(3) [of b] by auto
  next
    case (Cons y ys)
    then show ?case using assms(3) [of a] assms(3) [of y] by auto
  qed
  moreover have "h' 0 = None" using assms(1,2) by (metis dlist_def domIff)
  ultimately show ?thesis using assms(1) by (auto simp: dlist_def)
qed

lemma dlist_insert:
  assumes rep: "dlist h head (xs @ ys)" and e: "entry \<in> dom h" "entry \<notin> set (head # xs @ ys)"
  shows "\<exists>h'. dlist_add_between h entry (last (head # xs)) (hd (ys @ [head])) = Some h' \<and>
    dlist h' head (xs @ entry # ys) \<and> dom h' = dom h \<and>
    (\<forall>k zs. dlist h k zs \<longrightarrow> set (k # zs) \<inter> set (entry # head # xs @ ys) = {} \<longrightarrow> dlist h' k zs)"
proof -
  let ?p = "last (head # xs)" and ?n = "hd (ys @ [head])"
  have p: "?p \<in> set (head # xs)" using last_in_set [of "head # xs"] by blast
  have n: "?n \<in> set (ys @ [head])" by (cases ys) auto
  have dom: "?p \<in> dom h" "?n \<in> dom h" using dlist_in_dom [OF rep] p n by auto
  have "entry \<noteq> ?p" "entry \<noteq> ?n" using e(2) p n by auto
  then obtain h' where h': "dlist_add_between h entry ?p ?n = Some h'" "dom h' = dom h"
    "\<And>x. get_next h' x = (if x = ?p then Some entry else if x = entry then Some ?n else get_next h x)"
    "\<And>x. get_prev h' x = (if x = entry then Some ?p else if x = ?n then Some entry else get_prev h x)"
    using dlist_add_between_links [OF e(1) dom] by blast
  have d: "distinct (head # xs @ ys)" and z: "h 0 = None"
    and seg: "dseg h head xs ?n" "dseg h ?p ys head"
    using rep by (auto simp: dlist_def dseg_split)
  have n_notin: "?n \<notin> set xs" using d n by auto
  have p_notin: "?p \<notin> set ys" using d p by auto
  have "dseg h' head xs entry"
    by (rule dseg_retarget [OF seg(1)]) (use d e(2) p n_notin h'(3,4) in auto)
  moreover have "dseg h' entry ys head"
    by (rule dseg_resource [OF seg(2)])
      (use d e(2) p_notin \<open>entry \<noteq> ?p\<close> \<open>entry \<noteq> ?n\<close> h'(3,4) in auto)
  ultimately have "dseg h' head (xs @ entry # ys) head" by (rule dseg_join)
  moreover have "h' 0 = None" using z h'(2) by (metis domIff)
  ultimately have "dlist h' head (xs @ entry # ys)"
    using d e(2) by (auto simp: dlist_def)
  moreover have "dlist h' k zs"
    if "dlist h k zs" "set (k # zs) \<inter> set (entry # head # xs @ ys) = {}" for k zs
    by (rule dlist_frame [OF that(1) h'(2)]) (use that(2) p n h'(3,4) in auto)
  ultimately show ?thesis using h'(1,2) by blast
qed

lemma dlist_delete:
  assumes rep: "dlist h head (xs @ e # ys)"
  shows "\<exists>h'. dlist_del h e = Some h' \<and> dlist h' head (xs @ ys) \<and> dom h' = dom h \<and>
    get_next h' e = Some 0 \<and> get_prev h' e = Some 0 \<and>
    (\<forall>k zs. dlist h k zs \<longrightarrow> set (k # zs) \<inter> set (head # xs @ e # ys) = {} \<longrightarrow> dlist h' k zs)"
proof -
  let ?p = "last (head # xs)" and ?n = "hd (ys @ [head])"
  have p: "?p \<in> set (head # xs)" using last_in_set [of "head # xs"] by blast
  have n: "?n \<in> set (ys @ [head])" by (cases ys) auto
  have d: "distinct (head # xs @ e # ys)" and z: "h 0 = None"
    and seg: "dseg h head xs e" "dseg h e ys head"
    using rep by (auto simp: dlist_def dseg_split)
  have ge: "get_prev h e = Some ?p" "get_next h e = Some ?n"
    using dlist_links [of h head xs "e # ys"] dlist_links [of h head "xs @ [e]" ys] rep by auto
  have "?p \<in> dom h" "?n \<in> dom h" using dlist_in_dom [OF rep] p n by auto
  then obtain h' where h': "dlist_del h e = Some h'" "dom h' = dom h"
    "\<And>x. get_next h' x = (if x = e then Some 0 else if x = ?p then Some ?n else get_next h x)"
    "\<And>x. get_prev h' x = (if x = e then Some 0 else if x = ?n then Some ?p else get_prev h x)"
    using dlist_del_links [OF ge] by blast
  have ne: "?p \<noteq> e" "?n \<noteq> e" "?n \<notin> set xs" "?p \<notin> set ys" using d p n by auto
  have "dseg h' head xs ?n"
    by (rule dseg_retarget [OF seg(1)]) (use d ne h'(3,4) in auto)
  moreover have "dseg h' ?p ys head"
    by (rule dseg_resource [OF seg(2)]) (use d ne h'(3,4) in auto)
  moreover have "h' 0 = None" using z h'(2) by (metis domIff)
  ultimately have "dlist h' head (xs @ ys)"
    using d by (auto simp: dlist_def dseg_split)
  moreover have "dlist h' k zs"
    if "dlist h k zs" "set (k # zs) \<inter> set (head # xs @ e # ys) = {}" for k zs
    by (rule dlist_frame [OF that(1) h'(2)]) (use that(2) p n h'(3,4) in auto)
  ultimately show ?thesis using h' by auto
qed

subsection \<open>The list interface\<close>

text \<open>What the users of the links rely on: adding an entry at either end, removing an entry wherever
  it stands, and that the other lists of the heap are left alone. The lemmas inside are the moves
  the pools of the memory helper and of the select loop make.\<close>

locale link_list =
  fixes add :: "'h \<Rightarrow> 'a \<Rightarrow> 'a \<Rightarrow> 'h option"
    and add_tail :: "'h \<Rightarrow> 'a \<Rightarrow> 'a \<Rightarrow> 'h option"
    and del :: "'h \<Rightarrow> 'a \<Rightarrow> 'h option"
    and rep :: "'h \<Rightarrow> 'a \<Rightarrow> 'a list \<Rightarrow> bool"
    and live :: "'h \<Rightarrow> 'a set"
  assumes rep_live: "rep h l xs \<Longrightarrow> set (l # xs) \<subseteq> live h"
    and rep_distinct: "rep h l xs \<Longrightarrow> distinct (l # xs)"
    and add_law: "rep h l xs \<Longrightarrow> e \<in> live h \<Longrightarrow> e \<notin> set (l # xs) \<Longrightarrow>
      \<exists>h'. add h e l = Some h' \<and> rep h' l (e # xs) \<and> live h' = live h \<and>
        (\<forall>k zs. rep h k zs \<longrightarrow> set (k # zs) \<inter> set (e # l # xs) = {} \<longrightarrow> rep h' k zs)"
    and add_tail_law: "rep h l xs \<Longrightarrow> e \<in> live h \<Longrightarrow> e \<notin> set (l # xs) \<Longrightarrow>
      \<exists>h'. add_tail h e l = Some h' \<and> rep h' l (xs @ [e]) \<and> live h' = live h \<and>
        (\<forall>k zs. rep h k zs \<longrightarrow> set (k # zs) \<inter> set (e # l # xs) = {} \<longrightarrow> rep h' k zs)"
    and del_law: "rep h l (xs @ e # ys) \<Longrightarrow>
      \<exists>h'. del h e = Some h' \<and> rep h' l (xs @ ys) \<and> live h' = live h \<and>
        (\<forall>k zs. rep h k zs \<longrightarrow> set (k # zs) \<inter> set (l # xs @ e # ys) = {} \<longrightarrow> rep h' k zs)"
begin

lemma move_to_front:
  assumes "rep h f (xs @ e # ys)" and "rep h u us"
    and "set (f # xs @ e # ys) \<inter> set (u # us) = {}"
  shows "\<exists>h1 h2. del h e = Some h1 \<and> add h1 e u = Some h2 \<and>
    rep h2 f (xs @ ys) \<and> rep h2 u (e # us) \<and> live h2 = live h"
proof -
  obtain h1 where h1: "del h e = Some h1" "rep h1 f (xs @ ys)" "live h1 = live h"
    and fr: "\<forall>k zs. rep h k zs \<longrightarrow> set (k # zs) \<inter> set (f # xs @ e # ys) = {} \<longrightarrow> rep h1 k zs"
    using del_law [OF assms(1)] by blast
  have u: "rep h1 u us" using fr assms(2,3) by blast
  have "e \<in> live h1" "e \<notin> set (u # us)" using rep_live [OF assms(1)] h1(3) assms(3) by auto
  then obtain h2 where h2: "add h1 e u = Some h2" "rep h2 u (e # us)" "live h2 = live h1"
    and fr2: "\<forall>k zs. rep h1 k zs \<longrightarrow> set (k # zs) \<inter> set (e # u # us) = {} \<longrightarrow> rep h2 k zs"
    using add_law [OF u] by blast
  have "rep h2 f (xs @ ys)"
    using fr2 h1(2) assms(3) rep_distinct [OF assms(1)] by fastforce
  then show ?thesis using h1 h2 by auto
qed

lemma queue_round:
  assumes "rep h q xs" and "e \<in> live h" and "e \<notin> set (q # xs)"
  shows "\<exists>h1 h2. add_tail h e q = Some h1 \<and> del h1 (hd (xs @ [e])) = Some h2 \<and>
    rep h2 q (tl (xs @ [e]))"
proof -
  obtain h1 where h1: "add_tail h e q = Some h1" "rep h1 q (xs @ [e])"
    using add_tail_law [OF assms] by blast
  have "rep h1 q ([] @ hd (xs @ [e]) # tl (xs @ [e]))" using h1(2) by simp
  from del_law [OF this] obtain h2 where "del h1 (hd (xs @ [e])) = Some h2" "rep h2 q (tl (xs @ [e]))"
    by auto
  with h1 show ?thesis by blast
qed

end

interpretation dl: link_list dlist_add dlist_add_tail dlist_del dlist dom
proof unfold_locales
  fix h :: dheap and l xs e ys
  show "set (l # xs) \<subseteq> dom h" if "dlist h l xs" using dlist_in_dom [OF that] .
  show "distinct (l # xs)" if "dlist h l xs" using that by (simp add: dlist_def)
  show "\<exists>h'. dlist_add h e l = Some h' \<and> dlist h' l (e # xs) \<and> dom h' = dom h \<and>
      (\<forall>k zs. dlist h k zs \<longrightarrow> set (k # zs) \<inter> set (e # l # xs) = {} \<longrightarrow> dlist h' k zs)"
    if "dlist h l xs" "e \<in> dom h" "e \<notin> set (l # xs)"
    using dlist_insert [of h l "[]" xs e] dlist_links [of h l "[]" xs] that
    by (simp add: dlist_add_def)
  show "\<exists>h'. dlist_add_tail h e l = Some h' \<and> dlist h' l (xs @ [e]) \<and> dom h' = dom h \<and>
      (\<forall>k zs. dlist h k zs \<longrightarrow> set (k # zs) \<inter> set (e # l # xs) = {} \<longrightarrow> dlist h' k zs)"
    if "dlist h l xs" "e \<in> dom h" "e \<notin> set (l # xs)"
    using dlist_insert [of h l xs "[]" e] dlist_links [of h l xs "[]"] that
    by (simp add: dlist_add_tail_def)
  show "\<exists>h'. dlist_del h e = Some h' \<and> dlist h' l (xs @ ys) \<and> dom h' = dom h \<and>
      (\<forall>k zs. dlist h k zs \<longrightarrow> set (k # zs) \<inter> set (l # xs @ e # ys) = {} \<longrightarrow> dlist h' k zs)"
    if "dlist h l (xs @ e # ys)"
    using dlist_delete [OF that] by blast
qed

subsection \<open>Properties\<close>

text \<open>A heap with a list of two entries, a list of one entry and a free entry, for the examples.\<close>

definition demo_heap :: dheap where
  "demo_heap = Map.empty(1 \<mapsto> \<lparr>dl_next = 2, dl_prev = 3\<rparr>, 2 \<mapsto> \<lparr>dl_next = 3, dl_prev = 1\<rparr>,
     3 \<mapsto> \<lparr>dl_next = 1, dl_prev = 2\<rparr>, 4 \<mapsto> \<lparr>dl_next = 0, dl_prev = 0\<rparr>,
     5 \<mapsto> \<lparr>dl_next = 6, dl_prev = 6\<rparr>, 6 \<mapsto> \<lparr>dl_next = 5, dl_prev = 5\<rparr>)"

lemma demo_heap_rep: "dlist demo_heap 1 [2, 3]" "dlist demo_heap 5 [6]" "4 \<in> dom demo_heap"
  by (simp_all add: dlist_def demo_heap_def get_next_def get_prev_def)

text \<open>\<^verbatim>\<open>dlist_add_tail(entry, e)\<close> called on any element \<open>e\<close> of a list (or on its head) inserts the
  new entry right before it: on a list that represents \<open>xs @ ys\<close>, inserting before the first element
  of \<open>ys\<close> (before the head when \<open>ys\<close> is empty) never faults and gives \<open>xs @ entry # ys\<close>, and no other
  list of the heap changes.\<close>

theorem dlist_add_tail_inserts_before:
  assumes "dlist h head (xs @ ys)" and "entry \<in> dom h" and "entry \<notin> set (head # xs @ ys)"
  shows "\<exists>h'. dlist_add_tail h entry (hd (ys @ [head])) = Some h' \<and>
    dlist h' head (xs @ entry # ys) \<and>
    (\<forall>k zs. dlist h k zs \<longrightarrow> set (k # zs) \<inter> set (entry # head # xs @ ys) = {} \<longrightarrow> dlist h' k zs)"
  using dlist_insert [OF assms] dlist_links(2) [OF assms(1)] by (auto simp: dlist_add_tail_def)

theorem dlist_add_tail_inserts_before_witness:
  "\<exists>h'. dlist_add_tail demo_heap 4 3 = Some h' \<and> dlist h' 1 [2, 4, 3] \<and> dlist h' 5 [6]"
  using dlist_add_tail_inserts_before [of demo_heap 1 "[2]" "[3]" 4] demo_heap_rep by force

text \<open>C34: Taking an entry out of one list and putting it at the front of another, the move by which the
  pools hand out and take back their slots, never faults and does on the links what it does on the
  sequences: the entry leaves the first list and heads the second.\<close>

theorem dlist_move_refines:
  assumes "dlist h f (xs @ e # ys)" and "dlist h u us"
    and "set (f # xs @ e # ys) \<inter> set (u # us) = {}"
  shows "\<exists>h1 h2. dlist_del h e = Some h1 \<and> dlist_add h1 e u = Some h2 \<and>
    dlist h2 f (xs @ ys) \<and> dlist h2 u (e # us) \<and> dom h2 = dom h"
  using assms by (rule dl.move_to_front)

theorem dlist_move_refines_witness:
  "\<exists>h1 h2. dlist_del demo_heap 2 = Some h1 \<and> dlist_add h1 2 5 = Some h2 \<and>
    dlist h2 1 [3] \<and> dlist h2 5 [2, 6] \<and> dom h2 = dom demo_heap"
  using dlist_move_refines [of demo_heap 1 "[]" 2 "[3]" 5 "[6]"] demo_heap_rep by force

text \<open>Deleting an entry twice is a memory fault: the first \<^verbatim>\<open>dlist_del\<close> succeeds and clears the
  entry's links, so the second one follows a null pointer. (An entry must be unlinked exactly once.)\<close>

theorem dlist_double_delete_faults:
  assumes "dlist h head (xs @ e # ys)"
  shows "\<exists>h'. dlist_del h e = Some h' \<and> dlist h' head (xs @ ys) \<and> dlist_del h' e = None"
proof -
  obtain h' where h': "dlist_del h e = Some h'" "dlist h' head (xs @ ys)"
    "get_next h' e = Some 0" "get_prev h' e = Some 0"
    using dlist_delete [OF assms] by blast
  have "set_prev h' 0 0 = None" using h'(2) by (simp add: dlist_def set_prev_def)
  then show ?thesis using h' by (simp add: dlist_del_def dlist_del_between_def)
qed

theorem dlist_double_delete_faults_witness:
  "\<exists>h'. dlist_del demo_heap 2 = Some h' \<and> dlist h' 1 [3] \<and> dlist_del h' 2 = None"
  using dlist_double_delete_faults [of demo_heap 1 "[]" 2 "[3]"] demo_heap_rep by simp

lemma dlist_walk_steps:
  assumes "dlist h head (xs @ ys)"
  shows "dlist_get_next h (last (0 # xs)) head = Some (hd (ys @ [0]))"
    and "dlist_get_prev h (hd (ys @ [0])) head = Some (last (0 # xs))"
    and "dlist_empty h head = Some (xs @ ys = [])"
proof -
  have z: "0 \<notin> set (head # xs @ ys)" using assms dlist_in_dom [OF assms] by (auto simp: dlist_def)
  have d: "head \<notin> set (xs @ ys)" using assms by (simp add: dlist_def)
  note links = dlist_links [OF assms]
  show "dlist_get_next h (last (0 # xs)) head = Some (hd (ys @ [0]))"
    using links(1) z d by (cases xs rule: rev_cases; cases ys) (auto simp: dlist_get_next_def)
  show "dlist_get_prev h (hd (ys @ [0])) head = Some (last (0 # xs))"
    using links(2) z d by (cases xs rule: rev_cases; cases ys) (auto simp: dlist_get_prev_def)
  have "get_next h head = Some (hd ((xs @ ys) @ [head]))"
    using dlist_links(1) [of h head "[]" "xs @ ys"] assms by simp
  then show "dlist_empty h head = Some (xs @ ys = [])"
    using d by (cases "xs @ ys") (auto simp: dlist_empty_def)
qed

text \<open>Walking a list with \<^verbatim>\<open>dlist_get_next\<close> from \<^verbatim>\<open>NULL\<close> visits its entries in order and ends with
  \<^verbatim>\<open>NULL\<close>, and \<^verbatim>\<open>dlist_get_prev\<close> visits them backwards; \<^verbatim>\<open>dlist_empty\<close> tests for the empty sequence.\<close>

theorem dlist_walk:
  assumes "dlist h head (xs @ ys)"
  shows "dlist_get_next h (last (0 # xs)) head = Some (hd (ys @ [0])) \<and>
    dlist_get_prev h (hd (ys @ [0])) head = Some (last (0 # xs)) \<and>
    dlist_empty h head = Some (xs @ ys = [])"
  using dlist_walk_steps [OF assms] by simp

theorem dlist_walk_witness:
  "dlist_get_next demo_heap 2 1 = Some 3 \<and> dlist_get_prev demo_heap 3 1 = Some 2 \<and>
   dlist_empty demo_heap 1 = Some False"
  using dlist_walk [of demo_heap 1 "[2]" "[3]"] demo_heap_rep by simp

end
