(* ===== verification/Strobj.thy ===== *)
theory Strobj
  imports Cmodel_Prelude
begin

text \<open>
  The growing string object of \<^verbatim>\<open>comlib/strobj.c\<close>: a heap buffer of \<^verbatim>\<open>total + 1\<close> characters of which
  the first \<^verbatim>\<open>size\<close> are used. A handle is \<open>strobj option\<close> (\<open>None\<close> for \<^verbatim>\<open>NULL\<close>). An operation that writes
  the buffer returns \<open>None\<close> when the C code would write through a null pointer or outside the block.
  \<open>so_wf\<close> is the invariant of the fields, \<open>so_term\<close> adds the terminating NUL, and \<open>so_str\<close> is the
  text an object holds.
\<close>

subsection \<open>Allocation\<close>

text \<open>The allocator behind \<^verbatim>\<open>xmalloc\<close> and \<^verbatim>\<open>xrealloc\<close>: which sizes it grants, and what the bytes of a
  fresh block happen to be. A grown block keeps its old contents.\<close>

record xalloc =
  grants :: "nat \<Rightarrow> bool"
  junk :: "nat \<Rightarrow> char"

definition xmalloc :: "xalloc \<Rightarrow> nat \<Rightarrow> char list option" where
  "xmalloc A n = (if grants A n then Some (map (junk A) [0..<n]) else None)"

definition xrealloc :: "xalloc \<Rightarrow> char list \<Rightarrow> nat \<Rightarrow> char list option" where
  "xrealloc A b n = (if grants A n then Some (take n b @ map (junk A) [length b..<n]) else None)"

definition xa_ok :: "(nat \<Rightarrow> char) \<Rightarrow> xalloc" where
  "xa_ok j = \<lparr>grants = (\<lambda>_. True), junk = j\<rparr>"

subsection \<open>The object and its operations\<close>

record strobj =
  so_flags :: u32
  total :: nat
  sz :: nat
  buff :: "char list option"

definition STROBJ_STEP_SIZE :: nat where "STROBJ_STEP_SIZE = 32"

definition SIZEOF_STROBJ :: nat where "SIZEOF_STROBJ = 24"

definition so_zero :: strobj where
  "so_zero = \<lparr>so_flags = 0, total = 0, sz = 0, buff = None\<rparr>"

definition sobj_new :: "xalloc \<Rightarrow> strobj option" where
  "sobj_new A = (if grants A SIZEOF_STROBJ then Some so_zero else None)"

definition sobj_del :: "strobj option \<Rightarrow> strobj option" where
  "sobj_del h = None"

text \<open>\<^verbatim>\<open>total - size\<close> in the unsigned arithmetic of \<^verbatim>\<open>size_t\<close> (32 bits).\<close>

definition so_room :: "strobj \<Rightarrow> nat" where
  "so_room s = (if sz s \<le> total s then total s - sz s else total s + 2 ^ 32 - sz s)"

definition inc_space :: "xalloc \<Rightarrow> strobj \<Rightarrow> int \<times> strobj" where
  "inc_space A s =
     (let s' = (case buff s of
          Some b \<Rightarrow> s\<lparr>total := total s + STROBJ_STEP_SIZE,
                       buff := xrealloc A b (total s + STROBJ_STEP_SIZE + 1)\<rparr>
        | None \<Rightarrow> s\<lparr>total := STROBJ_STEP_SIZE, buff := xmalloc A (STROBJ_STEP_SIZE + 1)\<rparr>)
      in (if buff s' = None then -1 else 0, s'))"

definition sobj_inc_space :: "xalloc \<Rightarrow> strobj option \<Rightarrow> int \<times> strobj option" where
  "sobj_inc_space A h = (case h of
      None \<Rightarrow> (-1, None)
    | Some s \<Rightarrow> (let (r, s') = inc_space A s in (r, Some s')))"

definition add_char :: "xalloc \<Rightarrow> strobj \<Rightarrow> char \<Rightarrow> (int \<times> strobj) option" where
  "add_char A s c =
     (let (r, s1) = (if so_room s < 1 then inc_space A s else (0, s)) in
      if r < 0 then Some (-1, s1)
      else do {
        b \<leftarrow> buff s1;
        b \<leftarrow> wr b (sz s1) c;
        b \<leftarrow> wr b (sz s1 + 1) NUL;
        Some (0, s1\<lparr>buff := Some b, sz := sz s1 + 1\<rparr>) })"

definition sobj_add_char :: "xalloc \<Rightarrow> strobj option \<Rightarrow> char \<Rightarrow> (int \<times> strobj option) option" where
  "sobj_add_char A h c = (case h of
      None \<Rightarrow> Some (-1, None)
    | Some s \<Rightarrow> do { (r, s') \<leftarrow> add_char A s c; Some (r, Some s') })"

text \<open>The growing loop of \<^verbatim>\<open>sobj_add_string\<close>.\<close>

function grow :: "xalloc \<Rightarrow> nat \<Rightarrow> strobj \<Rightarrow> int \<times> strobj" where
  "grow A i s = (if so_room s < i then
       (if fst (inc_space A s) < 0 then (-1, snd (inc_space A s))
        else grow A i (snd (inc_space A s)))
     else (0, s))"
  by pat_completeness auto
termination
proof (relation "measures [\<lambda>(A, i, s). if buff s = None then 1 else 0,
    \<lambda>(A, i, s). i + sz s - total s]")
  fix A i s
  assume room: "so_room s < i" and ok: "\<not> fst (inc_space A s) < 0"
  show "((A, i, snd (inc_space A s)), A, i, s) \<in> measures
     [\<lambda>(A, i, s). if buff s = None then 1 else 0, \<lambda>(A, i, s). i + sz s - total s]"
    using room ok
    by (cases "buff s")
      (auto simp: inc_space_def Let_def so_room_def STROBJ_STEP_SIZE_def split: if_splits)
qed simp

declare grow.simps [simp del]

definition add_string :: "xalloc \<Rightarrow> strobj \<Rightarrow> char list \<Rightarrow> (int \<times> strobj) option" where
  "add_string A s str =
     (if length str = 0 then Some (0, s)
      else (let (r, s1) = grow A (length str) s in
        if r < 0 then Some (-1, s1)
        else do {
          b \<leftarrow> buff s1;
          b \<leftarrow> blit b (sz s1) (str @ [NUL]);
          Some (0, s1\<lparr>buff := Some b, sz := sz s1 + length str\<rparr>) }))"

definition sobj_add_string ::
    "xalloc \<Rightarrow> strobj option \<Rightarrow> char list option \<Rightarrow> (int \<times> strobj option) option" where
  "sobj_add_string A h str = (case h of
      None \<Rightarrow> Some (-1, None)
    | Some s \<Rightarrow> (case str of
        None \<Rightarrow> Some (0, Some s)
      | Some t \<Rightarrow> do { (r, s') \<leftarrow> add_string A s t; Some (r, Some s') }))"

definition sobj_free :: "strobj option \<Rightarrow> int \<times> strobj option" where
  "sobj_free h = (case h of None \<Rightarrow> (-1, None) | Some s \<Rightarrow> (0, Some so_zero))"

text \<open>\<open>out\<close> is the whole expansion of the format string (\<open>None\<close> for a null format);
  \<^verbatim>\<open>vsnprintf\<close> into 1024 bytes keeps at most 1023 characters of it.\<close>

definition sobj_format ::
    "xalloc \<Rightarrow> strobj option \<Rightarrow> char list option \<Rightarrow> (int \<times> strobj option) option" where
  "sobj_format A h out = (case h of
      None \<Rightarrow> Some (-1, None)
    | Some s \<Rightarrow> (let h1 = snd (sobj_free (Some s)) in
        case out of
          None \<Rightarrow> Some (0, h1)
        | Some t \<Rightarrow> do { (r, h2) \<leftarrow> sobj_add_string A h1 (Some (take 1023 t)); Some (0, h2) }))"

definition sobj_add_format ::
    "xalloc \<Rightarrow> strobj option \<Rightarrow> char list option \<Rightarrow> (int \<times> strobj option) option" where
  "sobj_add_format A h out = (case h of
      None \<Rightarrow> Some (-1, None)
    | Some s \<Rightarrow> (case out of
        None \<Rightarrow> Some (0, Some s)
      | Some t \<Rightarrow> do { (r, h2) \<leftarrow> sobj_add_string A (Some s) (Some (take 1023 t)); Some (0, h2) }))"

text \<open>The string functions return pointers into the buffer: the block they point to.\<close>

definition sobj_get_string :: "strobj option \<Rightarrow> char list option" where
  "sobj_get_string h = (case h of
      None \<Rightarrow> None
    | Some s \<Rightarrow> Some (case buff s of Some b \<Rightarrow> b | None \<Rightarrow> [NUL]))"

definition xstrdup :: "xalloc \<Rightarrow> char list \<Rightarrow> char list option option" where
  "xstrdup A b = do { t \<leftarrow> cstr b;
     Some (if grants A (length t + 1) then Some (t @ [NUL]) else None) }"

definition sobj_strdup :: "xalloc \<Rightarrow> strobj option \<Rightarrow> char list option option" where
  "sobj_strdup A h = (case h of
      None \<Rightarrow> Some None
    | Some s \<Rightarrow> (case buff s of Some b \<Rightarrow> xstrdup A b | None \<Rightarrow> xstrdup A [NUL]))"

definition sobj_get_flags :: "strobj option \<Rightarrow> u32" where
  "sobj_get_flags h = (case h of None \<Rightarrow> 0 | Some s \<Rightarrow> so_flags s)"

definition sobj_strcpy ::
    "xalloc \<Rightarrow> strobj option \<Rightarrow> char list option \<Rightarrow> (int \<times> strobj option) option" where
  "sobj_strcpy A h str = (case h of
      None \<Rightarrow> Some (-1, None)
    | Some s \<Rightarrow> sobj_add_string A (Some (s\<lparr>sz := 0, so_flags := 0\<rparr>)) str)"

definition sobj_move :: "strobj option \<Rightarrow> strobj option \<Rightarrow> int \<times> strobj option \<times> strobj option" where
  "sobj_move tobj fobj = (case (tobj, fobj) of
      (Some t, Some f) \<Rightarrow> (0, Some (t\<lparr>buff := buff f, total := total f, sz := sz f,
                                   so_flags := so_flags f\<rparr>), Some so_zero)
    | _ \<Rightarrow> (-1, tobj, fobj))"

definition sobj_get_char :: "strobj option \<Rightarrow> nat \<Rightarrow> char option" where
  "sobj_get_char h i = (case h of
      None \<Rightarrow> Some NUL
    | Some s \<Rightarrow> (case buff s of
        None \<Rightarrow> Some NUL
      | Some b \<Rightarrow> if i > sz s then Some NUL else rd b i))"

definition sobj_get_length :: "strobj option \<Rightarrow> nat" where
  "sobj_get_length h = (case h of None \<Rightarrow> 0 | Some s \<Rightarrow> sz s)"

definition sobj_empty :: "strobj option \<Rightarrow> int" where
  "sobj_empty h = (if sobj_get_length h = 0 then 1 else 0)"

text \<open>\<^verbatim>\<open>sobj_split\<close>: the new object, and the old one cut at \<open>at\<close>.\<close>

definition sobj_split ::
    "xalloc \<Rightarrow> strobj option \<Rightarrow> nat \<Rightarrow> (strobj option \<times> strobj option) option" where
  "sobj_split A h at = (case h of
      None \<Rightarrow> Some (None, None)
    | Some s \<Rightarrow> (case sobj_new A of
        None \<Rightarrow> Some (None, Some s)
      | Some n \<Rightarrow>
          if at \<ge> sz s then Some (Some n, Some s)
          else do {
            b \<leftarrow> buff s;
            t \<leftarrow> cstr (drop at b);
            (r, n') \<leftarrow> sobj_add_string A (Some n) (Some t);
            if r < 0 then Some (sobj_del n', Some s)
            else do {
              b' \<leftarrow> wr b at NUL;
              l \<leftarrow> cstr b';
              Some (n', Some (s\<lparr>buff := Some b', sz := length l\<rparr>)) } }))"

subsection \<open>Searching and comparing\<close>

fun strchr :: "char list \<Rightarrow> char \<Rightarrow> nat option" where
  "strchr [] c = (if c = NUL then Some 0 else None)"
| "strchr (x # xs) c = (if x = c then Some 0 else map_option Suc (strchr xs c))"

definition strrchr :: "char list \<Rightarrow> char \<Rightarrow> nat option" where
  "strrchr s c = (if c = NUL then Some (length s)
     else if c \<in> set s then Some (length s - 1 - length (takeWhile (\<lambda>x. x \<noteq> c) (rev s))) else None)"

fun strstr :: "char list \<Rightarrow> char list \<Rightarrow> nat option" where
  "strstr [] t = (if t = [] then Some 0 else None)"
| "strstr (x # xs) t = (if take (length t) (x # xs) = t then Some 0 else map_option Suc (strstr xs t))"

text \<open>The sign of \<^verbatim>\<open>strcmp\<close>, \<^verbatim>\<open>strncmp\<close> and their case-insensitive variants (the C library specifies no
  more than the sign); characters compare as unsigned.\<close>

fun strcmp :: "char list \<Rightarrow> char list \<Rightarrow> int" where
  "strcmp [] [] = 0"
| "strcmp [] (y # ys) = -1"
| "strcmp (x # xs) [] = 1"
| "strcmp (x # xs) (y # ys) =
     (if uchar x < uchar y then -1 else if uchar y < uchar x then 1 else strcmp xs ys)"

definition strncmp :: "char list \<Rightarrow> char list \<Rightarrow> nat \<Rightarrow> int" where
  "strncmp a b n = strcmp (take n a) (take n b)"

definition tolower :: "char \<Rightarrow> char" where
  "tolower c = (if 65 \<le> uchar c \<and> uchar c \<le> 90 then to_char (uchar c + 32) else c)"

definition strcasecmp :: "char list \<Rightarrow> char list \<Rightarrow> int" where
  "strcasecmp a b = strcmp (map tolower a) (map tolower b)"

definition strncasecmp :: "char list \<Rightarrow> char list \<Rightarrow> nat \<Rightarrow> int" where
  "strncasecmp a b n = strcasecmp (take n a) (take n b)"

definition so_find :: "(char list \<Rightarrow> nat option) \<Rightarrow> strobj option \<Rightarrow> int option" where
  "so_find f h = (case h of
      None \<Rightarrow> Some (-1)
    | Some s \<Rightarrow> (case buff s of
        None \<Rightarrow> Some (-1)
      | Some b \<Rightarrow> do { t \<leftarrow> cstr b; Some (case f t of Some i \<Rightarrow> int i | None \<Rightarrow> -1) }))"

definition sobj_strchr :: "strobj option \<Rightarrow> char \<Rightarrow> int option" where
  "sobj_strchr h c = so_find (\<lambda>t. strchr t c) h"

definition sobj_strrchr :: "strobj option \<Rightarrow> char \<Rightarrow> int option" where
  "sobj_strrchr h c = so_find (\<lambda>t. strrchr t c) h"

definition sobj_strstr :: "strobj option \<Rightarrow> char list \<Rightarrow> int option" where
  "sobj_strstr h str = so_find (\<lambda>t. strstr t str) h"

definition so_compare :: "(char list \<Rightarrow> int) \<Rightarrow> strobj option \<Rightarrow> int option" where
  "so_compare f h = (case h of
      None \<Rightarrow> Some (-1)
    | Some s \<Rightarrow> do { t \<leftarrow> cstr (case buff s of Some b \<Rightarrow> b | None \<Rightarrow> [NUL]); Some (f t) })"

definition sobj_strcmp :: "strobj option \<Rightarrow> char list \<Rightarrow> int option" where
  "sobj_strcmp h s = so_compare (\<lambda>t. strcmp t s) h"

definition sobj_strncmp :: "strobj option \<Rightarrow> char list \<Rightarrow> nat \<Rightarrow> int option" where
  "sobj_strncmp h s n = so_compare (\<lambda>t. strncmp t s n) h"

definition sobj_strcasecmp :: "strobj option \<Rightarrow> char list \<Rightarrow> int option" where
  "sobj_strcasecmp h s = so_compare (\<lambda>t. strcasecmp t s) h"

definition sobj_strncasecmp :: "strobj option \<Rightarrow> char list \<Rightarrow> nat \<Rightarrow> int option" where
  "sobj_strncasecmp h s n = so_compare (\<lambda>t. strncasecmp t s n) h"

subsection \<open>Removing characters\<close>

text \<open>The shifting loop of \<^verbatim>\<open>sobj_remove_char\<close>: \<open>n\<close> counts the iterations left.\<close>

fun shift_down :: "char list \<Rightarrow> nat \<Rightarrow> nat \<Rightarrow> char list option" where
  "shift_down b at 0 = Some b"
| "shift_down b at (Suc n) = do {
     c \<leftarrow> rd b (at + 1);
     b \<leftarrow> wr b at c;
     shift_down b (at + 1) n }"

definition sobj_remove_char :: "strobj option \<Rightarrow> nat \<Rightarrow> (int \<times> strobj option) option" where
  "sobj_remove_char h at = (case h of
      None \<Rightarrow> Some (-1, None)
    | Some s \<Rightarrow> (case buff s of
        None \<Rightarrow> Some (-1, Some s)
      | Some b \<Rightarrow>
          if at \<ge> sz s then Some (-1, Some s)
          else do {
            b' \<leftarrow> shift_down b at (sz s - at);
            Some (0, Some (s\<lparr>buff := Some b', sz := sz s - 1\<rparr>)) }))"

definition sobj_remove_tail :: "strobj option \<Rightarrow> (int \<times> strobj option) option" where
  "sobj_remove_tail h = (case h of
      None \<Rightarrow> Some (-1, None)
    | Some s \<Rightarrow> (case buff s of
        None \<Rightarrow> Some (-1, Some s)
      | Some b \<Rightarrow>
          if sz s > 0 then do {
            b' \<leftarrow> wr b (sz s - 1) NUL;
            Some (0, Some (s\<lparr>sz := sz s - 1, buff := Some b'\<rparr>)) }
          else Some (0, Some s)))"

subsection \<open>The invariant\<close>

definition so_wf :: "strobj \<Rightarrow> bool" where
  "so_wf s \<longleftrightarrow> (case buff s of
      None \<Rightarrow> total s = 0 \<and> sz s = 0
    | Some b \<Rightarrow> length b = total s + 1 \<and> sz s \<le> total s)"

definition so_term :: "strobj \<Rightarrow> bool" where
  "so_term s \<longleftrightarrow> so_wf s \<and> (case buff s of None \<Rightarrow> True | Some b \<Rightarrow> b ! sz s = NUL)"

definition so_str :: "strobj \<Rightarrow> char list" where
  "so_str s = (case buff s of None \<Rightarrow> [] | Some b \<Rightarrow> take (sz s) b)"

text \<open>A terminated object whose text holds no NUL: what C string functions see is its text.\<close>

definition so_text :: "strobj \<Rightarrow> char list \<Rightarrow> bool" where
  "so_text s t \<longleftrightarrow> so_term s \<and> so_str s = t \<and> NUL \<notin> set t"

lemma so_term_wf: "so_term s \<Longrightarrow> so_wf s"
  by (simp add: so_term_def)

lemma so_zero_term [simp]: "so_term so_zero" "so_wf so_zero" "so_str so_zero = []"
  by (simp_all add: so_term_def so_wf_def so_zero_def so_str_def)

lemma so_str_length: "so_wf s \<Longrightarrow> length (so_str s) = sz s"
  by (auto simp: so_wf_def so_str_def split: option.splits)

lemma so_text_cstr:
  assumes "so_text s t"
  shows "cstr (case buff s of Some b \<Rightarrow> b | None \<Rightarrow> [NUL]) = Some t"
  using assms
  by (auto simp: so_text_def so_term_def so_wf_def so_str_def intro!: cstr_take split: option.splits)

lemma xrealloc_Some:
  "xrealloc A b n = Some b' \<Longrightarrow> length b \<le> n \<Longrightarrow> length b' = n \<and> take (length b) b' = b"
  by (auto simp: xrealloc_def split: if_splits)

lemma xmalloc_Some: "xmalloc A n = Some b \<Longrightarrow> length b = n"
  by (auto simp: xmalloc_def split: if_splits)

lemma inc_space_fields [simp]:
  "sz (snd (inc_space A s)) = sz s" "so_flags (snd (inc_space A s)) = so_flags s"
  by (simp_all add: inc_space_def Let_def split: option.split)

lemma inc_space_ret:
  "fst (inc_space A s) = (if buff (snd (inc_space A s)) = None then -1 else 0)"
  by (simp add: inc_space_def Let_def)

lemma inc_space_ok:
  assumes "so_wf s" and "buff (snd (inc_space A s)) \<noteq> None"
  shows "so_wf (snd (inc_space A s)) \<and> so_str (snd (inc_space A s)) = so_str s \<and>
    total (snd (inc_space A s)) = total s + 32"
proof (cases "buff s")
  case None
  with assms show ?thesis
    by (auto simp: inc_space_def Let_def so_wf_def so_str_def STROBJ_STEP_SIZE_def
        dest: xmalloc_Some split: option.splits)
next
  case (Some b)
  with assms obtain b' where b': "xrealloc A b (33 + total s) = Some b'" "length b = total s + 1"
    "sz s \<le> total s"
    by (auto simp: inc_space_def Let_def so_wf_def STROBJ_STEP_SIZE_def add.commute)
  then have "length b' = total s + 33" "take (length b) b' = b"
    using xrealloc_Some [OF b'(1)] by auto
  moreover from this b'(2,3) have "take (sz s) b' = take (sz s) b"
    by (metis le_SucI min.absorb1 Suc_eq_plus1 take_take)
  ultimately show ?thesis
    using Some b' by (simp add: inc_space_def Let_def so_wf_def so_str_def STROBJ_STEP_SIZE_def)
qed

lemma inc_space_granted: "buff (snd (inc_space (xa_ok j) s)) \<noteq> None"
  by (auto simp: inc_space_def Let_def xa_ok_def xrealloc_def xmalloc_def split: option.splits)

lemma so_room_wf: "so_wf s \<Longrightarrow> so_room s = total s - sz s"
  by (auto simp: so_wf_def so_room_def split: option.splits)

text \<open>Writing one character (and a NUL after it) when there is room.\<close>

lemma put_char_room:
  assumes "so_wf s" and "buff s = Some b" and "sz s < total s"
  shows "\<exists>s'. add_char A s c = Some (0, s') \<and> so_term s' \<and> so_str s' = so_str s @ [c] \<and>
    so_flags s' = so_flags s"
proof -
  have b: "length b = total s + 1" using assms by (simp add: so_wf_def)
  then have "take (Suc (sz s)) (b[sz s := c, Suc (sz s) := NUL]) = take (sz s) b @ [c]"
    using assms(3) by (simp add: take_Suc_upd)
  moreover have "1 \<le> so_room s" using assms so_room_wf by fastforce
  ultimately show ?thesis
    using assms b by (simp add: add_char_def so_term_def so_wf_def so_str_def)
qed

lemma add_char_spec:
  assumes "so_wf s"
  shows "(\<exists>s'. add_char A s c = Some (0, s') \<and> so_term s' \<and> so_str s' = so_str s @ [c] \<and>
      so_flags s' = so_flags s) \<or>
    (\<exists>s'. add_char A s c = Some (-1, s') \<and> buff s' = None \<and> sz s' = sz s \<and> 1 \<le> so_room s' \<and>
      \<not> grants A (total s + 33))"
proof (cases "so_room s < 1")
  case False
  then obtain b where b: "buff s = Some b"
    using assms by (cases "buff s") (auto simp: so_wf_def so_room_def)
  have "sz s < total s" using False assms so_room_wf by fastforce
  then show ?thesis using put_char_room [OF assms b] by blast
next
  case True
  let ?s1 = "snd (inc_space A s)"
  show ?thesis
  proof (cases "buff ?s1")
    case None
    have "add_char A s c = Some (-1, ?s1)"
      using True None inc_space_ret [of A s] by (cases "inc_space A s") (simp add: add_char_def)
    moreover have "1 \<le> so_room ?s1 \<and> \<not> grants A (total s + 33)"
      using None assms
      by (auto simp: inc_space_def Let_def so_wf_def so_room_def STROBJ_STEP_SIZE_def
          xrealloc_def xmalloc_def add.commute split: option.splits if_splits)
    ultimately show ?thesis using None by auto
  next
    case (Some b)
    with assms have w: "so_wf ?s1" "so_str ?s1 = so_str s" "total ?s1 = total s + 32"
      using inc_space_ok by auto
    have "sz ?s1 < total ?s1" using w(3) True assms so_room_wf [OF assms]
      by (auto simp: so_wf_def split: option.splits)
    from put_char_room [OF w(1) Some this, of A c]
    obtain s' where s': "add_char A ?s1 c = Some (0, s')" "so_term s'"
      "so_str s' = so_str s @ [c]" "so_flags s' = so_flags s"
      using w(2) by auto
    have "\<not> so_room ?s1 < 1" using so_room_wf [OF w(1)] \<open>sz ?s1 < total ?s1\<close> by simp
    then have "add_char A s c = add_char A ?s1 c"
      using True Some inc_space_ret [of A s] by (cases "inc_space A s") (simp add: add_char_def)
    with s' show ?thesis by auto
  qed
qed

lemma grow_spec:
  assumes "so_wf s"
  shows "(\<exists>s'. grow A i s = (0, s') \<and> so_wf s' \<and> so_str s' = so_str s \<and> sz s' = sz s \<and>
      so_flags s' = so_flags s \<and> sz s' + i \<le> total s') \<or>
    (\<exists>s'. grow A i s = (-1, s') \<and> buff s' = None \<and> (\<exists>n. \<not> grants A n))"
  using assms
proof (induction A i s rule: grow.induct)
  case (1 A i s)
  let ?s1 = "snd (inc_space A s)"
  have le: "sz s \<le> total s" using "1.prems" by (auto simp: so_wf_def split: option.splits)
  show ?case
  proof (cases "so_room s < i")
    case False
    then show ?thesis using "1.prems" le so_room_wf [of s] by (simp add: grow.simps [of A i s])
  next
    case True
    show ?thesis
    proof (cases "buff ?s1")
      case None
      moreover from None have "\<exists>n. \<not> grants A n"
        by (auto simp: inc_space_def Let_def xrealloc_def xmalloc_def split: option.splits if_splits)
      ultimately show ?thesis
        using True inc_space_ret [of A s] by (simp add: grow.simps [of A i s])
    next
      case (Some b)
      with "1.prems" have w: "so_wf ?s1" "so_str ?s1 = so_str s" using inc_space_ok by auto
      have ret: "\<not> fst (inc_space A s) < 0" using Some inc_space_ret [of A s] by simp
      then have "grow A i s = grow A i ?s1" using True by (simp add: grow.simps [of A i s])
      with "1.IH" [OF True ret w(1)] w(2) show ?thesis by simp
    qed
  qed
qed

lemma add_string_spec:
  assumes "so_wf s" and "t \<noteq> []"
  shows "(\<exists>s'. add_string A s t = Some (0, s') \<and> so_term s' \<and> so_str s' = so_str s @ t \<and>
      so_flags s' = so_flags s) \<or>
    (\<exists>s'. add_string A s t = Some (-1, s') \<and> buff s' = None \<and> (\<exists>n. \<not> grants A n))"
  using grow_spec [OF assms(1), of A "length t"]
proof
  assume "\<exists>s'. grow A (length t) s = (0, s') \<and> so_wf s' \<and> so_str s' = so_str s \<and> sz s' = sz s \<and>
      so_flags s' = so_flags s \<and> sz s' + length t \<le> total s'"
  then obtain s1 where g: "grow A (length t) s = (0, s1)" "so_wf s1" "so_str s1 = so_str s"
    "so_flags s1 = so_flags s" "sz s1 + length t \<le> total s1" by auto
  then obtain b where b: "buff s1 = Some b" "length b = total s1 + 1"
    using assms(2) by (cases "buff s1") (auto simp: so_wf_def)
  let ?b = "take (sz s1) b @ (t @ [NUL]) @ drop (sz s1 + length (t @ [NUL])) b"
  have "add_string A s t = Some (0, s1\<lparr>buff := Some ?b, sz := sz s1 + length t\<rparr>)"
    using g b assms(2) by (simp add: add_string_def)
  moreover have "so_term (s1\<lparr>buff := Some ?b, sz := sz s1 + length t\<rparr>)"
    using b g(5) by (simp add: so_term_def so_wf_def nth_append)
  moreover have "so_str (s1\<lparr>buff := Some ?b, sz := sz s1 + length t\<rparr>) = so_str s @ t"
    using b g(3) [symmetric] g(5) by (simp add: so_str_def min_def)
  ultimately show ?thesis using g(4) by auto
next
  assume "\<exists>s'. grow A (length t) s = (-1, s') \<and> buff s' = None \<and> (\<exists>n. \<not> grants A n)"
  then show ?thesis using assms(2) by (auto simp: add_string_def)
qed

subsection \<open>The text sink interface\<close>

text \<open>What the escaping and token functions rely on: appending a character or a string to a sink
  appends it to the sink's text. The lemma inside covers every loop that emits, for each character
  of its input, a piece of output that depends on that character only.\<close>

locale text_sink =
  fixes put :: "'o \<Rightarrow> char \<Rightarrow> (int \<times> 'o) option"
    and puts :: "'o \<Rightarrow> char list \<Rightarrow> (int \<times> 'o) option"
    and tx :: "'o \<Rightarrow> char list"
    and ok :: "'o \<Rightarrow> bool"
  assumes put_law: "ok s \<Longrightarrow> \<exists>s'. put s c = Some (0, s') \<and> ok s' \<and> tx s' = tx s @ [c]"
    and puts_law: "ok s \<Longrightarrow> \<exists>s'. puts s t = Some (0, s') \<and> ok s' \<and> tx s' = tx s @ t"
begin

lemma emit_loop:
  assumes nil: "\<And>s. loop [] s = Some s"
    and cons: "\<And>c cs s. loop (c # cs) s = do { s' \<leftarrow> emit c s; loop cs s' }"
    and emit: "\<And>c s. ok s \<Longrightarrow> \<exists>s'. emit c s = Some s' \<and> ok s' \<and> tx s' = tx s @ out c"
    and ok: "ok s"
  shows "\<exists>s'. loop cs s = Some s' \<and> ok s' \<and> tx s' = tx s @ concat (map out cs)"
  using ok
proof (induction cs arbitrary: s)
  case Nil
  then show ?case by (simp add: nil)
next
  case (Cons c cs)
  obtain s' where s': "emit c s = Some s'" "ok s'" "tx s' = tx s @ out c"
    using emit [OF Cons.prems] by blast
  from Cons.IH [OF s'(2)] s' show ?case by (auto simp: cons)
qed

end

lemma add_char_granted:
  assumes "so_term s"
  shows "\<exists>s'. add_char (xa_ok j) s c = Some (0, s') \<and> so_term s' \<and> so_str s' = so_str s @ [c]"
  using add_char_spec [OF so_term_wf [OF assms], of "xa_ok j" c] by (auto simp: xa_ok_def)

lemma add_string_granted:
  assumes "so_term s"
  shows "\<exists>s'. add_string (xa_ok j) s t = Some (0, s') \<and> so_term s' \<and> so_str s' = so_str s @ t"
proof (cases "t = []")
  case True
  with assms show ?thesis by (simp add: add_string_def)
next
  case False
  with add_string_spec [OF so_term_wf [OF assms], of t "xa_ok j"] show ?thesis
    by (auto simp: xa_ok_def)
qed

interpretation so: text_sink "add_char (xa_ok j)" "add_string (xa_ok j)" so_str so_term for j
  by unfold_locales (simp_all add: add_char_granted add_string_granted)

lemma shift_down_spec:
  "at + n < length b \<Longrightarrow>
   shift_down b at n = Some (take at b @ take n (drop (Suc at) b) @ drop (at + n) b)"
proof (induction n arbitrary: b at)
  case 0
  then show ?case by simp
next
  case (Suc n)
  let ?b = "b[at := b ! Suc at]"
  have "shift_down ?b (Suc at) n =
      Some (take (Suc at) ?b @ take n (drop (Suc (Suc at)) ?b) @ drop (Suc at + n) ?b)"
    using Suc by simp
  moreover have "take (Suc at) ?b = take at b @ [b ! Suc at]"
    using Suc.prems by (simp add: take_Suc_upd)
  moreover have "take (Suc n) (drop (Suc at) b) = b ! Suc at # take n (drop (Suc (Suc at)) b)"
    using Suc.prems by (simp add: Cons_nth_drop_Suc [symmetric])
  ultimately show ?case using Suc.prems by (simp add: drop_update_cancel)
qed

subsection \<open>Properties\<close>

text \<open>C30: \<^verbatim>\<open>sobj_add_string\<close> on a well-formed object never writes outside its buffer, whatever the
  allocator grants: either it returns \<open>0\<close>, the text grows by exactly the given string and is NUL
  terminated, or it returns \<open>-1\<close> and the allocator refused a request. The growing loop always ends.\<close>

theorem sobj_add_string_safe:
  assumes "so_wf s" and "t \<noteq> []"
  shows "(\<exists>s'. sobj_add_string A (Some s) (Some t) = Some (0, Some s') \<and> so_term s' \<and>
      so_str s' = so_str s @ t \<and> sz s' = sz s + length t \<and> so_flags s' = so_flags s) \<or>
    ((\<exists>s'. sobj_add_string A (Some s) (Some t) = Some (-1, Some s')) \<and> (\<exists>n. \<not> grants A n))"
proof -
  have len: "sz s' = sz s + length t" if "so_term s'" "so_str s' = so_str s @ t" for s'
    using that so_str_length [of s'] so_str_length [OF assms(1)] by (simp add: so_term_wf)
  from add_string_spec [OF assms, of A] show ?thesis
    by (auto simp: sobj_add_string_def dest: len)
qed

theorem sobj_add_string_safe_witness:
  "\<exists>s'. sobj_add_string (xa_ok (\<lambda>_. CHR ''?'')) (Some so_zero) (Some ''hello'') = Some (0, Some s') \<and>
    so_term s' \<and> so_str s' = ''hello''"
  using sobj_add_string_safe [of so_zero "''hello''" "xa_ok (\<lambda>_. CHR ''?'')"] by (auto simp: xa_ok_def)

text \<open>\<^verbatim>\<open>sobj_add_char\<close> on a well-formed object appends the character and keeps the text NUL
  terminated, or returns \<open>-1\<close> because the allocator refused. But a refusal leaves \<^verbatim>\<open>buff\<close> null with
  \<^verbatim>\<open>total\<close> already increased, so the next \<^verbatim>\<open>sobj_add_char\<close> on that object takes the room for granted
  and writes through the null pointer.\<close>

theorem sobj_add_char_cases:
  assumes "so_wf s"
  shows "(\<exists>s'. sobj_add_char A (Some s) c = Some (0, Some s') \<and> so_term s' \<and>
      so_str s' = so_str s @ [c]) \<or>
    (\<exists>s'. sobj_add_char A (Some s) c = Some (-1, Some s') \<and> \<not> grants A (total s + 33) \<and>
      (\<forall>B d. sobj_add_char B (Some s') d = None))"
proof -
  have "add_char B s' d = None" if "buff s' = None" "1 \<le> so_room s'" for B s' d
    using that by (simp add: add_char_def)
  with add_char_spec [OF assms, of A c] show ?thesis
    by (auto simp: sobj_add_char_def)
qed

theorem sobj_add_char_cases_witness:
  "(\<exists>s'. sobj_add_char \<lparr>grants = (\<lambda>_. False), junk = (\<lambda>_. CHR ''?'')\<rparr> (Some so_zero) (CHR ''x'')
      = Some (-1, Some s') \<and> (\<forall>B d. sobj_add_char B (Some s') d = None))"
proof -
  let ?A = "\<lparr>grants = (\<lambda>_. False), junk = (\<lambda>_. CHR ''?'')\<rparr>"
  have "\<not> (\<exists>s'. sobj_add_char ?A (Some so_zero) (CHR ''x'') = Some (0, Some s'))"
    by (simp add: sobj_add_char_def add_char_def so_room_def so_zero_def inc_space_def xmalloc_def
        Let_def)
  with sobj_add_char_cases [of so_zero ?A "CHR ''x''"] show ?thesis by auto
qed

text \<open>\<^verbatim>\<open>sobj_strcpy\<close> replaces the text of an object by a nonempty string, reusing its buffer.\<close>

theorem sobj_strcpy_replaces:
  assumes "so_wf s" and "t \<noteq> []"
  shows "\<exists>s'. sobj_strcpy (xa_ok j) (Some s) (Some t) = Some (0, Some s') \<and> so_term s' \<and>
    so_str s' = t \<and> so_flags s' = 0"
proof -
  let ?s = "s\<lparr>sz := 0, so_flags := 0\<rparr>"
  have "so_wf ?s" "so_str ?s = []"
    using assms(1) by (auto simp: so_wf_def so_str_def split: option.splits)
  with add_string_spec [of ?s t "xa_ok j"] assms(2) show ?thesis
    by (auto simp: sobj_strcpy_def sobj_add_string_def xa_ok_def)
qed

theorem sobj_strcpy_replaces_witness:
  "\<exists>s'. sobj_strcpy (xa_ok (\<lambda>_. NUL)) (Some so_zero) (Some ''new'') = Some (0, Some s') \<and>
    so_term s' \<and> so_str s' = ''new'' \<and> so_flags s' = 0"
  using sobj_strcpy_replaces [of so_zero "''new''" "\<lambda>_. NUL"] by simp

text \<open>Copying the empty string with \<^verbatim>\<open>sobj_strcpy\<close> does not empty the object for its readers: the
  length becomes \<open>0\<close> but the buffer is left as it was, so \<^verbatim>\<open>sobj_get_string\<close> still returns the old
  text.\<close>

theorem sobj_strcpy_empty_keeps_text:
  assumes "so_text s t"
  shows "\<exists>s'. sobj_strcpy A (Some s) (Some []) = Some (0, Some s') \<and>
    sobj_get_length (Some s') = 0 \<and>
    (\<exists>b. sobj_get_string (Some s') = Some b \<and> cstr b = Some t)"
proof -
  have "cstr (case buff s of None \<Rightarrow> [NUL] | Some b \<Rightarrow> b) = Some t"
    using so_text_cstr [OF assms] by (simp split: option.splits)
  then show ?thesis
    by (simp add: sobj_strcpy_def sobj_add_string_def add_string_def sobj_get_length_def
        sobj_get_string_def)
qed

theorem sobj_strcpy_empty_keeps_text_witness:
  "\<exists>s'. sobj_strcpy (xa_ok (\<lambda>_. NUL))
      (Some \<lparr>so_flags = 0, total = 4, sz = 3, buff = Some (''old'' @ [NUL, NUL])\<rparr>) (Some [])
      = Some (0, Some s') \<and> sobj_get_length (Some s') = 0 \<and>
    (\<exists>b. sobj_get_string (Some s') = Some b \<and> cstr b = Some ''old'')"
  by (rule sobj_strcpy_empty_keeps_text) (simp add: so_text_def so_term_def so_wf_def so_str_def)

text \<open>\<^verbatim>\<open>sobj_split\<close> cuts a text in two: the object keeps the first \<open>at\<close> characters, the new object
  gets the rest (nothing when \<open>at\<close> is past the end), and together they are the old text.\<close>

theorem sobj_split_partitions:
  assumes "so_text s t"
  shows "\<exists>n s'. sobj_split (xa_ok j) (Some s) at = Some (Some n, Some s') \<and>
    so_text s' (take at t) \<and> so_text n (drop at t)"
proof (cases "at \<ge> sz s")
  case True
  moreover have "length t = sz s"
    using assms so_str_length [of s] by (auto simp: so_text_def so_term_wf)
  ultimately show ?thesis
    using assms by (simp add: sobj_split_def sobj_new_def xa_ok_def) (simp add: so_text_def)
next
  case False
  obtain b where b: "buff s = Some b" using False assms
    by (cases "buff s") (auto simp: so_text_def so_term_def so_wf_def)
  have wf: "length b = total s + 1" "sz s \<le> total s" "b ! sz s = NUL" "take (sz s) b = t"
    "NUL \<notin> set t"
    using assms b by (auto simp: so_text_def so_term_def so_wf_def so_str_def)
  have t_len: "length t = sz s" using wf by auto
  have "drop at b = drop at t @ NUL # drop (Suc (sz s)) b"
    using False wf id_take_nth_drop [of "sz s" b] by (metis drop_append t_len
        diff_is_0_eq' drop0 less_Suc_eq_le nat_le_linear Suc_eq_plus1)
  then have c: "cstr (drop at b) = Some (drop at t)"
    using cstr_append wf(5) by (metis in_set_dropD)
  obtain n where n: "add_string (xa_ok j) so_zero (drop at t) = Some (0, n)" "so_term n"
    "so_str n = drop at t"
    using add_string_granted [of so_zero j "drop at t"] by auto
  let ?b = "b[at := NUL]"
  have tk: "take at ?b = take at t" using False wf by (metis take_take take_update_cancel le_refl
        min.absorb1 not_le nat_le_linear)
  have c2: "cstr ?b = Some (take at t)"
    using cstr_take [of at ?b] False wf tk by (auto dest: in_set_takeD)
  have "sobj_split (xa_ok j) (Some s) at =
      Some (Some n, Some (s\<lparr>buff := Some ?b, sz := length (take at t)\<rparr>))"
    using False b c c2 n wf
    by (simp add: sobj_split_def sobj_new_def xa_ok_def sobj_add_string_def)
  moreover have "so_text (s\<lparr>buff := Some ?b, sz := length (take at t)\<rparr>) (take at t)"
    using False wf t_len tk by (auto simp: so_text_def so_term_def so_wf_def so_str_def dest: in_set_takeD)
  ultimately show ?thesis
    using n wf(5) by (auto simp: so_text_def dest: in_set_dropD)
qed

theorem sobj_split_partitions_witness:
  "\<exists>n s'. sobj_split (xa_ok (\<lambda>_. NUL))
      (Some \<lparr>so_flags = 0, total = 4, sz = 3, buff = Some (''abc'' @ [NUL, NUL])\<rparr>) 1
      = Some (Some n, Some s') \<and> so_text s' ''a'' \<and> so_text n ''bc''"
  using sobj_split_partitions [of "\<lparr>so_flags = 0, total = 4, sz = 3, buff = Some (''abc'' @ [NUL, NUL])\<rparr>"
      "''abc''" "\<lambda>_. NUL" 1]
  by (simp add: so_text_def so_term_def so_wf_def so_str_def)

lemma sobj_remove_char_steps:
  assumes "so_term s"
  shows "at < sz s \<Longrightarrow> \<exists>s'. sobj_remove_char (Some s) at = Some (0, Some s') \<and> so_term s' \<and>
      so_str s' = take at (so_str s) @ drop (Suc at) (so_str s)"
    and "sz s \<le> at \<Longrightarrow> sobj_remove_char (Some s) at = Some (-1, Some s)"
proof -
  show "sobj_remove_char (Some s) at = Some (-1, Some s)" if "sz s \<le> at"
    using that by (simp add: sobj_remove_char_def split: option.split)
next
  assume at: "at < sz s"
  then obtain b where b: "buff s = Some b" "length b = total s + 1" "sz s \<le> total s" "b ! sz s = NUL"
    using assms by (cases "buff s") (auto simp: so_term_def so_wf_def)
  let ?b = "take at b @ take (sz s - at) (drop (Suc at) b) @ drop (sz s) b"
  have "shift_down b at (sz s - at) = Some ?b"
    using shift_down_spec [of at "sz s - at" b] at b by simp
  moreover have "so_term (s\<lparr>buff := Some ?b, sz := sz s - 1\<rparr>)"
    using at b by (auto simp: so_term_def so_wf_def nth_append min_def)
  moreover have "take (sz s - 1) ?b = take at b @ drop (Suc at) (take (sz s) b)"
  proof -
    have "min (sz s - 1) at = at" "min (sz s - at) (total s - at) = sz s - at"
      "min (sz s - 1 - at) (sz s - at) = sz s - Suc at" "min (length b) at = at"
      using at b(2,3) by auto
    then show ?thesis using at b(2,3) by (simp add: drop_take)
  qed
  ultimately show "\<exists>s'. sobj_remove_char (Some s) at = Some (0, Some s') \<and> so_term s' \<and>
      so_str s' = take at (so_str s) @ drop (Suc at) (so_str s)"
    using at b by (simp add: sobj_remove_char_def so_str_def min.absorb1)
qed

text \<open>\<^verbatim>\<open>sobj_remove_char\<close> at a position inside the text deletes exactly that character, keeps the
  rest and the terminating NUL, and never touches memory outside the buffer; at any other position it
  changes nothing and returns \<open>-1\<close>.\<close>

theorem sobj_remove_char_deletes:
  assumes "so_term s"
  shows "if at < sz s
    then \<exists>s'. sobj_remove_char (Some s) at = Some (0, Some s') \<and> so_term s' \<and>
      so_str s' = take at (so_str s) @ drop (Suc at) (so_str s)
    else sobj_remove_char (Some s) at = Some (-1, Some s)"
  using sobj_remove_char_steps [OF assms, of at] by simp

theorem sobj_remove_char_deletes_witness:
  "\<exists>s'. sobj_remove_char (Some \<lparr>so_flags = 0, total = 4, sz = 3, buff = Some (''abc'' @ [NUL, NUL])\<rparr>) 1
      = Some (0, Some s') \<and> so_term s' \<and> so_str s' = ''ac''"
  using sobj_remove_char_deletes
    [of "\<lparr>so_flags = 0, total = 4, sz = 3, buff = Some (''abc'' @ [NUL, NUL])\<rparr>" 1]
  by (simp add: so_term_def so_wf_def so_str_def)

end
