(* ===== verification/Strobj_Text.thy ===== *)
theory Strobj_Text
  imports Strobj
begin

text \<open>
  The text transformations of \<^verbatim>\<open>comlib/strobj.c\<close> and \<^verbatim>\<open>include/strobj.h\<close>: white space and indent
  removal, the escaping of JavaScript, shell, HTML and XML text, and URL encoding. Their input is a C
  string, given as the list of its characters; their output goes character by character into a string
  object. Each loop is related to a function on character lists, and the escapings are shown to be
  undone by the matching unescaping.
\<close>

subsection \<open>White space\<close>

definition sobj_iswhite :: "char \<Rightarrow> bool" where
  "sobj_iswhite c \<longleftrightarrow> c = CHR '' '' \<or> c = CHR 0x09 \<or> c = CHR 0x0A \<or> c = CHR 0x0D"

fun sobj_eatwhite :: "char list \<Rightarrow> char list" where
  "sobj_eatwhite [] = []"
| "sobj_eatwhite (c # cs) = (if sobj_iswhite c then sobj_eatwhite cs else c # cs)"

text \<open>\<^verbatim>\<open>sobj_reatwhite\<close> overwrites the white characters at the end of the string by NULs, from the
  last one down.\<close>

function sobj_reatwhite :: "char list \<Rightarrow> char list" where
  "sobj_reatwhite s = (if s \<noteq> [] \<and> sobj_iswhite (last s) then sobj_reatwhite (butlast s) else s)"
  by pat_completeness auto
termination by (relation "measure length") auto

declare sobj_reatwhite.simps [simp del]

definition sobj_isindent :: "char \<Rightarrow> bool" where
  "sobj_isindent c \<longleftrightarrow> c = CHR 0x09 \<or> c = CHR 0x0A \<or> c = CHR 0x0D"

fun sobj_eatindent :: "char list \<Rightarrow> char list" where
  "sobj_eatindent [] = []"
| "sobj_eatindent (c # cs) = (if sobj_isindent c then sobj_eatindent cs else c # cs)"

function sobj_reatindent :: "char list \<Rightarrow> char list" where
  "sobj_reatindent s = (if s \<noteq> [] \<and> sobj_isindent (last s) then sobj_reatindent (butlast s) else s)"
  by pat_completeness auto
termination by (relation "measure length") auto

declare sobj_reatindent.simps [simp del]

lemma sobj_eatwhite_dropWhile: "sobj_eatwhite s = dropWhile sobj_iswhite s"
  by (induction s) auto

lemma sobj_eatindent_dropWhile: "sobj_eatindent s = dropWhile sobj_isindent s"
  by (induction s) auto

lemma sobj_eatwhite_length: "length (sobj_eatwhite s) \<le> length s"
  by (induction s) auto

lemma sobj_reatwhite_eq: "sobj_reatwhite s = rev (dropWhile sobj_iswhite (rev s))"
proof (induction s rule: rev_induct)
  case Nil
  then show ?case by (simp add: sobj_reatwhite.simps)
next
  case (snoc c s)
  then show ?case by (simp add: sobj_reatwhite.simps [of "s @ [c]"])
qed

lemma sobj_reatindent_eq: "sobj_reatindent s = rev (dropWhile sobj_isindent (rev s))"
proof (induction s rule: rev_induct)
  case Nil
  then show ?case by (simp add: sobj_reatindent.simps)
next
  case (snoc c s)
  then show ?case by (simp add: sobj_reatindent.simps [of "s @ [c]"])
qed

text \<open>The loop of \<^verbatim>\<open>sobj_eat_all_white\<close>: a run of white characters becomes one space.\<close>

function squeeze :: "xalloc \<Rightarrow> char list \<Rightarrow> strobj \<Rightarrow> strobj option" where
  "squeeze A [] n = Some n"
| "squeeze A (c # cs) n =
     (if sobj_iswhite c
      then do { (r, n') \<leftarrow> add_char A n (CHR '' ''); squeeze A (sobj_eatwhite (c # cs)) n' }
      else do { (r, n') \<leftarrow> add_char A n c; squeeze A cs n' })"
  by pat_completeness auto
termination
  by (relation "measure (\<lambda>(A, s, n). length s)")
    (auto simp: less_Suc_eq_le intro: sobj_eatwhite_length)

text \<open>\<^verbatim>\<open>sobj_eat_all_white\<close> and \<^verbatim>\<open>sobj_eat_indent\<close> build the new text in a new object and move its buffer
  into the old one; they return the new buffer (\<open>None\<close> for \<^verbatim>\<open>NULL\<close>).\<close>

definition so_take_over :: "strobj \<Rightarrow> strobj \<Rightarrow> strobj" where
  "so_take_over s n = so_zero\<lparr>buff := buff n, sz := sz n, total := total n\<rparr>"

definition sobj_eat_all_white ::
    "xalloc \<Rightarrow> strobj option \<Rightarrow> (char list option \<times> strobj option) option" where
  "sobj_eat_all_white A h = (case h of
      None \<Rightarrow> Some (None, None)
    | Some s \<Rightarrow> (case buff s of
        None \<Rightarrow> Some (None, Some s)
      | Some b \<Rightarrow> (case sobj_new A of
          None \<Rightarrow> Some (None, Some s)
        | Some n \<Rightarrow> do {
            t \<leftarrow> cstr b;
            n' \<leftarrow> squeeze A (sobj_eatwhite (sobj_reatwhite t)) n;
            Some (buff n', Some (so_take_over s n')) })))"

definition sobj_eat_indent ::
    "xalloc \<Rightarrow> strobj option \<Rightarrow> (char list option \<times> strobj option) option" where
  "sobj_eat_indent A h = (case h of
      None \<Rightarrow> Some (None, None)
    | Some s \<Rightarrow> (case buff s of
        None \<Rightarrow> Some (None, Some s)
      | Some b \<Rightarrow> (case sobj_new A of
          None \<Rightarrow> Some (None, Some s)
        | Some n \<Rightarrow> do {
            t \<leftarrow> cstr b;
            (r, n') \<leftarrow> add_string A n (sobj_eatindent (sobj_reatindent t));
            Some (buff n', Some (so_take_over s n')) })))"

subsection \<open>Escaping\<close>

fun find_pattern :: "char \<Rightarrow> char list \<Rightarrow> bool" where
  "find_pattern c [] = False"
| "find_pattern c (x # xs) = (if x = c then c \<noteq> NUL else find_pattern c xs)"

fun escape_character :: "xalloc \<Rightarrow> char \<Rightarrow> char list \<Rightarrow> char list \<Rightarrow> strobj \<Rightarrow> strobj option" where
  "escape_character A escape sc [] n = Some n"
| "escape_character A escape sc (c # cs) n = do {
     n' \<leftarrow> (if find_pattern c sc then do { (r, n1) \<leftarrow> add_char A n escape; Some n1 } else Some n);
     (r, n'') \<leftarrow> add_char A n' c;
     escape_character A escape sc cs n'' }"

definition sobj_escape_javascript :: "xalloc \<Rightarrow> char list \<Rightarrow> strobj \<Rightarrow> strobj option" where
  "sobj_escape_javascript A s n =
     escape_character A (CHR 0x5C) [CHR 0x5C, CHR 0x22, CHR 0x27] s n"

definition sobj_escape_shellscript :: "xalloc \<Rightarrow> char list \<Rightarrow> strobj \<Rightarrow> strobj option" where
  "sobj_escape_shellscript A s n =
     escape_character A (CHR 0x5C) [CHR 0x5C, CHR ''$'', CHR 0x22, CHR 0x60] s n"

fun sobj_escape_html_sc :: "xalloc \<Rightarrow> char list \<Rightarrow> strobj \<Rightarrow> strobj option" where
  "sobj_escape_html_sc A [] n = Some n"
| "sobj_escape_html_sc A (c # cs) n = do {
     (r, n') \<leftarrow> (if c = CHR ''&'' then add_string A n ''&amp;''
       else if c = CHR ''<'' then add_string A n ''&lt;''
       else if c = CHR ''>'' then add_string A n ''&gt;''
       else if c = CHR 0x22 then add_string A n ''&quot;''
       else add_char A n c);
     sobj_escape_html_sc A cs n' }"

fun sobj_escape_xml_sc :: "xalloc \<Rightarrow> char list \<Rightarrow> strobj \<Rightarrow> strobj option" where
  "sobj_escape_xml_sc A [] n = Some n"
| "sobj_escape_xml_sc A (c # cs) n = do {
     (r, n') \<leftarrow> (if c = CHR ''&'' then add_string A n ''&amp;''
       else if c = CHR ''<'' then add_string A n ''&lt;''
       else if c = CHR ''>'' then add_string A n ''&gt;''
       else if c = CHR 0x22 then add_string A n ''&quot;''
       else if c = CHR 0x27 then add_string A n ''&apos;''
       else add_char A n c);
     sobj_escape_xml_sc A cs n' }"

text \<open>\<^verbatim>\<open>strncmp(from, e, n) == 0\<close> with \<open>n\<close> the length of the entity.\<close>

abbreviation starts :: "char list \<Rightarrow> char list \<Rightarrow> bool" where
  "starts s e \<equiv> take (length e) s = e"

function sobj_unescape_html_sc :: "xalloc \<Rightarrow> char list \<Rightarrow> strobj \<Rightarrow> strobj option" where
  "sobj_unescape_html_sc A [] n = Some n"
| "sobj_unescape_html_sc A (c # cs) n =
     (let s = c # cs in
      if c \<noteq> CHR ''&'' then do { (r, n') \<leftarrow> add_char A n c; sobj_unescape_html_sc A cs n' }
      else if starts s ''&amp;'' then do { (r, n') \<leftarrow> add_char A n (CHR ''&''); sobj_unescape_html_sc A (drop 5 s) n' }
      else if starts s ''&lt;'' then do { (r, n') \<leftarrow> add_char A n (CHR ''<''); sobj_unescape_html_sc A (drop 4 s) n' }
      else if starts s ''&gt;'' then do { (r, n') \<leftarrow> add_char A n (CHR ''>''); sobj_unescape_html_sc A (drop 4 s) n' }
      else if starts s ''&nbsp;'' then do { (r, n') \<leftarrow> add_char A n (CHR '' ''); sobj_unescape_html_sc A (drop 6 s) n' }
      else if starts s ''&quot;'' then do { (r, n') \<leftarrow> add_char A n (CHR 0x22); sobj_unescape_html_sc A (drop 6 s) n' }
      else if starts s ''&apos;'' then do { (r, n') \<leftarrow> add_char A n (CHR 0x27); sobj_unescape_html_sc A (drop 6 s) n' }
      else do { (r, n') \<leftarrow> add_char A n c; sobj_unescape_html_sc A cs n' })"
  by pat_completeness auto
termination by (relation "measure (\<lambda>(A, s, n). length s)") auto

function sobj_unescape_xml_sc :: "xalloc \<Rightarrow> char list \<Rightarrow> strobj \<Rightarrow> strobj option" where
  "sobj_unescape_xml_sc A [] n = Some n"
| "sobj_unescape_xml_sc A (c # cs) n =
     (let s = c # cs in
      if c \<noteq> CHR ''&'' then do { (r, n') \<leftarrow> add_char A n c; sobj_unescape_xml_sc A cs n' }
      else if starts s ''&amp;'' then do { (r, n') \<leftarrow> add_char A n (CHR ''&''); sobj_unescape_xml_sc A (drop 5 s) n' }
      else if starts s ''&lt;'' then do { (r, n') \<leftarrow> add_char A n (CHR ''<''); sobj_unescape_xml_sc A (drop 4 s) n' }
      else if starts s ''&gt;'' then do { (r, n') \<leftarrow> add_char A n (CHR ''>''); sobj_unescape_xml_sc A (drop 4 s) n' }
      else if starts s ''&quot;'' then do { (r, n') \<leftarrow> add_char A n (CHR 0x22); sobj_unescape_xml_sc A (drop 6 s) n' }
      else if starts s ''&apos;'' then do { (r, n') \<leftarrow> add_char A n (CHR 0x27); sobj_unescape_xml_sc A (drop 6 s) n' }
      else do { (r, n') \<leftarrow> add_char A n c; sobj_unescape_xml_sc A cs n' })"
  by pat_completeness auto
termination by (relation "measure (\<lambda>(A, s, n). length s)") auto

declare sobj_unescape_html_sc.simps(2) [simp del]
declare sobj_unescape_xml_sc.simps(2) [simp del]

subsection \<open>URL encoding\<close>

definition ctoi :: "char \<Rightarrow> int" where
  "ctoi c =
     (if uchar (CHR ''0'') \<le> schar c \<and> schar c \<le> uchar (CHR ''9'') then schar c - uchar (CHR ''0'')
      else if uchar (CHR ''a'') \<le> schar c \<and> schar c \<le> uchar (CHR ''f'') then schar c - uchar (CHR ''a'') + 10
      else if uchar (CHR ''A'') \<le> schar c \<and> schar c \<le> uchar (CHR ''F'') then schar c - uchar (CHR ''A'') + 10
      else 0)"

definition isxdigit :: "char \<Rightarrow> bool" where
  "isxdigit c \<longleftrightarrow> c \<in> set ''0123456789abcdefABCDEF''"

definition isalnum :: "char \<Rightarrow> bool" where
  "isalnum c \<longleftrightarrow> (48 \<le> uchar c \<and> uchar c \<le> 57) \<or> (65 \<le> uchar c \<and> uchar c \<le> 90) \<or>
     (97 \<le> uchar c \<and> uchar c \<le> 122)"

text \<open>The loop of \<^verbatim>\<open>sobj_unescape_uri\<close> over the first \<^verbatim>\<open>size\<close> characters of the buffer; \<open>s\<close> is what is
  left of them.\<close>

fun unescape_uri_loop :: "xalloc \<Rightarrow> char list \<Rightarrow> strobj \<Rightarrow> strobj option" where
  "unescape_uri_loop A [] n = Some n"
| "unescape_uri_loop A (c # x # y # s) n =
     (if c = CHR ''%'' \<and> isxdigit x \<and> isxdigit y
      then do { (r, n') \<leftarrow> add_char A n (to_char (ctoi x * 16 + ctoi y)); unescape_uri_loop A s n' }
      else do { (r, n') \<leftarrow> add_char A n c; unescape_uri_loop A (x # y # s) n' })"
| "unescape_uri_loop A (c # s) n =
     do { (r, n') \<leftarrow> add_char A n c; unescape_uri_loop A s n' }"

definition sobj_unescape_uri :: "xalloc \<Rightarrow> strobj option \<Rightarrow> (bool \<times> strobj option) option" where
  "sobj_unescape_uri A h = (case h of
      None \<Rightarrow> Some (False, None)
    | Some s \<Rightarrow> (case sobj_new A of
        None \<Rightarrow> Some (False, Some s)
      | Some n \<Rightarrow>
          (if sz s = 0 then Some (True, Some (so_take_over s n))
           else do {
             b \<leftarrow> buff s;
             _ \<leftarrow> rd b (sz s - 1);
             n' \<leftarrow> unescape_uri_loop A (take (sz s) b) n;
             Some (True, Some (so_take_over s n')) })))"

definition url_plain :: "char \<Rightarrow> bool" where
  "url_plain c \<longleftrightarrow> isalnum c \<or> c \<in> set ''-_.!~*'' \<or> c = CHR 0x27 \<or> c = CHR ''('' \<or> c = CHR '')''"

text \<open>The index \<^verbatim>\<open>hex[*from >> 4]\<close> is computed on a signed \<^verbatim>\<open>char\<close>.\<close>

definition hex_digit :: "int \<Rightarrow> char option" where
  "hex_digit i = (if i < 0 then None else rd ''0123456789ABCDEF'' (nat i))"

fun sobj_urlencode_sc :: "xalloc \<Rightarrow> char list \<Rightarrow> strobj \<Rightarrow> strobj option" where
  "sobj_urlencode_sc A [] n = Some n"
| "sobj_urlencode_sc A (c # cs) n =
     (if url_plain c then do { (r, n') \<leftarrow> add_char A n c; sobj_urlencode_sc A cs n' }
      else do {
        (r, n1) \<leftarrow> add_char A n (CHR ''%'');
        hi \<leftarrow> hex_digit (schar c div 16);
        (r, n2) \<leftarrow> add_char A n1 hi;
        lo \<leftarrow> hex_digit (schar c mod 16);
        (r, n3) \<leftarrow> add_char A n2 lo;
        sobj_urlencode_sc A cs n3 })"

text \<open>\<^verbatim>\<open>sobj_urldecode\<close> looks up to two characters ahead; past the end it sees the terminating NUL, which
  is no hexadecimal digit.\<close>

fun sobj_urldecode :: "xalloc \<Rightarrow> char list \<Rightarrow> strobj \<Rightarrow> strobj option" where
  "sobj_urldecode A [] n = Some n"
| "sobj_urldecode A (c # x # y # s) n =
     (if c = CHR ''%'' \<and> isxdigit x \<and> isxdigit y
      then do { (r, n') \<leftarrow> add_char A n (to_char (ctoi x * 16 + ctoi y)); sobj_urldecode A s n' }
      else do { (r, n') \<leftarrow> add_char A n (if c = CHR ''+'' then CHR '' '' else c);
                sobj_urldecode A (x # y # s) n' })"
| "sobj_urldecode A (c # s) n =
     do { (r, n') \<leftarrow> add_char A n (if c = CHR ''+'' then CHR '' '' else c); sobj_urldecode A s n' }"

subsection \<open>What the loops emit\<close>

definition esc_with :: "char list \<Rightarrow> char \<Rightarrow> char list" where
  "esc_with sc c = (if find_pattern c sc then [CHR 0x5C, c] else [c])"

definition esc_html :: "char \<Rightarrow> char list" where
  "esc_html c = (if c = CHR ''&'' then ''&amp;'' else if c = CHR ''<'' then ''&lt;''
     else if c = CHR ''>'' then ''&gt;'' else if c = CHR 0x22 then ''&quot;'' else [c])"

definition esc_xml :: "char \<Rightarrow> char list" where
  "esc_xml c = (if c = CHR 0x27 then ''&apos;'' else esc_html c)"

definition esc_url :: "char \<Rightarrow> char list" where
  "esc_url c = (if url_plain c then [c]
     else [CHR ''%'', ''0123456789ABCDEF'' ! nat (uchar c div 16), ''0123456789ABCDEF'' ! nat (uchar c mod 16)])"

text \<open>The plain copying loop the unescapings reduce to.\<close>

fun copy_chars :: "xalloc \<Rightarrow> char list \<Rightarrow> strobj \<Rightarrow> strobj option" where
  "copy_chars A [] n = Some n"
| "copy_chars A (c # cs) n = do { (r, n') \<leftarrow> add_char A n c; copy_chars A cs n' }"

lemma copy_chars_spec:
  assumes "so_term n"
  shows "\<exists>n'. copy_chars (xa_ok j) cs n = Some n' \<and> so_term n' \<and> so_str n' = so_str n @ cs"
proof -
  have "\<exists>s'. copy_chars (xa_ok j) cs n = Some s' \<and> so_term s' \<and>
      so_str s' = so_str n @ concat (map (\<lambda>c. [c]) cs)"
  proof (rule so.emit_loop [where emit = "\<lambda>c n. do { (r, n') \<leftarrow> add_char (xa_ok j) n c; Some n' }",
        OF _ _ _ assms])
    show "copy_chars (xa_ok j) (c # cs) n =
        (do { (r, n') \<leftarrow> add_char (xa_ok j) n c; Some n' } \<bind> copy_chars (xa_ok j) cs)" for c cs n
      by (cases "add_char (xa_ok j) n c") auto
    show "\<exists>n'. (do { (r, n') \<leftarrow> add_char (xa_ok j) n c; Some n' }) = Some n' \<and> so_term n' \<and>
        so_str n' = so_str n @ [c]" if "so_term n" for c n
      using so.put_law [OF that, of j c] by auto
  qed simp
  then show ?thesis by simp
qed

lemma escape_character_spec:
  assumes "so_term n"
  shows "\<exists>n'. escape_character (xa_ok j) (CHR 0x5C) sc cs n = Some n' \<and> so_term n' \<and>
    so_str n' = so_str n @ concat (map (esc_with sc) cs)"
  using assms
proof (induction cs arbitrary: n)
  case Nil
  then show ?case by simp
next
  case (Cons c cs)
  obtain n1 where n1: "so_term n1" "so_str n1 @ [c] = so_str n @ esc_with sc c"
    "(if find_pattern c sc then do { (r, n1) \<leftarrow> add_char (xa_ok j) n (CHR 0x5C); Some n1 } else Some n)
       = Some n1"
    using so.put_law [OF Cons.prems, of j "CHR 0x5C"] Cons.prems
    by (cases "find_pattern c sc") (auto simp: esc_with_def)
  obtain n2 where n2: "add_char (xa_ok j) n1 c = Some (0, n2)" "so_term n2" "so_str n2 = so_str n1 @ [c]"
    using so.put_law [OF n1(1)] by blast
  from Cons.IH [OF n2(2)] n1 n2 show ?case by auto
qed

lemma sobj_escape_html_sc_spec:
  assumes "so_term n"
  shows "\<exists>n'. sobj_escape_html_sc (xa_ok j) cs n = Some n' \<and> so_term n' \<and>
    so_str n' = so_str n @ concat (map esc_html cs)"
  using assms
proof (induction cs arbitrary: n)
  case Nil
  then show ?case by simp
next
  case (Cons c cs)
  have "\<exists>n'. (if c = CHR ''&'' then add_string (xa_ok j) n ''&amp;''
       else if c = CHR ''<'' then add_string (xa_ok j) n ''&lt;''
       else if c = CHR ''>'' then add_string (xa_ok j) n ''&gt;''
       else if c = CHR 0x22 then add_string (xa_ok j) n ''&quot;''
       else add_char (xa_ok j) n c) = Some (0, n') \<and> so_term n' \<and> so_str n' = so_str n @ esc_html c"
    using so.puts_law [OF Cons.prems] so.put_law [OF Cons.prems] by (simp add: esc_html_def)
  with Cons.IH show ?case by fastforce
qed

lemma sobj_escape_xml_sc_spec:
  assumes "so_term n"
  shows "\<exists>n'. sobj_escape_xml_sc (xa_ok j) cs n = Some n' \<and> so_term n' \<and>
    so_str n' = so_str n @ concat (map esc_xml cs)"
  using assms
proof (induction cs arbitrary: n)
  case Nil
  then show ?case by simp
next
  case (Cons c cs)
  have "\<exists>n'. (if c = CHR ''&'' then add_string (xa_ok j) n ''&amp;''
       else if c = CHR ''<'' then add_string (xa_ok j) n ''&lt;''
       else if c = CHR ''>'' then add_string (xa_ok j) n ''&gt;''
       else if c = CHR 0x22 then add_string (xa_ok j) n ''&quot;''
       else if c = CHR 0x27 then add_string (xa_ok j) n ''&apos;''
       else add_char (xa_ok j) n c) = Some (0, n') \<and> so_term n' \<and> so_str n' = so_str n @ esc_xml c"
    using so.puts_law [OF Cons.prems] so.put_law [OF Cons.prems] by (simp add: esc_xml_def esc_html_def)
  with Cons.IH show ?case by fastforce
qed

lemma esc_no_NUL: "NUL \<notin> set s \<Longrightarrow> NUL \<notin> set (concat (map esc_xml s))"
  "NUL \<notin> set s \<Longrightarrow> NUL \<notin> set (concat (map esc_html s))"
  by (auto simp: esc_xml_def esc_html_def split: if_splits)

subsection \<open>Unescaping undoes escaping\<close>

lemma unescape_xml_char:
  "sobj_unescape_xml_sc A (esc_xml c @ r) n = do { (_, n') \<leftarrow> add_char A n c; sobj_unescape_xml_sc A r n' }"
  by (auto simp: esc_xml_def esc_html_def sobj_unescape_xml_sc.simps(2))

lemma unescape_html_char:
  "sobj_unescape_html_sc A (esc_html c @ r) n = do { (_, n') \<leftarrow> add_char A n c; sobj_unescape_html_sc A r n' }"
  by (auto simp: esc_html_def sobj_unescape_html_sc.simps(2))

lemma unescape_xml_escaped:
  "sobj_unescape_xml_sc A (concat (map esc_xml s)) n = copy_chars A s n"
  by (induction s arbitrary: n) (auto simp: unescape_xml_char intro!: Option.bind_cong)

lemma unescape_html_escaped:
  "sobj_unescape_html_sc A (concat (map esc_html s)) n = copy_chars A s n"
  by (induction s arbitrary: n) (auto simp: unescape_html_char intro!: Option.bind_cong)

text \<open>Hexadecimal digits.\<close>

definition hex_table_ok :: "nat \<Rightarrow> bool" where
  "hex_table_ok k \<longleftrightarrow> (let c = ''0123456789ABCDEF'' ! k in ctoi c = int k \<and> isxdigit c \<and> c \<noteq> NUL)"

lemma hex_table_all: "list_all hex_table_ok [0..<16]"
  by code_simp

lemma hex_table:
  assumes "0 \<le> i" and "i < 16"
  shows "ctoi (''0123456789ABCDEF'' ! nat i) = i" and "isxdigit (''0123456789ABCDEF'' ! nat i)"
    and "''0123456789ABCDEF'' ! nat i \<noteq> NUL" and "hex_digit i = Some (''0123456789ABCDEF'' ! nat i)"
proof -
  have "nat i \<in> set [0..<16]" using assms by simp
  then have "hex_table_ok (nat i)" using hex_table_all by (metis list_all_iff)
  then show "ctoi (''0123456789ABCDEF'' ! nat i) = i" "isxdigit (''0123456789ABCDEF'' ! nat i)"
    "''0123456789ABCDEF'' ! nat i \<noteq> NUL"
    using assms by (simp_all add: hex_table_ok_def Let_def)
  show "hex_digit i = Some (''0123456789ABCDEF'' ! nat i)"
    using assms by (simp add: hex_digit_def rd_def)
qed

lemma url_plain_cases: "url_plain c \<Longrightarrow> c \<noteq> CHR ''%'' \<and> c \<noteq> CHR ''+''"
  by (auto simp: url_plain_def isalnum_def uchar_def)

lemma urldecode_char:
  assumes "uchar c < 128"
  shows "sobj_urldecode A (esc_url c @ r) n = do { (_, n') \<leftarrow> add_char A n c; sobj_urldecode A r n' }"
proof (cases "url_plain c")
  case True
  then have "c \<noteq> CHR ''%''" "c \<noteq> CHR ''+''" using url_plain_cases by auto
  with True show ?thesis
    by (cases r; cases "tl r") (auto simp: esc_url_def intro!: Option.bind_cong)
next
  case False
  have hi: "0 \<le> uchar c div 16" "uchar c div 16 < 16" and lo: "0 \<le> uchar c mod 16" "uchar c mod 16 < 16"
    using assms uchar_range [of c] by auto
  with False show ?thesis by (simp add: esc_url_def hex_table)
qed

lemma urldecode_encoded:
  "\<forall>c \<in> set s. uchar c < 128 \<Longrightarrow> sobj_urldecode A (concat (map esc_url s)) n = copy_chars A s n"
  by (induction s arbitrary: n) (auto simp: urldecode_char intro!: Option.bind_cong)

lemma sobj_urlencode_sc_spec:
  assumes "so_term n" and "\<forall>c \<in> set s. uchar c < 128"
  shows "\<exists>n'. sobj_urlencode_sc (xa_ok j) s n = Some n' \<and> so_term n' \<and>
    so_str n' = so_str n @ concat (map esc_url s)"
  using assms
proof (induction s arbitrary: n)
  case Nil
  then show ?case by simp
next
  case (Cons c s)
  have sc: "schar c = uchar c" using Cons.prems(2) by (simp add: schar_def)
  have dig: "hex_digit (schar c div 16) = Some (''0123456789ABCDEF'' ! nat (uchar c div 16))"
    "hex_digit (schar c mod 16) = Some (''0123456789ABCDEF'' ! nat (uchar c mod 16))"
    using hex_table(4) Cons.prems(2) uchar_range [of c] sc by auto
  show ?case
  proof (cases "url_plain c")
    case True
    obtain n1 where "add_char (xa_ok j) n c = Some (0, n1)" "so_term n1" "so_str n1 = so_str n @ [c]"
      using so.put_law [OF Cons.prems(1)] by blast
    with Cons.IH [of n1] Cons.prems(2) True show ?thesis by (auto simp: esc_url_def)
  next
    case False
    obtain n1 where n1: "add_char (xa_ok j) n (CHR ''%'') = Some (0, n1)" "so_term n1"
      "so_str n1 = so_str n @ ''%''"
      using so.put_law [OF Cons.prems(1)] by blast
    obtain n2 where n2: "add_char (xa_ok j) n1 (''0123456789ABCDEF'' ! nat (uchar c div 16)) = Some (0, n2)"
      "so_term n2" "so_str n2 = so_str n1 @ [''0123456789ABCDEF'' ! nat (uchar c div 16)]"
      using so.put_law [OF n1(2)] by blast
    obtain n3 where n3: "add_char (xa_ok j) n2 (''0123456789ABCDEF'' ! nat (uchar c mod 16)) = Some (0, n3)"
      "so_term n3" "so_str n3 = so_str n2 @ [''0123456789ABCDEF'' ! nat (uchar c mod 16)]"
      using so.put_law [OF n2(2)] by blast
    from Cons.IH [OF n3(2)] Cons.prems(2) False n1 n2 n3 dig show ?thesis
      by (auto simp: esc_url_def)
  qed
qed

lemma esc_url_no_NUL: "uchar c < 128 \<Longrightarrow> c \<noteq> NUL \<Longrightarrow> NUL \<notin> set (esc_url c)"
proof -
  assume "uchar c < 128" "c \<noteq> NUL"
  moreover have "0 \<le> uchar c div 16" "uchar c div 16 < 16" "0 \<le> uchar c mod 16" "uchar c mod 16 < 16"
    using \<open>uchar c < 128\<close> uchar_range [of c] by auto
  ultimately show ?thesis
    using hex_table(3) [of "uchar c div 16"] hex_table(3) [of "uchar c mod 16"]
    by (auto simp: esc_url_def)
qed

lemma sobj_urlencode_sc_append:
  "sobj_urlencode_sc A (s @ t) n = do { n' \<leftarrow> sobj_urlencode_sc A s n; sobj_urlencode_sc A t n' }"
proof (induction s arbitrary: n)
  case Nil
  then show ?case by simp
next
  case (Cons c s)
  then show ?case by (auto simp: bind_assoc case_prod_unfold intro!: Option.bind_cong)
qed

subsection \<open>Properties\<close>

text \<open>Escaping a string for XML with \<^verbatim>\<open>sobj_escape_xml_sc\<close> and unescaping the result with
  \<^verbatim>\<open>sobj_unescape_xml_sc\<close> gives back the string, for every C string; the escaped text contains none of
  the characters that have an entity, apart from the ampersands that start an entity.\<close>

theorem xml_escape_roundtrip:
  assumes "NUL \<notin> set s"
  shows "\<exists>n t n'. sobj_escape_xml_sc (xa_ok j) s so_zero = Some n \<and> so_text n t \<and>
    set t \<inter> {CHR ''<'', CHR ''>'', CHR 0x22, CHR 0x27} = {} \<and>
    sobj_unescape_xml_sc (xa_ok j) t so_zero = Some n' \<and> so_text n' s"
proof -
  let ?t = "concat (map esc_xml s)"
  obtain n where n: "sobj_escape_xml_sc (xa_ok j) s so_zero = Some n" "so_term n" "so_str n = ?t"
    using sobj_escape_xml_sc_spec [of so_zero j s] by auto
  obtain n' where n': "copy_chars (xa_ok j) s so_zero = Some n'" "so_term n'" "so_str n' = s"
    using copy_chars_spec [of so_zero j s] by auto
  have "set ?t \<inter> {CHR ''<'', CHR ''>'', CHR 0x22, CHR 0x27} = {}"
    by (auto simp: esc_xml_def esc_html_def split: if_splits)
  with n n' assms esc_no_NUL(1) [OF assms] show ?thesis
    by (auto simp: so_text_def unescape_xml_escaped)
qed

theorem xml_escape_roundtrip_witness:
  "\<exists>n t n'. sobj_escape_xml_sc (xa_ok (\<lambda>_. NUL)) ''a<b&c'' so_zero = Some n \<and> so_text n t \<and>
    sobj_unescape_xml_sc (xa_ok (\<lambda>_. NUL)) t so_zero = Some n' \<and> so_text n' ''a<b&c''"
  using xml_escape_roundtrip [of "''a<b&c''" "\<lambda>_. NUL"] by auto

text \<open>Escaping for HTML with \<^verbatim>\<open>sobj_escape_html_sc\<close> and unescaping with \<^verbatim>\<open>sobj_unescape_html_sc\<close>
  gives back every C string, although the two functions know different sets of entities.\<close>

theorem html_escape_roundtrip:
  assumes "NUL \<notin> set s"
  shows "\<exists>n t n'. sobj_escape_html_sc (xa_ok j) s so_zero = Some n \<and> so_text n t \<and>
    sobj_unescape_html_sc (xa_ok j) t so_zero = Some n' \<and> so_text n' s"
proof -
  let ?t = "concat (map esc_html s)"
  obtain n where n: "sobj_escape_html_sc (xa_ok j) s so_zero = Some n" "so_term n" "so_str n = ?t"
    using sobj_escape_html_sc_spec [of so_zero j s] by auto
  obtain n' where n': "copy_chars (xa_ok j) s so_zero = Some n'" "so_term n'" "so_str n' = s"
    using copy_chars_spec [of so_zero j s] by auto
  with n assms esc_no_NUL(2) [OF assms] show ?thesis
    by (auto simp: so_text_def unescape_html_escaped)
qed

theorem html_escape_roundtrip_witness:
  "\<exists>n t n'. sobj_escape_html_sc (xa_ok (\<lambda>_. NUL)) ''&nbsp;'' so_zero = Some n \<and> so_text n t \<and>
    sobj_unescape_html_sc (xa_ok (\<lambda>_. NUL)) t so_zero = Some n' \<and> so_text n' ''&nbsp;''"
  using html_escape_roundtrip [of "''&nbsp;''" "\<lambda>_. NUL"] by auto

text \<open>For a string of 7-bit characters \<^verbatim>\<open>sobj_urlencode_sc\<close> never faults and \<^verbatim>\<open>sobj_urldecode\<close> of its
  output is the original string.\<close>

theorem url_roundtrip:
  assumes "NUL \<notin> set s" and "\<forall>c \<in> set s. uchar c < 128"
  shows "\<exists>n t n'. sobj_urlencode_sc (xa_ok j) s so_zero = Some n \<and> so_text n t \<and>
    sobj_urldecode (xa_ok j) t so_zero = Some n' \<and> so_text n' s"
proof -
  let ?t = "concat (map esc_url s)"
  obtain n where n: "sobj_urlencode_sc (xa_ok j) s so_zero = Some n" "so_term n" "so_str n = ?t"
    using sobj_urlencode_sc_spec [of so_zero s j] assms(2) by auto
  obtain n' where n': "copy_chars (xa_ok j) s so_zero = Some n'" "so_term n'" "so_str n' = s"
    using copy_chars_spec [of so_zero j s] by auto
  have "NUL \<notin> set ?t" using assms esc_url_no_NUL by fastforce
  with n n' assms show ?thesis by (auto simp: so_text_def urldecode_encoded)
qed

theorem url_roundtrip_witness:
  "\<exists>n t n'. sobj_urlencode_sc (xa_ok (\<lambda>_. NUL)) ''a b+c%'' so_zero = Some n \<and> so_text n t \<and>
    sobj_urldecode (xa_ok (\<lambda>_. NUL)) t so_zero = Some n' \<and> so_text n' ''a b+c%''"
  by (rule url_roundtrip) (simp_all add: uchar_def)

text \<open>\<^verbatim>\<open>sobj_urlencode_sc\<close> shifts a signed \<^verbatim>\<open>char\<close>: at the first character above \<open>0x7F\<close> it indexes
  the table of hexadecimal digits with a negative number, a read outside the table, whatever
  7-bit text comes before it.\<close>

theorem urlencode_faults_above_7bit:
  assumes "128 \<le> uchar c" and "so_term n" and "\<forall>d \<in> set s. uchar d < 128"
  shows "sobj_urlencode_sc (xa_ok j) (s @ c # cs) n = None"
proof -
  obtain n' where n': "sobj_urlencode_sc (xa_ok j) s n = Some n'" "so_term n'"
    using sobj_urlencode_sc_spec [OF assms(2,3)] by blast
  have "schar c div 16 < 0" using assms(1) uchar_range [of c] by (simp add: schar_def)
  moreover have "\<not> url_plain c"
    using assms(1) uchar_range [of c] by (auto simp: url_plain_def isalnum_def uchar_def)
  ultimately have "sobj_urlencode_sc (xa_ok j) (c # cs) n' = None"
    using so.put_law [OF n'(2), of j "CHR ''%''"] by (auto simp: hex_digit_def)
  with n'(1) show ?thesis by (simp add: sobj_urlencode_sc_append)
qed

theorem urlencode_faults_above_7bit_witness:
  "sobj_urlencode_sc (xa_ok (\<lambda>_. NUL)) (''ab'' @ CHR 0xE9 # []) so_zero = None"
  by (rule urlencode_faults_above_7bit) (simp_all add: uchar_def)

end
