(* ===== verification/Xstream.thy ===== *)
theory Xstream
  imports Cmodel_Prelude
begin

text \<open>
  The extensible stream of \<^verbatim>\<open>comlib/xstream.c\<close>: a character source (a file, a limited file
  descriptor, or a memory buffer) behind an undo buffer of \<^verbatim>\<open>MAX_XS_UNDO\<close> characters. A C
  \<^verbatim>\<open>FILE\<close> is the list of characters still to be read from it. The abstraction \<open>pending\<close> is the
  sequence of characters the stream will deliver; \<^verbatim>\<open>xs_getc\<close>, \<^verbatim>\<open>xs_ungetc\<close> and \<^verbatim>\<open>xs_ungets\<close> are head,
  cons and append on it.
\<close>

definition MAX_XS_UNDO :: nat where "MAX_XS_UNDO = 512"

text \<open>The union \<^verbatim>\<open>fd\<close> with its tag \<^verbatim>\<open>type\<close>.\<close>

datatype xs_fd =
    XSTYPE_UNKNOWN
  | XSTYPE_FILE "char list"
  | XSTYPE_FDOPEN "char list" int
  | XSTYPE_BUFFER "char list" nat nat

record xstream =
  fd :: xs_fd
  undo :: "char list"
  udsize :: nat

text \<open>\<^verbatim>\<open>fgetc\<close> of the C library.\<close>

fun fgetc :: "char list \<Rightarrow> int \<times> char list" where
  "fgetc [] = (EOF, [])"
| "fgetc (c # cs) = (uchar c, cs)"

definition xs_zero :: "xs_fd \<Rightarrow> xstream" where
  "xs_zero f = \<lparr>fd = f, undo = replicate MAX_XS_UNDO NUL, udsize = 0\<rparr>"

text \<open>The opening functions. \<open>file\<close> is what \<^verbatim>\<open>fopen\<close> or \<^verbatim>\<open>fdopen\<close> returned (\<open>None\<close> for \<^verbatim>\<open>NULL\<close>), \<open>mem\<close>
  whether the allocation of the stream object succeeds.\<close>

definition xs_fopen :: "char list option \<Rightarrow> bool \<Rightarrow> xstream option" where
  "xs_fopen file mem = (case file of
      Some f \<Rightarrow> if mem then Some (xs_zero (XSTYPE_FILE f)) else None
    | None \<Rightarrow> None)"

definition xs_fdopen :: "char list option \<Rightarrow> int \<Rightarrow> bool \<Rightarrow> xstream option" where
  "xs_fdopen file limit mem = (if mem then
      (case file of Some f \<Rightarrow> Some (xs_zero (XSTYPE_FDOPEN f limit)) | None \<Rightarrow> None)
     else None)"

definition xs_bopen :: "char list option \<Rightarrow> nat \<Rightarrow> bool \<Rightarrow> xstream option" where
  "xs_bopen buff bsz mem = (case buff of
      None \<Rightarrow> None
    | Some b \<Rightarrow> if bsz \<noteq> 0 then (if mem then Some (xs_zero (XSTYPE_BUFFER b 0 bsz)) else None)
                else None)"

text \<open>Reading the source once the undo buffer is empty: the \<^verbatim>\<open>switch\<close> of \<^verbatim>\<open>xs_getc\<close>.\<close>

fun xs_getc_fd :: "xs_fd \<Rightarrow> (int \<times> xs_fd) option" where
  "xs_getc_fd (XSTYPE_FILE f) = (let (c, f') = fgetc f in Some (c, XSTYPE_FILE f'))"
| "xs_getc_fd (XSTYPE_FDOPEN f left) =
     (if left > 0 then
        (let (c, f') = fgetc f in
         if c = EOF then Some (c, XSTYPE_FDOPEN f' 0) else Some (c, XSTYPE_FDOPEN f' (left - 1)))
      else Some (EOF, XSTYPE_FDOPEN f left))"
| "xs_getc_fd (XSTYPE_BUFFER b cur bsz) =
     (if cur < bsz then do { c \<leftarrow> rd b cur; Some (uchar c, XSTYPE_BUFFER b (cur + 1) bsz) }
      else Some (EOF, XSTYPE_BUFFER b cur bsz))"
| "xs_getc_fd XSTYPE_UNKNOWN = Some (EOF, XSTYPE_UNKNOWN)"

definition xs_getc :: "xstream option \<Rightarrow> (int \<times> xstream option) option" where
  "xs_getc xs = (case xs of
      None \<Rightarrow> Some (EOF, None)
    | Some x \<Rightarrow>
        (if udsize x > 0 then do {
           c \<leftarrow> rd (undo x) (udsize x - 1);
           Some (uchar c, Some (x\<lparr>udsize := udsize x - 1\<rparr>)) }
         else do {
           (c, f) \<leftarrow> xs_getc_fd (fd x);
           Some (c, Some (x\<lparr>fd := f\<rparr>)) }))"

definition xs_ungetc :: "int \<Rightarrow> xstream option \<Rightarrow> (int \<times> xstream option) option" where
  "xs_ungetc c xs = (case xs of
      None \<Rightarrow> Some (EOF, None)
    | Some x \<Rightarrow>
        (if c = EOF then Some (EOF, Some x)
         else if udsize x < MAX_XS_UNDO then do {
           u \<leftarrow> wr (undo x) (udsize x) (to_char c);
           Some (c, Some (x\<lparr>undo := u, udsize := udsize x + 1\<rparr>)) }
         else Some (EOF, Some x)))"

text \<open>\<^verbatim>\<open>xs_ungets\<close> pushes the characters from the last to the first; the C code reads them through a
  plain \<^verbatim>\<open>char\<close>, so the value it passes on is signed. The string is the list without its NUL.\<close>

fun xs_ungets_rev :: "char list \<Rightarrow> xstream option \<Rightarrow> (int \<times> xstream option) option" where
  "xs_ungets_rev [] xs = Some (0, xs)"
| "xs_ungets_rev (c # cs) xs = do {
     (r, xs') \<leftarrow> xs_ungetc (schar c) xs;
     if r = EOF then Some (EOF, xs') else xs_ungets_rev cs xs' }"

definition xs_ungets :: "char list option \<Rightarrow> xstream option \<Rightarrow> (int \<times> xstream option) option" where
  "xs_ungets s xs = (case s of None \<Rightarrow> Some (0, xs) | Some str \<Rightarrow> xs_ungets_rev (rev str) xs)"

definition xs_close :: "xstream option \<Rightarrow> int \<times> xstream option" where
  "xs_close xs = (case xs of None \<Rightarrow> (-1, None) | Some x \<Rightarrow> (0, None))"

subsection \<open>What a stream will deliver\<close>

fun source :: "xs_fd \<Rightarrow> char list" where
  "source XSTYPE_UNKNOWN = []"
| "source (XSTYPE_FILE f) = f"
| "source (XSTYPE_FDOPEN f left) = take (nat left) f"
| "source (XSTYPE_BUFFER b cur bsz) = drop cur (take bsz b)"

definition pending :: "xstream \<Rightarrow> char list" where
  "pending x = rev (take (udsize x) (undo x)) @ source (fd x)"

fun fd_ok :: "xs_fd \<Rightarrow> bool" where
  "fd_ok (XSTYPE_BUFFER b cur bsz) \<longleftrightarrow> bsz \<le> length b"
| "fd_ok _ \<longleftrightarrow> True"

definition xs_ok :: "xstream \<Rightarrow> bool" where
  "xs_ok x \<longleftrightarrow> length (undo x) = MAX_XS_UNDO \<and> udsize x \<le> MAX_XS_UNDO \<and> fd_ok (fd x)"

lemma xs_zero_ok: "fd_ok f \<Longrightarrow> xs_ok (xs_zero f)" "pending (xs_zero f) = source f"
  by (simp_all add: xs_ok_def xs_zero_def pending_def)

lemma xs_getc_fd_spec:
  assumes "fd_ok f"
  shows "\<exists>f'. fd_ok f' \<and> (case source f of
      [] \<Rightarrow> xs_getc_fd f = Some (EOF, f') \<and> source f' = []
    | c # cs \<Rightarrow> xs_getc_fd f = Some (uchar c, f') \<and> source f' = cs)"
proof (cases f)
  case XSTYPE_UNKNOWN
  then show ?thesis by (intro exI [of _ f]) simp
next
  case (XSTYPE_FILE s)
  then show ?thesis by (cases s) (auto intro: exI [of _ "XSTYPE_FILE (tl s)"])
next
  case (XSTYPE_FDOPEN s left)
  then show ?thesis
  proof (cases "left > 0")
    case True
    then have "nat left = Suc (nat (left - 1))" by simp
    with XSTYPE_FDOPEN True show ?thesis
      by (cases s) (auto intro: exI [of _ "XSTYPE_FDOPEN [] 0"]
            exI [of _ "XSTYPE_FDOPEN (tl s) (left - 1)"])
  next
    case False
    with XSTYPE_FDOPEN show ?thesis by (intro exI [of _ f]) simp
  qed
next
  case (XSTYPE_BUFFER b cur bsz)
  with assms have sz: "bsz \<le> length b" by simp
  show ?thesis
  proof (cases "cur < bsz")
    case True
    then have "drop cur (take bsz b) = b ! cur # drop (Suc cur) (take bsz b)"
      using sz by (simp add: Cons_nth_drop_Suc [symmetric])
    with XSTYPE_BUFFER True sz show ?thesis
      by (intro exI [of _ "XSTYPE_BUFFER b (cur + 1) bsz"]) simp
  next
    case False
    with XSTYPE_BUFFER sz show ?thesis by (intro exI [of _ f]) simp
  qed
qed

lemma xs_getc_spec:
  assumes "xs_ok x"
  shows "\<exists>x'. xs_ok x' \<and> (case pending x of
      [] \<Rightarrow> xs_getc (Some x) = Some (EOF, Some x') \<and> pending x' = []
    | c # cs \<Rightarrow> xs_getc (Some x) = Some (uchar c, Some x') \<and> pending x' = cs)"
proof (cases "udsize x")
  case 0
  obtain f' where "fd_ok f'" "case source (fd x) of
      [] \<Rightarrow> xs_getc_fd (fd x) = Some (EOF, f') \<and> source f' = []
    | c # cs \<Rightarrow> xs_getc_fd (fd x) = Some (uchar c, f') \<and> source f' = cs"
    using xs_getc_fd_spec assms by (auto simp: xs_ok_def)
  with 0 assms show ?thesis
    by (intro exI [of _ "x\<lparr>fd := f'\<rparr>"])
      (auto simp: xs_getc_def pending_def xs_ok_def split: list.splits)
next
  case (Suc n)
  then have "rev (take (udsize x) (undo x)) = undo x ! n # rev (take n (undo x))"
    using assms by (simp add: xs_ok_def take_Suc_conv_app_nth)
  with Suc assms show ?thesis
    by (intro exI [of _ "x\<lparr>udsize := n\<rparr>"]) (auto simp: xs_getc_def pending_def xs_ok_def)
qed

lemma xs_ungetc_spec:
  assumes "xs_ok x" and "c \<noteq> EOF" and "udsize x < MAX_XS_UNDO"
  shows "\<exists>x'. xs_ungetc c (Some x) = Some (c, Some x') \<and> xs_ok x' \<and>
    pending x' = to_char c # pending x \<and> udsize x' = udsize x + 1"
  using assms
  by (auto simp: xs_ungetc_def xs_ok_def pending_def take_Suc_upd)

lemma xs_ungets_rev_spec:
  assumes "xs_ok x" and "udsize x + length s \<le> MAX_XS_UNDO" and "CHR 0xFF \<notin> set s"
  shows "\<exists>x'. xs_ungets_rev s (Some x) = Some (0, Some x') \<and> xs_ok x' \<and>
    pending x' = rev s @ pending x"
  using assms
proof (induction s arbitrary: x)
  case Nil
  then show ?case by simp
next
  case (Cons c s)
  have "uchar (CHR 0xFF) = 255" by (simp add: uchar_def)
  then have ne: "schar c \<noteq> EOF"
    using Cons.prems(3) uchar_inject [of c "CHR 0xFF"] by (auto simp: schar_EOF_iff)
  obtain x' where x': "xs_ungetc (schar c) (Some x) = Some (schar c, Some x')" "xs_ok x'"
    "pending x' = c # pending x" "udsize x' = udsize x + 1"
    using xs_ungetc_spec [OF Cons.prems(1) ne] Cons.prems(2) by auto
  have "udsize x' + length s \<le> MAX_XS_UNDO" using x'(4) Cons.prems(2) by simp
  from Cons.IH [OF x'(2) this] Cons.prems(3) obtain x'' where
    "xs_ungets_rev s (Some x') = Some (0, Some x'')" "xs_ok x''" "pending x'' = rev s @ pending x'"
    by auto
  with x' ne show ?case by auto
qed

subsection \<open>The character source interface\<close>

text \<open>What the token readers rely on: reading delivers the pending characters in order and then
  end of file, and a character that was just read can be put back.\<close>

locale char_source =
  fixes getc :: "'s \<Rightarrow> (int \<times> 's) option"
    and ungetc :: "int \<Rightarrow> 's \<Rightarrow> (int \<times> 's) option"
    and pend :: "'s \<Rightarrow> char list"
    and ok :: "'s \<Rightarrow> bool"
    and room :: "'s \<Rightarrow> nat"
  assumes getc_Cons: "ok s \<Longrightarrow> pend s = c # cs \<Longrightarrow>
      \<exists>s'. getc s = Some (uchar c, s') \<and> ok s' \<and> pend s' = cs \<and> room s \<le> room s'"
    and getc_Nil: "ok s \<Longrightarrow> pend s = [] \<Longrightarrow>
      \<exists>s'. getc s = Some (EOF, s') \<and> ok s' \<and> pend s' = [] \<and> room s \<le> room s'"
    and ungetc_law: "ok s \<Longrightarrow> 0 < room s \<Longrightarrow>
      \<exists>s'. ungetc (uchar c) s = Some (uchar c, s') \<and> ok s' \<and> pend s' = c # pend s"
begin

lemma getc_total: "ok s \<Longrightarrow> \<exists>c s'. getc s = Some (c, s') \<and> ok s'"
  using getc_Cons getc_Nil by (cases "pend s") blast+

lemma getc_EOF_iff: "ok s \<Longrightarrow> getc s = Some (c, s') \<Longrightarrow> c = EOF \<longleftrightarrow> pend s = []"
  using getc_Cons getc_Nil by (cases "pend s") fastforce+

lemma getc_shrinks:
  assumes "ok s" and "getc s = Some (c, s')" and "c \<noteq> EOF"
  shows "pend s = to_char c # pend s'"
proof (cases "pend s")
  case Nil
  with assms getc_EOF_iff show ?thesis by blast
next
  case (Cons d cs)
  with getc_Cons [OF assms(1) Cons] assms(2) show ?thesis by auto
qed

text \<open>Putting back the character just read restores what the source will deliver.\<close>

lemma peek:
  assumes "ok s" and "0 < room s" and "getc s = Some (c, s')" and "c \<noteq> EOF"
  shows "\<exists>s''. ungetc c s' = Some (c, s'') \<and> ok s'' \<and> pend s'' = pend s"
proof -
  have sh: "pend s = to_char c # pend s'" using getc_shrinks assms(1,3,4) .
  obtain s1 where "getc s = Some (uchar (to_char c), s1)" "ok s1" "room s \<le> room s1"
    using getc_Cons [OF assms(1) sh] by blast
  with assms(2,3) have "ok s'" "0 < room s'" "uchar (to_char c) = c" by auto
  with ungetc_law [of s' "to_char c"] sh show ?thesis by auto
qed

end

lemma xs_getc_udsize:
  "xs_getc (Some x) = Some (c, Some x') \<Longrightarrow> udsize x' \<le> udsize x"
  by (auto simp: xs_getc_def bind_Some_iff split: if_splits)

interpretation xsrc: char_source
  "\<lambda>x. do { (c, y) \<leftarrow> xs_getc (Some x); case y of Some x' \<Rightarrow> Some (c, x') | None \<Rightarrow> None }"
  "\<lambda>c x. do { (r, y) \<leftarrow> xs_ungetc c (Some x); case y of Some x' \<Rightarrow> Some (r, x') | None \<Rightarrow> None }"
  pending xs_ok "\<lambda>x. MAX_XS_UNDO - udsize x"
proof unfold_locales
  fix s :: xstream and c cs
  assume ok: "xs_ok s"
  show "\<exists>s'. (do { (c, y) \<leftarrow> xs_getc (Some s); case y of Some x' \<Rightarrow> Some (c, x') | None \<Rightarrow> None })
      = Some (uchar c, s') \<and> xs_ok s' \<and> pending s' = cs \<and>
      MAX_XS_UNDO - udsize s \<le> MAX_XS_UNDO - udsize s'" if "pending s = c # cs"
    using xs_getc_spec [OF ok] that xs_getc_udsize [of s] by fastforce
  show "\<exists>s'. (do { (c, y) \<leftarrow> xs_getc (Some s); case y of Some x' \<Rightarrow> Some (c, x') | None \<Rightarrow> None })
      = Some (EOF, s') \<and> xs_ok s' \<and> pending s' = [] \<and>
      MAX_XS_UNDO - udsize s \<le> MAX_XS_UNDO - udsize s'" if "pending s = []"
    using xs_getc_spec [OF ok] that xs_getc_udsize [of s] by fastforce
  show "\<exists>s'. (do { (r, y) \<leftarrow> xs_ungetc (uchar c) (Some s);
      case y of Some x' \<Rightarrow> Some (r, x') | None \<Rightarrow> None }) = Some (uchar c, s') \<and> xs_ok s' \<and>
      pending s' = c # pending s" if "0 < MAX_XS_UNDO - udsize s"
    using xs_ungetc_spec [OF ok, of "uchar c"] that by auto
qed

subsection \<open>Properties\<close>

text \<open>\<^verbatim>\<open>xs_getc\<close> on any well-formed stream, whatever its source, never faults: it returns the next
  pending character as an \<^verbatim>\<open>unsigned char\<close> value and drops it, or \<^verbatim>\<open>EOF\<close> exactly when nothing is
  pending; the stream stays well formed.\<close>

theorem xs_getc_delivers:
  assumes "xs_ok x"
  shows "\<exists>c x'. xs_getc (Some x) = Some (c, Some x') \<and> xs_ok x' \<and>
    (pending x = [] \<longrightarrow> c = EOF \<and> pending x' = []) \<and>
    (pending x \<noteq> [] \<longrightarrow> c = uchar (hd (pending x)) \<and> pending x' = tl (pending x))"
  using xs_getc_spec [OF assms] by (cases "pending x") auto

theorem xs_getc_delivers_witness:
  "\<exists>c x'. xs_getc (Some (xs_zero (XSTYPE_FDOPEN ''abc'' 2))) = Some (c, Some x') \<and>
    c = uchar (CHR ''a'') \<and> pending x' = ''b''"
  using xs_getc_delivers [of "xs_zero (XSTYPE_FDOPEN ''abc'' 2)"]
  by (auto simp: xs_zero_ok)

text \<open>Pushing a string back with \<^verbatim>\<open>xs_ungets\<close> makes the stream deliver it before everything else, as
  long as the undo buffer has room for it and it holds no byte \<open>0xFF\<close>.\<close>

theorem xs_ungets_prepends:
  assumes "xs_ok x" and "udsize x + length s \<le> MAX_XS_UNDO" and "CHR 0xFF \<notin> set s"
  shows "\<exists>x'. xs_ungets (Some s) (Some x) = Some (0, Some x') \<and> xs_ok x' \<and>
    pending x' = s @ pending x"
  using xs_ungets_rev_spec [OF assms(1), of "rev s"] assms(2,3) by (simp add: xs_ungets_def)

theorem xs_ungets_prepends_witness:
  "\<exists>x'. xs_ungets (Some ''xy'') (Some (xs_zero (XSTYPE_FILE ''abc''))) = Some (0, Some x') \<and>
    xs_ok x' \<and> pending x' = ''xyabc''"
  using xs_ungets_prepends [of "xs_zero (XSTYPE_FILE ''abc'')" "''xy''"]
  by (simp add: xs_zero_ok) (simp add: xs_zero_def MAX_XS_UNDO_def)

text \<open>\<^verbatim>\<open>xs_ungets\<close> reads its string through a signed \<^verbatim>\<open>char\<close>, so a byte \<open>0xFF\<close> becomes the value
  of \<^verbatim>\<open>EOF\<close>: when the string ends in that byte nothing at all is pushed back and the call reports
  \<^verbatim>\<open>EOF\<close>, although the undo buffer has room.\<close>

theorem xs_ungets_loses_0xFF:
  "xs_ungets (Some (s @ [CHR 0xFF])) (Some x) = Some (EOF, Some x)"
proof -
  have "schar (CHR 0xFF) = EOF" by (simp add: schar_EOF_iff uchar_def)
  then show ?thesis by (simp add: xs_ungets_def xs_ungetc_def)
qed

end
