(* ===== verification/Strobj_Token.thy ===== *)
theory Strobj_Token
  imports Strobj_Text Xstream
begin

text \<open>
  Token reading from a stream (\<^verbatim>\<open>sobj_xstream_*\<close> of \<^verbatim>\<open>comlib/strobj.c\<close>) and the lists of string
  objects (\<^verbatim>\<open>solist_*\<close>). The loops read a stream until end of file, so they end because the pending
  characters of the stream run out. The readers are shown to undo the escapings: a quoted string that
  was escaped for JavaScript or for the shell is read back as it was.
\<close>

subsection \<open>Lists of string objects\<close>

text \<open>The objects in list order and the position of \<^verbatim>\<open>curr\<close>. The links are those of \<^verbatim>\<open>dlist.h\<close>.\<close>

record strobj_list =
  sl_objs :: "strobj list"
  sl_curr :: "nat option"

definition solist_new :: "bool \<Rightarrow> strobj_list option" where
  "solist_new mem = (if mem then Some \<lparr>sl_objs = [], sl_curr = None\<rparr> else None)"

fun solist_free_loop :: "strobj list \<Rightarrow> strobj list" where
  "solist_free_loop [] = []"
| "solist_free_loop (x # xs) = solist_free_loop xs"

definition solist_free :: "strobj_list \<Rightarrow> strobj_list" where
  "solist_free l = \<lparr>sl_objs = solist_free_loop (sl_objs l), sl_curr = None\<rparr>"

definition solist_del :: "strobj_list \<Rightarrow> strobj_list option" where
  "solist_del l = (let l' = solist_free l in None)"

definition solist_get_next :: "strobj_list \<Rightarrow> strobj option \<times> strobj_list" where
  "solist_get_next l =
     (let i = (case sl_curr l of Some p \<Rightarrow> Suc p | None \<Rightarrow> 0) in
      if i < length (sl_objs l) then (Some (sl_objs l ! i), l\<lparr>sl_curr := Some i\<rparr>)
      else (None, l\<lparr>sl_curr := None\<rparr>))"

definition solist_get_prev :: "strobj_list \<Rightarrow> strobj option \<times> strobj_list" where
  "solist_get_prev l =
     (let i = (case sl_curr l of Some p \<Rightarrow> p | None \<Rightarrow> length (sl_objs l)) in
      if 0 < i then (Some (sl_objs l ! (i - 1)), l\<lparr>sl_curr := Some (i - 1)\<rparr>)
      else (None, l\<lparr>sl_curr := None\<rparr>))"

definition solist_get_reset :: "strobj_list option \<Rightarrow> strobj_list option" where
  "solist_get_reset l = map_option (\<lambda>l. l\<lparr>sl_curr := None\<rparr>) l"

definition solist_remove :: "strobj_list \<Rightarrow> nat \<Rightarrow> strobj_list" where
  "solist_remove l p =
     l\<lparr>sl_objs := take p (sl_objs l) @ drop (Suc p) (sl_objs l),
       sl_curr := (case sl_curr l of
           None \<Rightarrow> None
         | Some i \<Rightarrow> if i = p then None else if p < i then Some (i - 1) else Some i)\<rparr>"

definition solist_add :: "strobj_list \<Rightarrow> strobj \<Rightarrow> strobj_list" where
  "solist_add l x = l\<lparr>sl_objs := sl_objs l @ [x]\<rparr>"

fun count_entries :: "strobj list \<Rightarrow> int \<Rightarrow> int" where
  "count_entries [] n = n"
| "count_entries (x # xs) n = count_entries xs (n + 1)"

definition solist_get_count :: "strobj_list \<Rightarrow> int" where
  "solist_get_count l = count_entries (sl_objs l) 0"

subsection \<open>Reading a token\<close>

definition xs_left :: "xstream option \<Rightarrow> nat" where
  "xs_left h = (case h of None \<Rightarrow> 0 | Some x \<Rightarrow> length (pending x))"

lemma xs_getc_fd_left:
  "xs_getc_fd f = Some (c, f') \<Longrightarrow> c \<noteq> EOF \<Longrightarrow> length (source f) = Suc (length (source f'))"
proof (induction f rule: xs_getc_fd.induct)
  case (1 f)
  then show ?case by (cases f) auto
next
  case (2 f left)
  then show ?case by (cases f) (auto split: if_splits)
next
  case (3 b cur bsz)
  then show ?case by (auto simp: bind_Some_iff rd_eq_Some split: if_splits)
next
  case 4
  then show ?case by simp
qed

lemma xs_getc_left:
  assumes "xs_getc h = Some (c, h')" and "c \<noteq> EOF"
  shows "xs_left h = Suc (xs_left h')"
proof (cases h)
  case None
  with assms show ?thesis by (simp add: xs_getc_def)
next
  case (Some x)
  show ?thesis
  proof (cases "udsize x")
    case 0
    with assms Some xs_getc_fd_left show ?thesis
      by (auto simp: xs_getc_def bind_Some_iff xs_left_def pending_def)
  next
    case (Suc n)
    with assms Some show ?thesis
      by (auto simp: xs_getc_def bind_Some_iff xs_left_def pending_def rd_eq_Some)
  qed
qed

lemma xs_ungetc_left: "xs_ungetc c h = Some (r, h') \<Longrightarrow> xs_left h' \<le> Suc (xs_left h)"
  by (cases h)
    (auto simp: xs_ungetc_def bind_Some_iff xs_left_def pending_def wr_eq_Some min_def split: if_splits)

lemma xs_getc_fd_le: "xs_getc_fd f = Some (c, f') \<Longrightarrow> length (source f') \<le> length (source f)"
proof (induction f rule: xs_getc_fd.induct)
  case (1 f)
  then show ?case by (cases f) auto
next
  case (2 f left)
  then show ?case by (cases f) (auto split: if_splits)
next
  case (3 b cur bsz)
  then show ?case by (auto simp: bind_Some_iff rd_eq_Some split: if_splits)
next
  case 4
  then show ?case by simp
qed

lemma xs_getc_le: "xs_getc h = Some (c, h') \<Longrightarrow> xs_left h' \<le> xs_left h"
  by (cases h) (auto simp: xs_getc_def bind_Some_iff xs_left_def pending_def rd_eq_Some min_def
      dest: xs_getc_fd_le split: if_splits)

function sobj_xstream_eatwhite :: "xstream option \<Rightarrow> (int \<times> xstream option) option" where
  "sobj_xstream_eatwhite xs = (case xs_getc xs of
      None \<Rightarrow> None
    | Some (c, xs1) \<Rightarrow>
        if c = EOF then Some (c, xs1)
        else if sobj_iswhite (to_char c) then sobj_xstream_eatwhite xs1
        else do { (r, xs2) \<leftarrow> xs_ungetc c xs1; Some (c, xs2) })"
  by pat_completeness auto
termination by (relation "measure xs_left") (auto dest: xs_getc_left)

declare sobj_xstream_eatwhite.simps [simp del]

definition SO_FLAG_QUOT_STRING :: u32 where "SO_FLAG_QUOT_STRING = 1"

definition is_quot :: "int \<Rightarrow> bool" where
  "is_quot c \<longleftrightarrow> c = uchar (CHR 0x22) \<or> c = uchar (CHR 0x27)"

definition unescape_char :: "char \<Rightarrow> char" where
  "unescape_char c = (if c = CHR ''n'' then CHR 0x0A else if c = CHR ''r'' then CHR 0x0D
     else if c = CHR ''t'' then CHR 0x09 else c)"

text \<open>The loop of \<^verbatim>\<open>sobj_xstream_read_esc\<close>, with its locals \<open>escape\<close> and \<open>q\<close>; \<open>stop\<close> is the parameter
  \<^verbatim>\<open>end\<close>. The result is the returned value, the final \<open>q\<close> (what \<^verbatim>\<open>*quot\<close> receives), the stream and the
  object.\<close>

function read_esc :: "xalloc \<Rightarrow> char list option \<Rightarrow> char \<Rightarrow> bool \<Rightarrow> int \<Rightarrow> xstream option \<Rightarrow> strobj
    \<Rightarrow> (int \<times> int \<times> xstream option \<times> strobj) option" where
  "read_esc A stop esc escape q xs so = (case xs_getc xs of
      None \<Rightarrow> None
    | Some (c, xs1) \<Rightarrow>
        if c = EOF then Some (c, q, xs1, so)
        else if c = 0 then Some (0, q, xs1, so)
        else if q < 0 \<and> is_quot c then read_esc A stop esc escape c xs1 so
        else if 0 < q then
          (if escape then
             (case add_char A so (unescape_char (to_char c)) of
                None \<Rightarrow> None
              | Some (r, so1) \<Rightarrow>
                  if r < 0 then Some (0, q, xs1, so1)
                  else read_esc A stop esc False q xs1 so1)
           else if esc \<noteq> NUL \<and> c = schar esc then read_esc A stop esc True q xs1 so
           else if c = q then
             Some (c, q, xs1, so\<lparr>so_flags := so_flags so OR SO_FLAG_QUOT_STRING\<rparr>)
           else
             (case add_char A so (to_char c) of
                None \<Rightarrow> None
              | Some (r, so1) \<Rightarrow>
                  if r < 0 then Some (0, q, xs1, so1)
                  else read_esc A stop esc escape q xs1 so1))
        else if is_quot c then
          do { (r, xs2) \<leftarrow> xs_ungetc c xs1;
               Some (c, 0, xs2, so\<lparr>so_flags := so_flags so AND NOT SO_FLAG_QUOT_STRING\<rparr>) }
        else if sobj_iswhite (to_char c) \<or> (stop \<noteq> None \<and> find_pattern (to_char c) (the stop)) then
          Some (c, 0, xs1, so\<lparr>so_flags := so_flags so AND NOT SO_FLAG_QUOT_STRING\<rparr>)
        else
          (case add_char A so (to_char c) of
             None \<Rightarrow> None
           | Some (r, so1) \<Rightarrow>
               if r < 0 then Some (0, 0, xs1, so1)
               else read_esc A stop esc escape 0 xs1 so1))"
  by pat_completeness auto
termination
  by (relation "measure (\<lambda>(A, stop, esc, escape, q, xs, so). xs_left xs)") (auto dest: xs_getc_left)

declare read_esc.simps [simp del]

definition sobj_xstream_read_esc :: "xalloc \<Rightarrow> xstream option \<Rightarrow> strobj \<Rightarrow> char list option \<Rightarrow> char
    \<Rightarrow> (int \<times> int \<times> xstream option \<times> strobj) option" where
  "sobj_xstream_read_esc A xs so stop esc = read_esc A stop esc False (-1) xs so"

definition sobj_xstream_read :: "xalloc \<Rightarrow> xstream option \<Rightarrow> strobj \<Rightarrow> char list option
    \<Rightarrow> (int \<times> int \<times> xstream option \<times> strobj) option" where
  "sobj_xstream_read A xs so stop = sobj_xstream_read_esc A xs so stop (CHR 0x5C)"

subsection \<open>The readers make progress\<close>

lemma is_quot_pos: "is_quot c \<Longrightarrow> 0 < c"
  by (auto simp: is_quot_def uchar_def)

lemma eatwhite_left:
  "sobj_xstream_eatwhite xs = Some (c, xs') \<Longrightarrow> xs_left xs' \<le> xs_left xs"
proof (induction xs rule: sobj_xstream_eatwhite.induct)
  case (1 xs)
  obtain d xs1 where g: "xs_getc xs = Some (d, xs1)"
    using "1.prems" by (auto simp: sobj_xstream_eatwhite.simps [of xs] split: option.splits)
  show ?case
  proof (cases "d = EOF")
    case True
    with 1(2) g xs_getc_le [OF g] show ?thesis by (simp add: sobj_xstream_eatwhite.simps [of xs])
  next
    case False
    then have "xs_left xs = Suc (xs_left xs1)" using xs_getc_left [OF g] by simp
    with 1(2) False g 1(1) [OF g refl False] show ?thesis
      by (auto simp: sobj_xstream_eatwhite.simps [of xs] bind_Some_iff
          dest: xs_ungetc_left split: if_splits)
  qed
qed

lemma read_esc_left:
  "read_esc A stop esc escape q xs so = Some (c, q', xs', so') \<Longrightarrow> 0 \<le> q \<Longrightarrow> xs_left xs' \<le> xs_left xs"
proof (induction A stop esc escape q xs so rule: read_esc.induct)
  case (1 A stop esc escape q xs so)
  obtain d xs1 where g: "xs_getc xs = Some (d, xs1)"
    using "1.prems" by (auto simp: read_esc.simps [of A stop esc escape q xs] split: option.splits)
  show ?case
  proof (cases "d = EOF")
    case True
    with "1.prems" g xs_getc_le [OF g] show ?thesis
      by (simp add: read_esc.simps [of A stop esc escape q xs])
  next
    case False
    then have "xs_left xs = Suc (xs_left xs1)" using xs_getc_left [OF g] by simp
    with "1.prems" "1.IH" [OF g refl False] g False show ?thesis
      by (auto simp: read_esc.simps [of A stop esc escape q xs] bind_Some_iff not_less
          dest: xs_ungetc_left split: if_splits option.splits) (metis le_SucI)+
  qed
qed

text \<open>A token read that does not hit the end of the stream consumes at least one character.\<close>

lemma read_esc_progress:
  assumes "read_esc A stop esc escape (-1) xs so = Some (c, q', xs', so')" and "c \<noteq> EOF"
  shows "xs_left xs' < xs_left xs"
proof -
  obtain d xs1 where g: "xs_getc xs = Some (d, xs1)"
    using assms by (auto simp: read_esc.simps [of A stop esc escape "-1" xs] split: option.splits)
  have ne: "d \<noteq> EOF"
    using assms g by (auto simp: read_esc.simps [of A stop esc escape "-1" xs])
  then have "xs_left xs = Suc (xs_left xs1)" using xs_getc_left [OF g] by simp
  with assms(1) g ne is_quot_pos [of d] show ?thesis
    by (auto simp: read_esc.simps [of A stop esc escape "-1" xs]
        dest!: read_esc_left split: if_splits option.splits)
qed

subsection \<open>Reading a list of tokens\<close>

text \<open>The inner loop of \<^verbatim>\<open>sobj_xstream_read_tokens\<close>. The result is \<open>None\<close> in the second component when
  the loop left with \<open>err\<close> set. A token of length zero is deleted; a delimiter that ended a token becomes a
  token of its own.\<close>

definition solist_put :: "strobj_list \<Rightarrow> strobj \<Rightarrow> strobj_list" where
  "solist_put l token = (if sz token = 0 then l else solist_add l token)"

definition add_delimiter :: "xalloc \<Rightarrow> int \<Rightarrow> strobj_list \<Rightarrow> (bool \<times> strobj_list) option" where
  "add_delimiter A c l = (case sobj_new A of
      None \<Rightarrow> Some (False, l)
    | Some token \<Rightarrow> do {
        (r, t) \<leftarrow> add_char A token (to_char c);
        if r < 0 then Some (False, l) else Some (True, solist_add l t) })"

function read_tokens_loop :: "xalloc \<Rightarrow> char list option \<Rightarrow> char \<Rightarrow> char list option \<Rightarrow> xstream option
    \<Rightarrow> strobj_list \<Rightarrow> (int option \<times> xstream option \<times> strobj_list) option" where
  "read_tokens_loop A delimit stop delimiter xs l = (case sobj_new A of
      None \<Rightarrow> Some (None, xs, l)
    | Some token \<Rightarrow>
       (case sobj_xstream_eatwhite xs of
          None \<Rightarrow> None
        | Some (_, xs1) \<Rightarrow>
           (case sobj_xstream_read A xs1 token delimit of
              None \<Rightarrow> None
            | Some (c, quot, xs2, t) \<Rightarrow>
                if c = 0 then Some (None, xs2, l)
                else
                  (let l1 = solist_put l t in
                   if c = schar stop then Some (Some c, xs2, l1)
                   else
                     (case (if delimiter \<noteq> None \<and> find_pattern (to_char c) (the delimiter)
                            then add_delimiter A c l1 else Some (True, l1)) of
                        None \<Rightarrow> None
                      | Some (ok, l2) \<Rightarrow>
                          if \<not> ok then Some (None, xs2, l2)
                          else if c \<noteq> EOF then read_tokens_loop A delimit stop delimiter xs2 l2
                          else Some (Some c, xs2, l2))))))"
  by pat_completeness auto
termination
proof (relation "measure (\<lambda>(A, delimit, stop, delimiter, xs, l). xs_left xs)")
qed (auto simp: sobj_xstream_read_def sobj_xstream_read_esc_def
    dest!: eatwhite_left read_esc_progress)

declare read_tokens_loop.simps [simp del]

definition sobj_xstream_read_tokens :: "xalloc \<Rightarrow> xstream option \<Rightarrow> strobj_list \<Rightarrow> char
    \<Rightarrow> char list option \<Rightarrow> (int \<times> xstream option \<times> strobj_list) option" where
  "sobj_xstream_read_tokens A xs l stop delimiter = (case sobj_new A of
      None \<Rightarrow> Some (0, xs, solist_free l)
    | Some d0 \<Rightarrow> do {
        (r1, d1) \<leftarrow> sobj_add_string A (Some d0) delimiter;
        if r1 < 0 then Some (0, xs, solist_free l)
        else do {
          (r2, d2) \<leftarrow> (if stop \<noteq> NUL then sobj_add_char A d1 stop else Some (0, d1));
          if r2 < 0 then Some (0, xs, solist_free l)
          else do {
            pat \<leftarrow> sobj_get_string d2;
            delimit \<leftarrow> cstr pat;
            (res, xs', l') \<leftarrow> read_tokens_loop A (Some delimit) stop delimiter xs l;
            (case res of
               None \<Rightarrow> Some (0, xs', solist_free l')
             | Some c \<Rightarrow> Some (c, xs', l')) } } })"

subsection \<open>Quoted strings\<close>

lemma xs_getc_next:
  assumes "xs_ok x" and "pending x = c # cs"
  obtains x' where "xs_getc (Some x) = Some (uchar c, Some x')" "xs_ok x'" "pending x' = cs"
  using xs_getc_spec [OF assms(1)] assms(2) by auto

lemma uchar_eq_0 [simp]: "uchar c = 0 \<longleftrightarrow> c = NUL"
proof -
  have "uchar NUL = 0" by (simp add: uchar_def)
  then have "uchar c = 0 \<longleftrightarrow> uchar c = uchar NUL" by (rule ssubst) (rule refl)
  also have "\<dots> \<longleftrightarrow> c = NUL" by (rule uchar_inject)
  finally show ?thesis .
qed

lemma uchar_NUL [simp]: "uchar NUL = 0"
  by simp

lemma so_flags_upd [simp]:
  "so_term (so\<lparr>so_flags := f\<rparr>) = so_term so" "so_str (so\<lparr>so_flags := f\<rparr>) = so_str so"
  by (simp_all add: so_term_def so_wf_def so_str_def cong: option.case_cong)

text \<open>Inside quotation marks \<open>q\<close> the reader recovers every string that was escaped with a pattern that
  covers the backslash and \<open>q\<close> and none of the letters with a meaning after a backslash.\<close>

lemma read_quoted:
  assumes "xs_ok x" and "so_term so" and "NUL \<notin> set s"
    and "pending x = concat (map (esc_with sc) s) @ q # rest"
    and "q \<noteq> NUL" and "q \<noteq> CHR 0x5C"
    and "find_pattern q sc" and "find_pattern (CHR 0x5C) sc"
    and "\<forall>c. find_pattern c sc \<longrightarrow> unescape_char c = c"
  shows "\<exists>x' so'. read_esc (xa_ok j) stop (CHR 0x5C) False (uchar q) (Some x) so =
      Some (uchar q, uchar q, Some x', so') \<and> xs_ok x' \<and> pending x' = rest \<and> so_term so' \<and>
      so_str so' = so_str so @ s \<and> so_flags so' AND SO_FLAG_QUOT_STRING = SO_FLAG_QUOT_STRING"
  using assms(1-4)
proof (induction s arbitrary: x so)
  case Nil
  obtain x1 where x1: "xs_getc (Some x) = Some (uchar q, Some x1)" "xs_ok x1" "pending x1 = rest"
    using xs_getc_next [of x q rest] Nil by auto
  have q: "0 < uchar q" using assms(5) uchar_range(1) [of q] uchar_eq_0 [of q] by linarith
  have esc: "schar (CHR 0x5C) = uchar (CHR 0x5C)" by (simp add: schar_def uchar_def)
  have "(w OR SO_FLAG_QUOT_STRING) AND SO_FLAG_QUOT_STRING = SO_FLAG_QUOT_STRING" for w
    by (rule bit_word_eqI) (auto simp: bit_simps)
  with x1 q assms(5,6) Nil esc show ?case
    by (simp add: read_esc.simps)
next
  case (Cons c s)
  have q: "0 < uchar q" using assms(5) uchar_range(1) [of q] uchar_eq_0 [of q] by linarith
  have esc: "schar (CHR 0x5C) = uchar (CHR 0x5C)" by (simp add: schar_def uchar_def)
  have bs: "uchar (CHR 0x5C) \<noteq> 0" by (simp add: uchar_def)
  obtain so1 where so1: "add_char (xa_ok j) so c = Some (0, so1)" "so_term so1"
    "so_str so1 = so_str so @ [c]"
    using so.put_law [OF Cons.prems(2)] by blast
  have nn: "c \<noteq> NUL" using Cons.prems(3) by auto
  show ?case
  proof (cases "find_pattern c sc")
    case True
    then have "pending x = CHR 0x5C # c # concat (map (esc_with sc) s) @ q # rest"
      using Cons.prems by (simp add: esc_with_def [of sc c])
    then obtain x1 x2 where x: "xs_getc (Some x) = Some (uchar (CHR 0x5C), Some x1)"
      "xs_getc (Some x1) = Some (uchar c, Some x2)" "xs_ok x2"
      "pending x2 = concat (map (esc_with sc) s) @ q # rest"
      using xs_getc_next Cons.prems(1) by metis
    have "read_esc (xa_ok j) stop (CHR 0x5C) False (uchar q) (Some x) so =
        read_esc (xa_ok j) stop (CHR 0x5C) False (uchar q) (Some x2) so1"
      using x q esc bs so1(1) nn True assms(9)
      by (simp add: read_esc.simps [of _ _ _ _ _ "Some x"] read_esc.simps [of _ _ _ _ _ "Some x1"])
    with Cons.IH [OF x(3) so1(2) _ x(4)] Cons.prems(3) so1(3) show ?thesis by simp
  next
    case False
    then have ne: "c \<noteq> q" "c \<noteq> CHR 0x5C" using assms(7,8) by auto
    have "pending x = c # concat (map (esc_with sc) s) @ q # rest"
      using Cons.prems False by (simp add: esc_with_def [of sc c])
    then obtain x1 where x: "xs_getc (Some x) = Some (uchar c, Some x1)" "xs_ok x1"
      "pending x1 = concat (map (esc_with sc) s) @ q # rest"
      using xs_getc_next Cons.prems(1) by metis
    have "read_esc (xa_ok j) stop (CHR 0x5C) False (uchar q) (Some x) so =
        read_esc (xa_ok j) stop (CHR 0x5C) False (uchar q) (Some x1) so1"
      using x q esc so1(1) nn ne
      by (simp add: read_esc.simps [of _ _ _ _ _ "Some x"])
    with Cons.IH [OF x(2) so1(2) _ x(3)] Cons.prems(3) so1(3) show ?thesis by simp
  qed
qed

lemma read_from_quote:
  assumes "xs_ok x" and "pending x = q # rest" and "is_quot (uchar q)"
  obtains x1 where "xs_ok x1" "pending x1 = rest"
    "sobj_xstream_read A (Some x) so stop = read_esc A stop (CHR 0x5C) False (uchar q) (Some x1) so"
proof -
  obtain x1 where x1: "xs_getc (Some x) = Some (uchar q, Some x1)" "xs_ok x1" "pending x1 = rest"
    using xs_getc_next assms(1,2) by blast
  have "0 < uchar q" using is_quot_pos assms(3) by blast
  then have "q \<noteq> NUL" using uchar_eq_0 [of q] by linarith
  then have "sobj_xstream_read A (Some x) so stop =
      read_esc A stop (CHR 0x5C) False (uchar q) (Some x1) so"
    using x1(1) assms(3)
    by (simp add: sobj_xstream_read_def sobj_xstream_read_esc_def
        read_esc.simps [of A stop "CHR 0x5C" False "-1" "Some x" so])
  with that x1(2,3) show ?thesis by blast
qed

subsection \<open>Properties\<close>

text \<open>A string escaped by \<^verbatim>\<open>sobj_escape_javascript\<close> and put between single or double quotation marks is
  read back by \<^verbatim>\<open>sobj_xstream_read\<close> exactly: the token is the original string, marked as quoted, the
  return value and \<^verbatim>\<open>*quot\<close> are the quotation mark, and the stream stands right behind the closing mark.
  The string may hold quotation marks, backslashes and any other non-NUL character.\<close>

theorem quoted_token_roundtrip:
  assumes "NUL \<notin> set s" and "q = CHR 0x22 \<or> q = CHR 0x27" and "xs_ok x"
    and "sobj_escape_javascript (xa_ok j) s so_zero = Some n"
    and "pending x = q # so_str n @ q # rest"
  shows "\<exists>x' so'. sobj_xstream_read (xa_ok j) (Some x) so_zero stop =
      Some (uchar q, uchar q, Some x', so') \<and> xs_ok x' \<and> pending x' = rest \<and> so_text so' s \<and>
      so_flags so' AND SO_FLAG_QUOT_STRING = SO_FLAG_QUOT_STRING"
proof -
  let ?sc = "[CHR 0x5C, CHR 0x22, CHR 0x27]"
  have n: "so_str n = concat (map (esc_with ?sc) s)"
    using escape_character_spec [of so_zero j ?sc s] assms(4) by (auto simp: sobj_escape_javascript_def)
  have "is_quot (uchar q)" using assms(2) by (auto simp: is_quot_def)
  then obtain x1 where x1: "xs_ok x1" "pending x1 = concat (map (esc_with ?sc) s) @ q # rest"
    "sobj_xstream_read (xa_ok j) (Some x) so_zero stop =
       read_esc (xa_ok j) stop (CHR 0x5C) False (uchar q) (Some x1) so_zero"
    using read_from_quote [OF assms(3), of q "so_str n @ q # rest"] assms(5) n by metis
  have "\<forall>c. find_pattern c ?sc \<longrightarrow> unescape_char c = c"
    by (auto simp: unescape_char_def split: if_splits)
  with read_quoted [OF x1(1) so_zero_term(1) assms(1) x1(2)] assms(2) x1(3) assms(1) show ?thesis
    by (auto simp: so_text_def)
qed

theorem quoted_token_roundtrip_witness:
  "\<exists>x' so'. sobj_xstream_read (xa_ok (\<lambda>_. NUL))
      (Some (xs_zero (XSTYPE_FILE [CHR 0x27, CHR ''i'', CHR 0x5C, CHR 0x27, CHR ''s'', CHR 0x27, CHR '';''])))
      so_zero None = Some (39, 39, Some x', so') \<and>
    pending x' = '';'' \<and> so_text so' [CHR ''i'', CHR 0x27, CHR ''s'']"
proof -
  obtain n where n: "sobj_escape_javascript (xa_ok (\<lambda>_. NUL)) [CHR ''i'', CHR 0x27, CHR ''s''] so_zero = Some n"
    "so_str n = [CHR ''i'', CHR 0x5C, CHR 0x27, CHR ''s'']"
    using escape_character_spec [of so_zero "\<lambda>_. NUL" "[CHR 0x5C, CHR 0x22, CHR 0x27]"
        "[CHR ''i'', CHR 0x27, CHR ''s'']"]
    by (auto simp: sobj_escape_javascript_def esc_with_def)
  let ?x = "xs_zero (XSTYPE_FILE [CHR 0x27, CHR ''i'', CHR 0x5C, CHR 0x27, CHR ''s'', CHR 0x27, CHR '';''])"
  have "uchar (CHR 0x27) = 39" by (simp add: uchar_def)
  then show ?thesis
    using quoted_token_roundtrip [OF _ _ _ n(1), of "CHR 0x27" ?x "'';''" None] n(2)
    by (auto simp: xs_zero_ok)
qed

end
