(* ===== verification/Base64.thy ===== *)
theory Base64
  imports Cmodel_Prelude
begin

text \<open>
  The Base64 codec of \<^verbatim>\<open>comlib/base64.c\<close>. Buffers are byte lists with checked accesses: the input is
  the whole memory block the caller's pointer leads to, of which \<^verbatim>\<open>inputlen\<close> bytes are meant, the
  output is the block \<^verbatim>\<open>malloc\<close> returned (its size computed as in the C code, its bytes arbitrary).
  \<^verbatim>\<open>inputlen\<close> is taken nonnegative; an \<^verbatim>\<open>int\<close> overflow in the size computation is a fault.
\<close>

definition bytes_of :: "char list \<Rightarrow> byte list" where
  "bytes_of s = map (\<lambda>c. of_nat (of_char c)) s"

definition cb64 :: "byte list" where
  "cb64 = bytes_of ''ABCDEFGHIJKLMNOPQRSTUVWXYZabcdefghijklmnopqrstuvwxyz0123456789+/''"

definition cd64 :: "byte list" where
  "cd64 = bytes_of (''|$$$}rstuvwxyz{$$$$$$$>?@ABCDEFGHIJKLMNOPQRSTUVW$$$$$$XYZ['' @ [CHR 0x5C] @
     '']^_'' @ [CHR 0x60] @ ''abcdefghijklmnopq'')"

definition PAD :: byte where "PAD = 61"

text \<open>\<open>b64 x\<close> is \<^verbatim>\<open>cb64[x]\<close>.\<close>

definition b64 :: "byte \<Rightarrow> byte option" where
  "b64 x = rd cb64 (unat x)"

text \<open>The four table indexes of \<^verbatim>\<open>encodeblock\<close>.\<close>

definition index0 :: "byte \<Rightarrow> byte" where "index0 x = drop_bit 2 x"

definition index1 :: "byte \<Rightarrow> byte \<Rightarrow> byte" where
  "index1 x y = push_bit 4 (x AND 0x03) OR drop_bit 4 (y AND 0xf0)"

definition index2 :: "byte \<Rightarrow> byte \<Rightarrow> byte" where
  "index2 y z = push_bit 2 (y AND 0x0f) OR drop_bit 6 (z AND 0xc0)"

definition index3 :: "byte \<Rightarrow> byte" where "index3 z = z AND 0x3f"

definition encodeblock :: "byte list \<Rightarrow> nat \<Rightarrow> nat \<Rightarrow> byte list option" where
  "encodeblock inp p len = do {
     x \<leftarrow> rd inp p;
     c0 \<leftarrow> b64 (index0 x);
     y \<leftarrow> rd inp (p + 1);
     c1 \<leftarrow> b64 (index1 x y);
     c2 \<leftarrow> (if len > 1 then do { z \<leftarrow> rd inp (p + 2); b64 (index2 y z) } else Some PAD);
     c3 \<leftarrow> (if len > 2 then do { z \<leftarrow> rd inp (p + 2); b64 (index3 z) } else Some PAD);
     Some [c0, c1, c2, c3] }"

text \<open>The main loop: \<open>p\<close> is \<^verbatim>\<open>in - input\<close>, \<open>q\<close> is \<^verbatim>\<open>out - *output\<close>.\<close>

function encode_loop :: "byte list \<Rightarrow> nat \<Rightarrow> nat \<Rightarrow> nat \<Rightarrow> byte list \<Rightarrow> (nat \<times> nat \<times> byte list) option" where
  "encode_loop inp n p q out =
     (if p + 3 \<le> n then do {
        blk \<leftarrow> encodeblock inp p 3;
        out' \<leftarrow> blit out q blk;
        encode_loop inp n (p + 3) (q + 4) out' }
      else Some (p, q, out))"
  by pat_completeness auto
termination by (relation "measure (\<lambda>(inp, n, p, q, out). n - p)") auto

declare encode_loop.simps [simp del]

text \<open>\<open>mem\<close> gives the fresh block of a requested size, \<open>None\<close> for \<^verbatim>\<open>NULL\<close>. The result is \<^verbatim>\<open>*output\<close> (\<open>None\<close>
  for \<^verbatim>\<open>NULL\<close>) and the returned length.\<close>

definition base64encode ::
    "(nat \<Rightarrow> byte list option) \<Rightarrow> byte list option \<Rightarrow> nat \<Rightarrow> (byte list option \<times> nat) option" where
  "base64encode mem input n =
     (if 2 ^ 31 \<le> n * 4 then None
      else (let output = mem (n * 4 div 3 + 5) in
        case input of
          None \<Rightarrow> Some (None, 0)
        | Some inp \<Rightarrow>
            if n = 0 then Some (None, 0)
            else do {
              out \<leftarrow> output;
              (p, q, out) \<leftarrow> encode_loop inp n 0 0 out;
              (q, out) \<leftarrow>
                (if n - p = 1 then do { blk \<leftarrow> encodeblock inp p 1; out \<leftarrow> blit out q blk; Some (q + 4, out) }
                 else if n - p = 2 then do { blk \<leftarrow> encodeblock inp p 2; out \<leftarrow> blit out q blk; Some (q + 4, out) }
                 else Some (q, out));
              out \<leftarrow> wr out q 0;
              Some (Some out, q) }))"

definition decodeblock :: "byte list \<Rightarrow> byte list" where
  "decodeblock v = [push_bit 2 (v ! 0) OR drop_bit 4 (v ! 1),
     push_bit 4 (v ! 1) OR drop_bit 2 (v ! 2),
     (push_bit 6 (v ! 2) AND 0xc0) OR v ! 3]"

text \<open>The value of one input byte: \<open>0\<close> for noise, else the sextet plus one.\<close>

definition sextet :: "byte \<Rightarrow> byte" where
  "sextet c = (let v = (if c < 43 \<or> c > 122 then 0 else cd64 ! unat (c - 43)) in
     if v \<noteq> 0 then (if v = 36 then 0 else v - 61) else v)"

text \<open>The pointer \<^verbatim>\<open>inptr\<close> is represented by the bytes from it up to and including \<^verbatim>\<open>input[inputlen]\<close>;
  it is past the end when none is left.\<close>

fun fetch :: "byte list \<Rightarrow> byte \<times> byte list" where
  "fetch [] = (0, [])"
| "fetch (c # cs) = (if sextet c = 0 then fetch cs else (sextet c, cs))"

text \<open>The \<^verbatim>\<open>for\<close> loop that fills \<^verbatim>\<open>in[4]\<close>.\<close>

function fill :: "nat \<Rightarrow> nat \<Rightarrow> byte list \<Rightarrow> byte list \<Rightarrow> nat \<times> byte list \<times> byte list" where
  "fill i len v r =
     (if i < 4 \<and> r \<noteq> [] then
        (case fetch r of (s, r') \<Rightarrow>
           if r' \<noteq> [] then fill (i + 1) (len + 1) (if s \<noteq> 0 then v[i := s - 1] else v) r'
           else fill (i + 1) len (v[i := 0]) r')
      else (len, v, r))"
  by pat_completeness auto
termination by (relation "measure (\<lambda>(i, len, v, r). 4 - i)") auto

declare fill.simps [simp del]

lemma fetch_length: "length (snd (fetch r)) \<le> length r - 1"
proof (induction r)
  case (Cons c r)
  then show ?case by (cases r) auto
qed simp

lemma fill_length: "length (snd (snd (fill i len v r))) \<le> length r"
proof (induction i len v r rule: fill.induct)
  case (1 i len v r)
  show ?case
  proof (cases "i < 4 \<and> r \<noteq> []")
    case True
    obtain s r' where f: "fetch r = (s, r')" by (cases "fetch r")
    then have "length r' \<le> length r" using fetch_length [of r] by simp
    with 1 True f show ?thesis
      by (cases "r' = []"; cases "s = 0")
        (auto simp: fill.simps [of i len v r] intro: order_trans [where y = "length r'"])
  next
    case False
    then have "fill i len v r = (len, v, r)" by (subst fill.simps) (simp only: if_False)
    then show ?thesis by simp
  qed
qed

lemma fill_progress_snd: "r \<noteq> [] \<Longrightarrow> length (snd (snd (fill 0 len v r))) < length r"
proof -
  assume r: "r \<noteq> []"
  obtain s r' where f: "fetch r = (s, r')" by (cases "fetch r")
  then have "length r' \<le> length r - 1" using fetch_length [of r] by simp
  moreover have "0 < length r" using r by simp
  ultimately have "length r' < length r" by linarith
  moreover have "fill 0 len v r = (if r' \<noteq> [] then
      fill (0 + 1) (len + 1) (if s \<noteq> 0 then v[0 := s - 1] else v) r' else fill (0 + 1) len (v[0 := 0]) r')"
    using r f by (subst fill.simps) simp
  then obtain l w where "fill 0 len v r = fill (0 + 1) l w r'" by (cases "r' = []") auto
  then have "length (snd (snd (fill 0 len v r))) \<le> length r'"
    using fill_length [of "0 + 1" l w r'] by (rule ssubst)
  ultimately show ?thesis by linarith
qed

lemma fill_progress:
  "fill 0 len v r = (len', v', r') \<Longrightarrow> r \<noteq> [] \<Longrightarrow> length r' < length r"
proof -
  assume e: "fill 0 len v r = (len', v', r')" and r: "r \<noteq> []"
  have "length (snd (snd (fill 0 len v r))) < length r" using r by (rule fill_progress_snd)
  with e show ?thesis by simp
qed

function decode_loop :: "byte list \<Rightarrow> byte list \<Rightarrow> byte list \<Rightarrow> nat \<Rightarrow> (byte list \<times> nat) option" where
  "decode_loop r v out q =
     (if r \<noteq> [] then
        (case fill 0 0 v r of (len, v', r') \<Rightarrow>
           if len \<noteq> 0 then
             (case blit out q (decodeblock v') of
                None \<Rightarrow> None
              | Some out' \<Rightarrow> decode_loop r' v' out' (q + (len - 1)))
           else decode_loop r' v' out q)
      else Some (out, q))"
  by pat_completeness auto
termination
  by (relation "measure (\<lambda>(r, v, out, q). length r)") (auto dest!: sym [of "(_, _, _)"] fill_progress)

declare decode_loop.simps [simp del]

definition base64decode ::
    "(nat \<Rightarrow> byte list option) \<Rightarrow> byte list \<Rightarrow> byte list option \<Rightarrow> nat \<Rightarrow> (byte list option \<times> nat) option" where
  "base64decode mem v0 input n = (case input of
      None \<Rightarrow> Some (None, 0)
    | Some inp \<Rightarrow>
        if n = 0 then Some (None, 0)
        else if 2 ^ 31 \<le> n * 3 then None
        else if length inp \<le> n then None
        else do {
          out \<leftarrow> mem (n * 3 div 4 + 4);
          (out, q) \<leftarrow> decode_loop (take (n + 1) inp) v0 out 0;
          out \<leftarrow> wr out q 0;
          Some (Some out, q) })"

subsection \<open>Bits of a block\<close>

lemma masks8:
  "(0x03::byte) = mask 2" "(0x0f::byte) = mask 4" "(0x3f::byte) = mask 6"
  "(0xf0::byte) = push_bit 4 (mask 4)" "(0xc0::byte) = push_bit 6 (mask 2)"
  by (simp_all add: mask_eq_exp_minus_1 push_bit_eq_mult)

lemma byte_index_cases:
  assumes "n < 8"
  obtains "n = 0" | "n = 1" | "n = 2" | "n = 3" | "n = 4" | "n = 5" | "n = 6" | "n = (7::nat)"
  using assms by linarith

lemma byte_bits_eqI:
  fixes x y :: byte
  assumes "bit x 0 = bit y 0" "bit x 1 = bit y 1" "bit x 2 = bit y 2" "bit x 3 = bit y 3"
    "bit x 4 = bit y 4" "bit x 5 = bit y 5" "bit x 6 = bit y 6" "bit x 7 = bit y 7"
  shows "x = y"
proof (rule bit_word_eqI)
  fix n assume "n < LENGTH(8)"
  then have "n < 8" by simp
  then show "bit x n = bit y n" using assms by (cases rule: byte_index_cases) simp_all
qed

lemma bit_byte_high [simp]: "8 \<le> n \<Longrightarrow> \<not> bit (x::byte) n"
  by (auto dest: bit_imp_le_length)

lemma sextet_small: "\<not> bit (x::byte) 6 \<Longrightarrow> \<not> bit x 7 \<Longrightarrow> unat x < 64"
proof -
  assume "\<not> bit x 6" "\<not> bit x 7"
  then have "x = take_bit 6 x" by (intro byte_bits_eqI) (simp_all add: bit_simps)
  then have "unat x = unat (take_bit 6 x)" by simp
  also have "\<dots> = take_bit 6 (unat x)" by (simp add: unsigned_take_bit_eq)
  finally show ?thesis using take_bit_nat_less_exp [of 6 "unat x"] by simp
qed

lemma block_sextets:
  "unat (index0 x) < 64" "unat (index1 x y) < 64" "unat (index2 y z) < 64" "unat (index3 z) < 64"
  unfolding masks8 index0_def index1_def index2_def index3_def
  by (rule sextet_small; simp add: bit_simps)+

lemma block_bits:
  "push_bit 2 (index0 x) OR drop_bit 4 (index1 x y) = x"
  "push_bit 4 (index1 x y) OR drop_bit 2 (index2 y z) = y"
  "(push_bit 6 (index2 y z) AND 0xc0) OR index3 z = z"
  unfolding masks8 index0_def index1_def index2_def index3_def
  by (rule byte_bits_eqI; simp add: bit_simps)+

lemma cb64_eq: "cb64 = [65, 66, 67, 68, 69, 70, 71, 72, 73, 74, 75, 76, 77, 78, 79, 80, 81, 82, 83, 84, 85, 86, 87, 88, 89, 90, 97, 98, 99, 100, 101, 102, 103, 104, 105, 106, 107, 108, 109, 110, 111, 112, 113, 114, 115, 116, 117, 118, 119, 120, 121, 122, 48, 49, 50, 51, 52, 53, 54, 55, 56, 57, 43, 47]"
  by (simp add: cb64_def bytes_of_def)

lemma cd64_eq: "cd64 = [124, 36, 36, 36, 125, 114, 115, 116, 117, 118, 119, 120, 121, 122, 123, 36, 36, 36, 36, 36, 36, 36, 62, 63, 64, 65, 66, 67, 68, 69, 70, 71, 72, 73, 74, 75, 76, 77, 78, 79, 80, 81, 82, 83, 84, 85, 86, 87, 36, 36, 36, 36, 36, 36, 88, 89, 90, 91, 92, 93, 94, 95, 96, 97, 98, 99, 100, 101, 102, 103, 104, 105, 106, 107, 108, 109, 110, 111, 112, 113]"
  by (simp add: cd64_def bytes_of_def)

definition sextet_ok :: "nat \<Rightarrow> bool" where
  "sextet_ok k \<longleftrightarrow> sextet (cb64 ! k) = of_nat k + 1"

lemma sextet_ok_all: "list_all sextet_ok [0..<32]" "list_all sextet_ok [32..<64]"
  by (simp_all add: upt_rec sextet_ok_def sextet_def cb64_eq cd64_eq)

subsection \<open>The text of an encoding\<close>

abbreviation ch64 :: "byte \<Rightarrow> byte" where "ch64 x \<equiv> cb64 ! unat x"

definition quad :: "byte \<Rightarrow> byte \<Rightarrow> byte \<Rightarrow> nat \<Rightarrow> byte list" where
  "quad x y z len = [ch64 (index0 x), ch64 (index1 x y),
     (if len > 1 then ch64 (index2 y z) else PAD), (if len > 2 then ch64 (index3 z) else PAD)]"

text \<open>The encoding of \<open>s\<close> when the byte behind it in memory is \<open>nx\<close>.\<close>

fun b64_text :: "byte list \<Rightarrow> byte \<Rightarrow> byte list" where
  "b64_text (x # y # z # s) nx = quad x y z 3 @ b64_text s nx"
| "b64_text [x, y] nx = quad x y nx 2"
| "b64_text [x] nx = quad x nx nx 1"
| "b64_text [] nx = []"

lemma cb64_length: "length cb64 = 64"
  by (simp add: cb64_eq)

lemma b64_Some: "unat x < 64 \<Longrightarrow> b64 x = Some (ch64 x)"
  by (simp add: b64_def rd_def cb64_length)

lemma sextet_cb64:
  assumes "k < 64"
  shows "sextet (cb64 ! k) = of_nat k + 1"
proof -
  have "list_all sextet_ok ([0..<32] @ [32..<64])" using sextet_ok_all by simp
  moreover have "k \<in> set ([0..<32] @ [32..<64])"
    using assms unfolding set_append set_upt by (simp only: Un_iff atLeastLessThan_iff) presburger
  ultimately have "sextet_ok k" by (simp only: list_all_iff)
  then show ?thesis by (simp only: sextet_ok_def)
qed

lemma sextet_succ: "unat x < 64 \<Longrightarrow> x + 1 \<noteq> (0::byte)"
proof
  assume "unat x < 64" and "x + 1 = 0"
  then have "x = 255" by (simp add: add_eq_0_iff2)
  then have "unat x = 255" by simp
  with \<open>unat x < 64\<close> show False by simp
qed

lemma fetch_ch64: "unat x < 64 \<Longrightarrow> fetch (ch64 x # r) = (x + 1, r)"
  by (simp add: sextet_cb64 sextet_succ)

lemma fetch_PAD: "fetch (PAD # r) = fetch r"
  by (simp add: PAD_def sextet_def cd64_eq)

lemma fetch_last: "snd (fetch [t]) = []"
  by simp

lemma encodeblock_quad:
  assumes "p + 1 < length inp" and "len > 1 \<longrightarrow> p + 2 < length inp"
  shows "encodeblock inp p len = Some (quad (inp ! p) (inp ! (p + 1)) (inp ! (p + 2)) len)"
  using assms by (simp add: encodeblock_def quad_def b64_Some block_sextets)

lemma b64_text_length: "length (b64_text s nx) = 4 * ((length s + 2) div 3)"
proof (induction s nx rule: b64_text.induct)
  case (1 x y z s nx)
  have "(length (x # y # z # s) + 2) div 3 = 1 + (length s + 2) div 3" by simp
  with 1 show ?case by (simp add: quad_def)
qed (simp_all add: quad_def)

subsection \<open>Encoding\<close>

lemma encode_loop_spec:
  assumes "n \<le> length inp" and "p \<le> n" and "q + 4 * ((n - p) div 3) \<le> length out"
  shows "\<exists>out'. encode_loop inp n p q out =
      Some (p + 3 * ((n - p) div 3), q + 4 * ((n - p) div 3), out') \<and> length out' = length out \<and>
    (\<forall>nx. take (q + 4 * ((n - p) div 3)) out' @ b64_text (drop (p + 3 * ((n - p) div 3)) (take n inp)) nx =
      take q out @ b64_text (drop p (take n inp)) nx)"
  using assms
proof (induction inp n p q out rule: encode_loop.induct)
  case (1 inp n p q out)
  show ?case
  proof (cases "p + 3 \<le> n")
    case True
    define k where "k = (n - (p + 3)) div 3"
    have k: "(n - p) div 3 = Suc k" using True by (simp add: k_def div_if)
    let ?b = "quad (inp ! p) (inp ! (p + 1)) (inp ! (p + 2)) 3"
    have eb: "encodeblock inp p 3 = Some ?b"
      using encodeblock_quad [of p inp 3] True 1(2) by simp
    have lq: "length ?b = 4" by (simp add: quad_def)
    let ?o = "take q out @ ?b @ drop (q + 4) out"
    have bl: "blit out q ?b = Some ?o" using 1(4) k lq by (simp add: blit_def)
    have tk: "take (q + 4) ?o = take q out @ ?b" using 1(4) k lq by simp
    have lo: "length ?o = length out" using 1(4) k lq by simp
    obtain out' where out': "encode_loop inp n (p + 3) (q + 4) ?o = Some (p + 3 + 3 * k, q + 4 + 4 * k, out')"
      "length out' = length ?o"
      "\<And>nx. take (q + 4 + 4 * k) out' @ b64_text (drop (p + 3 + 3 * k) (take n inp)) nx =
        take (q + 4) ?o @ b64_text (drop (p + 3) (take n inp)) nx"
      using 1(1) [OF True eb bl 1(2)] True 1(4) k lo by (auto simp: k_def)
    have d: "drop p (take n inp) = inp ! p # inp ! (p + 1) # inp ! (p + 2) # drop (p + 3) (take n inp)"
      using True 1(2) by (simp add: Cons_nth_drop_Suc [symmetric] numeral_3_eq_3)
    have "encode_loop inp n p q out = Some (p + 3 + 3 * k, q + 4 + 4 * k, out')"
      using True eb bl out'(1) by (simp add: encode_loop.simps [of inp n p q out])
    moreover have "take (q + 4 + 4 * k) out' @ b64_text (drop (p + 3 + 3 * k) (take n inp)) nx =
        take q out @ b64_text (drop p (take n inp)) nx" for nx
      using out'(3) [of nx] d tk by simp
    ultimately show ?thesis using k out'(2) lo by (auto simp: algebra_simps)
  next
    case False
    then have "(n - p) div 3 = 0" by simp
    with False show ?thesis by (simp add: encode_loop.simps)
  qed
qed

lemma encode_tail:
  assumes "n = p + len" and "len = 1 \<or> len = 2" and "n < length inp" and "q + 4 \<le> length out"
  shows "\<exists>blk out'. encodeblock inp p len = Some blk \<and> blit out q blk = Some out' \<and>
    length out' = length out \<and>
    take (q + 4) out' = take q out @ b64_text (drop p (take n inp)) (inp ! n)"
proof -
  let ?q = "quad (inp ! p) (inp ! (p + 1)) (inp ! (p + 2)) len"
  have eb: "encodeblock inp p len = Some ?q"
    using encodeblock_quad [of p inp len] assms by auto
  have lq: "length ?q = 4" by (simp add: quad_def)
  have "?q = b64_text (drop p (take n inp)) (inp ! n)"
    using assms(1-3) by (auto simp: Cons_nth_drop_Suc [symmetric] quad_def)
  with eb lq assms(4) show ?thesis by (simp add: blit_def)
qed

lemma base64encode_spec:
  assumes "0 < n" and "n < 2 ^ 29" and "n < length inp \<or> (n = length inp \<and> n mod 3 = 0)"
    and "mem (n * 4 div 3 + 5) = Some blk" and "length blk = n * 4 div 3 + 5"
  shows "\<exists>out. base64encode mem (Some inp) n = Some (Some out, 4 * ((n + 2) div 3)) \<and>
    length out = length blk \<and> 4 * ((n + 2) div 3) < length out \<and>
    take (4 * ((n + 2) div 3)) out = b64_text (take n inp) (inp ! n) \<and> out ! (4 * ((n + 2) div 3)) = 0"
proof -
  let ?k = "n div 3" and ?m = "4 * ((n + 2) div 3)"
  have big: "\<not> 2 ^ 31 \<le> n * 4" using assms(2) by simp
  have room: "4 * ((n + 2) div 3) < n * 4 div 3 + 5" by linarith
  have "0 + 4 * ((n - 0) div 3) \<le> length blk" using assms(5) by simp
  then obtain out where out: "encode_loop inp n 0 0 blk = Some (3 * ?k, 4 * ?k, out)" "length out = length blk"
    "\<And>nx. take (4 * ?k) out @ b64_text (drop (3 * ?k) (take n inp)) nx = b64_text (take n inp) nx"
    using encode_loop_spec [of n inp 0 0 blk] assms(3) by auto
  have fin: "wr o' ?m 0 = Some (o'[?m := 0])" "take ?m (o'[?m := 0]) = take ?m o'" "?m < length o'"
    if "length o' = length blk" for o' :: "byte list"
    using that room assms(5) by simp_all
  consider (none) "n - 3 * ?k = 0" | (one) "n - 3 * ?k = 1" | (two) "n - 3 * ?k = 2"
    by linarith
  then show ?thesis
  proof cases
    case none
    then have m2: "n = 3 * ?k" by linarith
    have "(3 * j + 2) div 3 = j" for j :: nat by simp
    from this [of ?k] have m: "?m = 4 * ?k" by (simp only: m2 [symmetric])
    have d: "drop (3 * ?k) (take n inp) = []" using none by simp
    have "wr out (4 * ?k) 0 = Some (out[?m := 0])" using fin(1) [OF out(2)] m by simp
    then have "base64encode mem (Some inp) n = Some (Some (out[?m := 0]), ?m)"
      unfolding base64encode_def m using none big assms(1,4) out(1)
      by (simp only: Let_def if_False option.case not_gr_zero bind.bind_lunit prod.case) simp
    moreover have "take ?m (out[?m := 0]) = b64_text (take n inp) (inp ! n)"
      unfolding fin(2) [OF out(2)] using out(3) [of "inp ! n"] d m by simp
    ultimately show ?thesis using out(2) fin(3) [OF out(2)] by simp
  next
    case one
    then have "n mod 3 = 1" by (simp add: minus_mult_div_eq_mod)
    then have m3: "n < length inp" using assms(3) by auto
    have m2: "n = 3 * ?k + 1" using one by linarith
    have "(3 * j + 1 + 2) div 3 = j + 1" for j :: nat by simp
    from this [of ?k] have m1: "?m = 4 * ?k + 4" by (simp only: m2 [symmetric]) simp
    have le: "4 * ?k + 4 \<le> length out" using fin(3) [OF out(2)] m1 by simp
    note m = m1 m2 m3
    obtain b out' where eb: "encodeblock inp (3 * ?k) 1 = Some b" "blit out (4 * ?k) b = Some out'"
      and o': "length out' = length out"
      "take (4 * ?k + 4) out' = take (4 * ?k) out @ b64_text (drop (3 * ?k) (take n inp)) (inp ! n)"
      using encode_tail [OF m2 disjI1 [OF refl] m3 le] by auto
    have wr: "wr out' (4 * ?k + 4) 0 = Some (out'[?m := 0])" using fin(1) [of out'] m1 o' out(2) by simp
    have "base64encode mem (Some inp) n = Some (Some (out'[?m := 0]), ?m)"
      unfolding base64encode_def m1 using one big assms(1,4) out(1) eb wr m1
      by (simp only: Let_def if_False option.case not_gr_zero bind.bind_lunit prod.case) simp
    moreover have "take ?m (out'[?m := 0]) = b64_text (take n inp) (inp ! n)"
      using fin(2) [of out'] o' out(2) out(3) [of "inp ! n"] m1 by simp
    ultimately show ?thesis using out(2) o' fin(3) [of out'] by simp
  next
    case two
    then have "n mod 3 = 2" by (simp add: minus_mult_div_eq_mod)
    then have m3: "n < length inp" using assms(3) by auto
    have m2: "n = 3 * ?k + 2" using two by linarith
    have "(3 * j + 2 + 2) div 3 = j + 1" for j :: nat by simp
    from this [of ?k] have m1: "?m = 4 * ?k + 4" by (simp only: m2 [symmetric]) simp
    have le: "4 * ?k + 4 \<le> length out" using fin(3) [OF out(2)] m1 by simp
    note m = m1 m2 m3
    obtain b out' where eb: "encodeblock inp (3 * ?k) 2 = Some b" "blit out (4 * ?k) b = Some out'"
      and o': "length out' = length out"
      "take (4 * ?k + 4) out' = take (4 * ?k) out @ b64_text (drop (3 * ?k) (take n inp)) (inp ! n)"
      using encode_tail [OF m2 disjI2 [OF refl] m3 le] by auto
    have wr: "wr out' (4 * ?k + 4) 0 = Some (out'[?m := 0])" using fin(1) [of out'] m1 o' out(2) by simp
    have "base64encode mem (Some inp) n = Some (Some (out'[?m := 0]), ?m)"
      unfolding base64encode_def m1 using two big assms(1,4) out(1) eb wr m1
      by (simp only: Let_def if_False option.case not_gr_zero bind.bind_lunit prod.case) simp
    moreover have "take ?m (out'[?m := 0]) = b64_text (take n inp) (inp ! n)"
      using fin(2) [of out'] o' out(2) out(3) [of "inp ! n"] m1 by simp
    ultimately show ?thesis using out(2) o' fin(3) [of out'] by simp
  qed
qed

subsection \<open>Decoding\<close>

lemma fill_ch64:
  "i < 4 \<Longrightarrow> unat x < 64 \<Longrightarrow> r \<noteq> [] \<Longrightarrow> fill i len v (ch64 x # r) = fill (i + 1) (len + 1) (v[i := x]) r"
  by (subst fill.simps) (simp add: fetch_ch64 sextet_succ del: fetch.simps)

lemma fill_end: "i < 4 \<Longrightarrow> fetch r = (s, []) \<Longrightarrow> r \<noteq> [] \<Longrightarrow> fill i len v r = (len, v[i := 0], [])"
  by (subst fill.simps, simp, subst fill.simps, simp)

lemma decode_b64_text:
  assumes "length v = 4" and "q + length s + 3 \<le> length out"
  shows "\<exists>out'. decode_loop (b64_text s nx @ [t]) v out q = Some (out', q + length s) \<and>
    length out' = length out \<and> take (q + length s) out' = take q out @ s"
  using assms
proof (induction s nx arbitrary: v out q rule: b64_text.induct)
  case (1 x y z s nx)
  let ?v = "[index0 x, index1 x y, index2 y z, index3 z]"
  let ?r = "b64_text s nx @ [t]"
  have "v[0 := a, 1 := b, 2 := c, 3 := d] = [a, b, c, d]" for a b c d :: byte
    using 1(2) by (auto simp: length_Suc_conv numeral_eq_Suc)
  then have f: "fill 0 0 v (b64_text (x # y # z # s) nx @ [t]) = (4, ?v, ?r)"
    by (simp add: quad_def fill_ch64 block_sextets) (simp add: fill.simps numeral_eq_Suc)
  have db: "decodeblock ?v = [x, y, z]" by (simp add: decodeblock_def block_bits)
  let ?o = "take q out @ [x, y, z] @ drop (q + 3) out"
  have lo: "length ?o = length out" and tk: "take (q + 3) ?o = take q out @ [x, y, z]" using 1(3) by simp_all
  obtain out' where o': "decode_loop ?r ?v ?o (q + 3) = Some (out', q + 3 + length s)"
    "length out' = length ?o" "take (q + 3 + length s) out' = take (q + 3) ?o @ s"
    using 1(1) [of ?v "q + 3" ?o] lo 1(3) by (auto simp del: length_append length_drop take_append)
  have "decode_loop (b64_text (x # y # z # s) nx @ [t]) v out q = decode_loop ?r ?v ?o (q + 3)"
    using f db 1(3) by (subst decode_loop.simps) (simp add: numeral_3_eq_3)
  moreover have "q + length (x # y # z # s) = q + 3 + length s" by simp
  ultimately show ?case using o' unfolding lo tk by (metis append.assoc append_Cons append_Nil)
next
  case (2 x y nx)
  let ?v = "[index0 x, index1 x y, index2 y nx, 0]"
  have "v[0 := a, 1 := b, 2 := c, 3 := 0] = [a, b, c, 0]" for a b c :: byte
    using 2(1) by (auto simp: length_Suc_conv numeral_eq_Suc)
  moreover have "fetch [PAD, t] = (fst (fetch [t]), [])" by (simp only: fetch_PAD) simp
  ultimately have f: "fill 0 0 v (b64_text [x, y] nx @ [t]) = (3, ?v, [])"
    by (simp add: quad_def fill_ch64 block_sextets fill_end numeral_2_eq_2 numeral_3_eq_3 del: fetch.simps)
  have db: "\<exists>d. decodeblock ?v = [x, y, d]" by (simp add: decodeblock_def block_bits)
  then obtain d where "decodeblock ?v = [x, y, d]" by blast
  with f 2(2) have "decode_loop (b64_text [x, y] nx @ [t]) v out q =
      Some (take q out @ [x, y, d] @ drop (q + 3) out, q + 2)"
    by (subst decode_loop.simps) (simp add: decode_loop.simps [of "[]"] numeral_3_eq_3)
  with 2(2) show ?case by auto
next
  case (3 x nx)
  have "\<exists>d. v[0 := a, 1 := b, 2 := 0] = [a, b, 0, d]" for a b :: byte
    using 3(1) by (auto simp: length_Suc_conv numeral_eq_Suc)
  moreover have "fetch [PAD, PAD, t] = (fst (fetch [t]), [])" by (simp only: fetch_PAD) simp
  ultimately have "\<exists>d. fill 0 0 v (b64_text [x] nx @ [t]) = (2, [index0 x, index1 x nx, 0, d], [])"
    by (simp add: quad_def fill_ch64 block_sextets fill_end numeral_2_eq_2 del: fetch.simps)
  then obtain d where f: "fill 0 0 v (b64_text [x] nx @ [t]) = (2, [index0 x, index1 x nx, 0, d], [])"
    by blast
  have "\<exists>e g. decodeblock [index0 x, index1 x nx, 0, d] = [x, e, g]"
    by (simp add: decodeblock_def block_bits)
  then obtain e g where "decodeblock [index0 x, index1 x nx, 0, d] = [x, e, g]" by blast
  with f 3(2) have "decode_loop (b64_text [x] nx @ [t]) v out q =
      Some (take q out @ [x, e, g] @ drop (q + 3) out, q + 1)"
    by (subst decode_loop.simps) (simp add: decode_loop.simps [of "[]"] numeral_3_eq_3)
  with 3(2) show ?case by auto
next
  case (4 nx)
  have "fill 0 0 v [t] = (0, v[0 := 0], [])" by (rule fill_end) auto
  then show ?case by (simp add: decode_loop.simps)
qed

text \<open>What one round of \<open>fill\<close> consumes.\<close>

lemma fill_account:
  assumes "fill i len v r = (len', v', r')" and "i \<le> 4" and "r \<noteq> []"
  shows "len' + length r' \<le> len + length r \<and> len' \<le> len + (4 - i) \<and> length v' = length v \<and>
    (r' = [] \<longrightarrow> len' + 1 \<le> len + length r \<and> len' < len + (4 - i)) \<and>
    (r' \<noteq> [] \<longrightarrow> len' = len + (4 - i))"
  using assms
proof (induction i len v r arbitrary: len' v' r' rule: fill.induct)
  case (1 i len v r)
  show ?case
  proof (cases "i < 4")
    case True
    obtain s r1 where f: "fetch r = (s, r1)" by (cases "fetch r")
    then have le: "length r1 + 1 \<le> length r" using fetch_length [of r] 1(5) by (cases r) auto
    show ?thesis
    proof (cases "r1 = []")
      case True
      with \<open>i < 4\<close> f 1(3,5) fill_end [of i r s len v] le show ?thesis by auto
    next
      case False
      then have "fill (i + 1) (len + 1) (if s \<noteq> 0 then v[i := s - 1] else v) r1 = (len', v', r')"
        using 1(3,5) True f by (subst (asm) fill.simps) simp
      from 1(1) [OF _ f [symmetric] False this] True 1(5) False le show ?thesis by auto
    qed
  next
    case False
    then have "fill i len v r = (len, v, r)" by (subst fill.simps) simp
    with False 1(3-5) show ?thesis by auto
  qed
qed

lemma decode_loop_safe:
  assumes "q + 3 * (length r - 1) div 4 + 4 \<le> length out"
  shows "\<exists>out' q'. decode_loop r v out q = Some (out', q') \<and> length out' = length out \<and>
    q' \<le> q + 3 * (length r - 1) div 4"
  using assms
proof (induction r v out q rule: decode_loop.induct)
  case (1 r v out q)
  show ?case
  proof (cases "r = []")
    case True
    then show ?thesis by (simp add: decode_loop.simps)
  next
    case False
    obtain len v' r' where f: "fill 0 0 v r = (len, v', r')" by (cases "fill 0 0 v r") auto
    note acc = fill_account [OF f _ False]
    show ?thesis
    proof (cases "len = 0")
      case True
      with acc have "length r' = 0" by auto
      with True f False 1(3) show ?thesis by (simp add: decode_loop.simps [of r] decode_loop.simps [of "[]"])
    next
      case len: False
      let ?o = "take q out @ decodeblock v' @ drop (q + 3) out"
      have bl: "blit out q (decodeblock v') = Some ?o" and lo: "length ?o = length out"
        using 1(3) by (simp_all add: blit_def decodeblock_def numeral_3_eq_3)
      have step: "decode_loop r v out q = decode_loop r' v' ?o (q + (len - 1))"
        using False f len bl by (subst decode_loop.simps) simp
      have bound: "q + (len - 1) + 3 * (length r' - 1) div 4 \<le> q + 3 * (length r - 1) div 4"
      proof (cases "r' = []")
        case True
        with acc have "len \<le> 3" "len \<le> length r - 1" by auto
        with len True show ?thesis by auto
      next
        case ne: False
        with acc have "len = 4" "4 + length r' \<le> length r" by auto
        moreover have "0 < length r'" using ne by simp
        ultimately have "4 + (length r' - 1) \<le> length r - 1" by linarith
        then have "3 + 3 * (length r' - 1) div 4 \<le> 3 * (length r - 1) div 4" by linarith
        with \<open>len = 4\<close> show ?thesis by simp
      qed
      have "q + (len - 1) + 3 * (length r' - 1) div 4 + 4 \<le> length ?o"
        using bound 1(3) lo by linarith
      from 1(1) [OF False f [symmetric] refl len bl this] obtain out' q' where
        "decode_loop r' v' ?o (q + (len - 1)) = Some (out', q')" "length out' = length ?o"
        "q' \<le> q + (len - 1) + 3 * (length r' - 1) div 4"
        by blast
      then have "decode_loop r v out q = Some (out', q')" "length out' = length out"
        "q' \<le> q + 3 * (length r - 1) div 4"
        using step lo bound by (simp only:, simp only:, linarith)
      then show ?thesis by blast
    qed
  qed
qed

subsection \<open>Properties\<close>

text \<open>C19: Decoding an encoding gives back the input: for every nonempty input of fewer than \<open>2^28\<close>
  bytes, when the byte behind it is readable (or its length is a multiple of three), \<^verbatim>\<open>base64encode\<close>
  returns a NUL-terminated text of \<open>4 * ceil(n / 3)\<close> characters inside its buffer, and \<^verbatim>\<open>base64decode\<close> of
  that text returns exactly the \<open>n\<close> input bytes, whatever the fresh memory holds.\<close>

theorem base64_roundtrip:
  assumes "0 < n" and "n < 2 ^ 28" and "n < length inp \<or> (n = length inp \<and> n mod 3 = 0)"
    and "\<And>k. \<exists>blk. mem k = Some blk \<and> length blk = k" and "length v0 = 4"
  shows "\<exists>out len res. base64encode mem (Some inp) n = Some (Some out, len) \<and>
    len = 4 * ((n + 2) div 3) \<and> out ! len = 0 \<and>
    base64decode mem v0 (Some out) len = Some (Some res, n) \<and> take n res = take n inp \<and> res ! n = 0"
proof -
  let ?m = "4 * ((n + 2) div 3)"
  obtain blk where "mem (n * 4 div 3 + 5) = Some blk" "length blk = n * 4 div 3 + 5"
    using assms(4) by blast
  moreover have "n < 2 ^ 29" using assms(2) by simp
  ultimately obtain out where out: "base64encode mem (Some inp) n = Some (Some out, ?m)" "?m < length out"
    "take ?m out = b64_text (take n inp) (inp ! n)" "out ! ?m = 0"
    using base64encode_spec [OF assms(1) _ assms(3)] by blast
  obtain dst where dst: "mem (?m * 3 div 4 + 4) = Some dst" "length dst = ?m * 3 div 4 + 4"
    using assms(4) by blast
  have s: "length (take n inp) = n" using assms(3) by auto
  have t: "take (?m + 1) out = b64_text (take n inp) (inp ! n) @ [0]"
    using out(2-4) by (simp add: take_Suc_conv_app_nth)
  have room: "0 + length (take n inp) + 3 \<le> length dst" using dst(2) s by simp
  obtain res where res: "decode_loop (take (?m + 1) out) v0 dst 0 = Some (res, n)" "length res = length dst"
    "take n res = take n inp"
    using decode_b64_text [OF assms(5) room, of "inp ! n" 0] t s by auto
  have "wr res n 0 = Some (res[n := 0])" and ln: "n < length res" using res(2) room s by simp_all
  moreover have "\<not> 2 ^ 31 \<le> ?m * 3" using assms(2) by simp
  moreover have "?m \<noteq> 0" using assms(1) by simp
  ultimately have "base64decode mem v0 (Some out) ?m = Some (Some (res[n := 0]), n)"
    using dst(1) res(1) out(2) by (simp add: base64decode_def)
  with out res(3) ln show ?thesis by (intro exI [of _ out] exI [of _ ?m] exI [of _ "res[n := 0]"]) simp
qed

theorem base64_roundtrip_witness:
  "\<exists>out len res. base64encode (\<lambda>k. Some (replicate k 7)) (Some [1, 2, 4, 0, 255]) 4 = Some (Some out, len) \<and>
    len = 8 \<and> out ! len = 0 \<and>
    base64decode (\<lambda>k. Some (replicate k 7)) [9, 9, 9, 9] (Some out) len = Some (Some res, 4) \<and>
    take 4 res = [1, 2, 4, 0] \<and> res ! 4 = 0"
  using base64_roundtrip [of 4 "[1, 2, 4, 0, 255]" "\<lambda>k. Some (replicate k 7)" "[9, 9, 9, 9]"] by simp

text \<open>C33: \<^verbatim>\<open>base64decode\<close> is memory safe on every input: for any bytes (noise, line breaks, padding or
  truncated text included) followed by one readable byte, it stays inside its output buffer and
  returns at most three quarters of the input length.\<close>

theorem base64decode_safe:
  assumes "0 < n" and "n * 3 < 2 ^ 31" and "n < length inp"
    and "mem (n * 3 div 4 + 4) = Some blk" and "length blk = n * 3 div 4 + 4"
  shows "\<exists>res len. base64decode mem v0 (Some inp) n = Some (Some res, len) \<and> len \<le> n * 3 div 4 \<and>
    length res = n * 3 div 4 + 4 \<and> res ! len = 0"
proof -
  have "length (take (n + 1) inp) = n + 1" using assms(3) by simp
  then obtain res len where r: "decode_loop (take (n + 1) inp) v0 blk 0 = Some (res, len)"
    "length res = length blk" "len \<le> n * 3 div 4"
    using decode_loop_safe [of 0 "take (n + 1) inp" blk v0] assms(5)
    by (auto simp: mult.commute)
  then have "wr res len 0 = Some (res[len := 0])" "len < length res" using assms(5) by simp_all
  moreover have "\<not> length inp \<le> n" "\<not> 2 ^ 31 \<le> n * 3" using assms(2,3) by linarith+
  ultimately show ?thesis
    using r assms(1,4,5) by (simp add: base64decode_def)
qed

theorem base64decode_safe_witness:
  "\<exists>res len. base64decode (\<lambda>k. Some (replicate k 7)) [] (Some [65, 10, 61, 66, 0]) 4 = Some (Some res, len) \<and>
    len \<le> 3 \<and> length res = 7 \<and> res ! len = 0"
  using base64decode_safe [of 4 "[65, 10, 61, 66, 0]" "\<lambda>k. Some (replicate k 7)" "replicate 7 7" "[]"]
  by simp

text \<open>\<^verbatim>\<open>encodeblock\<close> always reads the byte behind a partial block. When the input buffer holds exactly
  \<open>n\<close> bytes and \<open>n\<close> is no multiple of three, \<^verbatim>\<open>base64encode\<close> reads outside it.\<close>

theorem base64encode_reads_past_end:
  assumes "n = length inp" and "n mod 3 \<noteq> 0" and "n < 2 ^ 29"
    and "mem (n * 4 div 3 + 5) = Some blk" and "length blk = n * 4 div 3 + 5"
  shows "base64encode mem (Some inp) n = None"
proof -
  let ?k = "n div 3"
  have k: "n = 3 * ?k + n mod 3" by simp
  have "4 * (n div 3) \<le> n * 4 div 3 + 5" by linarith
  then obtain out where out: "encode_loop inp n 0 0 blk = Some (3 * ?k, 4 * ?k, out)"
    using encode_loop_spec [of n inp 0 0 blk] assms(1,5) by auto
  have fault: "encodeblock inp (3 * ?k) len = None" if "n - 3 * ?k = len" "len = 1 \<or> len = 2" for len
    using that assms(1) k by (auto simp: encodeblock_def bind_eq_None_conv rd_def b64_def)
  have "n - 3 * ?k = n mod 3" by (rule minus_mult_div_eq_mod)
  moreover have "n mod 3 < 3" by simp
  ultimately have "n - 3 * ?k = 1 \<or> n - 3 * ?k = 2" using assms(2) by linarith
  moreover have "n \<noteq> 0" using assms(2) by auto
  ultimately show ?thesis
    using out fault assms(3,4) by (auto simp: base64encode_def)
qed

theorem base64encode_reads_past_end_witness:
  "base64encode (\<lambda>k. Some (replicate k 0)) (Some [77, 97]) 2 = None"
  by (rule base64encode_reads_past_end [OF _ _ _ refl]) simp_all

end
