(* ===== verification/Hexstring.thy ===== *)
theory Hexstring
  imports Cmodel_Prelude
begin

text \<open>
  Hexadecimal text of \<^verbatim>\<open>comlib/hexstring.c\<close>: the tolerant reader \<^verbatim>\<open>read_hexstring\<close> and the printers
  of MAC addresses, UUIDs and raw dumps. C strings are the lists of their characters, what a printer
  writes to a stream is the list of the characters written.
\<close>

definition hex_char :: "char \<Rightarrow> int" where
  "hex_char c =
     (if uchar (CHR ''0'') \<le> schar c \<and> schar c \<le> uchar (CHR ''9'') then schar c - uchar (CHR ''0'')
      else if uchar (CHR ''a'') \<le> schar c \<and> schar c \<le> uchar (CHR ''f'') then schar c - uchar (CHR ''a'') + 10
      else if uchar (CHR ''A'') \<le> schar c \<and> schar c \<le> uchar (CHR ''F'') then schar c - uchar (CHR ''A'') + 10
      else -1)"

text \<open>The \<^verbatim>\<open>do ... while (0)\<close> body of \<^verbatim>\<open>read_hexstring\<close>: the value left in \<^verbatim>\<open>buf[i]\<close> and the rest of the string.\<close>

fun hex_item :: "char list \<Rightarrow> byte \<times> char list" where
  "hex_item [] = (0, [])"
| "hex_item (a # s) =
     (if hex_char a < 0 then (0, s)
      else (case s of
          [] \<Rightarrow> (of_int (hex_char a), [])
        | b # s1 \<Rightarrow>
            if hex_char b < 0 then (of_int (hex_char a), s1)
            else (of_int (hex_char a) * 0x10 + of_int (hex_char b),
              (case s1 of [] \<Rightarrow> [] | c # s2 \<Rightarrow> if hex_char c < 0 then s2 else s1))))"

lemma hex_item_shrinks: "s \<noteq> [] \<Longrightarrow> length (snd (hex_item s)) < length s"
  by (cases s) (auto split: list.splits)

function read_loop :: "byte list \<Rightarrow> nat \<Rightarrow> nat \<Rightarrow> char list \<Rightarrow> (nat \<times> byte list) option" where
  "read_loop buf n i s =
     (if s \<noteq> [] \<and> i < n then
        (case wr buf i (fst (hex_item s)) of
           None \<Rightarrow> None
         | Some buf' \<Rightarrow> read_loop buf' n (i + 1) (snd (hex_item s)))
      else Some (i, buf))"
  by pat_completeness auto
termination
  by (relation "measure (\<lambda>(buf, n, i, s). length s)") (auto simp: hex_item_shrinks)

declare read_loop.simps [simp del]

definition read_hexstring :: "byte list \<Rightarrow> nat \<Rightarrow> char list \<Rightarrow> (nat \<times> byte list) option" where
  "read_hexstring buf n s = read_loop buf n 0 s"

text \<open>\<^verbatim>\<open>%02x\<close> and \<^verbatim>\<open>%02X\<close> of a byte.\<close>

definition fmt_02x :: "byte \<Rightarrow> char list" where
  "fmt_02x b = [''0123456789abcdef'' ! (unat b div 16), ''0123456789abcdef'' ! (unat b mod 16)]"

definition fmt_02X :: "byte \<Rightarrow> char list" where
  "fmt_02X b = [''0123456789ABCDEF'' ! (unat b div 16), ''0123456789ABCDEF'' ! (unat b mod 16)]"

text \<open>The text \<^verbatim>\<open>print_macaddr\<close> leaves in its static buffer of 32 bytes, the terminating NUL included.\<close>

definition print_macaddr :: "byte list \<Rightarrow> char list option" where
  "print_macaddr mac = do {
     a \<leftarrow> rd mac 0; b \<leftarrow> rd mac 1; c \<leftarrow> rd mac 2; d \<leftarrow> rd mac 3; e \<leftarrow> rd mac 4; f \<leftarrow> rd mac 5;
     blit (replicate 32 NUL) 0
       (fmt_02x a @ '':'' @ fmt_02x b @ '':'' @ fmt_02x c @ '':'' @ fmt_02x d @ '':'' @ fmt_02x e @ '':'' @
        fmt_02x f @ [NUL]) }"

text \<open>\<^verbatim>\<open>print_uuid\<close> prints on the standard output and returns its static buffer of 40 bytes, which nothing
  ever writes. The result is the printed text and the buffer.\<close>

definition print_uuid :: "byte list \<Rightarrow> (char list \<times> char list) option" where
  "print_uuid u = (if length u < 16 then None
     else Some (concat (map fmt_02X (take 4 u)) @ ''-'' @ concat (map fmt_02X (take 2 (drop 4 u))) @ ''-'' @
       concat (map fmt_02X (take 2 (drop 6 u))) @ ''-'' @ concat (map fmt_02X (take 2 (drop 8 u))) @ ''-'' @
       concat (map fmt_02X (take 6 (drop 10 u))) @ [CHR 0x0A], replicate 40 NUL))"

text \<open>\<^verbatim>\<open>dump_hex\<close>: \<open>start\<close> and \<open>stop\<close> are what the C code passes to \<^verbatim>\<open>fprintf\<close> as the format; they are given
  expanded. The loops start at index 1 in both branches.\<close>

fun dump_loop :: "char list \<Rightarrow> byte list \<Rightarrow> char list" where
  "dump_loop d [] = []"
| "dump_loop d (b # bs) = d @ fmt_02x b @ dump_loop d bs"

definition dump_hex :: "char list option \<Rightarrow> char list option \<Rightarrow> char \<Rightarrow> byte list \<Rightarrow> nat \<Rightarrow> char list option" where
  "dump_hex start stop delimiter bin n = (if length bin < n then None
     else Some ((case start of Some t \<Rightarrow> t | None \<Rightarrow> []) @
       (if n > 0 then
          (if delimiter \<noteq> NUL then fmt_02x (bin ! 0) @ dump_loop [delimiter] (take (n - 1) (drop 1 bin))
           else dump_loop [] (take (n - 1) (drop 1 bin)))
        else []) @
       (case stop of Some t \<Rightarrow> t | None \<Rightarrow> [])))"

subsection \<open>Reading what was printed\<close>

definition hexdig_ok :: "char list \<Rightarrow> nat \<Rightarrow> bool" where
  "hexdig_ok tab k \<longleftrightarrow> hex_char (tab ! k) = int k"

lemma hexdig_all:
  "list_all (hexdig_ok ''0123456789abcdef'') [0..<16]"
  "list_all (hexdig_ok ''0123456789ABCDEF'') [0..<16]"
  by code_simp+

lemma hex_char_digit:
  assumes "k < 16"
  shows "hex_char (''0123456789abcdef'' ! k) = int k" "hex_char (''0123456789ABCDEF'' ! k) = int k"
proof -
  have "k \<in> set [0..<16]" using assms by (simp only: set_upt atLeastLessThan_iff le0 simp_thms)
  with hexdig_all have "hexdig_ok ''0123456789abcdef'' k" "hexdig_ok ''0123456789ABCDEF'' k"
    unfolding list_all_iff by blast+
  then show "hex_char (''0123456789abcdef'' ! k) = int k" "hex_char (''0123456789ABCDEF'' ! k) = int k"
    by (simp_all only: hexdig_ok_def)
qed

lemma byte_nibbles: "of_nat (unat b div 16) * 0x10 + of_nat (unat b mod 16) = (b::byte)"
proof -
  have "of_nat (unat b div 16) * 0x10 + of_nat (unat b mod 16) = (of_nat (unat b div 16 * 16 + unat b mod 16) :: byte)"
    by (simp only: of_nat_add of_nat_mult of_nat_numeral)
  also have "\<dots> = b" by (simp only: div_mult_mod_eq) simp
  finally show ?thesis .
qed

text \<open>The two digits of a byte are read back, and one separator behind them is skipped.\<close>

definition skip_sep :: "char list \<Rightarrow> char list" where
  "skip_sep r = (case r of [] \<Rightarrow> [] | c # r1 \<Rightarrow> if hex_char c < 0 then r1 else r)"

lemma hex_item_fmt:
  "hex_item (fmt_02x b @ r) = (b, skip_sep r)" "hex_item (fmt_02X b @ r) = (b, skip_sep r)"
proof -
  have "unat b < 2 ^ LENGTH(8)" by (rule unsigned_less)
  then have lt: "unat b div 16 < 16" "unat b mod 16 < 16" by (simp_all add: less_mult_imp_div_less)
  note d = hex_char_digit [OF lt(1)] hex_char_digit [OF lt(2)]
  show "hex_item (fmt_02x b @ r) = (b, skip_sep r)"
    using byte_nibbles [of b] by (simp add: fmt_02x_def d skip_sep_def)
  show "hex_item (fmt_02X b @ r) = (b, skip_sep r)"
    using byte_nibbles [of b] by (simp add: fmt_02X_def d skip_sep_def)
qed

lemma read_loop_step:
  assumes "s \<noteq> []" and "i < n" and "i < length buf"
  shows "read_loop buf n i s = read_loop (buf[i := fst (hex_item s)]) n (i + 1) (snd (hex_item s))"
  using assms by (simp add: read_loop.simps [of buf n i s])

lemma fmt_02x_ne [simp]: "fmt_02x b \<noteq> []"
  by (simp add: fmt_02x_def)

lemma fmt_02x_length: "length (fmt_02x b) = 2"
  by (simp add: fmt_02x_def)

lemma skip_sep_dump:
  assumes "d = [] \<or> (\<exists>c. d = [c] \<and> hex_char c < 0)"
  shows "skip_sep (dump_loop d (b # bs)) = fmt_02x b @ dump_loop d bs"
proof -
  have "unat b < 2 ^ LENGTH(8)" by (rule unsigned_less)
  then have "unat b div 16 < 16" by (simp add: less_mult_imp_div_less)
  from hex_char_digit(1) [OF this] assms show ?thesis
    by (auto simp: skip_sep_def fmt_02x_def)
qed

lemma read_dump:
  assumes "d = [] \<or> (\<exists>c. d = [c] \<and> hex_char c < 0)"
    and "i + length (b # bs) \<le> n" and "n \<le> length buf"
  shows "\<exists>buf'. read_loop buf n i (fmt_02x b @ dump_loop d bs) = Some (i + length (b # bs), buf') \<and>
    buf' = take i buf @ b # bs @ drop (i + length (b # bs)) buf"
  using assms(2,3)
proof (induction bs arbitrary: b i buf)
  case Nil
  then have "read_loop buf n i (fmt_02x b @ dump_loop d []) = read_loop (buf[i := b]) n (i + 1) []"
    using read_loop_step [of "fmt_02x b" i n buf] hex_item_fmt(1) [of b "[]"]
    by (simp add: skip_sep_def)
  with Nil show ?case by (simp add: read_loop.simps [of _ _ _ "[]"] upd_conv_take_nth_drop)
next
  case (Cons c bs)
  have "read_loop buf n i (fmt_02x b @ dump_loop d (c # bs)) =
      read_loop (buf[i := b]) n (i + 1) (fmt_02x c @ dump_loop d bs)"
    using read_loop_step [of "fmt_02x b @ dump_loop d (c # bs)" i n buf] Cons.prems
      skip_sep_dump [OF assms(1)] by (simp add: hex_item_fmt del: dump_loop.simps)
  moreover have "take (i + 1) (buf[i := b]) = take i buf @ [b]"
    using Cons.prems take_Suc_upd [of i buf b] by simp
  ultimately show ?case
    using Cons.IH [of "i + 1" c "buf[i := b]"] Cons.prems by simp
qed

lemma read_loop_bounds:
  assumes "n \<le> length buf" and "i \<le> n"
  shows "\<exists>k buf'. read_loop buf n i s = Some (k, buf') \<and> i \<le> k \<and> k \<le> n \<and> k \<le> i + length s \<and>
    length buf' = length buf \<and> drop k buf' = drop k buf \<and> take i buf' = take i buf"
  using assms
proof (induction buf n i s rule: read_loop.induct)
  case (1 buf n i s)
  show ?case
  proof (cases "s \<noteq> [] \<and> i < n")
    case True
    then have w: "wr buf i (fst (hex_item s)) = Some (buf[i := fst (hex_item s)])" using 1(2) by simp
    obtain k buf' where k: "read_loop (buf[i := fst (hex_item s)]) n (i + 1) (snd (hex_item s)) = Some (k, buf')"
      "i + 1 \<le> k" "k \<le> n" "k \<le> i + 1 + length (snd (hex_item s))" "length buf' = length buf"
      "drop k buf' = drop k (buf[i := fst (hex_item s)])"
      "take (i + 1) buf' = take (i + 1) (buf[i := fst (hex_item s)])"
      using 1(1) [OF True w] 1(2) True by auto
    have "take i buf' = take i buf"
      using k(7) by (metis le_add1 min.absorb1 take_take take_update_cancel le_refl)
    with k True 1(2) hex_item_shrinks [of s] show ?thesis
      by (auto simp: read_loop.simps [of buf n i s])
  next
    case False
    with 1(3) show ?thesis by (auto simp: read_loop.simps [of buf n i s])
  qed
qed

subsection \<open>Properties\<close>

text \<open>\<^verbatim>\<open>read_hexstring\<close> returns for every string: it never writes outside the first \<open>n\<close> bytes of the
  buffer, returns at most \<open>n\<close> and at most the length of the string, and leaves every byte from the
  returned count on as it was.\<close>

theorem read_hexstring_bounds:
  assumes "n \<le> length buf"
  shows "\<exists>k buf'. read_hexstring buf n s = Some (k, buf') \<and> k \<le> n \<and> k \<le> length s \<and>
    length buf' = length buf \<and> drop k buf' = drop k buf"
  using read_loop_bounds [OF assms, of 0 s] by (auto simp: read_hexstring_def)

theorem read_hexstring_bounds_witness:
  "\<exists>k buf'. read_hexstring [9, 9, 9] 2 ''0,1,2,3'' = Some (k, buf') \<and> k \<le> 2 \<and> length buf' = 3 \<and>
    drop k buf' = drop k [9, 9, 9]"
  using read_hexstring_bounds [of 2 "[9, 9, 9]" "''0,1,2,3''"] by auto

text \<open>A MAC address printed by \<^verbatim>\<open>print_macaddr\<close> is read back by \<^verbatim>\<open>read_hexstring\<close>: the text is a C
  string of 17 characters inside the static buffer, and reading it into six bytes gives the address.\<close>

theorem macaddr_roundtrip:
  assumes "length mac = 6" and "length buf = 6"
  shows "\<exists>b t. print_macaddr mac = Some b \<and> cstr b = Some t \<and> length t = 17 \<and>
    read_hexstring buf 6 t = Some (6, mac)"
proof -
  obtain a b c d e f where mac: "mac = [a, b, c, d, e, f]"
    using assms(1) by (auto simp: length_Suc_conv numeral_eq_Suc)
  let ?t = "fmt_02x a @ dump_loop '':'' [b, c, d, e, f]"
  have len: "length ?t = 17" by (simp add: fmt_02x_def)
  have b: "print_macaddr mac = Some (?t @ NUL # replicate 14 NUL)"
    by (simp add: print_macaddr_def mac blit_def fmt_02x_length rd_def)
  have "NUL \<notin> set ?t"
  proof -
    have "NUL \<notin> set (fmt_02x x)" for x
    proof -
      have "unat x < 2 ^ LENGTH(8)" by (rule unsigned_less)
      then have lt: "unat x div 16 < 16" "unat x mod 16 < 16" by (simp_all add: less_mult_imp_div_less)
      have "hex_char NUL = -1" by code_simp
      with hex_char_digit(1) [OF lt(1)] hex_char_digit(1) [OF lt(2)] show ?thesis
        by (auto simp: fmt_02x_def)
    qed
    then show ?thesis by auto
  qed
  then have "cstr (?t @ NUL # replicate 14 NUL) = Some ?t" by (rule cstr_append)
  moreover have "hex_char (CHR '':'') < 0" by code_simp
  then have "read_hexstring buf 6 ?t = Some (6, mac)"
    using read_dump [of "'':''" 0 a "[b, c, d, e, f]" 6 buf] assms(2) mac
    by (auto simp: read_hexstring_def)
  ultimately show ?thesis using b len by blast
qed

theorem macaddr_roundtrip_witness:
  "\<exists>b t. print_macaddr [0, 0x80, 0xc8, 1, 2, 255] = Some b \<and> cstr b = Some t \<and> length t = 17 \<and>
    read_hexstring [9, 9, 9, 9, 9, 9] 6 t = Some (6, [0, 0x80, 0xc8, 1, 2, 255])"
  by (rule macaddr_roundtrip) simp_all

text \<open>A dump of \<open>n\<close> bytes with any separator that is no hexadecimal digit is read back exactly by
  \<^verbatim>\<open>read_hexstring\<close>. Without a separator \<^verbatim>\<open>dump_hex\<close> starts at index 1: the first byte is missing and
  the text reads back as the remaining bytes.\<close>

theorem dump_hex_readback:
  assumes "bin = b # c # bs" and "length buf = length bin"
  shows "(\<forall>d. d \<noteq> NUL \<and> hex_char d < 0 \<longrightarrow> (\<exists>t. dump_hex None None d bin (length bin) = Some t \<and>
      read_hexstring buf (length bin) t = Some (length bin, bin))) \<and>
    (\<exists>t buf'. dump_hex None None NUL bin (length bin) = Some t \<and>
      read_hexstring buf (length bin) t = Some (length bin - 1, buf') \<and>
      take (length bin - 1) buf' = tl bin)"
proof (intro conjI allI impI)
  fix d assume d: "d \<noteq> NUL \<and> hex_char d < 0"
  with assms(1) have "dump_hex None None d bin (length bin) = Some (fmt_02x b @ dump_loop [d] (c # bs))"
    by (simp add: dump_hex_def)
  moreover have "read_hexstring buf (length bin) (fmt_02x b @ dump_loop [d] (c # bs)) = Some (length bin, bin)"
    using read_dump [of "[d]" 0 b "c # bs" "length bin" buf] assms d by (auto simp: read_hexstring_def)
  ultimately show "\<exists>t. dump_hex None None d bin (length bin) = Some t \<and>
      read_hexstring buf (length bin) t = Some (length bin, bin)" by blast
next
  have "dump_hex None None NUL bin (length bin) = Some (fmt_02x c @ dump_loop [] bs)"
    using assms(1) by (simp add: dump_hex_def)
  moreover have "\<exists>buf'. read_hexstring buf (length bin) (fmt_02x c @ dump_loop [] bs) =
      Some (length bin - 1, buf') \<and> take (length bin - 1) buf' = tl bin"
    using read_dump [of "[]" 0 c bs "length bin" buf] assms by (auto simp: read_hexstring_def)
  ultimately show "\<exists>t buf'. dump_hex None None NUL bin (length bin) = Some t \<and>
      read_hexstring buf (length bin) t = Some (length bin - 1, buf') \<and>
      take (length bin - 1) buf' = tl bin" by blast
qed

theorem dump_hex_readback_witness:
  "(\<exists>t. dump_hex None None (CHR ''-'') [1, 2, 255] 3 = Some t \<and>
      read_hexstring [0, 0, 0] 3 t = Some (3, [1, 2, 255])) \<and>
    (\<exists>t buf'. dump_hex None None NUL [1, 2, 255] 3 = Some t \<and>
      read_hexstring [0, 0, 0] 3 t = Some (2, buf') \<and> take 2 buf' = [2, 255])"
proof -
  have "hex_char (CHR ''-'') < 0" by code_simp
  then show ?thesis
    using dump_hex_readback [of "[1, 2, 255]" 1 2 "[255]" "[0, 0, 0]"]
    by (simp add: numeral_3_eq_3 numeral_2_eq_2)
qed

end
