(* ===== verification/Digest.thy ===== *)
theory Digest
  imports Cmodel_Prelude
begin

text \<open>
  What the two message digests of \<^verbatim>\<open>comlib\<close> share: the iteration of a compression function over the
  complete 64-byte blocks of a message, the part of a message that does not fill a block, the padding,
  and the contract of a streaming digest as a locale. The contract is interpreted by the MD5 and the
  SHA-1 contexts.
\<close>

function blocks :: "('s \<Rightarrow> byte list \<Rightarrow> 's) \<Rightarrow> 's \<Rightarrow> byte list \<Rightarrow> 's" where
  "blocks f s m = (if 64 \<le> length m then blocks f (f s (take 64 m)) (drop 64 m) else s)"
  by pat_completeness auto
termination by (relation "measure (\<lambda>(f, s, m). length m)") auto

declare blocks.simps [simp del]

definition partial_block :: "byte list \<Rightarrow> byte list" where
  "partial_block m = drop (64 * (length m div 64)) m"

text \<open>A one bit, then zeros up to eight bytes before the end of a block; \<open>n\<close> is the message length.\<close>

definition md_padding :: "nat \<Rightarrow> byte list" where
  "md_padding n = 0x80 # replicate ((if n mod 64 < 56 then 55 else 119) - n mod 64) 0"

lemma blocks_short: "length m < 64 \<Longrightarrow> blocks f s m = s"
  by (simp add: blocks.simps)

lemma blocks_long: "64 \<le> length m \<Longrightarrow> blocks f s m = blocks f (f s (take 64 m)) (drop 64 m)"
  by (simp add: blocks.simps)

lemma blocks_one: "length m = 64 \<Longrightarrow> blocks f s m = f s m"
  by (simp add: blocks_long blocks_short)

lemma blocks_append:
  assumes "length m mod 64 = 0"
  shows "blocks f s (m @ x) = blocks f (blocks f s m) x"
  using assms
proof (induction f s m rule: blocks.induct)
  case (1 f s m)
  show ?case
  proof (cases "64 \<le> length m")
    case True
    have "length (drop 64 m) mod 64 = 0" using 1(2) True by (simp add: le_mod_geq)
    with 1(1) [OF True] True show ?thesis by (simp add: blocks_long)
  next
    case False
    with 1(2) have "m = []" by auto
    then show ?thesis by (simp add: blocks_short)
  qed
qed

lemma partial_block_length: "length (partial_block m) = length m mod 64"
  by (simp add: partial_block_def minus_mult_div_eq_mod)

lemma partial_block_short: "length m < 64 \<Longrightarrow> partial_block m = m"
  by (simp add: partial_block_def)

lemma full_blocks_append: "take (64 * (length m div 64)) m @ partial_block m = m"
  by (simp add: partial_block_def)

lemma full_blocks_length: "length (take (64 * (length m div 64)) m) = 64 * (length m div 64)"
  using times_div_less_eq_dividend [of 64 "length m"] by simp

lemma blocks_full: "blocks f s (take (64 * (length m div 64)) m) = blocks f s m"
proof -
  have "blocks f s (take (64 * (length m div 64)) m @ partial_block m) =
      blocks f (blocks f s (take (64 * (length m div 64)) m)) (partial_block m)"
    by (rule blocks_append) (simp add: full_blocks_length)
  then show ?thesis
    by (simp add: full_blocks_append blocks_short partial_block_length)
qed

lemma blocks_split: "blocks f s (m @ x) = blocks f (blocks f s m) (partial_block m @ x)"
proof -
  let ?k = "take (64 * (length m div 64)) m"
  have "blocks f s (m @ x) = blocks f s (?k @ (partial_block m @ x))"
    by (simp add: full_blocks_append flip: append_assoc)
  also have "\<dots> = blocks f (blocks f s ?k) (partial_block m @ x)"
    by (rule blocks_append) (simp add: full_blocks_length)
  finally show ?thesis by (simp add: blocks_full)
qed

lemma partial_block_append: "partial_block (m @ x) = partial_block (partial_block m @ x)"
proof -
  let ?q = "length m div 64"
  have l: "length m = 64 * ?q + length (partial_block m)"
    by (simp add: partial_block_length)
  have m: "m @ x = take (64 * ?q) m @ (partial_block m @ x)"
    by (simp add: full_blocks_append flip: append_assoc)
  have "length (m @ x) = length (partial_block m @ x) + 64 * ?q" using l by simp
  then have "length (m @ x) div 64 = length (partial_block m @ x) div 64 + ?q" by simp
  then have "partial_block (m @ x) = drop (64 * (length (partial_block m @ x) div 64) + 64 * ?q) (m @ x)"
    by (simp add: partial_block_def add_mult_distrib2)
  also have "\<dots> = drop (64 * (length (partial_block m @ x) div 64)) (partial_block m @ x)"
    by (subst m) (simp add: full_blocks_length del: append_assoc length_append)
  finally show ?thesis by (simp add: partial_block_def)
qed

lemma partial_block_full: "length m mod 64 = 0 \<Longrightarrow> partial_block m = []"
  using partial_block_length [of m] by simp

lemma md_padding_length:
  "length (md_padding n) = (if n mod 64 < 56 then 56 else 120) - n mod 64"
  "(n + length (md_padding n)) mod 64 = 56"
proof -
  have "n mod 64 < 64" by simp
  then show l: "length (md_padding n) = (if n mod 64 < 56 then 56 else 120) - n mod 64"
    by (auto simp: md_padding_def)
  have n: "n = 64 * (n div 64) + n mod 64" by simp
  show "(n + length (md_padding n)) mod 64 = 56"
  proof (cases "n mod 64 < 56")
    case True
    then have "length (md_padding n) = 56 - n mod 64" using l by simp
    then have "n + length (md_padding n) = 64 * (n div 64) + 56" using n True by linarith
    then show ?thesis by simp
  next
    case False
    then have "length (md_padding n) = 120 - n mod 64" using l by simp
    then have "n + length (md_padding n) = 64 * (n div 64) + 120"
      using n \<open>n mod 64 < 64\<close> by linarith
    then show ?thesis by simp
  qed
qed

text \<open>Feeding a sequence of chunks, one call of the update function per chunk.\<close>

primrec feed :: "('c \<Rightarrow> byte list \<Rightarrow> 'c option) \<Rightarrow> 'c \<Rightarrow> byte list list \<Rightarrow> 'c option" where
  "feed upd c [] = Some c"
| "feed upd c (x # xs) = do { c' \<leftarrow> upd c x; feed upd c' xs }"

text \<open>The contract of a streaming digest: a context represents the message fed to it so far.\<close>

locale stream_digest =
  fixes init :: 'c
    and upd :: "'c \<Rightarrow> byte list \<Rightarrow> 'c option"
    and rep :: "'c \<Rightarrow> byte list \<Rightarrow> bool"
    and fin :: "'c \<Rightarrow> 'd"
    and spec :: "byte list \<Rightarrow> 'd"
    and chunk_ok :: "byte list \<Rightarrow> bool"
    and total_ok :: "byte list \<Rightarrow> bool"
  assumes init_law: "rep init []"
    and upd_law: "rep c m \<Longrightarrow> chunk_ok x \<Longrightarrow> total_ok (m @ x) \<Longrightarrow>
      \<exists>c'. upd c x = Some c' \<and> rep c' (m @ x)"
    and fin_law: "rep c m \<Longrightarrow> total_ok m \<Longrightarrow> fin c = spec m"
    and total_prefix: "total_ok (m @ x) \<Longrightarrow> total_ok m"
begin

lemma feed_rep:
  assumes "rep c m" and "list_all chunk_ok xs" and "total_ok (m @ concat xs)"
  shows "\<exists>c'. feed upd c xs = Some c' \<and> rep c' (m @ concat xs)"
  using assms
proof (induction xs arbitrary: c m)
  case Nil
  then show ?case by simp
next
  case (Cons x xs)
  then have t: "total_ok ((m @ x) @ concat xs)" by simp
  then have "total_ok (m @ x)" by (rule total_prefix)
  then obtain c1 where "upd c x = Some c1" "rep c1 (m @ x)"
    using Cons.prems upd_law [of c m x] by auto
  with Cons.IH [of c1 "m @ x"] Cons.prems t show ?case by auto
qed

lemma digest_of_chunks:
  assumes "list_all chunk_ok xs" and "total_ok (concat xs)"
  shows "\<exists>c. feed upd init xs = Some c \<and> fin c = spec (concat xs)"
proof -
  obtain c where "feed upd init xs = Some c" "rep c (concat xs)"
    using feed_rep [OF init_law assms(1)] assms(2) by auto
  with fin_law assms(2) show ?thesis by auto
qed

end

end
