(* ===== verification/Md5.thy ===== *)
theory Md5
  imports Digest
begin

text \<open>
  The MD5 digest of \<^verbatim>\<open>comlib/md5.c\<close> over 32-bit words: the context, the transformation of a block, the
  streaming update with its 64-bit bit counter, and the finalization. \<open>md5_rep\<close> says which message a
  context has absorbed; with it the context implements the streaming contract of \<open>Digest\<close>, and the
  digest is the one RFC 1321 defines on the padded message.
\<close>

type_synonym md5_state = "u32 \<times> u32 \<times> u32 \<times> u32"

record MD5_CTX =
  state :: md5_state
  count0 :: u32
  count1 :: u32
  buffer :: "byte list"

definition S11 :: nat where "S11 = 7"
definition S12 :: nat where "S12 = 12"
definition S13 :: nat where "S13 = 17"
definition S14 :: nat where "S14 = 22"
definition S21 :: nat where "S21 = 5"
definition S22 :: nat where "S22 = 9"
definition S23 :: nat where "S23 = 14"
definition S24 :: nat where "S24 = 20"
definition S31 :: nat where "S31 = 4"
definition S32 :: nat where "S32 = 11"
definition S33 :: nat where "S33 = 16"
definition S34 :: nat where "S34 = 23"
definition S41 :: nat where "S41 = 6"
definition S42 :: nat where "S42 = 10"
definition S43 :: nat where "S43 = 15"
definition S44 :: nat where "S44 = 21"

definition PADDING :: "byte list" where "PADDING = 0x80 # replicate 63 0"

definition fF :: "u32 \<Rightarrow> u32 \<Rightarrow> u32 \<Rightarrow> u32" where "fF x y z = (x AND y) OR (NOT x AND z)"
definition fG :: "u32 \<Rightarrow> u32 \<Rightarrow> u32 \<Rightarrow> u32" where "fG x y z = (x AND z) OR (y AND NOT z)"
definition fH :: "u32 \<Rightarrow> u32 \<Rightarrow> u32 \<Rightarrow> u32" where "fH x y z = x XOR y XOR z"
definition fI :: "u32 \<Rightarrow> u32 \<Rightarrow> u32 \<Rightarrow> u32" where "fI x y z = y XOR (x OR NOT z)"

definition ROTATE_LEFT :: "u32 \<Rightarrow> nat \<Rightarrow> u32" where
  "ROTATE_LEFT x n = push_bit n x OR drop_bit (32 - n) x"

text \<open>One of the macros \<^verbatim>\<open>FF\<close>, \<^verbatim>\<open>GG\<close>, \<^verbatim>\<open>HH\<close>, \<^verbatim>\<open>II\<close> with its function \<open>f\<close>: it assigns its first argument. The
  statements of \<^verbatim>\<open>MD5Transform\<close> rotate the roles of the variables (\<^verbatim>\<open>a,b,c,d\<close>, then \<^verbatim>\<open>d,a,b,c\<close>, ...), so
  the step returns the four variables in the order in which the next statement names them.\<close>

definition md5_step :: "(u32 \<Rightarrow> u32 \<Rightarrow> u32 \<Rightarrow> u32) \<Rightarrow> u32 list \<Rightarrow> nat \<times> nat \<times> u32 \<Rightarrow> md5_state \<Rightarrow> md5_state" where
  "md5_step f x p st = (case p of (k, s, ac) \<Rightarrow> case st of (a, b, c, d) \<Rightarrow>
     (let a1 = a + (f b c d + x ! k + ac); a2 = ROTATE_LEFT a1 s; a3 = a2 + b in (d, a3, b, c)))"

definition round1 :: "(nat \<times> nat \<times> u32) list" where
  "round1 =
    [(0, S11, 0xd76aa478), (1, S12, 0xe8c7b756), (2, S13, 0x242070db), (3, S14, 0xc1bdceee),
     (4, S11, 0xf57c0faf), (5, S12, 0x4787c62a), (6, S13, 0xa8304613), (7, S14, 0xfd469501),
     (8, S11, 0x698098d8), (9, S12, 0x8b44f7af), (10, S13, 0xffff5bb1), (11, S14, 0x895cd7be),
     (12, S11, 0x6b901122), (13, S12, 0xfd987193), (14, S13, 0xa679438e), (15, S14, 0x49b40821)]"

definition round2 :: "(nat \<times> nat \<times> u32) list" where
  "round2 =
    [(1, S21, 0xf61e2562), (6, S22, 0xc040b340), (11, S23, 0x265e5a51), (0, S24, 0xe9b6c7aa),
     (5, S21, 0xd62f105d), (10, S22, 0x2441453), (15, S23, 0xd8a1e681), (4, S24, 0xe7d3fbc8),
     (9, S21, 0x21e1cde6), (14, S22, 0xc33707d6), (3, S23, 0xf4d50d87), (8, S24, 0x455a14ed),
     (13, S21, 0xa9e3e905), (2, S22, 0xfcefa3f8), (7, S23, 0x676f02d9), (12, S24, 0x8d2a4c8a)]"

definition round3 :: "(nat \<times> nat \<times> u32) list" where
  "round3 =
    [(5, S31, 0xfffa3942), (8, S32, 0x8771f681), (11, S33, 0x6d9d6122), (14, S34, 0xfde5380c),
     (1, S31, 0xa4beea44), (4, S32, 0x4bdecfa9), (7, S33, 0xf6bb4b60), (10, S34, 0xbebfbc70),
     (13, S31, 0x289b7ec6), (0, S32, 0xeaa127fa), (3, S33, 0xd4ef3085), (6, S34, 0x4881d05),
     (9, S31, 0xd9d4d039), (12, S32, 0xe6db99e5), (15, S33, 0x1fa27cf8), (2, S34, 0xc4ac5665)]"

definition round4 :: "(nat \<times> nat \<times> u32) list" where
  "round4 =
    [(0, S41, 0xf4292244), (7, S42, 0x432aff97), (14, S43, 0xab9423a7), (5, S44, 0xfc93a039),
     (12, S41, 0x655b59c3), (3, S42, 0x8f0ccc92), (10, S43, 0xffeff47d), (1, S44, 0x85845dd1),
     (8, S41, 0x6fa87e4f), (15, S42, 0xfe2ce6e0), (6, S43, 0xa3014314), (13, S44, 0x4e0811a1),
     (4, S41, 0xf7537e82), (11, S42, 0xbd3af235), (2, S43, 0x2ad7d2bb), (9, S44, 0xeb86d391)]"

text \<open>\<^verbatim>\<open>Encode\<close> and \<^verbatim>\<open>Decode\<close>: words as little-endian bytes.\<close>

definition enc_word :: "u32 \<Rightarrow> byte list" where
  "enc_word w = [ucast (w AND 0xff), ucast (drop_bit 8 w AND 0xff), ucast (drop_bit 16 w AND 0xff),
     ucast (drop_bit 24 w AND 0xff)]"

definition Encode :: "u32 list \<Rightarrow> byte list" where
  "Encode ws = concat (map enc_word ws)"

fun Decode :: "byte list \<Rightarrow> u32 list" where
  "Decode (a # b # c # d # r) =
     (ucast a OR push_bit 8 (ucast b) OR push_bit 16 (ucast c) OR push_bit 24 (ucast d)) # Decode r"
| "Decode _ = []"

definition MD5Transform :: "md5_state \<Rightarrow> byte list \<Rightarrow> md5_state" where
  "MD5Transform st block =
     (let x = Decode block;
          r1 = foldl (\<lambda>s p. md5_step fF x p s) st round1;
          r2 = foldl (\<lambda>s p. md5_step fG x p s) r1 round2;
          r3 = foldl (\<lambda>s p. md5_step fH x p s) r2 round3;
          r4 = foldl (\<lambda>s p. md5_step fI x p s) r3 round4
      in case st of (s0, s1, s2, s3) \<Rightarrow> case r4 of (a, b, c, d) \<Rightarrow> (s0 + a, s1 + b, s2 + c, s3 + d))"

text \<open>\<^verbatim>\<open>MD5Init\<close> leaves the buffer of the context as it is.\<close>

definition md5_init_state :: md5_state where
  "md5_init_state = (0x67452301, 0xefcdab89, 0x98badcfe, 0x10325476)"

definition MD5Init :: "MD5_CTX \<Rightarrow> MD5_CTX" where
  "MD5Init c = c\<lparr>count0 := 0, count1 := 0, state := md5_init_state\<rparr>"

text \<open>The loop of \<^verbatim>\<open>MD5Update\<close> over the blocks that lie inside the input; \<open>i\<close> is \<^verbatim>\<open>i\<close>.\<close>

function update_loop :: "md5_state \<Rightarrow> byte list \<Rightarrow> nat \<Rightarrow> md5_state \<times> nat" where
  "update_loop st input i =
     (if i + 63 < length input then update_loop (MD5Transform st (take 64 (drop i input))) input (i + 64)
      else (st, i))"
  by pat_completeness auto
termination by (relation "measure (\<lambda>(st, input, i). length input - i)") auto

declare update_loop.simps [simp del]

definition memcpy_at :: "byte list \<Rightarrow> nat \<Rightarrow> byte list \<Rightarrow> byte list" where
  "memcpy_at buf i xs = take i buf @ xs @ drop (i + length xs) buf"

definition MD5Update :: "MD5_CTX \<Rightarrow> byte list \<Rightarrow> MD5_CTX" where
  "MD5Update c input =
     (let inputLen = of_nat (length input) :: u32;
          index = unat (drop_bit 3 (count0 c) AND 0x3F);
          inc = push_bit 3 inputLen;
          n0 = count0 c + inc;
          n1 = (if n0 < inc then count1 c + 1 else count1 c);
          n2 = n1 + drop_bit 29 inputLen;
          partLen = 64 - index
      in if partLen \<le> length input then
           (let b1 = memcpy_at (buffer c) index (take partLen input);
                st1 = MD5Transform (state c) b1;
                (st2, i) = update_loop st1 input partLen
            in c\<lparr>state := st2, count0 := n0, count1 := n2, buffer := memcpy_at b1 0 (drop i input)\<rparr>)
         else c\<lparr>count0 := n0, count1 := n2, buffer := memcpy_at (buffer c) index input\<rparr>)"

definition md5_zero :: MD5_CTX where
  "md5_zero = \<lparr>state = (0, 0, 0, 0), count0 = 0, count1 = 0, buffer = replicate 64 0\<rparr>"

definition state_words :: "md5_state \<Rightarrow> u32 list" where
  "state_words st = (case st of (a, b, c, d) \<Rightarrow> [a, b, c, d])"

definition MD5Final :: "MD5_CTX \<Rightarrow> byte list \<times> MD5_CTX" where
  "MD5Final c =
     (let bits = Encode [count0 c, count1 c];
          index = unat (drop_bit 3 (count0 c) AND 0x3f);
          padLen = (if index < 56 then 56 - index else 120 - index);
          c1 = MD5Update c (take padLen PADDING);
          c2 = MD5Update c1 bits
      in (Encode (state_words (state c2)), md5_zero))"

subsection \<open>What a context has absorbed\<close>

definition md5_len :: "nat \<Rightarrow> byte list" where
  "md5_len n = Encode [of_nat (8 * n), of_nat (8 * n div 2 ^ 32)]"

text \<open>The digest of RFC 1321: pad, append the length in bits, transform all blocks.\<close>

definition md5_digest :: "byte list \<Rightarrow> byte list" where
  "md5_digest m = Encode (state_words (blocks MD5Transform md5_init_state
     (m @ md_padding (length m) @ md5_len (length m))))"

definition md5_rep :: "MD5_CTX \<Rightarrow> byte list \<Rightarrow> bool" where
  "md5_rep c m \<longleftrightarrow> length (buffer c) = 64 \<and> state c = blocks MD5Transform md5_init_state m \<and>
     take (length m mod 64) (buffer c) = partial_block m \<and>
     count0 c = of_nat (8 * length m) \<and> count1 c = of_nat (8 * length m div 2 ^ 32)"

lemma md5_index: "unat (drop_bit 3 (of_nat (8 * n) :: u32) AND 0x3F) = n mod 64"
proof -
  have "(0x3F :: u32) = mask 6" by (simp add: mask_eq_exp_minus_1)
  then have "drop_bit 3 (of_nat (8 * n) :: u32) AND 0x3F = take_bit 6 (drop_bit 3 (of_nat (8 * n)))"
    by (simp only: take_bit_eq_mask)
  then have "unat (drop_bit 3 (of_nat (8 * n) :: u32) AND 0x3F) =
      unat (take_bit 6 (drop_bit 3 (of_nat (8 * n) :: u32)))" by (rule arg_cong)
  also have "\<dots> = take_bit 6 (drop_bit 3 (take_bit 32 (8 * n)))"
    by (simp only: unsigned_take_bit_eq unsigned_drop_bit_eq unsigned_of_nat) (simp add: take_bit_drop_bit)
  also have "\<dots> = 8 * n mod 2 ^ 32 div 8 mod 64"
    by (simp add: take_bit_eq_mod drop_bit_eq_div)
  also have "8 * n mod 2 ^ 32 div 8 = n mod 2 ^ 29"
    using mult_mod_right [of 8 n "2 ^ 29"] by simp
  also have "n mod 2 ^ 29 mod 64 = n mod 64"
    by (rule mod_mod_cancel) simp
  finally show ?thesis .
qed

lemma md5_count_low: "of_nat (8 * l) + push_bit 3 (of_nat n) = (of_nat (8 * (l + n)) :: u32)"
  by (simp add: push_bit_eq_mult algebra_simps)

lemma carry_out:
  assumes "a < M" and "b < (M::nat)"
  shows "(a + b) mod M < b \<longleftrightarrow> (a + b) div M = 1" and "(a + b) div M = 0 \<or> (a + b) div M = 1"
proof -
  have M: "0 < M" using assms by simp
  show "(a + b) mod M < b \<longleftrightarrow> (a + b) div M = 1"
  proof (cases "a + b < M")
    case True
    then show ?thesis by simp
  next
    case False
    then have "(a + b) mod M = a + b - M" "(a + b) div M = 1"
      using assms M by (simp_all add: le_mod_geq le_div_geq)
    with False assms show ?thesis by linarith
  qed
  show "(a + b) div M = 0 \<or> (a + b) div M = 1"
    using assms M by (cases "a + b < M") (simp_all add: le_div_geq)
qed

lemma md5_count_high:
  assumes "n < 2 ^ 32"
  shows "(if of_nat (8 * l) + push_bit 3 (of_nat n) < (push_bit 3 (of_nat n) :: u32)
      then of_nat (8 * l div 2 ^ 32) + 1 else of_nat (8 * l div 2 ^ 32)) + drop_bit 29 (of_nat n :: u32) =
    of_nat (8 * (l + n) div 2 ^ 32)"
proof -
  let ?M = "2 ^ 32 :: nat"
  let ?a = "8 * l mod ?M" and ?b = "8 * n mod ?M"
  have inc: "push_bit 3 (of_nat n :: u32) = of_nat (8 * n)" by (simp add: push_bit_eq_mult)
  have ua: "unat (of_nat k :: u32) = k mod ?M" for k by (simp add: unsigned_of_nat take_bit_eq_mod)
  have "of_nat (8 * l) + of_nat (8 * n) < (of_nat (8 * n) :: u32) \<longleftrightarrow> (8 * l + 8 * n) mod ?M < ?b"
    unfolding word_less_nat_alt of_nat_add [symmetric] ua ..
  also have "(8 * l + 8 * n) mod ?M = (?a + ?b) mod ?M" by (simp add: mod_simps)
  also have "(?a + ?b) mod ?M < ?b \<longleftrightarrow> (?a + ?b) div ?M = 1"
    by (rule carry_out(1)) simp_all
  finally have carry: "of_nat (8 * l) + of_nat (8 * n) < (of_nat (8 * n) :: u32) \<longleftrightarrow> (?a + ?b) div ?M = 1" .
  have c01: "(?a + ?b) div ?M = 0 \<or> (?a + ?b) div ?M = 1" by (rule carry_out(2)) simp_all
  have hi: "drop_bit 29 (of_nat n :: u32) = of_nat (8 * n div ?M)"
  proof -
    have "drop_bit 29 (of_nat n :: u32) = of_nat (unat (drop_bit 29 (of_nat n :: u32)))" by simp
    also have "unat (drop_bit 29 (of_nat n :: u32)) = n div 2 ^ 29"
      using assms by (simp only: unsigned_drop_bit_eq ua take_bit_length_eq) (simp add: drop_bit_eq_div take_bit_eq_mod)
    also have "n div 2 ^ 29 = 8 * n div ?M" using div_mult_mult1 [of 8 n "2 ^ 29"] by simp
    finally show ?thesis .
  qed
  have "8 * (l + n) div ?M = 8 * l div ?M + 8 * n div ?M + (?a + ?b) div ?M"
    unfolding distrib_left by (rule div_add1_eq)
  then have "(of_nat (8 * (l + n) div ?M) :: u32) =
      of_nat (8 * l div ?M) + of_nat (8 * n div ?M) + of_nat ((?a + ?b) div ?M)" by simp
  with c01 carry show ?thesis unfolding inc hi by auto
qed

lemma update_loop_spec:
  "i \<le> length x \<Longrightarrow> update_loop st x i =
    (blocks MD5Transform st (drop i x), i + 64 * ((length x - i) div 64))"
proof (induction st x i rule: update_loop.induct)
  case (1 st x i)
  show ?case
  proof (cases "i + 63 < length x")
    case True
    have "(length x - i) div 64 = Suc ((length x - (i + 64)) div 64)" using True by (simp add: le_div_geq)
    with 1 True show ?thesis
      by (simp add: update_loop.simps [of st x i] blocks_long [of "drop i x"] add.commute)
  next
    case False
    then show ?thesis by (simp add: update_loop.simps [of st x i] blocks_short)
  qed
qed

lemma memcpy_at_length: "i + length xs \<le> length buf \<Longrightarrow> length (memcpy_at buf i xs) = length buf"
  by (simp add: memcpy_at_def)

lemma md5_repI:
  assumes "c' = c\<lparr>state := s, count0 := k0, count1 := k1, buffer := bf\<rparr>"
    and "s = blocks MD5Transform md5_init_state m" and "k0 = of_nat (8 * length m)"
    and "k1 = of_nat (8 * length m div 2 ^ 32)" and "length bf = 64"
    and "take (length m mod 64) bf = partial_block m"
  shows "md5_rep c' m"
  using assms by (simp add: md5_rep_def)

text \<open>The new buffer and state of an update, seen from the partial block.\<close>

lemma MD5Update_rep:
  assumes "md5_rep c m" and "length x < 2 ^ 32 - 64"
  shows "md5_rep (MD5Update c x) (m @ x)"
proof -
  let ?l = "length m" and ?n = "length x" and ?pb = "partial_block m"
  let ?p = "64 - length m mod 64"
  have buf: "length (buffer c) = 64" "take (?l mod 64) (buffer c) = ?pb"
    and st: "state c = blocks MD5Transform md5_init_state m"
    and cnt: "count0 c = of_nat (8 * ?l)" "count1 c = of_nat (8 * ?l div 2 ^ 32)"
    using assms(1) by (simp_all add: md5_rep_def)
  have "?n < 2 ^ 32" using assms(2) by simp
  note hi = md5_count_high [OF this, of ?l, unfolded md5_count_low]
  have pl: "length ?pb = ?l mod 64" "?l mod 64 < 64" by (simp_all add: partial_block_length)
  show ?thesis
  proof (cases "?p \<le> ?n")
    case True
    let ?b1 = "?pb @ take ?p x" and ?r = "drop ?p x"
    have l1: "length ?b1 = 64" using True pl by simp
    have b1: "memcpy_at (buffer c) (?l mod 64) (take ?p x) = ?b1"
      using buf True pl by (simp add: memcpy_at_def)
    let ?i = "?p + 64 * ((?n - ?p) div 64)"
    have loop: "update_loop st x ?p = (blocks MD5Transform st ?r, ?i)" for st
      using update_loop_spec [OF True] by simp
    have rest: "drop ?i x = partial_block ?r" by (simp add: partial_block_def add.commute)
    have state': "blocks MD5Transform md5_init_state (m @ x) = blocks MD5Transform (MD5Transform (state c) ?b1) ?r"
    proof -
      have "blocks MD5Transform md5_init_state (m @ x) = blocks MD5Transform (state c) (?b1 @ ?r)"
        using blocks_split [of MD5Transform md5_init_state m x] st by simp
      also have "\<dots> = blocks MD5Transform (blocks MD5Transform (state c) ?b1) ?r"
        by (rule blocks_append) (simp only: l1 mod_self)
      finally show ?thesis by (simp only: blocks_one [OF l1])
    qed
    have pbx: "partial_block (m @ x) = partial_block ?r"
    proof -
      have "partial_block (m @ x) = partial_block (?b1 @ ?r)"
        using partial_block_append [of m x] by simp
      also have "\<dots> = partial_block (partial_block ?b1 @ ?r)" by (rule partial_block_append)
      also have "partial_block ?b1 = []" by (rule partial_block_full) (simp only: l1 mod_self)
      finally show ?thesis by simp
    qed
    have lr: "length (partial_block ?r) < 64" by (simp add: partial_block_length)
    have U: "MD5Update c x = c\<lparr>state := blocks MD5Transform (MD5Transform (state c) ?b1) ?r,
        count0 := of_nat (8 * (?l + ?n)), count1 := of_nat (8 * (?l + ?n) div 2 ^ 32),
        buffer := memcpy_at ?b1 0 (partial_block ?r)\<rparr>"
      unfolding MD5Update_def Let_def cnt md5_index md5_count_low hi b1 loop
      using True rest by (simp only: if_True prod.case)
    have "length (m @ x) mod 64 = length (partial_block ?r)"
      using pbx partial_block_length [of "m @ x"] by simp
    moreover have "length (memcpy_at ?b1 0 (partial_block ?r)) = 64"
      using memcpy_at_length [of 0 "partial_block ?r" ?b1] l1 lr by simp
    moreover have "take (length (partial_block ?r)) (memcpy_at ?b1 0 (partial_block ?r)) = partial_block ?r"
      by (simp add: memcpy_at_def)
    ultimately show ?thesis
      by (intro md5_repI [OF U]) (simp_all only: state' pbx length_append)
  next
    case False
    then have sh: "length (?pb @ x) < 64" using pl by simp
    have U: "MD5Update c x = c\<lparr>count0 := of_nat (8 * (?l + ?n)), count1 := of_nat (8 * (?l + ?n) div 2 ^ 32),
        buffer := memcpy_at (buffer c) (?l mod 64) x\<rparr>"
      unfolding MD5Update_def Let_def cnt md5_index md5_count_low hi
      using False by (simp only: if_False)
    have "partial_block (m @ x) = ?pb @ x"
      using partial_block_append [of m x] partial_block_short [OF sh] by simp
    moreover have "blocks MD5Transform md5_init_state (m @ x) = state c"
      using blocks_split [of MD5Transform md5_init_state m x] blocks_short [OF sh] st by simp
    moreover have "length (m @ x) mod 64 = length (?pb @ x)"
      using calculation(1) partial_block_length [of "m @ x"] by simp
    ultimately show ?thesis
      using U buf sh pl by (simp add: md5_rep_def memcpy_at_def)
  qed
qed

lemma PADDING_take: "0 < k \<Longrightarrow> k \<le> 64 \<Longrightarrow> take k PADDING = 0x80 # replicate (k - 1) 0"
  by (cases k) (simp_all add: PADDING_def)

lemma MD5Final_rep:
  assumes "md5_rep c m"
  shows "fst (MD5Final c) = md5_digest m"
proof -
  let ?l = "length m"
  have cnt: "count0 c = of_nat (8 * ?l)" "count1 c = of_nat (8 * ?l div 2 ^ 32)"
    using assms by (simp_all add: md5_rep_def)
  let ?pad = "if ?l mod 64 < 56 then 56 - ?l mod 64 else 120 - ?l mod 64"
  have m64: "?l mod 64 < 64" by simp
  have pad: "take ?pad PADDING = md_padding ?l"
    using PADDING_take [of ?pad] m64 by (auto simp: md_padding_def)
  have e8: "length (md5_len ?l) = 8" by (simp add: md5_len_def Encode_def enc_word_def)
  have pl: "length (md_padding ?l) \<le> 64" using md_padding_length(1) [of ?l] m64 by auto
  have c1: "md5_rep (MD5Update c (md_padding ?l)) (m @ md_padding ?l)"
    using MD5Update_rep [OF assms] pl by simp
  have c2: "md5_rep (MD5Update (MD5Update c (md_padding ?l)) (md5_len ?l)) ((m @ md_padding ?l) @ md5_len ?l)"
    using MD5Update_rep [OF c1] e8 by simp
  have "fst (MD5Final c) =
      Encode (state_words (state (MD5Update (MD5Update c (md_padding ?l)) (md5_len ?l))))"
    unfolding MD5Final_def Let_def cnt md5_index pad md5_len_def by simp
  with c2 show ?thesis by (simp add: md5_rep_def md5_digest_def)
qed

lemma MD5Init_rep: "length (buffer c) = 64 \<Longrightarrow> md5_rep (MD5Init c) []"
  by (simp add: md5_rep_def MD5Init_def blocks_short partial_block_def)

text \<open>The MD5 context implements the streaming contract, from any context object.\<close>

definition md5_ctx :: "byte list \<Rightarrow> MD5_CTX" where
  "md5_ctx junk = MD5Init (md5_zero\<lparr>buffer := take 64 (junk @ replicate 64 0)\<rparr>)"

interpretation md5: stream_digest "md5_ctx junk" "\<lambda>c x. Some (MD5Update c x)" md5_rep
  "\<lambda>c. fst (MD5Final c)" md5_digest "\<lambda>x. length x < 2 ^ 32 - 64" "\<lambda>_. True" for junk
  by unfold_locales
    (auto simp: md5_ctx_def md5_zero_def intro!: MD5Init_rep MD5Update_rep MD5Final_rep)

lemma feed_MD5Update: "feed (\<lambda>c x. Some (MD5Update c x)) c xs = Some (foldl MD5Update c xs)"
  by (induction xs arbitrary: c) simp_all

subsection \<open>Properties\<close>

text \<open>C20: MD5 is correct as a stream: however a message is cut into chunks of fewer than \<open>2^32 - 64\<close> bytes and
  fed to \<^verbatim>\<open>MD5Update\<close> after \<^verbatim>\<open>MD5Init\<close>, \<^verbatim>\<open>MD5Final\<close> returns the digest that RFC 1321 defines on the whole
  message (padding, 64-bit length with wrap-around, and one transformation per block), whatever the
  buffer of the context held before; and the context is zeroed.\<close>

theorem md5_streaming_correct:
  assumes "length (buffer c) = 64" and "\<forall>x \<in> set xs. length x < 2 ^ 32 - 64"
  shows "MD5Final (foldl MD5Update (MD5Init c) xs) = (md5_digest (concat xs), md5_zero)"
proof -
  have "list_all (\<lambda>x. length x < 2 ^ 32 - 64) xs" using assms(2) by (simp add: list_all_iff)
  then have "md5_rep (foldl MD5Update (MD5Init c) xs) (concat xs)"
    using md5.feed_rep [OF MD5Init_rep [OF assms(1)]] by (simp add: feed_MD5Update)
  from MD5Final_rep [OF this] show ?thesis
    by (simp add: MD5Final_def Let_def)
qed

theorem md5_streaming_correct_witness:
  "MD5Final (foldl MD5Update (MD5Init md5_zero) [[97], [], [98, 99]]) = (md5_digest [97, 98, 99], md5_zero)"
  using md5_streaming_correct [of md5_zero "[[97], [], [98, 99]]"] by (simp add: md5_zero_def)

text \<open>The digest code computes MD5: on the empty message and on \<^verbatim>\<open>abc\<close> the model, evaluated, gives
  the digests listed in RFC 1321.\<close>

theorem md5_test_vectors:
  "fst (MD5Final (MD5Init md5_zero)) =
     [0xd4, 0x1d, 0x8c, 0xd9, 0x8f, 0x00, 0xb2, 0x04, 0xe9, 0x80, 0x09, 0x98, 0xec, 0xf8, 0x42, 0x7e] \<and>
   fst (MD5Final (MD5Update (MD5Init md5_zero) [97, 98, 99])) =
     [0x90, 0x01, 0x50, 0x98, 0x3c, 0xd2, 0x4f, 0xb0, 0xd6, 0x96, 0x3f, 0x7d, 0x28, 0xe1, 0x7f, 0x72]"
  by code_simp

end
