(* ===== verification/Sha1.thy ===== *)
theory Sha1
  imports Digest
begin

text \<open>
  The SHA-1 digest of \<^verbatim>\<open>comlib/sha1.c\<close>: the context with its \<^verbatim>\<open>Computed\<close> and \<^verbatim>\<open>Corrupted\<close> flags, the
  byte-wise input loop, the processing of a block and the padding. \<^verbatim>\<open>unsigned\<close> is 32 bits wide, so the
  masks with \<^verbatim>\<open>0xFFFFFFFF\<close> of the C code do nothing. \<open>sha1_rep\<close> says which message a context has
  absorbed, and the context implements the streaming contract of \<open>Digest\<close>.
\<close>

type_synonym sha1_state = "u32 \<times> u32 \<times> u32 \<times> u32 \<times> u32"

record SHA1Context =
  Message_Digest :: sha1_state
  Length_Low :: u32
  Length_High :: u32
  Message_Block :: "byte list"
  Message_Block_Index :: nat
  Computed :: bool
  Corrupted :: bool

definition SHA1CircularShift :: "nat \<Rightarrow> u32 \<Rightarrow> u32" where
  "SHA1CircularShift b w = push_bit b w OR drop_bit (32 - b) w"

definition sha1_init_state :: sha1_state where
  "sha1_init_state = (0x67452301, 0xEFCDAB89, 0x98BADCFE, 0x10325476, 0xC3D2E1F0)"

text \<open>\<^verbatim>\<open>SHA1Reset\<close> leaves the message block as it is.\<close>

definition SHA1Reset :: "SHA1Context \<Rightarrow> SHA1Context" where
  "SHA1Reset c = c\<lparr>Length_Low := 0, Length_High := 0, Message_Block_Index := 0,
     Message_Digest := sha1_init_state, Computed := False, Corrupted := False\<rparr>"

subsection \<open>One block\<close>

text \<open>The first sixteen words, big-endian.\<close>

fun block_words :: "byte list \<Rightarrow> u32 list" where
  "block_words (a # b # c # d # r) =
     (((push_bit 24 (ucast a) OR push_bit 16 (ucast b)) OR push_bit 8 (ucast c)) OR ucast d) # block_words r"
| "block_words _ = []"

text \<open>The loop for \<open>t\<close> from 16 on: \<open>W\<close> holds the words before \<open>t\<close>; \<open>n\<close> rounds are left.\<close>

definition next_word :: "u32 list \<Rightarrow> u32" where
  "next_word W = SHA1CircularShift 1
     (W ! (length W - 3) XOR W ! (length W - 8) XOR W ! (length W - 14) XOR W ! (length W - 16))"

fun expand :: "nat \<Rightarrow> u32 list \<Rightarrow> u32 list" where
  "expand 0 W = W"
| "expand (Suc n) W = expand n (W @ [next_word W])"

definition sha1_round :: "(u32 \<Rightarrow> u32 \<Rightarrow> u32 \<Rightarrow> u32) \<Rightarrow> u32 \<Rightarrow> sha1_state \<Rightarrow> u32 \<Rightarrow> sha1_state" where
  "sha1_round f k st w = (case st of (A, B, C, D, E) \<Rightarrow>
     (SHA1CircularShift 5 A + f B C D + E + w + k, A, SHA1CircularShift 30 B, C, D))"

definition f_choose :: "u32 \<Rightarrow> u32 \<Rightarrow> u32 \<Rightarrow> u32" where "f_choose B C D = (B AND C) OR (NOT B AND D)"
definition f_parity :: "u32 \<Rightarrow> u32 \<Rightarrow> u32 \<Rightarrow> u32" where "f_parity B C D = B XOR C XOR D"
definition f_major :: "u32 \<Rightarrow> u32 \<Rightarrow> u32 \<Rightarrow> u32" where "f_major B C D = (B AND C) OR (B AND D) OR (C AND D)"

definition sha1_compress :: "sha1_state \<Rightarrow> byte list \<Rightarrow> sha1_state" where
  "sha1_compress st block =
     (let W = expand 64 (block_words block);
          s1 = foldl (sha1_round f_choose 0x5A827999) st (take 20 W);
          s2 = foldl (sha1_round f_parity 0x6ED9EBA1) s1 (take 20 (drop 20 W));
          s3 = foldl (sha1_round f_major 0x8F1BBCDC) s2 (take 20 (drop 40 W));
          s4 = foldl (sha1_round f_parity 0xCA62C1D6) s3 (take 20 (drop 60 W))
      in case st of (H0, H1, H2, H3, H4) \<Rightarrow> case s4 of (A, B, C, D, E) \<Rightarrow>
        (H0 + A, H1 + B, H2 + C, H3 + D, H4 + E))"

definition SHA1ProcessMessageBlock :: "SHA1Context \<Rightarrow> SHA1Context" where
  "SHA1ProcessMessageBlock c = c\<lparr>Message_Digest := sha1_compress (Message_Digest c) (Message_Block c),
     Message_Block_Index := 0\<rparr>"

subsection \<open>Input\<close>

definition put_byte :: "SHA1Context \<Rightarrow> byte \<Rightarrow> SHA1Context option" where
  "put_byte c b = do {
     blk \<leftarrow> wr (Message_Block c) (Message_Block_Index c) b;
     Some (c\<lparr>Message_Block := blk, Message_Block_Index := Message_Block_Index c + 1\<rparr>) }"

text \<open>The body of the loop of \<^verbatim>\<open>SHA1Input\<close> for one byte.\<close>

definition input_byte :: "SHA1Context \<Rightarrow> byte \<Rightarrow> SHA1Context option" where
  "input_byte c b = do {
     c1 \<leftarrow> put_byte c (b AND 0xFF);
     let low = Length_Low c1 + 8;
     let c2 = c1\<lparr>Length_Low := low\<rparr>;
     let c3 = (if low = 0 then
         (let high = Length_High c2 + 1; c2' = c2\<lparr>Length_High := high\<rparr> in
          if high = 0 then c2'\<lparr>Corrupted := True\<rparr> else c2')
        else c2);
     Some (if Message_Block_Index c3 = 64 then SHA1ProcessMessageBlock c3 else c3) }"

fun input_loop :: "SHA1Context \<Rightarrow> byte list \<Rightarrow> SHA1Context option" where
  "input_loop c [] = Some c"
| "input_loop c (b # bs) = (if \<not> Corrupted c then do { c' \<leftarrow> input_byte c b; input_loop c' bs } else Some c)"

definition SHA1Input :: "SHA1Context \<Rightarrow> byte list \<Rightarrow> SHA1Context option" where
  "SHA1Input c message =
     (if message = [] then Some c
      else if Computed c \<or> Corrupted c then Some (c\<lparr>Corrupted := True\<rparr>)
      else input_loop c message)"

subsection \<open>Padding and result\<close>

text \<open>\<^verbatim>\<open>while (Message_Block_Index < n) Message_Block[Message_Block_Index++] = 0\<close>\<close>

function zero_to :: "nat \<Rightarrow> SHA1Context \<Rightarrow> SHA1Context option" where
  "zero_to n c = (if Message_Block_Index c < n then
      (case wr (Message_Block c) (Message_Block_Index c) 0 of
         None \<Rightarrow> None
       | Some blk \<Rightarrow> zero_to n (c\<lparr>Message_Block := blk, Message_Block_Index := Message_Block_Index c + 1\<rparr>))
     else Some c)"
  by pat_completeness auto
termination by (relation "measure (\<lambda>(n, c). n - Message_Block_Index c)") auto

declare zero_to.simps [simp del]

definition be_word :: "u32 \<Rightarrow> byte list" where
  "be_word w = [ucast (drop_bit 24 w AND 0xFF), ucast (drop_bit 16 w AND 0xFF),
     ucast (drop_bit 8 w AND 0xFF), ucast (w AND 0xFF)]"

definition SHA1PadMessage :: "SHA1Context \<Rightarrow> SHA1Context option" where
  "SHA1PadMessage c = do {
     c1 \<leftarrow> (if Message_Block_Index c > 55 then do {
         c1 \<leftarrow> put_byte c 0x80;
         c2 \<leftarrow> zero_to 64 c1;
         zero_to 56 (SHA1ProcessMessageBlock c2) }
       else do {
         c1 \<leftarrow> put_byte c 0x80;
         zero_to 56 c1 });
     blk \<leftarrow> blit (Message_Block c1) 56 (be_word (Length_High c1) @ be_word (Length_Low c1));
     Some (SHA1ProcessMessageBlock (c1\<lparr>Message_Block := blk\<rparr>)) }"

definition SHA1Result :: "SHA1Context \<Rightarrow> (int \<times> SHA1Context) option" where
  "SHA1Result c =
     (if Corrupted c then Some (0, c)
      else if \<not> Computed c then do { c1 \<leftarrow> SHA1PadMessage c; Some (1, c1\<lparr>Computed := True\<rparr>) }
      else Some (1, c))"

subsection \<open>What a context has absorbed\<close>

definition sha1_len :: "nat \<Rightarrow> byte list" where
  "sha1_len n = be_word (of_nat (8 * n div 2 ^ 32)) @ be_word (of_nat (8 * n))"

text \<open>The digest of FIPS 180-1: pad, append the length in bits, process all blocks.\<close>

definition sha1_digest :: "byte list \<Rightarrow> sha1_state" where
  "sha1_digest m = blocks sha1_compress sha1_init_state (m @ md_padding (length m) @ sha1_len (length m))"

definition sha1_rep :: "SHA1Context \<Rightarrow> byte list \<Rightarrow> bool" where
  "sha1_rep c m \<longleftrightarrow> length (Message_Block c) = 64 \<and>
     Message_Digest c = blocks sha1_compress sha1_init_state m \<and>
     Message_Block_Index c = length m mod 64 \<and>
     take (length m mod 64) (Message_Block c) = partial_block m \<and>
     Length_Low c = of_nat (8 * length m) \<and> Length_High c = of_nat (8 * length m div 2 ^ 32) \<and>
     \<not> Computed c \<and> \<not> Corrupted c"

lemma of_nat_u32_eq_0: "(of_nat k :: u32) = 0 \<longleftrightarrow> k mod 2 ^ 32 = 0"
  by (simp add: word_of_nat_eq_0_iff mod_eq_0_iff_dvd)

lemma bit_count_carry:
  "8 * (n + 1) div 2 ^ 32 = 8 * n div 2 ^ 32 + (if 8 * (n + 1) mod 2 ^ 32 = 0 then 1 else (0::nat))"
proof -
  have d: "8 * k div 2 ^ 32 = k div 2 ^ 29" "8 * k mod 2 ^ 32 = 8 * (k mod 2 ^ 29)" for k :: nat
    using div_mult_mult1 [of 8 k "2 ^ 29"] mult_mod_right [of 8 k "2 ^ 29"] by simp_all
  show ?thesis unfolding d by (simp add: div_Suc mod_Suc)
qed

lemma sha1_high_nonzero:
  assumes "8 * (n + 1) < 2 ^ 64" and "8 * (n + 1) mod 2 ^ 32 = (0::nat)"
  shows "(of_nat (8 * (n + 1) div 2 ^ 32) :: u32) \<noteq> 0"
proof -
  have "8 * (n + 1) div 2 ^ 32 < (2 ^ 32 :: nat)" using assms(1) by (simp add: less_mult_imp_div_less)
  moreover have "8 * (n + 1) div 2 ^ 32 \<noteq> (0::nat)"
  proof
    assume z: "8 * (n + 1) div 2 ^ 32 = (0::nat)"
    have "8 * (n + 1) = 2 ^ 32 * (8 * (n + 1) div 2 ^ 32) + 8 * (n + 1) mod 2 ^ 32"
      by (rule mult_div_mod_eq [symmetric])
    also have "\<dots> = 0" unfolding z assms(2) by simp
    finally show False by simp
  qed
  ultimately show ?thesis unfolding of_nat_u32_eq_0 by simp
qed

lemma put_byte_rep:
  assumes "length (Message_Block c) = 64" and "Message_Block_Index c < 64"
  shows "\<exists>blk. put_byte c b = Some (c\<lparr>Message_Block := blk, Message_Block_Index := Message_Block_Index c + 1\<rparr>) \<and>
    length blk = 64 \<and>
    take (Message_Block_Index c + 1) blk = take (Message_Block_Index c) (Message_Block c) @ [b]"
  using assms
  by (intro exI [of _ "(Message_Block c)[Message_Block_Index c := b]"]) (simp add: put_byte_def take_Suc_upd)

text \<open>The length counters after one more byte: the high word changes exactly when the low one wraps.\<close>

lemma sha1_counters:
  assumes "8 * (n + 1) < 2 ^ 64"
  shows "(of_nat (8 * n) + 8 :: u32) = of_nat (8 * (n + 1))"
    and "(of_nat (8 * (n + 1)) :: u32) = 0 \<Longrightarrow> (of_nat (8 * n div 2 ^ 32) + 1 :: u32) = of_nat (8 * (n + 1) div 2 ^ 32)"
    and "(of_nat (8 * (n + 1)) :: u32) = 0 \<Longrightarrow> (of_nat (8 * (n + 1) div 2 ^ 32) :: u32) \<noteq> 0"
    and "(of_nat (8 * (n + 1)) :: u32) \<noteq> 0 \<Longrightarrow> (of_nat (8 * n div 2 ^ 32) :: u32) = of_nat (8 * (n + 1) div 2 ^ 32)"
proof -
  show "(of_nat (8 * n) + 8 :: u32) = of_nat (8 * (n + 1))" by simp
  show "(of_nat (8 * n div 2 ^ 32) + 1 :: u32) = of_nat (8 * (n + 1) div 2 ^ 32)"
    if "(of_nat (8 * (n + 1)) :: u32) = 0"
    using that unfolding of_nat_u32_eq_0 bit_count_carry by (simp only: refl if_True of_nat_add of_nat_1)
  show "(of_nat (8 * (n + 1) div 2 ^ 32) :: u32) \<noteq> 0" if "(of_nat (8 * (n + 1)) :: u32) = 0"
    using sha1_high_nonzero [OF assms] that unfolding of_nat_u32_eq_0 by blast
  show "(of_nat (8 * n div 2 ^ 32) :: u32) = of_nat (8 * (n + 1) div 2 ^ 32)"
    if "(of_nat (8 * (n + 1)) :: u32) \<noteq> 0"
    using that unfolding of_nat_u32_eq_0 bit_count_carry by (simp only: if_False add_0_right)
qed

lemma input_byte_eq:
  assumes "put_byte c b = Some (c\<lparr>Message_Block := blk, Message_Block_Index := i\<rparr>)"
    and "Length_Low c + 8 = lo" and "lo = 0 \<Longrightarrow> Length_High c + 1 = hi" and "lo = 0 \<Longrightarrow> hi \<noteq> 0"
    and "lo \<noteq> 0 \<Longrightarrow> Length_High c = hi"
  shows "input_byte c b = Some (let c3 = c\<lparr>Message_Block := blk, Message_Block_Index := i,
      Length_Low := lo, Length_High := hi\<rparr> in if i = 64 then SHA1ProcessMessageBlock c3 else c3)"
proof -
  have "(0xFF :: byte) = -1" by simp
  then have "b AND 0xFF = b" by (simp only: and.right_neutral)
  then show ?thesis
    using assms by (cases c; cases "lo = 0") (simp_all add: input_byte_def Let_def)
qed

lemma input_byte_counts:
  assumes "sha1_rep c m" and "8 * (length m + 1) < 2 ^ 64"
  shows "\<exists>blk. length blk = 64 \<and> take (length m mod 64 + 1) blk = partial_block m @ [b] \<and>
    input_byte c b = Some (let c3 = c\<lparr>Message_Block := blk, Message_Block_Index := length m mod 64 + 1,
        Length_Low := of_nat (8 * (length m + 1)), Length_High := of_nat (8 * (length m + 1) div 2 ^ 32)\<rparr>
      in if length m mod 64 + 1 = 64 then SHA1ProcessMessageBlock c3 else c3)"
proof -
  note r = assms(1) [unfolded sha1_rep_def]
  have "Message_Block_Index c < 64" using r by simp
  then obtain blk where blk: "put_byte c b =
      Some (c\<lparr>Message_Block := blk, Message_Block_Index := length m mod 64 + 1\<rparr>)" "length blk = 64"
    "take (length m mod 64 + 1) blk = partial_block m @ [b]"
    using put_byte_rep [of c b] r by auto
  have low: "Length_Low c + 8 = of_nat (8 * (length m + 1))" using r sha1_counters(1) [OF assms(2)] by simp
  have high: "of_nat (8 * length m div 2 ^ 32) = Length_High c" using r by simp
  note counters = sha1_counters(2-4) [OF assms(2), unfolded high]
  show ?thesis
    using blk(2,3) input_byte_eq [OF blk(1) low counters] by blast
qed

lemma input_byte_rep:
  assumes "sha1_rep c m" and "8 * (length m + 1) < 2 ^ 64"
  shows "\<exists>c'. input_byte c b = Some c' \<and> sha1_rep c' (m @ [b])"
proof -
  note r = assms(1) [unfolded sha1_rep_def]
  obtain blk where blk: "length blk = 64" "take (length m mod 64 + 1) blk = partial_block m @ [b]"
    and ib: "input_byte c b = Some (let c3 = c\<lparr>Message_Block := blk, Message_Block_Index := length m mod 64 + 1,
        Length_Low := of_nat (8 * (length m + 1)), Length_High := of_nat (8 * (length m + 1) div 2 ^ 32)\<rparr>
      in if length m mod 64 + 1 = 64 then SHA1ProcessMessageBlock c3 else c3)"
    using input_byte_counts [OF assms] by blast
  have lpb: "length (partial_block m @ [b]) = length m mod 64 + 1" by (simp add: partial_block_length)
  show ?thesis
  proof (cases "length m mod 64 + 1 = 64")
    case True
    then have full: "blk = partial_block m @ [b]" using blk by simp
    have z: "length (m @ [b]) mod 64 = 0" using True by (simp add: mod_Suc)
    have "blocks sha1_compress sha1_init_state (m @ [b]) = sha1_compress (Message_Digest c) blk"
      using blocks_split [of sha1_compress sha1_init_state m "[b]"] blocks_one [of blk] blk(1) full r by simp
    with ib True r blk z show ?thesis
      by (simp add: sha1_rep_def SHA1ProcessMessageBlock_def partial_block_full Let_def)
  next
    case False
    have "length m mod 64 < 64" by simp
    then have sh: "length (partial_block m @ [b]) < 64" using False lpb by linarith
    have z: "length (m @ [b]) mod 64 = length m mod 64 + 1" using False by (simp add: mod_Suc)
    have "blocks sha1_compress sha1_init_state (m @ [b]) = Message_Digest c"
      using blocks_split [of sha1_compress sha1_init_state m "[b]"] blocks_short [OF sh] r by simp
    moreover have "partial_block (m @ [b]) = partial_block m @ [b]"
      using partial_block_append [of m "[b]"] partial_block_short [OF sh] by simp
    ultimately show ?thesis
      using ib False r blk z by (simp add: sha1_rep_def Let_def)
  qed
qed

lemma input_loop_rep:
  assumes "sha1_rep c m" and "8 * (length m + length x) < 2 ^ 64"
  shows "\<exists>c'. input_loop c x = Some c' \<and> sha1_rep c' (m @ x)"
  using assms
proof (induction x arbitrary: c m)
  case Nil
  then show ?case by simp
next
  case (Cons b x)
  have "8 * (length m + 1) < 2 ^ 64" using Cons.prems(2) by simp
  then obtain c1 where c1: "input_byte c b = Some c1" "sha1_rep c1 (m @ [b])"
    using input_byte_rep [OF Cons.prems(1)] by blast
  have "8 * (length (m @ [b]) + length x) < 2 ^ 64" using Cons.prems(2) by simp
  from Cons.IH [OF c1(2) this] c1(1) Cons.prems(1) show ?case
    by (auto simp: sha1_rep_def)
qed

lemma SHA1Input_rep:
  assumes "sha1_rep c m" and "8 * length (m @ x) < 2 ^ 64"
  shows "\<exists>c'. SHA1Input c x = Some c' \<and> sha1_rep c' (m @ x)"
proof -
  have "8 * (length m + length x) < 2 ^ 64" using assms(2) by simp
  from input_loop_rep [OF assms(1) this] assms(1) show ?thesis
    by (auto simp: SHA1Input_def sha1_rep_def)
qed

lemma zero_to_spec:
  assumes "Message_Block_Index c \<le> n" and "n \<le> length (Message_Block c)"
  shows "zero_to n c = Some (c\<lparr>Message_Block := take (Message_Block_Index c) (Message_Block c) @
      replicate (n - Message_Block_Index c) 0 @ drop n (Message_Block c), Message_Block_Index := n\<rparr>)"
  using assms
proof (induction n c rule: zero_to.induct)
  case (1 n c)
  let ?i = "Message_Block_Index c" and ?b = "Message_Block c"
  show ?case
  proof (cases "?i < n")
    case True
    then have w: "wr ?b ?i 0 = Some (?b[?i := 0])" using 1(3) by simp
    have t: "take (Suc ?i) (?b[?i := 0]) = take ?i ?b @ [0]" using True 1(3) by (simp add: take_Suc_upd)
    have "n - ?i = Suc (n - Suc ?i)" using True by simp
    with 1(1) [OF True w] True 1(3) w t show ?thesis
      by (simp add: zero_to.simps [of n c])
  next
    case False
    with 1(2) have "?i = n" by simp
    then show ?thesis by (simp add: zero_to.simps [of n c])
  qed
qed

lemma sha1_len_length: "length (sha1_len n) = 8"
  by (simp add: sha1_len_def be_word_def)

text \<open>Both branches of \<^verbatim>\<open>SHA1PadMessage\<close> hash the last partial block with its padding and length.\<close>

lemma SHA1PadMessage_rep:
  assumes "sha1_rep c m"
  shows "\<exists>c'. SHA1PadMessage c = Some c' \<and> Message_Digest c' = sha1_digest m \<and> Corrupted c' = Corrupted c"
proof -
  note r = assms [unfolded sha1_rep_def]
  let ?i = "length m mod 64" and ?pb = "partial_block m" and ?len = "sha1_len (length m)"
  have i: "?i < 64" by simp
  have lens: "length ?pb = ?i" "length ?len = 8" by (simp_all add: partial_block_length sha1_len_length)
  have goal: "sha1_digest m = blocks sha1_compress (Message_Digest c) (?pb @ md_padding (length m) @ ?len)"
    using blocks_split [of sha1_compress sha1_init_state m] r by (simp add: sha1_digest_def)
  obtain blk where blk: "put_byte c 0x80 = Some (c\<lparr>Message_Block := blk, Message_Block_Index := ?i + 1\<rparr>)"
    "length blk = 64" "take (?i + 1) blk = ?pb @ [0x80]"
    using put_byte_rep [of c "0x80"] r i by auto
  let ?c1 = "c\<lparr>Message_Block := blk, Message_Block_Index := ?i + 1\<rparr>"
  have wl: "be_word (Length_High c) @ be_word (Length_Low c) = ?len" using r by (simp add: sha1_len_def)
  show ?thesis
  proof (cases "?i > 55")
    case True
    let ?B = "?pb @ 0x80 # replicate (63 - ?i) 0"
    have z1: "zero_to 64 ?c1 = Some (?c1\<lparr>Message_Block := ?B, Message_Block_Index := 64\<rparr>)"
      using zero_to_spec [of ?c1 64] blk i by simp
    have lB: "length ?B = 64" using lens i by simp
    let ?c3 = "SHA1ProcessMessageBlock (?c1\<lparr>Message_Block := ?B, Message_Block_Index := 64\<rparr>)"
    have z2: "zero_to 56 ?c3 = Some (?c3\<lparr>Message_Block := replicate 56 0 @ drop 56 ?B, Message_Block_Index := 56\<rparr>)"
      using zero_to_spec [of ?c3 56] lB by (simp add: SHA1ProcessMessageBlock_def del: length_append)
    have "blit (replicate 56 0 @ b8) 56 ?len = Some (replicate 56 0 @ ?len)" if "length b8 = 8" for b8
      using that lens by (simp add: blit_def)
    moreover have "length (drop 56 ?B) = 8" using lB by (simp only: length_drop)
    ultimately have "blit (replicate 56 0 @ drop 56 ?B) 56 ?len = Some (replicate 56 0 @ ?len)" by blast
    moreover have "md_padding (length m) = 0x80 # replicate (63 - ?i) 0 @ replicate 56 0"
      using True i by (simp add: md_padding_def flip: replicate_add)
    then have "sha1_digest m = sha1_compress (sha1_compress (Message_Digest c) ?B) (replicate 56 0 @ ?len)"
      using goal blocks_append [of ?B sha1_compress "Message_Digest c" "replicate 56 0 @ ?len"]
        blocks_one [OF lB, of sha1_compress] blocks_one [of "replicate 56 0 @ ?len" sha1_compress] lB lens
      by simp
    ultimately show ?thesis
      using True blk(1) z1 z2 r wl by (simp add: SHA1PadMessage_def SHA1ProcessMessageBlock_def)
  next
    case False
    let ?P = "?pb @ 0x80 # replicate (55 - ?i) 0"
    have z1: "zero_to 56 ?c1 = Some (?c1\<lparr>Message_Block := ?P @ drop 56 blk, Message_Block_Index := 56\<rparr>)"
      using zero_to_spec [of ?c1 56] blk False by simp
    have lP: "length ?P = 56" using lens False by simp
    have "blit (P @ drop 56 blk) 56 ?len = Some (P @ ?len)" if "length P = 56" for P
      using that lens(2) blk(2) by (simp add: blit_def)
    from this [OF lP] have "blit (?P @ drop 56 blk) 56 ?len = Some (?P @ ?len)" .
    moreover have "md_padding (length m) = 0x80 # replicate (55 - ?i) 0"
      using False by (simp add: md_padding_def)
    then have "sha1_digest m = sha1_compress (Message_Digest c) (?P @ ?len)"
      using goal blocks_one [of "?P @ ?len" sha1_compress] lP lens by simp
    ultimately show ?thesis
      using False blk(1) z1 r wl by (simp add: SHA1PadMessage_def SHA1ProcessMessageBlock_def)
  qed
qed

lemma SHA1Result_rep:
  assumes "sha1_rep c m"
  shows "\<exists>c'. SHA1Result c = Some (1, c') \<and> Message_Digest c' = sha1_digest m \<and> Computed c' \<and> \<not> Corrupted c'"
  using SHA1PadMessage_rep [OF assms] assms by (auto simp: SHA1Result_def sha1_rep_def)

lemma SHA1Reset_rep: "length (Message_Block c) = 64 \<Longrightarrow> sha1_rep (SHA1Reset c) []"
  by (simp add: sha1_rep_def SHA1Reset_def blocks_short partial_block_def)

definition sha1_zero :: SHA1Context where
  "sha1_zero = \<lparr>Message_Digest = (0, 0, 0, 0, 0), Length_Low = 0, Length_High = 0,
     Message_Block = replicate 64 0, Message_Block_Index = 0, Computed = False, Corrupted = False\<rparr>"

interpretation sha1: stream_digest "SHA1Reset sha1_zero" SHA1Input sha1_rep
  "\<lambda>c. map_option (\<lambda>(r, c'). (r, Message_Digest c')) (SHA1Result c)"
  "\<lambda>m. Some (1, sha1_digest m)" "\<lambda>_. True" "\<lambda>m. 8 * length m < 2 ^ 64"
proof unfold_locales
  show "sha1_rep (SHA1Reset sha1_zero) []" by (rule SHA1Reset_rep) (simp add: sha1_zero_def)
  show "\<exists>c'. SHA1Input c x = Some c' \<and> sha1_rep c' (m @ x)"
    if "sha1_rep c m" "8 * length (m @ x) < 2 ^ 64" for c m x
    using SHA1Input_rep [OF that] .
  show "map_option (\<lambda>(r, c'). (r, Message_Digest c')) (SHA1Result c) = Some (1, sha1_digest m)"
    if "sha1_rep c m" for c m
    using SHA1Result_rep [OF that] by auto
qed auto

subsection \<open>Properties\<close>

text \<open>C21: SHA-1 is correct as a stream: however a message of fewer than \<open>2^64\<close> bits is cut into chunks,
  \<^verbatim>\<open>SHA1Input\<close> after \<^verbatim>\<open>SHA1Reset\<close> never writes outside the message block and never marks the context
  corrupted, and \<^verbatim>\<open>SHA1Result\<close> returns \<open>1\<close> with the digest FIPS 180-1 defines on the whole message.
  Asking again returns the same digest.\<close>

theorem sha1_streaming_correct:
  assumes "length (Message_Block c) = 64" and "8 * length (concat xs) < 2 ^ 64"
  shows "\<exists>c1 c2. feed SHA1Input (SHA1Reset c) xs = Some c1 \<and> SHA1Result c1 = Some (1, c2) \<and>
    Message_Digest c2 = sha1_digest (concat xs) \<and> SHA1Result c2 = Some (1, c2)"
proof -
  obtain c1 where c1: "feed SHA1Input (SHA1Reset c) xs = Some c1" "sha1_rep c1 (concat xs)"
    using sha1.feed_rep [OF SHA1Reset_rep [OF assms(1)], of xs] assms(2) by (auto simp: list_all_iff)
  obtain c2 where "SHA1Result c1 = Some (1, c2)" "Message_Digest c2 = sha1_digest (concat xs)"
    "Computed c2" "\<not> Corrupted c2"
    using SHA1Result_rep [OF c1(2)] by blast
  moreover from this have "SHA1Result c2 = Some (1, c2)" by (simp add: SHA1Result_def)
  ultimately show ?thesis using c1(1) by blast
qed

theorem sha1_streaming_correct_witness:
  "\<exists>c1 c2. feed SHA1Input (SHA1Reset sha1_zero) [[97], [98, 99]] = Some c1 \<and> SHA1Result c1 = Some (1, c2) \<and>
    Message_Digest c2 = sha1_digest [97, 98, 99] \<and> SHA1Result c2 = Some (1, c2)"
  using sha1_streaming_correct [of sha1_zero "[[97], [98, 99]]"] by (simp add: sha1_zero_def)

text \<open>Input after the result is an error that sticks: it marks the context corrupted without touching
  the digest, every later input leaves it corrupted, and \<^verbatim>\<open>SHA1Result\<close> then returns \<open>0\<close>; only
  \<^verbatim>\<open>SHA1Reset\<close> clears it.\<close>

theorem sha1_input_after_result:
  assumes "SHA1Result c = Some (1, c1)" and "x \<noteq> []"
  shows "\<exists>c2. SHA1Input c1 x = Some c2 \<and> Message_Digest c2 = Message_Digest c1 \<and>
    (\<forall>ys. feed SHA1Input c2 ys = Some c2) \<and> SHA1Result c2 = Some (0, c2) \<and> \<not> Corrupted (SHA1Reset c2)"
proof -
  have comp: "Computed c1"
    using assms(1) by (auto simp: SHA1Result_def bind_Some_iff split: if_splits)
  let ?c2 = "c1\<lparr>Corrupted := True\<rparr>"
  have stuck: "SHA1Input ?c2 y = Some ?c2" for y by (simp add: SHA1Input_def)
  have "feed SHA1Input ?c2 ys = Some ?c2" for ys by (induction ys) (simp_all add: stuck)
  with assms(2) comp show ?thesis
    by (intro exI [of _ ?c2]) (simp add: SHA1Input_def SHA1Result_def SHA1Reset_def)
qed

theorem sha1_input_after_result_witness:
  "\<exists>c1 c2. SHA1Result (SHA1Reset sha1_zero) = Some (1, c1) \<and> SHA1Input c1 [1] = Some c2 \<and>
    SHA1Result c2 = Some (0, c2)"
proof -
  have "sha1_rep (SHA1Reset sha1_zero) []" by (rule SHA1Reset_rep) (simp add: sha1_zero_def)
  then obtain c1 where "SHA1Result (SHA1Reset sha1_zero) = Some (1, c1)" using SHA1Result_rep by blast
  with sha1_input_after_result [OF this, of "[1]"] show ?thesis by auto
qed

end
