(* ===== verification/Mem_Helper.thy ===== *)
theory Mem_Helper
  imports Dlist
begin

text \<open>
  The memory helper of \<^verbatim>\<open>comlib/mem_helper.c\<close>, the allocator behind \<^verbatim>\<open>xmalloc\<close>: pools of blocks of
  size \<open>2^s\<close>, each with a list of free and a list of used blocks and with counters. Blocks are carved
  from super blocks obtained from \<^verbatim>\<open>malloc\<close>; a block is named by a number that stands for its header and
  for the pointer behind it. The lists are the sequences the links of \<^verbatim>\<open>dlist.h\<close> represent (theory
  \<open>Dlist\<close>): taking the first entry out and putting it in front of another list is
  \<open>dl.move_to_front\<close> there. The tracking of file names is compiled in (\<^verbatim>\<open>CONFIG_MEM_HELPER_TRACKING\<close>).
\<close>

definition SIGN_MASK :: u32 where "SIGN_MASK = 0xffff0000"
definition SIZE_MASK :: u32 where "SIZE_MASK = 0x0000ffff"
definition MEMBLK_SIGN :: u32 where "MEMBLK_SIGN = 0x55aa0000"
definition SUPER_BLOCK_SIGN :: u32 where "SUPER_BLOCK_SIGN = 0x5a5a0000"
definition MEM_POOLS_COUNT :: nat where "MEM_POOLS_COUNT = 22"
definition MAX_TRACKING_FILES :: nat where "MAX_TRACKING_FILES = 512"
definition SIZEOF_MEMBLK_HDR :: nat where "SIZEOF_MEMBLK_HDR = 20"

definition MEMBLK_CHECK :: "u32 \<Rightarrow> bool" where "MEMBLK_CHECK flags \<longleftrightarrow> flags AND SIGN_MASK = MEMBLK_SIGN"
definition MEMBLK_SIZE :: "u32 \<Rightarrow> nat" where "MEMBLK_SIZE flags = unat (flags AND SIZE_MASK)"

definition mpool_increase :: "nat list" where
  "mpool_increase = [0, 0, 8, 8, 8, 8, 8, 8, 8, 8, 8, 8, 4, 2, 1, 1, 1, 1, 1, 1, 1, 1,
     0, 0, 0, 0, 0, 0, 0, 0, 0, 0]"

text \<open>The static variables of the module, the headers (\<open>hflags\<close>, \<open>hfile\<close>, \<open>hline\<close>), what the blocks hold
  (\<open>payload\<close>), which blocks lie in which super block, and the first number no block has yet.\<close>

record mh =
  mpool_free_list :: "nat \<Rightarrow> nat list"
  mpool_used_list :: "nat \<Rightarrow> nat list"
  mpool_used :: "nat \<Rightarrow> nat"
  mpool_free :: "nat \<Rightarrow> nat"
  mpool_max_used :: "nat \<Rightarrow> nat"
  mpool_count :: "nat \<Rightarrow> nat"
  mh_files :: "char list list"
  hflags :: "nat \<rightharpoonup> u32"
  hfile :: "nat \<Rightarrow> nat"
  hline :: "nat \<Rightarrow> int"
  payload :: "nat \<Rightarrow> char list"
  parts :: "nat \<Rightarrow> nat list"
  brk :: nat

text \<open>The C library behind it, per call: which sizes \<^verbatim>\<open>malloc\<close> grants and what fresh memory holds.\<close>

record os =
  os_grants :: "nat \<Rightarrow> bool"
  os_junk :: char

definition mh_init_all :: "mh \<Rightarrow> mh" where
  "mh_init_all st = st\<lparr>mpool_free_list := (\<lambda>_. []), mpool_used_list := (\<lambda>_. []), mpool_used := (\<lambda>_. 0),
     mpool_free := (\<lambda>_. 0), mpool_max_used := (\<lambda>_. 0), mpool_count := (\<lambda>_. 0), mh_files := []\<rparr>"

text \<open>\<^verbatim>\<open>free\<close> of a super block: its header and the blocks carved from it are gone.\<close>

definition free_super :: "nat \<Rightarrow> mh \<Rightarrow> mh" where
  "free_super b st = st\<lparr>hflags := (hflags st) |` (- set (b # parts st b))\<rparr>"

fun free_all_loop :: "nat list \<Rightarrow> mh \<Rightarrow> mh" where
  "free_all_loop [] st = st"
| "free_all_loop (b # bs) st =
     free_all_loop bs (free_super b (st\<lparr>mpool_free_list := (mpool_free_list st)(0 := bs)\<rparr>))"

definition mh_free_all :: "mh \<Rightarrow> mh" where
  "mh_free_all st = mh_init_all (free_all_loop (mpool_free_list st 0) st)"

fun count_list :: "nat list \<Rightarrow> nat" where
  "count_list [] = 0"
| "count_list (x # xs) = count_list xs + 1"

text \<open>The messages of \<^verbatim>\<open>mh_diagnostic\<close>: which of the three checks fails for which pool.\<close>

datatype diag = FreeCount nat nat nat | UsedCount nat nat nat | TotalCount nat nat nat nat

definition diagnose_pool :: "mh \<Rightarrow> nat \<Rightarrow> diag list" where
  "diagnose_pool st i =
     (let cf = count_list (mpool_free_list st i); cu = count_list (mpool_used_list st i);
          ct = mpool_count st i * mpool_increase ! i
      in (if mpool_free st i \<noteq> cf then [FreeCount i (mpool_free st i) cf] else []) @
         (if mpool_used st i \<noteq> cu then [UsedCount i (mpool_used st i) cu] else []) @
         (if ct \<noteq> mpool_free st i + mpool_used st i
          then [TotalCount i (mpool_free st i) (mpool_used st i) ct] else []))"

definition mh_diagnostic :: "mh \<Rightarrow> diag list" where
  "mh_diagnostic st = concat (map (diagnose_pool st) [1..<MEM_POOLS_COUNT])"

text \<open>The totals \<^verbatim>\<open>mh_dump\<close> prints: total, free and used size.\<close>

definition mh_dump :: "mh \<Rightarrow> nat \<times> nat \<times> nat" where
  "mh_dump st =
     (\<Sum>i\<leftarrow>[1..<MEM_POOLS_COUNT]. 2 ^ i * (mpool_free st i + mpool_used st i),
      \<Sum>i\<leftarrow>[1..<MEM_POOLS_COUNT]. 2 ^ i * mpool_free st i,
      \<Sum>i\<leftarrow>[1..<MEM_POOLS_COUNT]. 2 ^ i * mpool_used st i)"

text \<open>The loop of \<^verbatim>\<open>alloc_memblk\<close> that initializes the blocks and links them at the tail.\<close>

fun put_blocks :: "os \<Rightarrow> nat \<Rightarrow> nat list \<Rightarrow> mh \<Rightarrow> mh" where
  "put_blocks os s [] st = st"
| "put_blocks os s (b # bs) st = put_blocks os s bs
     (st\<lparr>hflags := (hflags st)(b \<mapsto> MEMBLK_SIGN OR (of_nat s AND SIZE_MASK)),
         payload := (payload st)(b := replicate (2 ^ s) (os_junk os)),
         mpool_free_list := (mpool_free_list st)(s := mpool_free_list st s @ [b]),
         mpool_free := (mpool_free st)(s := mpool_free st s + 1)\<rparr>)"

definition alloc_memblk :: "os \<Rightarrow> nat \<Rightarrow> mh \<Rightarrow> mh" where
  "alloc_memblk os s st =
     (if mpool_increase ! s > 0 then
        (let block_size = SIZEOF_MEMBLK_HDR + 2 ^ s;
             required_size = SIZEOF_MEMBLK_HDR + block_size * mpool_increase ! s;
             b = brk st; bs = [b + 1..<b + 1 + mpool_increase ! s]
         in if os_grants os required_size then
              put_blocks os s bs
                (st\<lparr>brk := b + 1 + mpool_increase ! s, parts := (parts st)(b := bs),
                    hflags := (hflags st)(b \<mapsto> SUPER_BLOCK_SIGN),
                    mpool_free_list := (mpool_free_list st)(0 := mpool_free_list st 0 @ [b]),
                    mpool_count := (mpool_count st)(s := mpool_count st s + 1)\<rparr>)
            else st)
      else st)"

text \<open>Moving the first free block of pool \<open>s\<close> to the used list.\<close>

definition take_free :: "nat \<Rightarrow> mh \<Rightarrow> nat option \<times> mh" where
  "take_free s st = (case mpool_free_list st s of
      [] \<Rightarrow> (None, st)
    | b # bs \<Rightarrow>
        (let used = mpool_used st s + 1 in
         (Some b, st\<lparr>mpool_free_list := (mpool_free_list st)(s := bs),
            mpool_free := (mpool_free st)(s := mpool_free st s - 1),
            mpool_used_list := (mpool_used_list st)(s := b # mpool_used_list st s),
            mpool_used := (mpool_used st)(s := used),
            mpool_max_used := (mpool_max_used st)(s := max (mpool_max_used st s) used)\<rparr>)))"

definition memalloc :: "os \<Rightarrow> nat \<Rightarrow> mh \<Rightarrow> nat option \<times> mh" where
  "memalloc os s st = take_free s (if mpool_free_list st s = [] then alloc_memblk os s st else st)"

fun is_entry_in_used :: "nat \<Rightarrow> nat list \<Rightarrow> bool" where
  "is_entry_in_used h [] = False"
| "is_entry_in_used h (x # xs) = (if x = h then True else is_entry_in_used h xs)"

text \<open>\<^verbatim>\<open>memfree\<close>; a size outside the pool arrays (a corrupted header) is a fault. The boolean says whether
  the block was in use (else the code reports it as already freed).\<close>

definition memfree :: "nat \<Rightarrow> mh \<Rightarrow> (bool \<times> mh) option" where
  "memfree b st = do {
     fl \<leftarrow> hflags st b;
     let s = MEMBLK_SIZE fl;
     if MEM_POOLS_COUNT \<le> s then None
     else if is_entry_in_used b (mpool_used_list st s) then
       Some (True, st\<lparr>mpool_used_list := (mpool_used_list st)(s := remove1 b (mpool_used_list st s)),
         mpool_used := (mpool_used st)(s := mpool_used st s - 1),
         mpool_free_list := (mpool_free_list st)(s := b # mpool_free_list st s),
         mpool_free := (mpool_free st)(s := mpool_free st s + 1)\<rparr>)
     else Some (False, st) }"

text \<open>\<^verbatim>\<open>memblk_tracking\<close>: the index of the file name in the table, which grows up to its size.\<close>

fun find_file :: "char list \<Rightarrow> char list list \<Rightarrow> nat" where
  "find_file f [] = 0"
| "find_file f (x # xs) = (if x = f then 0 else find_file f xs + 1)"

definition memblk_tracking :: "os \<Rightarrow> nat \<Rightarrow> char list \<Rightarrow> int \<Rightarrow> mh \<Rightarrow> mh" where
  "memblk_tracking os b file line st =
     (let i = find_file file (mh_files st) in
      st\<lparr>mh_files := (if i < MAX_TRACKING_FILES \<and> i = length (mh_files st) \<and> os_grants os (length file + 1)
           then mh_files st @ [file] else mh_files st),
         hfile := (hfile st)(b := i), hline := (hline st)(b := line)\<rparr>)"

text \<open>The loop of \<^verbatim>\<open>mh_malloc\<close> from pool \<open>i\<close> on.\<close>

function malloc_loop :: "os \<Rightarrow> nat \<Rightarrow> char list \<Rightarrow> int \<Rightarrow> nat \<Rightarrow> mh \<Rightarrow> nat option \<times> mh" where
  "malloc_loop os n file line i st =
     (if i < MEM_POOLS_COUNT \<and> n > 0 then
        (if n \<le> 2 ^ i then
           (case memalloc os i st of
              (Some b, st1) \<Rightarrow> (Some b, memblk_tracking os b file line st1)
            | (None, st1) \<Rightarrow> malloc_loop os n file line (i + 1) st1)
         else malloc_loop os n file line (i + 1) st)
      else (None, st))"
  by pat_completeness auto
termination by (relation "measure (\<lambda>(os, n, file, line, i, st). MEM_POOLS_COUNT - i)") auto

declare malloc_loop.simps [simp del]

definition mh_malloc :: "os \<Rightarrow> nat \<Rightarrow> char list \<Rightarrow> int \<Rightarrow> mh \<Rightarrow> nat option \<times> mh" where
  "mh_malloc os n file line st = malloc_loop os n file line 3 st"

text \<open>\<^verbatim>\<open>memcpy\<close> to the start of a block.\<close>

definition store :: "nat \<Rightarrow> char list \<Rightarrow> mh \<Rightarrow> mh option" where
  "store b xs st = do { p \<leftarrow> blit (payload st b) 0 xs; Some (st\<lparr>payload := (payload st)(b := p)\<rparr>) }"

definition mh_strdup :: "os \<Rightarrow> char list \<Rightarrow> char list \<Rightarrow> int \<Rightarrow> mh \<Rightarrow> (nat option \<times> mh) option" where
  "mh_strdup os str file line st = (case mh_malloc os (length str + 1) file line st of
      (None, st1) \<Rightarrow> Some (None, st1)
    | (Some b, st1) \<Rightarrow> do { st2 \<leftarrow> store b (str @ [NUL]) st1; Some (Some b, st2) })"

text \<open>The product is computed in the 32 bits of \<^verbatim>\<open>size_t\<close>.\<close>

definition mh_calloc :: "os \<Rightarrow> nat \<Rightarrow> nat \<Rightarrow> char list \<Rightarrow> int \<Rightarrow> mh \<Rightarrow> (nat option \<times> mh) option" where
  "mh_calloc os nmemb n file line st =
     (let total = nmemb * n mod 2 ^ 32 in
      case mh_malloc os total file line st of
        (None, st1) \<Rightarrow> Some (None, st1)
      | (Some b, st1) \<Rightarrow> do { st2 \<leftarrow> store b (replicate total NUL) st1; Some (Some b, st2) })"

definition mh_free :: "nat option \<Rightarrow> mh \<Rightarrow> mh option" where
  "mh_free ptr st = (case ptr of
      None \<Rightarrow> Some st
    | Some b \<Rightarrow> do {
        fl \<leftarrow> hflags st b;
        if MEMBLK_CHECK fl then do { (_, st1) \<leftarrow> memfree b st; Some st1 } else Some st })"

definition mh_realloc :: "os \<Rightarrow> nat option \<Rightarrow> nat \<Rightarrow> char list \<Rightarrow> int \<Rightarrow> mh \<Rightarrow> (nat option \<times> mh) option" where
  "mh_realloc os ptr n file line st = (case ptr of
      Some b \<Rightarrow> do {
        fl \<leftarrow> hflags st b;
        if \<not> MEMBLK_CHECK fl then Some (None, st)
        else (let my_size = 2 ^ MEMBLK_SIZE fl in
          if my_size < n then
            (case mh_malloc os n file line st of
               (None, st1) \<Rightarrow> do { st2 \<leftarrow> mh_free ptr st1; Some (None, st2) }
             | (Some b', st1) \<Rightarrow> do {
                 src \<leftarrow> (if my_size \<le> length (payload st1 b) then Some (take my_size (payload st1 b)) else None);
                 st2 \<leftarrow> store b' src st1;
                 st3 \<leftarrow> mh_free ptr st2;
                 Some (Some b', st3) })
          else Some (ptr, st)) }
    | None \<Rightarrow> if n \<noteq> 0 then Some (mh_malloc os n file line st) else Some (None, st))"

subsection \<open>The invariant\<close>

abbreviation mflag :: "nat \<Rightarrow> u32" where
  "mflag s \<equiv> MEMBLK_SIGN OR (of_nat s AND SIZE_MASK)"

text \<open>Pool \<open>i\<close>: the counters are the lengths of the lists, the number of blocks is what the super blocks
  gave, and every block carries the header of its pool and has \<open>2^i\<close> bytes.\<close>

definition pool_ok :: "mh \<Rightarrow> nat \<Rightarrow> bool" where
  "pool_ok st i \<longleftrightarrow>
     mpool_free st i = length (mpool_free_list st i) \<and>
     mpool_used st i = length (mpool_used_list st i) \<and>
     mpool_free st i + mpool_used st i = mpool_count st i * mpool_increase ! i \<and>
     mpool_used st i \<le> mpool_max_used st i \<and>
     distinct (mpool_free_list st i @ mpool_used_list st i) \<and>
     (\<forall>b \<in> set (mpool_free_list st i @ mpool_used_list st i).
        hflags st b = Some (mflag i) \<and> length (payload st b) = 2 ^ i)"

definition super_ok :: "mh \<Rightarrow> bool" where
  "super_ok st \<longleftrightarrow> distinct (mpool_free_list st 0) \<and>
     (\<forall>b \<in> set (mpool_free_list st 0). hflags st b = Some SUPER_BLOCK_SIGN) \<and>
     dom (hflags st) \<subseteq> (\<Union>b \<in> set (mpool_free_list st 0). set (b # parts st b)) \<and>
     (\<forall>b \<in> dom (hflags st). b < brk st)"

definition mh_inv :: "mh \<Rightarrow> bool" where
  "mh_inv st \<longleftrightarrow> (\<forall>i. 1 \<le> i \<and> i < MEM_POOLS_COUNT \<longrightarrow> pool_ok st i) \<and> super_ok st"

definition mflag_ok :: "nat \<Rightarrow> bool" where
  "mflag_ok i \<longleftrightarrow> MEMBLK_SIZE (mflag i) = i \<and> MEMBLK_CHECK (mflag i) \<and> mflag i \<noteq> SUPER_BLOCK_SIGN"

lemma mflag_all: "list_all mflag_ok [0..<22]"
  by code_simp

lemma mflag_simps [simp]:
  assumes "i < MEM_POOLS_COUNT"
  shows "MEMBLK_SIZE (mflag i) = i" "MEMBLK_CHECK (mflag i)" "mflag i \<noteq> SUPER_BLOCK_SIGN"
proof -
  have "i \<in> set [0..<22]" using assms by (simp only: set_upt atLeastLessThan_iff le0 simp_thms MEM_POOLS_COUNT_def)
  then have "mflag_ok i" using mflag_all unfolding list_all_iff by blast
  then show "MEMBLK_SIZE (mflag i) = i" "MEMBLK_CHECK (mflag i)" "mflag i \<noteq> SUPER_BLOCK_SIGN"
    by (simp_all only: mflag_ok_def simp_thms)
qed

lemma super_not_check: "\<not> MEMBLK_CHECK SUPER_BLOCK_SIGN"
  by code_simp

lemma count_list_length: "count_list xs = length xs"
  by (induction xs) simp_all

lemma in_used_iff: "is_entry_in_used h xs \<longleftrightarrow> h \<in> set xs"
  by (induction xs) auto

lemma mh_inv_pool: "mh_inv st \<Longrightarrow> 1 \<le> i \<Longrightarrow> i < MEM_POOLS_COUNT \<Longrightarrow> pool_ok st i"
  by (simp add: mh_inv_def)

lemma pool_ok_block:
  "pool_ok st i \<Longrightarrow> b \<in> set (mpool_free_list st i @ mpool_used_list st i) \<Longrightarrow>
    hflags st b = Some (mflag i) \<and> length (payload st b) = 2 ^ i"
  by (auto simp: pool_ok_def)

text \<open>A block of one pool is in no other: its header names its pool.\<close>

lemma pools_disjoint:
  assumes "mh_inv st" and "1 \<le> i" "i < MEM_POOLS_COUNT" "1 \<le> j" "j < MEM_POOLS_COUNT"
    and "b \<in> set (mpool_free_list st i @ mpool_used_list st i)"
    and "b \<in> set (mpool_free_list st j @ mpool_used_list st j)"
  shows "i = j"
proof -
  have "hflags st b = Some (mflag i)" "hflags st b = Some (mflag j)"
    using pool_ok_block [OF mh_inv_pool] assms by blast+
  then have "MEMBLK_SIZE (mflag i) = MEMBLK_SIZE (mflag j)" by simp
  with assms(3,5) show ?thesis by (simp only: mflag_simps)
qed

lemma put_blocks_fields [simp]:
  "mpool_free_list (put_blocks os s bs st) = (mpool_free_list st)(s := mpool_free_list st s @ bs)"
  "mpool_free (put_blocks os s bs st) = (mpool_free st)(s := mpool_free st s + length bs)"
  "mpool_used_list (put_blocks os s bs st) = mpool_used_list st"
  "mpool_used (put_blocks os s bs st) = mpool_used st"
  "mpool_max_used (put_blocks os s bs st) = mpool_max_used st"
  "mpool_count (put_blocks os s bs st) = mpool_count st"
  "mh_files (put_blocks os s bs st) = mh_files st"
  "parts (put_blocks os s bs st) = parts st"
  "brk (put_blocks os s bs st) = brk st"
  "hflags (put_blocks os s bs st) x = (if x \<in> set bs then Some (mflag s) else hflags st x)"
  "payload (put_blocks os s bs st) x =
     (if x \<in> set bs then replicate (2 ^ s) (os_junk os) else payload st x)"
  by (induction bs arbitrary: st) (auto simp: fun_upd_def)

lemma put_blocks_dom: "dom (hflags (put_blocks os s bs st)) = set bs \<union> dom (hflags st)"
  by (auto simp: dom_def split: if_splits)

lemma alloc_memblk_None:
  "\<not> (0 < mpool_increase ! s \<and> os_grants os (SIZEOF_MEMBLK_HDR + (SIZEOF_MEMBLK_HDR + 2 ^ s) * mpool_increase ! s))
    \<Longrightarrow> alloc_memblk os s st = st"
  by (auto simp: alloc_memblk_def Let_def)

text \<open>What a granted super block changes.\<close>

lemma alloc_memblk_granted:
  assumes "0 < mpool_increase ! s"
    and "os_grants os (SIZEOF_MEMBLK_HDR + (SIZEOF_MEMBLK_HDR + 2 ^ s) * mpool_increase ! s)" and "s \<noteq> 0"
    and "bs = [brk st + 1..<brk st + 1 + mpool_increase ! s]" and "st' = alloc_memblk os s st"
  shows "mpool_free_list st' = (mpool_free_list st)(0 := mpool_free_list st 0 @ [brk st], s := mpool_free_list st s @ bs)"
    and "mpool_free st' = (mpool_free st)(s := mpool_free st s + length bs)"
    and "mpool_used_list st' = mpool_used_list st" and "mpool_used st' = mpool_used st"
    and "mpool_max_used st' = mpool_max_used st"
    and "mpool_count st' = (mpool_count st)(s := mpool_count st s + 1)"
    and "parts st' = (parts st)(brk st := bs)" and "brk st' = brk st + 1 + length bs"
    and "hflags st' x = (if x \<in> set bs then Some (mflag s) else if x = brk st then Some SUPER_BLOCK_SIGN else hflags st x)"
    and "payload st' x = (if x \<in> set bs then replicate (2 ^ s) (os_junk os) else payload st x)"
    and "length bs = mpool_increase ! s" and "x \<in> set bs \<longleftrightarrow> brk st < x \<and> x < brk st + 1 + mpool_increase ! s"
    and "distinct bs"
  using assms by (auto simp: alloc_memblk_def Let_def)

lemma alloc_memblk_frame:
  assumes "super_ok st" and "x \<in> dom (hflags st)" and "s \<noteq> 0"
  shows "hflags (alloc_memblk os s st) x = hflags st x \<and> payload (alloc_memblk os s st) x = payload st x"
proof -
  have "x < brk st" using assms by (simp add: super_ok_def)
  then show ?thesis
    by (simp add: alloc_memblk_def Let_def)
qed

lemma alloc_memblk_pool:
  assumes "mh_inv st" and "1 \<le> s" "s < MEM_POOLS_COUNT" and "1 \<le> i" "i < MEM_POOLS_COUNT"
  shows "pool_ok (alloc_memblk os s st) i"
proof (cases "0 < mpool_increase ! s \<and>
    os_grants os (SIZEOF_MEMBLK_HDR + (SIZEOF_MEMBLK_HDR + 2 ^ s) * mpool_increase ! s)")
  case False
  then show ?thesis using assms by (simp add: alloc_memblk_None mh_inv_pool)
next
  case True
  have "s \<noteq> 0" using assms(2) by simp
  define bs where "bs = [brk st + 1..<brk st + 1 + mpool_increase ! s]"
  note g = alloc_memblk_granted [OF conjunct1 [OF True] conjunct2 [OF True] \<open>s \<noteq> 0\<close> bs_def refl]
  have p: "pool_ok st i" using mh_inv_pool assms by blast
  have sup: "super_ok st" using assms(1) by (simp add: mh_inv_def)
  have old: "x < brk st" if "x \<in> set (mpool_free_list st i @ mpool_used_list st i)" for x
    using pool_ok_block [OF p that] sup by (auto simp: super_ok_def)
  have oldF: "x < brk st" if "x \<in> set (mpool_free_list st i)" for x using old that by simp
  have oldU: "x < brk st" if "x \<in> set (mpool_used_list st i)" for x using old that by simp
  show ?thesis
  proof (cases "i = s")
    case eq: True
    have "mpool_count st s * mpool_increase ! s + mpool_increase ! s =
        (mpool_count st s + 1) * mpool_increase ! s" by simp
    with p eq assms(2,4) show ?thesis
      unfolding pool_ok_def by (auto simp: g algebra_simps dest: oldF [unfolded eq] oldU [unfolded eq])
  next
    case False
    with p assms(2,4) show ?thesis
      unfolding pool_ok_def by (auto simp: g dest: oldF oldU)
  qed
qed

lemma alloc_memblk_super:
  assumes "super_ok st" and "s \<noteq> 0"
  shows "super_ok (alloc_memblk os s st)"
proof (cases "0 < mpool_increase ! s \<and>
    os_grants os (SIZEOF_MEMBLK_HDR + (SIZEOF_MEMBLK_HDR + 2 ^ s) * mpool_increase ! s)")
  case False
  then show ?thesis using assms by (simp add: alloc_memblk_None)
next
  case True
  define bs where "bs = [brk st + 1..<brk st + 1 + mpool_increase ! s]"
  note g = alloc_memblk_granted [OF conjunct1 [OF True] conjunct2 [OF True] assms(2) bs_def refl]
  have lt: "x < brk st" if "hflags st x = Some f" for x f using assms(1) that by (auto simp: super_ok_def)
  have fl: "x < brk st" "hflags st x = Some SUPER_BLOCK_SIGN" if "x \<in> set (mpool_free_list st 0)" for x
    using assms(1) that lt by (auto simp: super_ok_def)
  have dm: "\<exists>y \<in> set (mpool_free_list st 0). x = y \<or> x \<in> set (parts st y)" if "hflags st x = Some f" for x f
    using assms(1) that by (fastforce simp: super_ok_def)
  show ?thesis
    unfolding super_ok_def
  proof (intro conjI)
    show "distinct (mpool_free_list (alloc_memblk os s st) 0)"
      using assms fl by (auto simp: g super_ok_def)
    show "\<forall>b \<in> set (mpool_free_list (alloc_memblk os s st) 0). hflags (alloc_memblk os s st) b = Some SUPER_BLOCK_SIGN"
      using assms fl by (fastforce simp: g)
    show "dom (hflags (alloc_memblk os s st)) \<subseteq>
        (\<Union>b \<in> set (mpool_free_list (alloc_memblk os s st) 0). set (b # parts (alloc_memblk os s st) b))"
    proof
      fix x assume "x \<in> dom (hflags (alloc_memblk os s st))"
      then obtain f where f: "hflags (alloc_memblk os s st) x = Some f" by blast
      show "x \<in> (\<Union>b \<in> set (mpool_free_list (alloc_memblk os s st) 0). set (b # parts (alloc_memblk os s st) b))"
      proof (cases "x = brk st \<or> x \<in> set bs")
        case True
        then show ?thesis using assms(2) by (auto simp: g)
      next
        case False
        then have "hflags st x = Some f" using f by (auto simp: g split: if_splits)
        from dm [OF this] fl False assms(2) show ?thesis by (fastforce simp: g)
      qed
    qed
    show "\<forall>b \<in> dom (hflags (alloc_memblk os s st)). b < brk (alloc_memblk os s st)"
      using lt by (fastforce simp: g split: if_splits)
  qed
qed

lemma alloc_memblk_inv:
  "mh_inv st \<Longrightarrow> 1 \<le> s \<Longrightarrow> s < MEM_POOLS_COUNT \<Longrightarrow> mh_inv (alloc_memblk os s st)"
  using alloc_memblk_pool alloc_memblk_super by (simp add: mh_inv_def)

text \<open>The blocks handed out.\<close>

definition in_use :: "mh \<Rightarrow> nat \<Rightarrow> bool" where
  "in_use st b \<longleftrightarrow> (\<exists>i \<in> set [1..<MEM_POOLS_COUNT]. b \<in> set (mpool_used_list st i))"

lemma in_use_dom: "mh_inv st \<Longrightarrow> in_use st b \<Longrightarrow> b \<in> dom (hflags st)"
  unfolding in_use_def using pool_ok_block [OF mh_inv_pool, of st _ b] by fastforce

lemma take_free_inv:
  assumes "mh_inv st" and "1 \<le> s" "s < MEM_POOLS_COUNT"
  shows "mh_inv (snd (take_free s st))"
proof (cases "mpool_free_list st s")
  case Nil
  with assms(1) show ?thesis by (simp add: take_free_def)
next
  case (Cons b bs)
  have "pool_ok (snd (take_free s st)) i" if "1 \<le> i" "i < MEM_POOLS_COUNT" for i
    using mh_inv_pool [OF assms(1) that] Cons by (cases "i = s") (auto simp: take_free_def pool_ok_def Let_def)
  moreover have "super_ok (snd (take_free s st))"
    using assms Cons by (simp add: mh_inv_def take_free_def super_ok_def Let_def)
  ultimately show ?thesis by (simp add: mh_inv_def)
qed

lemma take_free_frame:
  "hflags (snd (take_free s st)) = hflags st \<and> payload (snd (take_free s st)) = payload st"
  by (simp add: take_free_def Let_def split: list.split)

lemma memalloc_inv:
  assumes "mh_inv st" and "1 \<le> s" "s < MEM_POOLS_COUNT" and "memalloc os s st = (r, st')"
  shows "mh_inv st'"
proof -
  have "st' = snd (take_free s (if mpool_free_list st s = [] then alloc_memblk os s st else st))"
    using assms(4) by (simp only: memalloc_def snd_conv)
  then show ?thesis using take_free_inv alloc_memblk_inv assms(1-3) by simp
qed

lemma memalloc_frame:
  assumes "mh_inv st" and "s \<noteq> 0" and "memalloc os s st = (r, st')" and "x \<in> dom (hflags st)"
  shows "hflags st' x = hflags st x \<and> payload st' x = payload st x"
proof -
  let ?st1 = "if mpool_free_list st s = [] then alloc_memblk os s st else st"
  have "st' = snd (take_free s ?st1)" using assms(3) by (simp only: memalloc_def snd_conv)
  moreover have "hflags ?st1 x = hflags st x \<and> payload ?st1 x = payload st x"
    using alloc_memblk_frame assms by (simp add: mh_inv_def)
  ultimately show ?thesis using take_free_frame by simp
qed

lemma memalloc_None:
  assumes "s \<noteq> 0" and "memalloc os s st = (None, st')"
  shows "st' = st \<and> mpool_free_list st s = [] \<and> \<not> (0 < mpool_increase ! s \<and>
    os_grants os (SIZEOF_MEMBLK_HDR + (SIZEOF_MEMBLK_HDR + 2 ^ s) * mpool_increase ! s))"
proof -
  have e: "mpool_free_list st s = []" "mpool_free_list (alloc_memblk os s st) s = []"
    "st' = alloc_memblk os s st"
    using assms by (auto simp: memalloc_def take_free_def Let_def split: if_splits list.splits)
  have n: "\<not> (0 < mpool_increase ! s \<and>
      os_grants os (SIZEOF_MEMBLK_HDR + (SIZEOF_MEMBLK_HDR + 2 ^ s) * mpool_increase ! s))"
    using e(2) alloc_memblk_granted(1) [OF _ _ assms(1) refl refl, of os st] by auto
  with e alloc_memblk_None [OF n] show ?thesis by simp
qed

lemma memalloc_Some:
  assumes "mh_inv st" and "1 \<le> s" "s < MEM_POOLS_COUNT" and "memalloc os s st = (Some b, st')"
  shows "mpool_used_list st' = (mpool_used_list st)(s := b # mpool_used_list st s)"
    and "\<not> in_use st b" and "length (payload st' b) = 2 ^ s"
proof -
  let ?st1 = "if mpool_free_list st s = [] then alloc_memblk os s st else st"
  have ul: "mpool_used_list ?st1 = mpool_used_list st" by (simp add: alloc_memblk_def Let_def)
  have inv: "mh_inv ?st1" using alloc_memblk_inv assms(1-3) by simp
  have t: "take_free s ?st1 = (Some b, st')" using assms(4) by (simp only: memalloc_def)
  then obtain bs where f: "mpool_free_list ?st1 s = b # bs"
    by (simp only: take_free_def) (auto simp: Let_def split: list.splits)
  from t f show u: "mpool_used_list st' = (mpool_used_list st)(s := b # mpool_used_list st s)"
    unfolding take_free_def f list.case Let_def prod.inject option.inject ul by auto
  show "\<not> in_use st b"
  proof
    assume "in_use st b"
    then obtain i where i: "1 \<le> i" "i < MEM_POOLS_COUNT" "b \<in> set (mpool_used_list ?st1 i)"
      unfolding ul by (auto simp: in_use_def)
    with f pools_disjoint [OF inv assms(2,3) i(1,2)] have "i = s" by auto
    with i f mh_inv_pool [OF inv assms(2,3)] show False by (auto simp: pool_ok_def)
  qed
  have "b \<in> set (mpool_free_list st' s @ mpool_used_list st' s)" using u by simp
  with pool_ok_block [OF mh_inv_pool [OF memalloc_inv [OF assms] assms(2,3)]]
  show "length (payload st' b) = 2 ^ s" by blast
qed

subsection \<open>Allocation\<close>

lemma tracking_fields [simp]:
  "mpool_free_list (memblk_tracking os b f l st) = mpool_free_list st"
  "mpool_used_list (memblk_tracking os b f l st) = mpool_used_list st"
  "mpool_used (memblk_tracking os b f l st) = mpool_used st"
  "mpool_free (memblk_tracking os b f l st) = mpool_free st"
  "mpool_max_used (memblk_tracking os b f l st) = mpool_max_used st"
  "mpool_count (memblk_tracking os b f l st) = mpool_count st"
  "hflags (memblk_tracking os b f l st) = hflags st"
  "payload (memblk_tracking os b f l st) = payload st"
  "parts (memblk_tracking os b f l st) = parts st"
  "brk (memblk_tracking os b f l st) = brk st"
  by (simp_all add: memblk_tracking_def Let_def)

lemma mh_inv_cong:
  assumes "mpool_free_list st' = mpool_free_list st" "mpool_used_list st' = mpool_used_list st"
    "mpool_used st' = mpool_used st" "mpool_free st' = mpool_free st" "mpool_max_used st' = mpool_max_used st"
    "mpool_count st' = mpool_count st" "hflags st' = hflags st" "parts st' = parts st" "brk st' = brk st"
    "\<And>x. length (payload st' x) = length (payload st x)"
  shows "mh_inv st' = mh_inv st"
  unfolding mh_inv_def pool_ok_def super_ok_def assms ..

lemma tracking_inv: "mh_inv (memblk_tracking os b f l st) = mh_inv st"
  by (rule mh_inv_cong) simp_all

text \<open>The result of an allocation: on success one block, not handed out before, with room for \<open>n\<close>
  bytes; every block handed out before keeps its contents; on failure nothing changes.\<close>

definition alloc_post :: "nat \<Rightarrow> mh \<Rightarrow> nat option \<Rightarrow> mh \<Rightarrow> bool" where
  "alloc_post n st r st' \<longleftrightarrow> mh_inv st' \<and>
     (\<forall>x \<in> dom (hflags st). hflags st' x = hflags st x \<and> payload st' x = payload st x) \<and>
     (case r of
        None \<Rightarrow> st' = st
      | Some b \<Rightarrow> \<not> in_use st b \<and> n \<le> length (payload st' b) \<and> (\<forall>x. in_use st' x \<longleftrightarrow> x = b \<or> in_use st x))"

lemma malloc_loop_post:
  assumes "mh_inv st" and "1 \<le> i"
  shows "alloc_post n st (fst (malloc_loop os n f l i st)) (snd (malloc_loop os n f l i st))"
  using assms
proof (induction os n f l i st rule: malloc_loop.induct)
  case (1 os n f l i st)
  show ?case
  proof (cases "i < MEM_POOLS_COUNT \<and> n > 0")
    case False
    then have "malloc_loop os n f l i st = (None, st)" by (subst malloc_loop.simps) (simp only: if_False)
    then show ?thesis using 1(3) by (simp add: alloc_post_def)
  next
    case True
    show ?thesis
    proof (cases "n \<le> 2 ^ i")
      case False
      with 1(2) [OF True False 1(3)] True show ?thesis by (simp add: malloc_loop.simps [of os n f l i st])
    next
      case le: True
      obtain r st1 where m: "memalloc os i st = (r, st1)" by (cases "memalloc os i st")
      show ?thesis
      proof (cases r)
        case None
        then have "st1 = st" using memalloc_None [of i os st st1] m 1(4) by simp
        with 1(1) [OF True le m [symmetric] None] 1(3) None m True le show ?thesis
          by (simp add: malloc_loop.simps [of os n f l i st])
      next
        case (Some b)
        note s = memalloc_Some [OF 1(3) 1(4) conjunct1 [OF True], of os b st1]
        have "mh_inv st1" using memalloc_inv [OF 1(3) 1(4) conjunct1 [OF True] m] .
        moreover have "in_use st1 x \<longleftrightarrow> x = b \<or> in_use st x" for x
          using s(1) m Some True 1(4) by (auto simp: in_use_def)
        moreover have "i \<noteq> 0" using 1(4) by simp
        ultimately have "alloc_post n st (Some b) (memblk_tracking os b f l st1)"
          using s m Some le memalloc_frame [OF 1(3) _ m]
          by (simp add: alloc_post_def tracking_inv in_use_def)
        with m Some True le show ?thesis by (simp add: malloc_loop.simps [of os n f l i st])
      qed
    qed
  qed
qed

lemma mh_malloc_post:
  "mh_inv st \<Longrightarrow> mh_malloc os n f l st = (r, st') \<Longrightarrow> alloc_post n st r st'"
  using malloc_loop_post [of st 3 n os f l] by (simp add: mh_malloc_def)

text \<open>When the allocation fails, every pool with large enough blocks was empty and could not grow.\<close>

lemma malloc_loop_None:
  assumes "malloc_loop os n f l i st = (None, st')" and "0 < n" and "1 \<le> i"
    and "i \<le> j" and "j < MEM_POOLS_COUNT" and "n \<le> 2 ^ j"
  shows "mpool_free_list st j = [] \<and> \<not> (0 < mpool_increase ! j \<and>
    os_grants os (SIZEOF_MEMBLK_HDR + (SIZEOF_MEMBLK_HDR + 2 ^ j) * mpool_increase ! j))"
  using assms
proof (induction os n f l i st arbitrary: st' rule: malloc_loop.induct)
  case (1 os n f l i st)
  have c: "i < MEM_POOLS_COUNT \<and> n > 0" using 1 by simp
  show ?case
  proof (cases "n \<le> 2 ^ i")
    case False
    with 1(8) have "i + 1 \<le> j" using 1(6) by (cases "i = j") auto
    with 1(2) [OF c False, of st'] 1(3-8) c False show ?thesis
      by (simp add: malloc_loop.simps [of os n f l i st])
  next
    case le: True
    obtain r st1 where m: "memalloc os i st = (r, st1)" by (cases "memalloc os i st")
    have r: "r = None" using 1(3) c le m by (cases r) (auto simp: malloc_loop.simps [of os n f l i st])
    note none = memalloc_None [of i os st st1]
    show ?thesis
    proof (cases "i = j")
      case True
      with none m r 1(5) show ?thesis by auto
    next
      case False
      then have "i + 1 \<le> j" using 1(6) by simp
      moreover have "st1 = st" using none m r 1(5) by simp
      moreover have "malloc_loop os n f l (i + 1) st1 = (None, st')"
        using 1(3) c le m r by (simp add: malloc_loop.simps [of os n f l i st])
      ultimately show ?thesis
        using 1(1) [OF c le m [symmetric] r, of st'] 1(4-8) by simp
    qed
  qed
qed

subsection \<open>Release\<close>

definition is_block :: "mh \<Rightarrow> nat \<Rightarrow> bool" where
  "is_block st b \<longleftrightarrow> (\<exists>i \<in> set [1..<MEM_POOLS_COUNT]. b \<in> set (mpool_free_list st i @ mpool_used_list st i))"

lemma in_use_is_block: "in_use st b \<Longrightarrow> is_block st b"
  by (auto simp: in_use_def is_block_def)

definition to_free :: "nat \<Rightarrow> nat \<Rightarrow> mh \<Rightarrow> mh" where
  "to_free i b st = st\<lparr>mpool_used_list := (mpool_used_list st)(i := remove1 b (mpool_used_list st i)),
     mpool_used := (mpool_used st)(i := mpool_used st i - 1),
     mpool_free_list := (mpool_free_list st)(i := b # mpool_free_list st i),
     mpool_free := (mpool_free st)(i := mpool_free st i + 1)\<rparr>"

lemma memfree_eq:
  "hflags st b = Some (mflag i) \<Longrightarrow> i < MEM_POOLS_COUNT \<Longrightarrow>
    memfree b st = Some (if b \<in> set (mpool_used_list st i) then (True, to_free i b st) else (False, st))"
  by (simp add: memfree_def in_used_iff to_free_def)

lemma to_free_inv:
  assumes "mh_inv st" and "1 \<le> i" "i < MEM_POOLS_COUNT" and "b \<in> set (mpool_used_list st i)"
  shows "mh_inv (to_free i b st)"
proof -
  have "0 < length (mpool_used_list st i)" using assms(4) by (rule length_pos_if_in_set)
  then have "Suc (f + (length (mpool_used_list st i) - Suc 0)) = f + length (mpool_used_list st i)" for f
    by simp
  then have "pool_ok (to_free i b st) k" if "1 \<le> k" "k < MEM_POOLS_COUNT" for k
    using mh_inv_pool [OF assms(1) that] assms(4)
    by (cases "k = i") (auto simp: to_free_def pool_ok_def length_remove1)
  moreover have "super_ok (to_free i b st)" using assms(1,2) by (simp add: mh_inv_def to_free_def super_ok_def)
  ultimately show ?thesis by (simp add: mh_inv_def)
qed

text \<open>Releasing a block: it leaves the blocks in use, whether it was among them or not; nothing else
  changes.\<close>

lemma mh_free_block:
  assumes "mh_inv st" and "is_block st b"
  shows "\<exists>st'. mh_free (Some b) st = Some st' \<and> mh_inv st' \<and> (\<forall>x. in_use st' x \<longleftrightarrow> in_use st x \<and> x \<noteq> b) \<and>
    hflags st' = hflags st \<and> payload st' = payload st \<and> (\<not> in_use st b \<longrightarrow> st' = st) \<and> is_block st' b"
proof -
  obtain i where i: "1 \<le> i" "i < MEM_POOLS_COUNT" "b \<in> set (mpool_free_list st i @ mpool_used_list st i)"
    using assms(2) by (auto simp: is_block_def)
  have fl: "hflags st b = Some (mflag i)"
    using pool_ok_block [OF mh_inv_pool [OF assms(1) i(1,2)] i(3)] by simp
  have only: "k = i" if "b \<in> set (mpool_used_list st k)" "1 \<le> k" "k < MEM_POOLS_COUNT" for k
    using pools_disjoint [OF assms(1) that(2,3) i(1,2) _ i(3)] that(1) by simp
  have used_iff: "in_use st b \<longleftrightarrow> b \<in> set (mpool_used_list st i)"
  proof
    assume "in_use st b"
    then obtain k where "1 \<le> k" "k < MEM_POOLS_COUNT" "b \<in> set (mpool_used_list st k)"
      by (auto simp: in_use_def)
    with only show "b \<in> set (mpool_used_list st i)" by blast
  qed (use i in \<open>auto simp: in_use_def\<close>)
  show ?thesis
  proof (cases "b \<in> set (mpool_used_list st i)")
    case True
    have "set (remove1 b (mpool_used_list st i)) = set (mpool_used_list st i) - {b}"
      using mh_inv_pool [OF assms(1) i(1,2)] by (simp add: pool_ok_def set_remove1_eq)
    then have "set (mpool_used_list (to_free i b st) k) = set (mpool_used_list st k) - {b}"
      if "1 \<le> k" "k < MEM_POOLS_COUNT" for k
      using only [OF _ that] by (cases "k = i") (simp_all add: to_free_def, blast)
    then have "in_use (to_free i b st) x \<longleftrightarrow> in_use st x \<and> x \<noteq> b" for x
      by (auto simp: in_use_def)
    moreover have "mh_free (Some b) st = Some (to_free i b st)"
      using memfree_eq [OF fl i(2)] fl i(2) True by (simp add: mh_free_def)
    moreover have "is_block (to_free i b st) b" using i by (auto simp: is_block_def to_free_def)
    ultimately show ?thesis
      using True used_iff to_free_inv [OF assms(1) i(1,2) True] by (simp add: to_free_def)
  next
    case False
    then have "mh_free (Some b) st = Some st"
      using memfree_eq [OF fl i(2)] fl i(2) by (simp add: mh_free_def)
    with False used_iff assms show ?thesis by auto
  qed
qed

lemma store_spec:
  assumes "length xs \<le> length (payload st b)"
  shows "\<exists>st'. store b xs st = Some st' \<and> mh_inv st' = mh_inv st \<and> in_use st' = in_use st \<and>
    is_block st' = is_block st \<and> hflags st' = hflags st \<and>
    payload st' = (payload st)(b := xs @ drop (length xs) (payload st b))"
proof -
  let ?p = "(payload st)(b := xs @ drop (length xs) (payload st b))"
  have "mh_inv (st\<lparr>payload := ?p\<rparr>) = mh_inv st" using assms by (intro mh_inv_cong) auto
  with assms show ?thesis
    by (auto simp: store_def blit_def fun_eq_iff in_use_def is_block_def)
qed

lemma in_use_payload:
  assumes "mh_inv st" and "in_use st b"
  obtains i where "hflags st b = Some (mflag i)" "length (payload st b) = 2 ^ i" "i < MEM_POOLS_COUNT"
proof -
  obtain i where "1 \<le> i" "i < MEM_POOLS_COUNT" "b \<in> set (mpool_used_list st i)"
    using assms(2) by (auto simp: in_use_def)
  with pool_ok_block [OF mh_inv_pool [OF assms(1)], of i b] that show ?thesis by auto
qed

lemma in_use_frame:
  assumes "mh_inv st" and "alloc_post n st r st'" and "in_use st x"
  shows "hflags st' x = hflags st x \<and> payload st' x = payload st x"
  using assms in_use_dom unfolding alloc_post_def by blast

lemma mh_realloc_grow:
  assumes "mh_inv st" and "in_use st b" and "length (payload st b) < n"
    and "mh_malloc os n f l st = (Some b', st1)"
  shows "\<exists>st'. mh_realloc os (Some b) n f l st = Some (Some b', st') \<and> mh_inv st' \<and>
    (\<forall>x. in_use st' x \<longleftrightarrow> x = b' \<or> in_use st x \<and> x \<noteq> b) \<and> n \<le> length (payload st' b') \<and>
    take (length (payload st b)) (payload st' b') = payload st b \<and>
    (\<forall>x. in_use st x \<and> x \<noteq> b \<longrightarrow> payload st' x = payload st x)"
proof -
  obtain i where i: "hflags st b = Some (mflag i)" "length (payload st b) = 2 ^ i" "i < MEM_POOLS_COUNT"
    using in_use_payload assms(1,2) by blast
  have post: "alloc_post n st (Some b') st1" using mh_malloc_post assms(1,4) by blast
  have keep: "hflags st1 x = hflags st x \<and> payload st1 x = payload st x" if "in_use st x" for x
    using in_use_frame [OF assms(1) post that] .
  have p: "mh_inv st1" "\<not> in_use st b'" "n \<le> length (payload st1 b')"
    "\<And>x. in_use st1 x \<longleftrightarrow> x = b' \<or> in_use st x"
    using post by (auto simp: alloc_post_def)
  have ne: "b' \<noteq> b" using p(2) assms(2) by auto
  obtain st2 where st2: "store b' (payload st b) st1 = Some st2" "mh_inv st2" "in_use st2 = in_use st1"
    "is_block st2 = is_block st1" "hflags st2 = hflags st1"
    "payload st2 = (payload st1)(b' := payload st b @ drop (length (payload st b)) (payload st1 b'))"
    using store_spec [of "payload st b" st1 b'] p(1,3) assms(3) by auto
  have "is_block st2 b" using st2(4) p(4) assms(2) in_use_is_block by simp
  then obtain st3 where st3: "mh_free (Some b) st2 = Some st3" "mh_inv st3"
    "\<And>x. in_use st3 x \<longleftrightarrow> in_use st2 x \<and> x \<noteq> b" "payload st3 = payload st2"
    using mh_free_block [OF st2(2)] by blast
  have "mh_realloc os (Some b) n f l st = Some (Some b', st3)"
    using i assms(3,4) keep [OF assms(2)] st2(1) st3(1) by (simp add: mh_realloc_def Let_def)
  moreover have "in_use st3 x \<longleftrightarrow> x = b' \<or> in_use st x \<and> x \<noteq> b" for x
    using st3(3) st2(3) p(4) ne by auto
  moreover have "payload st3 x = payload st x" if "in_use st x" "x \<noteq> b" for x
    using st3(4) st2(6) keep [OF that(1)] that p(2) by auto
  ultimately show ?thesis
    using st3(2,4) st2(6) p(3) assms(3) by auto
qed

lemma mh_realloc_fail:
  assumes "mh_inv st" and "in_use st b" and "length (payload st b) < n"
    and "mh_malloc os n f l st = (None, st1)"
  shows "\<exists>st'. mh_realloc os (Some b) n f l st = Some (None, st') \<and> mh_inv st' \<and>
    (\<forall>x. in_use st' x \<longleftrightarrow> in_use st x \<and> x \<noteq> b) \<and> payload st' = payload st"
proof -
  obtain i where i: "hflags st b = Some (mflag i)" "length (payload st b) = 2 ^ i" "i < MEM_POOLS_COUNT"
    using in_use_payload assms(1,2) by blast
  have "st1 = st" using mh_malloc_post [OF assms(1,4)] by (simp add: alloc_post_def)
  moreover obtain st' where "mh_free (Some b) st = Some st'" "mh_inv st'"
    "\<forall>x. in_use st' x \<longleftrightarrow> in_use st x \<and> x \<noteq> b" "payload st' = payload st"
    using mh_free_block [OF assms(1) in_use_is_block [OF assms(2)]] by blast
  ultimately show ?thesis
    using i assms(3,4) by (simp add: mh_realloc_def Let_def)
qed

lemma mh_realloc_keep:
  assumes "mh_inv st" and "in_use st b" and "n \<le> length (payload st b)"
  shows "mh_realloc os (Some b) n f l st = Some (Some b, st)"
proof -
  obtain i where "hflags st b = Some (mflag i)" "length (payload st b) = 2 ^ i" "i < MEM_POOLS_COUNT"
    using in_use_payload assms(1,2) by blast
  with assms(3) show ?thesis by (simp add: mh_realloc_def Let_def)
qed

lemma mh_realloc_inv:
  assumes "mh_inv st" and "in_use st b" and "mh_realloc os (Some b) n f l st = Some (r, st')"
  shows "mh_inv st'"
proof (cases "length (payload st b) < n")
  case True
  obtain r' st1 where m: "mh_malloc os n f l st = (r', st1)" by (cases "mh_malloc os n f l st")
  show ?thesis
  proof (cases r')
    case None
    with mh_realloc_fail [OF assms(1,2) True, of os f l st1] m assms(3) show ?thesis by auto
  next
    case (Some b')
    with mh_realloc_grow [OF assms(1,2) True, of os f l b' st1] m assms(3) show ?thesis by auto
  qed
next
  case False
  with mh_realloc_keep [OF assms(1,2)] assms(1,3) show ?thesis by simp
qed

lemma fresh_store_inv:
  assumes "mh_inv st" and "mh_malloc os n f l st = (Some b, st1)" and "length xs \<le> n"
    and "store b xs st1 = Some st'"
  shows "mh_inv st'"
proof -
  have "mh_inv st1" "length xs \<le> length (payload st1 b)"
    using mh_malloc_post [OF assms(1,2)] assms(3) by (auto simp: alloc_post_def)
  with store_spec [of xs st1 b] assms(4) show ?thesis by auto
qed

lemma mh_strdup_inv:
  assumes "mh_inv st" and "mh_strdup os str f l st = Some (r, st')"
  shows "mh_inv st'"
proof -
  obtain r1 st1 where m: "mh_malloc os (length str + 1) f l st = (r1, st1)"
    by (cases "mh_malloc os (length str + 1) f l st")
  with assms show ?thesis
    using fresh_store_inv [OF assms(1), of os "length str + 1" f l _ st1 "str @ [NUL]"] mh_malloc_post [OF assms(1) m]
    by (cases r1) (auto simp: mh_strdup_def bind_Some_iff alloc_post_def)
qed

lemma mh_calloc_inv:
  assumes "mh_inv st" and "mh_calloc os k n f l st = Some (r, st')"
  shows "mh_inv st'"
proof -
  let ?t = "k * n mod 2 ^ 32"
  obtain r1 st1 where m: "mh_malloc os ?t f l st = (r1, st1)" by (cases "mh_malloc os ?t f l st")
  show ?thesis
  proof (cases r1)
    case None
    with assms(2) m mh_malloc_post [OF assms(1) m] show ?thesis
      unfolding mh_calloc_def Let_def by (auto simp: alloc_post_def)
  next
    case (Some b)
    with assms(2) m have "store b (replicate ?t NUL) st1 = Some st'"
      unfolding mh_calloc_def Let_def by (simp only: prod.case option.case) (auto simp: bind_Some_iff)
    from fresh_store_inv [OF assms(1) m [unfolded Some] _ this] show ?thesis by simp
  qed
qed

subsection \<open>Tearing down\<close>

lemma free_all_loop_fields:
  "hflags (free_all_loop bs st) x = (if \<exists>b \<in> set bs. x \<in> set (b # parts st b) then None else hflags st x)"
  "brk (free_all_loop bs st) = brk st"
  by (induction bs arbitrary: st) (auto simp: free_super_def restrict_map_def split: if_splits)

lemma mh_free_all_empty:
  assumes "mh_inv st"
  shows "hflags (mh_free_all st) = Map.empty" and "mh_inv (mh_free_all st)"
proof -
  have "hflags (free_all_loop (mpool_free_list st 0) st) x = None" for x
  proof (cases "hflags st x")
    case None
    then show ?thesis by (simp only: free_all_loop_fields) simp
  next
    case (Some f)
    then have "x \<in> dom (hflags st)" by blast
    then have "\<exists>b \<in> set (mpool_free_list st 0). x \<in> set (b # parts st b)"
      using assms by (auto simp: mh_inv_def super_ok_def)
    then show ?thesis by (simp only: free_all_loop_fields if_True)
  qed
  then show e: "hflags (mh_free_all st) = Map.empty" by (auto simp: mh_free_all_def mh_init_all_def)
  show "mh_inv (mh_free_all st)"
    using e by (simp add: mh_inv_def pool_ok_def super_ok_def) (simp add: mh_free_all_def mh_init_all_def)
qed

subsection \<open>The allocator interface\<close>

text \<open>What the clients of \<^verbatim>\<open>xmalloc\<close> and \<^verbatim>\<open>xfree\<close> rely on, and what follows from it for any sequence of calls.\<close>

locale block_allocator =
  fixes alloc :: "'o \<Rightarrow> nat \<Rightarrow> 's \<Rightarrow> 'b option \<times> 's"
    and release :: "'b \<Rightarrow> 's \<Rightarrow> 's option"
    and live :: "'s \<Rightarrow> 'b \<Rightarrow> bool"
    and data :: "'s \<Rightarrow> 'b \<Rightarrow> char list"
    and ok :: "'s \<Rightarrow> bool"
  assumes alloc_ok: "ok s \<Longrightarrow> alloc w n s = (r, s') \<Longrightarrow> ok s'"
    and alloc_fresh: "ok s \<Longrightarrow> alloc w n s = (Some b, s') \<Longrightarrow>
      \<not> live s b \<and> n \<le> length (data s' b) \<and> (\<forall>x. live s' x \<longleftrightarrow> x = b \<or> live s x)"
    and alloc_keeps: "ok s \<Longrightarrow> alloc w n s = (r, s') \<Longrightarrow> live s x \<Longrightarrow> data s' x = data s x \<and> live s' x"
    and release_law: "ok s \<Longrightarrow> live s b \<Longrightarrow> \<exists>s'. release b s = Some s' \<and> ok s' \<and>
      (\<forall>x. live s' x \<longleftrightarrow> live s x \<and> x \<noteq> b) \<and> (\<forall>x. data s' x = data s x)"
begin

lemma two_allocs_distinct:
  assumes "ok s" and "alloc w n s = (Some a, s1)" and "alloc w' k s1 = (Some b, s2)"
  shows "a \<noteq> b \<and> live s2 a \<and> live s2 b \<and> data s2 a = data s1 a"
proof -
  have ok1: "ok s1" using alloc_ok assms(1,2) by blast
  have "live s1 a" using alloc_fresh [OF assms(1,2)] by simp
  with alloc_fresh [OF ok1 assms(3)] alloc_keeps [OF ok1 assms(3)] show ?thesis by auto
qed

lemma alloc_release:
  assumes "ok s" and "alloc w n s = (Some b, s1)"
  shows "\<exists>s2. release b s1 = Some s2 \<and> ok s2 \<and> (\<forall>x. live s2 x \<longleftrightarrow> live s x) \<and>
    (\<forall>x. live s x \<longrightarrow> data s2 x = data s x)"
proof -
  note f = alloc_fresh [OF assms]
  have "ok s1" "live s1 b" using alloc_ok [OF assms] f by auto
  then obtain s2 where "release b s1 = Some s2" "ok s2" "\<forall>x. live s2 x \<longleftrightarrow> live s1 x \<and> x \<noteq> b"
    "\<forall>x. data s2 x = data s1 x"
    using release_law by blast
  with f alloc_keeps [OF assms] show ?thesis by auto
qed

end

interpretation heap: block_allocator "\<lambda>(os, f, l) n st. mh_malloc os n f l st" "\<lambda>b st. mh_free (Some b) st"
  in_use payload mh_inv
proof unfold_locales
  fix st st' :: mh and w :: "os \<times> char list \<times> int" and n and r :: "nat option" and b x :: nat
  assume inv: "mh_inv st"
  obtain os f l where w: "w = (os, f, l)" by (cases w)
  show "mh_inv st'" if "(case w of (os, f, l) \<Rightarrow> \<lambda>n. mh_malloc os n f l) n st = (r, st')"
    using mh_malloc_post [OF inv, of os n f l r st'] that w by (simp add: alloc_post_def)
  show "\<not> in_use st b \<and> n \<le> length (payload st' b) \<and> (\<forall>x. in_use st' x \<longleftrightarrow> x = b \<or> in_use st x)"
    if "(case w of (os, f, l) \<Rightarrow> \<lambda>n. mh_malloc os n f l) n st = (Some b, st')"
    using mh_malloc_post [OF inv, of os n f l "Some b" st'] that w by (simp add: alloc_post_def)
  show "payload st' x = payload st x \<and> in_use st' x"
    if "(case w of (os, f, l) \<Rightarrow> \<lambda>n. mh_malloc os n f l) n st = (r, st')" "in_use st x"
  proof -
    have post: "alloc_post n st r st'" using mh_malloc_post [OF inv, of os n f l r st'] that(1) w by simp
    moreover have "in_use st' x" using post that(2) by (cases r) (auto simp: alloc_post_def)
    ultimately show ?thesis using in_use_frame [OF inv post that(2)] by simp
  qed
  show "\<exists>s'. mh_free (Some b) st = Some s' \<and> mh_inv s' \<and> (\<forall>x. in_use s' x \<longleftrightarrow> in_use st x \<and> x \<noteq> b) \<and>
      (\<forall>x. payload s' x = payload st x)" if "in_use st b"
    using mh_free_block [OF inv in_use_is_block [OF that]] by auto
qed

subsection \<open>Every reachable state\<close>

text \<open>Before \<^verbatim>\<open>mh_init_all\<close> no block exists; clients call the operations in any order, release only blocks
  they got, and write only into blocks they hold.\<close>

definition mh_boot :: mh where
  "mh_boot = \<lparr>mpool_free_list = (\<lambda>_. []), mpool_used_list = (\<lambda>_. []), mpool_used = (\<lambda>_. 0), mpool_free = (\<lambda>_. 0),
     mpool_max_used = (\<lambda>_. 0), mpool_count = (\<lambda>_. 0), mh_files = [], hflags = Map.empty, hfile = (\<lambda>_. 0),
     hline = (\<lambda>_. 0), payload = (\<lambda>_. []), parts = (\<lambda>_. []), brk = 1\<rparr>"

inductive mh_reach :: "mh \<Rightarrow> bool" where
  init: "mh_reach (mh_init_all mh_boot)"
| malloc: "mh_reach st \<Longrightarrow> mh_malloc os n f l st = (r, st') \<Longrightarrow> mh_reach st'"
| strdup: "mh_reach st \<Longrightarrow> mh_strdup os s f l st = Some (r, st') \<Longrightarrow> mh_reach st'"
| calloc: "mh_reach st \<Longrightarrow> mh_calloc os k n f l st = Some (r, st') \<Longrightarrow> mh_reach st'"
| realloc: "mh_reach st \<Longrightarrow> in_use st b \<Longrightarrow> mh_realloc os (Some b) n f l st = Some (r, st') \<Longrightarrow> mh_reach st'"
| free: "mh_reach st \<Longrightarrow> is_block st b \<Longrightarrow> mh_free (Some b) st = Some st' \<Longrightarrow> mh_reach st'"
| client_write: "mh_reach st \<Longrightarrow> in_use st b \<Longrightarrow> length xs \<le> length (payload st b) \<Longrightarrow>
    store b xs st = Some st' \<Longrightarrow> mh_reach st'"
| free_all: "mh_reach st \<Longrightarrow> mh_reach (mh_free_all st)"

lemma mh_init_inv: "mh_inv (mh_init_all mh_boot)"
  by (simp add: mh_inv_def pool_ok_def super_ok_def mh_init_all_def mh_boot_def)

lemma mh_reach_mh_inv: "mh_reach st \<Longrightarrow> mh_inv st"
proof (induction rule: mh_reach.induct)
  case init
  show ?case by (rule mh_init_inv)
next
  case (malloc st os n f l r st')
  then show ?case using mh_malloc_post by (auto simp: alloc_post_def)
next
  case (strdup st os s f l r st')
  then show ?case using mh_strdup_inv by blast
next
  case (calloc st os k n f l r st')
  then show ?case using mh_calloc_inv by blast
next
  case (realloc st b os n f l r st')
  then show ?case using mh_realloc_inv by blast
next
  case (free st b st')
  then show ?case using mh_free_block by fastforce
next
  case (client_write st b xs st')
  then show ?case using store_spec [of xs st b] by auto
next
  case (free_all st)
  then show ?case using mh_free_all_empty(2) by blast
qed

lemma mh_diagnostic_clean: "mh_inv st \<Longrightarrow> mh_diagnostic st = []"
proof -
  assume inv: "mh_inv st"
  have "diagnose_pool st i = []" if "i \<in> set [1..<MEM_POOLS_COUNT]" for i
    using mh_inv_pool [OF inv, of i] that
    by (auto simp: diagnose_pool_def pool_ok_def count_list_length Let_def)
  then show ?thesis by (simp add: mh_diagnostic_def)
qed

definition os_all :: os where "os_all = \<lparr>os_grants = (\<lambda>_. True), os_junk = CHR ''?''\<rparr>"

lemma increase_pos: "3 \<le> i \<Longrightarrow> i < MEM_POOLS_COUNT \<Longrightarrow> 0 < mpool_increase ! i"
proof -
  assume "3 \<le> i" "i < MEM_POOLS_COUNT"
  then have "i \<in> set [3..<22]" by (simp only: set_upt atLeastLessThan_iff MEM_POOLS_COUNT_def simp_thms)
  moreover have "list_all (\<lambda>i. 0 < mpool_increase ! i) [3..<22]" by code_simp
  ultimately show ?thesis unfolding list_all_iff by blast
qed

lemma malloc_granted:
  assumes "mh_inv st" and "0 < n" and "n \<le> 2 ^ 21"
  shows "\<exists>b st'. mh_malloc os_all n f l st = (Some b, st')"
proof -
  obtain r st' where m: "mh_malloc os_all n f l st = (r, st')" by (cases "mh_malloc os_all n f l st")
  have "r \<noteq> None"
  proof
    assume "r = None"
    with m malloc_loop_None [of os_all n f l 3 st st' 21] assms(2,3) increase_pos [of 21] show False
      by (simp add: mh_malloc_def MEM_POOLS_COUNT_def os_all_def)
  qed
  with m show ?thesis by auto
qed

subsection \<open>Properties\<close>

text \<open>C17: In every state the module can reach, by any sequence of \<^verbatim>\<open>mh_malloc\<close>, \<^verbatim>\<open>mh_strdup\<close>, \<^verbatim>\<open>mh_calloc\<close>,
  \<^verbatim>\<open>mh_realloc\<close>, \<^verbatim>\<open>mh_free\<close> (double frees included), writes of the clients and \<^verbatim>\<open>mh_free_all\<close>, and whatever
  \<^verbatim>\<open>malloc\<close> refuses, the pools are consistent: counters equal list lengths, the number of blocks of a pool is
  what its super blocks gave, no block is in two lists, every header names its pool; so the self check
  \<^verbatim>\<open>mh_diagnostic\<close> never reports anything.\<close>

theorem mh_reachable_consistent:
  assumes "mh_reach st"
  shows "mh_inv st \<and> mh_diagnostic st = []"
  using mh_reach_mh_inv [OF assms] mh_diagnostic_clean by blast

theorem mh_reachable_consistent_witness:
  "\<exists>b st. mh_malloc os_all 5 ''a.c'' 1 (mh_init_all mh_boot) = (Some b, st) \<and> mh_inv st \<and> mh_diagnostic st = []"
proof -
  obtain b st where m: "mh_malloc os_all 5 ''a.c'' 1 (mh_init_all mh_boot) = (Some b, st)"
    using malloc_granted [OF mh_init_inv, of 5 "''a.c''" 1] by auto
  then have "mh_reach st" by (rule mh_reach.malloc [OF mh_reach.init])
  from mh_reachable_consistent [OF this] m show ?thesis by blast
qed

text \<open>C18: \<^verbatim>\<open>mh_malloc\<close> returns a block that no client holds, with room for the request, and leaves the contents
  of all blocks in use alone; it returns \<^verbatim>\<open>NULL\<close> and changes nothing exactly when the request is empty,
  larger than the largest pool, or every pool with large enough blocks is empty and cannot grow.\<close>

theorem mh_malloc_correct:
  assumes "mh_inv st" and "mh_malloc os n f l st = (r, st')"
  shows "case r of
      Some b \<Rightarrow> \<not> in_use st b \<and> in_use st' b \<and> n \<le> length (payload st' b) \<and>
        (\<forall>x. in_use st x \<longrightarrow> in_use st' x \<and> payload st' x = payload st x)
    | None \<Rightarrow> st' = st \<and> (\<forall>j. 3 \<le> j \<and> j < MEM_POOLS_COUNT \<and> 0 < n \<and> n \<le> 2 ^ j \<longrightarrow>
        mpool_free_list st j = [] \<and>
        \<not> os_grants os (SIZEOF_MEMBLK_HDR + (SIZEOF_MEMBLK_HDR + 2 ^ j) * mpool_increase ! j))"
proof -
  have post: "alloc_post n st r st'" using mh_malloc_post [OF assms] .
  show ?thesis
  proof (cases r)
    case None
    have "mpool_free_list st j = [] \<and>
        \<not> os_grants os (SIZEOF_MEMBLK_HDR + (SIZEOF_MEMBLK_HDR + 2 ^ j) * mpool_increase ! j)"
      if "3 \<le> j \<and> j < MEM_POOLS_COUNT \<and> 0 < n \<and> n \<le> 2 ^ j" for j
      using malloc_loop_None [of os n f l 3 st st' j] assms(2) None that increase_pos [of j]
      by (simp add: mh_malloc_def)
    with None post show ?thesis by (simp add: alloc_post_def)
  next
    case (Some b)
    with post in_use_frame [OF assms(1) post] show ?thesis by (simp add: alloc_post_def)
  qed
qed

theorem mh_malloc_correct_witness:
  "\<exists>b st'. mh_malloc os_all 5 ''a.c'' 1 (mh_init_all mh_boot) = (Some b, st') \<and> in_use st' b \<and>
    5 \<le> length (payload st' b)"
proof -
  obtain b st where m: "mh_malloc os_all 5 ''a.c'' 1 (mh_init_all mh_boot) = (Some b, st)"
    using malloc_granted [OF mh_init_inv, of 5 "''a.c''" 1] by auto
  with mh_malloc_correct [OF mh_init_inv m] show ?thesis by auto
qed

text \<open>Two live allocations never share a block, and releasing what was just allocated gives back exactly
  the blocks that were in use before, with their contents; releasing it a second time changes nothing,
  because \<^verbatim>\<open>memfree\<close> looks the block up in the used list.\<close>

theorem mh_alloc_free_restores:
  assumes "mh_inv st" and "mh_malloc os n f l st = (Some b, st1)"
  shows "\<exists>st2. mh_free (Some b) st1 = Some st2 \<and> mh_inv st2 \<and> (\<forall>x. in_use st2 x \<longleftrightarrow> in_use st x) \<and>
    (\<forall>x. in_use st x \<longrightarrow> payload st2 x = payload st x) \<and> mh_free (Some b) st2 = Some st2"
proof -
  have b: "in_use st1 b" "mh_inv st1" "\<not> in_use st b"
    using mh_malloc_post [OF assms] by (auto simp: alloc_post_def)
  obtain st2 where st2: "mh_free (Some b) st1 = Some st2" "mh_inv st2" "\<forall>x. in_use st2 x \<longleftrightarrow> in_use st x"
    "\<forall>x. in_use st x \<longrightarrow> payload st2 x = payload st x"
    using heap.alloc_release [OF assms(1), of "(os, f, l)" n b st1] assms(2) by auto
  have "is_block st2 b" using mh_free_block [OF b(2) in_use_is_block [OF b(1)]] st2(1) by auto
  then have "mh_free (Some b) st2 = Some st2"
    using mh_free_block [OF st2(2)] st2(3) b(3) by fastforce
  with st2 show ?thesis by blast
qed

theorem mh_alloc_free_restores_witness:
  "\<exists>b st1 st2. mh_malloc os_all 100 ''a.c'' 1 (mh_init_all mh_boot) = (Some b, st1) \<and>
    mh_free (Some b) st1 = Some st2 \<and> mh_free (Some b) st2 = Some st2"
proof -
  obtain b st where m: "mh_malloc os_all 100 ''a.c'' 1 (mh_init_all mh_boot) = (Some b, st)"
    using malloc_granted [OF mh_init_inv, of 100 "''a.c''" 1] by auto
  with mh_alloc_free_restores [OF mh_init_inv m] show ?thesis by auto
qed

text \<open>\<^verbatim>\<open>mh_realloc\<close> of a block in use returns the same block when it is large enough, else a new block that
  starts with the old contents, and releases the old one. When no new block can be had it returns
  \<^verbatim>\<open>NULL\<close> and has released the old block all the same: the caller's data is gone.\<close>

theorem mh_realloc_cases:
  assumes "mh_inv st" and "in_use st b"
  shows "\<exists>r st'. mh_realloc os (Some b) n f l st = Some (r, st') \<and> mh_inv st' \<and>
    (if n \<le> length (payload st b) then r = Some b \<and> st' = st
     else (case r of
        Some b' \<Rightarrow> \<not> in_use st b' \<and> n \<le> length (payload st' b') \<and>
          take (length (payload st b)) (payload st' b') = payload st b \<and>
          (\<forall>x. in_use st' x \<longleftrightarrow> x = b' \<or> in_use st x \<and> x \<noteq> b)
      | None \<Rightarrow> \<not> in_use st' b \<and> (\<forall>x. in_use st' x \<longleftrightarrow> in_use st x \<and> x \<noteq> b)))"
proof (cases "n \<le> length (payload st b)")
  case True
  then show ?thesis using mh_realloc_keep [OF assms True] assms(1) by simp
next
  case False
  then have lt: "length (payload st b) < n" by simp
  obtain r st1 where m: "mh_malloc os n f l st = (r, st1)" by (cases "mh_malloc os n f l st")
  show ?thesis
  proof (cases r)
    case None
    then obtain st' where "mh_realloc os (Some b) n f l st = Some (None, st')" "mh_inv st'"
      "\<forall>x. in_use st' x \<longleftrightarrow> in_use st x \<and> x \<noteq> b"
      using mh_realloc_fail [OF assms lt, of os f l st1] m by auto
    with False show ?thesis by auto
  next
    case (Some b')
    have nu: "\<not> in_use st b'" using mh_malloc_post [OF assms(1) m] Some by (simp add: alloc_post_def)
    obtain st' where "mh_realloc os (Some b) n f l st = Some (Some b', st')" "mh_inv st'"
      "\<forall>x. in_use st' x \<longleftrightarrow> x = b' \<or> in_use st x \<and> x \<noteq> b" "n \<le> length (payload st' b')"
      "take (length (payload st b)) (payload st' b') = payload st b"
      using mh_realloc_grow [OF assms lt, of os f l b' st1] m Some by auto
    with False nu show ?thesis by auto
  qed
qed

theorem mh_realloc_cases_witness:
  "\<exists>b st r st'. mh_malloc os_all 5 ''a.c'' 1 (mh_init_all mh_boot) = (Some b, st) \<and>
    mh_realloc \<lparr>os_grants = (\<lambda>_. False), os_junk = NUL\<rparr> (Some b) 3000000 ''a.c'' 2 st = Some (r, st') \<and> mh_inv st'"
proof -
  obtain b st where m: "mh_malloc os_all 5 ''a.c'' 1 (mh_init_all mh_boot) = (Some b, st)"
    using malloc_granted [OF mh_init_inv, of 5 "''a.c''" 1] by auto
  then have "mh_inv st" "in_use st b"
    using mh_malloc_post [OF mh_init_inv m] by (auto simp: alloc_post_def)
  from mh_realloc_cases [OF this, of "\<lparr>os_grants = (\<lambda>_. False), os_junk = NUL\<rparr>" 3000000 "''a.c''" 2] m
  show ?thesis by blast
qed

text \<open>\<^verbatim>\<open>mh_calloc\<close> does not check its product: for any request of \<open>2^32\<close> bytes or more, a successful call
  returns a block smaller than the caller asked for.\<close>

theorem mh_calloc_overflow:
  assumes "mh_inv st" and "2 ^ 32 \<le> k * n" and "mh_calloc os k n f l st = Some (Some b, st')"
  shows "in_use st' b \<and> length (payload st' b) < k * n"
proof -
  let ?t = "k * n mod 2 ^ 32"
  obtain r1 st1 where m: "mh_malloc os ?t f l st = (r1, st1)" by (cases "mh_malloc os ?t f l st")
  have m': "mh_malloc os ?t f l st = (Some b, st1)" and s: "store b (replicate ?t NUL) st1 = Some st'"
    using assms(3) m unfolding mh_calloc_def Let_def by (cases r1; auto simp: bind_Some_iff)+
  have p: "mh_inv st1" "?t \<le> length (payload st1 b)" "in_use st1 b"
    using mh_malloc_post [OF assms(1) m'] by (auto simp: alloc_post_def)
  have st': "mh_inv st'" "in_use st' b"
    using store_spec [of "replicate ?t NUL" st1 b] p s by auto
  obtain i where i: "length (payload st' b) = 2 ^ i" "i < MEM_POOLS_COUNT"
    using in_use_payload [OF st'] by metis
  have "i < 32" using i(2) by (simp add: MEM_POOLS_COUNT_def)
  then have "(2::nat) ^ i < 2 ^ 32" by (rule power_strict_increasing) simp
  with i(1) assms(2) st'(2) show ?thesis by linarith
qed

theorem mh_calloc_overflow_witness:
  "\<exists>b st'. mh_calloc os_all 65537 65536 ''a.c'' 1 (mh_init_all mh_boot) = Some (Some b, st') \<and>
    length (payload st' b) < 65537 * 65536"
proof -
  obtain b st1 where m: "mh_malloc os_all 65536 ''a.c'' 1 (mh_init_all mh_boot) = (Some b, st1)"
    using malloc_granted [OF mh_init_inv, of 65536 "''a.c''" 1] by auto
  have "65536 \<le> length (payload st1 b)" using mh_malloc_post [OF mh_init_inv m] by (simp add: alloc_post_def)
  then obtain st' where "store b (replicate 65536 NUL) st1 = Some st'"
    using store_spec [of "replicate 65536 NUL" st1 b] by auto
  with m have "mh_calloc os_all 65537 65536 ''a.c'' 1 (mh_init_all mh_boot) = Some (Some b, st')"
    by (simp add: mh_calloc_def)
  with mh_calloc_overflow [OF mh_init_inv _ this] show ?thesis by auto
qed

text \<open>\<^verbatim>\<open>mh_free_all\<close> gives every super block back: afterwards no block header is left, all lists are empty
  and the module is consistent.\<close>

theorem mh_free_all_releases:
  assumes "mh_reach st"
  shows "hflags (mh_free_all st) = Map.empty \<and> mh_inv (mh_free_all st) \<and>
    (\<forall>i. mpool_free_list (mh_free_all st) i = [] \<and> mpool_used_list (mh_free_all st) i = [])"
  using mh_free_all_empty [OF mh_reach_mh_inv [OF assms]] by (simp add: mh_free_all_def mh_init_all_def)

theorem mh_free_all_releases_witness:
  "hflags (mh_free_all (mh_init_all mh_boot)) = Map.empty"
  using mh_free_all_releases [OF mh_reach.init] by blast

end
