(* ===== verification/Sloop.thy ===== *)
theory Sloop
  imports Dlist
begin

text \<open>
  The event loop of \<^verbatim>\<open>comlib/sloop.c\<close>: static pools of socket, timeout and signal entries that move
  between a free list and the lists of registered entries, and the loop around \<^verbatim>\<open>select\<close> that calls the
  handlers. An entry is its index in the static array; a list is the sequence its links represent (theory
  \<open>Dlist\<close>). The handlers are code of the clients: a handler is a parameter that chooses, from the state
  it is called in, the calls of this module it makes and the value it returns. What \<^verbatim>\<open>select\<close>, the clock and
  the signal pipe deliver is an input of each round. \<open>calls\<close> records the handler calls.
\<close>

definition SLOOP_TYPE_MASK :: u32 where "SLOOP_TYPE_MASK = 0x00ff"
definition SLOOP_TYPE_SOCKET :: u32 where "SLOOP_TYPE_SOCKET = 1"
definition SLOOP_TYPE_TIMEOUT :: u32 where "SLOOP_TYPE_TIMEOUT = 2"
definition SLOOP_TYPE_SIGNAL :: u32 where "SLOOP_TYPE_SIGNAL = 3"
definition SLOOP_INUSED :: u32 where "SLOOP_INUSED = 0x0100"
definition MAX_SLOOP_SOCKET :: nat where "MAX_SLOOP_SOCKET = 128"
definition MAX_SLOOP_TIMEOUT :: nat where "MAX_SLOOP_TIMEOUT = 128"
definition MAX_SLOOP_SIGNAL :: nat where "MAX_SLOOP_SIGNAL = 16"

record sloop_socket =
  sk_flags :: u32
  sk_sock :: int
  sk_param :: nat
  sk_handler :: nat

record sloop_timeout =
  tm_flags :: u32
  tm_time :: "int \<times> int"
  tm_param :: nat
  tm_handler :: "nat option"

record sloop_signal =
  sg_flags :: u32
  sg_sig :: int
  sg_param :: nat
  sg_handler :: nat

datatype call = CallSocket nat int nat | CallTimeout nat nat | CallSignal nat int nat

record sloop_data =
  terminate :: bool
  free_sockets :: "nat list"
  free_timeouts :: "nat list"
  free_signals :: "nat list"
  readers :: "nat list"
  writers :: "nat list"
  signals :: "nat list"
  timeouts :: "nat list"
  sloop_sockets :: "nat \<Rightarrow> sloop_socket"
  sloop_timeouts :: "nat \<Rightarrow> sloop_timeout"
  sloop_signals :: "nat \<Rightarrow> sloop_signal"
  caught :: "int set"
  calls :: "call list"

subsection \<open>Pools\<close>

definition sloop_init :: sloop_data where
  "sloop_init = \<lparr>terminate = False,
     free_sockets = rev [0..<MAX_SLOOP_SOCKET], free_timeouts = rev [0..<MAX_SLOOP_TIMEOUT],
     free_signals = rev [0..<MAX_SLOOP_SIGNAL], readers = [], writers = [], signals = [], timeouts = [],
     sloop_sockets = (\<lambda>_. \<lparr>sk_flags = 0, sk_sock = 0, sk_param = 0, sk_handler = 0\<rparr>),
     sloop_timeouts = (\<lambda>_. \<lparr>tm_flags = 0, tm_time = (0, 0), tm_param = 0, tm_handler = None\<rparr>),
     sloop_signals = (\<lambda>_. \<lparr>sg_flags = 0, sg_sig = 0, sg_param = 0, sg_handler = 0\<rparr>),
     caught = {}, calls = []\<rparr>"

definition get_socket :: "sloop_data \<Rightarrow> nat option \<times> sloop_data" where
  "get_socket st = (case free_sockets st of
      [] \<Rightarrow> (None, st)
    | x # xs \<Rightarrow> (Some x, st\<lparr>free_sockets := xs, sloop_sockets := (sloop_sockets st)
        (x := (sloop_sockets st x)\<lparr>sk_flags := SLOOP_INUSED OR SLOOP_TYPE_SOCKET\<rparr>)\<rparr>))"

definition get_timeout :: "sloop_data \<Rightarrow> nat option \<times> sloop_data" where
  "get_timeout st = (case free_timeouts st of
      [] \<Rightarrow> (None, st)
    | x # xs \<Rightarrow> (Some x, st\<lparr>free_timeouts := xs, sloop_timeouts := (sloop_timeouts st)
        (x := (sloop_timeouts st x)\<lparr>tm_flags := SLOOP_INUSED OR SLOOP_TYPE_TIMEOUT\<rparr>)\<rparr>))"

definition get_signal :: "sloop_data \<Rightarrow> nat option \<times> sloop_data" where
  "get_signal st = (case free_signals st of
      [] \<Rightarrow> (None, st)
    | x # xs \<Rightarrow> (Some x, st\<lparr>free_signals := xs, sloop_signals := (sloop_signals st)
        (x := (sloop_signals st x)\<lparr>sg_flags := SLOOP_INUSED OR SLOOP_TYPE_SIGNAL\<rparr>)\<rparr>))"

definition free_socket :: "nat \<Rightarrow> sloop_data \<Rightarrow> sloop_data" where
  "free_socket x st = st\<lparr>sloop_sockets := (sloop_sockets st)
     (x := (sloop_sockets st x)\<lparr>sk_flags := sk_flags (sloop_sockets st x) AND NOT SLOOP_INUSED\<rparr>),
     free_sockets := x # free_sockets st\<rparr>"

definition free_timeout :: "nat \<Rightarrow> sloop_data \<Rightarrow> sloop_data" where
  "free_timeout x st = st\<lparr>sloop_timeouts := (sloop_timeouts st)
     (x := (sloop_timeouts st x)\<lparr>tm_flags := tm_flags (sloop_timeouts st x) AND NOT SLOOP_INUSED\<rparr>),
     free_timeouts := x # free_timeouts st\<rparr>"

definition free_signal :: "nat \<Rightarrow> sloop_data \<Rightarrow> sloop_data" where
  "free_signal x st = st\<lparr>sloop_signals := (sloop_signals st)
     (x := (sloop_signals st x)\<lparr>sg_flags := sg_flags (sloop_signals st x) AND NOT SLOOP_INUSED\<rparr>),
     free_signals := x # free_signals st\<rparr>"

text \<open>\<^verbatim>\<open>dlist_del\<close> of an entry takes it out of whatever list it is in; an entry in no list has null links.\<close>

definition unlink_socket :: "nat \<Rightarrow> sloop_data \<Rightarrow> sloop_data option" where
  "unlink_socket x st =
     (if x \<in> set (readers st) then Some (st\<lparr>readers := remove1 x (readers st)\<rparr>)
      else if x \<in> set (writers st) then Some (st\<lparr>writers := remove1 x (writers st)\<rparr>)
      else if x \<in> set (free_sockets st) then Some (st\<lparr>free_sockets := remove1 x (free_sockets st)\<rparr>)
      else None)"

definition unlink_timeout :: "nat \<Rightarrow> sloop_data \<Rightarrow> sloop_data option" where
  "unlink_timeout x st =
     (if x \<in> set (timeouts st) then Some (st\<lparr>timeouts := remove1 x (timeouts st)\<rparr>)
      else if x \<in> set (free_timeouts st) then Some (st\<lparr>free_timeouts := remove1 x (free_timeouts st)\<rparr>)
      else None)"

definition unlink_signal :: "nat \<Rightarrow> sloop_data \<Rightarrow> sloop_data option" where
  "unlink_signal x st =
     (if x \<in> set (signals st) then Some (st\<lparr>signals := remove1 x (signals st)\<rparr>)
      else if x \<in> set (free_signals st) then Some (st\<lparr>free_signals := remove1 x (free_signals st)\<rparr>)
      else None)"

subsection \<open>Registration\<close>

datatype side = Readers | Writers

definition register_socket :: "int \<Rightarrow> nat \<Rightarrow> nat \<Rightarrow> side \<Rightarrow> sloop_data \<Rightarrow> nat option \<times> sloop_data" where
  "register_socket sk handler param head st = (case get_socket st of
      (None, st1) \<Rightarrow> (None, st1)
    | (Some x, st1) \<Rightarrow>
        (let st2 = st1\<lparr>sloop_sockets := (sloop_sockets st1)(x := (sloop_sockets st1 x)
               \<lparr>sk_sock := sk, sk_param := param, sk_handler := handler\<rparr>)\<rparr>
         in (Some x, case head of
              Readers \<Rightarrow> st2\<lparr>readers := x # readers st2\<rparr>
            | Writers \<Rightarrow> st2\<lparr>writers := x # writers st2\<rparr>)))"

definition sloop_register_read_sock :: "int \<Rightarrow> nat \<Rightarrow> nat \<Rightarrow> sloop_data \<Rightarrow> nat option \<times> sloop_data" where
  "sloop_register_read_sock sk handler param st = register_socket sk handler param Readers st"

definition sloop_register_write_sock :: "int \<Rightarrow> nat \<Rightarrow> nat \<Rightarrow> sloop_data \<Rightarrow> nat option \<times> sloop_data" where
  "sloop_register_write_sock sk handler param st = register_socket sk handler param Writers st"

text \<open>The \<^verbatim>\<open>while (!dlist_empty(head))\<close> loops of the cancel functions, over the list they empty.\<close>

fun cancel_readers :: "nat list \<Rightarrow> sloop_data \<Rightarrow> sloop_data" where
  "cancel_readers [] st = st"
| "cancel_readers (x # xs) st = cancel_readers xs (free_socket x (st\<lparr>readers := xs\<rparr>))"

fun cancel_writers :: "nat list \<Rightarrow> sloop_data \<Rightarrow> sloop_data" where
  "cancel_writers [] st = st"
| "cancel_writers (x # xs) st = cancel_writers xs (free_socket x (st\<lparr>writers := xs\<rparr>))"

definition cancel_socket :: "nat option \<Rightarrow> side \<Rightarrow> sloop_data \<Rightarrow> sloop_data option" where
  "cancel_socket target head st = (case target of
      Some x \<Rightarrow> do { st1 \<leftarrow> unlink_socket x st; Some (free_socket x st1) }
    | None \<Rightarrow> Some (case head of
        Readers \<Rightarrow> cancel_readers (readers st) st
      | Writers \<Rightarrow> cancel_writers (writers st) st))"

definition sloop_cancel_read_sock :: "nat option \<Rightarrow> sloop_data \<Rightarrow> sloop_data option" where
  "sloop_cancel_read_sock h st = cancel_socket h Readers st"

definition sloop_cancel_write_sock :: "nat option \<Rightarrow> sloop_data \<Rightarrow> sloop_data option" where
  "sloop_cancel_write_sock h st = cancel_socket h Writers st"

definition sloop_register_signal :: "int \<Rightarrow> nat \<Rightarrow> nat \<Rightarrow> sloop_data \<Rightarrow> nat option \<times> sloop_data" where
  "sloop_register_signal sig handler param st = (case get_signal st of
      (None, st1) \<Rightarrow> (None, st1)
    | (Some x, st1) \<Rightarrow>
        (Some x, st1\<lparr>sloop_signals := (sloop_signals st1)(x := (sloop_signals st1 x)
            \<lparr>sg_sig := sig, sg_param := param, sg_handler := handler\<rparr>),
          signals := x # signals st1, caught := insert sig (caught st1)\<rparr>))"

fun cancel_signals :: "nat list \<Rightarrow> sloop_data \<Rightarrow> sloop_data" where
  "cancel_signals [] st = st"
| "cancel_signals (x # xs) st = cancel_signals xs (free_signal x
     (st\<lparr>caught := caught st - {sg_sig (sloop_signals st x)}, signals := xs\<rparr>))"

definition sloop_cancel_signal :: "nat option \<Rightarrow> sloop_data \<Rightarrow> sloop_data option" where
  "sloop_cancel_signal h st = (case h of
      Some x \<Rightarrow> do {
        st1 \<leftarrow> unlink_signal x (st\<lparr>caught := caught st - {sg_sig (sloop_signals st x)}\<rparr>);
        Some (free_signal x st1) }
    | None \<Rightarrow> Some (cancel_signals (signals st) st))"

text \<open>\<^verbatim>\<open>while (tv_usec >= 1000000)\<close>\<close>

function carry_usec :: "int \<times> int \<Rightarrow> int \<times> int" where
  "carry_usec (s, u) = (if u \<ge> 1000000 then carry_usec (s + 1, u - 1000000) else (s, u))"
  by pat_completeness auto
termination by (relation "measure (\<lambda>(s, u). nat u)") auto

declare carry_usec.simps [simp del]

definition timer_less :: "int \<times> int \<Rightarrow> int \<times> int \<Rightarrow> bool" where
  "timer_less a b \<longleftrightarrow> (if fst a = fst b then snd a < snd b else fst a < fst b)"

definition timer_ge :: "int \<times> int \<Rightarrow> int \<times> int \<Rightarrow> bool" where
  "timer_ge a b \<longleftrightarrow> (if fst a = fst b then snd a \<ge> snd b else fst a \<ge> fst b)"

text \<open>The search loop and the insertion before the entry it stops at.\<close>

fun insert_timeout :: "(nat \<Rightarrow> int \<times> int) \<Rightarrow> nat \<Rightarrow> nat list \<Rightarrow> nat list" where
  "insert_timeout tm x [] = [x]"
| "insert_timeout tm x (y # ys) = (if timer_less (tm x) (tm y) then x # y # ys else y # insert_timeout tm x ys)"

text \<open>\<open>uptime\<close> is what \<^verbatim>\<open>get_uptime\<close> returns. The sum of a \<^verbatim>\<open>long\<close> and an \<^verbatim>\<open>unsigned int\<close> is
  unsigned and is stored in the \<^verbatim>\<open>long\<close> fields of 32 bits.\<close>

definition long32 :: "int \<Rightarrow> int" where
  "long32 i = (i + 2 ^ 31) mod 2 ^ 32 - 2 ^ 31"

definition sloop_register_timeout ::
    "int \<Rightarrow> nat \<Rightarrow> nat \<Rightarrow> nat option \<Rightarrow> nat \<Rightarrow> sloop_data \<Rightarrow> nat option \<times> sloop_data" where
  "sloop_register_timeout uptime secs usecs handler param st = (case get_timeout st of
      (None, st1) \<Rightarrow> (None, st1)
    | (Some x, st1) \<Rightarrow>
        (let t = carry_usec (long32 (uptime + int secs), long32 (int usecs));
             st2 = st1\<lparr>sloop_timeouts := (sloop_timeouts st1)(x := (sloop_timeouts st1 x)
               \<lparr>tm_time := t, tm_handler := handler, tm_param := param\<rparr>)\<rparr>
         in (Some x, st2\<lparr>timeouts := insert_timeout (\<lambda>i. tm_time (sloop_timeouts st2 i)) x (timeouts st2)\<rparr>)))"

fun cancel_timeouts :: "nat list \<Rightarrow> sloop_data \<Rightarrow> sloop_data" where
  "cancel_timeouts [] st = st"
| "cancel_timeouts (x # xs) st = cancel_timeouts xs (free_timeout x (st\<lparr>timeouts := xs\<rparr>))"

definition sloop_cancel_timeout :: "nat option \<Rightarrow> sloop_data \<Rightarrow> sloop_data option" where
  "sloop_cancel_timeout h st = (case h of
      Some x \<Rightarrow> do { st1 \<leftarrow> unlink_timeout x st; Some (free_timeout x st1) }
    | None \<Rightarrow> Some (cancel_timeouts (timeouts st) st))"

definition sloop_terminate :: "sloop_data \<Rightarrow> sloop_data" where
  "sloop_terminate st = st\<lparr>terminate := True\<rparr>"

subsection \<open>Handlers\<close>

text \<open>The calls of this module a handler makes.\<close>

datatype api =
    RegRead int nat nat
  | RegWrite int nat nat
  | RegSignal int nat nat
  | RegTimeout int nat nat "nat option" nat
  | CancelRead "nat option"
  | CancelWrite "nat option"
  | CancelSignal "nat option"
  | CancelTimeout "nat option"
  | Terminate

fun do_api :: "api \<Rightarrow> sloop_data \<Rightarrow> sloop_data option" where
  "do_api (RegRead sk h p) st = Some (snd (sloop_register_read_sock sk h p st))"
| "do_api (RegWrite sk h p) st = Some (snd (sloop_register_write_sock sk h p st))"
| "do_api (RegSignal sg h p) st = Some (snd (sloop_register_signal sg h p st))"
| "do_api (RegTimeout up s u h p) st = Some (snd (sloop_register_timeout up s u h p st))"
| "do_api (CancelRead h) st = sloop_cancel_read_sock h st"
| "do_api (CancelWrite h) st = sloop_cancel_write_sock h st"
| "do_api (CancelSignal h) st = sloop_cancel_signal h st"
| "do_api (CancelTimeout h) st = sloop_cancel_timeout h st"
| "do_api Terminate st = Some (sloop_terminate st)"

fun do_apis :: "api list \<Rightarrow> sloop_data \<Rightarrow> sloop_data option" where
  "do_apis [] st = Some st"
| "do_apis (a # as) st = do { st1 \<leftarrow> do_api a st; do_apis as st1 }"

type_synonym handlers = "call \<Rightarrow> sloop_data \<Rightarrow> int \<times> api list"

definition call_handler :: "handlers \<Rightarrow> call \<Rightarrow> sloop_data \<Rightarrow> (int \<times> sloop_data) option" where
  "call_handler H c st = (let (r, as) = H c st in
     do { st1 \<leftarrow> do_apis as (st\<lparr>calls := calls st @ [c]\<rparr>); Some (r, st1) })"

subsection \<open>The loop\<close>

text \<open>What a round gets from outside: the result of \<^verbatim>\<open>select\<close> (and whether the error is \<^verbatim>\<open>EINTR\<close>), the ready
  descriptors, whether the signal pipe is readable, the value read from it (\<open>None\<close> when \<^verbatim>\<open>read\<close> fails), and
  the uptime at the timeout check.\<close>

record round =
  r_res :: int
  r_eintr :: bool
  r_rfds :: "int list"
  r_wfds :: "int list"
  r_pipe :: bool
  r_sig :: "int option"
  r_now :: int

text \<open>The arguments of \<^verbatim>\<open>select\<close>: the time to wait (\<open>None\<close>: no limit) for uptime \<open>up\<close>, and the descriptors.\<close>

definition timersub :: "int \<times> int \<Rightarrow> int \<times> int \<Rightarrow> int \<times> int" where
  "timersub a b = (let s = fst a - fst b; u = snd a - snd b in
     if u < 0 then (s - 1, u + 1000000) else (s, u))"

definition select_tv :: "int \<Rightarrow> sloop_data \<Rightarrow> (int \<times> int) option" where
  "select_tv up st = (case timeouts st of
      [] \<Rightarrow> None
    | x # _ \<Rightarrow> (let t = tm_time (sloop_timeouts st x) in
        Some (if timer_ge (up, 0) t then (0, 0) else timersub t (up, 0))))"

definition select_fds :: "sloop_data \<Rightarrow> int list \<times> int list" where
  "select_fds st = (map (\<lambda>x. sk_sock (sloop_sockets st x)) (readers st),
     map (\<lambda>x. sk_sock (sloop_sockets st x)) (writers st))"

text \<open>The search for the handler of a signal; the loop leaves after the first match.\<close>

fun dispatch_signal :: "handlers \<Rightarrow> int \<Rightarrow> nat list \<Rightarrow> sloop_data \<Rightarrow> sloop_data option" where
  "dispatch_signal H sig [] st = Some st"
| "dispatch_signal H sig (x # xs) st =
     (let e = sloop_signals st x in
      if sg_sig e = sig then do {
        (r, st1) \<leftarrow> call_handler H (CallSignal (sg_handler e) (sg_sig e) (sg_param e)) st;
        if r < 0 then do { st2 \<leftarrow> unlink_signal x st1; Some (free_signal x st2) } else Some st1 }
      else dispatch_signal H sig xs st)"

text \<open>The boolean says whether the loop is left because of \<^verbatim>\<open>sloop.terminate\<close>.\<close>

definition check_signal :: "handlers \<Rightarrow> round \<Rightarrow> sloop_data \<Rightarrow> (bool \<times> sloop_data) option" where
  "check_signal H ev st =
     (if r_res ev > 0 \<and> r_pipe ev then
        (case r_sig ev of
           None \<Rightarrow> Some (False, st)
         | Some sig \<Rightarrow>
             if sig = 0 then Some (False, st)
             else if signals st \<noteq> [] then do {
               st1 \<leftarrow> dispatch_signal H sig (signals st) st; Some (terminate st1, st1) }
             else Some (False, st))
      else Some (False, st))"

text \<open>\<open>entry\<close> is the first timeout before \<^verbatim>\<open>select\<close> was called.\<close>

definition check_timeout :: "handlers \<Rightarrow> round \<Rightarrow> nat option \<Rightarrow> sloop_data \<Rightarrow> sloop_data option" where
  "check_timeout H ev entry st = (case entry of
      None \<Rightarrow> Some st
    | Some x \<Rightarrow>
        if timeouts st \<noteq> [] \<and> hd (timeouts st) = x then
          (let e = sloop_timeouts st x in
           if r_res ev = 0 \<or> timer_ge (r_now ev, 0) (tm_time e) then do {
             st1 \<leftarrow> (case tm_handler e of
                 Some h \<Rightarrow> do { (r, st1) \<leftarrow> call_handler H (CallTimeout h (tm_param e)) st; Some st1 }
               | None \<Rightarrow> Some st);
             st2 \<leftarrow> unlink_timeout x st1;
             Some (free_timeout x st2) }
           else Some st)
        else Some st)"

text \<open>Walking the socket entries. The pointer \<^verbatim>\<open>entry\<close> is an entry or the head of a list; after the handler
  it follows the link of the entry in the list the entry is in \<^emph>\<open>then\<close>. A head other than the one the
  loop compares with is no socket entry: going on from it is a fault.\<close>

datatype anchor = HeadReaders | HeadWriters | HeadFree
datatype pointer = Entry nat | Head anchor

fun next_in :: "nat \<Rightarrow> nat list \<Rightarrow> anchor \<Rightarrow> pointer" where
  "next_in x [] a = Head a"
| "next_in x (y # ys) a = (if x = y then (case ys of [] \<Rightarrow> Head a | z # _ \<Rightarrow> Entry z) else next_in x ys a)"

definition next_socket :: "sloop_data \<Rightarrow> nat \<Rightarrow> pointer" where
  "next_socket st x =
     (if x \<in> set (readers st) then next_in x (readers st) HeadReaders
      else if x \<in> set (writers st) then next_in x (writers st) HeadWriters
      else next_in x (free_sockets st) HeadFree)"

definition visit_socket :: "handlers \<Rightarrow> int list \<Rightarrow> nat \<Rightarrow> sloop_data \<Rightarrow> (pointer \<times> sloop_data) option" where
  "visit_socket H fds x st =
     (let e = sloop_sockets st x in do {
        (res, st1) \<leftarrow> (if sk_sock e \<in> set fds
           then call_handler H (CallSocket (sk_handler e) (sk_sock e) (sk_param e)) st else Some (0, st));
        let nxt = next_socket st1 x;
        st2 \<leftarrow> (if res < 0 then do { st2 \<leftarrow> unlink_socket x st1; Some (free_socket x st2) } else Some st1);
        Some (nxt, st2) })"

partial_function (option) walk_sockets ::
    "handlers \<Rightarrow> int list \<Rightarrow> anchor \<Rightarrow> pointer \<Rightarrow> sloop_data \<Rightarrow> sloop_data option" where
  "walk_sockets H fds a p st = (case p of
      Head a' \<Rightarrow> if a' = a then Some st else None
    | Entry x \<Rightarrow> Option.bind (visit_socket H fds x st) (\<lambda>(p', st'). walk_sockets H fds a p' st'))"

definition first_in :: "nat list \<Rightarrow> anchor \<Rightarrow> pointer" where
  "first_in xs a = (case xs of [] \<Rightarrow> Head a | x # _ \<Rightarrow> Entry x)"

definition check_readers :: "handlers \<Rightarrow> round \<Rightarrow> sloop_data \<Rightarrow> sloop_data option" where
  "check_readers H ev st = walk_sockets H (r_rfds ev) HeadReaders (first_in (readers st) HeadReaders) st"

definition check_writers :: "handlers \<Rightarrow> round \<Rightarrow> sloop_data \<Rightarrow> sloop_data option" where
  "check_writers H ev st = walk_sockets H (r_wfds ev) HeadWriters (first_in (writers st) HeadWriters) st"

text \<open>One round of the loop; the boolean says whether the loop is left by \<^verbatim>\<open>break\<close>.\<close>

definition sloop_round :: "handlers \<Rightarrow> round \<Rightarrow> sloop_data \<Rightarrow> (bool \<times> sloop_data) option" where
  "sloop_round H ev st =
     (let entry = (case timeouts st of [] \<Rightarrow> None | x # _ \<Rightarrow> Some x) in
      if r_res ev < 0 then Some (\<not> r_eintr ev, st)
      else do {
        (left, st1) \<leftarrow> check_signal H ev st;
        if left then Some (True, st1)
        else do {
          st2 \<leftarrow> check_timeout H ev entry st1;
          if r_res ev \<le> 0 then Some (False, st2)
          else do {
            st3 \<leftarrow> check_readers H ev st2;
            st4 \<leftarrow> check_writers H ev st3;
            Some (False, st4) } } })"

definition sloop_active :: "sloop_data \<Rightarrow> bool" where
  "sloop_active st \<longleftrightarrow> \<not> terminate st \<and>
     (timeouts st \<noteq> [] \<or> readers st \<noteq> [] \<or> writers st \<noteq> [] \<or> signals st \<noteq> [])"

definition sloop_finish :: "sloop_data \<Rightarrow> sloop_data option" where
  "sloop_finish st = do {
     st1 \<leftarrow> sloop_cancel_signal None st;
     st2 \<leftarrow> sloop_cancel_timeout None st1;
     st3 \<leftarrow> sloop_cancel_read_sock None st2;
     sloop_cancel_write_sock None st3 }"

text \<open>\<^verbatim>\<open>sloop_run\<close> over the rounds the environment delivers. The boolean is true when the function has
  returned, false when it waits in \<^verbatim>\<open>select\<close> for a further round.\<close>

fun sloop_run :: "handlers \<Rightarrow> round list \<Rightarrow> sloop_data \<Rightarrow> (bool \<times> sloop_data) option" where
  "sloop_run H evs st =
     (if sloop_active st then
        (case evs of
           [] \<Rightarrow> Some (False, st)
         | ev # evs' \<Rightarrow> do {
             (left, st1) \<leftarrow> sloop_round H ev st;
             if left then do { st2 \<leftarrow> sloop_finish st1; Some (True, st2) } else sloop_run H evs' st1 })
      else do { st1 \<leftarrow> sloop_finish st; Some (True, st1) })"

declare sloop_run.simps [simp del]

subsection \<open>The invariant\<close>

definition pool_split :: "nat \<Rightarrow> nat list \<Rightarrow> bool" where
  "pool_split n xs \<longleftrightarrow> distinct xs \<and> set xs = {..<n}"

abbreviation tm :: "sloop_data \<Rightarrow> nat \<Rightarrow> int \<times> int" where
  "tm st x \<equiv> tm_time (sloop_timeouts st x)"

definition in_used :: "u32 \<Rightarrow> bool" where "in_used f \<longleftrightarrow> f AND SLOOP_INUSED \<noteq> 0"

text \<open>Every entry is in exactly one list of its kind, its flag says which, and the timeouts are sorted.\<close>

definition sockets_ok :: "sloop_data \<Rightarrow> bool" where
  "sockets_ok st \<longleftrightarrow> pool_split MAX_SLOOP_SOCKET (free_sockets st @ readers st @ writers st) \<and>
     (\<forall>x < MAX_SLOOP_SOCKET. in_used (sk_flags (sloop_sockets st x)) \<longleftrightarrow> x \<notin> set (free_sockets st))"

definition timeouts_ok :: "sloop_data \<Rightarrow> bool" where
  "timeouts_ok st \<longleftrightarrow> pool_split MAX_SLOOP_TIMEOUT (free_timeouts st @ timeouts st) \<and>
     (\<forall>x < MAX_SLOOP_TIMEOUT. in_used (tm_flags (sloop_timeouts st x)) \<longleftrightarrow> x \<notin> set (free_timeouts st)) \<and>
     sorted_wrt (\<lambda>x y. \<not> timer_less (tm st y) (tm st x)) (timeouts st)"

definition signals_ok :: "sloop_data \<Rightarrow> bool" where
  "signals_ok st \<longleftrightarrow> pool_split MAX_SLOOP_SIGNAL (free_signals st @ signals st) \<and>
     (\<forall>x < MAX_SLOOP_SIGNAL. in_used (sg_flags (sloop_signals st x)) \<longleftrightarrow> x \<notin> set (free_signals st))"

definition sloop_inv :: "sloop_data \<Rightarrow> bool" where
  "sloop_inv st \<longleftrightarrow> sockets_ok st \<and> timeouts_ok st \<and> signals_ok st"

lemma in_used_flags [simp]:
  "in_used (SLOOP_INUSED OR SLOOP_TYPE_SOCKET)" "in_used (SLOOP_INUSED OR SLOOP_TYPE_TIMEOUT)"
  "in_used (SLOOP_INUSED OR SLOOP_TYPE_SIGNAL)" "\<not> in_used 0"
  by code_simp+

lemma in_used_cleared [simp]: "\<not> in_used (f AND NOT SLOOP_INUSED)"
  by (simp add: in_used_def and.assoc)

lemma sloop_init_inv: "sloop_inv sloop_init"
  by (auto simp: sloop_inv_def sockets_ok_def timeouts_ok_def signals_ok_def sloop_init_def pool_split_def)

lemma pool_move:
  "pool_split n (xs @ y # ys @ zs) \<longleftrightarrow> pool_split n (y # xs @ ys @ zs)"
  "pool_split n (xs @ ys @ y # zs) \<longleftrightarrow> pool_split n (y # xs @ ys @ zs)"
  "pool_split n (xs @ y # ys) \<longleftrightarrow> pool_split n (y # xs @ ys)"
  by (auto simp: pool_split_def)

lemma pool_remove1:
  "x \<in> set ys \<Longrightarrow> pool_split n (xs @ ys @ zs) \<Longrightarrow> pool_split n (x # xs @ remove1 x ys @ zs)"
  "x \<in> set zs \<Longrightarrow> pool_split n (xs @ ys @ zs) \<Longrightarrow> pool_split n (x # xs @ ys @ remove1 x zs)"
  "x \<in> set xs \<Longrightarrow> pool_split n (xs @ ys) \<Longrightarrow> pool_split n (x # remove1 x xs @ ys)"
  "x \<in> set ys \<Longrightarrow> pool_split n (xs @ ys) \<Longrightarrow> pool_split n (x # xs @ remove1 x ys)"
  unfolding pool_split_def by (auto simp: set_remove1_eq)

text \<open>Each group of operations touches one kind of entries only.\<close>

lemma sockets_ok_cong:
  "free_sockets st' = free_sockets st \<Longrightarrow> readers st' = readers st \<Longrightarrow> writers st' = writers st \<Longrightarrow>
    sloop_sockets st' = sloop_sockets st \<Longrightarrow> sockets_ok st' = sockets_ok st"
  by (simp add: sockets_ok_def)

lemma timeouts_ok_cong:
  "free_timeouts st' = free_timeouts st \<Longrightarrow> timeouts st' = timeouts st \<Longrightarrow>
    sloop_timeouts st' = sloop_timeouts st \<Longrightarrow> timeouts_ok st' = timeouts_ok st"
  by (simp add: timeouts_ok_def)

lemma signals_ok_cong:
  "free_signals st' = free_signals st \<Longrightarrow> signals st' = signals st \<Longrightarrow>
    sloop_signals st' = sloop_signals st \<Longrightarrow> signals_ok st' = signals_ok st"
  by (simp add: signals_ok_def)

definition same_sockets :: "sloop_data \<Rightarrow> sloop_data \<Rightarrow> bool" where
  "same_sockets st st' \<longleftrightarrow> free_sockets st' = free_sockets st \<and> readers st' = readers st \<and>
     writers st' = writers st \<and> sloop_sockets st' = sloop_sockets st"

definition same_timeouts :: "sloop_data \<Rightarrow> sloop_data \<Rightarrow> bool" where
  "same_timeouts st st' \<longleftrightarrow> free_timeouts st' = free_timeouts st \<and> timeouts st' = timeouts st \<and>
     sloop_timeouts st' = sloop_timeouts st"

definition same_signals :: "sloop_data \<Rightarrow> sloop_data \<Rightarrow> bool" where
  "same_signals st st' \<longleftrightarrow> free_signals st' = free_signals st \<and> signals st' = signals st \<and>
     sloop_signals st' = sloop_signals st"

lemmas same_defs = same_sockets_def same_timeouts_def same_signals_def

lemma sloop_inv_sockets:
  "sloop_inv st \<Longrightarrow> same_timeouts st st' \<Longrightarrow> same_signals st st' \<Longrightarrow> sockets_ok st' \<Longrightarrow> sloop_inv st'"
  using timeouts_ok_cong [of st' st] signals_ok_cong [of st' st] by (simp add: sloop_inv_def same_defs)

lemma sloop_inv_timeouts:
  "sloop_inv st \<Longrightarrow> same_sockets st st' \<Longrightarrow> same_signals st st' \<Longrightarrow> timeouts_ok st' \<Longrightarrow> sloop_inv st'"
  using sockets_ok_cong [of st' st] signals_ok_cong [of st' st] by (simp add: sloop_inv_def same_defs)

lemma sloop_inv_signals:
  "sloop_inv st \<Longrightarrow> same_sockets st st' \<Longrightarrow> same_timeouts st st' \<Longrightarrow> signals_ok st' \<Longrightarrow> sloop_inv st'"
  using sockets_ok_cong [of st' st] timeouts_ok_cong [of st' st] by (simp add: sloop_inv_def same_defs)

subsection \<open>Socket entries\<close>

lemma pool_split_less: "pool_split n xs \<Longrightarrow> x \<in> set xs \<longleftrightarrow> x < n"
  by (auto simp: pool_split_def)

lemma register_socket_ok:
  assumes "sockets_ok st"
  shows "sockets_ok (snd (register_socket sk h p head st))"
proof (cases "free_sockets st")
  case Nil
  then show ?thesis using assms by (simp add: register_socket_def get_socket_def)
next
  case (Cons x xs)
  then have ps: "pool_split MAX_SLOOP_SOCKET (x # xs @ readers st @ writers st)"
    using assms by (simp add: sockets_ok_def)
  then have "x \<notin> set xs" by (simp add: pool_split_def)
  with assms Cons ps show ?thesis
    by (cases head) (auto simp: sockets_ok_def register_socket_def get_socket_def Let_def pool_move)
qed

lemma register_socket_same:
  "same_timeouts st (snd (register_socket sk h p head st))" "same_signals st (snd (register_socket sk h p head st))"
  by (auto simp: same_defs register_socket_def get_socket_def Let_def split: list.split side.split)

lemma unlink_free_socket_ok:
  assumes "sockets_ok st" and "unlink_socket x st = Some st1"
  shows "sockets_ok (free_socket x st1)"
proof -
  have ps: "pool_split MAX_SLOOP_SOCKET (free_sockets st @ readers st @ writers st)"
    using assms(1) by (simp add: sockets_ok_def)
  have fl: "in_used (sk_flags (sloop_sockets st y)) \<longleftrightarrow> y \<notin> set (free_sockets st)"
    if "y < MAX_SLOOP_SOCKET" for y using assms(1) that by (simp add: sockets_ok_def)
  consider (r) "x \<in> set (readers st)" "st1 = st\<lparr>readers := remove1 x (readers st)\<rparr>"
    | (w) "x \<in> set (writers st)" "st1 = st\<lparr>writers := remove1 x (writers st)\<rparr>"
    | (f) "x \<in> set (free_sockets st)" "st1 = st\<lparr>free_sockets := remove1 x (free_sockets st)\<rparr>"
    using assms(2) by (auto simp: unlink_socket_def split: if_splits)
  then show ?thesis
  proof cases
    case r
    with pool_remove1(1) [OF r(1) ps] fl show ?thesis by (simp add: sockets_ok_def free_socket_def)
  next
    case w
    with pool_remove1(2) [OF w(1) ps] fl show ?thesis by (simp add: sockets_ok_def free_socket_def)
  next
    case f
    have "set (remove1 x (free_sockets st)) = set (free_sockets st) - {x}"
      using ps by (simp add: pool_split_def set_remove1_eq)
    with f pool_remove1(3) [OF f(1) ps] fl show ?thesis by (simp add: sockets_ok_def free_socket_def)
  qed
qed

lemma unlink_socket_total:
  assumes "sockets_ok st" and "x < MAX_SLOOP_SOCKET"
  shows "\<exists>st1. unlink_socket x st = Some st1"
proof -
  have "x \<in> set (free_sockets st @ readers st @ writers st)"
    using assms pool_split_less by (auto simp: sockets_ok_def pool_split_def)
  then show ?thesis by (auto simp: unlink_socket_def)
qed

lemma unlink_socket_same:
  assumes "unlink_socket x st = Some st1"
  shows "same_timeouts st (free_socket x st1)" "same_signals st (free_socket x st1)"
  using assms by (auto simp: unlink_socket_def free_socket_def same_defs split: if_splits)

lemma cancel_readers_spec:
  assumes "sockets_ok st" and "readers st = xs"
  shows "sockets_ok (cancel_readers xs st) \<and> readers (cancel_readers xs st) = [] \<and>
    writers (cancel_readers xs st) = writers st \<and> same_timeouts st (cancel_readers xs st) \<and>
    same_signals st (cancel_readers xs st) \<and> terminate (cancel_readers xs st) = terminate st"
  using assms
proof (induction xs arbitrary: st)
  case Nil
  then show ?case by (simp add: same_defs)
next
  case (Cons x xs)
  let ?s = "free_socket x (st\<lparr>readers := xs\<rparr>)"
  have "unlink_socket x st = Some (st\<lparr>readers := xs\<rparr>)" using Cons.prems(2) by (simp add: unlink_socket_def)
  from unlink_free_socket_ok [OF Cons.prems(1) this] have "sockets_ok ?s" .
  from Cons.IH [OF this] Cons.prems(2) show ?case by (simp add: free_socket_def same_defs)
qed

lemma cancel_writers_spec:
  assumes "sockets_ok st" and "writers st = xs"
  shows "sockets_ok (cancel_writers xs st) \<and> readers (cancel_writers xs st) = readers st \<and>
    writers (cancel_writers xs st) = [] \<and> same_timeouts st (cancel_writers xs st) \<and>
    same_signals st (cancel_writers xs st) \<and> terminate (cancel_writers xs st) = terminate st"
  using assms
proof (induction xs arbitrary: st)
  case Nil
  then show ?case by (simp add: same_defs)
next
  case (Cons x xs)
  let ?s = "free_socket x (st\<lparr>writers := xs\<rparr>)"
  have "x \<notin> set (readers st)" using Cons.prems by (auto simp: sockets_ok_def pool_split_def)
  then have "unlink_socket x st = Some (st\<lparr>writers := xs\<rparr>)" using Cons.prems(2) by (simp add: unlink_socket_def)
  from unlink_free_socket_ok [OF Cons.prems(1) this] have "sockets_ok ?s" .
  from Cons.IH [OF this] Cons.prems(2) show ?case by (simp add: free_socket_def same_defs)
qed

subsection \<open>Signal entries\<close>

lemma register_signal_ok:
  assumes "signals_ok st"
  shows "signals_ok (snd (sloop_register_signal sg h p st))"
proof (cases "free_signals st")
  case Nil
  then show ?thesis using assms by (simp add: sloop_register_signal_def get_signal_def)
next
  case (Cons x xs)
  then have ps: "pool_split MAX_SLOOP_SIGNAL (x # xs @ signals st)" using assms by (simp add: signals_ok_def)
  then have "x \<notin> set xs" by (simp add: pool_split_def)
  with assms Cons ps show ?thesis
    by (auto simp: signals_ok_def sloop_register_signal_def get_signal_def pool_move)
qed

lemma register_signal_same:
  "same_timeouts st (snd (sloop_register_signal sg h p st))" "same_sockets st (snd (sloop_register_signal sg h p st))"
  by (auto simp: same_defs sloop_register_signal_def get_signal_def split: list.split)

lemma unlink_free_signal_ok:
  assumes "signals_ok st" and "unlink_signal x st = Some st1"
  shows "signals_ok (free_signal x st1)"
proof -
  have ps: "pool_split MAX_SLOOP_SIGNAL (free_signals st @ signals st)" using assms(1) by (simp add: signals_ok_def)
  have fl: "in_used (sg_flags (sloop_signals st y)) \<longleftrightarrow> y \<notin> set (free_signals st)"
    if "y < MAX_SLOOP_SIGNAL" for y using assms(1) that by (simp add: signals_ok_def)
  consider (r) "x \<in> set (signals st)" "st1 = st\<lparr>signals := remove1 x (signals st)\<rparr>"
    | (f) "x \<in> set (free_signals st)" "st1 = st\<lparr>free_signals := remove1 x (free_signals st)\<rparr>"
    using assms(2) by (auto simp: unlink_signal_def split: if_splits)
  then show ?thesis
  proof cases
    case r
    with pool_remove1(4) [OF r(1) ps] fl show ?thesis by (simp add: signals_ok_def free_signal_def)
  next
    case f
    have "set (remove1 x (free_signals st)) = set (free_signals st) - {x}"
      using ps by (simp add: pool_split_def set_remove1_eq)
    with f pool_remove1(3) [OF f(1) ps] fl show ?thesis by (simp add: signals_ok_def free_signal_def)
  qed
qed

lemma unlink_signal_same:
  assumes "unlink_signal x st = Some st1"
  shows "same_timeouts st (free_signal x st1)" "same_sockets st (free_signal x st1)"
  using assms by (auto simp: unlink_signal_def free_signal_def same_defs split: if_splits)

lemma cancel_signals_spec:
  assumes "signals_ok st" and "signals st = xs"
  shows "signals_ok (cancel_signals xs st) \<and> signals (cancel_signals xs st) = [] \<and>
    same_timeouts st (cancel_signals xs st) \<and> same_sockets st (cancel_signals xs st) \<and>
    terminate (cancel_signals xs st) = terminate st"
  using assms
proof (induction xs arbitrary: st)
  case Nil
  then show ?case by (simp add: same_defs)
next
  case (Cons x xs)
  let ?c = "st\<lparr>caught := caught st - {sg_sig (sloop_signals st x)}\<rparr>"
  have "unlink_signal x ?c = Some (?c\<lparr>signals := xs\<rparr>)" using Cons.prems(2) by (simp add: unlink_signal_def)
  moreover have "signals_ok ?c" using Cons.prems(1) signals_ok_cong [of ?c st] by simp
  ultimately have "signals_ok (free_signal x (?c\<lparr>signals := xs\<rparr>))" by (rule unlink_free_signal_ok [rotated])
  from Cons.IH [OF this] show ?case by (simp add: free_signal_def same_defs)
qed

subsection \<open>Timeout entries\<close>

lemma insert_timeout_set: "set (insert_timeout f x ys) = insert x (set ys)"
  by (induction ys) auto

lemma insert_timeout_distinct: "distinct (insert_timeout f x ys) \<longleftrightarrow> x \<notin> set ys \<and> distinct ys"
  by (induction ys) (auto simp: insert_timeout_set)

lemma timer_less_trans: "\<not> timer_less a b \<Longrightarrow> \<not> timer_less b c \<Longrightarrow> \<not> timer_less a c"
  by (auto simp: timer_less_def split: if_splits)

lemma timer_less_asym: "timer_less a b \<Longrightarrow> \<not> timer_less b a"
  by (auto simp: timer_less_def split: if_splits)

lemma insert_timeout_sorted:
  assumes "sorted_wrt (\<lambda>x y. \<not> timer_less (f y) (f x)) ys"
  shows "sorted_wrt (\<lambda>x y. \<not> timer_less (f y) (f x)) (insert_timeout f x ys)"
  using assms
proof (induction ys)
  case Nil
  then show ?case by simp
next
  case (Cons y ys)
  show ?case
  proof (cases "timer_less (f x) (f y)")
    case True
    then have "\<not> timer_less (f y) (f x)" by (rule timer_less_asym)
    with True Cons.prems show ?thesis by (auto dest: timer_less_trans)
  next
    case False
    with Cons show ?thesis by (auto simp: insert_timeout_set)
  qed
qed

lemma sorted_wrt_cong_on:
  "(\<And>x y. x \<in> set xs \<Longrightarrow> y \<in> set xs \<Longrightarrow> P x y = Q x y) \<Longrightarrow> sorted_wrt P xs = sorted_wrt Q xs"
  by (induction xs) auto

lemma register_timeout_ok:
  assumes "timeouts_ok st"
  shows "timeouts_ok (snd (sloop_register_timeout up s u h p st))"
proof (cases "free_timeouts st")
  case Nil
  then show ?thesis using assms by (simp add: sloop_register_timeout_def get_timeout_def)
next
  case (Cons x xs)
  then have ps: "pool_split MAX_SLOOP_TIMEOUT (x # xs @ timeouts st)" using assms by (simp add: timeouts_ok_def)
  then have x: "x \<notin> set xs" "x \<notin> set (timeouts st)" by (simp_all add: pool_split_def)
  let ?st' = "snd (sloop_register_timeout up s u h p st)"
  have lists: "free_timeouts ?st' = xs" "timeouts ?st' = insert_timeout (tm ?st') x (timeouts st)"
    "\<And>y. y \<noteq> x \<Longrightarrow> sloop_timeouts ?st' y = sloop_timeouts st y" "in_used (tm_flags (sloop_timeouts ?st' x))"
    using Cons by (auto simp: sloop_register_timeout_def get_timeout_def Let_def fun_upd_def)
  have "sorted_wrt (\<lambda>a b. \<not> timer_less (tm ?st' b) (tm ?st' a)) (timeouts st) \<longleftrightarrow>
      sorted_wrt (\<lambda>a b. \<not> timer_less (tm st b) (tm st a)) (timeouts st)"
    using x(2) lists(3) by (intro sorted_wrt_cong_on) metis
  then have "sorted_wrt (\<lambda>a b. \<not> timer_less (tm ?st' b) (tm ?st' a)) (timeouts ?st')"
    using assms insert_timeout_sorted unfolding lists(2) by (simp add: timeouts_ok_def)
  moreover have "pool_split MAX_SLOOP_TIMEOUT (free_timeouts ?st' @ timeouts ?st')"
    using ps unfolding lists(1,2) pool_split_def by (auto simp: insert_timeout_set insert_timeout_distinct)
  moreover have "in_used (tm_flags (sloop_timeouts ?st' y)) \<longleftrightarrow> y \<notin> set (free_timeouts ?st')"
    if "y < MAX_SLOOP_TIMEOUT" for y
    using assms that lists(1,3,4) Cons x(1) by (cases "y = x") (auto simp: timeouts_ok_def)
  ultimately show ?thesis unfolding timeouts_ok_def by blast
qed

lemma register_timeout_same:
  "same_sockets st (snd (sloop_register_timeout up s u h p st))"
  "same_signals st (snd (sloop_register_timeout up s u h p st))"
  by (auto simp: same_defs sloop_register_timeout_def get_timeout_def Let_def split: list.split)

lemma sorted_wrt_remove1: "sorted_wrt P xs \<Longrightarrow> sorted_wrt P (remove1 x xs)"
  by (induction xs) (auto dest: in_set_remove1 notin_set_remove1)

lemma unlink_free_timeout_ok:
  assumes "timeouts_ok st" and "unlink_timeout x st = Some st1"
  shows "timeouts_ok (free_timeout x st1)"
proof -
  have ps: "pool_split MAX_SLOOP_TIMEOUT (free_timeouts st @ timeouts st)" using assms(1) by (simp add: timeouts_ok_def)
  have fl: "in_used (tm_flags (sloop_timeouts st y)) \<longleftrightarrow> y \<notin> set (free_timeouts st)"
    if "y < MAX_SLOOP_TIMEOUT" for y using assms(1) that by (simp add: timeouts_ok_def)
  have so: "sorted_wrt (\<lambda>a b. \<not> timer_less (tm st b) (tm st a)) (timeouts st)"
    using assms(1) by (simp add: timeouts_ok_def)
  have tm: "tm (free_timeout x st1) y = tm st y" for y
    using assms(2) by (auto simp: unlink_timeout_def free_timeout_def split: if_splits)
  consider (r) "x \<in> set (timeouts st)" "st1 = st\<lparr>timeouts := remove1 x (timeouts st)\<rparr>"
    | (f) "x \<in> set (free_timeouts st)" "st1 = st\<lparr>free_timeouts := remove1 x (free_timeouts st)\<rparr>"
    using assms(2) by (auto simp: unlink_timeout_def split: if_splits)
  then show ?thesis
  proof cases
    case r
    with pool_remove1(4) [OF r(1) ps] fl sorted_wrt_remove1 [OF so, of x] tm show ?thesis
      unfolding timeouts_ok_def tm by (simp add: free_timeout_def)
  next
    case f
    have "set (remove1 x (free_timeouts st)) = set (free_timeouts st) - {x}"
      using ps by (simp add: pool_split_def set_remove1_eq)
    with f pool_remove1(3) [OF f(1) ps] fl so tm show ?thesis
      unfolding timeouts_ok_def tm by (simp add: free_timeout_def)
  qed
qed

lemma unlink_timeout_same:
  assumes "unlink_timeout x st = Some st1"
  shows "same_sockets st (free_timeout x st1)" "same_signals st (free_timeout x st1)"
  using assms by (auto simp: unlink_timeout_def free_timeout_def same_defs split: if_splits)

lemma cancel_timeouts_spec:
  assumes "timeouts_ok st" and "timeouts st = xs"
  shows "timeouts_ok (cancel_timeouts xs st) \<and> timeouts (cancel_timeouts xs st) = [] \<and>
    same_sockets st (cancel_timeouts xs st) \<and> same_signals st (cancel_timeouts xs st) \<and>
    terminate (cancel_timeouts xs st) = terminate st"
  using assms
proof (induction xs arbitrary: st)
  case Nil
  then show ?case by (simp add: same_defs)
next
  case (Cons x xs)
  have "unlink_timeout x st = Some (st\<lparr>timeouts := xs\<rparr>)" using Cons.prems(2) by (simp add: unlink_timeout_def)
  from unlink_free_timeout_ok [OF Cons.prems(1) this] have "timeouts_ok (free_timeout x (st\<lparr>timeouts := xs\<rparr>))" .
  from Cons.IH [OF this] show ?case by (simp add: free_timeout_def same_defs)
qed

subsection \<open>Every operation keeps the invariant\<close>

lemma do_api_inv:
  assumes "sloop_inv st" and "do_api a st = Some st'"
  shows "sloop_inv st'"
proof -
  have ok: "sockets_ok st" "timeouts_ok st" "signals_ok st" using assms(1) by (simp_all add: sloop_inv_def)
  note sk = sloop_inv_sockets [OF assms(1)] and tmo = sloop_inv_timeouts [OF assms(1)]
    and sg = sloop_inv_signals [OF assms(1)]
  show ?thesis
  proof (cases a)
    case (RegRead x h p)
    with assms(2) sk register_socket_ok [OF ok(1)] register_socket_same show ?thesis
      by (auto simp: sloop_register_read_sock_def)
  next
    case (RegWrite x h p)
    with assms(2) sk register_socket_ok [OF ok(1)] register_socket_same show ?thesis
      by (auto simp: sloop_register_write_sock_def)
  next
    case (RegSignal x h p)
    with assms(2) sg register_signal_ok [OF ok(3)] register_signal_same show ?thesis by auto
  next
    case (RegTimeout up s u h p)
    with assms(2) tmo register_timeout_ok [OF ok(2)] register_timeout_same show ?thesis by auto
  next
    case (CancelRead h)
    with assms(2) sk cancel_readers_spec [OF ok(1) refl] unlink_free_socket_ok [OF ok(1)] unlink_socket_same
    show ?thesis
      by (cases h) (auto simp: sloop_cancel_read_sock_def cancel_socket_def bind_Some_iff)
  next
    case (CancelWrite h)
    with assms(2) sk cancel_writers_spec [OF ok(1) refl] unlink_free_socket_ok [OF ok(1)] unlink_socket_same
    show ?thesis
      by (cases h) (auto simp: sloop_cancel_write_sock_def cancel_socket_def bind_Some_iff)
  next
    case (CancelSignal h)
    show ?thesis
    proof (cases h)
      case None
      with CancelSignal assms(2) sg cancel_signals_spec [OF ok(3) refl] show ?thesis
        by (auto simp: sloop_cancel_signal_def)
    next
      case (Some x)
      let ?c = "st\<lparr>caught := caught st - {sg_sig (sloop_signals st x)}\<rparr>"
      obtain st1 where u: "unlink_signal x ?c = Some st1" "st' = free_signal x st1"
        using assms(2) CancelSignal Some by (auto simp: sloop_cancel_signal_def bind_Some_iff)
      have "signals_ok ?c" using ok(3) signals_ok_cong [of ?c st] by simp
      from unlink_free_signal_ok [OF this u(1)] unlink_signal_same [OF u(1)] sg u(2) show ?thesis
        by (simp add: same_defs)
    qed
  next
    case (CancelTimeout h)
    with assms(2) tmo cancel_timeouts_spec [OF ok(2) refl] unlink_free_timeout_ok [OF ok(2)] unlink_timeout_same
    show ?thesis
      by (cases h) (auto simp: sloop_cancel_timeout_def bind_Some_iff)
  next
    case Terminate
    with assms show ?thesis
      using sk [of st'] register_socket_same by (auto simp: sloop_terminate_def same_defs sockets_ok_def sloop_inv_def)
  qed
qed

lemma do_apis_inv: "sloop_inv st \<Longrightarrow> do_apis as st = Some st' \<Longrightarrow> sloop_inv st'"
  by (induction as arbitrary: st) (auto simp: bind_Some_iff dest: do_api_inv)

lemma sloop_inv_calls: "sloop_inv (st\<lparr>calls := c\<rparr>) = sloop_inv st"
  by (simp add: sloop_inv_def sockets_ok_def timeouts_ok_def signals_ok_def)

lemma call_handler_inv: "sloop_inv st \<Longrightarrow> call_handler H c st = Some (r, st') \<Longrightarrow> sloop_inv st'"
  using do_apis_inv [of "st\<lparr>calls := calls st @ [c]\<rparr>"]
  by (auto simp: call_handler_def sloop_inv_calls bind_Some_iff split: prod.splits)

lemma drop_socket_inv: "sloop_inv st \<Longrightarrow> unlink_socket x st = Some st1 \<Longrightarrow> sloop_inv (free_socket x st1)"
  using sloop_inv_sockets unlink_free_socket_ok unlink_socket_same by (metis sloop_inv_def)

lemma drop_timeout_inv: "sloop_inv st \<Longrightarrow> unlink_timeout x st = Some st1 \<Longrightarrow> sloop_inv (free_timeout x st1)"
  using sloop_inv_timeouts unlink_free_timeout_ok unlink_timeout_same by (metis sloop_inv_def)

lemma drop_signal_inv: "sloop_inv st \<Longrightarrow> unlink_signal x st = Some st1 \<Longrightarrow> sloop_inv (free_signal x st1)"
  using sloop_inv_signals unlink_free_signal_ok unlink_signal_same by (metis sloop_inv_def)

lemma dispatch_signal_inv: "sloop_inv st \<Longrightarrow> dispatch_signal H sig xs st = Some st' \<Longrightarrow> sloop_inv st'"
  by (induction xs)
    (auto simp: Let_def bind_Some_iff split: if_splits dest: call_handler_inv drop_signal_inv)

lemma check_signal_inv: "sloop_inv st \<Longrightarrow> check_signal H ev st = Some (b, st') \<Longrightarrow> sloop_inv st'"
  by (auto simp: check_signal_def bind_Some_iff split: if_splits option.splits dest: dispatch_signal_inv)

lemma check_timeout_inv: "sloop_inv st \<Longrightarrow> check_timeout H ev e st = Some st' \<Longrightarrow> sloop_inv st'"
  by (auto simp: check_timeout_def Let_def bind_Some_iff split: if_splits option.splits
      dest: call_handler_inv drop_timeout_inv)

lemma visit_socket_inv: "sloop_inv st \<Longrightarrow> visit_socket H fds x st = Some (p, st') \<Longrightarrow> sloop_inv st'"
  by (auto simp: visit_socket_def Let_def bind_Some_iff split: if_splits dest: call_handler_inv drop_socket_inv)

lemma walk_sockets_inv:
  assumes "walk_sockets H fds a p st = Some st'" and "sloop_inv st"
  shows "sloop_inv st'"
proof -
  have "sloop_inv st \<longrightarrow> sloop_inv st'"
  proof (rule walk_sockets.raw_induct [OF _ assms(1), of "\<lambda>H fds a p st st'. sloop_inv st \<longrightarrow> sloop_inv st'"])
    fix walk H fds a p st st'
    assume IH: "\<And>H fds a p st st'. walk H fds a p st = Some st' \<Longrightarrow> sloop_inv st \<longrightarrow> sloop_inv st'"
      and s: "(case p of Head a' \<Rightarrow> if a' = a then Some st else None
        | Entry x \<Rightarrow> Option.bind (visit_socket H fds x st) (\<lambda>(p', st'). walk H fds a p' st')) = Some st'"
    show "sloop_inv st \<longrightarrow> sloop_inv st'"
    proof (cases p)
      case (Head b)
      with s show ?thesis by (simp split: if_splits)
    next
      case (Entry x)
      with s obtain p1 st1 where v: "visit_socket H fds x st = Some (p1, st1)" and w: "walk H fds a p1 st1 = Some st'"
        by (auto simp: bind_Some_iff)
      from visit_socket_inv [OF _ v] IH [OF w] show ?thesis by blast
    qed
  qed
  with assms(2) show ?thesis by blast
qed

lemma sloop_round_inv:
  assumes "sloop_inv st" and "sloop_round H ev st = Some (b, st')"
  shows "sloop_inv st'"
proof (cases "r_res ev < 0")
  case True
  with assms show ?thesis by (simp add: sloop_round_def)
next
  case res: False
  let ?e = "case timeouts st of [] \<Rightarrow> None | x # _ \<Rightarrow> Some x"
  obtain left st1 where 1: "check_signal H ev st = Some (left, st1)"
    using assms(2) res by (auto simp: sloop_round_def bind_Some_iff)
  note i1 = check_signal_inv [OF assms(1) 1]
  show ?thesis
  proof (cases left)
    case True
    with assms(2) res 1 i1 show ?thesis by (simp add: sloop_round_def)
  next
    case left: False
    obtain st2 where 2: "check_timeout H ev ?e st1 = Some st2"
      using assms(2) res 1 left by (auto simp: sloop_round_def bind_Some_iff simp del: not_less)
    note i2 = check_timeout_inv [OF i1 2]
    show ?thesis
    proof (cases "r_res ev \<le> 0")
      case True
      with assms(2) res 1 left 2 i2 show ?thesis by (simp add: sloop_round_def)
    next
      case False
      with assms(2) res 1 left 2 obtain st3 where
        3: "check_readers H ev st2 = Some st3" and 4: "check_writers H ev st3 = Some st'"
        by (simp add: sloop_round_def bind_Some_iff) blast
      from walk_sockets_inv [OF 3 [unfolded check_readers_def] i2] have "sloop_inv st3" .
      from walk_sockets_inv [OF 4 [unfolded check_writers_def] this] show ?thesis .
    qed
  qed
qed

lemma sloop_finish_spec:
  assumes "sloop_inv st"
  shows "\<exists>st'. sloop_finish st = Some st' \<and> sloop_inv st' \<and> readers st' = [] \<and> writers st' = [] \<and>
    signals st' = [] \<and> timeouts st' = []"
proof -
  let ?s1 = "cancel_signals (signals st) st"
  let ?s2 = "cancel_timeouts (timeouts ?s1) ?s1"
  let ?s3 = "cancel_readers (readers ?s2) ?s2"
  let ?s4 = "cancel_writers (writers ?s3) ?s3"
  have i1: "sloop_inv ?s1" using do_api_inv [OF assms, of "CancelSignal None"] by (simp add: sloop_cancel_signal_def)
  have i2: "sloop_inv ?s2" using do_api_inv [OF i1, of "CancelTimeout None"] by (simp add: sloop_cancel_timeout_def)
  have i3: "sloop_inv ?s3" using do_api_inv [OF i2, of "CancelRead None"]
    by (simp add: sloop_cancel_read_sock_def cancel_socket_def)
  have i4: "sloop_inv ?s4" using do_api_inv [OF i3, of "CancelWrite None"]
    by (simp add: sloop_cancel_write_sock_def cancel_socket_def)
  have "sloop_finish st = Some ?s4"
    by (simp add: sloop_finish_def sloop_cancel_signal_def sloop_cancel_timeout_def sloop_cancel_read_sock_def
        sloop_cancel_write_sock_def cancel_socket_def)
  moreover have "readers ?s4 = [] \<and> writers ?s4 = [] \<and> signals ?s4 = [] \<and> timeouts ?s4 = []"
    using cancel_signals_spec [of st] cancel_timeouts_spec [of ?s1] cancel_readers_spec [of ?s2]
      cancel_writers_spec [of ?s3] assms i1 i2 i3
    by (simp add: sloop_inv_def same_defs)
  ultimately show ?thesis using i4 by blast
qed

lemma sloop_run_inv:
  "sloop_inv st \<Longrightarrow> sloop_run H evs st = Some (b, st') \<Longrightarrow> sloop_inv st' \<and>
    (b \<longrightarrow> readers st' = [] \<and> writers st' = [] \<and> signals st' = [] \<and> timeouts st' = [])"
proof (induction H evs st rule: sloop_run.induct)
  case (1 H evs st)
  show ?case
  proof (cases "sloop_active st")
    case False
    with 1(2,3) sloop_finish_spec [OF 1(2)] show ?thesis
      by (auto simp: sloop_run.simps [of H evs st])
  next
    case True
    show ?thesis
    proof (cases evs)
      case Nil
      with True 1(2,3) show ?thesis by (simp add: sloop_run.simps [of H "[]" st])
    next
      case (Cons ev evs')
      then obtain left st1 where r: "sloop_round H ev st = Some (left, st1)"
        using True 1(3) by (auto simp: sloop_run.simps [of H "ev # evs'" st] bind_Some_iff)
      have i1: "sloop_inv st1" using sloop_round_inv [OF 1(2) r] .
      show ?thesis
      proof (cases left)
        case True
        with \<open>sloop_active st\<close> Cons r 1(3) sloop_finish_spec [OF i1] show ?thesis
          by (auto simp: sloop_run.simps [of H "ev # evs'" st])
      next
        case False
        then have "sloop_run H evs' st1 = Some (b, st')"
          using \<open>sloop_active st\<close> Cons r 1(3) by (simp add: sloop_run.simps [of H "ev # evs'" st])
        with 1(1) [OF \<open>sloop_active st\<close> Cons r refl False i1] show ?thesis by simp
      qed
    qed
  qed
qed

subsection \<open>Timers\<close>

lemma carry_usec_value: "0 \<le> u \<Longrightarrow> carry_usec (s, u) = (s + u div 1000000, u mod 1000000)"
proof (induction "(s, u)" arbitrary: s u rule: carry_usec.induct)
  case (1 s u)
  show ?case
  proof (cases "u \<ge> 1000000")
    case True
    have "carry_usec (s + 1, u - 1000000) = (s + 1 + (u - 1000000) div 1000000, (u - 1000000) mod 1000000)"
      using 1(1) True by simp
    moreover have "(u - 1000000) div 1000000 = u div 1000000 - 1" "(u - 1000000) mod 1000000 = u mod 1000000"
      using div_mult_self2 [of "1000000::int" u "- 1"] mod_mult_self2 [of u "1000000::int" "- 1"] by simp_all
    ultimately show ?thesis using True by (subst carry_usec.simps) simp
  next
    case False
    with 1(2) show ?thesis by (subst carry_usec.simps) simp
  qed
qed

lemma long32_small: "0 \<le> i \<Longrightarrow> i < 2 ^ 31 \<Longrightarrow> long32 i = i"
  by (simp add: long32_def)

lemma timer_less_le_trans: "timer_less a b \<Longrightarrow> \<not> timer_less c b \<Longrightarrow> timer_less a c"
  by (auto simp: timer_less_def split: if_splits)

lemma insert_timeout_position:
  assumes "sorted_wrt (\<lambda>x y. \<not> timer_less (t y) (t x)) ys"
  shows "\<exists>as bs. ys = as @ bs \<and> insert_timeout t x ys = as @ x # bs \<and>
    (\<forall>a\<in>set as. \<not> timer_less (t x) (t a)) \<and> (\<forall>b\<in>set bs. timer_less (t x) (t b))"
  using assms
proof (induction ys)
  case Nil
  then show ?case by simp
next
  case (Cons y ys)
  show ?case
  proof (cases "timer_less (t x) (t y)")
    case True
    with Cons.prems timer_less_le_trans [of "t x" "t y"] show ?thesis
      by (intro exI [of _ "[]"] exI [of _ "y # ys"]) auto
  next
    case False
    from Cons obtain as bs where "ys = as @ bs" "insert_timeout t x ys = as @ x # bs"
      "\<forall>a\<in>set as. \<not> timer_less (t x) (t a)" "\<forall>b\<in>set bs. timer_less (t x) (t b)" by auto
    with False show ?thesis
      by (intro exI [of _ "y # as"] exI [of _ bs]) auto
  qed
qed

lemma remove1_insert_timeout: "x \<notin> set ys \<Longrightarrow> remove1 x (insert_timeout t x ys) = ys"
  by (induction ys) auto

lemma insert_timeout_cong:
  "(\<And>y. y \<in> set ys \<Longrightarrow> t y = t' y) \<Longrightarrow> t x = t' x \<Longrightarrow> insert_timeout t x ys = insert_timeout t' x ys"
  by (induction ys) auto

text \<open>Registering a timeout takes one entry from the pool and puts it behind the entries that expire no
  later and before those that expire later, so timers of equal expiry fire in the order of registration; the
  microseconds are carried into the seconds (as long as the sum fits the \<^verbatim>\<open>long\<close> it is kept in). With an
  empty pool it fails and changes nothing.\<close>

theorem sloop_register_timeout_position:
  assumes "sloop_inv st"
  shows "case sloop_register_timeout up s u h p st of
      (None, st') \<Rightarrow> free_timeouts st = [] \<and> st' = st
    | (Some x, st') \<Rightarrow> x \<notin> set (timeouts st) \<and>
        (0 \<le> up \<and> up + int s < 2 ^ 31 \<and> u < 2 ^ 31 \<longrightarrow>
          tm st' x = (up + int s + int u div 1000000, int u mod 1000000)) \<and>
        free_timeouts st = x # free_timeouts st' \<and>
        (\<exists>as bs. timeouts st = as @ bs \<and> timeouts st' = as @ x # bs \<and>
          (\<forall>a\<in>set as. tm st' a = tm st a \<and> \<not> timer_less (tm st' x) (tm st' a)) \<and>
          (\<forall>b\<in>set bs. tm st' b = tm st b \<and> timer_less (tm st' x) (tm st' b)))"
proof (cases "free_timeouts st")
  case Nil
  then show ?thesis by (simp add: sloop_register_timeout_def get_timeout_def)
next
  case (Cons x xs)
  let ?st' = "snd (sloop_register_timeout up s u h p st)"
  have ok: "pool_split MAX_SLOOP_TIMEOUT (free_timeouts st @ timeouts st)"
    "sorted_wrt (\<lambda>x y. \<not> timer_less (tm st y) (tm st x)) (timeouts st)"
    using assms by (auto simp: sloop_inv_def timeouts_ok_def)
  then have x: "x \<notin> set (timeouts st)" using Cons by (auto simp: pool_split_def)
  have st': "fst (sloop_register_timeout up s u h p st) = Some x" "free_timeouts ?st' = xs"
    "timeouts ?st' = insert_timeout (tm ?st') x (timeouts st)"
    "tm ?st' x = carry_usec (long32 (up + int s), long32 (int u))"
    and same: "\<And>y. y \<noteq> x \<Longrightarrow> tm ?st' y = tm st y"
    using Cons by (auto simp: sloop_register_timeout_def get_timeout_def Let_def intro!: insert_timeout_cong)
  have val: "0 \<le> up \<and> up + int s < 2 ^ 31 \<and> u < 2 ^ 31 \<longrightarrow>
      tm ?st' x = (up + int s + int u div 1000000, int u mod 1000000)"
    by (simp add: st'(4) long32_small carry_usec_value)
  have "sorted_wrt (\<lambda>x y. \<not> timer_less (tm ?st' y) (tm ?st' x)) (timeouts st)"
    using ok(2) x same by (smt (verit) sorted_wrt_mono_rel)
  from insert_timeout_position [OF this, of x] obtain as bs where
    ab: "timeouts st = as @ bs" "timeouts ?st' = as @ x # bs"
    "\<forall>a\<in>set as. \<not> timer_less (tm ?st' x) (tm ?st' a)" "\<forall>b\<in>set bs. timer_less (tm ?st' x) (tm ?st' b)"
    unfolding st'(3) by blast
  have "\<forall>a\<in>set as. tm ?st' a = tm st a" "\<forall>b\<in>set bs. tm ?st' b = tm st b"
    using same x ab(1) by (metis Un_iff set_append)+
  with ab have "\<exists>as bs. timeouts st = as @ bs \<and> timeouts ?st' = as @ x # bs \<and>
          (\<forall>a\<in>set as. tm ?st' a = tm st a \<and> \<not> timer_less (tm ?st' x) (tm ?st' a)) \<and>
          (\<forall>b\<in>set bs. tm ?st' b = tm st b \<and> timer_less (tm ?st' x) (tm ?st' b))" by blast
  with st'(1,2) val x Cons show ?thesis by (simp add: case_prod_beta)
qed

theorem sloop_register_timeout_position_witness:
  "\<exists>x st'. sloop_register_timeout 10 5 2500000 (Some 1) 0 sloop_init = (Some x, st') \<and> tm st' x = (17, 500000)"
  using sloop_register_timeout_position [OF sloop_init_inv, of 10 5 2500000 "Some 1" 0]
  by (auto simp: sloop_init_def MAX_SLOOP_TIMEOUT_def split: prod.splits option.splits)

text \<open>C40: A timeout handler that cancels its own timer and registers a new one loses the new timer: the
  registration reuses the entry that was just returned to the pool, and the loop then deletes the entry.\<close>

theorem sloop_rearmed_timer_lost:
  assumes "sloop_inv st" and "timeouts st = x # xs" and "timer_ge (r_now ev, 0) (tm st x)"
    and "tm_handler (sloop_timeouts st x) = Some h"
    and "\<And>st'. H (CallTimeout h (tm_param (sloop_timeouts st x))) st' =
      (r, [CancelTimeout (Some x), RegTimeout up s u h' p])"
  shows "\<exists>st'. check_timeout H ev (Some x) st = Some st' \<and> timeouts st' = xs"
proof -
  have x: "x \<notin> set xs" using assms(1,2) by (auto simp: sloop_inv_def timeouts_ok_def pool_split_def)
  have "\<exists>st1. call_handler H (CallTimeout h (tm_param (sloop_timeouts st x))) st = Some (r, st1) \<and>
    (\<exists>t. timeouts st1 = insert_timeout t x xs)"
    using assms(2,5)
    by (auto simp: call_handler_def sloop_cancel_timeout_def unlink_timeout_def free_timeout_def
        sloop_register_timeout_def get_timeout_def Let_def)
  then obtain st1 t where st1: "call_handler H (CallTimeout h (tm_param (sloop_timeouts st x))) st = Some (r, st1)"
    "timeouts st1 = insert_timeout t x xs" by blast
  then have "unlink_timeout x st1 = Some (st1\<lparr>timeouts := xs\<rparr>)"
    using x by (simp add: unlink_timeout_def insert_timeout_set remove1_insert_timeout)
  with st1(1) assms(2-4) show ?thesis by (simp add: check_timeout_def Let_def free_timeout_def)
qed

theorem sloop_rearmed_timer_lost_witness:
  "\<exists>st st'. timeouts st \<noteq> [] \<and> check_timeout (\<lambda>c s. (0, [CancelTimeout (Some 127), RegTimeout 0 60 0 (Some 1) 0]))
     \<lparr>r_res = 0, r_eintr = False, r_rfds = [], r_wfds = [], r_pipe = False, r_sig = None, r_now = 9\<rparr> (Some 127) st
     = Some st' \<and> timeouts st' = []"
proof -
  let ?st = "snd (sloop_register_timeout 0 5 0 (Some 1) 0 sloop_init)"
  have up: "rev [0..<128::nat] = 127 # rev [0..<127]" by (simp add: upt_rec numeral_eq_Suc)
  have "sloop_inv ?st" using do_api_inv [OF sloop_init_inv, of "RegTimeout 0 5 0 (Some 1) 0"] by simp
  moreover have t: "timeouts ?st = [127]" "tm ?st 127 = (5, 0)" "tm_handler (sloop_timeouts ?st 127) = Some 1"
    "tm_param (sloop_timeouts ?st 127) = 0"
    by (simp_all add: sloop_register_timeout_def get_timeout_def sloop_init_def MAX_SLOOP_TIMEOUT_def Let_def
        long32_small carry_usec_value up)
  ultimately show ?thesis
    using sloop_rearmed_timer_lost [of ?st 127 "[]"
      "\<lparr>r_res = 0, r_eintr = False, r_rfds = [], r_wfds = [], r_pipe = False, r_sig = None, r_now = 9\<rparr>" 1
      "\<lambda>c s. (0, [CancelTimeout (Some 127), RegTimeout 0 60 0 (Some 1) 0])" 0 0 60 0 "Some 1" 0]
    by - (rule exI [of _ ?st], simp add: timer_ge_def)
qed

subsection \<open>Dispatching\<close>

text \<open>Handlers that only register entries or stop the loop; a new entry goes to the front of its list, so the
  walk over the entries that were there does not meet it.\<close>

fun only_registers :: "api \<Rightarrow> bool" where
  "only_registers (CancelRead h) = False"
| "only_registers (CancelWrite h) = False"
| "only_registers (CancelSignal h) = False"
| "only_registers (CancelTimeout h) = False"
| "only_registers _ = True"

fun entries :: "anchor \<Rightarrow> sloop_data \<Rightarrow> nat list" where
  "entries HeadReaders st = readers st"
| "entries HeadWriters st = writers st"
| "entries HeadFree st = free_sockets st"

definition socket_call :: "sloop_data \<Rightarrow> nat \<Rightarrow> call" where
  "socket_call st x = (let e = sloop_sockets st x in CallSocket (sk_handler e) (sk_sock e) (sk_param e))"

text \<open>What a registering handler may do to the sockets: add entries in front, touch no registered entry.\<close>

definition extends :: "sloop_data \<Rightarrow> sloop_data \<Rightarrow> bool" where
  "extends st st' \<longleftrightarrow> calls st' = calls st \<and>
     (\<exists>ps. readers st' = ps @ readers st) \<and> (\<exists>ps. writers st' = ps @ writers st) \<and>
     (\<forall>x \<in> set (readers st) \<union> set (writers st). sloop_sockets st' x = sloop_sockets st x)"

lemma extends_refl: "extends st st"
  by (simp add: extends_def)

lemma extends_trans: "extends st1 st2 \<Longrightarrow> extends st2 st3 \<Longrightarrow> extends st1 st3"
  unfolding extends_def by (elim conjE exE, simp, metis Un_iff)

lemma register_socket_extends:
  assumes "sockets_ok st"
  shows "extends st (snd (register_socket sk h p side st))"
proof (cases "free_sockets st")
  case Nil
  then show ?thesis by (simp add: register_socket_def get_socket_def extends_refl)
next
  case (Cons x xs)
  with assms have "x \<notin> set (readers st)" "x \<notin> set (writers st)" by (auto simp: sockets_ok_def pool_split_def)
  with Cons show ?thesis
    by (cases side) (auto simp: register_socket_def get_socket_def Let_def extends_def)
qed

lemma extends_same: "calls st' = calls st \<Longrightarrow> same_sockets st st' \<Longrightarrow> extends st st'"
  by (simp add: extends_def same_defs)

lemma register_others_extends:
  "extends st (snd (sloop_register_signal sg h p st))" "extends st (snd (sloop_register_timeout up s u th p st))"
  by (rule extends_same; simp add: sloop_register_signal_def sloop_register_timeout_def get_signal_def
      get_timeout_def Let_def same_defs split: list.split)+

lemma do_api_extends:
  assumes "sloop_inv st" and "only_registers a"
  shows "\<exists>st'. do_api a st = Some st' \<and> sloop_inv st' \<and> extends st st'"
proof -
  have s: "sockets_ok st" using assms(1) by (simp add: sloop_inv_def)
  obtain st' where st': "do_api a st = Some st'" using assms(2) by (cases a) auto
  have "extends st st'"
    using assms(2) st' register_socket_extends [OF s] register_others_extends extends_same [of "sloop_terminate st" st]
    by (cases a) (simp_all only: do_api.simps only_registers.simps option.inject sloop_register_read_sock_def
        sloop_register_write_sock_def, auto simp: sloop_terminate_def same_defs)
  with st' show ?thesis using do_api_inv [OF assms(1)] by blast
qed

lemma do_apis_extends:
  assumes "sloop_inv st" and "list_all only_registers as"
  shows "\<exists>st'. do_apis as st = Some st' \<and> sloop_inv st' \<and> extends st st'"
  using assms
proof (induction as arbitrary: st)
  case Nil
  then show ?case by (simp add: extends_refl)
next
  case (Cons a as)
  from do_api_extends [OF Cons.prems(1), of a] Cons.prems(2) obtain st1 where
    1: "do_api a st = Some st1" "sloop_inv st1" "extends st st1" by auto
  from Cons.IH [OF 1(2)] Cons.prems(2) obtain st2 where "do_apis as st1 = Some st2" "sloop_inv st2" "extends st1 st2"
    by auto
  with 1 extends_trans show ?case by auto
qed

lemma call_handler_extends:
  assumes "sloop_inv st" and "\<And>c st. list_all only_registers (snd (H c st))"
  shows "\<exists>r st'. call_handler H c st = Some (r, st') \<and> sloop_inv st' \<and> extends (st\<lparr>calls := calls st @ [c]\<rparr>) st'"
  using do_apis_extends [OF _ assms(2), of "st\<lparr>calls := calls st @ [c]\<rparr>" c st] assms(1)
  by (auto simp: call_handler_def sloop_inv_calls split: prod.splits)

lemma next_in_append: "x \<notin> set zs \<Longrightarrow> next_in x (zs @ x # ys) a = first_in ys a"
  by (induction zs) (auto simp: first_in_def)

lemma entries_distinct:
  assumes "sloop_inv st" and "a \<noteq> HeadFree" and "entries a st = zs @ x # ys"
  shows "x \<notin> set zs" "x \<notin> set ys" "a = HeadWriters \<Longrightarrow> x \<notin> set (readers st)"
  using assms by (cases a; auto simp: sloop_inv_def sockets_ok_def pool_split_def)+

lemma next_socket_entries:
  assumes "sloop_inv st" and "a \<noteq> HeadFree" and "entries a st = zs @ x # ys"
  shows "next_socket st x = first_in ys a"
  using entries_distinct [OF assms] assms(2,3) next_in_append [of x zs ys a]
  by (cases a) (simp_all add: next_socket_def)

lemma drop_entries:
  assumes "sloop_inv st" and "a \<noteq> HeadFree" and "entries a st = zs @ x # ys"
  shows "\<exists>st1. unlink_socket x st = Some st1 \<and> sloop_inv (free_socket x st1) \<and>
    entries a (free_socket x st1) = zs @ ys \<and> calls (free_socket x st1) = calls st \<and>
    (\<forall>y. y \<noteq> x \<longrightarrow> sloop_sockets (free_socket x st1) y = sloop_sockets st y)"
proof -
  note d = entries_distinct [OF assms]
  obtain st1 where st1: "unlink_socket x st = Some st1" "entries a (free_socket x st1) = zs @ ys"
    "calls (free_socket x st1) = calls st" "\<forall>y. y \<noteq> x \<longrightarrow> sloop_sockets (free_socket x st1) y = sloop_sockets st y"
    using assms(2,3) d by (cases a) (auto simp: unlink_socket_def free_socket_def remove1_append)
  with drop_socket_inv [OF assms(1) st1(1)] show ?thesis by blast
qed

lemma visit_registering:
  assumes "sloop_inv st" and "a \<noteq> HeadFree" and "entries a st = zs @ x # ys"
    and H: "\<And>c st. list_all only_registers (snd (H c st))"
  shows "\<exists>st' zs'. visit_socket H fds x st = Some (first_in ys a, st') \<and> sloop_inv st' \<and> entries a st' = zs' @ ys \<and>
    set zs \<subseteq> set zs' \<and> (sk_sock (sloop_sockets st x) \<notin> set fds \<longrightarrow> x \<in> set zs') \<and>
    calls st' = calls st @ (if sk_sock (sloop_sockets st x) \<in> set fds then [socket_call st x] else []) \<and>
    (\<forall>y\<in>set ys. sloop_sockets st' y = sloop_sockets st y)"
proof (cases "sk_sock (sloop_sockets st x) \<in> set fds")
  case False
  with next_socket_entries [OF assms(1-3)] assms(1,3) show ?thesis
    by (intro exI [of _ st] exI [of _ "zs @ [x]"]) (auto simp: visit_socket_def Let_def)
next
  case True
  obtain r st1 where c: "call_handler H (socket_call st x) st = Some (r, st1)" "sloop_inv st1"
    "extends (st\<lparr>calls := calls st @ [socket_call st x]\<rparr>) st1"
    using call_handler_extends [of st H, OF assms(1) H] by blast
  then obtain ps where e: "entries a st1 = (ps @ zs) @ x # ys" "calls st1 = calls st @ [socket_call st x]"
    "\<forall>y\<in>set ys. sloop_sockets st1 y = sloop_sockets st y"
    using assms(2,3) by (cases a) (auto simp: extends_def)
  note n = next_socket_entries [OF c(2) assms(2) e(1)]
  have v: "visit_socket H fds x st = (if r < 0 then do { st2 \<leftarrow> unlink_socket x st1;
      Some (first_in ys a, free_socket x st2) } else Some (first_in ys a, st1))"
    using True c(1) n by (cases "unlink_socket x st1") (simp_all add: visit_socket_def socket_call_def Let_def)
  show ?thesis
  proof (cases "r < 0")
    case False
    with v True c(2) e show ?thesis by (intro exI [of _ st1] exI [of _ "ps @ zs @ [x]"]) auto
  next
    case neg: True
    obtain st2 where "unlink_socket x st1 = Some st2" "sloop_inv (free_socket x st2)"
      "entries a (free_socket x st2) = (ps @ zs) @ ys" "calls (free_socket x st2) = calls st1"
      "\<forall>y. y \<noteq> x \<longrightarrow> sloop_sockets (free_socket x st2) y = sloop_sockets st1 y"
      using drop_entries [OF c(2) assms(2) e(1)] by blast
    with neg v True e entries_distinct(2) [OF assms(1-3)] show ?thesis
      by (intro exI [of _ "free_socket x st2"] exI [of _ "ps @ zs"]) auto
  qed
qed

lemma walk_registering:
  assumes "sloop_inv st" and "a \<noteq> HeadFree" and "entries a st = zs @ ys"
    and H: "\<And>c st. list_all only_registers (snd (H c st))"
  shows "\<exists>st'. walk_sockets H fds a (first_in ys a) st = Some st' \<and> sloop_inv st' \<and>
    calls st' = calls st @ map (socket_call st) (filter (\<lambda>x. sk_sock (sloop_sockets st x) \<in> set fds) ys) \<and>
    set zs \<subseteq> set (entries a st') \<and>
    (\<forall>x\<in>set ys. sk_sock (sloop_sockets st x) \<notin> set fds \<longrightarrow> x \<in> set (entries a st'))"
  using assms(1,3)
proof (induction ys arbitrary: st zs)
  case Nil
  then show ?case by (subst walk_sockets.simps) (simp add: first_in_def)
next
  case (Cons x ys)
  from visit_registering [of st a zs x ys H fds, OF Cons.prems(1) assms(2) Cons.prems(2) H] obtain st1 zs1 where
    1: "visit_socket H fds x st = Some (first_in ys a, st1)" "sloop_inv st1" "entries a st1 = zs1 @ ys"
      "set zs \<subseteq> set zs1" "sk_sock (sloop_sockets st x) \<notin> set fds \<longrightarrow> x \<in> set zs1"
      "calls st1 = calls st @ (if sk_sock (sloop_sockets st x) \<in> set fds then [socket_call st x] else [])"
      "\<forall>y\<in>set ys. sloop_sockets st1 y = sloop_sockets st y" by blast
  from Cons.IH [OF 1(2,3)] obtain st2 where
    2: "walk_sockets H fds a (first_in ys a) st1 = Some st2" "sloop_inv st2" "set zs1 \<subseteq> set (entries a st2)"
      "calls st2 = calls st1 @ map (socket_call st1) (filter (\<lambda>x. sk_sock (sloop_sockets st1 x) \<in> set fds) ys)"
      "\<forall>x\<in>set ys. sk_sock (sloop_sockets st1 x) \<notin> set fds \<longrightarrow> x \<in> set (entries a st2)" by blast
  have "walk_sockets H fds a (first_in (x # ys) a) st = Some st2"
    using 1(1) 2(1) by (subst walk_sockets.simps) (simp add: first_in_def)
  moreover have "map (socket_call st1) (filter (\<lambda>x. sk_sock (sloop_sockets st1 x) \<in> set fds) ys) =
      map (socket_call st) (filter (\<lambda>x. sk_sock (sloop_sockets st x) \<in> set fds) ys)"
    using 1(7) by (intro map_cong filter_cong) (auto simp: socket_call_def)
  ultimately show ?case using 1(4-7) 2(2-5) by (intro exI [of _ st2]) auto
qed

text \<open>C16: With handlers that register entries but cancel none themselves, the dispatch of the readers and then
  of the writers always terminates without a fault, calls exactly the handlers of the entries whose descriptor
  is ready, each once and in list order, and leaves every entry registered whose descriptor was not ready.\<close>

theorem sloop_dispatch_complete:
  assumes "sloop_inv st" and "\<And>c st. list_all only_registers (snd (H c st))"
  shows "\<exists>st1 st2. check_readers H ev st = Some st1 \<and> check_writers H ev st1 = Some st2 \<and> sloop_inv st2 \<and>
    calls st2 = calls st @
      map (socket_call st) (filter (\<lambda>x. sk_sock (sloop_sockets st x) \<in> set (r_rfds ev)) (readers st)) @
      map (socket_call st1) (filter (\<lambda>x. sk_sock (sloop_sockets st1 x) \<in> set (r_wfds ev)) (writers st1)) \<and>
    (\<forall>x\<in>set (readers st). sk_sock (sloop_sockets st x) \<notin> set (r_rfds ev) \<longrightarrow> x \<in> set (readers st1)) \<and>
    (\<forall>x\<in>set (writers st1). sk_sock (sloop_sockets st1 x) \<notin> set (r_wfds ev) \<longrightarrow> x \<in> set (writers st2))"
proof -
  obtain st1 where 1: "check_readers H ev st = Some st1" "sloop_inv st1"
    "calls st1 = calls st @ map (socket_call st) (filter (\<lambda>x. sk_sock (sloop_sockets st x) \<in> set (r_rfds ev)) (readers st))"
    "\<forall>x\<in>set (readers st). sk_sock (sloop_sockets st x) \<notin> set (r_rfds ev) \<longrightarrow> x \<in> set (readers st1)"
    using walk_registering [OF assms(1), of HeadReaders "[]" "readers st" H "r_rfds ev"] assms(2)
    by (auto simp: check_readers_def)
  obtain st2 where 2: "check_writers H ev st1 = Some st2" "sloop_inv st2"
    "calls st2 = calls st1 @ map (socket_call st1) (filter (\<lambda>x. sk_sock (sloop_sockets st1 x) \<in> set (r_wfds ev)) (writers st1))"
    "\<forall>x\<in>set (writers st1). sk_sock (sloop_sockets st1 x) \<notin> set (r_wfds ev) \<longrightarrow> x \<in> set (writers st2)"
    using walk_registering [OF 1(2), of HeadWriters "[]" "writers st1" H "r_wfds ev"] assms(2)
    by (auto simp: check_writers_def)
  from 1 2 show ?thesis by (intro exI [of _ st1] exI [of _ st2]) simp
qed

theorem sloop_dispatch_complete_witness:
  "\<exists>st st1 st2. let ev = \<lparr>r_res = 1, r_eintr = False, r_rfds = [7], r_wfds = [], r_pipe = False, r_sig = None, r_now = 0\<rparr>;
      H = (\<lambda>c st. (-1, [RegRead 8 2 0])) in
    check_readers H ev st = Some st1 \<and> check_writers H ev st1 = Some st2 \<and> calls st2 = [CallSocket 3 7 4]"
proof -
  let ?st = "snd (sloop_register_read_sock 7 3 4 sloop_init)"
  let ?ev = "\<lparr>r_res = 1, r_eintr = False, r_rfds = [7], r_wfds = [], r_pipe = False, r_sig = None, r_now = 0\<rparr>"
  have i: "sloop_inv ?st" using do_api_inv [OF sloop_init_inv, of "RegRead 7 3 4"] by simp
  have st: "calls ?st = []" "map (socket_call ?st) (filter (\<lambda>x. sk_sock (sloop_sockets ?st x) \<in> {7}) (readers ?st)) =
      [CallSocket 3 7 4]"
    by (simp_all add: sloop_register_read_sock_def register_socket_def get_socket_def sloop_init_def Let_def
        MAX_SLOOP_SOCKET_def socket_call_def split: list.split)
  have h: "list_all only_registers (snd (-1::int, [RegRead 8 2 0]))" for c :: call and s :: sloop_data by simp
  show ?thesis
    using sloop_dispatch_complete [of ?st "\<lambda>c st. (-1, [RegRead 8 2 0])" ?ev, OF i h] st
    unfolding Let_def by (simp add: filter_empty_conv) blast
qed

lemma walk_free_faults:
  assumes "sloop_inv st" and "free_sockets st = zs @ ys" and "a \<noteq> HeadFree"
    and "\<forall>x\<in>set ys. sk_sock (sloop_sockets st x) \<notin> set fds"
  shows "walk_sockets H fds a (first_in ys HeadFree) st = None"
  using assms
proof (induction ys arbitrary: zs)
  case Nil
  then show ?case by (subst walk_sockets.simps) (simp add: first_in_def)
next
  case (Cons x ys)
  have "x \<notin> set zs" "x \<notin> set (readers st)" "x \<notin> set (writers st)"
    using Cons.prems(1,2) by (auto simp: sloop_inv_def sockets_ok_def pool_split_def)
  then have "next_socket st x = first_in ys HeadFree"
    using Cons.prems(2) by (simp add: next_socket_def next_in_append)
  then have "visit_socket H fds x st = Some (first_in ys HeadFree, st)"
    using Cons.prems(4) by (simp add: visit_socket_def Let_def)
  moreover have "walk_sockets H fds a (first_in ys HeadFree) st = None"
    using Cons.IH [of "zs @ [x]"] Cons.prems by simp
  ultimately show ?case by (subst walk_sockets.simps) (simp add: first_in_def)
qed

text \<open>A read handler that cancels its own entry and returns normally sends the walk into the list of free
  entries, because the next pointer is read after the handler: the loop never meets the head of the readers
  and goes on past the end of the free list, whatever the remaining readers are.\<close>

theorem sloop_self_cancel_derails:
  assumes "sloop_inv st" and "readers st = x # xs" and "sk_sock (sloop_sockets st x) \<in> set (r_rfds ev)"
    and "\<And>s. H (socket_call st x) s = (0, [CancelRead (Some x)])"
    and "\<forall>y\<in>set (free_sockets st). sk_sock (sloop_sockets st y) \<notin> set (r_rfds ev)"
  shows "check_readers H ev st = None"
proof -
  let ?c = "st\<lparr>calls := calls st @ [socket_call st x]\<rparr>"
  let ?s = "free_socket x (?c\<lparr>readers := xs\<rparr>)"
  have x: "x \<notin> set xs" "x \<notin> set (writers st)" "x \<notin> set (free_sockets st)"
    using assms(1,2) by (auto simp: sloop_inv_def sockets_ok_def pool_split_def)
  have ci: "sloop_inv ?c" using assms(1) by (simp add: sloop_inv_calls)
  have u: "unlink_socket x ?c = Some (?c\<lparr>readers := xs\<rparr>)" using assms(2) by (simp add: unlink_socket_def)
  have c: "call_handler H (socket_call st x) st = Some (0, ?s)"
    using assms(4) u by (simp add: call_handler_def sloop_cancel_read_sock_def cancel_socket_def)
  have f: "free_sockets ?s = [x] @ free_sockets st" "readers ?s = xs" "writers ?s = writers st"
    "\<And>y. y \<noteq> x \<Longrightarrow> sloop_sockets ?s y = sloop_sockets st y"
    by (simp_all add: free_socket_def)
  have "next_socket ?s x = first_in (free_sockets st) HeadFree"
    using x f by (simp add: next_socket_def first_in_def)
  with c assms(3) have "visit_socket H (r_rfds ev) x st = Some (first_in (free_sockets st) HeadFree, ?s)"
    by (simp add: visit_socket_def socket_call_def Let_def)
  moreover have "walk_sockets H (r_rfds ev) HeadReaders (first_in (free_sockets st) HeadFree) ?s = None"
    using f assms(5) x(3) by (intro walk_free_faults [OF drop_socket_inv [OF ci u] f(1)]) (auto, metis)
  ultimately show ?thesis
    using assms(2) by (subst check_readers_def, subst walk_sockets.simps) (simp add: first_in_def)
qed

theorem sloop_self_cancel_derails_witness:
  "\<exists>st x. readers st = [x] \<and> check_readers (\<lambda>c st. (0, [CancelRead (Some x)]))
    \<lparr>r_res = 1, r_eintr = False, r_rfds = [7], r_wfds = [], r_pipe = False, r_sig = None, r_now = 0\<rparr> st = None"
proof -
  let ?st = "snd (sloop_register_read_sock 7 3 4 sloop_init)"
  let ?ev = "\<lparr>r_res = 1, r_eintr = False, r_rfds = [7], r_wfds = [], r_pipe = False, r_sig = None, r_now = 0\<rparr>"
  have up: "rev [0..<MAX_SLOOP_SOCKET] = 127 # rev [0..<127]"
    by (simp add: upt_rec numeral_eq_Suc MAX_SLOOP_SOCKET_def)
  have i: "sloop_inv ?st" using do_api_inv [OF sloop_init_inv, of "RegRead 7 3 4"] by simp
  have st: "readers ?st = [127]" "sk_sock (sloop_sockets ?st 127) = 7" "free_sockets ?st = rev [0..<127]"
    "\<And>y. y \<noteq> 127 \<Longrightarrow> sk_sock (sloop_sockets ?st y) = 0"
    by (simp_all add: sloop_register_read_sock_def register_socket_def get_socket_def sloop_init_def Let_def up)
  have "check_readers (\<lambda>c st. (0, [CancelRead (Some 127)])) ?ev ?st = None"
    using st by (intro sloop_self_cancel_derails [OF i st(1)]) (auto simp del: upt_rec)
  with st(1) show ?thesis by blast
qed

subsection \<open>The whole life of the loop\<close>

text \<open>C12: Every entry of the three static pools is always in exactly one of the lists of its kind, its in-use
  flag agrees with that, and the pending timeouts are sorted by expiry: after any calls of the interface, and
  after any rounds of the loop with any handlers and any events. When \<^verbatim>\<open>sloop_run\<close> returns, nothing is
  registered any more and every entry is back in its pool.\<close>

theorem sloop_life_cycle:
  assumes "do_apis as sloop_init = Some st" and "sloop_run H evs st = Some (returned, st')"
  shows "sloop_inv st \<and> sloop_inv st' \<and>
    (returned \<longrightarrow> set (free_sockets st') = {..<MAX_SLOOP_SOCKET} \<and>
      set (free_timeouts st') = {..<MAX_SLOOP_TIMEOUT} \<and> set (free_signals st') = {..<MAX_SLOOP_SIGNAL})"
proof -
  have i: "sloop_inv st" by (rule do_apis_inv [OF sloop_init_inv assms(1)])
  with sloop_run_inv [OF i assms(2)] show ?thesis
    by (auto simp: sloop_inv_def sockets_ok_def timeouts_ok_def signals_ok_def pool_split_def)
qed

theorem sloop_life_cycle_witness:
  "\<exists>st st'. do_apis [RegRead 5 1 0, RegTimeout 0 1 0 None 0, Terminate] sloop_init = Some st \<and>
     sloop_run (\<lambda>_ _. (0, [])) [] st = Some (True, st') \<and> set (free_sockets st') = {..<MAX_SLOOP_SOCKET}"
proof -
  obtain st where st: "do_apis [RegRead 5 1 0, RegTimeout 0 1 0 None 0, Terminate] sloop_init = Some st" "terminate st"
    by (simp add: sloop_terminate_def)
  have i: "sloop_inv st" by (rule do_apis_inv [OF sloop_init_inv st(1)])
  have "\<not> sloop_active st" using st(2) by (simp add: sloop_active_def)
  then obtain st' where r: "sloop_run (\<lambda>_ _. (0, [])) [] st = Some (True, st')"
    using sloop_finish_spec [OF i] sloop_run.simps [of "\<lambda>_ _. (0, [])" "[]" st] by auto
  from sloop_life_cycle [OF st(1) r] st(1) r show ?thesis by auto
qed

end
