(* ===== verification/Xmldb.thy ===== *)
theory Xmldb
  imports Strobj "HOL-Library.Sublist"
begin

text \<open>
  The configuration database of \<^verbatim>\<open>tools/alpha/xmldb/xmldb.c\<close>: a tree of named, numbered nodes with values
  and notification messages, addressed by paths such as \<^verbatim>\<open>/wan/inf:2/static/ip\<close>. A chain of siblings is the
  list of children of their parent, and a pointer to a node is the list of child positions that leads to it
  from \<^verbatim>\<open>g_xml_root\<close> (the empty list). \<open>al\<close> says which sizes \<^verbatim>\<open>malloc\<close> grants. Strings are the
  characters before the terminating NUL.
\<close>

definition MAX_TAG_LEN :: nat where "MAX_TAG_LEN = 256"
definition SIZEOF_XML_NODE :: nat where "SIZEOF_XML_NODE = 24"

datatype xml_node = Xml_node
  (node_id: int) (node_name: "char list") (node_value: "char list option")
  (node_notify: "char list option") (node_child: "xml_node list")

type_synonym ptr = "nat list"
type_synonym alloc = "nat \<Rightarrow> bool"

definition strdup :: "alloc \<Rightarrow> char list \<Rightarrow> char list option" where
  "strdup al s = (if al (length s + 1) then Some s else None)"

definition new_node :: "alloc \<Rightarrow> char list \<Rightarrow> char list option \<Rightarrow> int \<Rightarrow> xml_node option" where
  "new_node al name val i =
     (if length name > 0 then
        (if al (SIZEOF_XML_NODE + length name + 1)
         then Some (Xml_node i name (Option.bind val (strdup al)) None []) else None)
      else None)"

text \<open>The nodes that \<^verbatim>\<open>del_node\<close> frees, in order.\<close>

fun del_node :: "xml_node \<Rightarrow> xml_node list" where
  "del_node (Xml_node i nm v nt cs) = concat (map del_node cs) @ [Xml_node i nm v nt cs]"

subsection \<open>The tree as a store\<close>

fun node_at :: "xml_node \<Rightarrow> ptr \<Rightarrow> xml_node option" where
  "node_at n [] = Some n"
| "node_at n (k # p) = (if k < length (node_child n) then node_at (node_child n ! k) p else None)"

fun update_at :: "ptr \<Rightarrow> (xml_node \<Rightarrow> xml_node) \<Rightarrow> xml_node \<Rightarrow> xml_node" where
  "update_at [] f n = f n"
| "update_at (k # p) f (Xml_node i nm v nt cs) =
     Xml_node i nm v nt (if k < length cs then cs[k := update_at p f (cs ! k)] else cs)"

definition set_child :: "xml_node list \<Rightarrow> xml_node \<Rightarrow> xml_node" where
  "set_child cs n = Xml_node (node_id n) (node_name n) (node_value n) (node_notify n) cs"

definition set_val :: "char list option \<Rightarrow> xml_node \<Rightarrow> xml_node" where
  "set_val v n = Xml_node (node_id n) (node_name n) v (node_notify n) (node_child n)"

definition set_note :: "char list option \<Rightarrow> xml_node \<Rightarrow> xml_node" where
  "set_note m n = Xml_node (node_id n) (node_name n) (node_value n) m (node_child n)"

definition set_id :: "int \<Rightarrow> xml_node \<Rightarrow> xml_node" where
  "set_id i n = Xml_node i (node_name n) (node_value n) (node_notify n) (node_child n)"

subsection \<open>Paths\<close>

definition get_node :: "nat \<Rightarrow> char list \<Rightarrow> char list \<times> char list" where
  "get_node bsize path =
     (let seg = takeWhile (\<lambda>c. c \<noteq> CHR ''/'') path; rest = dropWhile (\<lambda>c. c \<noteq> CHR ''/'') path
      in (take (bsize - 1) seg, (case rest of [] \<Rightarrow> [] | _ # r \<Rightarrow> r)))"

text \<open>\<^verbatim>\<open>atoi\<close>: white space, a sign, digits; out of range values are cut to the range of \<^verbatim>\<open>int\<close>.\<close>

definition isspace :: "char \<Rightarrow> bool" where
  "isspace c \<longleftrightarrow> c = CHR '' '' \<or> (9 \<le> uchar c \<and> uchar c \<le> 13)"

definition isdigit :: "char \<Rightarrow> bool" where
  "isdigit c \<longleftrightarrow> 48 \<le> uchar c \<and> uchar c \<le> 57"

definition digits_value :: "char list \<Rightarrow> int" where
  "digits_value ds = foldl (\<lambda>n d. 10 * n + (uchar d - 48)) 0 ds"

definition clamp_int :: "int \<Rightarrow> int" where
  "clamp_int i = max (- (2 ^ 31)) (min (2 ^ 31 - 1) i)"

definition atoi :: "char list \<Rightarrow> int" where
  "atoi s = (case dropWhile isspace s of
       [] \<Rightarrow> 0
     | c # r \<Rightarrow> clamp_int
         (if c = CHR ''-'' then - digits_value (takeWhile isdigit r)
          else if c = CHR ''+'' then digits_value (takeWhile isdigit r)
          else digits_value (takeWhile isdigit (c # r))))"

text \<open>The name and the number of a path segment \<^verbatim>\<open>name:id\<close>.\<close>

definition split_id :: "char list \<Rightarrow> char list \<times> int" where
  "split_id seg = (case strchr seg (CHR '':'') of
       None \<Rightarrow> (seg, 0)
     | Some k \<Rightarrow> (take k seg, atoi (drop (Suc k) seg)))"

subsection \<open>Siblings\<close>

text \<open>\<^verbatim>\<open>strcasecmp(curr->name, name)==0 && curr->id == id\<close>\<close>

definition same_key :: "char list \<Rightarrow> int \<Rightarrow> xml_node \<Rightarrow> bool" where
  "same_key name i n \<longleftrightarrow> strcasecmp (node_name n) name = 0 \<and> node_id n = i"

fun find_pos :: "(xml_node \<Rightarrow> bool) \<Rightarrow> xml_node list \<Rightarrow> nat option" where
  "find_pos P [] = None"
| "find_pos P (n # ns) = (if P n then Some 0 else map_option Suc (find_pos P ns))"

text \<open>Creating with no sibling to append to writes through the null pointer \<^verbatim>\<open>prev\<close>.\<close>

definition xmldb_find_sibling ::
    "alloc \<Rightarrow> xml_node list \<Rightarrow> char list \<Rightarrow> int \<Rightarrow> bool \<Rightarrow> (nat option \<times> xml_node list) option" where
  "xmldb_find_sibling al start name i create = (case find_pos (same_key name i) start of
       Some k \<Rightarrow> Some (Some k, start)
     | None \<Rightarrow>
         if create then
           (if start = [] then None
            else (case new_node al name None i of
                None \<Rightarrow> Some (None, start)
              | Some n \<Rightarrow> Some (Some (length start), start @ [n])))
         else Some (None, start))"

definition remove_child :: "xml_node list \<Rightarrow> char list \<Rightarrow> int \<Rightarrow> xml_node option \<times> xml_node list" where
  "remove_child cs name i = (case find_pos (\<lambda>n. strcmp (node_name n) name = 0 \<and> node_id n = i) cs of
       None \<Rightarrow> (None, cs)
     | Some k \<Rightarrow> (Some (cs ! k), take k cs @ drop (Suc k) cs))"

subsection \<open>Finding a node\<close>

lemma get_node_shorter: "path \<noteq> [] \<Longrightarrow> length (snd (get_node m path)) < length path"
proof -
  assume p: "path \<noteq> []"
  have "length (dropWhile (\<lambda>c. c \<noteq> CHR ''/'') path) \<le> length path" by (rule length_dropWhile_le)
  with p show ?thesis by (auto simp: get_node_def Let_def split: list.split)
qed

text \<open>One round of the loop of \<^verbatim>\<open>xmldb_find_node\<close> for a segment other than a dot: the new value of \<^verbatim>\<open>target\<close> and
  the tree. A node without children leaves \<^verbatim>\<open>target\<close> as it is unless nodes are created.\<close>

definition find_step ::
    "alloc \<Rightarrow> bool \<Rightarrow> char list \<Rightarrow> ptr \<Rightarrow> ptr option \<Rightarrow> xml_node \<Rightarrow> (ptr option \<times> xml_node) option" where
  "find_step al create seg root target tree = (let (name, i) = split_id seg in
     Option.bind (node_at tree root) (\<lambda>r.
       if node_child r \<noteq> [] then
         Option.bind (xmldb_find_sibling al (node_child r) name i create) (\<lambda>(k, cs).
           Some (map_option (\<lambda>k. root @ [k]) k, update_at root (set_child cs) tree))
       else if create then
         (case new_node al name None i of
            None \<Rightarrow> Some (None, tree)
          | Some n \<Rightarrow> Some (Some (root @ [0]), update_at root (set_child [n]) tree))
       else Some (target, tree)))"

function find_loop ::
    "alloc \<Rightarrow> bool \<Rightarrow> char list \<Rightarrow> ptr \<Rightarrow> ptr option \<Rightarrow> xml_node \<Rightarrow> (ptr option \<times> xml_node) option" where
  "find_loop al create path root target tree =
     (if path = [] then Some (target, tree)
      else if fst (get_node MAX_TAG_LEN path) = ''.''
      then find_loop al create (snd (get_node MAX_TAG_LEN path)) root (Some root) tree
      else Option.bind (find_step al create (fst (get_node MAX_TAG_LEN path)) root target tree) (\<lambda>(t, tree').
        case t of
          None \<Rightarrow> Some (None, tree')
        | Some r \<Rightarrow> find_loop al create (snd (get_node MAX_TAG_LEN path)) r t tree'))"
  by pat_completeness auto
termination
  by (relation "measure (\<lambda>(al, create, path, root, target, tree). length path)") (auto intro: get_node_shorter)

declare find_loop.simps [simp del]

definition xmldb_find_node ::
    "alloc \<Rightarrow> ptr option \<Rightarrow> char list \<Rightarrow> bool \<Rightarrow> xml_node \<Rightarrow> (ptr option \<times> xml_node) option" where
  "xmldb_find_node al root path create tree = (case path of
       c # p \<Rightarrow> if c = CHR ''/'' then find_loop al create p [] None tree
                 else find_loop al create path (case root of None \<Rightarrow> [] | Some r \<Rightarrow> r) None tree
     | [] \<Rightarrow> Some (None, tree))"

subsection \<open>Values and notifications\<close>

text \<open>The second component of a result is the tree, the third the messages sent.\<close>

definition xmldb_set_value ::
    "alloc \<Rightarrow> ptr option \<Rightarrow> char list \<Rightarrow> char list \<Rightarrow> xml_node \<Rightarrow>
      (ptr option \<times> xml_node \<times> char list list) option" where
  "xmldb_set_value al root path v tree = do {
     (t, tree1) \<leftarrow> xmldb_find_node al root path True tree;
     (case t of
        None \<Rightarrow> Some (None, tree1, [])
      | Some p \<Rightarrow> do {
          n \<leftarrow> node_at tree1 p;
          let (v', dirty) = (case node_value n of
              Some old \<Rightarrow> if strcmp old v \<noteq> 0
                then ((if v \<noteq> [] then strdup al v else None), True) else (Some old, False)
            | None \<Rightarrow> if v \<noteq> [] then (strdup al v, True) else (None, False));
          Some (Some p, update_at p (set_val v') tree1,
            (if dirty then (case node_notify n of Some m \<Rightarrow> [m] | None \<Rightarrow> []) else [])) }) }"

definition xmldb_set_notify ::
    "alloc \<Rightarrow> ptr option \<Rightarrow> char list \<Rightarrow> char list \<Rightarrow> xml_node \<Rightarrow> (ptr option \<times> xml_node) option" where
  "xmldb_set_notify al root path message tree = do {
     (t, tree1) \<leftarrow> xmldb_find_node al root path True tree;
     (case t of
        None \<Rightarrow> Some (None, tree1)
      | Some p \<Rightarrow> Some (Some p, update_at p (set_note (if message \<noteq> [] then strdup al message else None)) tree1)) }"

definition xmldb_get_value :: "alloc \<Rightarrow> ptr option \<Rightarrow> char list \<Rightarrow> xml_node \<Rightarrow> char list option" where
  "xmldb_get_value al root path tree = do {
     (t, tree1) \<leftarrow> xmldb_find_node al root path False tree;
     (case t of
        None \<Rightarrow> Some []
      | Some p \<Rightarrow> do { n \<leftarrow> node_at tree1 p; Some (case node_value n of None \<Rightarrow> [] | Some v \<Rightarrow> v) }) }"

subsection \<open>Deleting a node\<close>

text \<open>The last segment of a path and the path of its parent (\<open>None\<close>: the null pointer).\<close>

definition split_leaf :: "char list \<Rightarrow> char list option \<times> char list" where
  "split_leaf path = (case strrchr path (CHR ''/'') of
       None \<Rightarrow> (None, path)
     | Some k \<Rightarrow> ((if k = 0 then None else Some (take k path)), drop (Suc k) path))"

lemma find_pos_Some: "find_pos P cs = Some k \<Longrightarrow> k < length cs \<and> P (cs ! k) \<and> (\<forall>j<k. \<not> P (cs ! j))"
proof (induction cs arbitrary: k)
  case (Cons c cs)
  then show ?case by (auto split: if_splits simp: less_Suc_eq_0_disj)
qed simp

lemma find_pos_None: "find_pos P cs = None \<longleftrightarrow> (\<forall>c\<in>set cs. \<not> P c)"
  by (induction cs) auto

lemma set_id_simps [simp]:
  "node_id (set_id i n) = i" "node_name (set_id i n) = node_name n" "node_value (set_id i n) = node_value n"
  "node_notify (set_id i n) = node_notify n" "node_child (set_id i n) = node_child n"
  by (simp_all add: set_id_def)

text \<open>The loop that closes the gap in the numbering.\<close>

function renumber :: "char list \<Rightarrow> int \<Rightarrow> xml_node list \<Rightarrow> xml_node list" where
  "renumber name i cs = (case find_pos (same_key name (i + 1)) cs of
       None \<Rightarrow> cs
     | Some k \<Rightarrow> renumber name (i + 1) (cs[k := set_id i (cs ! k)]))"
  by pat_completeness auto
termination
proof (relation "measure (\<lambda>(name, i, cs). length (filter (\<lambda>n. node_id n > i) cs))")
  fix name :: "char list" and i :: int and cs :: "xml_node list" and k
  assume k: "find_pos (same_key name (i + 1)) cs = Some k"
  have k': "k < length cs" "node_id (cs ! k) = i + 1"
    using find_pos_Some [OF k] by (auto simp: same_key_def)
  have split: "cs = take k cs @ cs ! k # drop (Suc k) cs" using k'(1) by (simp add: id_take_nth_drop)
  have "length (filter (\<lambda>n. i + 1 < node_id n) xs) \<le> length (filter (\<lambda>n. i < node_id n) xs)" for xs
    by (induction xs) auto
  from this [of "take k cs"] this [of "drop (Suc k) cs"] show
    "((name, i + 1, cs[k := set_id i (cs ! k)]), name, i, cs)
      \<in> measure (\<lambda>(name, i, cs). length (filter (\<lambda>n. i < node_id n) cs))"
    using k' by (subst (3) split) (simp add: upd_conv_take_nth_drop)
qed simp

declare renumber.simps [simp del]

definition xmldb_del_node ::
    "alloc \<Rightarrow> ptr option \<Rightarrow> char list \<Rightarrow> xml_node \<Rightarrow> (int \<times> xml_node \<times> xml_node list) option" where
  "xmldb_del_node al root path tree =
     (let (ppath, leaf) = split_leaf path; (lnode, i) = split_id leaf in do {
        _ \<leftarrow> strdup al path;
        (pnode, tree1) \<leftarrow> (case ppath of
            Some pp \<Rightarrow> xmldb_find_node al root pp False tree
          | None \<Rightarrow> Some (Some (case root of None \<Rightarrow> [] | Some r \<Rightarrow> r), tree));
        (case pnode of
           None \<Rightarrow> Some (-1, tree1, [])
         | Some p \<Rightarrow> do {
             n \<leftarrow> node_at tree1 p;
             (case remove_child (node_child n) lnode i of
                (None, cs) \<Rightarrow> Some (-1, tree1, [])
              | (Some d, cs) \<Rightarrow> Some (0,
                  update_at p (set_child (if i = 0 then cs else renumber lnode i cs)) tree1, del_node d)) }) })"

subsection \<open>Lemmas on the store\<close>

lemma set_child_simps [simp]:
  "node_id (set_child cs n) = node_id n" "node_name (set_child cs n) = node_name n"
  "node_value (set_child cs n) = node_value n" "node_notify (set_child cs n) = node_notify n"
  "node_child (set_child cs n) = cs" "set_child (node_child n) n = n"
  by (cases n; simp add: set_child_def)+

lemma set_val_simps [simp]:
  "node_id (set_val v n) = node_id n" "node_name (set_val v n) = node_name n" "node_value (set_val v n) = v"
  "node_notify (set_val v n) = node_notify n" "node_child (set_val v n) = node_child n"
  by (simp_all add: set_val_def)

lemma node_at_append: "node_at t (p @ q) = Option.bind (node_at t p) (\<lambda>n. node_at n q)"
  by (induction t p rule: node_at.induct) auto

lemma node_at_snoc:
  "node_at t (p @ [k]) = Some m \<longleftrightarrow> (\<exists>n. node_at t p = Some n \<and> k < length (node_child n) \<and> m = node_child n ! k)"
  by (auto simp: node_at_append bind_Some_iff)

lemma update_at_fields:
  assumes "p \<noteq> []"
  shows "node_id (update_at p f n) = node_id n" "node_name (update_at p f n) = node_name n"
    "node_value (update_at p f n) = node_value n" "node_notify (update_at p f n) = node_notify n"
  using assms by (cases p; cases n; simp)+

text \<open>What is found at \<open>c\<close> after the node at \<open>p\<close> has been changed.\<close>

lemma node_at_update:
  assumes "node_at t p = Some n"
  shows "node_at (update_at p f t) c =
    (if prefix p c then node_at (f n) (drop (length p) c)
     else map_option (\<lambda>m. if prefix c p then update_at (drop (length c) p) f m else m) (node_at t c))"
  using assms
proof (induction p f t arbitrary: c rule: update_at.induct)
  case (1 f n)
  then show ?case by simp
next
  case (2 k p f i nm v nt cs)
  then have k: "k < length cs" and n: "node_at (cs ! k) p = Some n" by (simp_all split: if_splits)
  show ?case
  proof (cases c)
    case Nil
    with k show ?thesis by simp
  next
    case (Cons j c')
    show ?thesis
    proof (cases "j = k")
      case True
      with k 2(1) [OF k n, of c'] show ?thesis unfolding Cons by (simp cong: if_cong)
    next
      case False
      with Cons k show ?thesis by (cases "node_at (cs ! j) c'") auto
    qed
  qed
qed

lemma node_at_update_same [simp]: "node_at t p = Some n \<Longrightarrow> node_at (update_at p f t) p = Some (f n)"
  by (simp add: node_at_update)

lemma update_at_id: "node_at t p = Some n \<Longrightarrow> f n = n \<Longrightarrow> update_at p f t = t"
  by (induction p f t rule: update_at.induct) (auto split: if_splits)

text \<open>\<open>same_label\<close>: the name and the number by which a node is found; \<open>same_fields\<close>: its value and its
  notification too. \<open>grows R t t'\<close>: every node is still where it was.\<close>

definition same_label :: "xml_node \<Rightarrow> xml_node \<Rightarrow> bool" where
  "same_label n n' \<longleftrightarrow> node_id n' = node_id n \<and> node_name n' = node_name n"

definition same_fields :: "xml_node \<Rightarrow> xml_node \<Rightarrow> bool" where
  "same_fields n n' \<longleftrightarrow> same_label n n' \<and> node_value n' = node_value n \<and> node_notify n' = node_notify n"

definition grows :: "(ptr \<Rightarrow> xml_node \<Rightarrow> xml_node \<Rightarrow> bool) \<Rightarrow> xml_node \<Rightarrow> xml_node \<Rightarrow> bool" where
  "grows R t t' \<longleftrightarrow> (\<forall>c n. node_at t c = Some n \<longrightarrow> (\<exists>n'. node_at t' c = Some n' \<and> R c n n'))"

abbreviation keeps :: "xml_node \<Rightarrow> xml_node \<Rightarrow> bool" where "keeps \<equiv> grows (\<lambda>_. same_label)"
abbreviation enlarges :: "xml_node \<Rightarrow> xml_node \<Rightarrow> bool" where "enlarges \<equiv> grows (\<lambda>_. same_fields)"

lemma same_label_refl [simp]: "same_label n n" and same_fields_refl [simp]: "same_fields n n"
  by (simp_all add: same_label_def same_fields_def)

lemma grows_refl [simp]: "keeps t t" "enlarges t t"
  by (auto simp: grows_def)

lemma enlarges_trans: "enlarges t1 t2 \<Longrightarrow> enlarges t2 t3 \<Longrightarrow> enlarges t1 t3"
  unfolding grows_def same_fields_def same_label_def by metis

lemma keeps_trans: "keeps t1 t2 \<Longrightarrow> keeps t2 t3 \<Longrightarrow> keeps t1 t3"
  unfolding grows_def same_label_def by metis

lemma enlarges_keeps: "enlarges t t' \<Longrightarrow> keeps t t'"
  unfolding grows_def same_fields_def by metis

lemma enlarges_append:
  assumes "node_at t p = Some n" and "node_child n = cs"
  shows "enlarges t (update_at p (set_child (cs @ ds)) t)"
  unfolding grows_def
proof (intro allI impI)
  fix c m assume m: "node_at t c = Some m"
  show "\<exists>n'. node_at (update_at p (set_child (cs @ ds)) t) c = Some n' \<and> same_fields m n'"
  proof (cases "prefix p c")
    case True
    then obtain q where c: "c = p @ q" by (auto simp: prefix_def)
    with m assms have "node_at n q = Some m" by (simp add: node_at_append)
    with assms(2) c show ?thesis
      by (cases q) (auto simp: node_at_update [OF assms(1)] same_fields_def same_label_def nth_append split: if_splits)
  next
    case False
    then have "drop (length c) p \<noteq> []" if "prefix c p" using that by (auto simp: prefix_def)
    with False m show ?thesis
      by (auto simp: node_at_update [OF assms(1)] same_fields_def same_label_def update_at_fields)
  qed
qed

lemma keeps_set_val:
  assumes "node_at t p = Some n"
  shows "grows (\<lambda>c m m'. same_label m m' \<and> (c \<noteq> p \<longrightarrow> same_fields m m')) t (update_at p (set_val v) t)"
  unfolding grows_def
proof (intro allI impI)
  fix c m assume m: "node_at t c = Some m"
  show "\<exists>n'. node_at (update_at p (set_val v) t) c = Some n' \<and> same_label m n' \<and> (c \<noteq> p \<longrightarrow> same_fields m n')"
  proof (cases "prefix p c")
    case True
    then obtain q where c: "c = p @ q" by (auto simp: prefix_def)
    with m assms have "node_at n q = Some m" by (simp add: node_at_append)
    with c show ?thesis
      by (cases q) (auto simp: node_at_update [OF assms(1)] same_label_def same_fields_def split: if_splits)
  next
    case False
    then have "drop (length c) p \<noteq> []" if "prefix c p" using that by (auto simp: prefix_def)
    with False m show ?thesis
      by (auto simp: node_at_update [OF assms(1)] same_fields_def same_label_def update_at_fields)
  qed
qed

subsection \<open>Finding what has been found\<close>

lemma strcmp_zero: "strcmp a b = 0 \<longleftrightarrow> a = b"
  by (induction a b rule: strcmp.induct) (auto simp: order.strict_iff_order)

lemma same_key_label: "same_label n n' \<Longrightarrow> same_key name i n' = same_key name i n"
  by (simp add: same_key_def same_label_def)

lemma same_key_new: "new_node al name v i = Some n \<Longrightarrow> same_key name i n"
  by (auto simp: new_node_def same_key_def strcasecmp_def strcmp_zero split: if_splits)

lemma find_pos_append:
  "find_pos P (cs @ ds) = (case find_pos P cs of Some k \<Rightarrow> Some k
     | None \<Rightarrow> map_option (\<lambda>k. length cs + k) (find_pos P ds))"
  by (induction cs; cases "find_pos P ds") (auto split: option.splits)

lemma find_pos_eqI: "k < length cs \<Longrightarrow> P (cs ! k) \<Longrightarrow> (\<And>j. j < k \<Longrightarrow> \<not> P (cs ! j)) \<Longrightarrow> find_pos P cs = Some k"
proof (induction cs arbitrary: k)
  case (Cons c cs)
  show ?case
  proof (cases k)
    case (Suc k')
    have "\<not> P c" using Cons.prems(3) [of 0] Suc by simp
    moreover have "find_pos P cs = Some k'" using Cons.IH [of k'] Cons.prems Suc by fastforce
    ultimately show ?thesis using Suc by simp
  qed (use Cons.prems in simp)
qed simp

text \<open>A position stays the first match while nodes keep their labels and places.\<close>

lemma find_pos_keeps:
  assumes "keeps t t'" and "node_at t p = Some n" and "find_pos (same_key name i) (node_child n) = Some k"
  shows "\<exists>n'. node_at t' p = Some n' \<and> find_pos (same_key name i) (node_child n') = Some k"
proof -
  obtain n' where n': "node_at t' p = Some n'" using assms(1,2) by (auto simp: grows_def)
  note f = find_pos_Some [OF assms(3)]
  have j: "j < length (node_child n') \<and> same_label (node_child n ! j) (node_child n' ! j)" if "j \<le> k" for j
  proof -
    have "node_at t (p @ [j]) = Some (node_child n ! j)" using that f assms(2) by (auto simp: node_at_snoc)
    with assms(1) obtain m where "node_at t' (p @ [j]) = Some m" "same_label (node_child n ! j) m"
      unfolding grows_def by blast
    with n' show ?thesis by (auto simp: node_at_snoc)
  qed
  have "find_pos (same_key name i) (node_child n') = Some k"
    using f j same_key_label by (intro find_pos_eqI) (metis less_or_eq_imp_le order.refl)+
  with n' show ?thesis by blast
qed

lemma find_step_hit:
  assumes "split_id seg = (name, i)" and "node_at t root = Some n"
    and "find_pos (same_key name i) (node_child n) = Some k"
  shows "find_step al create seg root target t = Some (Some (root @ [k]), t)"
  using assms find_pos_Some [OF assms(3)]
  by (auto simp: find_step_def xmldb_find_sibling_def update_at_id)

text \<open>With creation a step succeeds only with a node that is the first match in the new tree; the tree only
  grows, by nodes without value and notification.\<close>

definition blank :: "xml_node \<Rightarrow> xml_node \<Rightarrow> bool" where
  "blank t t' \<longleftrightarrow> (\<forall>c n. node_at t c = None \<longrightarrow> node_at t' c = Some n \<longrightarrow> node_value n = None \<and> node_notify n = None)"

lemma blank_trans: "blank t1 t2 \<Longrightarrow> blank t2 t3 \<Longrightarrow> enlarges t2 t3 \<Longrightarrow> blank t1 t3"
  unfolding blank_def grows_def same_fields_def by (metis option.exhaust option.inject)

lemma blank_append:
  assumes "node_at t p = Some n" and "new_node al name None i = Some m"
  shows "blank t (update_at p (set_child (node_child n @ [m])) t)"
  unfolding blank_def
proof (intro allI impI)
  fix c x assume c: "node_at t c = None" "node_at (update_at p (set_child (node_child n @ [m])) t) c = Some x"
  then have pc: "prefix p c" by (auto simp: node_at_update [OF assms(1)] split: if_splits)
  then obtain q where q: "c = p @ q" by (auto simp: prefix_def)
  with c assms(1) have "node_at n q = None" "node_at (set_child (node_child n @ [m]) n) q = Some x"
    by (simp_all add: node_at_append node_at_update [OF assms(1)])
  then obtain k q' where "q = k # q'" "k = length (node_child n)" "node_at m q' = Some x"
    by (cases q) (auto simp: nth_append split: if_splits)
  with assms(2) show "node_value x = None \<and> node_notify x = None"
    by (cases q') (auto simp: new_node_def split: if_splits)
qed

lemma find_step_create:
  assumes "find_step al True seg root target t = Some (r, t')" and "split_id seg = (name, i)"
  shows "enlarges t t' \<and> blank t t' \<and>
    (case r of None \<Rightarrow> t' = t
     | Some q \<Rightarrow> \<exists>k n'. q = root @ [k] \<and> node_at t' root = Some n' \<and>
         find_pos (same_key name i) (node_child n') = Some k)"
proof -
  obtain n where n: "node_at t root = Some n"
    using assms by (auto simp: find_step_def bind_Some_iff)
  note e = enlarges_append [OF n refl] and b = blank_append [OF n]
  have new: "find_pos (same_key name i) (node_child n @ [m]) = Some (length (node_child n))"
    if "new_node al name None i = Some m" "find_pos (same_key name i) (node_child n) = None" for m
    using that same_key_new [OF that(1)] by (simp add: find_pos_append)
  consider (hit) k where "find_pos (same_key name i) (node_child n) = Some k"
    | (made) m where "find_pos (same_key name i) (node_child n) = None" "new_node al name None i = Some m"
    | (fail) "find_pos (same_key name i) (node_child n) = None" "new_node al name None i = None"
    by (cases "find_pos (same_key name i) (node_child n)"; cases "new_node al name None i") auto
  then show ?thesis
  proof cases
    case hit
    with find_step_hit [OF assms(2) n hit] assms(1) n show ?thesis by (auto simp: blank_def)
  next
    case made
    have "r = Some (root @ [length (node_child n)])" "t' = update_at root (set_child (node_child n @ [m])) t"
      using assms n made by (auto simp: find_step_def xmldb_find_sibling_def split: if_splits)
    with e [of "[m]"] b [OF made(2)] new [OF made(2,1)] n show ?thesis by simp
  next
    case fail
    have "r = None" "t' = t"
      using assms n fail by (auto simp: find_step_def xmldb_find_sibling_def update_at_id split: if_splits)
    then show ?thesis by (simp add: blank_def)
  qed
qed

abbreviation first_seg :: "char list \<Rightarrow> char list" where "first_seg path \<equiv> fst (get_node MAX_TAG_LEN path)"
abbreviation rest_path :: "char list \<Rightarrow> char list" where "rest_path path \<equiv> snd (get_node MAX_TAG_LEN path)"

lemma find_loop_Nil [simp]: "find_loop al create [] root target t = Some (target, t)"
  by (subst find_loop.simps) simp

lemma find_loop_dot:
  "path \<noteq> [] \<Longrightarrow> first_seg path = ''.'' \<Longrightarrow>
    find_loop al create path root target t = find_loop al create (rest_path path) root (Some root) t"
  by (subst find_loop.simps) simp

lemma find_loop_seg:
  "path \<noteq> [] \<Longrightarrow> first_seg path \<noteq> ''.'' \<Longrightarrow>
    find_loop al create path root target t =
      Option.bind (find_step al create (first_seg path) root target t) (\<lambda>(r, t').
        case r of None \<Rightarrow> Some (None, t') | Some q \<Rightarrow> find_loop al create (rest_path path) q r t')"
  by (subst find_loop.simps) simp

text \<open>Induction over the segments of a path.\<close>

lemma path_induct [case_names Nil Dot Seg]:
  assumes "P []" and "\<And>path. path \<noteq> [] \<Longrightarrow> first_seg path = ''.'' \<Longrightarrow> P (rest_path path) \<Longrightarrow> P path"
    and "\<And>path. path \<noteq> [] \<Longrightarrow> first_seg path \<noteq> ''.'' \<Longrightarrow> P (rest_path path) \<Longrightarrow> P path"
  shows "P path"
proof (induction path rule: length_induct)
  case (1 path)
  with assms get_node_shorter [of path MAX_TAG_LEN] show ?case by (cases "path = []") blast+
qed

lemma find_loop_create:
  assumes "find_loop al True path root target t = Some (r, t')"
  shows "enlarges t t' \<and> blank t t'"
  using assms
proof (induction path arbitrary: root target t rule: path_induct)
  case Nil
  then show ?case by (simp add: blank_def)
next
  case (Dot path)
  then show ?case by (simp add: find_loop_dot)
next
  case (Seg path)
  then obtain r1 t1 where 1: "find_step al True (first_seg path) root target t = Some (r1, t1)"
    "(case r1 of None \<Rightarrow> Some (None, t1) | Some q \<Rightarrow> find_loop al True (rest_path path) q r1 t1) = Some (r, t')"
    by (auto simp: find_loop_seg bind_Some_iff)
  obtain name i where "split_id (first_seg path) = (name, i)" by fastforce
  note c = find_step_create [OF 1(1) this]
  show ?case
  proof (cases r1)
    case None
    with c 1(2) show ?thesis by (simp add: blank_def)
  next
    case (Some q)
    with 1(2) Seg.IH have "enlarges t1 t' \<and> blank t1 t'" by simp
    with c enlarges_trans blank_trans show ?thesis by blast
  qed
qed

lemma find_loop_stable:
  assumes "find_loop al True path root target t = Some (Some q, t1)" and "keeps t1 t'"
    and "path = [] \<longrightarrow> target' = target"
  shows "find_loop al' create path root target' t' = Some (Some q, t')"
  using assms
proof (induction path arbitrary: root target target' t rule: path_induct)
  case Nil
  then show ?case by simp
next
  case (Dot path)
  then show ?case by (simp add: find_loop_dot)
next
  case (Seg path)
  obtain name i where s: "split_id (first_seg path) = (name, i)" by fastforce
  from Seg.prems(1) Seg.hyps obtain p t2 where
    1: "find_step al True (first_seg path) root target t = Some (Some p, t2)"
      "find_loop al True (rest_path path) p (Some p) t2 = Some (Some q, t1)"
    by (auto simp: find_loop_seg bind_Some_iff split: option.splits)
  from find_step_create [OF 1(1) s] obtain k n where
    k: "p = root @ [k]" "node_at t2 root = Some n" "find_pos (same_key name i) (node_child n) = Some k" by auto
  have "keeps t2 t'"
    using find_loop_create [OF 1(2)] Seg.prems(2) enlarges_keeps keeps_trans by blast
  from find_pos_keeps [OF this k(2,3)] obtain n' where
    "node_at t' root = Some n'" "find_pos (same_key name i) (node_child n') = Some k" by blast
  from find_step_hit [OF s this] Seg.IH [OF 1(2) Seg.prems(2)] Seg.hyps k(1) show ?case
    by (simp add: find_loop_seg)
qed

lemma find_loop_valid:
  assumes "find_loop al True path root target t = Some (Some q, t')"
    and "\<And>x. target = Some x \<Longrightarrow> node_at t x \<noteq> None" and "node_at t root \<noteq> None"
  shows "node_at t' q \<noteq> None"
  using assms
proof (induction path arbitrary: root target t rule: path_induct)
  case Nil
  then show ?case by simp
next
  case (Dot path)
  from Dot.IH [of root "Some root" t] Dot.prems Dot.hyps show ?case by (simp add: find_loop_dot)
next
  case (Seg path)
  obtain name i where s: "split_id (first_seg path) = (name, i)" by fastforce
  from Seg.prems(1) Seg.hyps obtain p t2 where
    1: "find_step al True (first_seg path) root target t = Some (Some p, t2)"
      "find_loop al True (rest_path path) p (Some p) t2 = Some (Some q, t')"
    by (auto simp: find_loop_seg bind_Some_iff split: option.splits)
  from find_step_create [OF 1(1) s] find_pos_Some have "node_at t2 p \<noteq> None" by (auto simp: node_at_append)
  with Seg.IH [OF 1(2)] show ?case by simp
qed

lemma find_step_False_tree: "find_step al False seg root target t = Some (r, t') \<Longrightarrow> t' = t"
  by (auto simp: find_step_def xmldb_find_sibling_def bind_Some_iff update_at_id
      split: prod.splits if_splits option.splits)

lemma find_loop_False_tree: "find_loop al False path root target t = Some (r, t') \<Longrightarrow> t' = t"
proof (induction path arbitrary: root target t rule: path_induct)
  case (Seg path)
  then show ?case
    by (auto simp: find_loop_seg bind_Some_iff dest!: find_step_False_tree split: option.splits)
qed (simp_all add: find_loop_dot)

subsection \<open>Setting and getting\<close>

text \<open>A path whose segments are dots or have a nonempty name.\<close>

function path_ok :: "char list \<Rightarrow> bool" where
  "path_ok path = (if path = [] then True
     else if first_seg path = ''.'' \<or> fst (split_id (first_seg path)) \<noteq> [] then path_ok (rest_path path)
     else False)"
  by pat_completeness auto
termination by (relation "measure length") (auto intro: get_node_shorter)

declare path_ok.simps [simp del]

definition legal_path :: "char list \<Rightarrow> bool" where
  "legal_path path \<longleftrightarrow> (case path of [] \<Rightarrow> False
     | c # p \<Rightarrow> if c = CHR ''/'' then p \<noteq> [] \<and> path_ok p else path_ok path)"

definition valid_ptr :: "xml_node \<Rightarrow> ptr option \<Rightarrow> bool" where
  "valid_ptr t root \<longleftrightarrow> (case root of None \<Rightarrow> True | Some r \<Rightarrow> node_at t r \<noteq> None)"

lemma find_step_total:
  assumes "\<forall>n. al n" and "fst (split_id seg) \<noteq> []" and "node_at t root = Some n"
  shows "\<exists>q t'. find_step al True seg root target t = Some (Some q, t')"
  using assms by (cases "find_pos (same_key (fst (split_id seg)) (snd (split_id seg))) (node_child n)")
    (auto simp: find_step_def xmldb_find_sibling_def new_node_def split: prod.splits)

lemma find_loop_total:
  assumes "path_ok path" and "\<forall>n. al n" and "node_at t root \<noteq> None" and "path = [] \<longrightarrow> target \<noteq> None"
  shows "\<exists>q t'. find_loop al True path root target t = Some (Some q, t')"
  using assms
proof (induction path arbitrary: root target t rule: path_induct)
  case Nil
  then show ?case by auto
next
  case (Dot path)
  with path_ok.simps [of path] show ?case by (simp add: find_loop_dot)
next
  case (Seg path)
  have ok: "fst (split_id (first_seg path)) \<noteq> []" "path_ok (rest_path path)"
    using Seg.prems(1) Seg.hyps path_ok.simps [of path] by (auto split: if_splits)
  obtain n where "node_at t root = Some n" using Seg.prems(3) by blast
  from find_step_total [OF Seg.prems(2) ok(1) this] obtain q t1 where
    1: "find_step al True (first_seg path) root target t = Some (Some q, t1)" by blast
  obtain name i where s: "split_id (first_seg path) = (name, i)" by fastforce
  from find_step_create [OF 1 s] find_pos_Some have "node_at t1 q \<noteq> None" by (auto simp: node_at_append)
  from Seg.IH [OF ok(2) Seg.prems(2) this, of "Some q"] 1 Seg.hyps show ?case by (simp add: find_loop_seg)
qed

text \<open>The summary of \<^verbatim>\<open>xmldb_find_node\<close> the operations are proved from.\<close>

lemma find_node_loop:
  assumes "valid_ptr t root" and "legal_path path"
  obtains p r where "p \<noteq> []" "path_ok p" "node_at t r \<noteq> None"
    "\<And>al create t'. xmldb_find_node al root path create t' = find_loop al create p r None t'"
proof (cases path)
  case Nil
  with assms(2) show ?thesis by (simp add: legal_path_def)
next
  case (Cons c p)
  show ?thesis
  proof (cases "c = CHR ''/''")
    case True
    with Cons assms(2) that [of p "[]"] show ?thesis by (simp add: legal_path_def xmldb_find_node_def)
  next
    case False
    with Cons assms that [of path "case root of None \<Rightarrow> [] | Some r \<Rightarrow> r"] show ?thesis
      by (auto simp: legal_path_def xmldb_find_node_def valid_ptr_def split: option.splits)
  qed
qed

lemma find_node_create:
  assumes "valid_ptr t root" and "legal_path path" and "\<forall>n. al n"
  shows "\<exists>q t1 n. xmldb_find_node al root path True t = Some (Some q, t1) \<and> node_at t1 q = Some n \<and>
    enlarges t t1 \<and> blank t t1 \<and>
    (\<forall>t' al' create. keeps t1 t' \<longrightarrow> xmldb_find_node al' root path create t' = Some (Some q, t'))"
proof -
  obtain p r where p: "p \<noteq> []" "path_ok p" "node_at t r \<noteq> None"
    "\<And>al create t'. xmldb_find_node al root path create t' = find_loop al create p r None t'"
    using find_node_loop [OF assms(1,2)] by blast
  from find_loop_total [OF p(2) assms(3) p(3), of None] p(1) obtain q t1 where
    q: "find_loop al True p r None t = Some (Some q, t1)" by auto
  moreover from find_loop_valid [OF q _ p(3)] obtain n where "node_at t1 q = Some n" by auto
  ultimately show ?thesis
    using find_loop_create [OF q] find_loop_stable [OF q] p(1,4) by auto
qed

text \<open>C11: Setting the value of a node with a legal path succeeds and creates the missing nodes; afterwards the
  value is read back under the same path, every other node of the tree is where it was with its name, number,
  value and notification, and the notification of the node is sent exactly when its value has changed.\<close>

theorem xmldb_set_get:
  assumes "valid_ptr t root" and "legal_path path" and "\<forall>n. al n"
  shows "\<exists>q t' msgs. xmldb_set_value al root path v t = Some (Some q, t', msgs) \<and>
    xmldb_get_value al root path t' = Some v \<and>
    (\<forall>c n. node_at t c = Some n \<and> c \<noteq> q \<longrightarrow> (\<exists>n'. node_at t' c = Some n' \<and> same_fields n n')) \<and>
    msgs = (case node_at t q of None \<Rightarrow> []
      | Some n \<Rightarrow> if (case node_value n of None \<Rightarrow> [] | Some w \<Rightarrow> w) = v then []
                  else (case node_notify n of None \<Rightarrow> [] | Some m \<Rightarrow> [m]))"
proof -
  obtain q t1 n where q: "xmldb_find_node al root path True t = Some (Some q, t1)" "node_at t1 q = Some n"
    "enlarges t t1" "blank t t1"
    and again: "\<And>t' al' create. keeps t1 t' \<Longrightarrow> xmldb_find_node al' root path create t' = Some (Some q, t')"
    using find_node_create [OF assms] by blast
  define v' where "v' = (if v \<noteq> [] then Some v else if node_value n = Some [] then Some [] else None)"
  let ?t' = "update_at q (set_val v') t1"
  let ?msgs = "if (case node_value n of None \<Rightarrow> [] | Some w \<Rightarrow> w) = v then []
    else (case node_notify n of None \<Rightarrow> [] | Some m \<Rightarrow> [m])"
  have set: "xmldb_set_value al root path v t = Some (Some q, ?t', ?msgs)"
    using q(1,2) assms(3)
    by (auto simp: xmldb_set_value_def v'_def strdup_def strcmp_zero Let_def split: option.splits)
  have k: "grows (\<lambda>c m m'. same_label m m' \<and> (c \<noteq> q \<longrightarrow> same_fields m m')) t1 ?t'" by (rule keeps_set_val [OF q(2)])
  then have "keeps t1 ?t'" by (auto simp: grows_def)
  then have "xmldb_get_value al root path ?t' = Some v"
    using again [of ?t' al False] q(2) by (auto simp: xmldb_get_value_def v'_def)
  moreover have "\<forall>c n. node_at t c = Some n \<and> c \<noteq> q \<longrightarrow> (\<exists>n'. node_at ?t' c = Some n' \<and> same_fields n n')"
    using q(3) k unfolding grows_def same_fields_def same_label_def by metis
  moreover have "?msgs = (case node_at t q of None \<Rightarrow> []
      | Some n \<Rightarrow> if (case node_value n of None \<Rightarrow> [] | Some w \<Rightarrow> w) = v then []
                  else (case node_notify n of None \<Rightarrow> [] | Some m \<Rightarrow> [m]))"
  proof (cases "node_at t q")
    case None
    with q(2,4) show ?thesis by (simp add: blank_def)
  next
    case (Some m)
    with q(2,3) have "same_fields m n" unfolding grows_def by fastforce
    with Some show ?thesis by (simp add: same_fields_def)
  qed
  ultimately show ?thesis using set by blast
qed

theorem xmldb_set_get_witness:
  "\<exists>q t' msgs. xmldb_set_value (\<lambda>_. True) None ''/wan/inf:2/ip'' ''10.0.0.1'' (Xml_node 0 [] None None []) =
      Some (Some q, t', msgs) \<and> xmldb_get_value (\<lambda>_. True) None ''/wan/inf:2/ip'' t' = Some ''10.0.0.1''"
proof -
  have "legal_path ''/wan/inf:2/ip''"
    by (simp add: legal_path_def path_ok.simps get_node_def MAX_TAG_LEN_def split_id_def)
  from xmldb_set_get [of "Xml_node 0 [] None None []" None, OF _ this, of "\<lambda>_. True" "''10.0.0.1''"]
  show ?thesis by (simp add: valid_ptr_def) blast
qed

text \<open>Searching a longer path continues where the search of its beginning ends.\<close>

lemma get_node_extend:
  assumes "p \<noteq> []" and "last p \<noteq> CHR ''/''"
  shows "get_node m (p @ CHR ''/'' # r) =
    (fst (get_node m p), if snd (get_node m p) = [] then r else snd (get_node m p) @ CHR ''/'' # r)"
    and "snd (get_node m p) \<noteq> [] \<Longrightarrow> last (snd (get_node m p)) \<noteq> CHR ''/''"
proof -
  let ?d = "dropWhile (\<lambda>c. c \<noteq> CHR ''/'') p"
  have "?d = [] \<or> (\<exists>x r. ?d = CHR ''/'' # x # r \<and> last (x # r) = last p)"
  proof (cases ?d)
    case (Cons c d)
    have "c = CHR ''/''" using Cons hd_dropWhile [of "\<lambda>c. c \<noteq> CHR ''/''" p] by simp
    moreover have "last p = last ?d" using Cons by (metis last_appendR list.distinct(1) takeWhile_dropWhile_id)
    ultimately show ?thesis using Cons assms(2) by (cases d) auto
  qed simp
  then consider (no) "\<forall>c\<in>set p. c \<noteq> CHR ''/''" | (yes) x y where "?d = CHR ''/'' # x # y" "last (x # y) = last p"
    by (auto simp: dropWhile_eq_Nil_conv)
  then have "get_node m (p @ CHR ''/'' # r) =
      (fst (get_node m p), if snd (get_node m p) = [] then r else snd (get_node m p) @ CHR ''/'' # r) \<and>
    (snd (get_node m p) \<noteq> [] \<longrightarrow> last (snd (get_node m p)) \<noteq> CHR ''/'')"
  proof cases
    case no
    then have "takeWhile (\<lambda>c. c \<noteq> CHR ''/'') p = p" "?d = []"
      "takeWhile (\<lambda>c. c \<noteq> CHR ''/'') (p @ CHR ''/'' # r) = p"
      "dropWhile (\<lambda>c. c \<noteq> CHR ''/'') (p @ CHR ''/'' # r) = CHR ''/'' # r"
      by (simp_all add: takeWhile_append2 dropWhile_append2)
    then show ?thesis by (simp add: get_node_def del: takeWhile_eq_all_conv dropWhile_eq_Nil_conv)
  next
    case yes
    have mem: "CHR ''/'' \<in> set p" by (metis yes(1) list.set_intros(1) set_dropWhileD)
    have "takeWhile (\<lambda>c. c \<noteq> CHR ''/'') (p @ CHR ''/'' # r) = takeWhile (\<lambda>c. c \<noteq> CHR ''/'') p"
      "dropWhile (\<lambda>c. c \<noteq> CHR ''/'') (p @ CHR ''/'' # r) = ?d @ CHR ''/'' # r"
      by (rule takeWhile_append1 [OF mem] dropWhile_append1 [OF mem], simp)+
    with yes assms(2) show ?thesis by (simp add: get_node_def)
  qed
  then show "get_node m (p @ CHR ''/'' # r) =
      (fst (get_node m p), if snd (get_node m p) = [] then r else snd (get_node m p) @ CHR ''/'' # r)"
    and "snd (get_node m p) \<noteq> [] \<Longrightarrow> last (snd (get_node m p)) \<noteq> CHR ''/''" by blast+
qed

lemma find_loop_extend:
  assumes "p \<noteq> []" and "last p \<noteq> CHR ''/''" and "find_loop al create p root target t = Some (Some q, t')"
  shows "find_loop al create (p @ CHR ''/'' # r) root target t = find_loop al create r q (Some q) t'"
  using assms
proof (induction p arbitrary: root target t rule: path_induct)
  case Nil
  then show ?case by simp
next
  case (Dot p)
  note g = get_node_extend [OF Dot.prems(1,2)]
  show ?case
  proof (cases "rest_path p = []")
    case True
    with Dot g show ?thesis by (simp add: find_loop_dot)
  next
    case False
    with Dot.IH [OF _ g(2) [OF False], of root "Some root" t] Dot g show ?thesis by (simp add: find_loop_dot)
  qed
next
  case (Seg p)
  note g = get_node_extend [OF Seg.prems(1,2)]
  from Seg.prems(3) Seg.hyps obtain q1 t1 where
    1: "find_step al create (first_seg p) root target t = Some (Some q1, t1)"
      "find_loop al create (rest_path p) q1 (Some q1) t1 = Some (Some q, t')"
    by (auto simp: find_loop_seg bind_Some_iff split: option.splits)
  show ?case
  proof (cases "rest_path p = []")
    case True
    with Seg.hyps g 1 show ?thesis by (simp add: find_loop_seg)
  next
    case False
    with Seg.IH [OF False g(2) [OF False] 1(2)] Seg.hyps g 1 show ?thesis by (simp add: find_loop_seg)
  qed
qed

lemma find_node_extend:
  assumes "xmldb_find_node al root path create t = Some (Some q, t')" and "last path \<noteq> CHR ''/''"
  shows "xmldb_find_node al root (path @ CHR ''/'' # r) create t = find_loop al create r q (Some q) t'"
proof (cases path)
  case Nil
  with assms show ?thesis by (simp add: xmldb_find_node_def)
next
  case (Cons c p)
  show ?thesis
  proof (cases "c = CHR ''/''")
    case True
    with Cons assms have "p \<noteq> []" "last p \<noteq> CHR ''/''" by (auto split: if_splits)
    with Cons True assms(1) find_loop_extend [of p] show ?thesis by (simp add: xmldb_find_node_def)
  next
    case False
    with Cons assms find_loop_extend [of path al create _ None t q t' r] show ?thesis
      by (simp add: xmldb_find_node_def)
  qed
qed

lemma find_loop_leaf:
  assumes "node_at t q = Some n" and "node_child n = []"
  shows "find_loop al False path q (Some q) t = Some (Some q, t)"
  by (induction path rule: path_induct)
    (simp_all add: find_loop_dot find_loop_seg find_step_def assms split: prod.split)

text \<open>Reading below a leaf does not report a missing node: the search keeps the node it was at, so the
  value of the leaf is returned for every longer path.\<close>

theorem xmldb_get_below_leaf:
  assumes "xmldb_find_node al root path False t = Some (Some q, t)" and "last path \<noteq> CHR ''/''"
    and "node_at t q = Some n" and "node_child n = []"
  shows "xmldb_get_value al root (path @ ''/'' @ longer) t = Some (case node_value n of None \<Rightarrow> [] | Some v \<Rightarrow> v)"
  using find_node_extend [OF assms(1,2), of longer] find_loop_leaf [OF assms(3,4)] assms(3)
  by (simp add: xmldb_get_value_def)

theorem xmldb_get_below_leaf_witness:
  "xmldb_get_value (\<lambda>_. True) None (''/wan'' @ ''/'' @ ''ip'')
    (Xml_node 0 [] None None [Xml_node 0 ''wan'' (Some ''x'') None []]) = Some ''x''"
proof -
  let ?t = "Xml_node 0 [] None None [Xml_node 0 ''wan'' (Some ''x'') None []]"
  have "xmldb_find_node (\<lambda>_. True) None ''/wan'' False ?t = Some (Some [0], ?t)"
    by code_simp
  from xmldb_get_below_leaf [OF this, of "Xml_node 0 ''wan'' (Some ''x'') None []" "''ip''"] show ?thesis by simp
qed

subsection \<open>Deleting and renumbering\<close>

text \<open>The node numbered \<open>j\<close> among the siblings called \<open>name\<close>, apart from its number.\<close>

definition numbered :: "char list \<Rightarrow> xml_node list \<Rightarrow> int \<Rightarrow> xml_node option" where
  "numbered name cs j = map_option (\<lambda>k. set_id 0 (cs ! k)) (find_pos (same_key name j) cs)"

definition unique_ids :: "char list \<Rightarrow> xml_node list \<Rightarrow> bool" where
  "unique_ids name cs \<longleftrightarrow> distinct (map node_id (filter (\<lambda>n. strcasecmp (node_name n) name = 0) cs))"

lemma numbered_simps [simp]:
  "numbered name [] j = None"
  "numbered name (n # cs) j = (if same_key name j n then Some (set_id 0 n) else numbered name cs j)"
  by (simp_all add: numbered_def option.map_comp comp_def)

lemma numbered_append:
  "numbered name (cs @ ds) j = (case numbered name cs j of None \<Rightarrow> numbered name ds j | Some n \<Rightarrow> Some n)"
  by (induction cs) auto

lemma numbered_None: "numbered name cs j = None \<longleftrightarrow> (\<forall>n\<in>set cs. \<not> same_key name j n)"
  by (simp add: numbered_def find_pos_None)

lemma set_id_set_id [simp]: "set_id i (set_id j n) = set_id i n"
  by (simp add: set_id_def)

lemma unique_ids_mid:
  "unique_ids name (xs @ n # ys) \<Longrightarrow> same_key name j n \<Longrightarrow>
    numbered name xs j = None \<and> numbered name ys j = None \<and> unique_ids name (xs @ ys)"
  unfolding unique_ids_def numbered_None same_key_def by (auto simp: rev_image_eqI)

lemma renumber_step:
  assumes "unique_ids name cs" and "numbered name cs i = None" and "find_pos (same_key name (i + 1)) cs = Some k"
  defines "ds \<equiv> cs[k := set_id i (cs ! k)]"
  shows "unique_ids name ds"
    and "numbered name ds j = (if j = i then numbered name cs (i + 1) else if j = i + 1 then None else numbered name cs j)"
proof -
  note k = find_pos_Some [OF assms(3)]
  define xs n ys where "xs = take k cs" and "n = cs ! k" and "ys = drop (Suc k) cs"
  have cs: "cs = xs @ n # ys" and ds: "ds = xs @ set_id i n # ys"
    using k by (simp_all add: xs_def n_def ys_def ds_def id_take_nth_drop upd_conv_take_nth_drop)
  have key: "same_key name (i + 1) n" using k by (simp add: n_def)
  then have nm: "strcasecmp (node_name n) name = 0" "node_id n = i + 1" by (simp_all add: same_key_def)
  note u = unique_ids_mid [OF assms(1) [unfolded cs] key]
  have gap: "\<forall>m\<in>set xs \<union> set ys. \<not> same_key name i m"
    using assms(2) unfolding cs numbered_None by auto
  show "unique_ids name ds"
    using u gap nm unfolding ds unique_ids_def same_key_def by (auto simp: image_iff)
  show "numbered name ds j = (if j = i then numbered name cs (i + 1) else if j = i + 1 then None else numbered name cs j)"
  proof -
    have "numbered name xs i = None" "numbered name ys i = None" using gap by (auto simp: numbered_None)
    with u nm show ?thesis
      unfolding ds cs numbered_append by (cases "j = i"; cases "j = i + 1") (simp_all add: same_key_def split: option.split)
  qed
qed

lemma renumber_numbered:
  assumes "unique_ids name cs" and "numbered name cs i = None"
    and "\<And>m. i < m \<Longrightarrow> numbered name cs (m + 1) \<noteq> None \<Longrightarrow> numbered name cs m \<noteq> None"
  shows "numbered name (renumber name i cs) j = numbered name cs (if j < i then j else j + 1)"
  using assms
proof (induction name i cs rule: renumber.induct)
  case (1 name i cs)
  show ?case
  proof (cases "find_pos (same_key name (i + 1)) cs")
    case None
    then have gap: "numbered name cs (i + 1) = None" by (simp add: numbered_def)
    have above: "numbered name cs (i + 1 + int m) = None" for m
    proof (induction m)
      case (Suc m)
      show ?case
      proof (rule ccontr)
        assume "numbered name cs (i + 1 + int (Suc m)) \<noteq> None"
        then have "numbered name cs (i + 1 + int m + 1) \<noteq> None" by (simp add: add.commute add.left_commute)
        from 1(4) [OF _ this] Suc show False by simp
      qed
    qed (simp add: gap)
    have "numbered name cs j = numbered name cs (if j < i then j else j + 1)"
    proof (cases "j < i")
      case False
      then have "numbered name cs (j + 1) = None" using above [of "nat (j - i)"] by (simp add: add.commute)
      moreover have "numbered name cs j = None"
        using False above [of "nat (j - i - 1)"] 1(3) by (cases "j = i") auto
      ultimately show ?thesis using False by simp
    qed simp
    with None show ?thesis by (subst renumber.simps) simp
  next
    case (Some k)
    let ?ds = "cs[k := set_id i (cs ! k)]"
    note st = renumber_step [OF 1(2,3) Some]
    have "numbered name (renumber name (i + 1) ?ds) j = numbered name ?ds (if j < i + 1 then j else j + 1)"
    proof (rule 1(1) [OF Some])
      show "unique_ids name ?ds" by (rule st(1))
      show "numbered name ?ds (i + 1) = None" by (simp add: st(2))
      show "numbered name ?ds m \<noteq> None" if "i + 1 < m" "numbered name ?ds (m + 1) \<noteq> None" for m
        using that 1(4) [of m] by (simp add: st(2) split: if_splits)
    qed
    with Some show ?thesis by (subst renumber.simps) (auto simp: st(2))
  qed
qed

lemma remove_child_numbered:
  assumes "unique_ids name cs" and "remove_child cs name i = (Some d, ds)"
  shows "unique_ids name ds" and "numbered name cs i = Some (set_id 0 d)"
    and "numbered name ds j = (if j = i then None else numbered name cs j)"
proof -
  obtain k where k: "find_pos (\<lambda>n. strcmp (node_name n) name = 0 \<and> node_id n = i) cs = Some k"
    "d = cs ! k" "ds = take k cs @ drop (Suc k) cs"
    using assms(2) by (auto simp: remove_child_def split: option.splits)
  note f = find_pos_Some [OF k(1)]
  have cs: "cs = take k cs @ d # drop (Suc k) cs" using f k(2) by (simp add: id_take_nth_drop)
  have key: "same_key name i d" using f k(2) by (simp add: same_key_def strcasecmp_def strcmp_zero)
  have "unique_ids name (take k cs @ d # drop (Suc k) cs)" using assms(1) cs by simp
  note u = unique_ids_mid [OF this key]
  show "unique_ids name ds" using u k(3) by simp
  show "numbered name cs i = Some (set_id 0 d)" using u key by (subst cs) (simp add: numbered_append)
  show "numbered name ds j = (if j = i then None else numbered name cs j)"
    using u key k(3) by (subst cs) (auto simp: numbered_append same_key_def split: option.splits)
qed

text \<open>C29: Deleting the node \<^verbatim>\<open>name:i\<close> of siblings numbered from 1 to \<open>m\<close> closes the gap: afterwards the siblings
  are numbered from 1 to \<open>m - 1\<close>, those below \<open>i\<close> are the old ones and the one numbered \<open>j\<close> above is the old
  one numbered \<open>j + 1\<close>, with its value, notification and children; the deleted node is freed with all
  its descendants.\<close>

theorem xmldb_del_closes_gap:
  assumes "split_leaf path = (Some ppath, leaf)" and "split_id leaf = (name, i)" and "1 \<le> i" and "\<forall>n. al n"
    and "xmldb_find_node al root ppath False t = Some (Some p, t)" and "node_at t p = Some n"
    and "unique_ids name (node_child n)" and "\<And>j. numbered name (node_child n) j \<noteq> None \<longleftrightarrow> 1 \<le> j \<and> j \<le> m"
    and "d \<in> set (node_child n)" and "node_name d = name" and "node_id d = i"
  shows "\<exists>t' n'. xmldb_del_node al root path t = Some (0, t', del_node d) \<and> node_at t' p = Some n' \<and>
    same_fields n n' \<and>
    (\<forall>j. numbered name (node_child n') j = numbered name (node_child n) (if j < i then j else j + 1))"
proof -
  obtain d' ds where r: "remove_child (node_child n) name i = (Some d', ds)"
    using assms(9-11) find_pos_None [of "\<lambda>n. strcmp (node_name n) name = 0 \<and> node_id n = i" "node_child n"]
    by (auto simp: remove_child_def strcmp_zero split: option.splits)
  note rm = remove_child_numbered [OF assms(7) r]
  have "d' = d"
  proof -
    have d': "d' \<in> set (node_child n)" "node_name d' = name" "node_id d' = i"
      using r find_pos_Some [of "\<lambda>n. strcmp (node_name n) name = 0 \<and> node_id n = i" "node_child n"]
      by (auto simp: remove_child_def strcmp_zero split: option.splits)
    have "inj_on node_id (set (filter (\<lambda>n. strcasecmp (node_name n) name = 0) (node_child n)))"
      using assms(7) by (simp add: unique_ids_def distinct_map)
    then show ?thesis
      using d' assms(9-11) by (auto simp: inj_on_def strcasecmp_def strcmp_zero)
  qed
  let ?n' = "set_child (renumber name i ds) n"
  have "xmldb_del_node al root path t = Some (0, update_at p (set_child (renumber name i ds)) t, del_node d)"
    using assms(1-6) r \<open>d' = d\<close> by (simp add: xmldb_del_node_def strdup_def)
  moreover have "numbered name (renumber name i ds) j = numbered name (node_child n) (if j < i then j else j + 1)" for j
  proof -
    have "numbered name (renumber name i ds) j = numbered name ds (if j < i then j else j + 1)"
      using assms(3,8) by (intro renumber_numbered [OF rm(1)]) (auto simp: rm(3) split: if_splits)
    also have "\<dots> = numbered name (node_child n) (if j < i then j else j + 1)" by (simp add: rm(3))
    finally show ?thesis .
  qed
  ultimately show ?thesis
    using assms(6) by (intro exI [of _ "update_at p (set_child (renumber name i ds)) t"] exI [of _ ?n'])
      (simp add: same_fields_def same_label_def)
qed

theorem xmldb_del_closes_gap_witness:
  "\<exists>t' n'. xmldb_del_node (\<lambda>_. True) None ''/l/e:1''
      (Xml_node 0 [] None None [Xml_node 0 ''l'' None None
        [Xml_node 1 ''e'' (Some ''a'') None [], Xml_node 2 ''e'' (Some ''b'') None []]]) = Some (0, t', [Xml_node 1 ''e'' (Some ''a'') None []]) \<and>
    node_at t' [0] = Some n' \<and> numbered ''e'' (node_child n') 1 = Some (Xml_node 0 ''e'' (Some ''b'') None [])"
proof -
  let ?a = "Xml_node 1 ''e'' (Some ''a'') None []" and ?b = "Xml_node 2 ''e'' (Some ''b'') None []"
  let ?n = "Xml_node 0 ''l'' None None [?a, ?b]" and ?al = "\<lambda>_::nat. True"
  let ?t = "Xml_node 0 [] None None [?n]"
  have 1: "split_leaf ''/l/e:1'' = (Some ''/l'', ''e:1'')" "split_id ''e:1'' = (''e'', 1)" by code_simp+
  have 2: "xmldb_find_node ?al None ''/l'' False ?t = Some (Some [0], ?t)" by code_simp
  have key: "same_key ''e'' j ?a \<longleftrightarrow> j = 1" "same_key ''e'' j ?b \<longleftrightarrow> j = 2" for j
    by (auto simp: same_key_def strcasecmp_def strcmp_zero)
  have "numbered ''e'' (node_child ?n) j \<noteq> None \<longleftrightarrow> 1 \<le> j \<and> j \<le> 2" for j by (auto simp: key)
  moreover have "unique_ids ''e'' (node_child ?n)" by (simp add: unique_ids_def strcasecmp_def strcmp_zero)
  ultimately show ?thesis
    using xmldb_del_closes_gap [OF 1 _ _ 2, of ?n 2 ?a] by (auto simp: key set_id_def)
qed

end
