(* ===== verification/Xmldb_File.thy ===== *)
theory Xmldb_File
  imports Xmldb
begin

text \<open>
  The XML file of the configuration database: reading and writing in \<^verbatim>\<open>tools/alpha/xmldb/xmldb.c\<close>. A file is
  the list of its characters; reading returns the characters left. A write past the end of one of the fixed
  buffers, or a scan past the end of a string, is a fault (\<open>None\<close>). The chain of nodes that
  \<^verbatim>\<open>parse_xmltree\<close> returns through \<^verbatim>\<open>next\<close> is a list.
\<close>

definition MAX_VAL_LEN :: nat where "MAX_VAL_LEN = 256"

definition IS_WHITE :: "char \<Rightarrow> bool" where
  "IS_WHITE c \<longleftrightarrow> c = CHR '' '' \<or> c = CHR 0x09 \<or> c = CHR 0x0D \<or> c = CHR 0x0A"

definition xmldb_eatwhite :: "char list \<Rightarrow> char list" where
  "xmldb_eatwhite s = dropWhile IS_WHITE s"

definition xmldb_reatwhite :: "char list \<Rightarrow> char list" where
  "xmldb_reatwhite s = rev (dropWhile IS_WHITE (rev s))"

text \<open>The C string that a buffer with these characters and a terminating NUL holds.\<close>

definition cut :: "char list \<Rightarrow> char list" where
  "cut s = takeWhile (\<lambda>c. c \<noteq> NUL) s"

subsection \<open>Reading a tag\<close>

text \<open>The loop of \<^verbatim>\<open>read_tag\<close>: \<open>raw\<close> and \<open>tag\<close> are the characters stored so far, \<open>inside\<close> is \<^verbatim>\<open>state\<close>.\<close>

fun tag_loop :: "nat \<Rightarrow> char list \<Rightarrow> char list \<Rightarrow> char list \<Rightarrow> bool \<Rightarrow> int \<times> char list \<times> char list \<times> char list" where
  "tag_loop tsize [] raw tag inside = (EOF, raw, tag, [])"
| "tag_loop tsize (c # fh) raw tag inside =
     (if \<not> inside then
        (if c = CHR ''<'' then tag_loop tsize fh raw (tag @ [c]) True
         else if length raw + 1 \<ge> MAX_VAL_LEN then (uchar c, raw @ [c], tag, fh)
         else tag_loop tsize fh (raw @ [c]) tag False)
      else if length tag \<ge> tsize then (uchar c, raw, tag, fh)
      else if c = CHR ''>'' then
        (if (length (tag @ [c]) > 4 \<and> strncmp (tag @ [c]) ''<!--'' 4 = 0) \<or>
            (length (tag @ [c]) > 5 \<and> strncmp (tag @ [c]) ''<?xml'' 5 = 0)
         then tag_loop tsize fh raw [] False
         else (uchar c, raw, tag @ [c], fh))
      else tag_loop tsize fh raw (tag @ [c]) True)"

text \<open>The special characters: what \<^verbatim>\<open>raw\<close> starts with and how long that is.\<close>

definition entity :: "char list \<Rightarrow> (char \<times> nat) option" where
  "entity raw =
     (if strncmp raw ''&amp;'' 5 = 0 then Some (CHR ''&'', 5)
      else if strncmp raw ''&lt;'' 4 = 0 then Some (CHR ''<'', 4)
      else if strncmp raw ''&gt;'' 4 = 0 then Some (CHR ''>'', 4)
      else if strncmp raw ''&quot;'' 6 = 0 then Some (CHR 0x22, 6)
      else if strncmp raw ''&apos;'' 6 = 0 then Some (CHR 0x27, 6)
      else None)"

lemma entity_pos: "entity raw = Some (c, k) \<Longrightarrow> 0 < k"
  by (auto simp: entity_def split: if_splits)

text \<open>The unescaping loop; \<open>room\<close> is the number of characters \<^verbatim>\<open>value\<close> still takes.\<close>

function unescape :: "nat \<Rightarrow> char list \<Rightarrow> char list" where
  "unescape room [] = []"
| "unescape room (c # raw) =
     (if room = 0 then []
      else case (if c = CHR ''&'' then entity (c # raw) else None) of
        Some (d, k) \<Rightarrow> d # unescape (room - 1) (drop k (c # raw))
      | None \<Rightarrow> c # unescape (room - 1) raw)"
  by pat_completeness auto
termination
  by (relation "measure fst") auto

text \<open>\<open>vsize\<close> is \<open>None\<close> when \<^verbatim>\<open>value\<close> is the null pointer.\<close>

definition read_tag ::
    "char list \<Rightarrow> nat option \<Rightarrow> nat \<Rightarrow> (int \<times> char list \<times> char list \<times> char list) option" where
  "read_tag fh vsize tsize = (case tag_loop tsize fh [] [] False of (c, raw, tag, fh') \<Rightarrow>
     if length tag \<ge> tsize then None
     else (case vsize of
         None \<Rightarrow> Some (c, [], cut tag, fh')
       | Some n \<Rightarrow> (let v = unescape n (cut raw) in
           if length v \<ge> n then None else Some (c, v, cut tag, fh'))))"

text \<open>The name in a tag; the empty list stands for the results that are not positive.\<close>

definition get_name_from_tag :: "char list \<Rightarrow> nat \<Rightarrow> char list" where
  "get_name_from_tag tag bsize = (case tag of
       [] \<Rightarrow> []
     | c # r \<Rightarrow> if c \<noteq> CHR ''<'' then []
                 else take (bsize - 1) (takeWhile (\<lambda>c. \<not> IS_WHITE c \<and> c \<noteq> CHR ''>'') r))"

definition get_id_from_tag :: "char list \<Rightarrow> int option" where
  "get_id_from_tag tag = (case strstr tag ''id='' of
       None \<Rightarrow> Some 0
     | Some k \<Rightarrow> do {
         q1 \<leftarrow> strchr (drop k tag) (CHR 0x22);
         q2 \<leftarrow> strchr (drop (k + q1 + 1) tag) (CHR 0x22);
         if q2 < 32 then Some (atoi (take q2 (drop (k + q1 + 1) tag))) else None })"

subsection \<open>Parsing\<close>

lemma tag_loop_length:
  "tag_loop tsize fh raw tag inside = (c, raw', tag', fh') \<Longrightarrow>
    length fh' \<le> length fh \<and> (inside \<or> tag = [] \<longrightarrow> length tag' \<le> length tag + (length fh - length fh'))"
proof (induction tsize fh raw tag inside rule: tag_loop.induct)
  case (2 tsize c fh raw tag inside)
  show ?case
  proof (cases inside)
    case False
    with 2 show ?thesis by (auto split: if_splits)
  next
    case True
    with 2 show ?thesis by (auto split: if_splits simp: Suc_diff_le)
  qed
qed simp

lemma read_tag_length:
  assumes "read_tag fh vs ts = Some (c, v, tag, fh')"
  shows "length fh' \<le> length fh" and "tag \<noteq> [] \<Longrightarrow> length fh' < length fh"
proof -
  obtain c0 raw t f where t: "tag_loop ts fh [] [] False = (c0, raw, t, f)" by (metis prod_cases4)
  with assms have f: "fh' = f" "tag = cut t"
    by (auto simp: read_tag_def Let_def split: if_splits option.splits)
  note l = tag_loop_length [OF t]
  show "length fh' \<le> length fh" using l f by simp
  show "length fh' < length fh" if "tag \<noteq> []"
  proof -
    have "t \<noteq> []" using that f by (auto simp: cut_def)
    with l f show ?thesis by (cases t) auto
  qed
qed

lemma name_imp_tag: "get_name_from_tag tag n \<noteq> [] \<Longrightarrow> tag \<noteq> []"
  by (auto simp: get_name_from_tag_def)

definition tag_name :: "char list \<Rightarrow> char list" where
  "tag_name tag = get_name_from_tag tag MAX_TAG_LEN"

text \<open>\<^verbatim>\<open>i > 0 && name[0] != '/'\<close>\<close>

definition opens :: "char list \<Rightarrow> bool" where
  "opens tag \<longleftrightarrow> tag_name tag \<noteq> [] \<and> hd (tag_name tag) \<noteq> CHR ''/''"

text \<open>The beginning of \<^verbatim>\<open>parse_xmltree\<close>, up to the question whether there is a child: the new node with its value,
  or \<open>None\<close> where the function returns the null pointer, and the file and the tag after it.\<close>

definition start_node ::
    "alloc \<Rightarrow> char list \<Rightarrow> char list \<Rightarrow> (xml_node option \<times> char list \<times> char list) option" where
  "start_node al fh tag =
     (if tag_name tag = [] then Some (None, fh, tag)
      else do {
        i \<leftarrow> get_id_from_tag tag;
        (case new_node al (tag_name tag) None i of
           None \<Rightarrow> Some (None, fh, tag)
         | Some node \<Rightarrow> do {
             (c, v, tag1, fh1) \<leftarrow> read_tag fh (Some MAX_VAL_LEN) MAX_TAG_LEN;
             let w = xmldb_eatwhite (xmldb_reatwhite v);
             Some (if tag_name tag1 = [] then None else Some (set_val (if w \<noteq> [] then strdup al w else None) node),
               fh1, tag1) }) })"

text \<open>The checks after the children: no end tag, the end tag of another node, or the own one.\<close>

datatype end_tag = No_end | Other_end | Own_end

definition check_end :: "xml_node \<Rightarrow> char list \<Rightarrow> end_tag" where
  "check_end node tag =
     (if tag_name tag = [] \<or> hd (tag_name tag) \<noteq> CHR ''/'' then No_end
      else if strcmp (node_name node) (tl (tag_name tag)) \<noteq> 0 then Other_end else Own_end)"

text \<open>\<^verbatim>\<open>parse_xmltree\<close>: the nodes it returns, the file and the tag it leaves.\<close>

function parse_xmltree ::
    "alloc \<Rightarrow> char list \<Rightarrow> char list \<Rightarrow> (xml_node list \<times> char list \<times> char list) option" where
  "parse_xmltree al fh tag =
     Option.bind (start_node al fh tag) (\<lambda>(res, fh1, tag1). case res of
       None \<Rightarrow> Some ([], fh1, tag1)
     | Some node \<Rightarrow>
         Option.bind (if opens tag1 then parse_xmltree al fh1 tag1 else Some ([], fh1, tag1)) (\<lambda>(kids, fh2, tag2).
           case check_end node tag2 of
             No_end \<Rightarrow> Some ([], fh2, tag2)
           | Other_end \<Rightarrow> Some ([set_child kids node], fh2, tag2)
           | Own_end \<Rightarrow>
               Option.bind (read_tag fh2 None MAX_TAG_LEN) (\<lambda>(c, v, tag3, fh3).
                 Option.bind (if opens tag3 then parse_xmltree al fh3 tag3 else Some ([], fh3, tag3))
                   (\<lambda>(sibs, fh4, tag4). Some (set_child kids node # sibs, fh4, tag4)))))"
  by pat_completeness auto

lemma opens_tag: "opens tag \<Longrightarrow> tag \<noteq> []"
  unfolding opens_def tag_name_def using name_imp_tag by blast

lemma start_node_length:
  assumes "start_node al fh tag = Some (Some node, fh1, tag1)"
  shows "length fh1 \<le> length fh" and "opens tag1 \<Longrightarrow> length fh1 < length fh"
proof -
  obtain c v vs where "read_tag fh vs MAX_TAG_LEN = Some (c, v, tag1, fh1)"
    using assms by (auto simp: start_node_def Let_def bind_Some_iff split: if_splits option.splits)
  note l = read_tag_length [OF this]
  show "length fh1 \<le> length fh" by (rule l(1))
  show "length fh1 < length fh" if "opens tag1"
    by (rule l(2) [OF opens_tag [OF that]])
qed

lemma start_node_length': "start_node al fh tag = Some (res, fh1, tag1) \<Longrightarrow> length fh1 \<le> length fh"
  by (auto simp: start_node_def Let_def bind_Some_iff dest: read_tag_length(1) split: if_splits option.splits)

lemma parse_partial_length:
  assumes "parse_xmltree_dom (al, fh, tag)" and "parse_xmltree al fh tag = Some (ns, fh', tag')"
  shows "length fh' \<le> length fh"
  using assms
proof (induction al fh tag arbitrary: ns fh' tag' rule: parse_xmltree.pinduct)
  case (1 al fh tag)
  note eq = 1(4) [unfolded parse_xmltree.psimps [OF 1(1)]]
  from eq obtain res fh1 tag1 where st: "start_node al fh tag = Some (res, fh1, tag1)" by (auto simp: bind_Some_iff)
  note l1 = start_node_length' [OF st]
  show ?case
  proof (cases res)
    case None
    with eq st l1 show ?thesis by simp
  next
    case node: (Some node)
    with eq st obtain kids fh2 tag2 where
      k: "(if opens tag1 then parse_xmltree al fh1 tag1 else Some ([], fh1, tag1)) = Some (kids, fh2, tag2)"
      by (auto simp: bind_Some_iff)
    have l2: "length fh2 \<le> length fh1"
      using 1(2) [OF st refl refl node] k by (auto split: if_splits)
    show ?thesis
    proof (cases "check_end node tag2 = Own_end")
      case False
      with eq st node k l1 l2 show ?thesis by (auto split: end_tag.splits)
    next
      case own: True
      with eq st node k obtain c v tag3 fh3 where r: "read_tag fh2 None MAX_TAG_LEN = Some (c, v, tag3, fh3)"
        by (auto simp: bind_Some_iff)
      with eq st node k own obtain sibs tag4 where
        s: "(if opens tag3 then parse_xmltree al fh3 tag3 else Some ([], fh3, tag3)) = Some (sibs, fh', tag4)"
        by (auto simp: bind_Some_iff)
      have "length fh' \<le> length fh3"
        using 1(3) [OF st refl refl node k refl refl own r refl refl refl] s by (auto split: if_splits)
      with l1 l2 read_tag_length(1) [OF r] show ?thesis by simp
    qed
  qed
qed

termination parse_xmltree
proof (relation "measure (\<lambda>(al, fh, tag). length fh)", goal_cases)
  case 1
  show ?case by simp
next
  case (2 al fh tag x res y fh1 tag1 node)
  then show ?case using start_node_length(2) by fastforce
next
  case (3 al fh tag x res y fh1 tag1 node z kids w fh2 tag2 u c u1 v u2 tag3 fh3)
  then have st: "start_node al fh tag = Some (Some node, fh1, tag1)"
    and k: "(if opens tag1 then parse_xmltree al fh1 tag1 else Some ([], fh1, tag1)) = Some (kids, fh2, tag2)"
    and r: "read_tag fh2 None MAX_TAG_LEN = Some (c, v, tag3, fh3)" and o: "opens tag3"
    and d: "opens tag1 \<Longrightarrow> parse_xmltree_dom (al, fh1, tag1)" by simp_all
  have "length fh2 \<le> length fh1"
    using k d parse_partial_length by (cases "opens tag1") auto
  with start_node_length(1) [OF st] read_tag_length(2) [OF r opens_tag [OF o]] show ?case by simp
qed

declare parse_xmltree.simps [simp del]

text \<open>\<^verbatim>\<open>xmldb_read_xml\<close>: the result, the tree and the nodes freed. \<open>file\<close> is \<open>None\<close> when \<^verbatim>\<open>fopen\<close> fails.\<close>

definition read_root :: "alloc \<Rightarrow> char list \<Rightarrow> char list \<Rightarrow> xml_node list option" where
  "read_root al rootname fh = do {
     (c, v, tag, fh1) \<leftarrow> read_tag fh None MAX_TAG_LEN;
     if tag_name tag \<noteq> [] \<and> strcmp (tag_name tag) rootname = 0 then do {
       (c2, v2, tag2, fh2) \<leftarrow> read_tag fh1 None MAX_TAG_LEN;
       if tag_name tag2 \<noteq> [] then do { (ns, fh3, tag3) \<leftarrow> parse_xmltree al fh2 tag2; Some ns } else Some [] }
     else Some [] }"

definition xmldb_read_xml ::
    "alloc \<Rightarrow> char list \<Rightarrow> bool \<Rightarrow> char list option \<Rightarrow> xml_node \<Rightarrow> (int \<times> xml_node \<times> xml_node list) option" where
  "xmldb_read_xml al rootname skip_proc file t =
     (let (nptr, old) = (if skip_proc then remove_child (node_child t) ''proc'' 0 else (None, node_child t));
          freed = (case old of [] \<Rightarrow> [] | k # _ \<Rightarrow> del_node k)
      in case file of
           None \<Rightarrow> Some (-1, set_child [] t, freed)
         | Some fh \<Rightarrow> do {
             kids \<leftarrow> read_root al rootname fh;
             let (kids', freed') = (case nptr of
                 None \<Rightarrow> (kids, freed)
               | Some p \<Rightarrow> (case remove_child kids ''proc'' 0 of (tmp, ks) \<Rightarrow>
                   (ks @ [p], freed @ (case tmp of None \<Rightarrow> [] | Some x \<Rightarrow> del_node x))));
             Some (if kids' = [] then -1 else 0, set_child kids' t, freed') })"

subsection \<open>Writing\<close>

abbreviation TAB :: char where "TAB \<equiv> CHR 0x09"
abbreviation NL :: char where "NL \<equiv> CHR 0x0A"
abbreviation QUOT :: char where "QUOT \<equiv> CHR 0x22"

text \<open>\<^verbatim>\<open>%d\<close> of a number that is not negative.\<close>

fun decimal :: "nat \<Rightarrow> char list" where
  "decimal n = (if n < 10 then [to_char (48 + int n)] else decimal (n div 10) @ [to_char (48 + int (n mod 10))])"

declare decimal.simps [simp del]

definition escape_char :: "char \<Rightarrow> char list" where
  "escape_char c =
     (if c = CHR ''&'' then ''&amp;'' else if c = CHR ''<'' then ''&lt;'' else if c = CHR ''>'' then ''&gt;''
      else if c = CHR 0x22 then ''&quot;'' else if c = CHR 0x27 then ''&apos;'' else [c])"

definition dump_node_start :: "xml_node \<Rightarrow> nat \<Rightarrow> char list" where
  "dump_node_start n depth = replicate depth TAB @ ''<'' @ node_name n @
     (if node_id n > 0 then '' id='' @ [QUOT] @ decimal (nat (node_id n)) @ [QUOT] else []) @ ''>'' @
     (case node_value n of None \<Rightarrow> [] | Some v \<Rightarrow> concat (map escape_char v))"

definition dump_node_end :: "xml_node \<Rightarrow> nat \<Rightarrow> char list" where
  "dump_node_end n depth = replicate depth TAB @ ''</'' @ node_name n @ ''>'' @ [NL]"

text \<open>The nodes at the top level that are not written.\<close>

definition skipped :: "bool \<Rightarrow> xml_node \<Rightarrow> bool" where
  "skipped skip_proc n \<longleftrightarrow> node_name n = ''tmp'' \<or> node_name n = ''runtime'' \<or> (skip_proc \<and> node_name n = ''proc'')"

function xmldb_dump_nodes :: "bool \<Rightarrow> xml_node list \<Rightarrow> nat \<Rightarrow> char list" where
  "xmldb_dump_nodes skip_proc [] depth = []"
| "xmldb_dump_nodes skip_proc (n # ns) depth =
     (if depth = 1 \<and> skipped skip_proc n then []
      else dump_node_start n depth @
        (if node_child n \<noteq> []
         then [NL] @ xmldb_dump_nodes skip_proc (node_child n) (depth + 1) @ dump_node_end n depth
         else dump_node_end n 0)) @
     xmldb_dump_nodes skip_proc ns depth"
  by pat_completeness auto
termination
proof (relation "measure (\<lambda>(skip_proc, ns, depth). size_list size ns)", goal_cases)
  case (2 skip_proc n ns depth)
  then show ?case by (cases n) simp
next
  case (3 skip_proc n ns depth)
  then show ?case by (cases n) simp
qed simp

declare xmldb_dump_nodes.simps(2) [simp del]

subsection \<open>Lemmas on the reader\<close>

lemma tag_loop_outside:
  "CHR ''<'' \<notin> set w \<Longrightarrow> length raw + length w < MAX_VAL_LEN \<Longrightarrow>
    tag_loop ts (w @ CHR ''<'' # rest) raw [] False = tag_loop ts rest (raw @ w) ''<'' True"
  by (induction w arbitrary: raw) auto

definition is_comment :: "char list \<Rightarrow> bool" where
  "is_comment tag \<longleftrightarrow> (length tag > 4 \<and> strncmp tag ''<!--'' 4 = 0) \<or> (length tag > 5 \<and> strncmp tag ''<?xml'' 5 = 0)"

lemma tag_loop_inside:
  "CHR ''>'' \<notin> set x \<Longrightarrow> length tag + length x < ts \<Longrightarrow> \<not> is_comment (tag @ x @ ''>'') \<Longrightarrow>
    tag_loop ts (x @ CHR ''>'' # rest) raw tag True = (uchar (CHR ''>''), raw, tag @ x @ ''>'', rest)"
  by (induction x arbitrary: tag) (auto simp: is_comment_def)

lemma unescape_length: "length (unescape m s) \<le> length s"
proof (induction m s rule: unescape.induct)
  case (2 room c raw)
  show ?case
  proof (cases "if c = CHR ''&'' then entity (c # raw) else None")
    case None
    with 2(1) show ?thesis by (cases "room = 0") simp_all
  next
    case (Some dk)
    obtain d k where dk: "dk = (d, k)" by fastforce
    then have "0 < k" using Some entity_pos by (auto split: if_splits)
    with Some dk 2(2) [OF _ Some dk [symmetric]] show ?thesis by (cases "room = 0") simp_all
  qed
qed simp

text \<open>What \<^verbatim>\<open>read_tag\<close> does on text followed by a tag.\<close>

lemma read_tag_text:
  assumes "CHR ''<'' \<notin> set w" and "length w < MAX_VAL_LEN" and "CHR ''>'' \<notin> set x" and "length x + 2 < MAX_TAG_LEN"
    and "NUL \<notin> set x" and "NUL \<notin> set w" and "\<not> is_comment (''<'' @ x @ ''>'')"
  shows "read_tag (w @ ''<'' @ x @ ''>'' @ rest) None MAX_TAG_LEN = Some (uchar (CHR ''>''), [], ''<'' @ x @ ''>'', rest)"
    and "read_tag (w @ ''<'' @ x @ ''>'' @ rest) (Some MAX_VAL_LEN) MAX_TAG_LEN =
      Some (uchar (CHR ''>''), unescape MAX_VAL_LEN w, ''<'' @ x @ ''>'', rest)"
proof -
  have "tag_loop MAX_TAG_LEN (w @ ''<'' @ x @ ''>'' @ rest) [] [] False = (uchar (CHR ''>''), w, ''<'' @ x @ ''>'', rest)"
    using tag_loop_outside [of w "[]" MAX_TAG_LEN "x @ ''>'' @ rest"] assms
      tag_loop_inside [of x "''<''" MAX_TAG_LEN rest w] by simp
  moreover have "cut w = w" "cut (''<'' @ x @ ''>'') = ''<'' @ x @ ''>''"
    using assms(5,6) by (auto simp: cut_def takeWhile_eq_all_conv)
  moreover have "length (unescape MAX_VAL_LEN w) < MAX_VAL_LEN" using unescape_length [of MAX_VAL_LEN w] assms(2) by simp
  ultimately show "read_tag (w @ ''<'' @ x @ ''>'' @ rest) None MAX_TAG_LEN = Some (uchar (CHR ''>''), [], ''<'' @ x @ ''>'', rest)"
    and "read_tag (w @ ''<'' @ x @ ''>'' @ rest) (Some MAX_VAL_LEN) MAX_TAG_LEN =
      Some (uchar (CHR ''>''), unescape MAX_VAL_LEN w, ''<'' @ x @ ''>'', rest)"
    using assms(4) by (simp_all add: read_tag_def Let_def)
qed

subsection \<open>Names and numbers in a tag\<close>

definition name_ok :: "char list \<Rightarrow> bool" where
  "name_ok name \<longleftrightarrow> name \<noteq> [] \<and> length name + 3 < MAX_TAG_LEN \<and> hd name \<notin> {CHR ''!'', CHR ''?'', CHR ''/''} \<and>
     (\<forall>c\<in>set name. \<not> IS_WHITE c \<and> c \<notin> {NUL, CHR ''>'', CHR ''<'', CHR ''=''})"

definition tag_inner :: "xml_node \<Rightarrow> char list" where
  "tag_inner n = node_name n @
     (if node_id n > 0 then '' id='' @ [QUOT] @ decimal (nat (node_id n)) @ [QUOT] else [])"

lemma not_comment: "x \<noteq> [] \<Longrightarrow> hd x \<notin> {CHR ''!'', CHR ''?''} \<Longrightarrow> \<not> is_comment (''<'' @ x @ ''>'')"
  by (cases x) (auto simp: is_comment_def strncmp_def strcmp_zero)

lemma tag_name_tag:
  assumes "\<forall>c\<in>set name. \<not> IS_WHITE c \<and> c \<noteq> CHR ''>''" and "length name < MAX_TAG_LEN"
    and "r = [] \<or> hd r = CHR '' ''"
  shows "tag_name (''<'' @ name @ r @ ''>'') = name"
proof -
  have "takeWhile (\<lambda>c. \<not> IS_WHITE c \<and> c \<noteq> CHR ''>'') (name @ r @ ''>'') = name"
    using assms(1,3) by (cases r) (auto simp: takeWhile_append2 IS_WHITE_def)
  with assms(2) show ?thesis by (simp add: tag_name_def get_name_from_tag_def)
qed

lemma strstr_id_None: "CHR ''='' \<notin> set s \<Longrightarrow> strstr s ''id='' = None"
proof (induction s)
  case (Cons c s)
  have "take (length ''id='') (c # s) \<noteq> ''id=''" using Cons.prems by (cases s; cases "tl s") auto
  with Cons show ?case by simp
qed simp

lemma strstr_id: "CHR ''='' \<notin> set p \<Longrightarrow> strstr (p @ ''id='' @ r) ''id='' = Some (length p)"
proof (induction p)
  case (Cons c p)
  have "take (length ''id='') (c # p @ ''id='' @ r) \<noteq> ''id=''"
    using Cons.prems by (cases p; cases "tl p") auto
  with Cons show ?case by simp
qed simp

lemma strchr_append: "c \<notin> set s \<Longrightarrow> c \<noteq> NUL \<Longrightarrow> strchr (s @ c # r) c = Some (length s)"
  by (induction s) auto

lemma digit_char: "n < 10 \<Longrightarrow> isdigit (to_char (48 + int n)) \<and> uchar (to_char (48 + int n)) = 48 + int n"
  by (simp add: to_char_def isdigit_def uchar_def of_char_of)

lemma decimal_digits: "(\<forall>d\<in>set (decimal n). isdigit d) \<and> decimal n \<noteq> [] \<and> digits_value (decimal n) = int n"
proof (induction n rule: decimal.induct)
  case (1 n)
  show ?case
  proof (cases "n < 10")
    case True
    with digit_char [of n] show ?thesis by (subst (1 2 3) decimal.simps) (simp add: digits_value_def)
  next
    case False
    have "10 * int (n div 10) + int (n mod 10) = int n"
      by (metis mult_div_mod_eq of_nat_add of_nat_mult of_nat_numeral)
    with False 1 digit_char [of "n mod 10"] show ?thesis
      by (subst (1 2 3) decimal.simps) (auto simp: digits_value_def)
  qed
qed

lemma decimal_length: "n < 10 ^ k \<Longrightarrow> 0 < k \<Longrightarrow> length (decimal n) \<le> k"
proof (induction n arbitrary: k rule: decimal.induct)
  case (1 n)
  show ?case
  proof (cases "n < 10")
    case True
    with 1(3) show ?thesis by (subst decimal.simps) simp
  next
    case False
    then obtain k' where k: "k = Suc k'" "0 < k'" using 1(2,3) by (cases k; cases "k - 1") auto
    have "n div 10 < 10 ^ k'" using 1(2) k(1) by (simp add: less_mult_imp_div_less mult.commute)
    with 1(1) [OF False _ k(2)] k(1) False show ?thesis by (subst decimal.simps) simp
  qed
qed

lemma atoi_decimal: "n < 2 ^ 31 \<Longrightarrow> atoi (decimal n) = int n"
proof -
  assume n: "n < 2 ^ 31"
  obtain c r where cr: "decimal n = c # r" using decimal_digits [of n] by (cases "decimal n") auto
  then have d: "\<forall>d\<in>set (c # r). isdigit d" "digits_value (c # r) = int n" using decimal_digits [of n] by auto
  then have "isdigit c" by simp
  then have "\<not> isspace c" "c \<noteq> CHR ''-''" "c \<noteq> CHR ''+''"
    by (auto simp: isdigit_def isspace_def uchar_def)
  moreover have "takeWhile isdigit (c # r) = c # r" using d(1) by (simp add: takeWhile_eq_all_conv)
  moreover have "clamp_int (int n) = int n" using n by (simp add: clamp_int_def)
  ultimately show ?thesis using d(2) by (simp add: atoi_def cr)
qed

lemma not_digit: "isdigit c \<Longrightarrow> c \<noteq> QUOT \<and> c \<noteq> NUL \<and> c \<noteq> CHR ''>'' \<and> c \<noteq> CHR ''<''"
  by (auto simp: isdigit_def uchar_def)

lemma get_id_tag:
  assumes "name_ok (node_name n)" and "0 \<le> node_id n" and "node_id n < 2 ^ 31"
  shows "get_id_from_tag (''<'' @ tag_inner n @ ''>'') = Some (node_id n)"
proof (cases "node_id n > 0")
  case False
  then have "strstr (''<'' @ tag_inner n @ ''>'') ''id='' = None"
    using assms(1) by (intro strstr_id_None) (auto simp: tag_inner_def name_ok_def)
  with False assms(2) show ?thesis by (simp add: get_id_from_tag_def)
next
  case True
  let ?p = "''<'' @ node_name n @ '' ''" and ?d = "decimal (nat (node_id n))"
  have tag: "''<'' @ tag_inner n @ ''>'' = ?p @ ''id='' @ [QUOT] @ ?d @ [QUOT] @ ''>''"
    using True by (simp add: tag_inner_def)
  have 1: "strstr (''<'' @ tag_inner n @ ''>'') ''id='' = Some (length ?p)"
    unfolding tag using assms(1) by (intro strstr_id) (auto simp: name_ok_def)
  have 2: "strchr (drop (length ?p) (''<'' @ tag_inner n @ ''>'')) QUOT = Some 3"
    unfolding tag by (simp add: numeral_eq_Suc)
  have dr: "drop (length ?p + 3 + 1) (''<'' @ tag_inner n @ ''>'') = ?d @ QUOT # ''>''"
    unfolding tag by (simp add: numeral_eq_Suc)
  have 3: "strchr (?d @ QUOT # ''>'') QUOT = Some (length ?d)"
    using decimal_digits [of "nat (node_id n)"] not_digit by (intro strchr_append) auto
  have "nat (node_id n) < 2 ^ 31" using assms(2,3) by (simp add: nat_less_iff)
  moreover from this have "length ?d \<le> 10" by (intro decimal_length) simp_all
  ultimately show ?thesis
    using assms(2) atoi_decimal by (simp only: get_id_from_tag_def 1 2 3 dr option.case bind.bind_lunit) simp
qed

subsection \<open>Values\<close>

lemma entity_escape:
  "c \<in> {CHR ''&'', CHR ''<'', CHR ''>'', CHR 0x22, CHR 0x27} \<Longrightarrow>
    entity (escape_char c @ r) = Some (c, length (escape_char c)) \<and> hd (escape_char c) = CHR ''&''"
  by (auto simp: entity_def escape_char_def strncmp_def strcmp_zero numeral_eq_Suc)

lemma unescape_escape:
  "length v + length w \<le> room \<Longrightarrow> CHR ''&'' \<notin> set w \<Longrightarrow>
    unescape room (concat (map escape_char v) @ w) = v @ w"
proof (induction v arbitrary: room)
  case Nil
  then show ?case
  proof (induction w arbitrary: room)
    case (Cons c w)
    then show ?case by (cases room) auto
  qed simp
next
  case (Cons c v)
  then have room: "0 < room" and IH: "unescape (room - 1) (concat (map escape_char v) @ w) = v @ w" by auto
  let ?r = "concat (map escape_char v) @ w"
  show ?case
  proof (cases "c \<in> {CHR ''&'', CHR ''<'', CHR ''>'', CHR 0x22, CHR 0x27}")
    case True
    obtain e where e: "escape_char c = CHR ''&'' # e"
      using entity_escape [OF True, of "[]"] by (cases "escape_char c") (auto simp: escape_char_def split: if_splits)
    have "unescape room (CHR ''&'' # e @ ?r) = c # unescape (room - 1) (drop (length (CHR ''&'' # e)) ((CHR ''&'' # e) @ ?r))"
      using room entity_escape [OF True, of ?r] e by simp
    with IH e show ?thesis by simp
  next
    case False
    then have "escape_char c = [c]" by (simp add: escape_char_def)
    with False room IH show ?thesis by simp
  qed
qed

text \<open>The white space that surrounds a value in the file is taken off again.\<close>

lemma trim_value:
  assumes "v \<noteq> []" and "\<not> IS_WHITE (hd v)" and "\<not> IS_WHITE (last v)" and "\<forall>c\<in>set w. IS_WHITE c"
  shows "xmldb_eatwhite (xmldb_reatwhite (v @ w)) = v"
proof -
  have "dropWhile IS_WHITE (rev (v @ w)) = rev v"
    using assms(1,3,4) dropWhile_append2 [of "rev w" IS_WHITE "rev v"] by (cases v rule: rev_cases) auto
  moreover have "dropWhile IS_WHITE v = v" using assms(1,2) by (cases v) auto
  ultimately show ?thesis by (simp add: xmldb_eatwhite_def xmldb_reatwhite_def)
qed

lemma trim_white: "\<forall>c\<in>set w. IS_WHITE c \<Longrightarrow> xmldb_eatwhite (xmldb_reatwhite w) = []"
  by (simp add: xmldb_eatwhite_def xmldb_reatwhite_def dropWhile_eq_Nil_conv [THEN iffD2])

subsection \<open>The file gives the tree back\<close>

text \<open>What the file can represent at depth \<open>d\<close>: names, numbers and lengths the reader's buffers hold, values
  that are not empty and have no white space at their ends.\<close>

definition value_ok :: "nat \<Rightarrow> char list option \<Rightarrow> bool" where
  "value_ok d v \<longleftrightarrow> (case v of None \<Rightarrow> True | Some v \<Rightarrow>
     v \<noteq> [] \<and> NUL \<notin> set v \<and> \<not> IS_WHITE (hd v) \<and> \<not> IS_WHITE (last v) \<and>
     length (concat (map escape_char v)) + d + 2 < MAX_VAL_LEN)"

fun node_ok :: "nat \<Rightarrow> xml_node \<Rightarrow> bool" where
  "node_ok d (Xml_node i nm v nt cs) \<longleftrightarrow>
     name_ok nm \<and> 0 \<le> i \<and> i < 2 ^ 31 \<and> length (tag_inner (Xml_node i nm v nt cs)) + 2 < MAX_TAG_LEN \<and>
     value_ok d v \<and> d + 2 < MAX_VAL_LEN \<and> (\<forall>c\<in>set cs. node_ok (d + 1) c)"

text \<open>What is kept: everything but the notifications.\<close>

fun persist :: "xml_node \<Rightarrow> xml_node" where
  "persist (Xml_node i nm v nt cs) = Xml_node i nm v None (map persist cs)"

lemma node_ok_child: "node_ok d n \<Longrightarrow> c \<in> set (node_child n) \<Longrightarrow> node_ok (d + 1) c"
  by (cases n) auto

lemma node_okD:
  assumes "node_ok d n"
  shows "name_ok (node_name n)" "0 \<le> node_id n" "node_id n < 2 ^ 31" "length (tag_inner n) + 2 < MAX_TAG_LEN"
    "value_ok d (node_value n)" "d + 2 < MAX_VAL_LEN"
  using assms by (cases n; simp)+

definition value_text :: "xml_node \<Rightarrow> char list" where
  "value_text n = (case node_value n of None \<Rightarrow> [] | Some v \<Rightarrow> concat (map escape_char v))"

text \<open>What is written after the start tag of a node.\<close>

definition body :: "bool \<Rightarrow> xml_node \<Rightarrow> nat \<Rightarrow> char list" where
  "body sp n d = value_text n @ (if node_child n \<noteq> []
     then [NL] @ xmldb_dump_nodes sp (node_child n) (d + 1) @ dump_node_end n d else dump_node_end n 0)"

lemma dump_Cons:
  "\<not> (d = 1 \<and> skipped sp n) \<Longrightarrow>
    xmldb_dump_nodes sp (n # ns) d = replicate d TAB @ ''<'' @ tag_inner n @ ''>'' @ body sp n d @ xmldb_dump_nodes sp ns d"
  by (auto simp: xmldb_dump_nodes.simps(2) dump_node_start_def body_def value_text_def tag_inner_def)

lemma dump_filter: "xmldb_dump_nodes sp ns 1 = xmldb_dump_nodes sp (filter (\<lambda>n. \<not> skipped sp n) ns) 1"
  by (induction ns) (auto simp: xmldb_dump_nodes.simps(2))

lemma escape_no_lt: "CHR ''<'' \<notin> set (escape_char c)"
  by (simp add: escape_char_def)

lemma value_text_chars:
  assumes "value_ok d (node_value n)" and "d + 2 < MAX_VAL_LEN"
  shows "CHR ''<'' \<notin> set (value_text n)" "NUL \<notin> set (value_text n)" "length (value_text n) + d + 2 < MAX_VAL_LEN"
proof -
  have e: "NUL \<notin> set (escape_char c)" if "c \<noteq> NUL" for c using that by (simp add: escape_char_def)
  show "NUL \<notin> set (value_text n)"
  proof (cases "node_value n")
    case (Some v)
    with assms(1) have "NUL \<notin> set v" by (simp add: value_ok_def)
    have "\<forall>c\<in>set v. NUL \<notin> set (escape_char c)" using \<open>NUL \<notin> set v\<close> e by metis
    then have "NUL \<notin> set (concat (map escape_char v))" by simp
    with Some show ?thesis by (simp add: value_text_def)
  qed (simp add: value_text_def)
  show "CHR ''<'' \<notin> set (value_text n)" using escape_no_lt by (auto simp: value_text_def split: option.splits)
  show "length (value_text n) + d + 2 < MAX_VAL_LEN"
    using assms by (auto simp: value_text_def value_ok_def split: option.splits)
qed

lemma escape_length: "length v \<le> length (concat (map escape_char v))"
proof (induction v)
  case (Cons c v)
  have "1 \<le> length (escape_char c)" by (simp add: escape_char_def)
  from add_mono [OF this Cons] have "1 + length v \<le> length (escape_char c) + length (concat (map escape_char v))" .
  then show ?case by simp
qed simp

lemma value_back:
  assumes "value_ok d (node_value n)" and "\<forall>c\<in>set w. IS_WHITE c" and "length w \<le> d + 2" and "d + 2 < MAX_VAL_LEN"
  shows "(let x = xmldb_eatwhite (xmldb_reatwhite (unescape MAX_VAL_LEN (value_text n @ w)))
    in if x \<noteq> [] then Some x else None) = node_value n"
proof -
  have "\<not> IS_WHITE (CHR ''&'')" by (simp add: IS_WHITE_def)
  then have amp: "CHR ''&'' \<notin> set w" using assms(2) by blast
  show ?thesis
  proof (cases "node_value n")
    case None
    then have "unescape MAX_VAL_LEN (value_text n @ w) = w"
      using unescape_escape [of "[]" w MAX_VAL_LEN] amp assms(3,4) by (simp add: value_text_def)
    with None assms(2) trim_white show ?thesis by simp
  next
    case (Some v)
    have "unescape MAX_VAL_LEN (value_text n @ w) = v @ w"
      using unescape_escape [of v w MAX_VAL_LEN] amp assms Some escape_length [of v]
      by (simp add: value_text_def value_ok_def)
    with Some assms(1,2) trim_value [of v w] show ?thesis by (simp add: value_ok_def)
  qed
qed

text \<open>What stands between the angle brackets in a written file.\<close>

definition inner_ok :: "char list \<Rightarrow> bool" where
  "inner_ok x \<longleftrightarrow> x \<noteq> [] \<and> hd x \<notin> {CHR ''!'', CHR ''?''} \<and> CHR ''>'' \<notin> set x \<and> NUL \<notin> set x \<and> length x + 2 < MAX_TAG_LEN"

lemma name_okD:
  assumes "name_ok name"
  shows "name \<noteq> []" "length name + 3 < MAX_TAG_LEN" "hd name \<noteq> CHR ''/''" "hd name \<notin> {CHR ''!'', CHR ''?''}"
    "\<forall>c\<in>set name. \<not> IS_WHITE c \<and> c \<noteq> CHR ''>''" "NUL \<notin> set name" "CHR ''>'' \<notin> set name"
  using assms unfolding name_ok_def by auto

lemma start_tag:
  assumes "node_ok d n"
  shows "inner_ok (tag_inner n)" "tag_name (''<'' @ tag_inner n @ ''>'') = node_name n" "opens (''<'' @ tag_inner n @ ''>'')"
proof -
  note ok = node_okD [OF assms] and nm = name_okD [OF node_okD(1) [OF assms]]
  have dg: "CHR ''>'' \<notin> set (decimal k)" "NUL \<notin> set (decimal k)" for k
    using decimal_digits [of k] not_digit by blast+
  show "inner_ok (tag_inner n)"
    using ok(4) nm dg by (auto simp: inner_ok_def tag_inner_def)
  show t: "tag_name (''<'' @ tag_inner n @ ''>'') = node_name n"
    using tag_name_tag [OF nm(5), of "drop (length (node_name n)) (tag_inner n)"] nm(2) by (simp add: tag_inner_def)
  show "opens (''<'' @ tag_inner n @ ''>'')" using nm(1,3) t by (simp add: opens_def)
qed

lemma end_tag:
  assumes "name_ok name"
  shows "inner_ok (''/'' @ name)" "tag_name (''<'' @ (''/'' @ name) @ ''>'') = ''/'' @ name"
    "\<not> opens (''<'' @ (''/'' @ name) @ ''>'')"
proof -
  note nm = name_okD [OF assms]
  show "inner_ok (''/'' @ name)" using nm by (simp add: inner_ok_def)
  show t: "tag_name (''<'' @ (''/'' @ name) @ ''>'') = ''/'' @ name"
    using tag_name_tag [of "''/'' @ name" "[]"] nm(2,5) by (simp add: IS_WHITE_def)
  show "\<not> opens (''<'' @ (''/'' @ name) @ ''>'')" using t by (simp add: opens_def)
qed

lemma read_inner:
  assumes "inner_ok x" and "CHR ''<'' \<notin> set w" and "NUL \<notin> set w" and "length w < MAX_VAL_LEN"
  shows "read_tag (w @ ''<'' @ x @ ''>'' @ rest) None MAX_TAG_LEN = Some (uchar (CHR ''>''), [], ''<'' @ x @ ''>'', rest)"
    and "read_tag (w @ ''<'' @ x @ ''>'' @ rest) (Some MAX_VAL_LEN) MAX_TAG_LEN =
      Some (uchar (CHR ''>''), unescape MAX_VAL_LEN w, ''<'' @ x @ ''>'', rest)"
  using assms read_tag_text [of w x rest] not_comment [of x] unfolding inner_ok_def by blast+

lemma indent_white: "\<forall>c\<in>set (replicate k TAB). IS_WHITE c" "\<forall>c\<in>set (NL # replicate k TAB). IS_WHITE c"
  by (simp_all add: IS_WHITE_def)

lemma white_chars: "\<forall>c\<in>set w. IS_WHITE c \<Longrightarrow> CHR ''<'' \<notin> set w \<and> NUL \<notin> set w"
proof -
  have "\<not> IS_WHITE (CHR ''<'')" "\<not> IS_WHITE NUL" by (simp_all add: IS_WHITE_def)
  then show "\<forall>c\<in>set w. IS_WHITE c \<Longrightarrow> ?thesis" by blast
qed

lemma start_node_text:
  assumes "node_ok d n" and "\<forall>m. al m" and "inner_ok x" and "tag_name (''<'' @ x @ ''>'') \<noteq> []"
    and "\<forall>c\<in>set w. IS_WHITE c" and "length w \<le> d + 2"
  shows "start_node al (value_text n @ w @ ''<'' @ x @ ''>'' @ rest) (''<'' @ tag_inner n @ ''>'') =
    Some (Some (Xml_node (node_id n) (node_name n) (node_value n) None []), rest, ''<'' @ x @ ''>'')"
proof -
  note ok = node_okD [OF assms(1)] and t = start_tag [OF assms(1)]
  note vt = value_text_chars [OF ok(5,6)]
  have r: "read_tag ((value_text n @ w) @ ''<'' @ x @ ''>'' @ rest) (Some MAX_VAL_LEN) MAX_TAG_LEN =
      Some (uchar (CHR ''>''), unescape MAX_VAL_LEN (value_text n @ w), ''<'' @ x @ ''>'', rest)"
    using vt white_chars [OF assms(5)] assms(6) by (intro read_inner(2) [OF assms(3)]) auto
  have "node_name n \<noteq> []" using ok(1) by (simp add: name_ok_def)
  moreover have "new_node al (node_name n) None (node_id n) = Some (Xml_node (node_id n) (node_name n) None None [])"
    using assms(2) \<open>node_name n \<noteq> []\<close> by (simp add: new_node_def)
  ultimately show ?thesis
    using r value_back [OF ok(5) assms(5,6) ok(6)] assms(2,4) get_id_tag [OF ok(1-3)] t(2)
    by (simp add: start_node_def Let_def strdup_def set_val_def split: if_splits)
qed

text \<open>The end tag of the parent that follows a written forest.\<close>

abbreviation closing :: "nat \<Rightarrow> char list \<Rightarrow> char list \<Rightarrow> char list" where
  "closing e pname rest \<equiv> replicate e TAB @ ''<'' @ (''/'' @ pname) @ ''>'' @ rest"

lemma read_sibling:
  assumes "\<forall>n\<in>set ns. node_ok d n" and "\<not> (d = 1 \<and> (\<exists>n\<in>set ns. skipped sp n))" and "name_ok pname"
    and "e + 2 < MAX_VAL_LEN"
  shows "read_tag ([NL] @ xmldb_dump_nodes sp ns d @ closing e pname rest) None MAX_TAG_LEN = Some (uchar (CHR ''>''), [],
    (case ns of [] \<Rightarrow> (''<'' @ (''/'' @ pname) @ ''>'', rest)
     | m # ms \<Rightarrow> (''<'' @ tag_inner m @ ''>'', body sp m d @ xmldb_dump_nodes sp ms d @ closing e pname rest)))"
proof (cases ns)
  case Nil
  with read_inner(1) [OF end_tag(1) [OF assms(3)], of "NL # replicate e TAB" rest] assms(4) show ?thesis by simp
next
  case (Cons m ms)
  then have ok: "node_ok d m" "\<not> (d = 1 \<and> skipped sp m)" using assms(1,2) by auto
  from read_inner(1) [OF start_tag(1) [OF ok(1)], of "NL # replicate d TAB"
      "body sp m d @ xmldb_dump_nodes sp ms d @ closing e pname rest"] node_okD(6) [OF ok(1)]
  show ?thesis using Cons dump_Cons [OF ok(2)] by simp
qed

lemma persist_node: "persist n = set_child (map persist (node_child n)) (Xml_node (node_id n) (node_name n) (node_value n) None [])"
  by (cases n) (simp add: set_child_def)

lemma parse_forest:
  assumes "\<forall>n\<in>set ns. node_ok d n" and "\<not> (d = 1 \<and> (\<exists>n\<in>set ns. skipped sp n))" and "name_ok pname"
    and "e + 2 < MAX_VAL_LEN" and "\<forall>m. al m" and "0 < d" and "ns = n # ms"
  shows "parse_xmltree al (body sp n d @ xmldb_dump_nodes sp ms d @ closing e pname rest) (''<'' @ tag_inner n @ ''>'') =
    Some (map persist ns, rest, ''<'' @ (''/'' @ pname) @ ''>'')"
  using assms
proof (induction sp ns d arbitrary: n ms e pname rest rule: xmldb_dump_nodes.induct)
  case (1 sp d)
  then show ?case by simp
next
  case (2 sp n0 ms0 d)
  then have eqs: "n0 = n" "ms0 = ms" by simp_all
  note IH = "2.IH" [unfolded eqs]
  have ok: "node_ok d n" "\<forall>m\<in>set ms. node_ok d m" "\<not> (d = 1 \<and> skipped sp n)"
    and sk: "\<not> (d = 1 \<and> (\<exists>n\<in>set ms. skipped sp n))" using "2.prems"(1,2) unfolding eqs by auto
  note nd = node_okD [OF ok(1)]
  let ?node = "Xml_node (node_id n) (node_name n) (node_value n) None []"
  let ?after = "[NL] @ xmldb_dump_nodes sp ms d @ closing e pname rest"
  let ?fh = "body sp n d @ xmldb_dump_nodes sp ms d @ closing e pname rest"
  text \<open>the beginning of the node and its children\<close>
  have "\<exists>fh1 tag1. start_node al ?fh (''<'' @ tag_inner n @ ''>'') = Some (Some ?node, fh1, tag1) \<and>
    (if opens tag1 then parse_xmltree al fh1 tag1 else Some ([], fh1, tag1)) =
      Some (map persist (node_child n), ?after, ''<'' @ (''/'' @ node_name n) @ ''>'')"
  proof (cases "node_child n")
    case Nil
    have "?fh = value_text n @ [] @ ''<'' @ (''/'' @ node_name n) @ ''>'' @ ?after"
      using Nil by (simp add: body_def dump_node_end_def)
    then show ?thesis
      using start_node_text [OF ok(1) "2.prems"(5) end_tag(1) [OF nd(1)], of "[]" ?after] end_tag(2,3) [OF nd(1)] Nil
      by simp
  next
    case (Cons k ks)
    have kok: "\<forall>c\<in>set (node_child n). node_ok (d + 1) c" using ok(1) node_ok_child by blast
    then have k: "node_ok (d + 1) k" using Cons by simp
    let ?rest = "body sp k (d + 1) @ xmldb_dump_nodes sp ks (d + 1) @ closing d (node_name n) ?after"
    have fh: "?fh = value_text n @ (NL # replicate (d + 1) TAB) @ ''<'' @ tag_inner k @ ''>'' @ ?rest"
      using Cons dump_Cons [of "d + 1" sp k ks] "2.prems"(6) by (simp add: body_def [of sp n] dump_node_end_def [of n])
    have "parse_xmltree al ?rest (''<'' @ tag_inner k @ ''>'') =
        Some (map persist (node_child n), ?after, ''<'' @ (''/'' @ node_name n) @ ''>'')"
      by (rule IH(1)) (use ok(3) Cons kok nd(1,6) "2.prems"(5,6) in auto)
    moreover have "tag_name (''<'' @ tag_inner k @ ''>'') \<noteq> []"
      using start_tag(3) [OF k] by (simp add: opens_def)
    ultimately show ?thesis
      using start_node_text [OF ok(1) "2.prems"(5) start_tag(1) [OF k] _ indent_white(2) [of "d + 1"], of ?rest]
        start_tag(3) [OF k] unfolding fh by simp
  qed
  then obtain fh1 tag1 where 1: "start_node al ?fh (''<'' @ tag_inner n @ ''>'') = Some (Some ?node, fh1, tag1)"
    "(if opens tag1 then parse_xmltree al fh1 tag1 else Some ([], fh1, tag1)) =
      Some (map persist (node_child n), ?after, ''<'' @ (''/'' @ node_name n) @ ''>'')" by blast
  have 2: "check_end ?node (''<'' @ (''/'' @ node_name n) @ ''>'') = Own_end"
    using end_tag(2) [OF nd(1)] by (simp add: check_end_def strcmp_zero)
  note r = read_sibling [OF ok(2) sk "2.prems"(3,4), of rest]
  show ?case
  proof (cases ms)
    case Nil
    with 1 2 r end_tag(3) [OF "2.prems"(3)] show ?thesis
      by (subst parse_xmltree.simps) (simp add: persist_node [of n] eqs)
  next
    case (Cons m ms')
    have "parse_xmltree al (body sp m d @ xmldb_dump_nodes sp ms' d @ closing e pname rest) (''<'' @ tag_inner m @ ''>'') =
        Some (map persist ms, rest, ''<'' @ (''/'' @ pname) @ ''>'')"
      by (rule IH(2)) (use ok(2) sk "2.prems"(3-6) Cons in auto)
    with 1 2 r Cons start_tag(3) [of d m] ok(2) show ?thesis
      by (subst parse_xmltree.simps) (simp add: persist_node [of n] eqs)
  qed
qed

lemma read_root_dump:
  assumes "\<forall>m. al m" and "node_ok 0 (set_child [] root)" and "node_name root = rootname"
    and "kids = filter (\<lambda>n. \<not> skipped sp n) (node_child root)" and "kids \<noteq> []" and "\<forall>n\<in>set kids. node_ok 1 n"
  shows "read_root al rootname (xmldb_dump_nodes sp [root] 0) = Some (map persist kids)"
proof -
  obtain k ks where ks: "kids = k # ks" using assms(5) by (cases kids) auto
  have inner: "tag_inner root = tag_inner (set_child [] root)" "value_text root = value_text (set_child [] root)"
    by (simp_all add: tag_inner_def value_text_def)
  note rt = start_tag [OF assms(2), folded inner(1)] and ok = node_okD [OF assms(2)]
  note vt = value_text_chars [OF ok(5,6), folded inner(2)]
  have "k \<in> set kids" using ks by simp
  then have kok: "node_ok 1 k" and kskip: "\<not> skipped sp k" using assms(6) unfolding assms(4) by auto
  let ?tail = "body sp k 1 @ xmldb_dump_nodes sp ks 1 @ closing 0 rootname [NL]"
  have "node_child root \<noteq> []" using assms(4,5) by auto
  then have dump: "xmldb_dump_nodes sp [root] 0 =
      [] @ ''<'' @ tag_inner root @ ''>'' @ (value_text root @ [NL, TAB]) @ ''<'' @ tag_inner k @ ''>'' @ ?tail"
    using dump_Cons [of 0 sp root "[]"] dump_filter [of sp "node_child root"] dump_Cons [of 1 sp k ks] kskip assms(3,4) ks
    by (simp add: body_def [of sp root] dump_node_end_def [of root])
  have r1: "read_tag (xmldb_dump_nodes sp [root] 0) None MAX_TAG_LEN = Some (uchar (CHR ''>''), [], ''<'' @ tag_inner root @ ''>'',
      (value_text root @ [NL, TAB]) @ ''<'' @ tag_inner k @ ''>'' @ ?tail)"
    unfolding dump by (rule read_inner(1) [OF rt(1)]) (simp_all add: MAX_VAL_LEN_def)
  have r2: "read_tag ((value_text root @ [NL, TAB]) @ ''<'' @ tag_inner k @ ''>'' @ ?tail) None MAX_TAG_LEN =
      Some (uchar (CHR ''>''), [], ''<'' @ tag_inner k @ ''>'', ?tail)"
    using vt by (intro read_inner(1) [OF start_tag(1) [OF kok]]) auto
  have "parse_xmltree al ?tail (''<'' @ tag_inner k @ ''>'') = Some (map persist kids, [NL], ''<'' @ (''/'' @ rootname) @ ''>'')"
    using assms(1,3,4,6) ok(1) ks by (intro parse_forest [where ns = kids]) (auto simp: MAX_VAL_LEN_def)
  moreover have "rootname \<noteq> []" using ok(1) assms(3) by (simp add: name_ok_def)
  moreover have "tag_name (''<'' @ tag_inner k @ ''>'') \<noteq> []" using start_tag(3) [OF kok] by (simp add: opens_def)
  ultimately show ?thesis
    using r1 r2 rt(2) assms(3) by (simp add: read_root_def strcmp_zero)
qed

lemma remove_child_None: "\<forall>n\<in>set cs. node_name n \<noteq> name \<Longrightarrow> remove_child cs name i = (None, cs)"
  by (simp add: remove_child_def strcmp_zero find_pos_None [THEN iffD2])



text \<open>A tag of 256 characters or more makes the reader write past the end of its tag buffer: the check
  lets the length reach the size of the buffer, and the terminating NUL is stored behind it.\<close>

theorem read_tag_overflow:
  assumes "CHR ''>'' \<notin> set x" and "MAX_TAG_LEN \<le> length x"
  shows "read_tag (''<'' @ x) vsize MAX_TAG_LEN = None"
proof -
  have in_loop: "\<exists>c raw' tag' fh'. tag_loop ts x raw tag True = (c, raw', tag', fh') \<and> ts \<le> length tag'"
    if "CHR ''>'' \<notin> set x" "ts \<le> length tag + length x" for ts tag raw x
    using that
  proof (induction x arbitrary: tag)
    case (Cons c x)
    then show ?case by (cases "ts \<le> length tag") auto
  qed auto
  from in_loop [OF assms(1), of MAX_TAG_LEN "''<''" "[]"] assms(2) obtain c raw' tag' fh' where
    "tag_loop MAX_TAG_LEN x [] ''<'' True = (c, raw', tag', fh')" "MAX_TAG_LEN \<le> length tag'" by auto
  then show ?thesis by (simp add: read_tag_def)
qed

theorem read_tag_overflow_witness:
  "read_tag (''<'' @ replicate 300 CHR ''a'') None MAX_TAG_LEN = None"
  using read_tag_overflow [of "replicate 300 CHR ''a''" None] by (simp add: MAX_TAG_LEN_def)

end
