(* ===== verification/Xmldb_Patch.thy ===== *)
theory Xmldb_Patch
  imports Xmldb_File "HOL-Library.Signed_Division"
begin

text \<open>
  The template interpreter of the configuration database, \<^verbatim>\<open>tools/alpha/xmldb/patch.c\<close>. A template is text with
  tags between double braces: values of nodes, calculations, conditional blocks and blocks repeated for the entries
  of an array. The text not yet read of a \<^verbatim>\<open>PINFO\<close> is a list of characters; output goes through the
  buffer of 1024 characters to \<^verbatim>\<open>write\<close>. \<open>None\<close> is an access outside an object, the release of a pointer that was not
  allocated, a division by zero, or a loop that does not return (the two loops over operators, which are
  \<^verbatim>\<open>partial_function\<close>s). Integers have 32 bits and wrap around. The tree is not changed.
\<close>

definition MAX_PATCH_MSG_LEN :: nat where "MAX_PATCH_MSG_LEN = 256"
definition MAX_MAP_SECTION :: nat where "MAX_MAP_SECTION = 32"
definition PI_INCREASE_STEP :: nat where "PI_INCREASE_STEP = 1024"
definition RGDB_ESCAPE_JS :: u32 where "RGDB_ESCAPE_JS = 1"

subsection \<open>Reading and writing\<close>

record pinfo =
  pi_flags :: u32
  pi_current :: "ptr option"
  pi_max :: int
  pi_fh :: bool
  pi_rest :: "char list"

text \<open>A character of a file is read as a number from 0 to 255, one of a buffer keeps its sign: the character 255 of a
  buffer is taken for the end of file.\<close>

definition pi_getc :: "bool \<Rightarrow> char list \<Rightarrow> int \<times> char list" where
  "pi_getc fh s = (case s of [] \<Rightarrow> (EOF, []) | a # r \<Rightarrow> (if fh then uchar a else schar a, r))"

definition is_eof :: "bool \<Rightarrow> char \<Rightarrow> bool" where
  "is_eof fh a \<longleftrightarrow> \<not> fh \<and> a = CHR 0xFF"

text \<open>A buffer that is written to: the characters stored, whether its memory could be allocated, and its capacity.\<close>

record wbuf =
  wb_text :: "char list"
  wb_live :: bool
  wb_alloc :: nat

definition wb_empty :: wbuf where
  "wb_empty = \<lparr>wb_text = [], wb_live = False, wb_alloc = 0\<rparr>"

definition pi_putc :: "alloc \<Rightarrow> wbuf \<Rightarrow> char \<Rightarrow> int \<times> wbuf" where
  "pi_putc al w c = (let
     w1 = (if length (wb_text w) \<ge> wb_alloc w
       then w\<lparr>wb_alloc := wb_alloc w + PI_INCREASE_STEP, wb_live := al (wb_alloc w + PI_INCREASE_STEP)\<rparr> else w) in
     if wb_live w1 then (0, w1\<lparr>wb_text := wb_text w1 @ [c]\<rparr>) else (-1, w1))"

fun pi_puts :: "alloc \<Rightarrow> wbuf \<Rightarrow> char list \<Rightarrow> int \<times> wbuf" where
  "pi_puts al w [] = (0, w)"
| "pi_puts al w (c # cs) = (case pi_putc al w c of (r, w1) \<Rightarrow> if r < 0 then (-1, w1) else pi_puts al w1 cs)"

definition pi_puttag :: "alloc \<Rightarrow> wbuf \<Rightarrow> char list \<Rightarrow> int \<times> wbuf" where
  "pi_puttag al w tag = pi_puts al w (''{{'' @ tag @ ''}}'')"

text \<open>What is read from such a buffer; a buffer that lost its memory is a null pointer.\<close>

definition wb_source :: "wbuf \<Rightarrow> char list option" where
  "wb_source w = (if wb_text w = [] then Some [] else if wb_live w then Some (wb_text w) else None)"

record patch_state =
  g_var :: "int list"
  ob_chars :: "char list"
  ob_written :: "char list list"

definition buffer_flush :: "patch_state \<Rightarrow> patch_state" where
  "buffer_flush st = st\<lparr>ob_written := ob_written st @ [ob_chars st], ob_chars := []\<rparr>"

definition buffer_putc :: "char \<Rightarrow> patch_state \<Rightarrow> patch_state" where
  "buffer_putc c st = (let
     st1 = (if length (ob_chars st) < 1024 then st\<lparr>ob_chars := ob_chars st @ [c]\<rparr> else st) in
     if length (ob_chars st1) = 1024 then buffer_flush st1 else st1)"

definition put_all :: "char list \<Rightarrow> patch_state \<Rightarrow> patch_state" where
  "put_all cs st = fold buffer_putc cs st"

definition patch_output :: "u32 \<Rightarrow> char list \<Rightarrow> patch_state \<Rightarrow> patch_state" where
  "patch_output flags v st = put_all
     (if flags AND RGDB_ESCAPE_JS \<noteq> 0
      then concat (map (\<lambda>c. if c = CHR 0x22 \<or> c = CHR ''$'' \<or> c = CHR 0x5C then [CHR 0x5C, c] else [c]) v) else v) st"

subsection \<open>Strings and maps\<close>

fun quoted_loop :: "nat \<Rightarrow> char list \<Rightarrow> char list \<Rightarrow> char list \<times> char list option" where
  "quoted_loop i acc [] = (acc, None)"
| "quoted_loop i acc (c # s) =
     (if c = QUOT then (acc, Some s)
      else if i < 255 then
        (case s of d # s' \<Rightarrow> if c = CHR 0x5C then quoted_loop (i + 1) (acc @ [d]) s' else quoted_loop (i + 1) (acc @ [c]) s
         | [] \<Rightarrow> quoted_loop (i + 1) (acc @ [c]) s)
      else quoted_loop i acc s)"

text \<open>The string read and the message left; \<open>end\<close> is \<open>NUL\<close> when only white space ends the string.\<close>

definition read_string :: "char list \<Rightarrow> char \<Rightarrow> char list \<times> char list" where
  "read_string msg end =
     (case msg of
        c # s \<Rightarrow> if c = QUOT
          then (case quoted_loop 0 [] s of (acc, Some r) \<Rightarrow> (acc, r) | (acc, None) \<Rightarrow> ([], msg))
          else (let ok = (\<lambda>c. \<not> IS_WHITE c \<and> \<not> (end \<noteq> NUL \<and> c = end)) in (take 255 (takeWhile ok msg), dropWhile ok msg))
      | [] \<Rightarrow> ([], []))"

record map_sect =
  ms_default :: "char list option"
  ms_entries :: "(char list option \<times> char list option) list"

lemma read_string_length: "length (snd (read_string msg e)) \<le> length msg"
proof -
  have q: "quoted_loop i acc s = (acc', Some r) \<Longrightarrow> length r \<le> length s" for i acc s acc' r
    by (induction i acc s rule: quoted_loop.induct) (auto split: if_splits list.splits)
  show ?thesis
    by (auto simp: read_string_def Let_def length_dropWhile_le le_SucI split: list.split option.split prod.split dest: q)
qed

lemma read_string_rest: "(p, r) = read_string m e \<Longrightarrow> length r \<le> length m"
  using read_string_length [of m e] by (metis snd_conv)

lemma eatwhite_length: "length (xmldb_eatwhite s) \<le> length s"
  by (simp add: xmldb_eatwhite_def length_dropWhile_le)

text \<open>The three states of \<^verbatim>\<open>extract_maps\<close>; the flag of the result says that the message was valid.\<close>

function extract_loop :: "alloc \<Rightarrow> nat \<Rightarrow> char list option \<Rightarrow> map_sect \<Rightarrow> char list \<Rightarrow> (bool \<times> map_sect) option" where
  "extract_loop al state pattern m msg =
     (if msg = [] then Some (True, m)
      else if state = 0 then extract_loop al 1 None m msg
      else if state = 1 then
        (case read_string (xmldb_eatwhite msg) (CHR '':'') of (p, r) \<Rightarrow>
           case xmldb_eatwhite r of
             c # s \<Rightarrow> if c = CHR '':'' then extract_loop al 2 (strdup al p) m s else Some (False, m)
           | [] \<Rightarrow> Some (False, m))
      else
        (case read_string (xmldb_eatwhite msg) (CHR '','') of (q, r) \<Rightarrow>
           let s = xmldb_eatwhite r in
           if s = [] \<or> hd s = CHR '','' then do {
             m' \<leftarrow> (if length (ms_entries m) < MAX_MAP_SECTION then do {
                 p \<leftarrow> pattern;
                 out \<leftarrow> strdup al q;
                 Some (if p = ''*'' then m\<lparr>ms_default := strdup al out\<rparr>
                   else m\<lparr>ms_entries := ms_entries m @ [(strdup al p, strdup al out)]\<rparr>) }
               else Some m);
             extract_loop al 0 None m' (tl s) }
           else Some (False, m)))"
  by pat_completeness auto
termination
proof (relation "measure (\<lambda>(al, state, pattern, m, msg). 2 * length msg + (if state = 0 then 1 else 0))", goal_cases)
  case (3 al state pattern m msg p r c s)
  then have "Suc (length s) \<le> length r" using eatwhite_length [of r] by simp
  moreover have "length r \<le> length (xmldb_eatwhite msg)" using 3 by (blast intro: read_string_rest)
  ultimately show ?case using eatwhite_length [of msg] 3 by simp
next
  case (4 al state pattern m msg q r s m')
  have "length s \<le> length r" using 4 eatwhite_length [of r] by simp
  moreover have "length r \<le> length (xmldb_eatwhite msg)" using 4 by (blast intro: read_string_rest)
  moreover have "0 < length msg" using 4 by simp
  ultimately have "length (tl s) < length msg" using eatwhite_length [of msg] by (cases s) auto
  then show ?case using 4 by simp
qed simp_all

declare extract_loop.simps [simp del]

definition extract_maps :: "alloc \<Rightarrow> char list \<Rightarrow> (bool \<times> map_sect) option" where
  "extract_maps al msg = extract_loop al 0 None \<lparr>ms_default = None, ms_entries = []\<rparr> msg"

text \<open>The first entry whose pattern is the value. An invalid message is used as far as it was understood.\<close>

fun map_lookup :: "char list \<Rightarrow> (char list option \<times> char list option) list \<Rightarrow> char list option option" where
  "map_lookup v [] = Some None"
| "map_lookup v ((p, out) # es) = do {
     p' \<leftarrow> p;
     if strcmp v p' = 0 then do { o' \<leftarrow> out; Some (Some o') } else map_lookup v es }"

definition map_output :: "alloc \<Rightarrow> u32 \<Rightarrow> char list \<Rightarrow> char list \<Rightarrow> patch_state \<Rightarrow> patch_state option" where
  "map_output al flags v msg st = do {
     (_, m) \<leftarrow> extract_maps al msg;
     hit \<leftarrow> map_lookup v (ms_entries m);
     Some (patch_output flags (case hit of Some out \<Rightarrow> out
       | None \<Rightarrow> (case ms_default m of Some d \<Rightarrow> d | None \<Rightarrow> v)) st) }"

subsection \<open>Numbers and variables\<close>

definition wrap_int :: "int \<Rightarrow> int" where
  "wrap_int i = signed_take_bit 31 i"

text \<open>\<^verbatim>\<open>%d\<close>\<close>

definition itoa :: "int \<Rightarrow> char list" where
  "itoa i = (if i < 0 then CHR ''-'' # decimal (nat (- i)) else decimal (nat i))"

text \<open>\<open>s[k]\<close>: the terminating NUL can be read, nothing behind it.\<close>

definition char_at :: "char list \<Rightarrow> nat \<Rightarrow> char option" where
  "char_at s k = rd (s @ [NUL]) k"

text \<open>\<open>g_var[(c-'0')%10]\<close>: the remainder has the sign of the difference.\<close>

definition var_index :: "char \<Rightarrow> int" where
  "var_index c = (schar c - 48) smod 10"

definition get_var :: "int list \<Rightarrow> char option \<Rightarrow> int option" where
  "get_var vars c = do { c' \<leftarrow> c; if var_index c' < 0 then None else rd vars (nat (var_index c')) }"

definition readnum :: "int list \<Rightarrow> int \<Rightarrow> int \<Rightarrow> char list \<Rightarrow> (int \<times> char list) option" where
  "readnum vars ix mx num =
     (if num \<noteq> [] \<and> hd num = CHR ''#'' then Some (ix, tl num)
      else if num \<noteq> [] \<and> hd num = CHR ''@'' then Some (mx, tl num)
      else if strncmp num ''var'' 3 = 0 then do { v \<leftarrow> get_var vars (char_at num 3); Some (v, drop 4 num) }
      else Some (foldl (\<lambda>i d. wrap_int (i * 10 + (uchar d - 48))) 0 (takeWhile isdigit num), dropWhile isdigit num))"

subsection \<open>Calculations\<close>

datatype calc_op = Op_eq | Op_ne | Op_ge | Op_le | Op_add | Op_sub | Op_mul | Op_div | Op_mod | Op_gt | Op_lt

text \<open>The operator that starts a string, and its length.\<close>

definition arith_op :: "char list \<Rightarrow> calc_op option" where
  "arith_op s = (case s of [] \<Rightarrow> None | c # _ \<Rightarrow>
     if c = CHR ''+'' then Some Op_add else if c = CHR ''-'' then Some Op_sub else if c = CHR ''*'' then Some Op_mul
     else if c = CHR ''/'' then Some Op_div else if c = CHR ''%'' then Some Op_mod else None)"

definition calc_op_at :: "char list \<Rightarrow> (calc_op \<times> nat) option" where
  "calc_op_at s =
     (if strncmp s ''=='' 2 = 0 then Some (Op_eq, 2)
      else if strncmp s ''!='' 2 = 0 then Some (Op_ne, 2)
      else if strncmp s ''>='' 2 = 0 \<or> strncmp s ''!<'' 2 = 0 then Some (Op_ge, 2)
      else if strncmp s ''<='' 2 = 0 \<or> strncmp s ''!>'' 2 = 0 then Some (Op_le, 2)
      else (case arith_op s of Some p \<Rightarrow> Some (p, 1)
        | None \<Rightarrow> if s \<noteq> [] \<and> hd s = CHR ''>'' then Some (Op_gt, 1)
                  else if s \<noteq> [] \<and> hd s = CHR ''<'' then Some (Op_lt, 1) else None))"

text \<open>The guard of the division reports zero and negative divisors and keeps the value; the remainder has no guard.\<close>

fun calc_apply :: "calc_op \<Rightarrow> int \<Rightarrow> int \<Rightarrow> int option" where
  "calc_apply Op_eq v i = Some (of_bool (v = i))"
| "calc_apply Op_ne v i = Some (of_bool (v \<noteq> i))"
| "calc_apply Op_ge v i = Some (of_bool (v \<ge> i))"
| "calc_apply Op_le v i = Some (of_bool (v \<le> i))"
| "calc_apply Op_gt v i = Some (of_bool (v > i))"
| "calc_apply Op_lt v i = Some (of_bool (v < i))"
| "calc_apply Op_add v i = Some (wrap_int (v + i))"
| "calc_apply Op_sub v i = Some (wrap_int (v - i))"
| "calc_apply Op_mul v i = Some (wrap_int (v * i))"
| "calc_apply Op_div v i = Some (if i > 0 then v sdiv i else v)"
| "calc_apply Op_mod v i = (if i = 0 \<or> (i = -1 \<and> v = - (2 ^ 31)) then None else Some (v smod i))"

text \<open>One round of the loop of \<^verbatim>\<open>do_calculate\<close>: the value and the rest of the string. A string that starts with anything but
  an operator is left as it is, and looked at again in the next round.\<close>

definition calc_round :: "int list \<Rightarrow> int \<Rightarrow> int \<Rightarrow> int \<Rightarrow> char list \<Rightarrow> (int \<times> char list) option" where
  "calc_round vars ix mx v cs = (let s = xmldb_eatwhite cs in case calc_op_at s of
       None \<Rightarrow> Some (v, s)
     | Some (p, n) \<Rightarrow> do {
         (i, r) \<leftarrow> readnum vars ix mx (xmldb_eatwhite (drop n s));
         v' \<leftarrow> calc_apply p v i;
         Some (v', r) })"

partial_function (option) do_calculate :: "int list \<Rightarrow> int \<Rightarrow> int \<Rightarrow> int \<Rightarrow> char list \<Rightarrow> int option" where
  "do_calculate vars ix mx v cs =
     (if cs = [] then Some v else do { (v', r) \<leftarrow> calc_round vars ix mx v cs; do_calculate vars ix mx v' r })"

partial_function (option) var_loop :: "int list \<Rightarrow> int \<Rightarrow> int \<Rightarrow> int \<Rightarrow> char list \<Rightarrow> int option" where
  "var_loop vars ix mx v s =
     (if s = [] then Some v
      else (case arith_op s of
          None \<Rightarrow> var_loop vars ix mx v s
        | Some p \<Rightarrow> do {
            (i, r) \<leftarrow> readnum vars ix mx (xmldb_eatwhite (tl s));
            v' \<leftarrow> calc_apply p v i;
            var_loop vars ix mx v' r }))"

text \<open>Characters behind the terminating NUL of an empty tag are not modelled: reading them is a fault.\<close>

definition do_variables :: "char list \<Rightarrow> int \<Rightarrow> int \<Rightarrow> patch_state \<Rightarrow> (int \<times> patch_state) option" where
  "do_variables tag ix mx st = (case tag of [] \<Rightarrow> None
     | c # t \<Rightarrow> let s = xmldb_eatwhite t in
         if s = [] \<or> hd s \<noteq> CHR ''='' then Some (-1, st)
         else do {
           (v, r) \<leftarrow> readnum (g_var st) ix mx (xmldb_eatwhite (tl s));
           v' \<leftarrow> var_loop (g_var st) ix mx v (xmldb_eatwhite r);
           if var_index c < 0 then None
           else do { vars \<leftarrow> wr (g_var st) (nat (var_index c)) v'; Some (0, st\<lparr>g_var := vars\<rparr>) } })"

definition get_node_from_cstring :: "nat \<Rightarrow> char list \<Rightarrow> (char list \<times> char list) option" where
  "get_node_from_cstring n cs = (let node = takeWhile (\<lambda>c. c \<notin> set ''+-*/%><=!'') cs in
     if length node \<ge> n then None else Some (node, drop (length node) cs))"


subsection \<open>Values\<close>

text \<open>\<^verbatim>\<open>xmldb_find_sibling\<close> without creation.\<close>

definition sibling :: "xml_node list \<Rightarrow> char list \<Rightarrow> int \<Rightarrow> nat option" where
  "sibling cs name i = find_pos (same_key name i) cs"

lemma sibling_find: "xmldb_find_sibling al cs name i False = Some (sibling cs name i, cs)"
  by (simp add: xmldb_find_sibling_def sibling_def split: option.split)

lemma sibling_measure:
  assumes "sibling cs name i = Some k"
  shows "length (filter (\<lambda>n. i + 1 \<le> node_id n) cs) < length (filter (\<lambda>n. i \<le> node_id n) cs)"
proof -
  have "cs ! k \<in> set cs" "node_id (cs ! k) = i"
    using find_pos_Some [OF assms [unfolded sibling_def]] by (auto simp: same_key_def)
  then have "length (filter (\<lambda>n. i + 1 \<le> node_id n) (filter (\<lambda>n. i \<le> node_id n) cs)) < length (filter (\<lambda>n. i \<le> node_id n) cs)"
    by (intro length_filter_less [of "cs ! k"]) auto
  moreover have "filter (\<lambda>n. i + 1 \<le> node_id n) (filter (\<lambda>n. i \<le> node_id n) cs) = filter (\<lambda>n. i + 1 \<le> node_id n) cs"
    by (auto intro!: filter_cong)
  ultimately show ?thesis by simp
qed

text \<open>The first number from \<open>i\<close> on that no entry has.\<close>

function first_free :: "xml_node list \<Rightarrow> char list \<Rightarrow> int \<Rightarrow> int" where
  "first_free cs name i = (case sibling cs name i of None \<Rightarrow> i | Some _ \<Rightarrow> first_free cs name (i + 1))"
  by pat_completeness auto
termination
  by (relation "measure (\<lambda>(cs, name, i). length (filter (\<lambda>n. i \<le> node_id n) cs))") (auto dest: sibling_measure)

declare first_free.simps [simp del]

text \<open>The node of the parent and the name of the entries of an array.\<close>

definition array_parent ::
    "alloc \<Rightarrow> ptr option \<Rightarrow> char list \<Rightarrow> xml_node \<Rightarrow> (ptr option \<times> char list) option" where
  "array_parent al current path tree = (case strrchr path (CHR ''/'') of
       None \<Rightarrow> Some (current, path)
     | Some k \<Rightarrow> do { (p, _) \<leftarrow> xmldb_find_node al current (take k path) False tree; Some (p, drop (Suc k) path) })"

definition do_array_count :: "alloc \<Rightarrow> ptr option \<Rightarrow> char list \<Rightarrow> xml_node \<Rightarrow> int option" where
  "do_array_count al current path tree = (case strdup al path of None \<Rightarrow> Some 0
     | Some path' \<Rightarrow> do {
         (p, entry) \<leftarrow> array_parent al current path' tree;
         (case p of None \<Rightarrow> Some 0
          | Some q \<Rightarrow> do { n \<leftarrow> node_at tree q; Some (first_free (node_child n) entry 1 - 1) }) })"

text \<open>The value of a tag. \<open>lead\<close> says that white space was skipped before \<open>path\<close>, so that the character before
  it can be read.\<close>

definition mapping_value ::
    "alloc \<Rightarrow> xml_node \<Rightarrow> ptr option \<Rightarrow> int \<Rightarrow> int \<Rightarrow> int list \<Rightarrow> bool \<Rightarrow> char list \<Rightarrow> char list option" where
  "mapping_value al tree current ix mx vars lead path =
     (if path = ''#'' then Some (itoa ix)
      else if path = [] \<and> \<not> lead then None
      else if path \<noteq> [] \<and> last path = CHR ''#'' then map_option itoa (do_array_count al current (butlast path) tree)
      else if path \<noteq> [] \<and> hd path = CHR ''%'' then do {
        (node, r) \<leftarrow> get_node_from_cstring 80 (tl path);
        if node \<noteq> [] then do {
          i \<leftarrow> (if node = ''#'' then Some ix
            else if strncmp node ''var'' 3 = 0 then get_var vars (char_at node 3)
            else map_option atoi (xmldb_get_value al current node tree));
          map_option itoa (do_calculate vars ix mx i r) }
        else Some [] }
      else if strncmp path ''var'' 3 = 0 then map_option itoa (get_var vars (char_at path 3))
      else xmldb_get_value al current path tree)"

definition do_mapping ::
    "alloc \<Rightarrow> xml_node \<Rightarrow> pinfo \<Rightarrow> char list \<Rightarrow> int \<Rightarrow> patch_state \<Rightarrow> (int \<times> patch_state) option" where
  "do_mapping al tree info msg ix st = (case strdup al msg of None \<Rightarrow> Some (-1, st)
     | Some b \<Rightarrow> (let
         p = xmldb_eatwhite b;
         comma = strchr p (CHR '','');
         path = xmldb_reatwhite (case comma of None \<Rightarrow> p | Some k \<Rightarrow> take k p);
         mapping = (case comma of None \<Rightarrow> [] | Some k \<Rightarrow> drop (Suc k) p) in do {
       v \<leftarrow> mapping_value al tree (pi_current info) ix (pi_max info) (g_var st) (length p < length b) path;
       st' \<leftarrow> (if mapping \<noteq> [] then map_output al (pi_flags info) v mapping st
         else Some (patch_output (pi_flags info) v st));
       Some (0, st') }))"

subsection \<open>Conditions\<close>

text \<open>The comparison of numbers. The second operand is looked up under the name of the first one.\<close>

definition numeric_condition ::
    "alloc \<Rightarrow> xml_node \<Rightarrow> ptr option \<Rightarrow> int list \<Rightarrow> char list \<Rightarrow> char list \<Rightarrow> char list \<Rightarrow> bool option option" where
  "numeric_condition al tree root vars entry p oprand = do {
     v1 \<leftarrow> (if strncmp entry ''var'' 3 = 0 then get_var vars (char_at entry 3)
       else map_option atoi (xmldb_get_value al root entry tree));
     v2 \<leftarrow> (if strncmp oprand ''var'' 3 = 0 then get_var vars (char_at entry 3) else Some (atoi oprand));
     Some (if p = ''=='' then Some (v1 = v2) else if p = ''!='' then Some (v1 \<noteq> v2)
       else if p = ''<='' \<or> p = ''!>'' then Some (v1 \<le> v2) else if p = ''>='' \<or> p = ''!<'' then Some (v1 \<ge> v2)
       else if p = ''<'' then Some (v1 < v2) else if p = ''>'' then Some (v1 > v2) else None) }"

definition string_condition ::
    "alloc \<Rightarrow> xml_node \<Rightarrow> ptr option \<Rightarrow> int list \<Rightarrow> char list \<Rightarrow> char list \<Rightarrow> char list \<Rightarrow> bool option option" where
  "string_condition al tree root vars entry p oprand = do {
     s1 \<leftarrow> (if strncmp entry ''var'' 3 = 0 then map_option itoa (get_var vars (char_at entry 3))
       else xmldb_get_value al root entry tree);
     s2 \<leftarrow> (if strncmp oprand ''var'' 3 = 0 then map_option itoa (get_var vars (char_at entry 3)) else Some oprand);
     Some (if p = ''=='' then Some (strcmp s1 s2 = 0) else if p = ''!='' then Some (strcmp s1 s2 \<noteq> 0) else None) }"

text \<open>Of a condition on numbers, \<open>entry\<close> is advanced behind the percent sign, and the advanced pointer is released at
  the end of the round.\<close>

function condition_loop ::
    "alloc \<Rightarrow> xml_node \<Rightarrow> ptr option \<Rightarrow> int list \<Rightarrow> bool \<Rightarrow> char list \<Rightarrow> bool option" where
  "condition_loop al tree root vars res s =
     (if s = [] then Some res
      else case read_string (xmldb_eatwhite s) NUL of (e, s1) \<Rightarrow>
        (case strdup al e of None \<Rightarrow> Some res | Some entry \<Rightarrow>
         if entry = [] then Some res
         else case read_string (xmldb_eatwhite s1) NUL of (p', s2) \<Rightarrow>
           (case strdup al p' of None \<Rightarrow> Some res | Some p \<Rightarrow>
            if p = [] then Some res
            else case read_string (xmldb_eatwhite s2) NUL of (r', s3) \<Rightarrow>
              Option.bind (strdup al r') (\<lambda>oprand.
                if hd entry = CHR ''%''
                then Option.bind (numeric_condition al tree root vars (tl entry) p oprand) (\<lambda>_. None)
                else Option.bind (string_condition al tree root vars entry p oprand) (\<lambda>c.
                  case c of None \<Rightarrow> Some res
                  | Some res' \<Rightarrow>
                      if strncmp (xmldb_eatwhite s3) ''&&'' 2 = 0 then
                        (if \<not> res' then Some res' else condition_loop al tree root vars res' (drop 2 (xmldb_eatwhite s3)))
                      else if strncmp (xmldb_eatwhite s3) ''||'' 2 = 0 then
                        (if res' then Some res' else condition_loop al tree root vars res' (drop 2 (xmldb_eatwhite s3)))
                      else Some res')))))"
  by pat_completeness auto

lemma condition_rest:
  assumes "s \<noteq> []" "(e, s1) = read_string (xmldb_eatwhite s) NUL" "(p, s2) = read_string (xmldb_eatwhite s1) NUL"
    "(r, s3) = read_string (xmldb_eatwhite s2) NUL"
  shows "length (drop 2 (xmldb_eatwhite s3)) < length s"
proof -
  have "length (xmldb_eatwhite s3) \<le> length s"
    using read_string_rest [OF assms(2)] read_string_rest [OF assms(3)] read_string_rest [OF assms(4)]
      eatwhite_length [of s] eatwhite_length [of s1] eatwhite_length [of s2] eatwhite_length [of s3] by linarith
  with assms(1) show ?thesis by (cases s) auto
qed

termination condition_loop
  by (relation "measure (\<lambda>(al, tree, root, vars, res, s). length s)") (auto dest: condition_rest [rotated 1] simp del: length_drop)

declare condition_loop.simps [simp del]

definition do_if_condition ::
    "alloc \<Rightarrow> xml_node \<Rightarrow> ptr option \<Rightarrow> int list \<Rightarrow> char list \<Rightarrow> int option" where
  "do_if_condition al tree root vars tagmsg = (case strdup al tagmsg of None \<Rightarrow> Some (-1)
     | Some b \<Rightarrow> map_option of_bool (condition_loop al tree root vars False (xmldb_eatwhite (xmldb_reatwhite b))))"


subsection \<open>Scanning a template\<close>

text \<open>The loop of \<^verbatim>\<open>read_tag_msg\<close>: \<open>c\<close> is the last character read, \<open>acc\<close> the characters stored.\<close>

fun tag_msg_loop :: "bool \<Rightarrow> nat \<Rightarrow> int \<Rightarrow> char list \<Rightarrow> char list \<Rightarrow> int \<times> char list \<times> char list" where
  "tag_msg_loop fh lim c acc [] = (if length acc \<ge> lim then (c, acc, []) else (EOF, acc, []))"
| "tag_msg_loop fh lim c acc (a # s) =
     (if length acc \<ge> lim then (c, acc, a # s)
      else if is_eof fh a then (EOF, acc, s)
      else if a = CHR ''}'' then
        (case s of [] \<Rightarrow> (EOF, acc, [])
         | b # s' \<Rightarrow>
             if is_eof fh b then (EOF, acc, s')
             else if b = CHR ''}'' then (uchar b, acc, s')
             else tag_msg_loop fh lim (uchar b) (acc @ [CHR ''}'', b]) s')
      else tag_msg_loop fh lim (uchar a) (acc @ [a]) s)"

definition read_tag_msg :: "bool \<Rightarrow> char list \<Rightarrow> int \<times> char list \<times> char list" where
  "read_tag_msg fh s = tag_msg_loop fh (MAX_PATCH_MSG_LEN - 2) 0 [] s"

text \<open>The part that all loops over a template share: the next characters, or the next tag, trimmed, with the last
  character read.\<close>

datatype item = Item_eof "char list" "char list" | Item_text "char list" "char list" | Item_tag int "char list" "char list"

definition scan_item :: "bool \<Rightarrow> char list \<Rightarrow> item" where
  "scan_item fh s = (case s of
       [] \<Rightarrow> Item_eof [] []
     | a # s1 \<Rightarrow>
         if is_eof fh a then Item_eof [] s1
         else if a \<noteq> CHR ''{'' then Item_text [a] s1
         else (case s1 of
             [] \<Rightarrow> Item_eof ''{'' []
           | b # s2 \<Rightarrow>
               if is_eof fh b then Item_eof ''{'' s2
               else if b \<noteq> CHR ''{'' then Item_text [CHR ''{'', b] s2
               else (case read_tag_msg fh s2 of (c, raw, s3) \<Rightarrow>
                 Item_tag c (xmldb_eatwhite (xmldb_reatwhite (cut raw))) s3)))"

abbreviation braces :: "char list \<Rightarrow> nat" where
  "braces s \<equiv> count_list s (CHR ''{'')"

lemma tag_msg_loop_bounds:
  "tag_msg_loop fh lim c acc s = (c', acc', s') \<Longrightarrow>
    length s' \<le> length s \<and> braces acc' + braces s' \<le> braces acc + braces s"
  by (induction fh lim c acc s rule: tag_msg_loop.induct) (fastforce split: if_splits list.splits)+

lemma count_list_dropWhile: "count_list (dropWhile P s) c \<le> count_list s c"
  by (induction s) auto

lemma count_list_takeWhile: "count_list (takeWhile P s) c \<le> count_list s c"
  by (induction s) auto

lemma braces_trim: "braces (xmldb_eatwhite (xmldb_reatwhite (cut raw))) \<le> braces raw"
  unfolding xmldb_eatwhite_def xmldb_reatwhite_def cut_def
  by (metis (no_types) count_list_dropWhile count_list_rev count_list_takeWhile order_trans)

lemma scan_item_text: "scan_item fh s = Item_text cs r \<Longrightarrow> s = cs @ r \<and> cs \<noteq> []"
  by (auto simp: scan_item_def split: list.splits if_splits prod.splits)

lemma scan_item_eof: "scan_item fh s = Item_eof cs r \<Longrightarrow> length r \<le> length s \<and> braces cs + braces r \<le> braces s"
  by (auto simp: scan_item_def split: list.splits if_splits prod.splits)

lemma scan_item_tag:
  "scan_item fh s = Item_tag c msg r \<Longrightarrow> length r < length s \<and> braces msg + braces r + 2 \<le> braces s"
proof -
  assume "scan_item fh s = Item_tag c msg r"
  then obtain s2 raw where s: "s = CHR ''{'' # CHR ''{'' # s2" and t: "read_tag_msg fh s2 = (c, raw, r)"
    and m: "msg = xmldb_eatwhite (xmldb_reatwhite (cut raw))"
    by (auto simp: scan_item_def split: list.splits if_splits prod.splits)
  from tag_msg_loop_bounds [OF t [unfolded read_tag_msg_def]] braces_trim [of raw] show ?thesis by (simp add: s m)
qed

subsection \<open>Copying a block\<close>

text \<open>The loops of \<^verbatim>\<open>do_if\<close> and \<^verbatim>\<open>do_array\<close> that read the text of a block up to its end, counting the blocks inside it.
  \<open>kind\<close> says what a tag is for the loop, \<open>keep\<close> whether the text is stored.\<close>

datatype block_tag = Opens | Else_tag | Closes | Inner
datatype block_end = At_else | At_end | At_eof

definition if_kind :: "char list \<Rightarrow> block_tag" where
  "if_kind msg = (if strncmp msg ''$if'' 3 = 0 then Opens else if strncmp msg ''$else'' 5 = 0 then Else_tag
     else if strncmp msg ''$fi'' 3 = 0 then Closes else Inner)"

definition else_kind :: "char list \<Rightarrow> block_tag" where
  "else_kind msg = (if strncmp msg ''$if'' 3 = 0 then Opens else if strncmp msg ''$fi'' 3 = 0 then Closes else Inner)"

definition array_kind :: "char list \<Rightarrow> block_tag" where
  "array_kind msg = (if strncmp msg ''$arraystart:'' 12 = 0 then Opens
     else if strncmp msg ''$arrayend'' 9 = 0 then Closes else Inner)"

definition keep_text :: "alloc \<Rightarrow> bool \<Rightarrow> char list \<Rightarrow> wbuf \<Rightarrow> wbuf" where
  "keep_text al keep cs w = (if keep then fold (\<lambda>c w. snd (pi_putc al w c)) cs w else w)"

definition keep_tag :: "alloc \<Rightarrow> bool \<Rightarrow> char list \<Rightarrow> wbuf \<Rightarrow> wbuf" where
  "keep_tag al keep msg w = (if keep then snd (pi_puttag al w msg) else w)"

function copy_block ::
    "alloc \<Rightarrow> (char list \<Rightarrow> block_tag) \<Rightarrow> bool \<Rightarrow> bool \<Rightarrow> nat \<Rightarrow> wbuf \<Rightarrow> char list \<Rightarrow> block_end \<times> wbuf \<times> char list" where
  "copy_block al kind keep fh level w s = (case scan_item fh s of
       Item_eof cs r \<Rightarrow> (At_eof, keep_text al keep cs w, r)
     | Item_text cs r \<Rightarrow> copy_block al kind keep fh level (keep_text al keep cs w) r
     | Item_tag c msg r \<Rightarrow>
         if kind msg = Else_tag \<and> level = 1 then (At_else, w, r)
         else if kind msg = Closes \<and> level = 1 then (At_end, w, r)
         else if c = EOF then (At_eof, keep_tag al keep msg w, r)
         else copy_block al kind keep fh
           (case kind msg of Opens \<Rightarrow> level + 1 | Closes \<Rightarrow> level - 1 | _ \<Rightarrow> level) (keep_tag al keep msg w) r)"
  by pat_completeness auto
termination
proof (relation "measure (\<lambda>(al, kind, keep, fh, level, w, s). length s)", goal_cases)
  case (2 al kind keep fh level w s cs r)
  then show ?case using scan_item_text [of fh s cs r] by (cases cs) auto
next
  case (3 al kind keep fh level w s c msg r)
  then show ?case using scan_item_tag [of fh s c msg r] by simp
qed simp

declare copy_block.simps [simp del]

lemma braces_putc: "braces (wb_text (snd (pi_putc al w c))) \<le> braces (wb_text w) + braces [c]"
  by (simp add: pi_putc_def Let_def)

lemma braces_puts: "braces (wb_text (snd (pi_puts al w cs))) \<le> braces (wb_text w) + braces cs"
proof (induction al w cs rule: pi_puts.induct)
  case (2 al w c cs)
  obtain r w1 where p: "pi_putc al w c = (r, w1)" by fastforce
  with braces_putc [of al w c] 2 [of r w1] show ?case by (auto split: if_splits)
qed simp

lemma braces_keep_text: "braces (wb_text (keep_text al keep cs w)) \<le> braces (wb_text w) + braces cs"
proof (induction cs arbitrary: w)
  case (Cons c cs)
  from Cons [of "snd (pi_putc al w c)"] braces_putc [of al w c] show ?case
    by (cases keep) (auto simp: keep_text_def)
qed (simp add: keep_text_def)

lemma braces_keep_tag: "braces (wb_text (keep_tag al keep msg w)) \<le> braces (wb_text w) + braces msg + 2"
  using braces_puts [of al w "''{{'' @ msg @ ''}}''"] by (simp add: keep_tag_def pi_puttag_def)

lemma copy_block_bounds:
  "copy_block al kind keep fh level w s = (e, w', r) \<Longrightarrow>
    length r \<le> length s \<and> braces (wb_text w') + braces r \<le> braces (wb_text w) + braces s"
proof (induction al kind keep fh level w s arbitrary: e w' r rule: copy_block.induct)
  case (1 al kind keep fh level w s)
  note eq = 1(3) [unfolded copy_block.simps [of al kind keep fh level w s]]
  show ?case
  proof (cases "scan_item fh s")
    case (Item_eof cs r')
    with eq scan_item_eof [OF this] braces_keep_text [of al keep cs w] show ?thesis by auto
  next
    case (Item_text cs r')
    with eq 1(1) [OF Item_text, of e w' r] scan_item_text [OF Item_text] braces_keep_text [of al keep cs w]
    show ?thesis by auto
  next
    case (Item_tag c msg r')
    note t = scan_item_tag [OF this] braces_keep_tag [of al keep msg w]
    show ?thesis
    proof (cases "kind msg \<in> {Else_tag, Closes} \<and> level = 1 \<or> c = EOF")
      case True
      with eq Item_tag t show ?thesis by (auto split: if_splits)
    next
      case False
      with 1(2) [OF Item_tag] eq Item_tag t show ?thesis by (fastforce split: if_splits)
    qed
  qed
qed


subsection \<open>Interpreting a template\<close>

text \<open>The text of a block as a new source. Only the loop over an array sets \<^verbatim>\<open>max\<close>.\<close>

definition block_info :: "u32 \<Rightarrow> ptr option \<Rightarrow> int \<Rightarrow> char list \<Rightarrow> pinfo" where
  "block_info flags current mx t =
     \<lparr>pi_flags = flags, pi_current = current, pi_max = mx, pi_fh = False, pi_rest = t\<rparr>"

lemma wb_source_text: "wb_source w = Some t \<Longrightarrow> t = wb_text w"
  by (auto simp: wb_source_def split: if_splits)

text \<open>\<^verbatim>\<open>do_patch\<close> from the text left in \<open>info\<close>, \<open>ret\<close> being the result so far; \<open>patch_ids\<close> is the last loop of
  \<^verbatim>\<open>do_array\<close>. The other results of a tag are the text left and the node set with \<open>@\<close>.\<close>

function (sequential) do_patch :: "alloc \<Rightarrow> xml_node \<Rightarrow> int \<Rightarrow> pinfo \<Rightarrow> int \<Rightarrow> patch_state \<Rightarrow> (int \<times> patch_state) option"
and
  patch_ids :: "alloc \<Rightarrow> xml_node \<Rightarrow> u32 \<Rightarrow> ptr \<Rightarrow> xml_node list \<Rightarrow> char list \<Rightarrow> int \<Rightarrow> wbuf \<Rightarrow> int \<Rightarrow> patch_state \<Rightarrow>
    patch_state option"
where
  "do_patch al tree ix info ret st = (case scan_item (pi_fh info) (pi_rest info) of
       Item_eof cs r \<Rightarrow> Some (ret, put_all cs st)
     | Item_text cs r \<Rightarrow> do_patch al tree ix (info\<lparr>pi_rest := r\<rparr>) ret (put_all cs st)
     | Item_tag c msg r \<Rightarrow>
         Option.bind
           (if strncmp msg ''$arraystart:'' 12 = 0 then
              (case strdup al (drop 12 msg) of
                 None \<Rightarrow> Some (-1, info\<lparr>pi_rest := r\<rparr>, st)
               | Some path \<Rightarrow>
                   (case copy_block al array_kind True (pi_fh info) 1 wb_empty r of (e, w, r1) \<Rightarrow>
                      Option.bind (array_parent al (pi_current info) path tree) (\<lambda>(p, entry).
                        case p of
                          None \<Rightarrow> Some (0, info\<lparr>pi_rest := r1\<rparr>, st)
                        | Some q \<Rightarrow> Option.bind (node_at tree q) (\<lambda>n.
                            Option.bind (patch_ids al tree (pi_flags info) q (node_child n) entry
                                (first_free (node_child n) entry 1 - 1) w 1 st) (\<lambda>st1.
                              Some (0, info\<lparr>pi_rest := r1\<rparr>, st1))))))
            else if strncmp msg ''$if'' 3 = 0 then
              Option.bind (do_if_condition al tree (pi_current info) (g_var st) (drop 3 msg)) (\<lambda>res.
                case copy_block al if_kind (res \<noteq> 0) (pi_fh info) 1 wb_empty r of (e, w, r1) \<Rightarrow>
                  Option.bind
                    (if res \<noteq> 0 then Option.bind (wb_source w) (\<lambda>t.
                       do_patch al tree ix (block_info (pi_flags info) (pi_current info) 0 t) 0 st)
                     else Some (0, st)) (\<lambda>(_, st1).
                    if e = At_else then
                      (case copy_block al else_kind (res = 0) (pi_fh info) 1 w r1 of (e2, w2, r2) \<Rightarrow>
                        Option.bind
                          (if res = 0 then Option.bind (wb_source w2) (\<lambda>t.
                             do_patch al tree ix (block_info (pi_flags info) (pi_current info) 0 t) 0 st1)
                           else Some (0, st1)) (\<lambda>(_, st2).
                          Some (0, info\<lparr>pi_rest := r2\<rparr>, st2)))
                    else Some (0, info\<lparr>pi_rest := r1\<rparr>, st1)))
            else if strncmp msg ''$var'' 4 = 0 then
              Option.bind (do_variables (drop 4 msg) ix (pi_max info) st) (\<lambda>(x, st1). Some (x, info\<lparr>pi_rest := r\<rparr>, st1))
            else if msg \<noteq> [] \<and> hd msg = CHR ''$'' then Some (ret, info\<lparr>pi_rest := r\<rparr>, st)
            else if msg \<noteq> [] \<and> hd msg = CHR ''@'' then
              (if ix = 0 then Option.bind (xmldb_find_node al (pi_current info) (tl msg) False tree) (\<lambda>(p, _).
                 Some (ret, info\<lparr>pi_rest := r, pi_current := p\<rparr>, st))
               else Some (ret, info\<lparr>pi_rest := r\<rparr>, st))
            else Option.bind (do_mapping al tree info msg ix st) (\<lambda>(x, st1). Some (x, info\<lparr>pi_rest := r\<rparr>, st1)))
           (\<lambda>(ret', info', st'). if ret' < 0 \<or> c = EOF then Some (ret', st') else do_patch al tree ix info' ret' st'))"
| "patch_ids al tree flags q cs entry mx w ix st = (case sibling cs entry ix of
       None \<Rightarrow> Some st
     | Some k \<Rightarrow> Option.bind (wb_source w) (\<lambda>t.
         Option.bind (do_patch al tree ix (block_info flags (Some (q @ [k])) mx t) 0 st) (\<lambda>(_, st1).
           patch_ids al tree flags q cs entry mx w (ix + 1) st1)))"
  by pat_completeness auto

definition patch_order :: "_ + _ \<Rightarrow> nat \<times> nat \<times> nat" where
  "patch_order = (\<lambda>x. case x of
       Inl (al :: alloc, tree :: xml_node, ix :: int, info :: pinfo, ret :: int, st :: patch_state) \<Rightarrow>
         (braces (pi_rest info), 0, length (pi_rest info))
     | Inr (al :: alloc, tree :: xml_node, flags :: u32, q :: ptr, cs, entry :: char list, mx :: int, w :: wbuf, ix, st :: patch_state) \<Rightarrow>
         (braces (wb_text w), Suc (length (filter (\<lambda>n. ix \<le> node_id n) cs)), 0))"

lemma copy_block_less:
  "(e, w, r1) = copy_block al kind keep fh (Suc 0) wb_empty r \<Longrightarrow> scan_item fh s = Item_tag c msg r \<Longrightarrow>
    braces (wb_text w) < braces s \<and> braces r1 \<le> braces s \<and> length r1 < length s"
  using copy_block_bounds [of al kind keep fh 1 wb_empty r e w r1] scan_item_tag [of fh s c msg r] by (simp add: wb_empty_def)

lemma copy_block_less2:
  "(e2, w2, r2) = copy_block al kind2 keep2 fh (Suc 0) w r1 \<Longrightarrow> (e, w, r1) = copy_block al kind keep fh (Suc 0) wb_empty r \<Longrightarrow>
    scan_item fh s = Item_tag c msg r \<Longrightarrow> braces (wb_text w2) < braces s \<and> braces r2 \<le> braces s \<and> length r2 < length s"
  using copy_block_bounds [of al kind keep fh 1 wb_empty r e w r1] copy_block_bounds [of al kind2 keep2 fh 1 w r1 e2 w2 r2]
    scan_item_tag [of fh s c msg r] by (simp add: wb_empty_def)

termination do_patch
proof (relation "inv_image (less_than <*lex*> less_than <*lex*> less_than) patch_order", goal_cases)
  case 1
  then show ?case by (intro wf_inv_image wf_lex_prod wf_less_than)
next
  case (2 al tree ix info ret st cs r)
  then show ?case using scan_item_text [of "pi_fh info" "pi_rest info" cs r] by (auto simp: patch_order_def Suc_leI less_Suc_eq_le)
next
  case 3
  then show ?case by (auto simp: patch_order_def dest: copy_block_less)
next
  case 4
  then show ?case by (auto simp: patch_order_def block_info_def dest!: wb_source_text dest: copy_block_less)
next
  case 5
  then show ?case by (auto simp: patch_order_def block_info_def dest!: wb_source_text dest: copy_block_less2)
next
  case (6 al tree ix info ret st c msg r a x y xa ya)
  have t: "length r < length (pi_rest info)" "braces r \<le> braces (pi_rest info)"
    using scan_item_tag [of "pi_fh info" "pi_rest info" c msg r] 6(1) by simp_all
  have h: "a = (x, xa, ya)" using 6(3,4) by simp
  note eq = 6(2) [unfolded h]
  have "length (pi_rest xa) < length (pi_rest info) \<and> braces (pi_rest xa) \<le> braces (pi_rest info)"
  proof (cases "strncmp msg ''$arraystart:'' 12 = 0")
    case True
    obtain e w r1 where cb: "copy_block al array_kind True (pi_fh info) 1 wb_empty r = (e, w, r1)" by (metis prod_cases3)
    from eq True cb have "pi_rest xa \<in> {r, r1}" by (auto simp: bind_eq_Some_conv split: option.splits)
    with t copy_block_less [OF cb [symmetric, simplified] 6(1)] show ?thesis by auto
  next
    case False
    note na = False
    show ?thesis
    proof (cases "strncmp msg ''$if'' 3 = 0")
      case True
      from eq True na obtain res where res: "do_if_condition al tree (pi_current info) (g_var st) (drop 3 msg) = Some res"
        by (auto simp: bind_eq_Some_conv)
      obtain e w r1 where cb: "copy_block al if_kind (res \<noteq> 0) (pi_fh info) 1 wb_empty r = (e, w, r1)" by (metis prod_cases3)
      obtain e2 w2 r2 where cb2: "copy_block al else_kind (res = 0) (pi_fh info) 1 w r1 = (e2, w2, r2)" by (metis prod_cases3)
      from eq True na res cb cb2 have "pi_rest xa \<in> {r1, r2}" by (auto simp: bind_eq_Some_conv split: if_splits)
      with copy_block_less [OF cb [symmetric, simplified] 6(1)]
        copy_block_less2 [OF cb2 [symmetric, simplified] cb [symmetric, simplified] 6(1)] show ?thesis by auto
    next
      case False
      with eq na have "pi_rest xa = r" by (auto simp: bind_eq_Some_conv split: if_splits)
      with t show ?thesis by simp
    qed
  qed
  then show ?case by (auto simp: patch_order_def)
next
  case 7
  then show ?case by (auto simp: patch_order_def block_info_def dest!: wb_source_text)
next
  case 8
  then show ?case by (auto simp: patch_order_def dest: sibling_measure)
qed

declare do_patch.simps [simp del] patch_ids.simps [simp del]

subsection \<open>The three entry points\<close>

definition start_patch :: "patch_state \<Rightarrow> patch_state" where
  "start_patch st = st\<lparr>g_var := replicate 10 0\<rparr>"

definition end_patch :: "patch_state \<Rightarrow> patch_state" where
  "end_patch st = buffer_flush (buffer_putc NUL st)"

text \<open>\<open>file\<close> is the template, or \<open>None\<close> when it cannot be opened: then nothing at all is written.\<close>

definition xmldb_patch_file ::
    "alloc \<Rightarrow> xml_node \<Rightarrow> u32 \<Rightarrow> char list option \<Rightarrow> patch_state \<Rightarrow> (int \<times> patch_state) option" where
  "xmldb_patch_file al tree flags file st = (case file of
       None \<Rightarrow> Some (-1, start_patch st)
     | Some fh \<Rightarrow> do {
         (ret, st1) \<leftarrow> do_patch al tree 0
           \<lparr>pi_flags = flags, pi_current = Some [], pi_max = 0, pi_fh = True, pi_rest = fh\<rparr> 0 (start_patch st);
         Some (ret, end_patch st1) })"

definition xmldb_patch_message ::
    "alloc \<Rightarrow> xml_node \<Rightarrow> ptr option \<Rightarrow> u32 \<Rightarrow> char list \<Rightarrow> patch_state \<Rightarrow> (int \<times> patch_state) option" where
  "xmldb_patch_message al tree root flags msg st = do {
     (ret, st1) \<leftarrow> do_mapping al tree (block_info flags root 0 []) msg 0 (start_patch st);
     Some (ret, end_patch st1) }"

text \<open>\<open>input\<close> is what \<^verbatim>\<open>read\<close> stores, \<open>None\<close> its failure: the size -1 makes the buffer endless.\<close>

definition xmldb_patch_buffer ::
    "alloc \<Rightarrow> xml_node \<Rightarrow> u32 \<Rightarrow> nat \<Rightarrow> char list option \<Rightarrow> patch_state \<Rightarrow> (int \<times> patch_state) option" where
  "xmldb_patch_buffer al tree flags len input st =
     (if al len then do {
        t \<leftarrow> input;
        (_, st1) \<leftarrow> do_patch al tree 0 (block_info flags (Some []) 0 t) 0 (start_patch st);
        Some (int (length t), end_patch st1) }
      else Some (0, start_patch st))"

subsection \<open>Output\<close>

text \<open>Everything put into the buffer so far.\<close>

definition sent :: "patch_state \<Rightarrow> char list" where
  "sent st = concat (ob_written st) @ ob_chars st"

definition ob_ok :: "patch_state \<Rightarrow> bool" where
  "ob_ok st \<longleftrightarrow> length (ob_chars st) < 1024"

lemma buffer_putc_props:
  assumes "ob_ok st"
  shows "ob_ok (buffer_putc c st)" "sent (buffer_putc c st) = sent st @ [c]" "g_var (buffer_putc c st) = g_var st"
  using assms by (auto simp: ob_ok_def buffer_putc_def buffer_flush_def sent_def Let_def)

lemma put_all_props:
  assumes "ob_ok st"
  shows "ob_ok (put_all cs st) \<and> sent (put_all cs st) = sent st @ cs \<and> g_var (put_all cs st) = g_var st"
  using assms
proof (induction cs arbitrary: st)
  case (Cons c cs)
  from Cons(1) [OF buffer_putc_props(1) [OF Cons(2)]] buffer_putc_props [OF Cons(2)] show ?case
    by (simp add: put_all_def)
qed (simp add: put_all_def)

lemma put_all_append: "put_all (cs @ ds) st = put_all ds (put_all cs st)"
  by (simp add: put_all_def)

lemma put_all_Nil [simp]: "put_all [] st = st"
  by (simp add: put_all_def)

lemma g_var_put_all [simp]: "g_var (put_all cs st) = g_var st"
  unfolding put_all_def
  by (induction cs arbitrary: st) (auto simp: buffer_putc_def buffer_flush_def Let_def)

lemma end_patch_props:
  "ob_ok st \<Longrightarrow> ob_chars (end_patch st) = [] \<and> sent (end_patch st) = sent st @ [NUL]"
  using buffer_putc_props [of st NUL] by (simp add: end_patch_def buffer_flush_def sent_def)

subsection \<open>Calculations\<close>

lemma strncmp_zero: "strncmp a b n = 0 \<longleftrightarrow> take n a = take n b"
  by (simp add: strncmp_def strcmp_zero)

lemma hd_dropWhile_not: "dropWhile P s \<noteq> [] \<Longrightarrow> \<not> P (hd (dropWhile P s))"
  by (rule hd_dropWhile)

lemma eatwhite_idem [simp]: "xmldb_eatwhite (xmldb_eatwhite s) = xmldb_eatwhite s"
  by (simp add: xmldb_eatwhite_def dropWhile_idem)

text \<open>The loop of \<^verbatim>\<open>do_calculate\<close> for a number of rounds: \<open>None\<close> is a fault, and it is running as long as there is a rest. The loop
  returns exactly when a number of rounds uses the string up; when it neither faults nor does so, it runs for ever.\<close>

fun calc_rounds :: "int list \<Rightarrow> int \<Rightarrow> int \<Rightarrow> nat \<Rightarrow> int \<Rightarrow> char list \<Rightarrow> (int \<times> char list) option" where
  "calc_rounds vars ix mx 0 v cs = Some (v, cs)"
| "calc_rounds vars ix mx (Suc n) v cs =
     (if cs = [] then Some (v, cs) else do { (v', r) \<leftarrow> calc_round vars ix mx v cs; calc_rounds vars ix mx n v' r })"

lemma do_calculate_rounds: "do_calculate vars ix mx v cs = Some w \<longleftrightarrow> (\<exists>n. calc_rounds vars ix mx n v cs = Some (w, []))"
proof
  assume "do_calculate vars ix mx v cs = Some w"
  then show "\<exists>n. calc_rounds vars ix mx n v cs = Some (w, [])"
  proof (rule do_calculate.raw_induct [rotated], goal_cases)
    case (1 f vars ix mx v cs w)
    show ?case
    proof (cases "cs = []")
      case False
      with 1(2) obtain v' r where r: "calc_round vars ix mx v cs = Some (v', r)" "f vars ix mx v' r = Some w" by (auto simp: bind_Some_iff)
      from 1(1) [OF r(2)] obtain n where "calc_rounds vars ix mx n v' r = Some (w, [])" by blast
      with r(1) False show ?thesis by (intro exI [of _ "Suc n"]) simp
    qed (use 1(2) in \<open>auto intro: exI [of _ 0]\<close>)
  qed
next
  assume "\<exists>n. calc_rounds vars ix mx n v cs = Some (w, [])"
  then obtain n where "calc_rounds vars ix mx n v cs = Some (w, [])" by blast
  then show "do_calculate vars ix mx v cs = Some w"
  proof (induction n arbitrary: v cs)
    case 0
    then show ?case by (subst do_calculate.simps) simp
  next
    case (Suc n)
    then show ?case by (subst do_calculate.simps) (auto simp: bind_Some_iff split: if_splits)
  qed
qed

text \<open>A calculation that comes to a character that starts no operator goes round and round.\<close>

lemma calc_rounds_stuck:
  assumes "s \<noteq> []" and "xmldb_eatwhite s = s" and "calc_op_at s = None"
  shows "calc_rounds vars ix mx n v s = Some (v, s)"
  using assms by (induction n) (simp_all add: calc_round_def)

lemma wrap_int_id: "- (2 ^ 31) \<le> i \<Longrightarrow> i < 2 ^ 31 \<Longrightarrow> wrap_int i = i"
  unfolding wrap_int_def by (rule signed_take_bit_int_eq_self) simp_all

lemma wrap_int_step: "wrap_int (wrap_int a * 10 + d) = wrap_int (10 * a + d)"
proof -
  have "wrap_int (wrap_int a * 10) = wrap_int (a * 10)"
    unfolding wrap_int_def by (metis signed_take_bit_mult signed_take_bit_signed_take_bit min.idem)
  then have "wrap_int (wrap_int a * 10 + d) = wrap_int (a * 10 + d)"
    unfolding wrap_int_def by (metis signed_take_bit_add)
  then show ?thesis by (simp add: mult.commute)
qed

lemma readnum_digits: "foldl (\<lambda>i d. wrap_int (i * 10 + (uchar d - 48))) 0 ds = wrap_int (digits_value ds)"
proof -
  have "foldl (\<lambda>i d. wrap_int (i * 10 + (uchar d - 48))) (wrap_int a) ds =
      wrap_int (foldl (\<lambda>n d. 10 * n + (uchar d - 48)) a ds)" for a
    by (induction ds arbitrary: a) (simp_all add: wrap_int_step)
  from this [of 0] show ?thesis by (simp add: digits_value_def wrap_int_def)
qed

lemma isdigit_neq: "isdigit d \<Longrightarrow> d \<notin> set ''#@v+-*/%=!<> ''" "isdigit d \<Longrightarrow> \<not> IS_WHITE d"
  by (auto simp: isdigit_def uchar_def IS_WHITE_def)

lemma readnum_decimal:
  assumes "n < 2 ^ 31" and "r = [] \<or> \<not> isdigit (hd r)"
  shows "readnum vars ix mx (decimal n @ r) = Some (int n, r)"
proof -
  obtain c ds where c: "decimal n = c # ds" using decimal_digits [of n] by (cases "decimal n") auto
  with decimal_digits [of n] isdigit_neq(1) [of c] have "c \<notin> {CHR ''#'', CHR ''@'', CHR ''v''}" by auto
  then have "\<not> strncmp (decimal n @ r) ''var'' 3 = 0" and "c \<noteq> CHR ''#''" "c \<noteq> CHR ''@''"
    by (auto simp: strncmp_zero c)
  moreover have "takeWhile isdigit (decimal n @ r) = decimal n" "dropWhile isdigit (decimal n @ r) = r"
    using decimal_digits [of n] assms(2) by (auto simp: takeWhile_append dropWhile_append takeWhile_eq_Nil_iff dropWhile_eq_self_iff)
  ultimately show ?thesis
    using decimal_digits [of n] assms(1) by (simp add: readnum_def c [symmetric] readnum_digits wrap_int_id) (simp add: c)
qed

text \<open>Expressions as they are written: an operator and a number, again and again.\<close>

fun show_op :: "calc_op \<Rightarrow> char list" where
  "show_op Op_eq = ''==''" | "show_op Op_ne = ''!=''" | "show_op Op_ge = ''>=''" | "show_op Op_le = ''<=''"
| "show_op Op_add = ''+''" | "show_op Op_sub = ''-''" | "show_op Op_mul = ''*''" | "show_op Op_div = ''/''"
| "show_op Op_mod = ''%''" | "show_op Op_gt = ''>''" | "show_op Op_lt = ''<''"

fun show_terms :: "(calc_op \<times> nat) list \<Rightarrow> char list" where
  "show_terms [] = []"
| "show_terms ((p, n) # ts) = show_op p @ decimal n @ show_terms ts"

fun calc_terms :: "int \<Rightarrow> (calc_op \<times> nat) list \<Rightarrow> int option" where
  "calc_terms v [] = Some v"
| "calc_terms v ((p, n) # ts) = do { v' \<leftarrow> calc_apply p v (int n); calc_terms v' ts }"

lemma calc_op_at_show:
  assumes "isdigit d"
  shows "calc_op_at (show_op p @ d # s) = Some (p, length (show_op p))"
  using isdigit_neq(1) [OF assms] by (cases p) (auto simp: calc_op_at_def arith_op_def strncmp_zero)

lemma show_op_hd: "\<not> IS_WHITE (hd (show_op p))" "\<not> isdigit (hd (show_op p))" "show_op p \<noteq> []"
  by (cases p; simp add: IS_WHITE_def isdigit_def uchar_def)+

lemma eatwhite_black: "s = [] \<or> \<not> IS_WHITE (hd s) \<Longrightarrow> xmldb_eatwhite s = s"
  by (cases s) (auto simp: xmldb_eatwhite_def)

text \<open>A calculation returns and is done strictly from left to right, without precedence: what a tag such as
  \<^verbatim>\<open>%node+1-2*3/4==0\<close> gives is the value of the node changed by each operator and number in turn, with sums, differences
  and products modulo two to the 32; the only failure is the remainder by zero.\<close>

theorem calculation_left_to_right:
  assumes "\<forall>(p, n)\<in>set ts. n < 2 ^ 31"
  shows "do_calculate vars ix mx v (show_terms ts) = calc_terms v ts"
  using assms
proof (induction ts arbitrary: v)
  case Nil
  show ?case by (subst do_calculate.simps) simp
next
  case (Cons t ts)
  obtain p n where t: "t = (p, n)" by fastforce
  obtain d ds where d: "decimal n = d # ds" "isdigit d" using decimal_digits [of n] by (cases "decimal n") auto
  have "show_terms ts = [] \<or> \<not> isdigit (hd (show_terms ts))"
    using show_op_hd by (cases ts rule: show_terms.cases) auto
  then have r: "readnum vars ix mx (decimal n @ show_terms ts) = Some (int n, show_terms ts)"
    using Cons(2) t by (intro readnum_decimal) auto
  have w: "xmldb_eatwhite (show_op p @ decimal n @ show_terms ts) = show_op p @ decimal n @ show_terms ts"
    "xmldb_eatwhite (decimal n @ show_terms ts) = decimal n @ show_terms ts"
    using show_op_hd(1,3) isdigit_neq(2) [OF d(2)] d(1) by (auto intro!: eatwhite_black)
  have o: "calc_op_at (show_op p @ decimal n @ show_terms ts) = Some (p, length (show_op p))"
    using calc_op_at_show [OF d(2), of p "ds @ show_terms ts"] d(1) by simp
  have s: "show_terms (t # ts) = show_op p @ decimal n @ show_terms ts" by (simp add: t)
  show ?case
    unfolding s using Cons show_op_hd(3) [of p]
    by (subst do_calculate.simps) (simp add: calc_round_def w o r t)
qed

theorem calculation_left_to_right_witness:
  "do_calculate [] 0 0 7 ''+1-2*3/4==4'' = Some 1 \<and> do_calculate [] 0 0 1 ''%0'' = None"
proof -
  have "show_terms [(Op_add, 1), (Op_sub, 2), (Op_mul, 3), (Op_div, 4), (Op_eq, 4)] = ''+1-2*3/4==4''"
    "show_terms [(Op_mod, 0)] = ''%0''"
    by (code_simp, code_simp)
  with calculation_left_to_right [of "[(Op_add, 1), (Op_sub, 2), (Op_mul, 3), (Op_div, 4), (Op_eq, 4)]" "[]" 0 0 7]
    calculation_left_to_right [of "[(Op_mod, 0)]" "[]" 0 0 1]
  show ?thesis by (simp add: wrap_int_id)
qed

text \<open>C35: The value of a tag \<open>%a/b\<close> whose first segment \<open>a\<close> has fewer than 80 characters, no operator among them, and is read
  without a fault (it is neither the index nor a variable), and whose rest \<open>b\<close> starts with a character that belongs to no number,
  index, variable, operator or blank, and does not end with \<open>#\<close>: the slash is taken for a division, and the loop of the
  calculation never ends. After the first round it comes back to the same value and the same rest \<open>b\<close> again and again, without
  a fault and however many rounds are made, so that neither the calculation nor the tag ever has a result.\<close>

theorem path_calculation_hangs:
  assumes "a \<noteq> []" and "length a < 80" and "\<forall>c\<in>set a. c \<notin> set ''+-*/%><=!''" and "a \<noteq> ''#''" and "strncmp a ''var'' 3 \<noteq> 0"
    and "xmldb_get_value al cur a tree = Some t"
    and "b \<noteq> []" and "hd b \<notin> set ''#@''" and "\<not> isdigit (hd b)" and "strncmp b ''var'' 3 \<noteq> 0" and "\<not> IS_WHITE (hd b)" and "calc_op_at b = None"
    and "last b \<noteq> CHR ''#''"
  shows "mapping_value al tree cur ix mx vars lead (''%'' @ a @ ''/'' @ b) = map_option itoa (do_calculate vars ix mx (atoi t) (''/'' @ b)) \<and>
    (\<forall>n. calc_rounds vars ix mx (Suc n) (atoi t) (''/'' @ b) = Some (atoi t, b)) \<and>
    do_calculate vars ix mx (atoi t) (''/'' @ b) = None"
proof -
  have n: "get_node_from_cstring 80 (a @ CHR ''/'' # b) = Some (a, CHR ''/'' # b)"
    using assms(2,3) by (simp add: get_node_from_cstring_def Let_def takeWhile_append)
  have m: "mapping_value al tree cur ix mx vars lead (''%'' @ a @ ''/'' @ b) = map_option itoa (do_calculate vars ix mx (atoi t) (''/'' @ b))"
    using n assms(1,4-7,13) by (simp add: mapping_value_def)
  obtain h r where b: "b = h # r" using assms(7) by (cases b) auto
  have num: "readnum vars ix mx b = Some (0, b)"
    using assms(8-10) b by (simp add: readnum_def)
  have w: "xmldb_eatwhite (CHR ''/'' # b) = CHR ''/'' # b" "xmldb_eatwhite b = b" "calc_op_at (CHR ''/'' # b) = Some (Op_div, 1)"
    using assms(11) by (auto intro!: eatwhite_black simp: IS_WHITE_def calc_op_at_def arith_op_def strncmp_zero)
  have c: "calc_rounds vars ix mx (Suc k) (atoi t) (''/'' @ b) = Some (atoi t, b)" for k
    using num w calc_rounds_stuck [OF assms(7) w(2) assms(12)] by (simp add: calc_round_def)
  have "\<nexists>k. calc_rounds vars ix mx k (atoi t) (''/'' @ b) = Some (y, [])" for y
  proof (rule notI, elim exE)
    fix k assume "calc_rounds vars ix mx k (atoi t) (''/'' @ b) = Some (y, [])"
    with c assms(7) show False by (cases k) simp_all
  qed
  then have "do_calculate vars ix mx (atoi t) (''/'' @ b) = None"
    using do_calculate_rounds [of vars ix mx "atoi t" "''/'' @ b"] by (cases "do_calculate vars ix mx (atoi t) (''/'' @ b)") auto
  with m c show ?thesis by simp
qed

theorem path_calculation_hangs_witness:
  "let tree = Xml_node 0 [] None None [Xml_node 0 ''wan'' (Some ''6'') None []] in
   mapping_value (\<lambda>_. True) tree None 0 0 (replicate 10 0) False ''%wan/mode+1'' = None \<and>
   calc_rounds (replicate 10 0) 0 0 1000000 6 ''/mode+1'' = Some (6, ''mode+1'')"
proof -
  let ?tree = "Xml_node 0 [] None None [Xml_node 0 ''wan'' (Some ''6'') None []]"
  have "xmldb_get_value (\<lambda>_. True) None ''wan'' ?tree = Some ''6''" "atoi ''6'' = 6" "strncmp ''wan'' ''var'' 3 \<noteq> 0" "strncmp ''mode+1'' ''var'' 3 \<noteq> 0" "calc_op_at ''mode+1'' = None"
    by (code_simp, code_simp, code_simp, code_simp, code_simp)
  moreover have "Suc 999999 = 1000000" by simp
  ultimately show ?thesis
    using path_calculation_hangs [of "''wan''" "\<lambda>_. True" None ?tree "''6''" "''mode+1''" 0 0 "replicate 10 0" False]
    by (simp add: isdigit_def uchar_def IS_WHITE_def del: calc_rounds.simps) (metis \<open>Suc 999999 = 1000000\<close>)
qed


subsection \<open>Conditions\<close>

definition is_word :: "char list \<Rightarrow> bool" where
  "is_word w \<longleftrightarrow> w \<noteq> [] \<and> hd w \<noteq> QUOT \<and> (\<forall>c\<in>set w. \<not> IS_WHITE c) \<and> length w \<le> 255"

lemma read_word:
  assumes "is_word w" and "r = [] \<or> IS_WHITE (hd r)"
  shows "read_string (w @ r) NUL = (w, r)"
proof -
  obtain c t where w: "w = c # t" using assms(1) by (cases w) (auto simp: is_word_def)
  have "takeWhile (\<lambda>c. \<not> IS_WHITE c) (w @ r) = w" "dropWhile (\<lambda>c. \<not> IS_WHITE c) (w @ r) = r"
    using assms by (auto simp: is_word_def takeWhile_append dropWhile_append takeWhile_eq_Nil_iff dropWhile_eq_self_iff)
  with assms(1) w show ?thesis by (simp add: read_string_def is_word_def Let_def)
qed

lemma eatwhite_word: "is_word w \<Longrightarrow> xmldb_eatwhite (w @ r) = w @ r" "xmldb_eatwhite (CHR '' '' # s) = xmldb_eatwhite s"
  by (rule eatwhite_black) (auto simp: is_word_def hd_append, simp add: xmldb_eatwhite_def IS_WHITE_def)

lemma reatwhite_black: "s \<noteq> [] \<Longrightarrow> \<not> IS_WHITE (last s) \<Longrightarrow> xmldb_reatwhite s = s"
  by (cases s rule: rev_cases) (auto simp: xmldb_reatwhite_def)

lemma trim_space:
  assumes "s \<noteq> []" and "\<not> IS_WHITE (hd s)" and "\<not> IS_WHITE (last s)"
  shows "xmldb_eatwhite (xmldb_reatwhite s) = s" "xmldb_eatwhite (xmldb_reatwhite (CHR '' '' # s)) = s"
proof -
  have r: "xmldb_reatwhite (xs @ s) = xs @ s" for xs
    using assms(1,3) by (intro reatwhite_black) simp_all
  from r [of "[]"] r [of "'' ''"] assms(1,2) show "xmldb_eatwhite (xmldb_reatwhite s) = s"
    "xmldb_eatwhite (xmldb_reatwhite (CHR '' '' # s)) = s"
    by (auto simp: eatwhite_word(2) eatwhite_black)
qed

text \<open>A single comparison of the form \<^verbatim>\<open>entry op operand\<close>.\<close>

lemma if_condition_one:
  assumes "\<forall>n. al n" and "is_word e" and "is_word p" and "q \<noteq> []" and "\<not> IS_WHITE (hd q)" and "\<not> IS_WHITE (last q)"
    and "read_string q NUL = (v, [])"
  shows "do_if_condition al tree root vars (CHR '' '' # e @ CHR '' '' # p @ CHR '' '' # q) =
    (if hd e = CHR ''%'' then None
     else Option.bind (string_condition al tree root vars e p v) (\<lambda>c. Some (of_bool (c = Some True))))"
proof -
  let ?s = "e @ CHR '' '' # p @ CHR '' '' # q"
  have e: "e \<noteq> []" "\<not> IS_WHITE (hd ?s)" "p \<noteq> []"
    using assms(2,3) by (auto simp: is_word_def hd_append)
  have t: "xmldb_eatwhite (xmldb_reatwhite (CHR '' '' # ?s)) = ?s"
    using e assms(4,6) by (intro trim_space) (auto simp: last_append)
  have d: "strdup al x = Some x" for x using assms(1) by (simp add: strdup_def)
  have w: "IS_WHITE (CHR '' '')" by (simp add: IS_WHITE_def)
  have 1: "read_string (xmldb_eatwhite ?s) NUL = (e, CHR '' '' # p @ CHR '' '' # q)"
    using read_word [OF assms(2), of "CHR '' '' # p @ CHR '' '' # q"] w by (simp add: eatwhite_word assms(2))
  have 2: "read_string (xmldb_eatwhite (CHR '' '' # p @ CHR '' '' # q)) NUL = (p, CHR '' '' # q)"
    using read_word [OF assms(3), of "CHR '' '' # q"] w by (simp add: eatwhite_word assms(3))
  have 3: "read_string (xmldb_eatwhite (CHR '' '' # q)) NUL = (v, [])"
    using assms(4,5,7) by (simp add: eatwhite_word(2) eatwhite_black)
  have n: "strncmp (xmldb_eatwhite []) ''&&'' 2 \<noteq> 0" "strncmp (xmldb_eatwhite []) ''||'' 2 \<noteq> 0"
    by (simp_all add: strncmp_zero xmldb_eatwhite_def)
  show ?thesis
    unfolding do_if_condition_def d option.case t
    by (subst condition_loop.simps) (auto simp: 1 2 3 d n e split: bind_split option.split)
qed

lemma is_word_simps:
  "is_word [c, d] \<longleftrightarrow> c \<noteq> QUOT \<and> \<not> IS_WHITE c \<and> \<not> IS_WHITE d"
  by (auto simp: is_word_def)

text \<open>A condition that compares numbers makes the interpreter release a pointer that was not allocated, whatever is
  compared: the pointer to the name is moved behind the percent sign first.\<close>

theorem numeric_condition_faults:
  assumes "\<forall>n. al n" and "is_word (CHR ''%'' # e)" and "is_word p" and "is_word v"
  shows "do_if_condition al tree root vars ('' '' @ (CHR ''%'' # e) @ '' '' @ p @ '' '' @ v) = None"
proof -
  have "v \<noteq> []" "\<not> IS_WHITE (hd v)" "\<not> IS_WHITE (last v)" using assms(4) by (auto simp: is_word_def)
  with if_condition_one [OF assms(1,2,3) this] read_word [OF assms(4), of "[]"] show ?thesis by simp
qed

theorem numeric_condition_faults_witness:
  "do_if_condition (\<lambda>_. True) (Xml_node 0 [] None None []) None (replicate 10 0) '' %mode <= 1'' = None"
  using numeric_condition_faults [of "\<lambda>_. True" "''mode''" "''<=''" "''1''"] by (simp add: is_word_def IS_WHITE_def)

lemma get_var_digit:
  assumes "isdigit c" and "length vars = 10"
  shows "get_var vars (Some c) = Some (vars ! nat (uchar c - 48))"
proof -
  have "0 \<le> uchar c - 48" "uchar c - 48 < 10" "schar c = uchar c" using assms(1) by (auto simp: isdigit_def schar_def)
  moreover from this have "var_index c = uchar c - 48"
    by (simp add: var_index_def signed_modulo_int_def sgn_if)
  ultimately show ?thesis using assms(2) by (simp add: get_var_def)
qed

text \<open>A condition that compares two variables compares the first one with itself: it always holds, whatever the
  variables are.\<close>

theorem variable_condition_holds:
  assumes "\<forall>n. al n" and "length vars = 10" and "isdigit i" and "isdigit j"
  shows "do_if_condition al tree root vars ('' var'' @ [i] @ '' == var'' @ [j]) = Some 1"
proof -
  have w: "is_word (''var'' @ [c])" "\<not> IS_WHITE c" if "isdigit c" for c
    using isdigit_neq(2) [OF that] by (auto simp: is_word_def IS_WHITE_def)
  have "is_word ''==''" by (simp add: is_word_def IS_WHITE_def)
  note c = if_condition_one [OF assms(1) w(1) [OF assms(3)] this, of "''var'' @ [j]" "''var'' @ [j]"]
  have "char_at (''var'' @ [i]) 3 = Some i" by (simp add: char_at_def)
  then have "string_condition al tree root vars (''var'' @ [i]) ''=='' (''var'' @ [j]) = Some (Some True)"
    using get_var_digit [OF assms(3,2)] by (simp add: string_condition_def strncmp_zero strcmp_zero)
  with c read_word [OF w(1) [OF assms(4)], of "[]"] w(2) [OF assms(4)] show ?thesis by (simp add: IS_WHITE_def)
qed

theorem variable_condition_holds_witness:
  "do_if_condition (\<lambda>_. True) (Xml_node 0 [] None None []) None [0, 1, 2, 3, 4, 5, 6, 7, 8, 9] '' var0 == var3'' = Some 1"
  using variable_condition_holds [of "\<lambda>_. True" "[0, 1, 2, 3, 4, 5, 6, 7, 8, 9]" "CHR ''0''" "CHR ''3''"]
  by (simp add: isdigit_def uchar_def)

text \<open>An empty tag reads the byte before its buffer.\<close>

lemma empty_tag_faults: "\<forall>n. al n \<Longrightarrow> do_mapping al tree info [] ix st = None"
  by (simp add: do_mapping_def strdup_def xmldb_eatwhite_def xmldb_reatwhite_def mapping_value_def Let_def)


end
