(* ===== verification/Xmldb_Template.thy ===== *)
theory Xmldb_Template
  imports Xmldb_Patch
begin

text \<open>
  What templates mean. A template is a list of pieces: text, values of nodes, the number of the current array entry,
  conditional blocks and array blocks. \<open>print_tmpl\<close> writes a template the way the files of the firmware have it,
  \<open>render\<close> is its meaning on a tree, and the interpreter of \<^verbatim>\<open>patch.c\<close> is shown to compute it, for blocks nested in
  any way.
\<close>

datatype tmpl =
    Text "char list"
  | Value "char list"
  | Index
  | If_block bool "char list" "char list" "tmpl list" "tmpl list"
  | Array_block "char list" "tmpl list"

definition quote_value :: "char list \<Rightarrow> char list" where
  "quote_value v = QUOT # concat (map (\<lambda>c. if c = QUOT \<or> c = CHR 0x5C then [CHR 0x5C, c] else [c]) v) @ [QUOT]"

definition if_tag :: "bool \<Rightarrow> char list \<Rightarrow> char list \<Rightarrow> char list" where
  "if_tag eq p v = ''$if '' @ p @ '' '' @ (if eq then ''=='' else ''!='') @ '' '' @ quote_value v"

definition array_tag :: "char list \<Rightarrow> char list" where
  "array_tag p = ''$arraystart:'' @ p"

definition tag :: "char list \<Rightarrow> char list" where
  "tag msg = ''{{'' @ msg @ ''}}''"

fun print_tmpl :: "tmpl \<Rightarrow> char list" where
  "print_tmpl (Text s) = s"
| "print_tmpl (Value p) = tag p"
| "print_tmpl Index = tag ''#''"
| "print_tmpl (If_block eq p v a b) =
     tag (if_tag eq p v) @ concat (map print_tmpl a) @ tag ''$else'' @ concat (map print_tmpl b) @ tag ''$fi''"
| "print_tmpl (Array_block p d) = tag (array_tag p) @ concat (map print_tmpl d) @ tag ''$arrayend''"

abbreviation print_all :: "tmpl list \<Rightarrow> char list" where
  "print_all ts \<equiv> concat (map print_tmpl ts)"

subsection \<open>Meaning\<close>

definition escaped :: "u32 \<Rightarrow> char list \<Rightarrow> char list" where
  "escaped flags v = (if flags AND RGDB_ESCAPE_JS \<noteq> 0
     then concat (map (\<lambda>c. if c = CHR 0x22 \<or> c = CHR ''$'' \<or> c = CHR 0x5C then [CHR 0x5C, c] else [c]) v) else v)"

definition value_of :: "xml_node \<Rightarrow> ptr option \<Rightarrow> char list \<Rightarrow> char list" where
  "value_of tree cur p = (case xmldb_get_value (\<lambda>_. True) cur p tree of Some v \<Rightarrow> v | None \<Rightarrow> [])"

text \<open>The entries of an array, with their numbers.\<close>

definition entries :: "xml_node \<Rightarrow> ptr option \<Rightarrow> char list \<Rightarrow> (int \<times> ptr) list" where
  "entries tree cur p = (case array_parent (\<lambda>_. True) cur p tree of
       Some (Some q, entry) \<Rightarrow> (case node_at tree q of
           Some n \<Rightarrow> map (\<lambda>i. (i, q @ [the (sibling (node_child n) entry i)])) [1..first_free (node_child n) entry 1 - 1]
         | None \<Rightarrow> [])
     | _ \<Rightarrow> [])"

fun render :: "u32 \<Rightarrow> xml_node \<Rightarrow> ptr option \<Rightarrow> int \<Rightarrow> tmpl \<Rightarrow> char list" where
  "render flags tree cur ix (Text s) = s"
| "render flags tree cur ix (Value p) = escaped flags (value_of tree cur p)"
| "render flags tree cur ix Index = escaped flags (itoa ix)"
| "render flags tree cur ix (If_block eq p v a b) =
     (if (value_of tree cur p = v) = eq then concat (map (render flags tree cur ix) a)
      else concat (map (render flags tree cur ix) b))"
| "render flags tree cur ix (Array_block p d) =
     concat (map (\<lambda>(i, q). concat (map (render flags tree (Some q) i) d)) (entries tree cur p))"

text \<open>Which templates can be written: the message of a tag fits the buffer, has no closing brace and starts and ends
  with a character that is not white space; a name does not look like something else.\<close>

definition tag_ok :: "char list \<Rightarrow> bool" where
  "tag_ok msg \<longleftrightarrow> msg \<noteq> [] \<and> length msg < 254 \<and> set msg \<inter> {CHR ''}'', NUL, CHR 0xFF} = {} \<and>
     \<not> IS_WHITE (hd msg) \<and> \<not> IS_WHITE (last msg)"

definition node_name_ok :: "char list \<Rightarrow> bool" where
  "node_name_ok p \<longleftrightarrow> p \<noteq> [] \<and> take 3 p \<noteq> ''var'' \<and> hd p \<noteq> CHR ''%''"

fun tmpl_ok :: "tmpl \<Rightarrow> bool" where
  "tmpl_ok (Text s) \<longleftrightarrow> CHR ''{'' \<notin> set s \<and> CHR 0xFF \<notin> set s"
| "tmpl_ok (Value p) \<longleftrightarrow> tag_ok p \<and> node_name_ok p \<and> hd p \<notin> {CHR ''$'', CHR ''@''} \<and> last p \<noteq> CHR ''#'' \<and> CHR '','' \<notin> set p"
| "tmpl_ok Index \<longleftrightarrow> True"
| "tmpl_ok (If_block eq p v a b) \<longleftrightarrow> tag_ok (if_tag eq p v) \<and> is_word p \<and> node_name_ok p \<and> take 3 v \<noteq> ''var'' \<and>
     list_all tmpl_ok a \<and> list_all tmpl_ok b"
| "tmpl_ok (Array_block p d) \<longleftrightarrow> tag_ok (array_tag p) \<and> list_all tmpl_ok d"

subsection \<open>Scanning what was printed\<close>

lemma tag_msg_loop_plain:
  assumes "set msg \<inter> {CHR ''}'', CHR 0xFF} = {}" and "length acc + length msg < lim"
  shows "tag_msg_loop fh lim c acc (msg @ ''}}'' @ r) = (uchar (CHR ''}''), acc @ msg, r)"
  using assms by (induction msg arbitrary: acc c) (auto simp: is_eof_def)

lemma cut_id: "NUL \<notin> set s \<Longrightarrow> cut s = s"
  by (auto simp: cut_def takeWhile_eq_all_conv)

lemma scan_tag:
  assumes "tag_ok msg"
  shows "scan_item fh (tag msg @ r) = Item_tag (uchar (CHR ''}'')) msg r"
  using assms tag_msg_loop_plain [of msg "[]" 254 fh 0 r] trim_space(1) [of msg]
  by (auto simp: scan_item_def tag_def is_eof_def read_tag_msg_def MAX_PATCH_MSG_LEN_def tag_ok_def cut_id)

lemma scan_char: "c \<noteq> CHR ''{'' \<Longrightarrow> c \<noteq> CHR 0xFF \<Longrightarrow> scan_item fh (c # r) = Item_text [c] r"
  by (simp add: scan_item_def is_eof_def)

lemma tag_ok_words: "tag_ok ''#''" "tag_ok ''$else''" "tag_ok ''$fi''" "tag_ok ''$arrayend''"
  by (simp_all add: tag_ok_def IS_WHITE_def)

subsection \<open>Copying what was printed\<close>

definition wb_ok :: "wbuf \<Rightarrow> bool" where
  "wb_ok w \<longleftrightarrow> wb_live w \<or> (wb_alloc w = 0 \<and> wb_text w = [])"

lemma pi_putc_ok:
  assumes "\<forall>n. al n" and "wb_ok w"
  shows "fst (pi_putc al w c) = 0" "wb_ok (snd (pi_putc al w c))" "wb_text (snd (pi_putc al w c)) = wb_text w @ [c]"
    "wb_live (snd (pi_putc al w c))"
  using assms by (auto simp: pi_putc_def wb_ok_def Let_def)

lemma keep_text_ok:
  assumes "\<forall>n. al n" and "wb_ok w"
  shows "wb_ok (keep_text al keep cs w) \<and> wb_text (keep_text al keep cs w) = wb_text w @ (if keep then cs else [])"
  using assms
proof (induction cs arbitrary: w)
  case (Cons c cs)
  from Cons(1) [OF Cons(2) pi_putc_ok(2) [OF Cons(2,3)]] pi_putc_ok [OF Cons(2,3)] Cons(3) show ?case
    by (cases keep) (auto simp: keep_text_def)
qed (auto simp: keep_text_def)

lemma keep_text_append: "keep_text al keep (cs @ ds) w = keep_text al keep ds (keep_text al keep cs w)"
  by (simp add: keep_text_def)

lemma keep_tag_text:
  assumes "\<forall>n. al n" and "wb_ok w"
  shows "keep_tag al keep msg w = keep_text al keep (tag msg) w"
proof -
  have "snd (pi_puts al w cs) = fold (\<lambda>c w. snd (pi_putc al w c)) cs w" if "wb_ok w" for cs w
    using that
  proof (induction cs arbitrary: w)
    case (Cons c cs)
    from pi_putc_ok [OF assms(1) Cons(2), of c] Cons(1) [of "snd (pi_putc al w c)"] show ?case
      by (cases "pi_putc al w c") auto
  qed simp
  from this [OF assms(2), of "tag msg"] show ?thesis
    unfolding keep_tag_def keep_text_def pi_puttag_def tag_def [symmetric] by simp
qed

lemma wb_source_ok: "wb_ok w \<Longrightarrow> wb_source w = Some (wb_text w)"
  by (auto simp: wb_source_def wb_ok_def)

lemma copy_text:
  assumes "CHR ''{'' \<notin> set s" "CHR 0xFF \<notin> set s"
  shows "copy_block al kind keep fh level w (s @ r) = copy_block al kind keep fh level (keep_text al keep s w) r"
  using assms
proof (induction s arbitrary: w)
  case (Cons c s)
  then have "copy_block al kind keep fh level w ((c # s) @ r) = copy_block al kind keep fh level (keep_text al keep [c] w) (s @ r)"
    using scan_char [of c fh "s @ r"] by (subst copy_block.simps) auto
  with Cons keep_text_append [of al keep "[c]" s w] show ?case by simp
qed (simp add: keep_text_def)

lemma copy_tag:
  assumes "\<forall>n. al n" and "wb_ok w" and "tag_ok msg" and "\<not> (kind msg \<in> {Else_tag, Closes} \<and> level = 1)"
  shows "copy_block al kind keep fh level w (tag msg @ r) =
    copy_block al kind keep fh (case kind msg of Opens \<Rightarrow> level + 1 | Closes \<Rightarrow> level - 1 | _ \<Rightarrow> level)
      (keep_text al keep (tag msg) w) r"
  using assms(4) keep_tag_text [OF assms(1,2), of keep msg]
  by (subst copy_block.simps) (auto simp: scan_tag [OF assms(3)])

text \<open>A tag that is not part of the syntax of blocks, and the kinds of the tags of blocks.\<close>

lemma kinds:
  "if_kind (if_tag eq p v) = Opens" "else_kind (if_tag eq p v) = Opens" "array_kind (if_tag eq p v) = Inner"
  "if_kind ''$else'' = Else_tag" "else_kind ''$else'' = Inner" "array_kind ''$else'' = Inner"
  "if_kind ''$fi'' = Closes" "else_kind ''$fi'' = Closes" "array_kind ''$fi'' = Inner"
  "if_kind (array_tag p) = Inner" "else_kind (array_tag p) = Inner" "array_kind (array_tag p) = Opens"
  "if_kind ''$arrayend'' = Inner" "else_kind ''$arrayend'' = Inner" "array_kind ''$arrayend'' = Closes"
  by (simp_all add: if_kind_def else_kind_def array_kind_def strncmp_zero if_tag_def array_tag_def)

lemma kind_plain:
  assumes "hd msg \<noteq> CHR ''$''" and "msg \<noteq> []" and "kind \<in> {if_kind, else_kind, array_kind}"
  shows "kind msg = Inner"
  using assms by (cases msg) (auto simp: if_kind_def else_kind_def array_kind_def strncmp_zero)

lemma copy_list:
  assumes "\<forall>n. al n" and "list_all tmpl_ok ts" and "wb_ok w" and "1 \<le> level"
    and "\<And>t w level r. t \<in> set ts \<Longrightarrow> tmpl_ok t \<Longrightarrow> wb_ok w \<Longrightarrow> 1 \<le> level \<Longrightarrow>
      copy_block al kind keep fh level w (print_tmpl t @ r) = copy_block al kind keep fh level (keep_text al keep (print_tmpl t) w) r"
  shows "copy_block al kind keep fh level w (print_all ts @ r) = copy_block al kind keep fh level (keep_text al keep (print_all ts) w) r"
  using assms(2,3,5)
proof (induction ts arbitrary: w)
  case (Cons t ts)
  have "wb_ok (keep_text al keep (print_tmpl t) w)" using keep_text_ok [OF assms(1) Cons(3)] by simp
  with Cons(1) [OF _ this] Cons(2,3,4) assms(4) show ?case by (simp add: keep_text_append)
qed (simp add: keep_text_def)

lemma copy_tmpl:
  assumes "\<forall>n. al n" and "kind \<in> {if_kind, else_kind, array_kind}" and "tmpl_ok t" and "wb_ok w" and "1 \<le> level"
  shows "copy_block al kind keep fh level w (print_tmpl t @ r) =
    copy_block al kind keep fh level (keep_text al keep (print_tmpl t) w) r"
  using assms(3-5)
proof (induction t arbitrary: w level r)
  case (Text s)
  then show ?case by (simp add: copy_text)
next
  case (Value p)
  then show ?case using kind_plain [of p kind] assms(1,2) by (simp add: copy_tag node_name_ok_def)
next
  case Index
  then show ?case using kind_plain [of "''#''" kind] assms(1,2) by (simp add: copy_tag tag_ok_words)
next
  case (If_block eq p v a b)
  let ?copy = "copy_block al kind keep fh" and ?keep = "keep_text al keep"
  have ok: "wb_ok (?keep cs w)" if "wb_ok w" for cs w using keep_text_ok [OF assms(1) that] by simp
  let ?l = "if kind = array_kind then level else level + 1"
  have t: "tag_ok (if_tag eq p v)" "list_all tmpl_ok a" "list_all tmpl_ok b" "1 \<le> ?l" using If_block.prems by auto
  have 1: "?copy level w (tag (if_tag eq p v) @ s) = ?copy ?l (?keep (tag (if_tag eq p v)) w) s" for s
    using assms(1,2) If_block.prems t(1) kinds(1-3) by (subst copy_tag) auto
  have 2: "?copy ?l w (print_all a @ s) = ?copy ?l (?keep (print_all a) w) s" if "wb_ok w" for w s
    by (rule copy_list [OF assms(1) t(2) that t(4)]) (rule If_block.IH(1))
  have 3: "?copy ?l w (tag ''$else'' @ s) = ?copy ?l (?keep (tag ''$else'') w) s" if "wb_ok w" for w s
    using assms(1,2) If_block.prems(3) tag_ok_words(2) kinds(4-6) that by (subst copy_tag) auto
  have 4: "?copy ?l w (print_all b @ s) = ?copy ?l (?keep (print_all b) w) s" if "wb_ok w" for w s
    by (rule copy_list [OF assms(1) t(3) that t(4)]) (rule If_block.IH(2))
  have 5: "?copy ?l w (tag ''$fi'' @ s) = ?copy level (?keep (tag ''$fi'') w) s" if "wb_ok w" for w s
    using assms(1,2) If_block.prems(3) tag_ok_words(3) kinds(7-9) that by (subst copy_tag) auto
  show ?case
    using If_block.prems(2) by (simp add: 1 2 3 4 5 ok keep_text_append)
next
  case (Array_block p d)
  let ?copy = "copy_block al kind keep fh" and ?keep = "keep_text al keep"
  have ok: "wb_ok (?keep cs w)" if "wb_ok w" for cs w using keep_text_ok [OF assms(1) that] by simp
  let ?l = "if kind = array_kind then level + 1 else level"
  have t: "tag_ok (array_tag p)" "list_all tmpl_ok d" "1 \<le> ?l" using Array_block.prems by auto
  have 1: "?copy level w (tag (array_tag p) @ s) = ?copy ?l (?keep (tag (array_tag p)) w) s" for s
    using assms(1,2) Array_block.prems t(1) kinds(10-12) by (subst copy_tag) auto
  have 2: "?copy ?l w (print_all d @ s) = ?copy ?l (?keep (print_all d) w) s" if "wb_ok w" for w s
    by (rule copy_list [OF assms(1) t(2) that t(3)]) (rule Array_block.IH)
  have 3: "?copy ?l w (tag ''$arrayend'' @ s) = ?copy level (?keep (tag ''$arrayend'') w) s" if "wb_ok w" for w s
    using assms(1,2) Array_block.prems(3) tag_ok_words(4) kinds(13-15) that by (subst copy_tag) auto
  show ?case
    using Array_block.prems(2) by (simp add: 1 2 3 ok keep_text_append )
qed

subsection \<open>Lookups that create nothing\<close>

lemma find_step_lookup:
  assumes "node_at t root \<noteq> None" and "valid_ptr t target"
  shows "\<exists>q. find_step al False seg root target t = Some (q, t) \<and> valid_ptr t q"
proof -
  obtain n where n: "node_at t root = Some n" using assms(1) by blast
  obtain name i where s: "split_id seg = (name, i)" by fastforce
  show ?thesis
  proof (cases "find_pos (same_key name i) (node_child n)")
    case None
    with n s assms(2) show ?thesis
      by (auto simp: find_step_def xmldb_find_sibling_def valid_ptr_def update_at_id)
  next
    case (Some k)
    with n s find_pos_Some [OF Some] show ?thesis
      by (auto simp: find_step_def xmldb_find_sibling_def valid_ptr_def update_at_id node_at_append)
  qed
qed

lemma find_loop_lookup:
  assumes "node_at t root \<noteq> None" and "valid_ptr t target"
  shows "\<exists>q. find_loop al False path root target t = Some (q, t) \<and> valid_ptr t q"
  using assms
proof (induction path arbitrary: root target rule: path_induct)
  case (Dot path)
  then show ?case by (simp add: find_loop_dot valid_ptr_def)
next
  case (Seg path)
  from find_step_lookup [OF Seg.prems, of al "first_seg path"] obtain q where
    "find_step al False (first_seg path) root target t = Some (q, t)" "valid_ptr t q" by blast
  with Seg show ?case by (cases q) (auto simp: find_loop_seg valid_ptr_def)
qed simp

lemma find_node_lookup:
  assumes "valid_ptr t cur"
  shows "\<exists>q. xmldb_find_node al cur path False t = Some (q, t) \<and> valid_ptr t q"
proof (cases path)
  case Nil
  then show ?thesis by (simp add: xmldb_find_node_def valid_ptr_def)
next
  case (Cons c p)
  have "node_at t (case cur of None \<Rightarrow> [] | Some r \<Rightarrow> r) \<noteq> None" using assms by (auto simp: valid_ptr_def split: option.splits)
  with Cons find_loop_lookup [of t "[]" None al p] find_loop_lookup [of t _ None al path] show ?thesis
    by (auto simp: xmldb_find_node_def valid_ptr_def)
qed

lemma all_alloc: "\<forall>n. al n \<Longrightarrow> al = (\<lambda>_. True)"
  by auto

lemma get_value_of:
  assumes "valid_ptr t cur" and "\<forall>n. al n"
  shows "xmldb_get_value al cur p t = Some (value_of t cur p)"
  using find_node_lookup [OF assms(1), of "\<lambda>_. True" p] unfolding all_alloc [OF assms(2)]
  by (auto simp: value_of_def xmldb_get_value_def valid_ptr_def split: option.splits)

lemma array_parent_lookup:
  assumes "valid_ptr t cur"
  shows "\<exists>q entry. array_parent al cur p t = Some (q, entry) \<and> valid_ptr t q"
proof (cases "strrchr p (CHR ''/'')")
  case (Some k)
  with find_node_lookup [OF assms, of al "take k p"] show ?thesis by (auto simp: array_parent_def)
qed (use assms in \<open>simp add: array_parent_def\<close>)

subsection \<open>Tags\<close>

lemma quoted_loop_quote:
  assumes "i + length v \<le> 255"
  shows "quoted_loop i acc (concat (map (\<lambda>c. if c = QUOT \<or> c = CHR 0x5C then [CHR 0x5C, c] else [c]) v) @ QUOT # r) = (acc @ v, Some r)"
  using assms
proof (induction v arbitrary: i acc)
  case (Cons c v)
  then show ?case by (cases "concat (map (\<lambda>c. if c = QUOT \<or> c = CHR 0x5C then [CHR 0x5C, c] else [c]) v) @ QUOT # r") auto
qed simp

lemma read_quoted_string: "length v \<le> 255 \<Longrightarrow> read_string (quote_value v) NUL = (v, [])"
  using quoted_loop_quote [of 0 v "[]" "[]"] by (simp add: read_string_def quote_value_def)

lemma quote_value_length: "length v + 2 \<le> length (quote_value v)"
proof -
  have "length v \<le> length (concat (map (\<lambda>c. if c = QUOT \<or> c = CHR 0x5C then [CHR 0x5C, c] else [c]) v))"
    by (induction v) auto
  then show ?thesis by (simp add: quote_value_def)
qed

lemma if_condition_render:
  assumes "tmpl_ok (If_block eq p v a b)" and "valid_ptr t cur" and "\<forall>n. al n"
  shows "do_if_condition al t cur vars (drop 3 (if_tag eq p v)) = Some (of_bool ((value_of t cur p = v) = eq))"
proof -
  let ?p = "if eq then ''=='' else ''!=''"
  have v: "length v \<le> 255" using assms(1) quote_value_length [of v] by (simp add: tag_ok_def if_tag_def)
  have w: "is_word ?p" by (simp add: is_word_def IS_WHITE_def)
  have q: "quote_value v \<noteq> []" "\<not> IS_WHITE (hd (quote_value v))" "\<not> IS_WHITE (last (quote_value v))"
    by (simp_all add: quote_value_def IS_WHITE_def)
  have "string_condition al t cur vars p ?p v = Some (Some ((value_of t cur p = v) = eq))"
    using assms(1) by (auto simp: get_value_of [OF assms(2,3)] string_condition_def strncmp_zero strcmp_zero node_name_ok_def)
  with if_condition_one [OF assms(3) _ w q read_quoted_string [OF v], of p t cur vars] assms(1) show ?thesis
    by (simp add: if_tag_def node_name_ok_def)
qed

lemma patch_output_escaped: "patch_output flags v st = put_all (escaped flags v) st"
  by (simp add: patch_output_def escaped_def)

lemma strchr_none: "c \<noteq> NUL \<Longrightarrow> c \<notin> set s \<Longrightarrow> strchr s c = None"
  by (induction s) auto

lemma do_mapping_plain:
  assumes "\<forall>n. al n" and "tag_ok msg" and "CHR '','' \<notin> set msg"
    and "mapping_value al t (pi_current info) ix (pi_max info) (g_var st) False msg = Some v"
  shows "do_mapping al t info msg ix st = Some (0, put_all (escaped (pi_flags info) v) st)"
proof -
  have "xmldb_eatwhite msg = msg" "xmldb_reatwhite msg = msg"
    using assms(2) by (auto simp: tag_ok_def eatwhite_black reatwhite_black)
  with assms strchr_none [of "CHR '',''" msg] show ?thesis
    by (simp add: do_mapping_def strdup_def Let_def patch_output_escaped)
qed

lemma mapping_value_node:
  assumes "tmpl_ok (Value p)" and "valid_ptr t cur" and "\<forall>n. al n"
  shows "mapping_value al t cur ix mx vars False p = Some (value_of t cur p)"
  using assms(1) by (auto simp: get_value_of [OF assms(2,3)] mapping_value_def node_name_ok_def strncmp_zero)


subsection \<open>The interpreter computes the meaning\<close>

abbreviation patch_rest :: "alloc \<Rightarrow> xml_node \<Rightarrow> int \<Rightarrow> pinfo \<Rightarrow> char list \<Rightarrow> patch_state \<Rightarrow> (int \<times> patch_state) option" where
  "patch_rest al tree ix info r st \<equiv> do_patch al tree ix (info\<lparr>pi_rest := r\<rparr>) 0 st"

lemma patch_rest_Nil: "patch_rest al tree ix info [] st = Some (0, st)"
  by (subst do_patch.simps) (simp add: scan_item_def)

lemma patch_rest_text:
  assumes "CHR ''{'' \<notin> set s" "CHR 0xFF \<notin> set s"
  shows "patch_rest al tree ix info (s @ r) st = patch_rest al tree ix info r (put_all s st)"
  using assms
proof (induction s arbitrary: st)
  case (Cons c s)
  then have "patch_rest al tree ix info ((c # s) @ r) st = patch_rest al tree ix info (s @ r) (put_all [c] st)"
    using scan_char [of c "pi_fh info" "s @ r"] by (subst do_patch.simps) auto
  with Cons put_all_append [of "[c]" s st] show ?case by simp
qed simp

lemma patch_rest_mapping:
  assumes "\<forall>n. al n" and "tag_ok msg" and "hd msg \<notin> {CHR ''$'', CHR ''@''}" and "CHR '','' \<notin> set msg"
    and "mapping_value al tree (pi_current info) ix (pi_max info) (g_var st) False msg = Some v"
  shows "patch_rest al tree ix info (tag msg @ r) st = patch_rest al tree ix info r (put_all (escaped (pi_flags info) v) st)"
proof -
  have n: "strncmp msg ''$arraystart:'' 12 \<noteq> 0" "strncmp msg ''$if'' 3 \<noteq> 0" "strncmp msg ''$var'' 4 \<noteq> 0"
    using assms(2,3) by (cases msg; simp add: strncmp_zero tag_ok_def)+
  have "do_mapping al tree (info\<lparr>pi_rest := tag msg @ r\<rparr>) msg ix st = Some (0, put_all (escaped (pi_flags info) v) st)"
    using do_mapping_plain [of al msg tree "info\<lparr>pi_rest := tag msg @ r\<rparr>" ix st v] assms by simp
  with n assms(3) scan_tag [OF assms(2), of "pi_fh info" r] show ?thesis
    by (subst do_patch.simps) simp
qed

lemma first_free_ge: "i \<le> first_free cs name i"
proof (induction cs name i rule: first_free.induct)
  case (1 cs name i)
  then show ?case by (subst first_free.simps) (fastforce split: option.split)
qed

text \<open>\<open>renders d\<close>: what is to be shown of the body of a block.\<close>

definition renders :: "alloc \<Rightarrow> xml_node \<Rightarrow> tmpl list \<Rightarrow> bool" where
  "renders al tree d \<longleftrightarrow> (\<forall>ix info r st. valid_ptr tree (pi_current info) \<longrightarrow>
     patch_rest al tree ix info (print_all d @ r) st =
     patch_rest al tree ix info r (put_all (concat (map (render (pi_flags info) tree (pi_current info) ix) d)) st))"

lemma rendersD:
  assumes "renders al tree d" and "valid_ptr tree (pi_current info)"
  shows "patch_rest al tree ix info (print_all d) st =
    Some (0, put_all (concat (map (render (pi_flags info) tree (pi_current info) ix) d)) st)"
  using assms patch_rest_Nil unfolding renders_def by (metis append_Nil2)

lemma renders_block:
  assumes "renders al tree d" and "valid_ptr tree cur"
  shows "do_patch al tree ix (block_info flags cur mx (print_all d)) 0 st =
    Some (0, put_all (concat (map (render flags tree cur ix) d)) st)"
  using rendersD [OF assms(1), of "block_info flags cur mx (print_all d)" ix st] assms(2) by (simp add: block_info_def)

lemma patch_ids_render:
  assumes "renders al tree d" and "node_at tree q = Some n" and "cs = node_child n" and "wb_source w = Some (print_all d)"
  shows "patch_ids al tree flags q cs entry mx w i st = Some (put_all (concat (map
    (\<lambda>i. concat (map (render flags tree (Some (q @ [the (sibling cs entry i)])) i) d)) [i..first_free cs entry i - 1])) st)"
  using assms(3)
proof (induction cs entry i arbitrary: st rule: first_free.induct)
  case (1 cs entry i)
  show ?case
  proof (cases "sibling cs entry i")
    case None
    then show ?thesis by (simp add: patch_ids.simps first_free.simps [of cs entry i])
  next
    case (Some k)
    then have "k < length (node_child n)" using find_pos_Some 1(2) by (auto simp: sibling_def)
    then have v: "valid_ptr tree (Some (q @ [k]))" using assms(2) by (simp add: valid_ptr_def node_at_append)
    have "[i..first_free cs entry i - 1] = i # [i + 1..first_free cs entry (i + 1) - 1]"
      using Some first_free_ge [of "i + 1" cs entry] by (simp add: first_free.simps [of cs entry i] upto.simps)
    with 1(1) [OF Some 1(2)] Some show ?thesis
      by (subst patch_ids.simps) (simp add: assms(4) renders_block [OF assms(1) v] put_all_append)
  qed
qed

lemma copy_to_end:
  assumes "\<forall>n. al n" and "list_all tmpl_ok ts" and "kind \<in> {if_kind, else_kind, array_kind}" and "wb_ok w"
    and "tag_ok e" and "kind e \<in> {Else_tag, Closes}"
  shows "copy_block al kind keep fh 1 w (print_all ts @ tag e @ r) =
    (if kind e = Else_tag then At_else else At_end, keep_text al keep (print_all ts) w, r)"
proof -
  have "copy_block al kind keep fh 1 w (print_all ts @ tag e @ r) = copy_block al kind keep fh 1 (keep_text al keep (print_all ts) w) (tag e @ r)"
    by (rule copy_list [OF assms(1,2,4)]) (simp_all add: copy_tmpl [OF assms(1,3)])
  with assms(6) show ?thesis by (subst (asm) (2) copy_block.simps) (auto simp: scan_tag [OF assms(5)])
qed

lemma wb_empty_ok: "wb_ok wb_empty" "wb_text wb_empty = []"
  by (simp_all add: wb_ok_def wb_empty_def)


lemma patch_rest_if:
  assumes "\<forall>n. al n" and "tmpl_ok (If_block eq p v a b)" and "renders al tree a" and "renders al tree b"
    and "valid_ptr tree (pi_current info)"
  shows "patch_rest al tree ix info (print_tmpl (If_block eq p v a b) @ r) st =
    patch_rest al tree ix info r (put_all (render (pi_flags info) tree (pi_current info) ix (If_block eq p v a b)) st)"
proof -
  let ?m = "if_tag eq p v" and ?cur = "pi_current info" and ?fl = "pi_flags info"
  define c where "c = ((value_of tree ?cur p = v) = eq)"
  have ok: "tag_ok ?m" "list_all tmpl_ok a" "list_all tmpl_ok b" using assms(2) by simp_all
  have n: "strncmp ?m ''$arraystart:'' 12 \<noteq> 0" "strncmp ?m ''$if'' 3 = 0" by (simp_all add: if_tag_def strncmp_zero)
  have cond: "do_if_condition al tree ?cur (g_var st) (drop 3 ?m) = Some (of_bool c)"
    unfolding c_def by (rule if_condition_render [OF assms(2,5,1)])
  have 1: "copy_block al if_kind k fh 1 wb_empty (print_all a @ tag ''$else'' @ s) = (At_else, keep_text al k (print_all a) wb_empty, s)" for k fh s
    using copy_to_end [OF assms(1) ok(2) _ wb_empty_ok(1) tag_ok_words(2)] by (simp add: kinds)
  have w: "wb_ok (keep_text al k cs wb_empty)" "wb_text (keep_text al k cs wb_empty) = (if k then cs else [])" for k cs
    using keep_text_ok [OF assms(1) wb_empty_ok(1)] wb_empty_ok(2) by auto
  have 2: "copy_block al else_kind k' fh 1 (keep_text al k cs wb_empty) (print_all b @ tag ''$fi'' @ s) =
      (At_end, keep_text al k' (print_all b) (keep_text al k cs wb_empty), s)" for k k' fh s cs
    using copy_to_end [OF assms(1) ok(3) _ w(1) tag_ok_words(3)] by (simp add: kinds)
  have w2: "wb_ok (keep_text al True ds (keep_text al False cs wb_empty))"
      "wb_text (keep_text al True ds (keep_text al False cs wb_empty)) = ds" for cs ds
    using keep_text_ok [OF assms(1) w(1)] w(2) by auto
  let ?s = "print_all a @ tag ''$else'' @ print_all b @ tag ''$fi'' @ r"
  have "patch_rest al tree ix info (tag ?m @ ?s) st =
      patch_rest al tree ix info r (put_all (concat (map (render ?fl tree ?cur ix) (if c then a else b))) st)"
    by (subst do_patch.simps, cases c)
      (simp_all add: scan_tag [OF ok(1)] n cond 1 [simplified] 2 [simplified] wb_source_ok w w2
        renders_block [OF assms(3,5)] renders_block [OF assms(4,5)])
  then show ?thesis by (simp add: c_def)
qed

lemma patch_rest_array:
  assumes "\<forall>n. al n" and "tmpl_ok (Array_block p d)" and "renders al tree d" and "valid_ptr tree (pi_current info)"
  shows "patch_rest al tree ix info (print_tmpl (Array_block p d) @ r) st =
    patch_rest al tree ix info r (put_all (render (pi_flags info) tree (pi_current info) ix (Array_block p d)) st)"
proof -
  let ?cur = "pi_current info" and ?fl = "pi_flags info"
  have ok: "tag_ok (array_tag p)" "list_all tmpl_ok d" using assms(2) by simp_all
  have n: "strncmp (array_tag p) ''$arraystart:'' 12 = 0" "drop 12 (array_tag p) = p" by (simp_all add: array_tag_def strncmp_zero)
  have 1: "copy_block al array_kind True fh 1 wb_empty (print_all d @ tag ''$arrayend'' @ r) = (At_end, keep_text al True (print_all d) wb_empty, r)" for fh
    using copy_to_end [OF assms(1) ok(2) _ wb_empty_ok(1) tag_ok_words(4)] by (simp add: kinds)
  have w: "wb_source (keep_text al True (print_all d) wb_empty) = Some (print_all d)"
    using keep_text_ok [OF assms(1) wb_empty_ok(1), of True] wb_empty_ok(2) by (simp add: wb_source_ok)
  have dup: "strdup al p = Some p" using assms(1) by (simp add: strdup_def)
  obtain q entry where q: "array_parent al ?cur p tree = Some (q, entry)" "valid_ptr tree q"
    using array_parent_lookup [OF assms(4)] by blast
  have "patch_rest al tree ix info (tag (array_tag p) @ print_all d @ tag ''$arrayend'' @ r) st =
      patch_rest al tree ix info r (put_all (render ?fl tree ?cur ix (Array_block p d)) st)"
  proof (cases q)
    case None
    with q(1) have "entries tree ?cur p = []" unfolding all_alloc [OF assms(1)] by (simp add: entries_def)
    with None q(1) show ?thesis
      by (subst do_patch.simps) (simp add: scan_tag [OF ok(1)] n dup 1 [simplified])
  next
    case (Some q')
    with q(2) obtain m where m: "node_at tree q' = Some m" by (auto simp: valid_ptr_def)
    have "entries tree ?cur p = map (\<lambda>i. (i, q' @ [the (sibling (node_child m) entry i)])) [1..first_free (node_child m) entry 1 - 1]"
      using q(1) Some m unfolding all_alloc [OF assms(1)] by (simp add: entries_def)
    with Some q(1) m show ?thesis
      by (subst do_patch.simps)
        (simp add: scan_tag [OF ok(1)] n dup 1 [simplified] patch_ids_render [OF assms(3) m refl w] o_def)
  qed
  then show ?thesis by simp
qed

lemma renders_list:
  assumes "\<And>t ix info r st. t \<in> set ts \<Longrightarrow> valid_ptr tree (pi_current info) \<Longrightarrow>
    patch_rest al tree ix info (print_tmpl t @ r) st =
    patch_rest al tree ix info r (put_all (render (pi_flags info) tree (pi_current info) ix t) st)"
  shows "renders al tree ts"
  using assms
proof (induction ts)
  case (Cons t ts)
  then have "renders al tree ts" by simp
  with Cons(2) [of t] show ?case by (simp add: renders_def put_all_append)
qed (simp add: renders_def)

lemma patch_rest_render:
  assumes "\<forall>n. al n" and "tmpl_ok t" and "valid_ptr tree (pi_current info)"
  shows "patch_rest al tree ix info (print_tmpl t @ r) st =
    patch_rest al tree ix info r (put_all (render (pi_flags info) tree (pi_current info) ix t) st)"
  using assms(2,3)
proof (induction t arbitrary: ix info r st)
  case (Text s)
  then show ?case by (simp add: patch_rest_text)
next
  case (Value p)
  from mapping_value_node [OF Value.prems assms(1)] Value.prems assms(1) show ?case
    by (simp add: patch_rest_mapping)
next
  case Index
  show ?case using assms(1) tag_ok_words(1) by (simp add: patch_rest_mapping mapping_value_def)
next
  case (If_block eq p v a b)
  have "renders al tree a" "renders al tree b"
    using If_block.IH If_block.prems(1) by (auto intro!: renders_list simp: list_all_iff)
  with If_block.prems assms(1) show ?case by (intro patch_rest_if)
next
  case (Array_block p d)
  have "renders al tree d"
    using Array_block.IH Array_block.prems(1) by (auto intro!: renders_list simp: list_all_iff)
  with Array_block.prems assms(1) show ?case by (intro patch_rest_array)
qed

text \<open>C7: A template file is interpreted to exactly what it means. For every template of text, values, array indices,
  conditional blocks and array blocks, nested in any way, \<^verbatim>\<open>xmldb_patch_file\<close> returns 0 and writes the rendered text
  followed by a terminating NUL; nothing stays in the buffer. An array block is rendered once for every entry,
  in order, relative to the entry; of a conditional block the right half is rendered.\<close>

theorem template_rendered:
  assumes "\<forall>n. al n" and "list_all tmpl_ok ts" and "ob_chars st = []" and "ob_written st = []"
  shows "\<exists>st'. xmldb_patch_file al tree flags (Some (print_all ts)) st = Some (0, st') \<and>
    concat (ob_written st') = concat (map (render flags tree (Some []) 0) ts) @ [NUL] \<and> ob_chars st' = []"
proof -
  let ?info = "\<lparr>pi_flags = flags, pi_current = Some [], pi_max = 0, pi_fh = True, pi_rest = print_all ts\<rparr>"
  let ?out = "concat (map (render flags tree (Some []) 0) ts)"
  have "renders al tree ts"
    using assms(1,2) by (auto intro!: renders_list patch_rest_render simp: list_all_iff)
  from rendersD [OF this, of ?info 0 "start_patch st"] have f: "xmldb_patch_file al tree flags (Some (print_all ts)) st = Some (0, end_patch (put_all ?out (start_patch st)))"
    by (simp add: xmldb_patch_file_def valid_ptr_def)
  have "ob_ok (start_patch st)" "sent (start_patch st) = []"
    using assms(3,4) by (simp_all add: ob_ok_def start_patch_def sent_def)
  with put_all_props [of "start_patch st" ?out] end_patch_props [of "put_all ?out (start_patch st)"] f show ?thesis
    by (auto simp: sent_def)
qed


definition example_tree :: xml_node where
  "example_tree = Xml_node 0 [] None None [Xml_node 0 ''lan'' None None
     [Xml_node 1 ''host'' None None [Xml_node 0 ''ip'' (Some ''10.0.0.2'') None []],
      Xml_node 2 ''host'' None None [Xml_node 0 ''ip'' (Some ''10.0.0.3'') None []],
      Xml_node 0 ''mode'' (Some ''0'') None []]]"

definition example_tmpl :: "tmpl list" where
  "example_tmpl = [Text ''hosts:'', Array_block ''/lan/host'' [Index, Text ''='', Value ''ip'', Text '';''],
     If_block True ''/lan/mode'' ''1'' [Text ''on''] [Text ''off'']]"

theorem template_rendered_witness:
  "print_all example_tmpl =
     ''hosts:{{$arraystart:/lan/host}}{{#}}={{ip}};{{$arrayend}}{{$if /lan/mode == '' @ [QUOT] @ ''1'' @ [QUOT] @ ''}}on{{$else}}off{{$fi}}'' \<and>
   (\<exists>st'. xmldb_patch_file (\<lambda>_. True) example_tree 0 (Some (print_all example_tmpl)) \<lparr>g_var = [], ob_chars = [], ob_written = []\<rparr> = Some (0, st') \<and>
     concat (ob_written st') = ''hosts:1=10.0.0.2;2=10.0.0.3;off'' @ [NUL])"
proof -
  have "list_all tmpl_ok example_tmpl" by code_simp
  moreover have "concat (map (render 0 example_tree (Some []) 0) example_tmpl) = ''hosts:1=10.0.0.2;2=10.0.0.3;off''" by code_simp
  ultimately have "\<exists>st'. xmldb_patch_file (\<lambda>_. True) example_tree 0 (Some (print_all example_tmpl)) \<lparr>g_var = [], ob_chars = [], ob_written = []\<rparr> = Some (0, st') \<and>
     concat (ob_written st') = ''hosts:1=10.0.0.2;2=10.0.0.3;off'' @ [NUL]"
    using template_rendered [of "\<lambda>_. True" example_tmpl "\<lparr>g_var = [], ob_chars = [], ob_written = []\<rparr>" example_tree 0] by auto
  moreover have "print_all example_tmpl =
     ''hosts:{{$arraystart:/lan/host}}{{#}}={{ip}};{{$arrayend}}{{$if /lan/mode == '' @ [QUOT] @ ''1'' @ [QUOT] @ ''}}on{{$else}}off{{$fi}}''"
    by code_simp
  ultimately show ?thesis by blast
qed


end
