(* ===== verification/Ephp_Parse.thy ===== *)
theory Ephp_Parse
  imports Xmldb_Patch
begin

text \<open>
  The parser of the second template language of the configuration database, \<^verbatim>\<open>tools/alpha/xmldb/ephp.c\<close> and \<^verbatim>\<open>ephp.h\<close>: the
  string lists from which every argument is built, the statements, and the functions that read them from the text of
  a block. The text is the list of characters before the terminating NUL. \<open>None\<close> is a read behind that NUL or through
  a null pointer, or the use of a pointer that was never set. A syntax error is a value: the message that is
  printed and the text at which the parser stopped. A failed \<^verbatim>\<open>strdup\<close> leaves a null pointer in the statement.
\<close>

subsection \<open>Strings\<close>

definition MAX_STRING_LEN :: nat where "MAX_STRING_LEN = 1024"

abbreviation BSL :: char where "BSL \<equiv> CHR 0x5C"

text \<open>The characters of a quoted string from behind the quote on; the rest is \<open>None\<close> when there is no closing quote. A
  backslash at the very end of the text makes the loop step over the NUL. Characters behind the first 1023
  are skipped one by one, whatever they are.\<close>

fun quoted_ex :: "char list \<Rightarrow> char list \<Rightarrow> (char list \<times> char list option) option" where
  "quoted_ex acc [] = Some (acc, None)"
| "quoted_ex acc (c # r) =
     (if c = QUOT then Some (acc, Some r)
      else if length acc < MAX_STRING_LEN - 1 then
        (if c = BSL then (case r of [] \<Rightarrow> None | d # r' \<Rightarrow> quoted_ex (acc @ [if d = CHR ''n'' then NL else d]) r')
         else quoted_ex (acc @ [c]) r)
      else quoted_ex acc r)"

text \<open>The token, whether it was quoted, and the rest. An unterminated quoted string is empty and nothing is consumed.\<close>

definition read_string_ex :: "char list \<Rightarrow> char list \<Rightarrow> (char list \<times> bool \<times> char list) option" where
  "read_string_ex msg stop =
     (if msg \<noteq> [] \<and> hd msg = QUOT then do {
        (s, r) \<leftarrow> quoted_ex [] (tl msg);
        Some (case r of Some r' \<Rightarrow> (s, True, r') | None \<Rightarrow> ([], True, msg)) }
      else let P = (\<lambda>c. \<not> IS_WHITE c \<and> c \<notin> set stop) in
        Some (take (MAX_STRING_LEN - 1) (takeWhile P msg), False, dropWhile P msg))"

lemma quoted_ex_length: "quoted_ex acc s = Some (t, Some r) \<Longrightarrow> length r < length s"
proof (induction acc s arbitrary: t r rule: quoted_ex.induct)
  case (2 acc c s)
  consider "c = QUOT" | "c \<noteq> QUOT" "length acc < MAX_STRING_LEN - 1" "c = BSL" | "c \<noteq> QUOT" "length acc < MAX_STRING_LEN - 1" "c \<noteq> BSL"
    | "c \<noteq> QUOT" "\<not> length acc < MAX_STRING_LEN - 1" by blast
  then show ?case
  proof cases
    case 2
    with "2.prems" obtain d s' where s: "s = d # s'" by (cases s) auto
    with 2 "2.prems" "2.IH"(1) [OF 2 s] show ?thesis by fastforce
  next
    case 3
    with "2.prems" "2.IH"(2) [OF 3] show ?thesis by fastforce
  next
    case 4
    with "2.prems" "2.IH"(3) [OF 4] show ?thesis by fastforce
  qed (use "2.prems" in auto)
qed simp

lemma read_string_ex_length: "read_string_ex s stop = Some (t, q, r) \<Longrightarrow> length r \<le> length s"
proof (cases "s \<noteq> [] \<and> hd s = QUOT")
  case True
  assume eq: "read_string_ex s stop = Some (t, q, r)"
  with True obtain u v where u: "quoted_ex [] (tl s) = Some (u, v)" by (auto simp: read_string_ex_def bind_Some_iff)
  show ?thesis
  proof (cases v)
    case None
    with eq True u show ?thesis by (simp add: read_string_ex_def)
  next
    case (Some w)
    with eq True u have "r = w" by (simp add: read_string_ex_def)
    with quoted_ex_length [of "[]" "tl s" u w] u Some show ?thesis by (cases s) simp_all
  qed
next
  case False
  assume "read_string_ex s stop = Some (t, q, r)"
  with False show ?thesis unfolding read_string_ex_def Let_def if_not_P [OF False] by (auto simp: length_dropWhile_le)
qed

subsection \<open>String lists\<close>

text \<open>An entry of a string list with the operator that follows it, NUL for the last one.\<close>

datatype strlist_t =
    ST_STR "char list option" char
  | ST_VAR "char list option" char
  | ST_QUERY "strlist_t list" char
  | ST_QUERYJS "strlist_t list" char

definition SIZEOF_STRLIST :: nat where "SIZEOF_STRLIST = 24"

text \<open>\<^verbatim>\<open>query\<close> or \<^verbatim>\<open>queryjs\<close>, and the text behind it.\<close>

definition is_query :: "char list \<Rightarrow> bool" where "is_query cur \<longleftrightarrow> strncmp cur ''query'' 5 = 0"
definition is_queryjs :: "char list \<Rightarrow> bool" where "is_queryjs cur \<longleftrightarrow> strncmp cur ''queryjs'' 7 = 0"

definition query_text :: "char list \<Rightarrow> char list" where
  "query_text cur = xmldb_eatwhite (drop (if is_queryjs cur then 7 else 5) cur)"

definition close_query :: "bool \<Rightarrow> char list + (strlist_t list \<times> char list) \<Rightarrow> char list + ((char \<Rightarrow> strlist_t) \<times> char list)" where
  "close_query js res = (case res of
       Inl r \<Rightarrow> Inl r
     | Inr (l, r) \<Rightarrow> if r = [] \<or> hd r \<noteq> CHR '')'' then Inl r else Inr (if js then ST_QUERYJS l else ST_QUERY l, tl r))"

definition token_entry :: "alloc \<Rightarrow> char list \<Rightarrow> char list \<Rightarrow> (char list + ((char \<Rightarrow> strlist_t) \<times> char list)) option" where
  "token_entry al stop cur = do {
     (token, quote, r) \<leftarrow> read_string_ex cur stop;
     Some (Inr (if \<not> quote \<and> token \<noteq> [] \<and> hd token = CHR ''$'' then ST_VAR (strdup al (tl token)) else ST_STR (strdup al token), r)) }"

text \<open>The loop of \<^verbatim>\<open>read_strlst\<close>: \<open>message\<close> is the text the caller started with. \<open>Inl\<close> is the result \<^verbatim>\<open>NULL\<close> with the text the caller
  is left with. When the text ends behind an entry the pointer is moved behind the NUL, and every caller reads
  there.\<close>

function strlst_loop ::
    "alloc \<Rightarrow> char list \<Rightarrow> char list \<Rightarrow> char list \<Rightarrow> char list \<Rightarrow> (char list + (strlist_t list \<times> char list)) option" where
  "strlst_loop al ops stop message s = (let cur = xmldb_eatwhite s in
     if cur = [] then Some (Inr ([], []))
     else if \<not> al SIZEOF_STRLIST then Some (Inl message)
     else Option.bind
       (if is_query cur then
          (if query_text cur = [] \<or> hd (query_text cur) \<noteq> CHR ''('' then Some (Inl (query_text cur))
           else Option.bind (strlst_loop al ''.'' '')'' (xmldb_eatwhite (tl (query_text cur))) (xmldb_eatwhite (tl (query_text cur))))
             (\<lambda>res. Some (close_query (is_queryjs cur) res)))
        else token_entry al (ops @ stop) cur)
       (\<lambda>res. case res of
          Inl r \<Rightarrow> Some (Inl r)
        | Inr (entry, r) \<Rightarrow> (case xmldb_eatwhite r of
            [] \<Rightarrow> None
          | c # r1 \<Rightarrow> if c \<in> set stop then Some (Inr ([entry NUL], c # r1))
              else Option.bind (strlst_loop al ops stop message r1) (\<lambda>res2. case res2 of
                  Inl r2 \<Rightarrow> Some (Inl r2)
                | Inr (l, r2) \<Rightarrow> Some (Inr (entry c # l, r2))))))"
  by pat_completeness auto

lemma query_text_le: "length (query_text cur) \<le> length cur"
  using eatwhite_length [of "drop (if is_queryjs cur then 7 else 5) cur"] by (simp add: query_text_def split: if_splits)

lemma token_entry_le: "token_entry al stop cur = Some (Inr (e, r)) \<Longrightarrow> length r \<le> length cur"
  using read_string_ex_length [of cur stop] by (auto simp: token_entry_def bind_Some_iff)

lemma close_query_Inr:
  "close_query js res = Inr (e, r) \<Longrightarrow> \<exists>l r1. res = Inr (l, r1) \<and> r = tl r1 \<and> r1 \<noteq> [] \<and> hd r1 = CHR '')'' \<and> e = (if js then ST_QUERYJS l else ST_QUERY l)"
  by (cases res) (auto simp: close_query_def split: if_splits)

lemma strlst_loop_partial:
  assumes "strlst_loop_dom (al, ops, stop, m, s)" and "strlst_loop al ops stop m s = Some (Inr (l, r))"
  shows "length r \<le> length s"
  using assms
proof (induction al ops stop m s arbitrary: l r rule: strlst_loop.pinduct)
  case (1 al ops stop m s)
  note eq = 1(4) [unfolded strlst_loop.psimps [OF 1(1)] Let_def]
  define cur where "cur = xmldb_eatwhite s"
  define first where "first = (if is_query cur
    then if query_text cur = [] \<or> hd (query_text cur) \<noteq> CHR ''('' then Some (Inl (query_text cur))
      else strlst_loop al ''.'' '')'' (xmldb_eatwhite (tl (query_text cur))) (xmldb_eatwhite (tl (query_text cur))) \<bind>
        (\<lambda>res. Some (close_query (is_queryjs cur) res))
    else token_entry al (ops @ stop) cur)"
  note eq' = eq [folded cur_def, folded first_def]
  show ?case
  proof (cases "cur = [] \<or> \<not> al SIZEOF_STRLIST")
    case True
    with eq' show ?thesis by (auto split: if_splits)
  next
    case False
    with eq' obtain x where x: "first = Some x" by (auto simp: bind_Some_iff)
    with eq' False obtain entry r0 where f: "first = Some (Inr (entry, r0))" by (cases x) auto
    have lc: "length cur \<le> length s" unfolding cur_def by (rule eatwhite_length)
    have l0: "length r0 \<le> length cur"
    proof (cases "is_query cur")
      case True
      with f obtain l1 r1 where q: "query_text cur \<noteq> []" "hd (query_text cur) = CHR ''(''" "r0 = tl r1"
        "strlst_loop al ''.'' '')'' (xmldb_eatwhite (tl (query_text cur))) (xmldb_eatwhite (tl (query_text cur))) = Some (Inr (l1, r1))"
        by (auto simp: first_def bind_Some_iff dest!: close_query_Inr split: if_splits)
      have "length r1 \<le> length (xmldb_eatwhite (tl (query_text cur)))"
        by (rule 1(2) [OF cur_def _ _ True _ q(4)]) (use False q(1,2) in auto)
      with eatwhite_length [of "tl (query_text cur)"] query_text_le [of cur] q(3) show ?thesis by simp
    next
      case nq: False
      with f show ?thesis using token_entry_le by (simp add: first_def)
    qed
    from eq' False f obtain c r1 where c: "xmldb_eatwhite r0 = c # r1" by (cases "xmldb_eatwhite r0") auto
    have l1: "Suc (length r1) \<le> length r0" using c eatwhite_length [of r0] by simp
    show ?thesis
    proof (cases "c \<in> set stop")
      case True
      with eq' False f c have "r = c # r1" by simp
      with l0 l1 lc show ?thesis by simp
    next
      case nc: False
      with eq' False f c obtain y where y: "strlst_loop al ops stop m r1 = Some y" by (auto simp: bind_Some_iff)
      with eq' False f c nc obtain l2 where n: "strlst_loop al ops stop m r1 = Some (Inr (l2, r))" by (cases y) auto
      have "length r \<le> length r1"
        by (rule 1(3) [OF cur_def _ _ _ refl refl c nc n]) (use False f in \<open>auto simp: first_def\<close>)
      with l0 l1 lc show ?thesis by simp
    qed
  qed
qed

lemma strlst_loop_total: "All strlst_loop_dom"
proof (relation "measure (\<lambda>(al, ops, stop, m, s). length s)", goal_cases)
  case 1
  show ?case by simp
next
  case (2 al ops stop m s x)
  then show ?case using eatwhite_length [of s] eatwhite_length [of "tl (query_text x)"] query_text_le [of x] by (cases "query_text x") auto
next
  case (3 al ops stop m s x a b xa y c r1)
  have l0: "length y \<le> length x"
  proof (cases "is_query x")
    case True
    with 3 obtain l2 r2 where q: "query_text x \<noteq> []" "hd (query_text x) = CHR ''(''" "y = tl r2"
      "strlst_loop al ''.'' '')'' (xmldb_eatwhite (tl (query_text x))) (xmldb_eatwhite (tl (query_text x))) = Some (Inr (l2, r2))"
      by (auto simp: bind_Some_iff dest!: close_query_Inr split: if_splits)
    then have "length r2 \<le> length (xmldb_eatwhite (tl (query_text x)))"
      using 3 True by (intro strlst_loop_partial) auto
    with eatwhite_length [of "tl (query_text x)"] query_text_le [of x] q(3) show ?thesis by simp
  next
    case False
    with 3 show ?thesis using token_entry_le by auto
  qed
  have "Suc (length r1) \<le> length y" using 3(7) eatwhite_length [of y] by simp
  with l0 3(1) eatwhite_length [of s] show ?case by simp
qed

termination strlst_loop by (rule strlst_loop_total)

declare strlst_loop.simps [simp del]

lemma strlst_loop_le: "strlst_loop al ops stop m s = Some (Inr (l, r)) \<Longrightarrow> length r \<le> length s"
  by (rule strlst_loop_partial) (simp add: strlst_loop_total)

definition read_strlst ::
    "alloc \<Rightarrow> char list \<Rightarrow> char list \<Rightarrow> char list \<Rightarrow> (char list + (strlist_t list \<times> char list)) option" where
  "read_strlst al ops stop message = strlst_loop al ops stop message message"

subsection \<open>Statements\<close>

datatype ifop_t = IFOP_EQUAL | IFOP_NOTEQUAL | IFOP_GREATERTHAN | IFOP_LESSTHAN | IFOP_GREATEREQUAL | IFOP_LESSEQUAL
datatype ifnext_t = IFNEXT_END | IFNEXT_AND | IFNEXT_OR
datatype aop_t = AOP_ASSIGN | AOP_ADD | AOP_SUB | AOP_INCREASE | AOP_DECREASE

record cond_t =
  operand1 :: "strlist_t list"
  operand2 :: "strlist_t list"
  c_op :: ifop_t
  c_next :: ifnext_t

type_synonym match_t = "strlist_t list \<times> strlist_t list"

datatype sblock_t =
    SB_REQUIRE "strlist_t list"
  | SB_ANCHOR "strlist_t list"
  | SB_QUERY "strlist_t list"
  | SB_QUERYJS "strlist_t list"
  | SB_DEL "strlist_t list"
  | SB_SET "strlist_t list" "strlist_t list"
  | SB_ECHO "strlist_t list"
  | SB_ASSIGN aop_t "char list option" "strlist_t list"
  | SB_MAP "strlist_t list" "match_t option" "match_t list"
  | SB_INCLOG "char list option" "char list option"
  | SB_IF "cond_t list" "sblock_t list" "sblock_t list"
  | SB_FOR "strlist_t list" "sblock_t list"
  | SB_EXIT

definition SIZEOF_SBLOCK :: nat where "SIZEOF_SBLOCK = 36"
definition SIZEOF_MATCH :: nat where "SIZEOF_MATCH = 20"
definition SIZEOF_COND :: nat where "SIZEOF_COND = 32"

text \<open>A result: a fault, the message and the text at an error, or what was read and the rest.\<close>

type_synonym 'a pres = "((char list \<times> char list) + ('a \<times> char list)) option"

definition SHOW_GO :: "char list \<Rightarrow> char list \<Rightarrow> 'a pres" where
  "SHOW_GO msg cur = Some (Inl (msg, cur))"

text \<open>A character that has to be there.\<close>

definition expect :: "char \<Rightarrow> char list \<Rightarrow> char list \<Rightarrow> (char list \<Rightarrow> 'a pres) \<Rightarrow> 'a pres" where
  "expect c msg cur k = (if cur \<noteq> [] \<and> hd cur = c then k (tl cur) else SHOW_GO msg cur)"

definition with_strlst ::
    "alloc \<Rightarrow> char list \<Rightarrow> char list \<Rightarrow> char list \<Rightarrow> (strlist_t list \<Rightarrow> char list \<Rightarrow> 'a pres) \<Rightarrow> 'a pres" where
  "with_strlst al ops stop cur k = (case read_strlst al ops stop cur of
       None \<Rightarrow> None
     | Some (Inl r) \<Rightarrow> SHOW_GO ''SYNTAX ERROR !!'' r
     | Some (Inr (l, r)) \<Rightarrow> k l r)"

definition andthen :: "'a pres \<Rightarrow> ('a \<Rightarrow> char list \<Rightarrow> 'b pres) \<Rightarrow> 'b pres" where
  "andthen x k = (case x of None \<Rightarrow> None | Some (Inl e) \<Rightarrow> Some (Inl e) | Some (Inr (a, r)) \<Rightarrow> k a r)"

lemma andthen_cong [fundef_cong]:
  "x = y \<Longrightarrow> (\<And>a r. y = Some (Inr (a, r)) \<Longrightarrow> k a r = k' a r) \<Longrightarrow> andthen x k = andthen y k'"
  by (auto simp: andthen_def split: option.split sum.split)

lemma andthen_simps [simp]: "andthen (Some (Inr (a, r))) k = k a r" "andthen (Some (Inl e)) k = Some (Inl e)" "andthen None k = None"
  by (simp_all add: andthen_def)

lemma andthen_Inr:
  "andthen x k = Some (Inr y) \<longleftrightarrow> (\<exists>a r. x = Some (Inr (a, r)) \<and> k a r = Some (Inr y))"
  by (auto simp: andthen_def split: option.split sum.split)

definition open_paren :: "char list" where "open_paren = ''SYNTAX ERROR: missing '' @ [CHR 0x27, CHR ''('', CHR 0x27] @ '' !!''"
definition close_paren :: "char list" where "close_paren = ''SYNTAX ERROR: missing '' @ [CHR 0x27, CHR '')'', CHR 0x27] @ '' !!''"
definition semicolon :: "char list" where "semicolon = ''SYNTAX ERROR: missing '' @ [CHR 0x27, CHR '';'', CHR 0x27] @ '' !!''"
definition comma :: "char list" where "comma = ''SYNTAX ERROR: missing '' @ [CHR 0x27, CHR '','', CHR 0x27] @ '' !!''"
definition open_brace :: "char list" where "open_brace = ''SYNTAX ERROR: missing '' @ [CHR 0x27, CHR ''{'', CHR 0x27] @ '' !!''"
definition close_brace :: "char list" where "close_brace = ''SYNTAX ERROR: missing '' @ [CHR 0x27, CHR ''}'', CHR 0x27] @ '' !!''"

definition arith_ops :: "char list" where "arith_ops = ''.+-*/%''"

subsection \<open>Statements without blocks\<close>

definition parse_one_strlst :: "alloc \<Rightarrow> char list \<Rightarrow> strlist_t list pres" where
  "parse_one_strlst al p =
     expect (CHR ''('') open_paren (xmldb_eatwhite p) (\<lambda>c1.
     with_strlst al ''.'' '')'' c1 (\<lambda>l c2.
     expect (CHR '')'') close_paren (xmldb_eatwhite c2) (\<lambda>c3.
     expect (CHR '';'') semicolon (xmldb_eatwhite c3) (\<lambda>c4. Some (Inr (l, c4))))))"

text \<open>The statements with one string list. Without memory the pointer is left where it was.\<close>

definition parse_single :: "alloc \<Rightarrow> (strlist_t list \<Rightarrow> sblock_t) \<Rightarrow> char list \<Rightarrow> sblock_t pres" where
  "parse_single al f p = (if \<not> al SIZEOF_SBLOCK then SHOW_GO ''MALLOC ERROR !!'' p
     else andthen (parse_one_strlst al p) (\<lambda>l r. Some (Inr (f l, r))))"

definition parse_require where "parse_require al p = parse_single al SB_REQUIRE p"
definition parse_anchor where "parse_anchor al p = parse_single al SB_ANCHOR p"
definition parse_query where "parse_query al p = parse_single al SB_QUERY p"
definition parse_queryjs where "parse_queryjs al p = parse_single al SB_QUERYJS p"
definition parse_del where "parse_del al p = parse_single al SB_DEL p"

text \<open>Without memory the pointer that is handed back was never set: that is a fault.\<close>

definition assign_op :: "char list \<Rightarrow> (aop_t \<times> char list) option" where
  "assign_op cur =
     (if strncmp cur ''+='' 2 = 0 then Some (AOP_ADD, drop 2 cur)
      else if strncmp cur ''-='' 2 = 0 then Some (AOP_SUB, drop 2 cur)
      else if strncmp cur ''++'' 2 = 0 then Some (AOP_INCREASE, drop 2 cur)
      else if strncmp cur ''--'' 2 = 0 then Some (AOP_DECREASE, drop 2 cur)
      else if cur \<noteq> [] \<and> hd cur = CHR ''='' then Some (AOP_ASSIGN, tl cur)
      else None)"

definition parse_assign :: "alloc \<Rightarrow> char list \<Rightarrow> sblock_t pres" where
  "parse_assign al p = (if \<not> al SIZEOF_SBLOCK then None
     else do {
       (str, quote, c1) \<leftarrow> read_string_ex p ''=+-'';
       if str = [] then SHOW_GO ''SYNTAX ERROR: no variable name !!'' c1
       else (case assign_op (xmldb_eatwhite c1) of
           None \<Rightarrow> SHOW_GO ''SYNTAX ERROR: unknown operator !!'' (xmldb_eatwhite c1)
         | Some (aop, c2) \<Rightarrow>
             with_strlst al arith_ops '';'' (xmldb_eatwhite c2) (\<lambda>l c3.
             expect (CHR '';'') semicolon c3 (\<lambda>c4.
             Some (Inr (SB_ASSIGN aop (strdup al (xmldb_reatwhite str)) l, c4))))) })"

definition parse_set :: "alloc \<Rightarrow> char list \<Rightarrow> sblock_t pres" where
  "parse_set al p = (if \<not> al SIZEOF_SBLOCK then None
     else expect (CHR ''('') open_paren (xmldb_eatwhite p) (\<lambda>c1.
       with_strlst al ''.'' '','' c1 (\<lambda>node c2.
       expect (CHR '','') comma (xmldb_eatwhite c2) (\<lambda>c3.
       with_strlst al ''.'' '')'' (xmldb_eatwhite c3) (\<lambda>v c4.
       expect (CHR '')'') close_paren (xmldb_eatwhite c4) (\<lambda>c5.
       expect (CHR '';'') semicolon (xmldb_eatwhite c5) (\<lambda>c6. Some (Inr (SB_SET node v, c6)))))))))"

definition parse_echo :: "alloc \<Rightarrow> char list \<Rightarrow> sblock_t pres" where
  "parse_echo al p = (if \<not> al SIZEOF_SBLOCK then SHOW_GO ''MALLOC ERROR !!'' (xmldb_eatwhite p)
     else with_strlst al ''.'' '';'' (xmldb_eatwhite p) (\<lambda>l c1.
       expect (CHR '';'') semicolon c1 (\<lambda>c2. Some (Inr (SB_ECHO l, c2)))))"

text \<open>A pattern and an output of a map, and where they are stored: patterns are put in front of those read before, and a
  pattern that is a star replaces the default.\<close>

definition map_item :: "alloc \<Rightarrow> char list \<Rightarrow> match_t pres" where
  "map_item al cur = expect (CHR '','') comma cur (\<lambda>c1.
     if \<not> al SIZEOF_MATCH then SHOW_GO ''MALLOC ERROR!!'' c1
     else with_strlst al ''.'' '','' c1 (\<lambda>patt c2.
       expect (CHR '','') comma (xmldb_eatwhite c2) (\<lambda>c3.
       with_strlst al ''.'' '',)'' c3 (\<lambda>out c4. Some (Inr ((patt, out), xmldb_eatwhite c4))))))"

definition map_add :: "match_t \<Rightarrow> match_t option \<Rightarrow> match_t list \<Rightarrow> (match_t option \<times> match_t list) option" where
  "map_add m d ms = (case fst m of
       [] \<Rightarrow> Some (d, ms)
     | ST_STR s _ # _ \<Rightarrow> (case s of None \<Rightarrow> None | Some t \<Rightarrow> if t = ''*'' then Some (Some m, ms) else Some (d, m # ms))
     | _ \<Rightarrow> Some (d, m # ms))"

function map_loop :: "alloc \<Rightarrow> match_t option \<Rightarrow> match_t list \<Rightarrow> char list \<Rightarrow> (match_t option \<times> match_t list) pres" where
  "map_loop al d ms cur =
     (if cur = [] then Some (Inr ((d, ms), []))
      else if hd cur = CHR '')'' then Some (Inr ((d, ms), tl cur))
      else andthen (map_item al cur) (\<lambda>m r. Option.bind (map_add m d ms) (\<lambda>(d', ms'). map_loop al d' ms' r)))"
  by pat_completeness auto

lemma read_strlst_le: "read_strlst al ops stop s = Some (Inr (l, r)) \<Longrightarrow> length r \<le> length s"
  unfolding read_strlst_def by (rule strlst_loop_le)

lemma with_strlst_Inr:
  "with_strlst al ops stop cur k = Some (Inr y) \<longleftrightarrow> (\<exists>l r. read_strlst al ops stop cur = Some (Inr (l, r)) \<and> length r \<le> length cur \<and> k l r = Some (Inr y))"
  by (auto simp: with_strlst_def SHOW_GO_def split: option.split sum.split dest: read_strlst_le)

lemma expect_Inr: "expect c msg cur k = Some (Inr y) \<longleftrightarrow> (\<exists>r. cur = c # r \<and> k r = Some (Inr y))"
  by (cases cur) (auto simp: expect_def SHOW_GO_def)

lemma eatwhite_Cons: "xmldb_eatwhite s = c # r \<Longrightarrow> length r < length s"
  using eatwhite_length [of s] by simp

lemma map_item_less: "map_item al cur = Some (Inr (m, r)) \<Longrightarrow> length r < length cur"
proof -
  assume "map_item al cur = Some (Inr (m, r))"
  then obtain c1 c2 c3 c4 where "cur = CHR '','' # c1" "length c2 \<le> length c1" "xmldb_eatwhite c2 = CHR '','' # c3" "length c4 \<le> length c3"
      "r = xmldb_eatwhite c4"
    by (auto simp: map_item_def expect_Inr with_strlst_Inr SHOW_GO_def split: if_splits)
  with eatwhite_length [of c4] eatwhite_Cons [of c2] show ?thesis by simp
qed

termination map_loop
  by (relation "measure (\<lambda>(al, d, ms, cur). length cur)") (auto dest: map_item_less)

declare map_loop.simps [simp del]

definition parse_map :: "alloc \<Rightarrow> char list \<Rightarrow> sblock_t pres" where
  "parse_map al p = (if \<not> al SIZEOF_SBLOCK then None
     else expect (CHR ''('') open_paren (xmldb_eatwhite p) (\<lambda>c1.
       with_strlst al ''.'' '','' c1 (\<lambda>node c2.
       andthen (map_loop al None [] (xmldb_eatwhite c2)) (\<lambda>(d, ms) c3.
       expect (CHR '';'') semicolon (xmldb_eatwhite c3) (\<lambda>c4. Some (Inr (SB_MAP node d ms, c4)))))))"

definition log_missing :: "char \<Rightarrow> char list" where
  "log_missing c = ''SYNTAX ERROR : missing '' @ [CHR 0x27, c, CHR 0x27] @ '' !!''"

definition parse_inclog :: "alloc \<Rightarrow> char list \<Rightarrow> sblock_t pres" where
  "parse_inclog al p = (if \<not> al SIZEOF_SBLOCK then None
     else expect (CHR ''('') (log_missing (CHR ''('')) (xmldb_eatwhite p) (\<lambda>c1. do {
       (format, _, c2) \<leftarrow> read_string_ex (xmldb_eatwhite c1) '','';
       expect (CHR '','') (log_missing (CHR '','')) (xmldb_eatwhite c2) (\<lambda>c3. do {
         (logfile, _, c4) \<leftarrow> read_string_ex (xmldb_eatwhite c3) '')'';
         expect (CHR '')'') (log_missing (CHR '')'')) (xmldb_eatwhite c4) (\<lambda>c5.
         expect (CHR '';'') (log_missing (CHR '';'')) (xmldb_eatwhite c5) (\<lambda>c6.
         Some (Inr (SB_INCLOG (strdup al format) (strdup al logfile), c6)))) }) }))"

definition parse_exit :: "alloc \<Rightarrow> char list \<Rightarrow> sblock_t pres" where
  "parse_exit al p = (if \<not> al SIZEOF_SBLOCK then SHOW_GO ''MALLOC ERROR !!'' p
     else if xmldb_eatwhite p \<noteq> [] \<and> hd (xmldb_eatwhite p) = CHR '';'' then Some (Inr (SB_EXIT, tl (xmldb_eatwhite p)))
     else SHOW_GO (log_missing (CHR '';'')) p)"

subsection \<open>Conditions\<close>

definition cond_op :: "char list \<Rightarrow> (ifop_t \<times> char list) option" where
  "cond_op cur =
     (if strncmp cur ''=='' 2 = 0 then Some (IFOP_EQUAL, drop 2 cur)
      else if strncmp cur ''!='' 2 = 0 then Some (IFOP_NOTEQUAL, drop 2 cur)
      else if strncmp cur ''<='' 2 = 0 then Some (IFOP_LESSEQUAL, drop 2 cur)
      else if strncmp cur ''>='' 2 = 0 then Some (IFOP_GREATEREQUAL, drop 2 cur)
      else if cur \<noteq> [] \<and> hd cur = CHR ''>'' then Some (IFOP_GREATERTHAN, tl cur)
      else if cur \<noteq> [] \<and> hd cur = CHR ''<'' then Some (IFOP_LESSTHAN, tl cur)
      else None)"

definition cond_next :: "char list \<Rightarrow> ifnext_t \<times> char list" where
  "cond_next cur =
     (if strncmp cur ''||'' 2 = 0 then (IFNEXT_OR, drop 2 cur)
      else if strncmp cur ''&&'' 2 = 0 then (IFNEXT_AND, drop 2 cur)
      else (IFNEXT_END, cur))"

definition cond_item :: "alloc \<Rightarrow> char list \<Rightarrow> cond_t pres" where
  "cond_item al cur = (if \<not> al SIZEOF_COND then SHOW_GO ''MALLOC ERROR !!'' cur
     else with_strlst al arith_ops ''!=<>'' (xmldb_eatwhite cur) (\<lambda>l1 c1.
       case cond_op (xmldb_eatwhite c1) of
         None \<Rightarrow> SHOW_GO ''SYNTAX ERROR: unknown operator !!'' (xmldb_eatwhite c1)
       | Some (oper, c2) \<Rightarrow>
           with_strlst al arith_ops ''|&)'' (xmldb_eatwhite c2) (\<lambda>l2 c3.
             Some (Inr (\<lparr>operand1 = l1, operand2 = l2, c_op = oper, c_next = fst (cond_next (xmldb_eatwhite c3))\<rparr>,
               snd (cond_next (xmldb_eatwhite c3)))))))"

function cond_loop :: "alloc \<Rightarrow> char list \<Rightarrow> cond_t list pres" where
  "cond_loop al cur = andthen (cond_item al cur) (\<lambda>c r.
     if c_next c = IFNEXT_END \<or> r = [] then Some (Inr ([c], r))
     else andthen (cond_loop al r) (\<lambda>cs r2. Some (Inr (c # cs, r2))))"
  by pat_completeness auto

lemma strncmp_ne: "strncmp cur s n = 0 \<Longrightarrow> s \<noteq> [] \<Longrightarrow> n > 0 \<Longrightarrow> cur \<noteq> []"
  by (cases s; cases n) (auto simp: strncmp_zero)

lemma cond_op_less: "cond_op cur = Some (x, r) \<Longrightarrow> length r < length cur"
  by (cases cur) (auto simp: cond_op_def dest: strncmp_ne split: if_splits)

lemma cond_next_le: "length (snd (cond_next cur)) \<le> length cur"
  by (simp add: cond_next_def)

lemma cond_item_less: "cond_item al cur = Some (Inr (c, r)) \<Longrightarrow> length r < length cur"
proof -
  assume "cond_item al cur = Some (Inr (c, r))"
  then obtain c1 oper c2 c3 where c: "length c1 \<le> length (xmldb_eatwhite cur)" "cond_op (xmldb_eatwhite c1) = Some (oper, c2)"
      "length c3 \<le> length (xmldb_eatwhite c2)" "r = snd (cond_next (xmldb_eatwhite c3))"
    by (auto simp: cond_item_def with_strlst_Inr SHOW_GO_def split: if_splits option.splits)
  from c(1,3,4) cond_op_less [OF c(2)] cond_next_le [of "xmldb_eatwhite c3"] show ?thesis
    using eatwhite_length [of cur] eatwhite_length [of c1] eatwhite_length [of c2] eatwhite_length [of c3] by simp
qed

termination cond_loop by (relation "measure (\<lambda>(al, cur). length cur)") (auto dest: cond_item_less)

declare cond_loop.simps [simp del]

lemma cond_loop_le: "cond_loop al cur = Some (Inr (cs, r)) \<Longrightarrow> length r \<le> length cur"
proof (induction al cur arbitrary: cs r rule: cond_loop.induct)
  case (1 al cur)
  from 1(2) obtain c r1 where i: "cond_item al cur = Some (Inr (c, r1))"
    by (subst (asm) cond_loop.simps) (auto simp: andthen_Inr)
  note l = cond_item_less [OF i]
  show ?case
  proof (cases "c_next c = IFNEXT_END \<or> r1 = []")
    case True
    with 1(2) i have "r = r1" by (subst (asm) cond_loop.simps) (auto simp: andthen_def)
    with l show ?thesis by simp
  next
    case False
    with 1(2) i obtain cs' where "cond_loop al r1 = Some (Inr (cs', r))"
      by (subst (asm) cond_loop.simps) (auto simp: andthen_Inr)
    with 1(1) [OF i False this] l show ?thesis by simp
  qed
qed

subsection \<open>Blocks\<close>

definition if_head :: "alloc \<Rightarrow> char list \<Rightarrow> cond_t list pres" where
  "if_head al p = (if \<not> al SIZEOF_SBLOCK then None
     else expect (CHR ''('') open_paren (xmldb_eatwhite p) (\<lambda>c1.
       andthen (cond_loop al c1) (\<lambda>cs c2.
       expect (CHR '')'') (''SYNATX ERROR: missing '' @ [CHR 0x27, CHR '')'', CHR 0x27] @ '' !!'') (xmldb_eatwhite c2) (\<lambda>c3.
       expect (CHR ''{'') open_brace (xmldb_eatwhite c3) (\<lambda>c4. Some (Inr (cs, c4)))))))"

definition for_head :: "alloc \<Rightarrow> char list \<Rightarrow> strlist_t list pres" where
  "for_head al p = (if \<not> al SIZEOF_SBLOCK then None
     else expect (CHR ''('') open_paren (xmldb_eatwhite p) (\<lambda>c1.
       with_strlst al ''.'' '')'' c1 (\<lambda>node c2.
       expect (CHR '')'') close_paren (xmldb_eatwhite c2) (\<lambda>c3.
       expect (CHR ''{'') open_brace (xmldb_eatwhite c3) (\<lambda>c4. Some (Inr (node, c4)))))))"

text \<open>The statements without blocks, by their keywords, in the order in which the words are tried.\<close>

definition keyword :: "char list \<Rightarrow> char list \<Rightarrow> bool" where
  "keyword w cur \<longleftrightarrow> strncmp cur w (length w) = 0"

definition parse_plain :: "alloc \<Rightarrow> char list \<Rightarrow> sblock_t pres option" where
  "parse_plain al cur =
     (if hd cur = CHR ''$'' then Some (parse_assign al (tl cur))
      else if keyword ''require'' cur then Some (parse_require al (drop 7 cur))
      else if keyword ''anchor'' cur then Some (parse_anchor al (drop 6 cur))
      else if keyword ''queryjs'' cur then Some (parse_queryjs al (drop 7 cur))
      else if keyword ''query'' cur then Some (parse_query al (drop 5 cur))
      else if keyword ''del'' cur then Some (parse_del al (drop 3 cur))
      else if keyword ''set'' cur then Some (parse_set al (drop 3 cur))
      else if keyword ''echo'' cur then Some (parse_echo al (drop 4 cur))
      else if keyword ''map'' cur then Some (parse_map al (drop 3 cur))
      else if keyword ''inclog'' cur then Some (parse_inclog al (drop 6 cur))
      else if keyword ''exit'' cur then Some (parse_exit al (drop 4 cur))
      else None)"

definition syntax_error :: "char list \<Rightarrow> char list \<Rightarrow> char list" where
  "syntax_error marks cur = ''EPHP: syntax error'' @ marks @ [NL] @ cur"

text \<open>The message that \<^verbatim>\<open>parse_ephp\<close> adds to that of a statement.\<close>

definition complain :: "'a pres \<Rightarrow> 'a pres" where
  "complain x = map_option (map_sum (\<lambda>(msg, r). (msg @ syntax_error ''!!!!'' r, r)) id) x"

definition one_block :: "sblock_t pres \<Rightarrow> sblock_t list pres" where
  "one_block x = andthen x (\<lambda>b r. Some (Inr ([b], r)))"

text \<open>\<^verbatim>\<open>parse_ephp\<close> reads statements up to a closing brace or the end of the text. An \<^verbatim>\<open>else\<close> that is followed by neither a brace nor
  \<^verbatim>\<open>if\<close> is taken as a success, but the statement is not added to the list.\<close>

function parse_ephp :: "alloc \<Rightarrow> char list \<Rightarrow> sblock_t list pres"
and parse_if :: "alloc \<Rightarrow> char list \<Rightarrow> sblock_t list pres"
and parse_for :: "alloc \<Rightarrow> char list \<Rightarrow> sblock_t list pres"
where
  "parse_ephp al p = (let cur = xmldb_eatwhite p in
     if cur = [] \<or> hd cur = CHR ''}'' then Some (Inr ([], cur))
     else if \<not> keyword ''if'' cur \<and> \<not> keyword ''for'' cur \<and> parse_plain al cur = None then
       Some (Inl (syntax_error ''!!!'' cur, cur))
     else andthen (complain (if keyword ''if'' cur then parse_if al (drop 2 cur)
         else if keyword ''for'' cur then parse_for al (drop 3 cur)
         else one_block (the (parse_plain al cur)))) (\<lambda>bs r.
       andthen (parse_ephp al r) (\<lambda>cs r2. Some (Inr (bs @ cs, r2)))))"
| "parse_if al p = andthen (if_head al p) (\<lambda>cs c1.
     andthen (parse_ephp al c1) (\<lambda>yes c2.
       if c2 = [] \<or> hd c2 \<noteq> CHR ''}'' then SHOW_GO close_brace c2
       else let c3 = xmldb_eatwhite (tl c2) in
         if \<not> keyword ''else'' c3 then Some (Inr ([SB_IF cs yes []], c3))
         else let c4 = xmldb_eatwhite (drop 4 c3) in
           if c4 \<noteq> [] \<and> hd c4 = CHR ''{'' then
             andthen (parse_ephp al (tl c4)) (\<lambda>no c5.
               if c5 = [] \<or> hd c5 \<noteq> CHR ''}'' then SHOW_GO close_brace c5 else Some (Inr ([SB_IF cs yes no], tl c5)))
           else if keyword ''if'' c4 then
             andthen (parse_if al (drop 2 c4)) (\<lambda>no c5. Some (Inr ([SB_IF cs yes no], c5)))
           else Some (Inr ([], c4))))"
| "parse_for al p = andthen (for_head al p) (\<lambda>node c1.
     andthen (parse_ephp al c1) (\<lambda>b c2.
       if c2 = [] \<or> hd c2 \<noteq> CHR ''}'' then SHOW_GO close_brace c2 else Some (Inr ([SB_FOR node b], tl c2))))"
  by pat_completeness auto

lemma expect_eat: "expect c msg (xmldb_eatwhite s) k = Some (Inr y) \<Longrightarrow> \<exists>r. length r < length s \<and> k r = Some (Inr y)"
  by (auto simp: expect_Inr dest: eatwhite_Cons)

lemma with_strlst_eat: "with_strlst al ops stop (xmldb_eatwhite s) k = Some (Inr y) \<Longrightarrow> \<exists>l r. length r \<le> length s \<and> k l r = Some (Inr y)"
  by (simp add: with_strlst_Inr) (meson eatwhite_length le_trans)

lemma with_strlst_D: "with_strlst al ops stop s k = Some (Inr y) \<Longrightarrow> \<exists>l r. length r \<le> length s \<and> k l r = Some (Inr y)"
  by (auto simp: with_strlst_Inr)

lemma expect_D: "expect c msg s k = Some (Inr y) \<Longrightarrow> \<exists>r. length r < length s \<and> k r = Some (Inr y)"
  by (auto simp: expect_Inr)

lemma parse_one_le: "parse_one_strlst al p = Some (Inr (l, r)) \<Longrightarrow> length r \<le> length p"
  unfolding parse_one_strlst_def by (drule expect_eat with_strlst_D, clarify)+ simp

lemma parse_single_le: "parse_single al f p = Some (Inr (b, r)) \<Longrightarrow> length r \<le> length p"
  by (auto simp: parse_single_def SHOW_GO_def andthen_Inr split: if_splits dest: parse_one_le)

lemma parse_set_le: "parse_set al p = Some (Inr (b, r)) \<Longrightarrow> length r \<le> length p"
  unfolding parse_set_def by (cases "al SIZEOF_SBLOCK") (simp_all, (drule expect_eat with_strlst_D with_strlst_eat, clarify)+, simp)

lemma parse_echo_le: "parse_echo al p = Some (Inr (b, r)) \<Longrightarrow> length r \<le> length p"
  unfolding parse_echo_def by (cases "al SIZEOF_SBLOCK") (simp_all add: SHOW_GO_def, (drule expect_D with_strlst_eat, clarify)+, simp)

lemma assign_op_le: "assign_op cur = Some (x, r) \<Longrightarrow> length r \<le> length cur"
  by (auto simp: assign_op_def split: if_splits)

lemma parse_assign_le: "parse_assign al p = Some (Inr (b, r)) \<Longrightarrow> length r \<le> length p"
proof -
  assume a: "parse_assign al p = Some (Inr (b, r))"
  then obtain str q c1 where 1: "read_string_ex p ''=+-'' = Some (str, q, c1)"
    by (auto simp: parse_assign_def bind_Some_iff split: if_splits)
  with a obtain aop c2 where 2: "assign_op (xmldb_eatwhite c1) = Some (aop, c2)"
    by (auto simp: parse_assign_def SHOW_GO_def split: if_splits option.splits)
  from a 1 2 have "with_strlst al arith_ops '';'' (xmldb_eatwhite c2) (\<lambda>l c3. expect (CHR '';'') semicolon c3 (\<lambda>c4.
      Some (Inr (SB_ASSIGN aop (strdup al (xmldb_reatwhite str)) l, c4)))) = Some (Inr (b, r))"
    by (auto simp: parse_assign_def SHOW_GO_def split: if_splits)
  then have "length r \<le> length c2" by - (drule expect_D with_strlst_eat, clarify, drule expect_D, auto)
  with read_string_ex_length [OF 1] assign_op_le [OF 2] eatwhite_length [of c1] show ?thesis by simp
qed

lemma map_loop_le: "map_loop al d ms cur = Some (Inr (x, r)) \<Longrightarrow> length r \<le> length cur"
proof (induction al d ms cur arbitrary: x r rule: map_loop.induct)
  case (1 al d ms cur)
  show ?case
  proof (cases "cur = [] \<or> hd cur = CHR '')''")
    case True
    with 1(2) show ?thesis by (subst (asm) map_loop.simps) (auto split: if_splits)
  next
    case False
    with 1(2) obtain m r1 d' ms' where i: "map_item al cur = Some (Inr (m, r1))" "map_add m d ms = Some (d', ms')"
      "map_loop al d' ms' r1 = Some (Inr (x, r))"
      by (subst (asm) map_loop.simps) (auto simp: andthen_Inr bind_Some_iff)
    from 1(1) [OF _ _ i(1,2) refl i(3)] False map_item_less [OF i(1)] show ?thesis by auto
  qed
qed

lemma parse_map_le: "parse_map al p = Some (Inr (b, r)) \<Longrightarrow> length r \<le> length p"
proof -
  assume "parse_map al p = Some (Inr (b, r))"
  then obtain c1 c2 x c3 where c: "xmldb_eatwhite p = CHR ''('' # c1" "length c2 \<le> length c1"
      "map_loop al None [] (xmldb_eatwhite c2) = Some (Inr (x, c3))" "xmldb_eatwhite c3 = CHR '';'' # r"
    by (auto simp: parse_map_def expect_Inr with_strlst_Inr andthen_Inr split: if_splits)
  with map_loop_le [OF c(3)] eatwhite_Cons [OF c(1)] eatwhite_Cons [OF c(4)] eatwhite_length [of c2] show ?thesis by simp
qed

lemma parse_inclog_le: "parse_inclog al p = Some (Inr (b, r)) \<Longrightarrow> length r \<le> length p"
proof -
  assume "parse_inclog al p = Some (Inr (b, r))"
  then obtain c1 x q c2 c3 y q' c4 c5 where c: "xmldb_eatwhite p = CHR ''('' # c1" "read_string_ex (xmldb_eatwhite c1) '','' = Some (x, q, c2)"
      "xmldb_eatwhite c2 = CHR '','' # c3" "read_string_ex (xmldb_eatwhite c3) '')'' = Some (y, q', c4)"
      "xmldb_eatwhite c4 = CHR '')'' # c5" "xmldb_eatwhite c5 = CHR '';'' # r"
    by (auto simp: parse_inclog_def expect_Inr bind_Some_iff split: if_splits)
  with eatwhite_Cons [OF c(1)] eatwhite_Cons [OF c(3)] eatwhite_Cons [OF c(5)] eatwhite_Cons [OF c(6)] read_string_ex_length [OF c(2)]
    read_string_ex_length [OF c(4)] eatwhite_length [of c1] eatwhite_length [of c3] show ?thesis by simp
qed

lemma parse_exit_le: "parse_exit al p = Some (Inr (b, r)) \<Longrightarrow> length r \<le> length p"
  using eatwhite_length [of p] by (auto simp: parse_exit_def SHOW_GO_def split: if_splits)

lemmas parse_keyword_defs = parse_require_def parse_anchor_def parse_query_def parse_queryjs_def parse_del_def

lemma parse_plain_less:
  assumes "parse_plain al cur = Some (Some (Inr (b, r)))" and "cur \<noteq> []"
  shows "length r < length cur"
proof -
  obtain f k where k: "k > 0" "f (drop k cur) = Some (Inr (b, r))"
    "f \<in> {parse_assign al, parse_single al SB_REQUIRE, parse_single al SB_ANCHOR, parse_single al SB_QUERY, parse_single al SB_QUERYJS,
      parse_single al SB_DEL, parse_set al, parse_echo al, parse_map al, parse_inclog al, parse_exit al}"
    using assms(1) by (auto simp: parse_plain_def parse_keyword_defs drop_Suc split: if_splits)
      (metis One_nat_def drop0 drop_Suc insertCI zero_less_one zero_less_numeral)+
  have "length r \<le> length (drop k cur)"
    using k(2,3) by (auto simp del: length_drop
        dest: parse_assign_le parse_single_le parse_set_le parse_echo_le parse_map_le parse_inclog_le parse_exit_le)
  with k(1) assms(2) show ?thesis by (cases cur) auto
qed

lemma if_head_less: "if_head al p = Some (Inr (x, r)) \<Longrightarrow> length r < length p"
proof -
  assume "if_head al p = Some (Inr (x, r))"
  then obtain c1 c2 c3 where c: "xmldb_eatwhite p = CHR ''('' # c1" "cond_loop al c1 = Some (Inr (x, c2))"
      "xmldb_eatwhite c2 = CHR '')'' # c3" "xmldb_eatwhite c3 = CHR ''{'' # r"
    by (auto simp: if_head_def expect_Inr andthen_Inr split: if_splits)
  with cond_loop_le [OF c(2)] eatwhite_Cons [OF c(1)] eatwhite_Cons [OF c(3)] eatwhite_Cons [OF c(4)] show ?thesis by simp
qed

lemma for_head_less: "for_head al p = Some (Inr (x, r)) \<Longrightarrow> length r < length p"
proof -
  assume "for_head al p = Some (Inr (x, r))"
  then obtain c1 c2 c3 where c: "xmldb_eatwhite p = CHR ''('' # c1" "length c2 \<le> length c1"
      "xmldb_eatwhite c2 = CHR '')'' # c3" "xmldb_eatwhite c3 = CHR ''{'' # r"
    by (auto simp: for_head_def expect_Inr with_strlst_Inr split: if_splits)
  with eatwhite_Cons [OF c(1)] eatwhite_Cons [OF c(3)] eatwhite_Cons [OF c(4)] show ?thesis by simp
qed

lemma complain_Inr: "complain x = Some (Inr y) \<longleftrightarrow> x = Some (Inr y)"
  by (cases x; cases "the x") (auto simp: complain_def)

lemma one_block_Inr: "one_block x = Some (Inr (bs, r)) \<longleftrightarrow> (\<exists>b. x = Some (Inr (b, r)) \<and> bs = [b])"
  by (auto simp: one_block_def andthen_Inr)

lemma parse_partial:
  "parse_ephp_parse_if_parse_for_dom (Inl (al, p)) \<Longrightarrow> parse_ephp al p = Some (Inr (b, r)) \<Longrightarrow> length r \<le> length p"
  "parse_ephp_parse_if_parse_for_dom (Inr (Inl (al, p))) \<Longrightarrow> parse_if al p = Some (Inr (b, r)) \<Longrightarrow> length r \<le> length p"
  "parse_ephp_parse_if_parse_for_dom (Inr (Inr (al, p))) \<Longrightarrow> parse_for al p = Some (Inr (b, r)) \<Longrightarrow> length r \<le> length p"
proof (induction al p and al p and al p arbitrary: b r and b r and b r rule: parse_ephp_parse_if_parse_for.pinduct)
  case (1 al p)
  define cur where "cur = xmldb_eatwhite p"
  note eq = 1(5) [unfolded parse_ephp.psimps [OF 1(1)] Let_def, folded cur_def]
  show ?case
  proof (cases "cur = [] \<or> hd cur = CHR ''}''")
    case True
    with eq have "r = cur" by simp
    then show ?thesis unfolding cur_def by (simp add: eatwhite_length)
  next
    case False
    let ?s = "if keyword ''if'' cur then parse_if al (drop 2 cur)
       else if keyword ''for'' cur then parse_for al (drop 3 cur) else one_block (the (parse_plain al cur))"
    from eq False have k: "\<not> (\<not> keyword ''if'' cur \<and> \<not> keyword ''for'' cur \<and> parse_plain al cur = None)" by (auto split: if_splits)
    with eq False obtain bs r1 cs where s: "?s = Some (Inr (bs, r1))" "parse_ephp al r1 = Some (Inr (cs, r))"
      by (auto simp: andthen_Inr complain_Inr)
    have "length r1 < length cur"
    proof (cases "keyword ''if'' cur")
      case True
      with s(1) 1(2) [OF cur_def False k True, of bs r1] False show ?thesis by (cases cur) auto
    next
      case nif: False
      show ?thesis
      proof (cases "keyword ''for'' cur")
        case True
        with s(1) nif 1(3) [OF cur_def False k nif True, of bs r1] False show ?thesis by (cases cur) auto
      next
        case nfor: False
        with s(1) nif obtain b' where "the (parse_plain al cur) = Some (Inr (b', r1))" by (auto simp: one_block_Inr)
        with k nif nfor parse_plain_less [of al cur b' r1] False show ?thesis by auto
      qed
    qed
    moreover have "length r \<le> length r1"
      by (rule 1(4) [OF cur_def False k _ s(2)]) (simp only: complain_Inr s(1))
    ultimately show ?thesis using eatwhite_length [of p] unfolding cur_def [symmetric] by simp
  qed
next
  case (2 al p)
  note eq = 2(5) [unfolded parse_if.psimps [OF 2(1)] Let_def]
  from eq obtain cs c1 yes c2 where c: "if_head al p = Some (Inr (cs, c1))" "parse_ephp al c1 = Some (Inr (yes, c2))"
    "c2 \<noteq> []" "hd c2 = CHR ''}''"
    by (auto simp: andthen_Inr SHOW_GO_def split: if_splits)
  have l: "length c2 < length p" using if_head_less [OF c(1)] 2(2) [OF c(1,2)] by simp
  have c': "\<not> (c2 = [] \<or> hd c2 \<noteq> CHR ''}'')" using c(3,4) by simp
  define c3 where "c3 = xmldb_eatwhite (tl c2)"
  define c4 where "c4 = xmldb_eatwhite (drop 4 c3)"
  have l4: "length c3 \<le> length c2" "length c4 \<le> length c3"
    using eatwhite_length [of "tl c2"] eatwhite_length [of "drop 4 c3"] by (simp_all add: c3_def c4_def)
  have eq': "(if \<not> keyword ''else'' c3 then Some (Inr ([SB_IF cs yes []], c3))
    else if c4 \<noteq> [] \<and> hd c4 = CHR ''{'' then
      andthen (parse_ephp al (tl c4)) (\<lambda>no c5.
        if c5 = [] \<or> hd c5 \<noteq> CHR ''}'' then SHOW_GO close_brace c5 else Some (Inr ([SB_IF cs yes no], tl c5)))
    else if keyword ''if'' c4 then andthen (parse_if al (drop 2 c4)) (\<lambda>no c5. Some (Inr ([SB_IF cs yes no], c5)))
    else Some (Inr ([], c4))) = Some (Inr (b, r))"
    using eq [unfolded c(1,2) andthen_simps if_not_P [OF c'], folded c3_def, folded c4_def] .
  show ?case
  proof (cases "keyword ''else'' c3")
    case False
    with eq' l l4 show ?thesis by auto
  next
    case e: True
    note e' = e [THEN not_not [THEN iffD2]]
    show ?thesis
    proof (cases "c4 \<noteq> [] \<and> hd c4 = CHR ''{''")
      case b: True
      with eq' e c(3,4) obtain no c5 where n: "parse_ephp al (tl c4) = Some (Inr (no, c5))" "r = tl c5"
        by (auto simp: SHOW_GO_def andthen_Inr split: if_splits)
      from 2(3) [OF c(1,2) c' c3_def e' c4_def b n(1)] n(2) l l4 show ?thesis by simp
    next
      case nb: False
      show ?thesis
      proof (cases "keyword ''if'' c4")
        case i: True
        with eq' e nb c(3,4) obtain no where n: "parse_if al (drop 2 c4) = Some (Inr (no, r))"
          by (auto simp: andthen_Inr split: if_splits)
        from 2(4) [OF c(1,2) c' c3_def e' c4_def nb i n(1)] l l4 show ?thesis by simp
      next
        case False
        with eq' e nb c(3,4) l l4 show ?thesis by (auto split: if_splits)
      qed
    qed
  qed
next
  case (3 al p)
  note eq = 3(3) [unfolded parse_for.psimps [OF 3(1)]]
  from eq obtain node c1 b' c2 where c: "for_head al p = Some (Inr (node, c1))" "parse_ephp al c1 = Some (Inr (b', c2))" "r = tl c2"
    by (auto simp: andthen_Inr SHOW_GO_def split: if_splits)
  with for_head_less [OF c(1)] 3(2) [OF c(1,2)] show ?case by simp
qed

lemma drop_eat_less: "xmldb_eatwhite p \<noteq> [] \<Longrightarrow> 0 < n \<Longrightarrow> length (drop n (xmldb_eatwhite p)) < length p"
  using eatwhite_length [of p] by (cases "xmldb_eatwhite p") auto

lemma parse_total: "All parse_ephp_parse_if_parse_for_dom"
proof (relation "measure (\<lambda>x. case x of Inl (al, p) \<Rightarrow> length p | Inr (Inl (al, p)) \<Rightarrow> length p | Inr (Inr (al, p)) \<Rightarrow> length p)", goal_cases)
  case 1
  show ?case by simp
next
  case (2 al p x)
  then show ?case using drop_eat_less [of p 2] by auto
next
  case (3 al p x)
  then show ?case using drop_eat_less [of p 3] by auto
next
  case (4 al p x bs r)
  note k = 4(3) and d = 4(5,6)
  have s: "(if keyword ''if'' x then parse_if al (drop 2 x) else if keyword ''for'' x then parse_for al (drop 3 x)
      else one_block (the (parse_plain al x))) = Some (Inr (bs, r))"
    using 4(4) by (simp only: complain_Inr)
  have ne: "x \<noteq> []" and lx: "length x \<le> length p" using 4(1,2) eatwhite_length [of p] by auto
  have "length r < length x"
  proof (cases "keyword ''if'' x \<or> keyword ''for'' x")
    case True
    with s d have "length r \<le> length (drop 2 x) \<or> length r \<le> length (drop 3 x)"
      using parse_partial(2) [of al "drop 2 x" bs r] parse_partial(3) [of al "drop 3 x" bs r] by (auto simp del: length_drop split: if_splits)
    with ne show ?thesis by (cases x) auto
  next
    case False
    with s obtain b where "the (parse_plain al x) = Some (Inr (b, r))" by (auto simp: one_block_Inr)
    with k False parse_plain_less [of al x b r] ne show ?thesis by auto
  qed
  with lx show ?case by simp
next
  case (5 al p cs c1)
  then show ?case using if_head_less by simp
next
  case (6 al p cs c1 yes c2 c3 c4)
  then show ?case
    using if_head_less [of al p cs c1] parse_partial(1) [of al c1 yes c2] eatwhite_length [of "tl c2"] eatwhite_length [of "drop 4 c3"] by (cases c4) auto
next
  case (7 al p cs c1 yes c2 c3 c4)
  then show ?case
    using if_head_less [of al p cs c1] parse_partial(1) [of al c1 yes c2] eatwhite_length [of "tl c2"] eatwhite_length [of "drop 4 c3"] by auto
next
  case 8
  then show ?case using for_head_less by simp
qed

termination parse_ephp by (rule parse_total)

declare parse_ephp.simps [simp del] parse_if.simps [simp del] parse_for.simps [simp del]

text \<open>An allocator that does not fail.\<close>

abbreviation plenty :: alloc where "plenty \<equiv> \<lambda>_. True"

end
