(* ===== verification/Rgdb_Client.thy ===== *)
theory Rgdb_Client
  imports Xmldb_Patch
begin

text \<open>
  The clients of the configuration database: the library \<^verbatim>\<open>tools/alpha/rgdb/lrgbin.c\<close> and the command \<^verbatim>\<open>tools/alpha/rgdb/rgdb.c\<close>,
  with the request header of \<^verbatim>\<open>rgdb.h\<close>. A connection is what has been written to it and the list of what the calls of
  \<^verbatim>\<open>read\<close> return; an empty piece, or no piece, means that the peer has closed it. The parameters \<open>w1\<close> and \<open>w2\<close> say whether
  the two calls of \<^verbatim>\<open>write\<close> succeed. An uninitialised result is \<open>None\<close>, as is an access outside an object.
\<close>

subsection \<open>The request header\<close>

record rgdb_ipc_t =
  ipc_action :: u16
  ipc_length :: u16
  ipc_flags :: u32
  ipc_retcode :: u32

definition RGDB_NONE :: u16 where "RGDB_NONE = 0"
definition RGDB_GET :: u16 where "RGDB_GET = 1"
definition RGDB_SET :: u16 where "RGDB_SET = 2"
definition RGDB_DEL :: u16 where "RGDB_DEL = 3"
definition RGDB_RELOAD :: u16 where "RGDB_RELOAD = 4"
definition RGDB_DUMP :: u16 where "RGDB_DUMP = 5"
definition RGDB_PATCH :: u16 where "RGDB_PATCH = 6"
definition RGDB_PATCH_BUFF :: u16 where "RGDB_PATCH_BUFF = 7"
definition RGDB_SET_NOTIFY :: u16 where "RGDB_SET_NOTIFY = 8"
definition RGDB_EPHP :: u16 where "RGDB_EPHP = 10"
definition RGDB_SKIP_PROC :: u32 where "RGDB_SKIP_PROC = 0x00010000"

text \<open>The packed structure in the memory of a big-endian machine.\<close>

definition u16_image :: "u16 \<Rightarrow> char list" where
  "u16_image w = map char_of [unat w div 2 ^ 8, unat w]"

definition u32_image :: "u32 \<Rightarrow> char list" where
  "u32_image w = map char_of [unat w div 2 ^ 24, unat w div 2 ^ 16, unat w div 2 ^ 8, unat w]"

definition u16_at :: "char list \<Rightarrow> u16" where
  "u16_at cs = of_nat (of_char (cs ! 0) * 2 ^ 8 + of_char (cs ! 1))"

definition u32_at :: "char list \<Rightarrow> u32" where
  "u32_at cs = of_nat (of_char (cs ! 0) * 2 ^ 24 + of_char (cs ! 1) * 2 ^ 16 + of_char (cs ! 2) * 2 ^ 8 + of_char (cs ! 3))"

definition ipc_image :: "rgdb_ipc_t \<Rightarrow> char list" where
  "ipc_image i = u16_image (ipc_action i) @ u16_image (ipc_length i) @ u32_image (ipc_flags i) @ u32_image (ipc_retcode i)"

definition ipc_of :: "char list \<Rightarrow> rgdb_ipc_t" where
  "ipc_of cs = \<lparr>ipc_action = u16_at cs, ipc_length = u16_at (drop 2 cs), ipc_flags = u32_at (drop 4 cs), ipc_retcode = u32_at (drop 8 cs)\<rparr>"

lemma image_length [simp]: "length (u16_image w) = 2" "length (u32_image v) = 4" "length (ipc_image i) = 12"
  by (simp_all add: u16_image_def u32_image_def ipc_image_def)

lemma u16_at_image [simp]: "u16_at (u16_image w @ r) = w"
proof -
  have "unat w < 2 ^ 16" using unsigned_less [of w] by simp
  then have "unat w div 256 mod 256 * 256 + unat w mod 256 = unat w" by (simp add: mod_less div_less_iff_less_mult)
  then show ?thesis by (simp add: u16_at_def u16_image_def)
qed

lemma u32_at_image [simp]: "u32_at (u32_image w @ r) = w"
proof -
  let ?n = "unat w"
  have n: "?n < 2 ^ 32" using unsigned_less [of w] by simp
  have e: "?n div 65536 = ?n div 256 div 256" "?n div 16777216 = ?n div 256 div 256 div 256"
    by (simp_all add: div_mult2_eq [symmetric])
  have "?n div 256 div 256 div 256 mod 256 = ?n div 256 div 256 div 256" using n by (simp add: div_less_iff_less_mult)
  with div_mult_mod_eq [of ?n 256] div_mult_mod_eq [of "?n div 256" 256] div_mult_mod_eq [of "?n div 256 div 256" 256]
  have "?n div 16777216 mod 256 * 16777216 + ?n div 65536 mod 256 * 65536 + ?n div 256 mod 256 * 256 + ?n mod 256 = ?n"
    unfolding e by linarith
  moreover have "u32_at (u32_image w @ r) = of_nat
      (?n div 16777216 mod 256 * 16777216 + ?n div 65536 mod 256 * 65536 + ?n div 256 mod 256 * 256 + ?n mod 256)"
    by (simp add: u32_at_def u32_image_def)
  ultimately have "u32_at (u32_image w @ r) = of_nat ?n" by (simp only:)
  then show ?thesis by simp
qed

lemma ipc_of_image [simp]: "ipc_of (ipc_image i @ r) = i"
proof -
  have "drop 2 (ipc_image i @ r) = u16_image (ipc_length i) @ u32_image (ipc_flags i) @ u32_image (ipc_retcode i) @ r"
    "drop 4 (ipc_image i @ r) = u32_image (ipc_flags i) @ u32_image (ipc_retcode i) @ r"
    "drop 8 (ipc_image i @ r) = u32_image (ipc_retcode i) @ r"
    by (simp_all add: ipc_image_def)
  moreover have "u16_at (ipc_image i @ r) = ipc_action i" by (simp add: ipc_image_def)
  ultimately show ?thesis by (simp add: ipc_of_def)
qed

subsection \<open>Strings and shell output\<close>

definition lrgbin_white :: "char \<Rightarrow> bool" where
  "lrgbin_white c \<longleftrightarrow> c = CHR '' '' \<or> c = CHR 0x09"

definition lrgbin_eatwhite :: "char list \<Rightarrow> char list" where
  "lrgbin_eatwhite s = dropWhile lrgbin_white s"

definition lrgbin_reatwhite :: "char list \<Rightarrow> char list" where
  "lrgbin_reatwhite s = rev (dropWhile lrgbin_white (rev s))"

text \<open>\<open>out\<close> is what the command prints, \<open>None\<close> when it cannot be started. With no output the byte before the buffer is read.\<close>

definition lrgbin_run_shell :: "nat \<Rightarrow> char list option \<Rightarrow> (int \<times> char list) option" where
  "lrgbin_run_shell size_b out = (case out of None \<Rightarrow> Some (-1, [])
     | Some cs \<Rightarrow> (let s = cut (take (size_b - 1) cs) in
         if s = [] then None else Some (0, if last s = NL then butlast s else s)))"

subsection \<open>Arrays of pointers\<close>

record 'a parray_t =
  pa_growsby :: nat
  pa_size :: nat
  pa_array :: "'a option list option"

definition lrgbin_pa_init :: "nat \<Rightarrow> 'a parray_t" where
  "lrgbin_pa_init growsby = \<lparr>pa_growsby = (if growsby \<noteq> 0 then growsby else 16), pa_size = 0, pa_array = None\<rparr>"

text \<open>The objects that are freed, and the new array.\<close>

definition lrgbin_pa_destroy :: "bool \<Rightarrow> 'a parray_t \<Rightarrow> 'a list \<times> 'a parray_t" where
  "lrgbin_pa_destroy do_free pa =
     ((case pa_array pa of Some xs \<Rightarrow> if pa_size pa > 0 \<and> do_free then [x. Some x \<leftarrow> take (pa_size pa) xs] else [] | None \<Rightarrow> []),
      lrgbin_pa_init 16)"

definition lrgbin_pa_grows :: "alloc \<Rightarrow> nat \<Rightarrow> 'a parray_t \<Rightarrow> int \<times> 'a parray_t" where
  "lrgbin_pa_grows al n pa =
     (if pa_size pa \<ge> n then (0, pa)
      else if \<not> al (n * 4) then (-1, pa)
      else (0, pa\<lparr>pa_size := n, pa_array := Some
        ((case pa_array pa of None \<Rightarrow> replicate (pa_size pa) None | Some xs \<Rightarrow> take (pa_size pa) xs) @ replicate (n - pa_size pa) None)\<rparr>))"

definition lrgbin_pa_get_nth :: "nat \<Rightarrow> 'a parray_t \<Rightarrow> 'a option option" where
  "lrgbin_pa_get_nth i pa = (if i \<ge> pa_size pa then Some None else Option.bind (pa_array pa) (\<lambda>xs. rd xs i))"

definition lrgbin_pa_set_nth ::
    "alloc \<Rightarrow> nat \<Rightarrow> 'a option \<Rightarrow> bool \<Rightarrow> 'a parray_t \<Rightarrow> (int \<times> 'a list \<times> 'a parray_t) option" where
  "lrgbin_pa_set_nth al i p do_free pa =
     (case (if i \<ge> pa_size pa then lrgbin_pa_grows al (pa_size pa + pa_growsby pa) pa else (0, pa)) of (r, pa1) \<Rightarrow>
        if r < 0 then Some (r, [], pa1)
        else do {
          xs \<leftarrow> pa_array pa1;
          old \<leftarrow> rd xs i;
          ys \<leftarrow> wr xs i p;
          Some (0, (if do_free then (case old of None \<Rightarrow> [] | Some x \<Rightarrow> [x]) else []), pa1\<lparr>pa_array := Some ys\<rparr>) })"

subsection \<open>Days and lines\<close>

definition all_days :: "char list" where
  "all_days = ''Sun,Mon,Tue,Wed,Thu,Fri,Sat,Sun,Mon,Tue,Wed,Thu,Fri,Sat,''"

text \<open>\<^verbatim>\<open>memcpy(_days, &__days[start*4], n)\<close> and the terminating NUL.\<close>

definition days_slice :: "int \<Rightarrow> int \<Rightarrow> char list option" where
  "days_slice start n = (if 0 \<le> start \<and> 0 \<le> n \<and> start * 4 + n \<le> 57 \<and> n < 32
     then Some (take (nat n) (drop (nat (start * 4)) (all_days @ [NUL]))) else None)"

definition lrgbin_getdaystring :: "int \<Rightarrow> int \<Rightarrow> char list option" where
  "lrgbin_getdaystring s e = (let st = s smod 7; en = e smod 7 in
     if st = en then days_slice st 3
     else if st < en then days_slice st ((en - st) * 4 + 3)
     else days_slice st ((en + 7 - st) * 4 + 3))"

text \<open>The buffer grows by 80 bytes; a failed \<^verbatim>\<open>realloc\<close> is used as it is.\<close>

function grow_line :: "alloc \<Rightarrow> nat \<Rightarrow> int \<Rightarrow> int option" where
  "grow_line al idx sz_b = (if int idx > sz_b - 2 then (if al (nat (sz_b + 80)) then grow_line al idx (sz_b + 80) else None) else Some sz_b)"
  by pat_completeness auto
termination by (relation "measure (\<lambda>(al, idx, sz_b). nat (int idx + 2 - sz_b))") auto

declare grow_line.simps [simp del]

fun line_loop :: "alloc \<Rightarrow> bool \<Rightarrow> char list \<Rightarrow> int \<Rightarrow> char list \<Rightarrow> (char list \<times> int \<times> char list) option" where
  "line_loop al strip acc sz_b [] = Some (acc, sz_b, [])"
| "line_loop al strip acc sz_b (c # fh) = do {
     sz' \<leftarrow> grow_line al (length acc) sz_b;
     let ch = (if strip \<and> c = NL then NUL else c);
     if int (length acc) < sz' then
       (if ch = NL \<or> ch = NUL then Some (acc @ [ch], sz', fh) else line_loop al strip (acc @ [ch]) sz' fh)
     else None }"

definition lrgbin_get_line_from_file :: "alloc \<Rightarrow> bool \<Rightarrow> char list \<Rightarrow> (char list option \<times> char list) option" where
  "lrgbin_get_line_from_file al strip fh = do {
     (acc, sz_b, r) \<leftarrow> line_loop al strip [] 0 fh;
     if acc = [] then Some (None, r)
     else if int (length acc) < sz_b then Some (Some (cut acc), r) else None }"

subsection \<open>Requests\<close>

text \<open>\<open>garbage\<close> is the result field of the header, which is not set.\<close>

definition send_xmldb_cmd ::
    "bool \<Rightarrow> bool \<Rightarrow> u32 \<Rightarrow> u16 \<Rightarrow> u32 \<Rightarrow> char list \<Rightarrow> int \<times> char list list" where
  "send_xmldb_cmd w1 w2 garbage act flags data =
     (let len = of_nat (length data + 1) :: u16;
          hdr = ipc_image \<lparr>ipc_action = act, ipc_length = len, ipc_flags = flags, ipc_retcode = garbage\<rparr> in
      if \<not> w1 then (-1, [])
      else if \<not> w2 \<or> len = 0 then (-1, [hdr])
      else (0, [hdr, take (unat len) (data @ [NUL])]))"

text \<open>\<^verbatim>\<open>redirect_output\<close>: what is printed and the pieces that are not read.\<close>

fun redirect_output :: "char list list \<Rightarrow> char list \<times> char list list" where
  "redirect_output [] = ([], [])"
| "redirect_output (c # cs) =
     (if c = [] then ([], cs)
      else if last c = NUL then (cut c, cs)
      else (case redirect_output cs of (out, r) \<Rightarrow> (c @ out, r)))"

text \<open>A request whose answer is text, and one whose answer is a header: result and pieces written.\<close>

definition text_request ::
    "bool \<Rightarrow> bool \<Rightarrow> u32 \<Rightarrow> u16 \<Rightarrow> u32 \<Rightarrow> char list \<Rightarrow> char list list \<Rightarrow> int \<times> char list list \<times> char list" where
  "text_request w1 w2 g act flags data reply = (case send_xmldb_cmd w1 w2 g act flags data of (r, sent_b) \<Rightarrow>
     if r < 0 then (-1, sent_b, []) else (0, sent_b, fst (redirect_output reply)))"

definition ack_request ::
    "bool \<Rightarrow> bool \<Rightarrow> u32 \<Rightarrow> u16 \<Rightarrow> u32 \<Rightarrow> char list \<Rightarrow> char list list \<Rightarrow> (int \<times> char list list) option" where
  "ack_request w1 w2 g act flags data reply = (case send_xmldb_cmd w1 w2 g act flags data of (r, sent_b) \<Rightarrow>
     if r < 0 then Some (-1, sent_b)
     else (case reply of c # _ \<Rightarrow> if length c \<ge> 12 then Some (sint (ipc_retcode (ipc_of c)), sent_b) else None
           | [] \<Rightarrow> None))"

definition lrgdb_get where "lrgdb_get w1 w2 g flags node reply = text_request w1 w2 g RGDB_GET flags node reply"
definition lrgdb_patch where "lrgdb_patch w1 w2 g flags tempfile reply = text_request w1 w2 g RGDB_PATCH flags tempfile reply"
definition lrgdb_ephp where "lrgdb_ephp w1 w2 g flags phpfile reply = text_request w1 w2 g RGDB_EPHP flags phpfile reply"
definition lrgdb_patch_buffer where "lrgdb_patch_buffer w1 w2 g flags b reply = text_request w1 w2 g RGDB_PATCH_BUFF flags b reply"

text \<open>\<^verbatim>\<open>snprintf(buff, 255, "%s %s", node, value)\<close>\<close>

definition set_message :: "char list \<Rightarrow> char list \<Rightarrow> char list" where
  "set_message node v = take 254 (node @ CHR '' '' # v)"

definition lrgdb_set where "lrgdb_set w1 w2 g flags node v reply = ack_request w1 w2 g RGDB_SET flags (set_message node v) reply"
definition lrgdb_set_notify where
  "lrgdb_set_notify w1 w2 g flags node m reply = ack_request w1 w2 g RGDB_SET_NOTIFY flags (set_message node m) reply"
definition lrgdb_del where "lrgdb_del w1 w2 g flags node reply = ack_request w1 w2 g RGDB_DEL flags node reply"
definition lrgdb_reload where "lrgdb_reload w1 w2 g flags fname reply = ack_request w1 w2 g RGDB_RELOAD flags fname reply"
definition lrgdb_dump where "lrgdb_dump w1 w2 g flags fname reply = ack_request w1 w2 g RGDB_DUMP flags fname reply"

text \<open>The node is cut to 511 characters; the answer is copied as it is read.\<close>

definition lrgdb_getwb ::
    "bool \<Rightarrow> bool \<Rightarrow> u32 \<Rightarrow> nat \<Rightarrow> char list \<Rightarrow> char list list \<Rightarrow> int \<times> char list list \<times> char list" where
  "lrgdb_getwb w1 w2 g size_b node reply = (case send_xmldb_cmd w1 w2 g RGDB_GET 0 (take 511 node) of (r, sent_b) \<Rightarrow>
     if r < 0 then (-1, sent_b, [])
     else (case reply of c # _ \<Rightarrow> (int (length (take size_b c)), sent_b, take size_b c) | [] \<Rightarrow> (0, sent_b, [])))"

subsection \<open>The command\<close>

record rgdb_options =
  o_ignore :: bool
  o_skip_proc :: bool
  o_escape :: "char list option"
  o_node_path :: "char list option"
  o_node_value :: "char list option"
  o_reloadfile :: "char list"
  o_dumpfile :: "char list"
  o_tempfile :: "char list"
  o_ephpfile :: "char list"
  o_patchmsg :: "char list"
  o_action :: u16

definition get_flags :: "rgdb_options \<Rightarrow> u32" where
  "get_flags ops = (if o_escape ops = Some ''js'' then RGDB_ESCAPE_JS else 0) OR (if o_skip_proc ops then RGDB_SKIP_PROC else 0)"

text \<open>A runtime node is passed to a program named by its first segment, which is copied into 64 bytes up to a slash
  that need not be there. The command line is the result.\<close>

definition rgdb_runtime :: "rgdb_options \<Rightarrow> char list \<Rightarrow> char list option" where
  "rgdb_runtime ops node = (let i = length (takeWhile (\<lambda>c. c \<noteq> CHR ''/'') node); cmd = take i node; sub_node = drop (Suc i) node in
     if i \<ge> length node \<or> i \<ge> 64 then None
     else Some (if o_action ops = RGDB_GET then cmd @ '' -g '' @ sub_node
       else if o_action ops = RGDB_SET then
         cmd @ '' -s '' @ sub_node @ '' '' @ [QUOT] @ (case o_node_value ops of Some v \<Rightarrow> v | None \<Rightarrow> ''(null)'') @ [QUOT] @ [NL]
       else []))"

datatype rgdb_run = Shell "char list" | Request u16 u32 "char list"

text \<open>The options as \<^verbatim>\<open>getopt\<close> delivers them: the letter, its argument and the next word of the command line, if there is one.
  The program ends in a usage message, when a copy of an argument cannot be made, or when no action is given.\<close>

datatype parsed = Parsed rgdb_options | Exit int

definition rgdb_no_options :: rgdb_options where
  "rgdb_no_options = \<lparr>o_ignore = False, o_skip_proc = False, o_escape = None, o_node_path = None, o_node_value = None,
     o_reloadfile = [], o_dumpfile = [], o_tempfile = [], o_ephpfile = [], o_patchmsg = [], o_action = RGDB_NONE\<rparr>"

definition with_dup :: "alloc \<Rightarrow> char list \<Rightarrow> (char list \<Rightarrow> parsed) \<Rightarrow> parsed" where
  "with_dup al s f = (case strdup al s of None \<Rightarrow> Exit (-1) | Some d \<Rightarrow> f d)"

definition parse_opt :: "alloc \<Rightarrow> char \<Rightarrow> char list \<Rightarrow> char list option \<Rightarrow> rgdb_options \<Rightarrow> parsed" where
  "parse_opt al opt arg nxt ops =
     (if opt = CHR ''h'' then Exit 0
      else if opt = CHR ''v'' then Parsed ops
      else if opt = CHR ''i'' then Parsed (ops\<lparr>o_ignore := True\<rparr>)
      else if opt = CHR ''a'' then Parsed (ops\<lparr>o_skip_proc := True\<rparr>)
      else if opt = CHR ''e'' then with_dup al arg (\<lambda>d. Parsed (ops\<lparr>o_escape := Some d\<rparr>))
      else if opt = CHR ''g'' then with_dup al (lrgbin_eatwhite arg) (\<lambda>d. Parsed (ops\<lparr>o_node_path := Some d, o_action := RGDB_GET\<rparr>))
      else if opt = CHR ''n'' \<or> opt = CHR ''s'' then
        with_dup al (lrgbin_eatwhite arg) (\<lambda>d. case nxt of
            None \<Rightarrow> Exit (-1)
          | Some w \<Rightarrow> with_dup al (lrgbin_eatwhite w) (\<lambda>x. Parsed (ops\<lparr>o_node_path := Some d, o_node_value := Some x,
              o_action := if opt = CHR ''n'' then RGDB_SET_NOTIFY else RGDB_SET\<rparr>)))
      else if opt = CHR ''d'' then with_dup al (lrgbin_eatwhite arg) (\<lambda>d. Parsed (ops\<lparr>o_node_path := Some d, o_action := RGDB_DEL\<rparr>))
      else if opt = CHR ''p'' then with_dup al (lrgbin_eatwhite arg) (\<lambda>d. Parsed (ops\<lparr>o_tempfile := d, o_action := RGDB_PATCH\<rparr>))
      else if opt = CHR ''P'' then with_dup al arg (\<lambda>d. Parsed (ops\<lparr>o_patchmsg := d, o_action := RGDB_PATCH_BUFF\<rparr>))
      else if opt = CHR ''A'' then with_dup al arg (\<lambda>d. Parsed (ops\<lparr>o_ephpfile := d, o_action := RGDB_EPHP\<rparr>))
      else if opt = CHR ''l'' then with_dup al arg (\<lambda>d. Parsed (ops\<lparr>o_reloadfile := d, o_action := RGDB_RELOAD\<rparr>))
      else if opt = CHR ''D'' then with_dup al arg (\<lambda>d. Parsed (ops\<lparr>o_dumpfile := d, o_action := RGDB_DUMP\<rparr>))
      else if opt = CHR ''S'' then with_dup al arg (\<lambda>d. Parsed ops)
      else Exit (-1))"

fun parse_args :: "alloc \<Rightarrow> (char \<times> char list \<times> char list option) list \<Rightarrow> rgdb_options \<Rightarrow> parsed" where
  "parse_args al [] ops = (if o_action ops = RGDB_NONE then Exit 0 else Parsed ops)"
| "parse_args al ((opt, arg, nxt) # r) ops = (case parse_opt al opt arg nxt ops of Exit c \<Rightarrow> Exit c | Parsed ops' \<Rightarrow> parse_args al r ops')"

text \<open>What \<^verbatim>\<open>main\<close> does after the options are parsed: a shell command for a runtime node, or the request it sends.\<close>

definition rgdb_main :: "rgdb_options \<Rightarrow> rgdb_run option" where
  "rgdb_main ops = (let
     path = map_option (\<lambda>p. map tolower (lrgbin_reatwhite p)) (o_node_path ops);
     v = map_option lrgbin_reatwhite (o_node_value ops);
     ops' = ops\<lparr>o_node_path := path, o_node_value := v\<rparr>;
     str = (\<lambda>x. case x of Some s \<Rightarrow> s | None \<Rightarrow> []);
     act = o_action ops in
     if path \<noteq> None \<and> \<not> o_ignore ops \<and> strncmp (str path) ''/runtime/'' 9 = 0
     then map_option Shell (rgdb_runtime ops' (drop 9 (str path)))
     else Some (Request act (get_flags ops)
       (if act = RGDB_GET \<or> act = RGDB_DEL then str path
        else if act = RGDB_SET \<or> act = RGDB_SET_NOTIFY then set_message (str path) (str v)
        else if act = RGDB_RELOAD then o_reloadfile ops
        else if act = RGDB_DUMP then o_dumpfile ops
        else if act = RGDB_PATCH then o_tempfile ops
        else if act = RGDB_EPHP then o_ephpfile ops
        else o_patchmsg ops)))"

subsection \<open>Properties\<close>

lemma redirect_chunks:
  assumes "concat cs = t @ [NUL]" and "NUL \<notin> set t" and "[] \<notin> set cs"
  shows "redirect_output (cs @ later) = (t, later)"
  using assms
proof (induction cs arbitrary: t)
  case (Cons c cs)
  show ?case
  proof (cases "cs = []")
    case True
    with Cons.prems show ?thesis by (auto simp: cut_def takeWhile_append takeWhile_eq_all_conv)
  next
    case False
    obtain d ds where d: "cs = ds @ [d]" "d \<noteq> []" using False Cons.prems(3) by (cases cs rule: rev_cases) auto
    with Cons.prems(1) obtain u where u: "concat cs = u @ [NUL]" "t = c @ u"
      by (cases d rule: rev_cases) (auto simp: append_assoc [symmetric] simp del: append_assoc)
    have "last c \<noteq> NUL" using Cons.prems(2,3) u(2) by (metis last_in_set list.set_intros(1) Un_iff set_append)
    with Cons.IH [OF u(1)] Cons.prems(2,3) u(2) show ?thesis by auto
  qed
qed simp

text \<open>However the answer of the database is cut into pieces, a client prints exactly the text before the terminating
  NUL and reads nothing behind it.\<close>

theorem redirect_output_complete:
  assumes "concat cs = t @ [NUL]" and "NUL \<notin> set t" and "[] \<notin> set cs"
  shows "redirect_output (cs @ later) = (t, later)"
  by (rule redirect_chunks [OF assms])

theorem redirect_output_complete_witness:
  "redirect_output [''19'', ''2.168.0'', ''.1'' @ [NUL]] = (''192.168.0.1'', [])"
  using redirect_output_complete [of "[''19'', ''2.168.0'', ''.1'' @ [NUL]]" "''192.168.0.1''" "[]"] by simp

definition pa_ok :: "'a parray_t \<Rightarrow> bool" where
  "pa_ok pa \<longleftrightarrow> 0 < pa_growsby pa \<and> (case pa_array pa of None \<Rightarrow> pa_size pa = 0 | Some xs \<Rightarrow> length xs = pa_size pa)"

lemma pa_init_ok: "pa_ok (lrgbin_pa_init n)"
  by (simp add: pa_ok_def lrgbin_pa_init_def)

definition pa_elems :: "'a parray_t \<Rightarrow> 'a option list" where
  "pa_elems pa = (case pa_array pa of None \<Rightarrow> [] | Some xs \<Rightarrow> xs)"

lemma pa_elems_length: "pa_ok pa \<Longrightarrow> length (pa_elems pa) = pa_size pa"
  by (auto simp: pa_ok_def pa_elems_def split: option.splits)

lemma pa_get_nth_elems:
  "pa_ok pa \<Longrightarrow> lrgbin_pa_get_nth j pa = Some (if j < pa_size pa then pa_elems pa ! j else None)"
  by (auto simp: pa_ok_def pa_elems_def lrgbin_pa_get_nth_def split: option.splits)

text \<open>The array before an element is written: it has grown, once, if it was too short.\<close>

lemma pa_grows_once:
  assumes "pa_ok pa" and "\<forall>n. al n" and "n = (if i \<ge> pa_size pa then pa_size pa + pa_growsby pa else pa_size pa)"
  shows "(if i \<ge> pa_size pa then lrgbin_pa_grows al (pa_size pa + pa_growsby pa) pa else (0, pa)) =
    (0, pa\<lparr>pa_size := n, pa_array := Some (pa_elems pa @ replicate (n - pa_size pa) None)\<rparr>)"
  using assms by (cases "pa_array pa") (auto simp: lrgbin_pa_grows_def pa_ok_def pa_elems_def)

text \<open>An element of a pointer array that was set is found, the others keep their values and the array stays well
  formed; but the array grows by one step only, so an index further behind its end is written outside the array.\<close>

theorem pa_set_nth_cases:
  assumes "pa_ok pa" and "\<forall>n. al n"
  shows "if i < pa_size pa + pa_growsby pa
    then \<exists>freed pa'. lrgbin_pa_set_nth al i p do_free pa = Some (0, freed, pa') \<and> pa_ok pa' \<and>
      (\<forall>j. lrgbin_pa_get_nth j pa' = (if j = i then Some p else lrgbin_pa_get_nth j pa))
    else lrgbin_pa_set_nth al i p do_free pa = None"
proof -
  define n where "n = (if i \<ge> pa_size pa then pa_size pa + pa_growsby pa else pa_size pa)"
  let ?xs = "pa_elems pa @ replicate (n - pa_size pa) None"
  let ?pa1 = "pa\<lparr>pa_size := n, pa_array := Some ?xs\<rparr>"
  note g = pa_grows_once [OF assms n_def]
  have l: "length ?xs = n" using pa_elems_length [OF assms(1)] by (simp add: n_def)
  show ?thesis
  proof (cases "i < pa_size pa + pa_growsby pa")
    case True
    have i: "i < n" using True assms(1) by (auto simp: n_def pa_ok_def)
    let ?pa2 = "pa\<lparr>pa_size := n, pa_array := Some (?xs[i := p])\<rparr>"
    have s: "\<exists>freed. lrgbin_pa_set_nth al i p do_free pa = Some (0, freed, ?pa2)"
      unfolding lrgbin_pa_set_nth_def g using i l by simp
    have ok: "pa_ok ?pa2" using l assms(1) by (simp add: pa_ok_def)
    have "lrgbin_pa_get_nth j ?pa2 = (if j = i then Some p else lrgbin_pa_get_nth j pa)" for j
      using i l pa_elems_length [OF assms(1)]
      by (auto simp: pa_get_nth_elems [OF ok] pa_get_nth_elems [OF assms(1)]) (auto simp: pa_elems_def nth_append n_def)
    with s ok True show ?thesis by auto
  next
    case False
    then have "\<not> i < length ?xs" unfolding l by (simp add: n_def)
    with False show ?thesis unfolding lrgbin_pa_set_nth_def g by (simp add: rd_def)
  qed
qed

theorem pa_set_nth_cases_witness:
  "(\<exists>freed pa'. lrgbin_pa_set_nth (\<lambda>_. True) 3 (Some (7 :: nat)) False (lrgbin_pa_init 16) = Some (0, freed, pa') \<and>
     lrgbin_pa_get_nth 3 pa' = Some (Some 7)) \<and>
   lrgbin_pa_set_nth (\<lambda>_. True) 20 (Some (7 :: nat)) False (lrgbin_pa_init 16) = None"
  using pa_set_nth_cases [OF pa_init_ok, of "\<lambda>_. True" 3 16 "Some (7 :: nat)" False]
    pa_set_nth_cases [OF pa_init_ok, of "\<lambda>_. True" 20 16 "Some (7 :: nat)" False]
  by (auto simp: lrgbin_pa_init_def)

text \<open>A day string lists the days from the first to the last one, around the week.\<close>

definition day_name :: "nat \<Rightarrow> char list" where
  "day_name d = [''Sun'', ''Mon'', ''Tue'', ''Wed'', ''Thu'', ''Fri'', ''Sat''] ! (d mod 7)"

definition day_range :: "nat \<Rightarrow> nat \<Rightarrow> char list" where
  "day_range s e = (let n = (e + 7 - s) mod 7 in concat (map (\<lambda>k. day_name (s + k) @ '','') [0..<n]) @ day_name (s + n))"

lemma getdaystring_range:
  assumes "s < 7" and "e < 7"
  shows "lrgbin_getdaystring (int s) (int e) = Some (day_range s e)"
proof -
  have "\<forall>s\<in>set [0..<7]. \<forall>e\<in>set [0..<7]. lrgbin_getdaystring (int s) (int e) = Some (day_range s e)" by code_simp
  with assms show ?thesis by simp
qed

lemma grow_line_enough:
  assumes "\<forall>n. al n" and "0 \<le> sz_b"
  shows "\<exists>sz'. grow_line al idx sz_b = Some sz' \<and> sz_b \<le> sz' \<and> int idx \<le> sz' - 2"
  using assms
proof (induction al idx sz_b rule: grow_line.induct)
  case (1 al idx sz_b)
  then show ?case by (subst grow_line.simps) fastforce
qed

lemma line_loop_line:
  assumes "\<forall>n. al n" and "NL \<notin> set l" and "NUL \<notin> set l" and "0 \<le> sz_b"
  shows "\<exists>sz'. line_loop al strip acc sz_b (l @ NL # r) = Some (acc @ l @ [if strip then NUL else NL], sz', r) \<and>
    int (length acc + length l) \<le> sz' - 2"
  using assms(2-4)
proof (induction l arbitrary: acc sz_b)
  case Nil
  from grow_line_enough [OF assms(1) Nil(3), of "length acc"] show ?case by auto
next
  case (Cons c l)
  from grow_line_enough [OF assms(1) Cons.prems(3), of "length acc"] obtain sz1 where
    z: "grow_line al (length acc) sz_b = Some sz1" "sz_b \<le> sz1" "int (length acc) \<le> sz1 - 2" by blast
  from Cons.IH [of sz1 "acc @ [c]"] Cons.prems z show ?case by fastforce
qed

text \<open>Reading a line stays inside its buffer and gives the line, with or without its end.\<close>

lemma get_line_from_file_line:
  assumes "\<forall>n. al n" and "NL \<notin> set l" and "NUL \<notin> set l"
  shows "lrgbin_get_line_from_file al strip (l @ NL # r) = Some (Some (if strip then l else l @ [NL]), r)"
proof -
  obtain sz' where "line_loop al strip [] 0 (l @ NL # r) = Some (l @ [if strip then NUL else NL], sz', r)" "int (length l) \<le> sz' - 2"
    using line_loop_line [OF assms, of 0 strip "[]" r] by auto
  with assms(3) show ?thesis by (auto simp: lrgbin_get_line_from_file_def cut_def takeWhile_append takeWhile_eq_all_conv)
qed

text \<open>The command crashes on a runtime node whose path has a single segment: the name is copied into a buffer of 64
  bytes up to a slash that does not come.\<close>

theorem rgdb_runtime_overflow:
  assumes "o_node_path ops = Some (''/runtime/'' @ n)" and "\<not> o_ignore ops" and "CHR ''/'' \<notin> set n"
    and "n \<noteq> []" and "\<not> lrgbin_white (last n)"
  shows "rgdb_main ops = None"
proof -
  let ?p = "''/runtime/'' @ n"
  have "lrgbin_reatwhite ?p = ?p"
    using assms(4,5) by (cases n rule: rev_cases) (auto simp: lrgbin_reatwhite_def)
  moreover have "map tolower ''/runtime/'' = ''/runtime/''" by code_simp
  ultimately have m: "map tolower (lrgbin_reatwhite ?p) = ''/runtime/'' @ map tolower n" by simp
  have t: "tolower c = CHR ''/'' \<longleftrightarrow> c = CHR ''/''" for c
  proof (cases "65 \<le> uchar c \<and> uchar c \<le> 90")
    case True
    then have "tolower c = to_char (uchar c + 32)" "0 \<le> uchar c + 32" "uchar c + 32 < 256" by (simp_all add: tolower_def)
    then have "uchar (tolower c) = uchar c + 32" by (simp add: to_char_def uchar_def)
    moreover have "uchar (CHR ''/'') = 47" by (simp add: uchar_def)
    ultimately have "uchar (tolower c) \<noteq> uchar (CHR ''/'')" "uchar c \<noteq> uchar (CHR ''/'')" using True by linarith+
    then show ?thesis by metis
  next
    case False
    then have "tolower c = c" unfolding tolower_def by (rule if_not_P)
    then show ?thesis by simp
  qed
  have "\<forall>c\<in>set n. tolower c \<noteq> CHR ''/''" using assms(3) t by metis
  then have tw: "takeWhile (\<lambda>c. c \<noteq> CHR ''/'') (map tolower n) = map tolower n" by (auto simp: takeWhile_eq_all_conv)
  have "strncmp (''/runtime/'' @ s) ''/runtime/'' 9 = 0" "drop 9 (''/runtime/'' @ s) = s" for s
    by (simp_all add: strncmp_zero)
  then show ?thesis
    unfolding rgdb_main_def Let_def assms(1) option.map m option.case using assms(2) by (simp add: rgdb_runtime_def Let_def tw)
qed


theorem rgdb_runtime_overflow_witness:
  "rgdb_main \<lparr>o_ignore = False, o_skip_proc = False, o_escape = None, o_node_path = Some ''/runtime/wan'', o_node_value = None,
     o_reloadfile = [], o_dumpfile = [], o_tempfile = [], o_ephpfile = [], o_patchmsg = [], o_action = RGDB_GET\<rparr> = None"
  by (rule rgdb_runtime_overflow [of _ "''wan''"]) (simp_all add: lrgbin_white_def)

subsection \<open>Command lines\<close>

text \<open>Options behind the action that are no actions themselves leave it as it is.\<close>

lemma parse_args_flags_last:
  "parse_args al (xs @ ys) ops = Parsed ops' \<Longrightarrow> \<forall>x\<in>set ys. fst x \<in> set ''viae'' \<Longrightarrow>
    \<exists>ops1. parse_args al xs ops = Parsed ops1 \<and> o_action ops1 = o_action ops' \<and>
      o_node_path ops1 = o_node_path ops' \<and> o_node_value ops1 = o_node_value ops'"
proof (induction al xs ops rule: parse_args.induct)
  case (1 al ops)
  then show ?case
    by (induction al ys ops rule: parse_args.induct)
      (fastforce simp: parse_opt_def with_dup_def split: option.splits parsed.splits if_splits)+
next
  case (2 al opt arg nxt r ops)
  then show ?case by (auto split: parsed.splits)
qed

lemma rgdb_set_command:
  assumes "\<forall>n. al n" and "lrgbin_reatwhite (lrgbin_eatwhite p) = p" and "strncmp (map tolower p) ''/runtime/'' 9 \<noteq> 0"
    and "lrgbin_eatwhite p = p" and "lrgbin_eatwhite v = v" and "lrgbin_reatwhite v = v"
  shows "\<exists>ops. parse_args al [(CHR ''s'', p, Some v)] rgdb_no_options = Parsed ops \<and>
    rgdb_main ops = Some (Request RGDB_SET 0 (set_message (map tolower p) v))"
  using assms by (simp add: parse_opt_def with_dup_def strdup_def rgdb_main_def rgdb_no_options_def get_flags_def
      RGDB_NONE_def RGDB_GET_def RGDB_SET_def RGDB_DEL_def)

end
