(* ===== verification/Ephp_Run.thy ===== *)
theory Ephp_Run
  imports Ephp_Parse Rgdb_Client
begin

text \<open>
  The interpreter of \<^verbatim>\<open>tools/alpha/xmldb/ephp.c\<close>: variables, string lists, statements, and the pages in which the blocks of
  statements stand. The state has the tree of the database, the variables of the name space, the node set by
  \<^verbatim>\<open>anchor\<close>, the buffered output and the messages sent. A pointer to a node is a path into the tree; when a node is deleted the
  pointers that are kept (the anchor, and the parent and the old anchor of every \<^verbatim>\<open>for\<close> under way) move with their nodes,
  and those to freed nodes dangle. \<open>None\<close> is a fault: a null or dangling pointer, a full buffer, a read of memory
  that was not written, or the end of the fuel. Fuel bounds the depth of calls, which a page that requires itself
  exceeds in the code as well. A \<^verbatim>\<open>for\<close> needs a bounded amount of it even when it creates the entries it visits, since
  their number is written into eight bytes.
\<close>

datatype nptr = Null | Node ptr | Dangling

record ephp =
  ep_tree :: xml_node
  ep_anchor :: nptr
  ep_saved :: "nptr list"
  ep_vars :: "(char list option \<times> char list option) list"
  ep_buffer :: "char list"
  ep_writes :: "char list list"
  ep_notify :: "char list list"
  ep_pb :: wbuf

text \<open>What the interpreter is given: the allocator, the files, and whether logs are translated first, with the result.\<close>

record ephp_env =
  pe_alloc :: alloc
  pe_files :: "char list \<Rightarrow> char list option"
  pe_tlogs :: bool
  pe_tlog_text :: "char list \<Rightarrow> char list option"

subsection \<open>Variables\<close>

type_synonym nspace = "(char list option \<times> char list option) list"

definition SIZEOF_VAR :: nat where "SIZEOF_VAR = 12"

definition new_var :: "alloc \<Rightarrow> char list \<Rightarrow> char list \<Rightarrow> nspace \<Rightarrow> nspace" where
  "new_var al name v vs = (if al SIZEOF_VAR then (strdup al name, strdup al v) # vs else vs)"

fun var_pos :: "char list \<Rightarrow> nspace \<Rightarrow> nat option option" where
  "var_pos name [] = Some None"
| "var_pos name ((n, v) # vs) = (case n of
       None \<Rightarrow> None
     | Some m \<Rightarrow> if m = name then Some (Some 0) else map_option (map_option Suc) (var_pos name vs))"

text \<open>A variable that is not there is created, at the head; without memory the head is returned, whatever it is.\<close>

definition ephp_get_var :: "alloc \<Rightarrow> char list \<Rightarrow> nspace \<Rightarrow> (nat option \<times> nspace) option" where
  "ephp_get_var al name vs = do {
     i \<leftarrow> var_pos name vs;
     Some (case i of
         Some k \<Rightarrow> (Some k, vs)
       | None \<Rightarrow> (let vs' = new_var al name [] vs in (if vs' = [] then None else Some 0, vs'))) }"

definition ephp_set_var :: "alloc \<Rightarrow> char list \<Rightarrow> char list \<Rightarrow> nspace \<Rightarrow> nspace option" where
  "ephp_set_var al name v vs = do {
     (i, vs') \<leftarrow> ephp_get_var al name vs;
     Some (case i of Some k \<Rightarrow> vs'[k := (fst (vs' ! k), strdup al v)] | None \<Rightarrow> new_var al name v vs') }"

definition get_var_value :: "alloc \<Rightarrow> char list \<Rightarrow> nspace \<Rightarrow> (char list \<times> nspace) option" where
  "get_var_value al name vs = do {
     (i, vs') \<leftarrow> ephp_get_var al name vs;
     k \<leftarrow> i;
     v \<leftarrow> snd (vs' ! k);
     Some (v, vs') }"

definition clear_var :: nspace where "clear_var = []"

subsection \<open>Output\<close>

definition b_flush :: "ephp \<Rightarrow> ephp" where
  "b_flush st = st\<lparr>ep_writes := ep_writes st @ [ep_buffer st], ep_buffer := []\<rparr>"

definition b_putc :: "char \<Rightarrow> ephp \<Rightarrow> ephp" where
  "b_putc c st = (let st1 = (if length (ep_buffer st) < 1024 then st\<lparr>ep_buffer := ep_buffer st @ [c]\<rparr> else st) in
     if length (ep_buffer st1) = 1024 then b_flush st1 else st1)"

definition b_puts :: "char list \<Rightarrow> ephp \<Rightarrow> ephp" where
  "b_puts s st = fold b_putc s st"

subsection \<open>Nodes\<close>

text \<open>The root handed to \<^verbatim>\<open>xmldb_find_node\<close>: it is not looked at when the path is empty or absolute.\<close>

definition root_for :: "nptr \<Rightarrow> char list \<Rightarrow> ptr option option" where
  "root_for a path = (case a of
       Null \<Rightarrow> Some None
     | Node q \<Rightarrow> Some (Some q)
     | Dangling \<Rightarrow> if path = [] \<or> hd path = CHR ''/'' then Some None else None)"

definition to_nptr :: "ptr option \<Rightarrow> nptr" where
  "to_nptr p = (case p of None \<Rightarrow> Null | Some q \<Rightarrow> Node q)"

text \<open>The value for a script is escaped into 512 bytes, one byte too many when the last place is an escape.\<close>

fun js_value :: "char list \<Rightarrow> char list \<Rightarrow> char list option" where
  "js_value acc [] = Some acc"
| "js_value acc (c # s) =
     (if length acc < 511 then
        (if c = QUOT \<or> c = CHR ''$'' \<or> c = BSL
         then (if length acc = 510 then None else js_value (acc @ [BSL, c]) s)
         else js_value (acc @ [c]) s)
      else Some acc)"

definition query_node :: "alloc \<Rightarrow> xml_node \<Rightarrow> nptr \<Rightarrow> char list \<Rightarrow> bool \<Rightarrow> char list option option" where
  "query_node al tree a node js = do {
     r \<leftarrow> root_for a node;
     v \<leftarrow> xmldb_get_value al r node tree;
     v' \<leftarrow> (if js then js_value [] v else Some v);
     Some (strdup al v') }"

subsection \<open>String lists\<close>

fun sl_op :: "strlist_t \<Rightarrow> char" where
  "sl_op (ST_STR s c) = c"
| "sl_op (ST_VAR s c) = c"
| "sl_op (ST_QUERY l c) = c"
| "sl_op (ST_QUERYJS l c) = c"

text \<open>An operand has to leave room for the NUL that \<^verbatim>\<open>strncpy\<close> does not write into the last of 512 bytes.\<close>

definition operand_ok :: "char list \<Rightarrow> nspace \<Rightarrow> (char list \<times> nspace) option" where
  "operand_ok s vs = (if length s < 511 then Some (s, vs) else None)"

definition apply_op :: "char \<Rightarrow> char list \<Rightarrow> char list \<Rightarrow> char list option" where
  "apply_op c final res =
     (if c = CHR ''.'' then (if length final + length res < MAX_STRING_LEN then Some (final @ res) else None)
      else if c = CHR ''+'' then Some (itoa (wrap_int (atoi final + atoi res)))
      else if c = CHR ''-'' then Some (itoa (wrap_int (atoi final - atoi res)))
      else if c = CHR ''*'' then Some (itoa (wrap_int (atoi final * atoi res)))
      else if c = CHR ''/'' then
        (if atoi res = 0 then Some final
         else if atoi res = -1 \<and> atoi final = - (2 ^ 31) then None else Some (itoa (atoi final sdiv atoi res)))
      else if c = CHR ''%'' then
        (if atoi res = 0 \<or> (atoi res = -1 \<and> atoi final = - (2 ^ 31)) then None else Some (itoa (atoi final smod atoi res)))
      else Some res)"

fun conv_loop :: "alloc \<Rightarrow> xml_node \<Rightarrow> nptr \<Rightarrow> char \<Rightarrow> char list \<Rightarrow> nspace \<Rightarrow> strlist_t list \<Rightarrow> (char list \<times> nspace) option"
and conv_entry :: "alloc \<Rightarrow> xml_node \<Rightarrow> nptr \<Rightarrow> nspace \<Rightarrow> strlist_t \<Rightarrow> (char list \<times> nspace) option"
where
  "conv_loop al tree a c final vs [] = Some (final, vs)"
| "conv_loop al tree a c final vs (e # es) = Option.bind (conv_entry al tree a vs e) (\<lambda>(res, vs1).
     Option.bind (apply_op c final res) (\<lambda>final'.
       if sl_op e \<in> set arith_ops then conv_loop al tree a (sl_op e) final' vs1 es else Some (final', vs1)))"
| "conv_entry al tree a vs (ST_STR s c) = Option.bind s (\<lambda>t. operand_ok t vs)"
| "conv_entry al tree a vs (ST_VAR s c) = Option.bind s (\<lambda>n. Option.bind (get_var_value al n vs) (\<lambda>(v, vs1). operand_ok v vs1))"
| "conv_entry al tree a vs (ST_QUERY l c) = Option.bind (conv_loop al tree a NUL [] vs l) (\<lambda>(t, vs1).
     case strdup al t of
       None \<Rightarrow> Some ([], vs1)
     | Some node \<Rightarrow> Option.bind (query_node al tree a node False) (\<lambda>v. case v of None \<Rightarrow> Some ([], vs1) | Some w \<Rightarrow> operand_ok w vs1))"
| "conv_entry al tree a vs (ST_QUERYJS l c) = Option.bind (conv_loop al tree a NUL [] vs l) (\<lambda>(t, vs1).
     case strdup al t of
       None \<Rightarrow> Some ([], vs1)
     | Some node \<Rightarrow> Option.bind (query_node al tree a node True) (\<lambda>v. case v of None \<Rightarrow> Some ([], vs1) | Some w \<Rightarrow> operand_ok w vs1))"

definition convert_strlst :: "alloc \<Rightarrow> strlist_t list \<Rightarrow> ephp \<Rightarrow> (char list option \<times> ephp) option" where
  "convert_strlst al l st = do {
     (t, vs) \<leftarrow> conv_loop al (ep_tree st) (ep_anchor st) NUL [] (ep_vars st) l;
     Some (strdup al t, st\<lparr>ep_vars := vs\<rparr>) }"

subsection \<open>Conditions\<close>

fun holds :: "ifop_t \<Rightarrow> char list \<Rightarrow> char list \<Rightarrow> bool" where
  "holds IFOP_EQUAL a b \<longleftrightarrow> strcmp a b = 0"
| "holds IFOP_NOTEQUAL a b \<longleftrightarrow> strcmp a b \<noteq> 0"
| "holds IFOP_GREATERTHAN a b \<longleftrightarrow> atoi a > atoi b"
| "holds IFOP_LESSTHAN a b \<longleftrightarrow> atoi a < atoi b"
| "holds IFOP_GREATEREQUAL a b \<longleftrightarrow> atoi a \<ge> atoi b"
| "holds IFOP_LESSEQUAL a b \<longleftrightarrow> atoi a \<le> atoi b"

fun check_condition :: "alloc \<Rightarrow> int \<Rightarrow> cond_t list \<Rightarrow> ephp \<Rightarrow> (int \<times> ephp) option" where
  "check_condition al ret [] st = Some (ret, st)"
| "check_condition al ret (c # cs) st = do {
     (op1, st1) \<leftarrow> convert_strlst al (operand1 c) st;
     (op2, st2) \<leftarrow> convert_strlst al (operand2 c) st1;
     (case (op1, op2) of
        (Some a, Some b) \<Rightarrow> (let r = holds (c_op c) a b in
          if (c_next c = IFNEXT_AND \<and> \<not> r) \<or> (c_next c = IFNEXT_OR \<and> r) \<or> c_next c = IFNEXT_END then Some (of_bool r, st2)
          else check_condition al (of_bool r) cs st2)
      | _ \<Rightarrow> Some (ret, st2)) }"

subsection \<open>Statements without blocks\<close>

definition execute_anchor :: "alloc \<Rightarrow> strlist_t list \<Rightarrow> ephp \<Rightarrow> (int \<times> ephp) option" where
  "execute_anchor al l st = do {
     (n, st1) \<leftarrow> convert_strlst al l st;
     (case n of
        None \<Rightarrow> Some (-1, st1)
      | Some node \<Rightarrow> do {
          r \<leftarrow> root_for (if node \<noteq> [] \<and> hd node = CHR ''/'' then Null else ep_anchor st1) node;
          (p, _) \<leftarrow> xmldb_find_node al r node False (ep_tree st1);
          Some (0, st1\<lparr>ep_anchor := to_nptr p\<rparr>) }) }"

definition exec_query :: "alloc \<Rightarrow> strlist_t list \<Rightarrow> bool \<Rightarrow> ephp \<Rightarrow> (int \<times> ephp) option" where
  "exec_query al l js st = do {
     (n, st1) \<leftarrow> convert_strlst al l st;
     (case n of
        None \<Rightarrow> Some (-1, st1)
      | Some node \<Rightarrow> do {
          v \<leftarrow> query_node al (ep_tree st1) (ep_anchor st1) node js;
          Some (case v of None \<Rightarrow> (-1, st1) | Some w \<Rightarrow> (0, b_puts w st1)) }) }"

definition execute_query where "execute_query al l st = exec_query al l False st"
definition execute_queryjs where "execute_queryjs al l st = exec_query al l True st"

text \<open>Deleting. A path of one segment is looked up below the root that is given, also when it starts with a slash, so
  the root is used then. \<open>del_pos\<close> is the place of the node that \<^verbatim>\<open>xmldb_del_node\<close> frees.\<close>

definition del_root :: "nptr \<Rightarrow> char list \<Rightarrow> ptr option option" where
  "del_root a path = (case fst (split_leaf path) of
       Some pp \<Rightarrow> root_for a pp
     | None \<Rightarrow> (case a of Null \<Rightarrow> Some None | Node q \<Rightarrow> Some (Some q) | Dangling \<Rightarrow> None))"

definition del_pos :: "alloc \<Rightarrow> ptr option \<Rightarrow> char list \<Rightarrow> xml_node \<Rightarrow> ptr option" where
  "del_pos al root path tree = (let (ppath, leaf) = split_leaf path; (lnode, i) = split_id leaf in do {
     (pnode, _) \<leftarrow> (case ppath of
         Some pp \<Rightarrow> xmldb_find_node al root pp False tree
       | None \<Rightarrow> Some (Some (case root of None \<Rightarrow> [] | Some r \<Rightarrow> r), tree));
     p \<leftarrow> pnode;
     n \<leftarrow> node_at tree p;
     k \<leftarrow> find_pos (\<lambda>m. strcmp (node_name m) lnode = 0 \<and> node_id m = i) (node_child n);
     Some (p @ [k]) })"

text \<open>What becomes of a pointer when the node at \<open>d\<close> is freed.\<close>

definition shift_ptr :: "ptr \<Rightarrow> nptr \<Rightarrow> nptr" where
  "shift_ptr d a = (case a of
       Node q \<Rightarrow> (let n = length d - 1 in
         if take (length d) q = d then Dangling
         else if length q > n \<and> take n q = butlast d \<and> q ! n > last d then Node (q[n := q ! n - 1]) else Node q)
     | _ \<Rightarrow> a)"

definition freed_at :: "ptr option \<Rightarrow> ephp \<Rightarrow> ephp" where
  "freed_at d st = (case d of
       None \<Rightarrow> st
     | Some p \<Rightarrow> st\<lparr>ep_anchor := shift_ptr p (ep_anchor st), ep_saved := map (shift_ptr p) (ep_saved st)\<rparr>)"

definition execute_del :: "alloc \<Rightarrow> strlist_t list \<Rightarrow> ephp \<Rightarrow> (int \<times> ephp) option" where
  "execute_del al l st = do {
     (n, st1) \<leftarrow> convert_strlst al l st;
     (case n of
        None \<Rightarrow> Some (-1, st1)
      | Some node \<Rightarrow> do {
          r \<leftarrow> del_root (ep_anchor st1) node;
          (_, t, _) \<leftarrow> xmldb_del_node al r node (ep_tree st1);
          Some (0, freed_at (del_pos al r node (ep_tree st1)) (st1\<lparr>ep_tree := t\<rparr>)) }) }"

definition execute_set :: "alloc \<Rightarrow> strlist_t list \<Rightarrow> strlist_t list \<Rightarrow> ephp \<Rightarrow> (int \<times> ephp) option" where
  "execute_set al l1 l2 st = do {
     (n, st1) \<leftarrow> convert_strlst al l1 st;
     (v, st2) \<leftarrow> convert_strlst al l2 st1;
     (case (n, v) of
        (Some node, Some w) \<Rightarrow> do {
          r \<leftarrow> root_for (ep_anchor st2) node;
          (_, t, ms) \<leftarrow> xmldb_set_value al r node w (ep_tree st2);
          Some (0, st2\<lparr>ep_tree := t, ep_notify := ep_notify st2 @ ms\<rparr>) }
      | _ \<Rightarrow> Some (-1, st2)) }"

definition execute_echo :: "alloc \<Rightarrow> strlist_t list \<Rightarrow> ephp \<Rightarrow> (int \<times> ephp) option" where
  "execute_echo al l st = do {
     (s, st1) \<leftarrow> convert_strlst al l st;
     Some (0, case s of None \<Rightarrow> st1 | Some t \<Rightarrow> b_puts t st1) }"

definition assigned :: "alloc \<Rightarrow> aop_t \<Rightarrow> char list \<Rightarrow> char list \<Rightarrow> nspace \<Rightarrow> (char list \<times> nspace) option" where
  "assigned al aop name s vs = (if aop = AOP_ASSIGN then Some (s, vs)
     else do {
       (v, vs1) \<leftarrow> get_var_value al name vs;
       Some (itoa (wrap_int (case aop of AOP_ADD \<Rightarrow> atoi v + atoi s | AOP_SUB \<Rightarrow> atoi v - atoi s
         | AOP_INCREASE \<Rightarrow> atoi v + 1 | _ \<Rightarrow> atoi v - 1)), vs1) })"

definition execute_assign :: "alloc \<Rightarrow> aop_t \<Rightarrow> char list option \<Rightarrow> strlist_t list \<Rightarrow> ephp \<Rightarrow> (int \<times> ephp) option" where
  "execute_assign al aop variable l st = do {
     (s, st1) \<leftarrow> convert_strlst al l st;
     (case s of
        None \<Rightarrow> Some (-1, st1)
      | Some t \<Rightarrow> do {
          name \<leftarrow> variable;
          (b, vs) \<leftarrow> assigned al aop name t (ep_vars st1);
          vs' \<leftarrow> ephp_set_var al name b vs;
          Some (0, st1\<lparr>ep_vars := vs'\<rparr>) }) }"

fun map_match :: "alloc \<Rightarrow> char list \<Rightarrow> match_t list \<Rightarrow> ephp \<Rightarrow> (char list option \<times> ephp) option" where
  "map_match al v [] st = Some (None, st)"
| "map_match al v ((p, out) # ms) st = do {
     (patt, st1) \<leftarrow> convert_strlst al p st;
     (if patt = Some v then convert_strlst al out st1 else map_match al v ms st1) }"

definition execute_map :: "alloc \<Rightarrow> strlist_t list \<Rightarrow> match_t option \<Rightarrow> match_t list \<Rightarrow> ephp \<Rightarrow> (int \<times> ephp) option" where
  "execute_map al l dflt ms st = do {
     (n, st1) \<leftarrow> convert_strlst al l st;
     (case n of
        None \<Rightarrow> Some (-1, st1)
      | Some node \<Rightarrow> do {
          v \<leftarrow> query_node al (ep_tree st1) (ep_anchor st1) node False;
          (case v of
             None \<Rightarrow> Some (-1, st1)
           | Some w \<Rightarrow> do {
               (out, st2) \<leftarrow> map_match al w ms st1;
               (out', st3) \<leftarrow> (case (out, dflt) of
                   (None, Some (_, d)) \<Rightarrow> convert_strlst al d st2
                 | _ \<Rightarrow> Some (out, st2));
               Some (0, b_puts (case out' of Some t \<Rightarrow> t | None \<Rightarrow> w) st3) }) }) }"

subsection \<open>Log files\<close>

text \<open>The fields of a line; there is room for sixteen.\<close>

function log_fields :: "nat \<Rightarrow> char list \<Rightarrow> char list list option" where
  "log_fields i cur = (if i \<ge> 16 then None
     else (case strchr cur (CHR ''|'') of
         None \<Rightarrow> Some [xmldb_reatwhite cur]
       | Some k \<Rightarrow> map_option ((#) (xmldb_reatwhite (take k cur))) (log_fields (Suc i) (xmldb_eatwhite (drop (Suc k) cur)))))"
  by pat_completeness auto
termination by (relation "measure (\<lambda>(i, cur). 16 - i)") auto

declare log_fields.simps [simp del]

text \<open>A field that is not there is a null pointer.\<close>

fun log_output :: "char list list \<Rightarrow> char list \<Rightarrow> ephp \<Rightarrow> ephp option" where
  "log_output fs [] st = Some st"
| "log_output fs (c # r) st =
     (if c = CHR ''%'' then (case r of
          [] \<Rightarrow> Some st
        | d # r' \<Rightarrow>
            if isdigit d then
              (let i = nat (uchar d - 48) in if i < length fs then log_output fs r' (b_puts (fs ! i) st) else None)
            else log_output fs r' (b_putc d st))
      else log_output fs r (b_putc c st))"

lemma line_loop_shorter: "line_loop al strip acc n fh = Some (t, z, r) \<Longrightarrow> length r \<le> length fh - 1"
proof (induction fh arbitrary: acc n)
  case (Cons c fh)
  then show ?case by (fastforce simp: Let_def bind_Some_iff split: if_splits)
qed simp

lemma get_line_shorter:
  "lrgbin_get_line_from_file al strip fh = Some (Some l, r) \<Longrightarrow> length r < length fh"
  by (cases fh) (auto simp: lrgbin_get_line_from_file_def bind_Some_iff simp del: line_loop.simps(2) split: if_splits dest!: line_loop_shorter)

function log_lines :: "alloc \<Rightarrow> char list option \<Rightarrow> char list \<Rightarrow> ephp \<Rightarrow> ephp option" where
  "log_lines al format fh st = Option.bind (lrgbin_get_line_from_file al True fh) (\<lambda>(line, r). case line of
       None \<Rightarrow> Some st
     | Some l \<Rightarrow> Option.bind (log_fields 0 (xmldb_eatwhite l)) (\<lambda>fs. Option.bind format (\<lambda>f.
         Option.bind (log_output fs f st) (\<lambda>st1. log_lines al format r (b_putc NL st1)))))"
  by pat_completeness auto
termination by (relation "measure (\<lambda>(al, format, fh, st). length fh)") (auto dest: get_line_shorter)

declare log_lines.simps [simp del]

text \<open>The command line for the translation has 256 bytes.\<close>

definition execute_inclog :: "ephp_env \<Rightarrow> char list option \<Rightarrow> char list option \<Rightarrow> ephp \<Rightarrow> (int \<times> ephp) option" where
  "execute_inclog E format logfile st = do {
     f \<leftarrow> logfile;
     fh \<leftarrow> (if pe_tlogs E then
         (if length (''tlogs -l '' @ f @ '' > /var/log/tlogsmsg'') < 256 then Some (pe_tlog_text E f) else None)
       else Some (pe_files E f));
     (case fh of
        None \<Rightarrow> Some (0, st)
      | Some text_b \<Rightarrow> map_option (\<lambda>st1. (0, st1)) (log_lines (pe_alloc E) format text_b st)) }"

definition exec_plain :: "ephp_env \<Rightarrow> sblock_t \<Rightarrow> ephp \<Rightarrow> (int \<times> ephp) option" where
  "exec_plain E b st = (let al = pe_alloc E in case b of
       SB_ANCHOR l \<Rightarrow> execute_anchor al l st
     | SB_QUERY l \<Rightarrow> execute_query al l st
     | SB_QUERYJS l \<Rightarrow> execute_queryjs al l st
     | SB_DEL l \<Rightarrow> execute_del al l st
     | SB_SET l v \<Rightarrow> execute_set al l v st
     | SB_ECHO l \<Rightarrow> execute_echo al l st
     | SB_ASSIGN aop n l \<Rightarrow> execute_assign al aop n l st
     | SB_MAP l d ms \<Rightarrow> execute_map al l d ms st
     | SB_INCLOG f l \<Rightarrow> execute_inclog E f l st
     | SB_EXIT \<Rightarrow> Some (1, st)
     | _ \<Rightarrow> None)"


subsection \<open>Pages\<close>

text \<open>One block of a page: what is printed before it, the buffer, and the rest behind it if there is a complete block. Text
  behind the last block is printed too; a block without an end is dropped.\<close>

datatype scan_state = Sc_text | Sc_block | Sc_comment | Sc_line

fun embeded_scan :: "alloc \<Rightarrow> scan_state \<Rightarrow> wbuf \<Rightarrow> char list \<Rightarrow> char list \<Rightarrow> char list \<times> wbuf \<times> char list option" where
  "embeded_scan al s pb out [] = (out, pb, None)"
| "embeded_scan al Sc_text pb out (c # r) =
     (if c = CHR ''<'' then (case r of
          [] \<Rightarrow> (out, pb, None)
        | d # r' \<Rightarrow> if d = CHR ''?'' then embeded_scan al Sc_block (pb\<lparr>wb_text := []\<rparr>) out r'
            else embeded_scan al Sc_text pb (out @ [c, d]) r')
      else embeded_scan al Sc_text pb (out @ [c]) r)"
| "embeded_scan al Sc_block pb out (c # r) =
     (if c = CHR ''/'' then (case r of
          [] \<Rightarrow> (out, pb, None)
        | d # r' \<Rightarrow> if d = CHR ''*'' then embeded_scan al Sc_comment pb out r'
            else if d = CHR ''/'' then embeded_scan al Sc_line pb out r'
            else embeded_scan al Sc_block (snd (pi_putc al (snd (pi_putc al pb c)) d)) out r')
      else if c = CHR ''?'' then (case r of
          [] \<Rightarrow> (out, pb, None)
        | d # r' \<Rightarrow> if d = CHR ''>'' then (out, snd (pi_putc al pb NUL), Some r')
            else embeded_scan al Sc_block (snd (pi_putc al (snd (pi_putc al pb c)) d)) out r')
      else embeded_scan al Sc_block (snd (pi_putc al pb c)) out r)"
| "embeded_scan al Sc_comment pb out (c # r) =
     (if c = CHR ''*'' then (case r of
          [] \<Rightarrow> (out, pb, None)
        | d # r' \<Rightarrow> embeded_scan al (if d = CHR ''/'' then Sc_block else Sc_comment) pb out r')
      else embeded_scan al Sc_comment pb out r)"
| "embeded_scan al Sc_line pb out (c # r) = embeded_scan al (if c = NL \<or> c = CHR 0x0D then Sc_block else Sc_line) pb out r"

text \<open>The text of a block, with \<^verbatim>\<open>check_format\<close>: a variable to print, or statements. \<open>Inl\<close> is the result together with the new
  state, \<open>Inr\<close> the statements.\<close>

definition check_format :: "alloc \<Rightarrow> ephp \<Rightarrow> ((int \<times> ephp) + sblock_t list) option" where
  "check_format al st = (if \<not> wb_live (ep_pb st) then None
     else let t = cut (wb_text (ep_pb st)) in
       if t \<noteq> [] \<and> hd t = CHR ''='' then
         (if tl t = [] \<or> hd (tl t) \<noteq> CHR ''$'' then Some (Inl (-1, b_puts ''!! invalid format !!'' st))
          else do {
            (v, vs) \<leftarrow> get_var_value al (xmldb_reatwhite (drop 2 t)) (ep_vars st);
            Some (Inl (0, b_puts v (st\<lparr>ep_vars := vs\<rparr>))) })
       else do {
         res \<leftarrow> parse_ephp al (if keyword ''ephp'' t then drop 4 t else t);
         Some (case res of Inl (msg, _) \<Rightarrow> Inl (-1, b_puts msg st) | Inr (bs, _) \<Rightarrow> Inr bs) })"

definition find_entry :: "alloc \<Rightarrow> nptr \<Rightarrow> char list \<Rightarrow> xml_node \<Rightarrow> (nptr \<times> char list) option" where
  "find_entry al a path tree = (case strrchr path (CHR ''/'') of
       None \<Rightarrow> Some (a, path)
     | Some k \<Rightarrow> do {
         r \<leftarrow> root_for a (take k path);
         (p, _) \<leftarrow> xmldb_find_node al r (take k path) False tree;
         Some (to_nptr p, drop (Suc k) path) })"

text \<open>The variable \<^verbatim>\<open>#\<close> is saved in eight bytes.\<close>

definition save_num :: "alloc \<Rightarrow> nspace \<Rightarrow> (char list \<times> nspace) option" where
  "save_num al vs = do {
     (i, vs') \<leftarrow> ephp_get_var al ''#'' vs;
     (case i of
        None \<Rightarrow> Some (''0'', vs')
      | Some k \<Rightarrow> do { v \<leftarrow> snd (vs' ! k); if length v < 8 then Some (v, vs') else None }) }"

subsection \<open>Execution\<close>

text \<open>The statements with blocks take the functions they call back into as arguments; the knot is tied with the fuel below.\<close>

type_synonym outcome = "(int \<times> ephp) option"

definition execute_if :: "(sblock_t list \<Rightarrow> ephp \<Rightarrow> outcome) \<Rightarrow> alloc \<Rightarrow> cond_t list \<Rightarrow> sblock_t list \<Rightarrow> sblock_t list \<Rightarrow> ephp \<Rightarrow> outcome" where
  "execute_if run al cs yes no st = Option.bind (check_condition al (-1) cs st) (\<lambda>(ret, st1).
     if ret < 0 then Some (-1, st1) else run (if ret \<noteq> 0 then yes else no) st1)"

text \<open>One round of the loop of \<^verbatim>\<open>execute_for\<close>, whose parent node is the first saved pointer.\<close>

definition for_step :: "(sblock_t list \<Rightarrow> ephp \<Rightarrow> outcome) \<Rightarrow> (int \<Rightarrow> ephp \<Rightarrow> outcome) \<Rightarrow> alloc \<Rightarrow> char list \<Rightarrow> sblock_t list \<Rightarrow> int \<Rightarrow> ephp \<Rightarrow> outcome" where
  "for_step run again al entry stmts i st = (case ep_saved st ! 0 of
       Node q \<Rightarrow> Option.bind (node_at (ep_tree st) q) (\<lambda>nd. case sibling (node_child nd) entry i of
           None \<Rightarrow> Some (0, st\<lparr>ep_anchor := Null\<rparr>)
         | Some k \<Rightarrow> if length (itoa i) \<ge> 8 then None
             else Option.bind (ephp_set_var al ''#'' (itoa i) (ep_vars st)) (\<lambda>vs.
               Option.bind (run stmts (st\<lparr>ep_anchor := Node (q @ [k]), ep_vars := vs\<rparr>)) (\<lambda>(ret, st1).
                 if ret \<noteq> 0 then Some (ret, st1) else again (i + 1) st1)))
     | _ \<Rightarrow> None)"

definition execute_for :: "(char list \<Rightarrow> int \<Rightarrow> ephp \<Rightarrow> outcome) \<Rightarrow> alloc \<Rightarrow> strlist_t list \<Rightarrow> ephp \<Rightarrow> outcome" where
  "execute_for loop al l st = Option.bind (convert_strlst al l st) (\<lambda>(path, st1). case path of
       None \<Rightarrow> Some (-1, b_puts ''MALLOC ERROR !!'' st1)
     | Some p \<Rightarrow> Option.bind (find_entry al (ep_anchor st1) p (ep_tree st1)) (\<lambda>(pnode, entry).
         if pnode = Null then Some (0, st1)
         else Option.bind (save_num al (ep_vars st1)) (\<lambda>(oldnum, vs).
           Option.bind (loop entry 1 (st1\<lparr>ep_vars := vs, ep_saved := pnode # ep_anchor st1 # ep_saved st1\<rparr>)) (\<lambda>(ret, st2).
             Option.bind (ephp_set_var al ''#'' oldnum (ep_vars st2)) (\<lambda>vs2.
               Some (ret, st2\<lparr>ep_vars := vs2, ep_anchor := ep_saved st2 ! 1, ep_saved := drop 2 (ep_saved st2)\<rparr>))))))"

definition execute_require :: "(char list \<Rightarrow> ephp \<Rightarrow> outcome) \<Rightarrow> ephp_env \<Rightarrow> strlist_t list \<Rightarrow> ephp \<Rightarrow> outcome" where
  "execute_require page E l st = Option.bind (convert_strlst (pe_alloc E) l st) (\<lambda>(fname, st1). case fname of
       None \<Rightarrow> Some (-1, st1)
     | Some f \<Rightarrow> (case pe_files E f of None \<Rightarrow> Some (-1, st1) | Some pg \<Rightarrow> page pg st1))"

definition exec_block ::
  "(sblock_t list \<Rightarrow> ephp \<Rightarrow> outcome) \<Rightarrow> (char list \<Rightarrow> sblock_t list \<Rightarrow> int \<Rightarrow> ephp \<Rightarrow> outcome) \<Rightarrow> (char list \<Rightarrow> ephp \<Rightarrow> outcome) \<Rightarrow>
   ephp_env \<Rightarrow> sblock_t \<Rightarrow> ephp \<Rightarrow> outcome" where
  "exec_block run loop page E b st = (case b of
       SB_IF cs yes no \<Rightarrow> execute_if run (pe_alloc E) cs yes no st
     | SB_FOR l stmts \<Rightarrow> execute_for (\<lambda>entry i s. loop entry stmts i s) (pe_alloc E) l st
     | SB_REQUIRE l \<Rightarrow> execute_require page E l st
     | _ \<Rightarrow> exec_plain E b st)"

definition page_step :: "(sblock_t list \<Rightarrow> ephp \<Rightarrow> outcome) \<Rightarrow> (char list \<Rightarrow> ephp \<Rightarrow> outcome) \<Rightarrow> ephp_env \<Rightarrow> char list \<Rightarrow> ephp \<Rightarrow> outcome" where
  "page_step run page E text_b st = (case embeded_scan (pe_alloc E) Sc_text (ep_pb st) [] text_b of (out, pb, rest) \<Rightarrow>
     let st0 = b_puts out (st\<lparr>ep_pb := pb\<rparr>) in
     case rest of
       None \<Rightarrow> Some (0, st0)
     | Some pg \<Rightarrow> Option.bind (check_format (pe_alloc E) st0) (\<lambda>f.
         Option.bind (case f of Inl x \<Rightarrow> Some x | Inr bs \<Rightarrow> run bs st0) (\<lambda>(ret, st1).
           if ret \<noteq> 0 then Some (ret, st1) else page pg st1)))"

fun execute_sblist :: "nat \<Rightarrow> ephp_env \<Rightarrow> sblock_t list \<Rightarrow> ephp \<Rightarrow> outcome"
and for_loop :: "nat \<Rightarrow> ephp_env \<Rightarrow> char list \<Rightarrow> sblock_t list \<Rightarrow> int \<Rightarrow> ephp \<Rightarrow> outcome"
and do_embeded_php :: "nat \<Rightarrow> ephp_env \<Rightarrow> char list \<Rightarrow> ephp \<Rightarrow> outcome"
where
  "execute_sblist n E [] st = Some (0, st)"
| "execute_sblist 0 E (b # bs) st = None"
| "execute_sblist (Suc n) E (b # bs) st =
     Option.bind (exec_block (\<lambda>l s. execute_sblist n E l s) (\<lambda>entry l i s. for_loop n E entry l i s) (\<lambda>pg s. do_embeded_php n E pg s) E b st)
       (\<lambda>(ret, st1). if ret \<noteq> 0 then Some (ret, st1) else execute_sblist n E bs st1)"
| "for_loop 0 E entry stmts i st = None"
| "for_loop (Suc n) E entry stmts i st =
     for_step (\<lambda>l s. execute_sblist n E l s) (\<lambda>j s. for_loop n E entry stmts j s) (pe_alloc E) entry stmts i st"
| "do_embeded_php 0 E page st = None"
| "do_embeded_php (Suc n) E page st =
     page_step (\<lambda>l s. execute_sblist n E l s) (\<lambda>pg s. do_embeded_php n E pg s) E page st"

subsection \<open>Requests\<close>

lemma strchr_less: "strchr s c = Some k \<Longrightarrow> c \<noteq> NUL \<Longrightarrow> k < length s"
  by (induction s arbitrary: k) (auto split: if_splits)

text \<open>The variables behind the file name, one per line.\<close>

function set_args :: "alloc \<Rightarrow> char list \<Rightarrow> nspace \<Rightarrow> nspace option" where
  "set_args al var vs = (case strchr var (CHR ''='') of
       None \<Rightarrow> Some vs
     | Some k \<Rightarrow> (let v = drop (Suc k) var in case strchr v NL of
           None \<Rightarrow> ephp_set_var al (take k var) v vs
         | Some j \<Rightarrow> Option.bind (ephp_set_var al (take k var) (take j v) vs) (\<lambda>vs'. set_args al (drop (Suc j) v) vs')))"
  by pat_completeness auto
termination set_args
  by (relation "measure (\<lambda>(al, var, vs). length var)") (auto dest!: strchr_less)

definition xmldb_ephp :: "nat \<Rightarrow> ephp_env \<Rightarrow> char list \<Rightarrow> ephp \<Rightarrow> (int \<times> ephp) option" where
  "xmldb_ephp n E message st = (let k = strchr message NL; f = (case k of None \<Rightarrow> message | Some j \<Rightarrow> take j message) in do {
     (ret, st1) \<leftarrow> (case pe_files E f of
         None \<Rightarrow> Some (-1, st)
       | Some page \<Rightarrow> do {
           vs \<leftarrow> ephp_set_var (pe_alloc E) ''#'' ''0'' (ep_vars st);
           vs' \<leftarrow> (case k of None \<Rightarrow> Some vs | Some j \<Rightarrow> set_args (pe_alloc E) (drop (Suc j) message) vs);
           (r, st2) \<leftarrow> do_embeded_php n E page (st\<lparr>ep_vars := vs'\<rparr>);
           Some (r, st2\<lparr>ep_vars := clear_var\<rparr>) });
     Some (ret, b_flush (b_putc NUL st1)) })"

end
