(* ===== verification/Xmldb_Daemon.thy ===== *)
theory Xmldb_Daemon
  imports Ephp_Run
begin

text \<open>
  The daemon of the configuration database, \<^verbatim>\<open>tools/alpha/xmldb/main.c\<close>: the table of clients, the handler of each request and the
  loop that dispatches them. A connection is the bytes that have arrived and the pieces written to it. The world
  the daemon acts on, the tree, the files, the notifications sent and the standard output, is part of its state, and so are
  the static variables of \<^verbatim>\<open>patch.c\<close> and \<^verbatim>\<open>ephp.c\<close>. The allocator, the name of the root node, whether a file can be
  written, whether logs are translated, and the fuel for a page are arguments, collected in \<open>env\<close>. \<open>None\<close> is a fault: a string function that runs past the bytes that were read, or a
  fault of the operation that is called.
\<close>

definition MAX_CLIENT_LIST :: nat where "MAX_CLIENT_LIST = 128"
definition MAX_PATCH_BUFFER :: nat where "MAX_PATCH_BUFFER = 1024"

record xmldb_client =
  cl_fd :: int
  cl_ipc :: rgdb_ipc_t

record usock =
  us_rx :: "char list"
  us_err :: bool
  us_tx :: "char list list"

record daemon =
  d_clients :: "xmldb_client list"
  d_tree :: xml_node
  d_patch :: patch_state
  d_socks :: "int \<Rightarrow> usock option"
  d_files :: "char list \<Rightarrow> char list option"
  d_stdout :: "char list"
  d_notify :: "char list list"
  d_ephp :: ephp

record env =
  e_alloc :: alloc
  e_rootname :: "char list"
  e_can_write :: "char list \<Rightarrow> bool"
  e_tlogs :: bool
  e_tlog_text :: "char list \<Rightarrow> char list option"
  e_fuel :: nat

subsection \<open>The table of clients\<close>

definition idle_ipc :: "rgdb_ipc_t \<Rightarrow> rgdb_ipc_t" where
  "idle_ipc i = i\<lparr>ipc_action := RGDB_NONE, ipc_length := 0\<rparr>"

definition init_clients :: "xmldb_client list" where
  "init_clients = replicate MAX_CLIENT_LIST
     \<lparr>cl_fd = -1, cl_ipc = \<lparr>ipc_action = RGDB_NONE, ipc_length = 0, ipc_flags = 0, ipc_retcode = 0\<rparr>\<rparr>"

fun add_client :: "int \<Rightarrow> xmldb_client list \<Rightarrow> int \<times> xmldb_client list" where
  "add_client s [] = (-1, [])"
| "add_client s (c # cs) =
     (if cl_fd c < 0 then (0, c\<lparr>cl_fd := s\<rparr> # cs) else (case add_client s cs of (r, cs') \<Rightarrow> (r, c # cs')))"

fun remove_client :: "int \<Rightarrow> xmldb_client list \<Rightarrow> int \<times> xmldb_client list" where
  "remove_client s [] = (-1, [])"
| "remove_client s (c # cs) =
     (if cl_fd c = s then (0, c\<lparr>cl_fd := -1, cl_ipc := idle_ipc (cl_ipc c)\<rparr> # cs)
      else (case remove_client s cs of (r, cs') \<Rightarrow> (r, c # cs')))"

text \<open>The descriptors to wait for, and the largest one.\<close>

definition set_fd :: "xmldb_client list \<Rightarrow> int list \<times> int" where
  "set_fd cs = (let fds = filter (\<lambda>f. f > 2) (map cl_fd cs) in (fds, fold max fds 0))"

definition close_clients :: "xmldb_client list \<Rightarrow> int list \<times> xmldb_client list" where
  "close_clients cs = (filter (\<lambda>f. f > 0) (map cl_fd cs),
     map (\<lambda>c. if cl_fd c > 0 then c\<lparr>cl_fd := -1, cl_ipc := idle_ipc (cl_ipc c)\<rparr> else c) cs)"

subsection \<open>Reading and answering\<close>

definition client_ipc :: "nat \<Rightarrow> daemon \<Rightarrow> rgdb_ipc_t" where
  "client_ipc k st = cl_ipc (d_clients st ! k)"

definition set_ipc :: "nat \<Rightarrow> rgdb_ipc_t \<Rightarrow> daemon \<Rightarrow> daemon" where
  "set_ipc k i st = st\<lparr>d_clients := (d_clients st)[k := (d_clients st ! k)\<lparr>cl_ipc := i\<rparr>]\<rparr>"

text \<open>\<^verbatim>\<open>read(fd, buf, n)\<close> after \<^verbatim>\<open>select\<close> has reported the descriptor: the bytes, or \<open>None\<close> for an error.\<close>

definition sock_read :: "int \<Rightarrow> nat \<Rightarrow> daemon \<Rightarrow> char list option \<times> daemon" where
  "sock_read fd n st = (case d_socks st fd of
       None \<Rightarrow> (None, st)
     | Some s \<Rightarrow> if us_err s then (None, st)
         else (Some (take n (us_rx s)), st\<lparr>d_socks := (d_socks st)(fd \<mapsto> s\<lparr>us_rx := drop n (us_rx s)\<rparr>)\<rparr>))"

definition sock_write :: "int \<Rightarrow> char list list \<Rightarrow> daemon \<Rightarrow> daemon" where
  "sock_write fd ws st = (case d_socks st fd of
       None \<Rightarrow> st
     | Some s \<Rightarrow> st\<lparr>d_socks := (d_socks st)(fd \<mapsto> s\<lparr>us_tx := us_tx s @ ws\<rparr>)\<rparr>)"

definition read_size :: "char list option \<Rightarrow> int" where
  "read_size d = (case d of None \<Rightarrow> -1 | Some cs \<Rightarrow> int (length cs))"

text \<open>The part the handlers share: allocate a buffer, read the parameter, and go on with the string in it. Without a NUL
  among the bytes read, the string functions run on behind them.\<close>

definition with_param :: "env \<Rightarrow> nat \<Rightarrow> (char list \<Rightarrow> daemon \<Rightarrow> daemon option) \<Rightarrow> daemon \<Rightarrow> (int \<times> daemon) option" where
  "with_param e k f st = (let n = unat (ipc_length (client_ipc k st)) in
     if \<not> e_alloc e n then Some (0, st)
     else (case sock_read (cl_fd (d_clients st ! k)) n st of (d, st1) \<Rightarrow>
       (case d of
          None \<Rightarrow> Some (-1, st1)
        | Some cs \<Rightarrow> if cs = [] then Some (0, st1)
            else do { s \<leftarrow> cstr cs; st2 \<leftarrow> f s st1; Some (int (length cs), st2) })))"

text \<open>Run the interpreter of templates and send what it writes to the client.\<close>

definition run_patch :: "nat \<Rightarrow> (patch_state \<Rightarrow> (int \<times> patch_state) option) \<Rightarrow> daemon \<Rightarrow> (int \<times> daemon) option" where
  "run_patch k g st = do {
     (r, ps) \<leftarrow> g (d_patch st);
     Some (r, sock_write (cl_fd (d_clients st ! k)) (ob_written ps) (st\<lparr>d_patch := ps\<lparr>ob_written := []\<rparr>\<rparr>)) }"

definition send_ack :: "nat \<Rightarrow> u16 \<Rightarrow> u32 \<Rightarrow> daemon \<Rightarrow> daemon" where
  "send_ack k act ret st = (let
     st1 = set_ipc k ((client_ipc k st)\<lparr>ipc_action := act, ipc_length := 0, ipc_retcode := ret\<rparr>) st in
     sock_write (cl_fd (d_clients st ! k)) [ipc_image (client_ipc k st1)] st1)"

subsection \<open>Handlers\<close>

definition do_get :: "env \<Rightarrow> nat \<Rightarrow> daemon \<Rightarrow> (int \<times> daemon) option" where
  "do_get e k st = with_param e k (\<lambda>s st1. map_option snd
     (run_patch k (xmldb_patch_message (e_alloc e) (d_tree st1) None (ipc_flags (client_ipc k st1)) (map tolower s)) st1)) st"

definition do_patch_req :: "env \<Rightarrow> nat \<Rightarrow> daemon \<Rightarrow> (int \<times> daemon) option" where
  "do_patch_req e k st = with_param e k (\<lambda>s st1. map_option snd
     (run_patch k (xmldb_patch_file (e_alloc e) (d_tree st1) (ipc_flags (client_ipc k st1)) (d_files st1 s)) st1)) st"

text \<open>The interpreter of \<^verbatim>\<open>ephp.c\<close> works on the tree of the daemon, and keeps its anchor and its buffers from one request to
  the next; the flags are not looked at.\<close>

definition run_ephp :: "env \<Rightarrow> char list \<Rightarrow> daemon \<Rightarrow> (int \<times> ephp) option" where
  "run_ephp e s st = xmldb_ephp (e_fuel e)
     \<lparr>pe_alloc = e_alloc e, pe_files = d_files st, pe_tlogs = e_tlogs e, pe_tlog_text = e_tlog_text e\<rparr> s
     ((d_ephp st)\<lparr>ep_tree := d_tree st, ep_writes := [], ep_notify := []\<rparr>)"

definition do_ephp :: "env \<Rightarrow> nat \<Rightarrow> daemon \<Rightarrow> (int \<times> daemon) option" where
  "do_ephp e k st = with_param e k (\<lambda>s st1. do {
     (_, es) \<leftarrow> run_ephp e s st1;
     Some (sock_write (cl_fd (d_clients st1 ! k)) (ep_writes es)
       (st1\<lparr>d_tree := ep_tree es, d_notify := d_notify st1 @ ep_notify es, d_ephp := es\<rparr>)) }) st"

definition do_patch_buffer :: "env \<Rightarrow> nat \<Rightarrow> daemon \<Rightarrow> (int \<times> daemon) option" where
  "do_patch_buffer e k st = (let n = unat (ipc_length (client_ipc k st)); fd = cl_fd (d_clients st ! k) in
     if n < MAX_PATCH_BUFFER then
       (case (if e_alloc e n then sock_read fd n st else (Some [], st)) of (d, st1) \<Rightarrow>
          run_patch k (xmldb_patch_buffer (e_alloc e) (d_tree st1) (ipc_flags (client_ipc k st1)) n d) st1)
     else Some (0, sock_write fd [[NUL]] st))"

text \<open>The text before the first space and the text behind it.\<close>

definition split_space :: "char list \<Rightarrow> (char list \<times> char list) option" where
  "split_space s = map_option (\<lambda>j. (take j s, drop (Suc j) s)) (strchr s (CHR '' ''))"

definition do_set :: "env \<Rightarrow> nat \<Rightarrow> daemon \<Rightarrow> (int \<times> daemon) option" where
  "do_set e k st = with_param e k (\<lambda>s st1. do {
     st2 \<leftarrow> (case split_space s of
         None \<Rightarrow> Some st1
       | Some (path, v) \<Rightarrow> do {
           (_, t, ms) \<leftarrow> xmldb_set_value (e_alloc e) None (map tolower path) v (d_tree st1);
           Some (st1\<lparr>d_tree := t, d_notify := d_notify st1 @ ms\<rparr>) });
     Some (send_ack k RGDB_NONE 0 st2) }) st"

definition do_set_notify :: "env \<Rightarrow> nat \<Rightarrow> daemon \<Rightarrow> (int \<times> daemon) option" where
  "do_set_notify e k st = with_param e k (\<lambda>s st1. do {
     st2 \<leftarrow> (case split_space s of
         None \<Rightarrow> Some st1
       | Some (path, m) \<Rightarrow> do {
           (_, t) \<leftarrow> xmldb_set_notify (e_alloc e) None (map tolower path) m (d_tree st1);
           Some (st1\<lparr>d_tree := t\<rparr>) });
     Some (send_ack k RGDB_SET_NOTIFY 0 st2) }) st"

definition do_del :: "env \<Rightarrow> nat \<Rightarrow> daemon \<Rightarrow> (int \<times> daemon) option" where
  "do_del e k st = with_param e k (\<lambda>s st1. do {
     (_, t, _) \<leftarrow> xmldb_del_node (e_alloc e) None (map tolower s) (d_tree st1);
     Some (send_ack k RGDB_NONE 0 (st1\<lparr>d_tree := t,
       d_ephp := freed_at (del_pos (e_alloc e) None (map tolower s) (d_tree st1)) (d_ephp st1)\<rparr>)) }) st"

definition skip_proc_flag :: "u32 \<Rightarrow> bool" where
  "skip_proc_flag flags \<longleftrightarrow> flags AND RGDB_SKIP_PROC \<noteq> 0"

text \<open>What becomes of the anchor when a file is read: the nodes below the root are freed, except that the node \<^verbatim>\<open>proc\<close> may be
  kept and put behind the new ones. A node that is kept but is in no tree any more is counted as freed.\<close>

definition reload_ptr :: "bool \<Rightarrow> bool \<Rightarrow> xml_node \<Rightarrow> xml_node \<Rightarrow> nptr \<Rightarrow> nptr" where
  "reload_ptr skip opened t t' a = (case a of
       Node (j # q) \<Rightarrow>
         if skip \<and> opened \<and> find_pos (\<lambda>n. strcmp (node_name n) ''proc'' = 0 \<and> node_id n = 0) (node_child t) = Some j
         then Node ((length (node_child t') - 1) # q) else Dangling
     | _ \<Rightarrow> a)"

definition do_reload :: "env \<Rightarrow> nat \<Rightarrow> daemon \<Rightarrow> (int \<times> daemon) option" where
  "do_reload e k st = with_param e k (\<lambda>s st1. let skip = skip_proc_flag (ipc_flags (client_ipc k st1)) in do {
     (r, t, _) \<leftarrow> xmldb_read_xml (e_alloc e) (e_rootname e) skip (d_files st1 s) (d_tree st1);
     Some (send_ack k RGDB_NONE (word_of_int r) (st1\<lparr>d_tree := t,
       d_ephp := (d_ephp st1)\<lparr>ep_anchor := reload_ptr skip (d_files st1 s \<noteq> None) (d_tree st1) t (ep_anchor (d_ephp st1))\<rparr>\<rparr>)) }) st"

definition do_dump :: "env \<Rightarrow> nat \<Rightarrow> daemon \<Rightarrow> (int \<times> daemon) option" where
  "do_dump e k st = with_param e k (\<lambda>s st1. let
     txt = xmldb_dump_nodes (skip_proc_flag (ipc_flags (client_ipc k st1))) [d_tree st1] 0;
     st2 = (if s = ''stdout'' then st1\<lparr>d_stdout := d_stdout st1 @ txt\<rparr>
       else if e_can_write e s then st1\<lparr>d_files := (d_files st1)(s \<mapsto> txt)\<rparr> else st1) in
     Some (send_ack k RGDB_NONE 0 st2)) st"

subsection \<open>Dispatching\<close>

text \<open>A header is taken as complete, however many bytes of it were read.\<close>

definition read_header :: "nat \<Rightarrow> daemon \<Rightarrow> int \<times> daemon" where
  "read_header k st = (case sock_read (cl_fd (d_clients st ! k)) 12 st of (d, st1) \<Rightarrow>
     (case d of None \<Rightarrow> (-1, st1)
      | Some cs \<Rightarrow> (int (length cs),
          set_ipc k (ipc_of (cs @ drop (length cs) (ipc_image (client_ipc k st1)))) st1)))"

definition action_done :: "nat \<Rightarrow> (int \<times> daemon) option \<Rightarrow> (int \<times> daemon) option" where
  "action_done k r = map_option (\<lambda>(n, st). (n, set_ipc k ((client_ipc k st)\<lparr>ipc_action := RGDB_NONE\<rparr>) st)) r"

definition rhandler :: "env \<Rightarrow> nat \<Rightarrow> daemon \<Rightarrow> (int \<times> daemon) option" where
  "rhandler e k st = (let a = ipc_action (client_ipc k st) in
     if a = RGDB_NONE then Some (read_header k st)
     else action_done k
       (if a = RGDB_GET then do_get e k st
        else if a = RGDB_SET then do_set e k st
        else if a = RGDB_SET_NOTIFY then do_set_notify e k st
        else if a = RGDB_DEL then do_del e k st
        else if a = RGDB_RELOAD then do_reload e k st
        else if a = RGDB_DUMP then do_dump e k st
        else if a = RGDB_PATCH then do_patch_req e k st
        else if a = RGDB_EPHP then do_ephp e k st
        else if a = RGDB_PATCH_BUFF then do_patch_buffer e k st
        else Some (0, st)))"

definition close_fd :: "int \<Rightarrow> daemon \<Rightarrow> daemon" where
  "close_fd fd st = st\<lparr>d_socks := (d_socks st)(fd := None)\<rparr>"

text \<open>The clients from position \<open>k\<close> on; \<open>ready\<close> is the set of descriptors.\<close>

fun dispatch_fd :: "env \<Rightarrow> nat list \<Rightarrow> int set \<Rightarrow> daemon \<Rightarrow> daemon option" where
  "dispatch_fd e [] ready st = Some st"
| "dispatch_fd e (k # ks) ready st = (let fd = cl_fd (d_clients st ! k) in
     if fd > 2 \<and> fd \<in> ready then do {
       (r, st1) \<leftarrow> rhandler e k st;
       let st2 = (if r \<le> 0 then (close_fd fd st1)\<lparr>d_clients := snd (remove_client fd (d_clients st1))\<rparr> else st1);
       dispatch_fd e ks (ready - {fd}) st2 }
     else dispatch_fd e ks ready st)"

definition accept_client :: "int \<Rightarrow> daemon \<Rightarrow> daemon" where
  "accept_client s st = st\<lparr>d_clients := snd (add_client s (d_clients st)),
     d_socks := (d_socks st)(s \<mapsto> \<lparr>us_rx = [], us_err = False, us_tx = []\<rparr>)\<rparr>"

definition dispatch_all :: "env \<Rightarrow> int set \<Rightarrow> daemon \<Rightarrow> daemon option" where
  "dispatch_all e ready st = dispatch_fd e [0..<MAX_CLIENT_LIST] ready st"

text \<open>Bytes that arrive at a connection.\<close>

definition deliver :: "int \<Rightarrow> char list \<Rightarrow> daemon \<Rightarrow> daemon" where
  "deliver fd cs st = (case d_socks st fd of None \<Rightarrow> st
     | Some s \<Rightarrow> st\<lparr>d_socks := (d_socks st)(fd \<mapsto> s\<lparr>us_rx := us_rx s @ cs\<rparr>)\<rparr>)"

text \<open>The state machine: a new connection with a descriptor that is not in use, bytes or an error on a connection, and
  one round of the main loop.\<close>

inductive daemon_step :: "env \<Rightarrow> daemon \<Rightarrow> daemon \<Rightarrow> bool" for e where
  Accept: "d_socks st s = None \<Longrightarrow> s > 2 \<Longrightarrow> daemon_step e st (accept_client s st)"
| Arrive: "daemon_step e st (deliver fd cs st)"
| Fail: "d_socks st fd = Some s \<Longrightarrow> daemon_step e st (st\<lparr>d_socks := (d_socks st)(fd \<mapsto> s\<lparr>us_err := True\<rparr>)\<rparr>)"
| Round: "dispatch_all e ready st = Some st' \<Longrightarrow> daemon_step e st st'"

definition daemon_start :: "xml_node \<Rightarrow> (char list \<Rightarrow> char list option) \<Rightarrow> daemon" where
  "daemon_start t files = \<lparr>d_clients = init_clients, d_tree = t,
     d_patch = \<lparr>g_var = replicate 10 0, ob_chars = [], ob_written = []\<rparr>, d_socks = (\<lambda>_. None), d_files = files, d_stdout = [], d_notify = [],
     d_ephp = \<lparr>ep_tree = t, ep_anchor = Null, ep_saved = [], ep_vars = [], ep_buffer = [], ep_writes = [], ep_notify = [], ep_pb = wb_empty\<rparr>\<rparr>"

inductive daemon_reach :: "env \<Rightarrow> daemon \<Rightarrow> bool" for e where
  Start: "daemon_reach e (daemon_start t files)"
| Step: "daemon_reach e st \<Longrightarrow> daemon_step e st st' \<Longrightarrow> daemon_reach e st'"

subsection \<open>What a handler leaves alone\<close>

definition buffer_clean :: "daemon \<Rightarrow> bool" where
  "buffer_clean st \<longleftrightarrow> ob_chars (d_patch st) = [] \<and> ob_written (d_patch st) = [] \<and> ep_buffer (d_ephp st) = [] \<and> ep_vars (d_ephp st) = []"

text \<open>\<open>frame fd st st'\<close>: the descriptors of the clients are the same, the same connections are open, all but \<open>fd\<close> are
  untouched, and empty output buffers stay empty, as does the name space of \<^verbatim>\<open>ephp.c\<close>.\<close>

definition frame :: "int \<Rightarrow> daemon \<Rightarrow> daemon \<Rightarrow> bool" where
  "frame fd st st' \<longleftrightarrow> map cl_fd (d_clients st') = map cl_fd (d_clients st) \<and> dom (d_socks st') = dom (d_socks st) \<and>
     (\<forall>f. f \<noteq> fd \<longrightarrow> d_socks st' f = d_socks st f) \<and> (buffer_clean st \<longrightarrow> buffer_clean st')"

named_theorems frame_intros \<open>operations of the daemon that keep to one connection\<close>

lemma frame_refl [simp, frame_intros]: "frame fd st st"
  by (simp add: frame_def)

lemma frame_trans: "frame fd st st1 \<Longrightarrow> frame fd st1 st2 \<Longrightarrow> frame fd st st2"
  by (auto simp: frame_def)

lemma frame_set_ipc [frame_intros]: "frame fd st (set_ipc k i st)"
proof -
  have "map cl_fd ((d_clients st)[k := (d_clients st ! k)\<lparr>cl_ipc := i\<rparr>]) = map cl_fd (d_clients st)"
    by (cases "k < length (d_clients st)") (simp_all add: map_update list_update_same_conv list_update_beyond)
  then show ?thesis by (simp add: frame_def set_ipc_def buffer_clean_def)
qed

lemma frame_sock_read: "sock_read fd n st = (d, st') \<Longrightarrow> frame fd st st'"
  by (auto simp: sock_read_def frame_def buffer_clean_def split: option.splits if_splits)

lemma frame_sock_write [frame_intros]: "frame fd st (sock_write fd ws st)"
  by (auto simp: sock_write_def frame_def buffer_clean_def split: option.splits)

lemma frame_world [frame_intros]:
  "frame fd st (st\<lparr>d_tree := t, d_notify := ms\<rparr>)" "frame fd st (st\<lparr>d_tree := t\<rparr>)" "frame fd st (st\<lparr>d_stdout := s\<rparr>)"
  "frame fd st (st\<lparr>d_files := fs\<rparr>)" "frame fd st (st\<lparr>d_tree := t, d_ephp := freed_at d (d_ephp st)\<rparr>)"
  "frame fd st (st\<lparr>d_tree := t, d_ephp := (d_ephp st)\<lparr>ep_anchor := a\<rparr>\<rparr>)"
  by (simp_all add: frame_def buffer_clean_def freed_at_def split: option.split)

text \<open>A request for a page leaves neither output nor variables behind.\<close>

lemma ephp_clean: "ep_vars st = [] \<Longrightarrow> xmldb_ephp n E s st = Some (r, es) \<Longrightarrow> ep_buffer es = [] \<and> ep_vars es = []"
proof -
  assume vs: "ep_vars st = []" and "xmldb_ephp n E s st = Some (r, es)"
  then obtain st1 where es: "es = b_flush (b_putc NUL st1)" and "st1 = st \<or> (\<exists>st2. st1 = st2\<lparr>ep_vars := clear_var\<rparr>)"
    unfolding xmldb_ephp_def Let_def
    by (cases "pe_files E (case strchr s NL of None \<Rightarrow> s | Some j \<Rightarrow> take j s)") (auto simp: bind_Some_iff)
  then have "ep_vars st1 = []" using vs by (auto simp: clear_var_def)
  moreover have "ep_vars (b_putc NUL st1) = ep_vars st1" by (simp add: b_putc_def b_flush_def Let_def)
  ultimately show ?thesis by (simp add: es b_flush_def)
qed

lemma frame_run_ephp:
  "run_ephp e s st = Some (r, es) \<Longrightarrow> frame fd st (st\<lparr>d_tree := t, d_notify := ms, d_ephp := es\<rparr>)"
  using ephp_clean [of "(d_ephp st)\<lparr>ep_tree := d_tree st, ep_writes := [], ep_notify := []\<rparr>" "e_fuel e" _ s r es]
  by (simp add: run_ephp_def frame_def buffer_clean_def)

lemma frame_fds: "frame fd st st' \<Longrightarrow> length (d_clients st') = length (d_clients st) \<and>
    (k < length (d_clients st) \<longrightarrow> cl_fd (d_clients st' ! k) = cl_fd (d_clients st ! k))"
  unfolding frame_def by (metis length_map nth_map)

lemma frame_send_ack [frame_intros]:
  assumes "fd = cl_fd (d_clients st ! k)"
  shows "frame fd st (send_ack k act r st)"
  unfolding send_ack_def Let_def assms by (rule frame_trans [OF frame_set_ipc frame_sock_write])

text \<open>The entry points of the interpreter leave the output buffer empty.\<close>

lemma patch_clean:
  "xmldb_patch_message al t root fl msg ps = Some (r, ps') \<Longrightarrow> ob_chars ps' = []"
  "ob_chars ps = [] \<Longrightarrow> xmldb_patch_file al t fl f ps = Some (r, ps') \<Longrightarrow> ob_chars ps' = []"
  "ob_chars ps = [] \<Longrightarrow> xmldb_patch_buffer al t fl n d ps = Some (r, ps') \<Longrightarrow> ob_chars ps' = []"
  by (auto simp: xmldb_patch_message_def xmldb_patch_file_def xmldb_patch_buffer_def end_patch_def buffer_flush_def start_patch_def
      split: option.splits if_splits bind_splits)

lemma frame_run_patch:
  assumes "run_patch k g st = Some (r, st')" and "fd = cl_fd (d_clients st ! k)"
    and "\<And>r ps'. ob_chars (d_patch st) = [] \<Longrightarrow> g (d_patch st) = Some (r, ps') \<Longrightarrow> ob_chars ps' = []"
  shows "frame fd st st'"
proof -
  obtain ps where g: "g (d_patch st) = Some (r, ps)"
    "st' = sock_write fd (ob_written ps) (st\<lparr>d_patch := ps\<lparr>ob_written := []\<rparr>\<rparr>)"
    using assms(1,2) by (auto simp: run_patch_def bind_eq_Some_conv)
  have "frame fd st (st\<lparr>d_patch := ps\<lparr>ob_written := []\<rparr>\<rparr>)"
    using assms(3) [OF _ g(1)] by (auto simp: frame_def buffer_clean_def)
  from frame_trans [OF this frame_sock_write] show ?thesis by (simp add: g(2))
qed

lemma frame_with_param:
  assumes "with_param e k f st = Some (r, st')" and "k < length (d_clients st)" and "fd = cl_fd (d_clients st ! k)"
    and "\<And>s st1 st2. frame fd st st1 \<Longrightarrow> f s st1 = Some st2 \<Longrightarrow> frame fd st1 st2"
  shows "frame fd st st'"
proof (cases "e_alloc e (unat (ipc_length (client_ipc k st)))")
  case True
  obtain d st1 where d: "sock_read fd (unat (ipc_length (client_ipc k st))) st = (d, st1)" by fastforce
  note f1 = frame_sock_read [OF d]
  from assms(1,3) True d show ?thesis
    using f1 frame_trans [OF f1 assms(4) [OF f1]]
    by (auto simp: with_param_def bind_eq_Some_conv split: option.splits if_splits)
next
  case False
  with assms(1) show ?thesis by (simp add: with_param_def Let_def)
qed

lemma frame_rhandler:
  assumes "rhandler e k st = Some (r, st')" and "k < length (d_clients st)" and "fd = cl_fd (d_clients st ! k)"
  shows "frame fd st st'"
proof -
  have fd: "fd = cl_fd (d_clients st1 ! k)" if "frame fd st st1" for st1 using frame_fds [OF that, of k] assms(2,3) by simp
  have rp: "frame fd st1 st2" if "map_option snd (run_patch k g st1) = Some st2" "frame fd st st1"
    "\<And>r ps'. ob_chars (d_patch st1) = [] \<Longrightarrow> g (d_patch st1) = Some (r, ps') \<Longrightarrow> ob_chars ps' = []" for g st1 st2
  proof -
    from that(1) obtain r where "run_patch k g st1 = Some (r, st2)" by auto
    from frame_run_patch [OF this fd [OF that(2)]] that(3) show ?thesis by blast
  qed
  have ack: "frame fd st1 (send_ack k act rc st2)" if "frame fd st st1" "frame fd st1 st2" for act rc st1 st2
    using frame_trans [OF that(2) frame_send_ack [OF fd [OF frame_trans [OF that]]]] .
  note wp = frame_with_param [OF _ assms(2,3)]
  have h1: "frame fd st st1" if "do_get e k st = Some (n, st1)" for n st1
    using that unfolding do_get_def by (rule wp) (erule rp, assumption, erule patch_clean(1))
  have h2: "frame fd st st1" if "do_patch_req e k st = Some (n, st1)" for n st1
    using that unfolding do_patch_req_def by (rule wp) (erule rp, assumption, erule patch_clean(2))
  have h3: "frame fd st st1" if "do_ephp e k st = Some (n, st1)" for n st1
    using that unfolding do_ephp_def
    by (rule wp) (auto simp: bind_eq_Some_conv fd [symmetric] intro!: frame_trans [OF frame_run_ephp frame_sock_write])
  have h4: "frame fd st st1" if "do_set e k st = Some (n, st1)" for n st1
    using that unfolding do_set_def
    by (rule wp) (auto simp: bind_eq_Some_conv split: option.splits intro!: ack frame_world(1))
  have h5: "frame fd st st1" if "do_set_notify e k st = Some (n, st1)" for n st1
    using that unfolding do_set_notify_def
    by (rule wp) (auto simp: bind_eq_Some_conv split: option.splits intro!: ack frame_world(2))
  have h6: "frame fd st st1" if "do_del e k st = Some (n, st1)" for n st1
    using that unfolding do_del_def by (rule wp) (auto simp: bind_eq_Some_conv intro!: ack frame_world(5))
  have h7: "frame fd st st1" if "do_reload e k st = Some (n, st1)" for n st1
    using that unfolding do_reload_def by (rule wp) (auto simp: Let_def bind_eq_Some_conv intro!: ack frame_world(6))
  have h8: "frame fd st st1" if "do_dump e k st = Some (n, st1)" for n st1
    using that unfolding do_dump_def Let_def by (rule wp) (auto intro!: ack frame_world(3,4))
  have b: "frame fd st st1" if r: "do_patch_buffer e k st = Some (n, st1)" for n st1
  proof (cases "unat (ipc_length (client_ipc k st)) < MAX_PATCH_BUFFER")
    case True
    obtain d st2 where d: "(if e_alloc e (unat (ipc_length (client_ipc k st))) then sock_read fd (unat (ipc_length (client_ipc k st))) st
        else (Some [], st)) = (d, st2)" by fastforce
    then have f: "frame fd st st2" by (auto split: if_splits dest: frame_sock_read)
    from r True have "run_patch k (xmldb_patch_buffer (e_alloc e) (d_tree st2) (ipc_flags (client_ipc k st2))
        (unat (ipc_length (client_ipc k st))) d) st2 = Some (n, st1)"
      by (simp add: do_patch_buffer_def Let_def d [unfolded assms(3)])
    from frame_trans [OF f frame_run_patch [OF this fd [OF f]]] patch_clean(3) show ?thesis by blast
  next
    case False
    with r assms(3) show ?thesis by (auto simp: do_patch_buffer_def Let_def intro: frame_sock_write)
  qed
  have hd: "frame fd st st1" if "read_header k st = (n, st1)" for n st1
    using that assms(3) unfolding read_header_def
    by (auto split: prod.splits option.splits dest!: frame_sock_read intro: frame_trans [OF _ frame_set_ipc])
  have ad: "frame fd st st'" if "action_done k x = Some (r, st')" "\<And>n st1. x = Some (n, st1) \<Longrightarrow> frame fd st st1" for x
    using that by (auto simp: action_done_def intro: frame_trans [OF _ frame_set_ipc])
  show ?thesis
  proof (cases "ipc_action (client_ipc k st) = RGDB_NONE")
    case True
    with assms(1) hd show ?thesis by (simp add: rhandler_def)
  next
    case False
    from assms(1) [unfolded rhandler_def Let_def if_not_P [OF False]] show ?thesis
      by (rule ad) (use h1 h2 h3 h4 h5 h6 h7 h8 b in \<open>auto split: if_splits\<close>)
  qed
qed


subsection \<open>The table of clients is consistent\<close>

definition open_fds :: "xmldb_client list \<Rightarrow> int list" where
  "open_fds cs = filter (\<lambda>f. 0 \<le> f) (map cl_fd cs)"

definition daemon_ok :: "daemon \<Rightarrow> bool" where
  "daemon_ok st \<longleftrightarrow> length (d_clients st) = MAX_CLIENT_LIST \<and> distinct (open_fds (d_clients st)) \<and>
     (\<forall>f\<in>set (open_fds (d_clients st)). 2 < f \<and> f \<in> dom (d_socks st)) \<and> buffer_clean st"

lemma frame_daemon_ok: "frame fd st st' \<Longrightarrow> daemon_ok st \<Longrightarrow> daemon_ok st'"
  unfolding daemon_ok_def open_fds_def frame_def by (metis length_map)

lemma add_client_fds:
  assumes "0 \<le> s"
  shows "length (snd (add_client s cs)) = length cs \<and>
    (if \<exists>c\<in>set cs. cl_fd c < 0 then \<exists>xs ys. open_fds cs = xs @ ys \<and> open_fds (snd (add_client s cs)) = xs @ s # ys
     else add_client s cs = (-1, cs))"
proof (induction cs)
  case (Cons c cs)
  show ?case
  proof (cases "cl_fd c < 0")
    case True
    with assms have "open_fds (c # cs) = [] @ open_fds cs" "open_fds (snd (add_client s (c # cs))) = [] @ s # open_fds cs"
      by (simp_all add: open_fds_def)
    moreover have "length (snd (add_client s (c # cs))) = length (c # cs)" using True by simp
    ultimately show ?thesis using True by (metis list.set_intros(1))
  next
    case False
    then have o: "open_fds (c # ds) = cl_fd c # open_fds ds" for ds by (simp add: open_fds_def)
    obtain r cs' where a: "add_client s cs = (r, cs')" by fastforce
    show ?thesis
    proof (cases "\<exists>d\<in>set cs. cl_fd d < 0")
      case True
      with Cons a obtain xs ys where "open_fds cs = xs @ ys" "open_fds cs' = xs @ s # ys" "length cs' = length cs" by auto
      then have "open_fds (c # cs) = (cl_fd c # xs) @ ys" "open_fds (c # cs') = (cl_fd c # xs) @ s # ys" by (simp_all add: o)
      moreover have "snd (add_client s (c # cs)) = c # cs'" using False a by simp
      ultimately show ?thesis using True \<open>length cs' = length cs\<close> by (metis length_Cons list.set_intros(2))
    qed (use Cons a False in auto)
  qed
qed simp

lemma remove_client_fds:
  assumes "0 \<le> s"
  shows "length (snd (remove_client s cs)) = length cs \<and> open_fds (snd (remove_client s cs)) = remove1 s (open_fds cs)"
proof (induction cs)
  case (Cons c cs)
  with assms show ?case by (cases "remove_client s cs") (auto simp: open_fds_def)
qed (simp add: open_fds_def)

lemma dispatch_ok:
  assumes "daemon_ok st" and "dispatch_fd e ks ready st = Some st'" and "\<forall>k\<in>set ks. k < MAX_CLIENT_LIST"
  shows "daemon_ok st' \<and> (\<forall>f. f \<notin> ready \<longrightarrow> d_socks st' f = d_socks st f)"
  using assms
proof (induction ks arbitrary: ready st)
  case (Cons k ks)
  let ?fd = "cl_fd (d_clients st ! k)"
  have k: "k < length (d_clients st)" using Cons.prems(1,3) by (simp add: daemon_ok_def)
  show ?case
  proof (cases "?fd > 2 \<and> ?fd \<in> ready")
    case True
    then obtain r st1 where h: "rhandler e k st = Some (r, st1)" using Cons.prems(2) by (auto simp: Let_def bind_eq_Some_conv)
    note f = frame_rhandler [OF h k refl]
    define st2 where "st2 = (if r \<le> 0 then (close_fd ?fd st1)\<lparr>d_clients := snd (remove_client ?fd (d_clients st1))\<rparr> else st1)"
    have ok1: "daemon_ok st1" by (rule frame_daemon_ok [OF f Cons.prems(1)])
    have ok2: "daemon_ok st2"
    proof (cases "r \<le> 0")
      case True
      from \<open>?fd > 2 \<and> _\<close> have "0 \<le> ?fd" by simp
      note rc = remove_client_fds [OF this, of "d_clients st1"]
      have "set (remove1 ?fd (open_fds (d_clients st1))) = set (open_fds (d_clients st1)) - {?fd}"
        using ok1 by (simp add: daemon_ok_def set_remove1_eq)
      with True ok1 rc show ?thesis by (auto simp: daemon_ok_def st2_def close_fd_def buffer_clean_def)
    qed (use ok1 in \<open>simp add: st2_def\<close>)
    have s2: "\<forall>f. f \<noteq> ?fd \<longrightarrow> d_socks st2 f = d_socks st f"
      using f by (auto simp: st2_def close_fd_def frame_def)
    have "dispatch_fd e ks (ready - {?fd}) st2 = Some st'" using Cons.prems(2) True h by (simp add: Let_def st2_def)
    from Cons.IH [OF ok2 this] Cons.prems(3) have "daemon_ok st'" "\<forall>f. f \<notin> ready - {?fd} \<longrightarrow> d_socks st' f = d_socks st2 f" by auto
    with s2 True show ?thesis by (metis DiffD1)
  next
    case False
    with Cons show ?thesis by (auto simp: Let_def)
  qed
qed simp

lemma dispatch_all_ok: "daemon_ok st \<Longrightarrow> dispatch_all e ready st = Some st' \<Longrightarrow>
    daemon_ok st' \<and> (\<forall>f. f \<notin> ready \<longrightarrow> d_socks st' f = d_socks st f)"
  unfolding dispatch_all_def by (rule dispatch_ok) auto

lemma accept_ok:
  assumes "daemon_ok st" and "d_socks st s = None" and "s > 2"
  shows "daemon_ok (accept_client s st)"
proof -
  have new: "s \<notin> set (open_fds (d_clients st))" using assms(1,2) by (auto simp: daemon_ok_def)
  have "0 \<le> s" using assms(3) by simp
  from add_client_fds [OF this, of "d_clients st"] assms new show ?thesis
    by (auto simp: daemon_ok_def accept_client_def buffer_clean_def split: if_splits)
qed

lemma daemon_start_ok: "daemon_ok (daemon_start t files)"
  by (simp add: daemon_ok_def daemon_start_def init_clients_def open_fds_def buffer_clean_def)

inductive_cases daemon_stepE: "daemon_step e st st'"

lemma daemon_step_ok: "daemon_step e st st' \<Longrightarrow> daemon_ok st \<Longrightarrow> daemon_ok st'"
proof (induction rule: daemon_step.induct)
  case (Arrive st fd cs)
  then show ?case by (auto simp: deliver_def daemon_ok_def buffer_clean_def split: option.splits)
next
  case (Round ready st st')
  then show ?case using dispatch_all_ok by blast
next
  case (Accept st s)
  then show ?case by (intro accept_ok)
qed (auto simp: daemon_ok_def buffer_clean_def)

text \<open>C14: In every state the daemon reaches, whatever its clients send, close or break, the table has 128 entries, no
  descriptor is in two of them, every descriptor in it belongs to an open connection, and no output and no variable of one
  request is left for the next one. A round of the main loop touches only the connections that
  were reported ready.\<close>

theorem daemon_clients_consistent:
  assumes "daemon_reach e st"
  shows "length (d_clients st) = MAX_CLIENT_LIST \<and> distinct (open_fds (d_clients st)) \<and>
    (\<forall>f\<in>set (open_fds (d_clients st)). d_socks st f \<noteq> None) \<and> ob_chars (d_patch st) = [] \<and>
    ep_buffer (d_ephp st) = [] \<and> ep_vars (d_ephp st) = [] \<and>
    (\<forall>ready st'. dispatch_all e ready st = Some st' \<longrightarrow> (\<forall>f. f \<notin> ready \<longrightarrow> d_socks st' f = d_socks st f))"
proof -
  have "daemon_ok st"
    using assms by (induction rule: daemon_reach.induct) (auto simp: daemon_start_ok daemon_step_ok)
  then show ?thesis using dispatch_all_ok [of st e] by (auto simp: daemon_ok_def buffer_clean_def)
qed

definition example_env :: env where
  "example_env = \<lparr>e_alloc = (\<lambda>_. True), e_rootname = ''root'', e_can_write = (\<lambda>_. True), e_tlogs = False, e_tlog_text = (\<lambda>_. None), e_fuel = 100\<rparr>"

theorem daemon_clients_consistent_witness:
  "daemon_reach example_env (accept_client 5 (daemon_start (Xml_node 0 ''root'' None None []) (\<lambda>_. None))) \<and>
   distinct (open_fds (d_clients (accept_client 5 (daemon_start (Xml_node 0 ''root'' None None []) (\<lambda>_. None)))))"
proof -
  have r: "daemon_reach example_env (accept_client 5 (daemon_start (Xml_node 0 ''root'' None None []) (\<lambda>_. None)))"
    by (rule daemon_reach.Step [OF daemon_reach.Start daemon_step.Accept]) (simp_all add: daemon_start_def)
  with daemon_clients_consistent [OF r] show ?thesis by blast
qed


end
