(* ===== verification/Rgdb_Session.thy ===== *)
theory Rgdb_Session
  imports Xmldb_Daemon
begin

text \<open>
  Client and daemon of the configuration database together. A request of the client library is delivered to the
  daemon, which serves it in two rounds of its main loop, one for the header and one for the parameter; the
  client then reads what the daemon has written. A value that one client sets is what another one gets.
\<close>

definition serve :: "env \<Rightarrow> int \<Rightarrow> char list \<Rightarrow> daemon \<Rightarrow> daemon option" where
  "serve e fd cs st = do { st1 \<leftarrow> dispatch_all e {fd} (deliver fd cs st); dispatch_all e {fd} st1 }"

text \<open>Entry \<open>k\<close> is a client that waits for nothing.\<close>

definition idle :: "nat \<Rightarrow> int \<Rightarrow> daemon \<Rightarrow> bool" where
  "idle k fd st \<longleftrightarrow> k < MAX_CLIENT_LIST \<and> fd > 2 \<and> cl_fd (d_clients st ! k) = fd \<and> ipc_action (client_ipc k st) = RGDB_NONE \<and>
     d_socks st fd = Some \<lparr>us_rx = [], us_err = False, us_tx = []\<rparr>"

definition replies :: "int \<Rightarrow> daemon \<Rightarrow> char list list" where
  "replies fd st = (case d_socks st fd of Some s \<Rightarrow> us_tx s | None \<Rightarrow> [])"

lemma distinct_filter_nth:
  "distinct (filter P (map f xs)) \<Longrightarrow> i < length xs \<Longrightarrow> j < length xs \<Longrightarrow> P (f (xs ! i)) \<Longrightarrow> f (xs ! i) = f (xs ! j) \<Longrightarrow> i = j"
proof (induction xs arbitrary: i j)
  case (Cons x xs)
  show ?case
  proof (cases i)
    case 0
    with Cons show ?thesis by (cases j) (auto split: if_splits)
  next
    case (Suc n)
    with Cons show ?thesis by (cases j) (auto split: if_splits, metis image_eqI nth_mem)
  qed
qed simp

lemma dispatch_none: "dispatch_fd e ks {} st = Some st"
  by (induction ks) (simp_all add: Let_def)

lemma dispatch_skip: "\<forall>j\<in>set ks. cl_fd (d_clients st ! j) \<noteq> fd \<Longrightarrow> dispatch_fd e (ks @ r) {fd} st = dispatch_fd e r {fd} st"
  by (induction ks) (auto simp: Let_def)

lemma dispatch_one:
  assumes "daemon_ok st" and "k < MAX_CLIENT_LIST" and "cl_fd (d_clients st ! k) = fd" and "fd > 2"
    and "rhandler e k st = Some (r, st')" and "r > 0"
  shows "dispatch_all e {fd} st = Some st'"
proof -
  have l: "length (d_clients st) = MAX_CLIENT_LIST" using assms(1) by (simp add: daemon_ok_def)
  have "cl_fd (d_clients st ! j) \<noteq> fd" if "j < k" for j
    using distinct_filter_nth [of "\<lambda>f. 0 \<le> f" cl_fd "d_clients st" j k] that assms l by (auto simp: daemon_ok_def open_fds_def)
  then have s: "\<forall>j\<in>set [0..<k]. cl_fd (d_clients st ! j) \<noteq> fd" by simp
  have "[0..<MAX_CLIENT_LIST] = [0..<k] @ k # [Suc k..<MAX_CLIENT_LIST]"
    using assms(2) upt_add_eq_append [of 0 k "MAX_CLIENT_LIST - k"] by (simp add: upt_conv_Cons)
  then show ?thesis
    unfolding dispatch_all_def using dispatch_skip [OF s] assms(3-6) by (simp add: Let_def dispatch_none)
qed

lemma daemon_ok_deliver: "daemon_ok st \<Longrightarrow> daemon_ok (deliver fd cs st)"
  using daemon_step_ok [OF daemon_step.Arrive] .

text \<open>The state in which the parameter is read.\<close>

definition asked :: "nat \<Rightarrow> int \<Rightarrow> rgdb_ipc_t \<Rightarrow> char list \<Rightarrow> daemon \<Rightarrow> daemon" where
  "asked k fd i cs st = set_ipc k i (st\<lparr>d_socks := (d_socks st)(fd \<mapsto> \<lparr>us_rx = cs, us_err = False, us_tx = []\<rparr>)\<rparr>)"

lemma asked_fields:
  assumes "idle k fd st" and "daemon_ok st"
  shows "client_ipc k (asked k fd i cs st) = i" "cl_fd (d_clients (asked k fd i cs st) ! k) = fd" "d_tree (asked k fd i cs st) = d_tree st"
    "d_socks (asked k fd i cs st) = (d_socks st)(fd \<mapsto> \<lparr>us_rx = cs, us_err = False, us_tx = []\<rparr>)" "d_patch (asked k fd i cs st) = d_patch st"
    "d_notify (asked k fd i cs st) = d_notify st" "d_files (asked k fd i cs st) = d_files st" "d_ephp (asked k fd i cs st) = d_ephp st"
  using assms by (simp_all add: asked_def set_ipc_def client_ipc_def idle_def daemon_ok_def)

lemma serve_request:
  assumes "daemon_ok st" and "idle k fd st" and "rhandler e k (asked k fd i cs st) = Some (r, st')" and "r > 0"
  shows "serve e fd (ipc_image i @ cs) st = Some st'"
proof -
  let ?d = "deliver fd (ipc_image i @ cs) st"
  have d: "?d = st\<lparr>d_socks := (d_socks st)(fd \<mapsto> \<lparr>us_rx = ipc_image i @ cs, us_err = False, us_tx = []\<rparr>)\<rparr>"
    using assms(2) by (simp add: deliver_def idle_def)
  have "rhandler e k ?d = Some (12, asked k fd i cs st)"
    using assms(2) unfolding d
    using ipc_of_image [of i "[]"]
    by (simp add: rhandler_def idle_def client_ipc_def read_header_def sock_read_def asked_def set_ipc_def)
  moreover have "cl_fd (d_clients ?d ! k) = fd" "k < MAX_CLIENT_LIST" "fd > 2" using assms(2) by (simp_all add: d idle_def)
  ultimately have 1: "dispatch_all e {fd} ?d = Some (asked k fd i cs st)"
    using dispatch_one [OF daemon_ok_deliver [OF assms(1)]] by auto
  have "daemon_ok (asked k fd i cs st)"
    using dispatch_all_ok [OF daemon_ok_deliver [OF assms(1)] 1] by simp
  from dispatch_one [OF this _ asked_fields(2) [OF assms(2,1)] _ assms(3,4)] assms(2) 1 show ?thesis
    by (simp add: serve_def idle_def)
qed

lemma with_param_asked:
  assumes "daemon_ok st" and "idle k fd st" and "\<forall>n. e_alloc e n" and "ipc_length i = of_nat (length s + 1)" and "length s + 1 < 2 ^ 16"
    and "NUL \<notin> set s"
  shows "with_param e k f (asked k fd i (s @ [NUL]) st) =
    Option.bind (f s (asked k fd i [] st)) (\<lambda>st2. Some (int (length s) + 1, st2))"
proof -
  have n: "unat (ipc_length i) = Suc (length s)" unfolding assms(4) using assms(5)
    by (simp add: unat_of_nat take_bit_eq_mod del: of_nat_add of_nat_Suc)
  have r: "sock_read fd (Suc (length s)) (asked k fd i (s @ [NUL]) st) = (Some (s @ [NUL]), asked k fd i [] st)"
    using asked_fields(4) [OF assms(2,1)] by (simp add: sock_read_def asked_def set_ipc_def)
  have c: "cstr (s @ [NUL]) = Some s" using cstr_append [OF assms(6), of "[]"] .
  show ?thesis
    unfolding with_param_def asked_fields [OF assms(2,1)] Let_def n r prod.case option.case c
    using assms(3) by (cases "f s (asked k fd i [] st)") (simp_all add: c)
qed

subsection \<open>Setting and getting\<close>

text \<open>A path that can be asked for: absolute, without white space, comma or NUL, and not the count of an array.\<close>

definition askable :: "char list \<Rightarrow> bool" where
  "askable p \<longleftrightarrow> legal_path p \<and> hd p = CHR ''/'' \<and> last p \<noteq> CHR ''#'' \<and> (\<forall>c\<in>set p. \<not> IS_WHITE c \<and> c \<noteq> CHR '','' \<and> c \<noteq> NUL)"

lemma askable_nonempty: "askable p \<Longrightarrow> p \<noteq> []"
  unfolding askable_def legal_path_def by (cases p) simp_all

lemma askable_chars:
  assumes "askable (map tolower p)"
  shows "CHR '' '' \<notin> set p" "NUL \<notin> set p"
proof -
  have "tolower (CHR '' '') = CHR '' ''" "tolower NUL = NUL" by (simp_all add: tolower_def uchar_def)
  moreover have "c \<notin> set p" if "tolower c = c" "c = CHR '' '' \<or> c = NUL" for c
    using that assms unfolding askable_def IS_WHITE_def set_map by (metis imageI)
  ultimately show "CHR '' '' \<notin> set p" "NUL \<notin> set p" by simp_all
qed

lemma split_space_set: "CHR '' '' \<notin> set p \<Longrightarrow> split_space (p @ CHR '' '' # v) = Some (p, v)"
proof -
  assume "CHR '' '' \<notin> set p"
  then have "strchr (p @ CHR '' '' # v) (CHR '' '') = Some (length p)" by (induction p) auto
  then show ?thesis by (simp add: split_space_def)
qed

lemma set_value_get:
  assumes "valid_ptr t root" and "legal_path p" and "\<forall>n. al n"
  shows "\<exists>q t' ms. xmldb_set_value al root p v t = Some (q, t', ms) \<and> xmldb_get_value al root p t' = Some v"
proof -
  obtain q t1 n where q: "xmldb_find_node al root p True t = Some (Some q, t1)" "node_at t1 q = Some n"
    and again: "\<And>t' al' create. keeps t1 t' \<Longrightarrow> xmldb_find_node al' root p create t' = Some (Some q, t')"
    using find_node_create [OF assms] by blast
  define v' where "v' = (if v \<noteq> [] then Some v else if node_value n = Some [] then Some [] else None)"
  have "\<exists>ms. xmldb_set_value al root p v t = Some (Some q, update_at q (set_val v') t1, ms)"
    using q assms(3) by (auto simp: xmldb_set_value_def v'_def strdup_def strcmp_zero Let_def split: option.splits)
  moreover have "keeps t1 (update_at q (set_val v') t1)"
    using keeps_set_val [OF q(2), of v'] unfolding grows_def by blast
  then have "xmldb_get_value al root p (update_at q (set_val v') t1) = Some v"
    using again [of "update_at q (set_val v') t1" al False] q(2) by (auto simp: xmldb_get_value_def v'_def)
  ultimately show ?thesis by blast
qed

lemma serve_set:
  assumes "daemon_ok st" and "idle k fd st" and "\<forall>n. e_alloc e n" and "legal_path (map tolower p)" and "CHR '' '' \<notin> set p"
    and "NUL \<notin> set p" and "NUL \<notin> set v" and "length p + length v + 2 < 2 ^ 16"
    and "i = \<lparr>ipc_action = RGDB_SET, ipc_length = of_nat (length p + length v + 2), ipc_flags = fl, ipc_retcode = g\<rparr>"
  shows "\<exists>st'. serve e fd (ipc_image i @ p @ CHR '' '' # v @ [NUL]) st = Some st' \<and>
    xmldb_get_value (e_alloc e) None (map tolower p) (d_tree st') = Some v \<and>
    replies fd st' = [ipc_image (i\<lparr>ipc_action := RGDB_NONE, ipc_length := 0, ipc_retcode := 0\<rparr>)] \<and>
    (\<forall>k' fd'. fd' \<noteq> fd \<longrightarrow> idle k' fd' st \<longrightarrow> idle k' fd' st') \<and> daemon_ok st' \<and> d_files st' = d_files st \<and> d_ephp st' = d_ephp st"
proof -
  let ?s = "p @ CHR '' '' # v" and ?a = "asked k fd i [] st"
  obtain q t ms where t: "xmldb_set_value (e_alloc e) None (map tolower p) v (d_tree st) = Some (q, t, ms)"
    "xmldb_get_value (e_alloc e) None (map tolower p) t = Some v"
    using set_value_get [OF _ assms(4,3), of "d_tree st" None v] by (auto simp: valid_ptr_def)
  let ?w = "?a\<lparr>d_tree := t, d_notify := d_notify ?a @ ms\<rparr>"
  note af = asked_fields [OF assms(2,1)]
  have "do_set e k (asked k fd i (?s @ [NUL]) st) = Some (int (length ?s) + 1, send_ack k RGDB_NONE 0 ?w)"
    unfolding do_set_def using assms(5-9) split_space_set [OF assms(5), of v] t(1)
    by (subst with_param_asked [OF assms(1-3)]) (simp_all add: af)
  then have h: "rhandler e k (asked k fd i (?s @ [NUL]) st) =
      Some (int (length ?s) + 1, set_ipc k ((client_ipc k (send_ack k RGDB_NONE 0 ?w))\<lparr>ipc_action := RGDB_NONE\<rparr>) (send_ack k RGDB_NONE 0 ?w))"
    using assms(9) by (simp add: rhandler_def af Let_def action_done_def RGDB_NONE_def RGDB_GET_def RGDB_SET_def)
  let ?f = "set_ipc k ((client_ipc k (send_ack k RGDB_NONE 0 ?w))\<lparr>ipc_action := RGDB_NONE\<rparr>) (send_ack k RGDB_NONE 0 ?w)"
  have sv: "serve e fd (ipc_image i @ ?s @ [NUL]) st = Some ?f" by (rule serve_request [OF assms(1,2) h]) simp
  have k: "k < length (d_clients st)" using assms(1,2) by (simp add: idle_def daemon_ok_def)
  have tree: "d_tree ?f = t" "d_files ?f = d_files st" "d_ephp ?f = d_ephp st"
    by (simp_all add: set_ipc_def send_ack_def Let_def sock_write_def asked_def split: option.split)
  have socks: "d_socks ?f = (d_socks st)(fd \<mapsto> \<lparr>us_rx = [], us_err = False,
      us_tx = [ipc_image (i\<lparr>ipc_action := RGDB_NONE, ipc_length := 0, ipc_retcode := 0\<rparr>)]\<rparr>)"
    using k assms(2) by (simp add: set_ipc_def send_ack_def Let_def sock_write_def client_ipc_def asked_def idle_def)
  have clients: "cl_fd (d_clients ?f ! j) = cl_fd (d_clients st ! j)" "j \<noteq> k \<longrightarrow> d_clients ?f ! j = d_clients st ! j" for j
    using k by (cases "j = k"; simp add: set_ipc_def send_ack_def Let_def sock_write_def client_ipc_def asked_def split: option.split)+
  have "idle k' fd' ?f" if "fd' \<noteq> fd" "idle k' fd' st" for k' fd'
  proof -
    have "k' \<noteq> k" using that assms(2) by (auto simp: idle_def)
    with that clients [of k'] socks show ?thesis by (simp add: idle_def client_ipc_def)
  qed
  moreover have "daemon_ok ?f"
    using sv dispatch_all_ok daemon_ok_deliver [OF assms(1)] unfolding serve_def by (meson bind_eq_Some_conv)
  ultimately show ?thesis using sv tree t(2) socks by (auto simp: replies_def)
qed

text \<open>A question for an askable path is answered with the value and a NUL.\<close>

lemma do_mapping_askable:
  assumes "askable p" and "\<forall>n. al n" and "xmldb_get_value al None p tree = Some v" and "pi_current info = None" and "pi_flags info = 0"
  shows "do_mapping al tree info p ix st = Some (0, put_all v st)"
proof -
  have ne: "p \<noteq> []" and hd: "hd p = CHR ''/''" and la: "last p \<noteq> CHR ''#''"
    and w: "\<forall>c\<in>set p. \<not> IS_WHITE c" and c: "CHR '','' \<notin> set p"
    using assms(1) askable_nonempty unfolding askable_def by blast+
  have e: "xmldb_eatwhite p = p" "xmldb_reatwhite p = p"
    using w dropWhile_eq_self_iff [of IS_WHITE p] dropWhile_eq_self_iff [of IS_WHITE "rev p"] ne
    by (simp_all add: xmldb_eatwhite_def xmldb_reatwhite_def hd_rev)
  have s: "strchr p (CHR '','') = None" using c by (induction p) auto
  obtain r where r: "p = CHR ''/'' # r" using ne hd by (cases p) auto
  have "mapping_value al tree None ix mx vars lead p = Some v" for mx vars lead
    using la assms(3) unfolding r by (simp add: mapping_value_def strncmp_zero)
  then show ?thesis
    using assms(2,4,5) by (simp add: do_mapping_def strdup_def e s patch_output_def)
qed

lemma serve_get:
  assumes "daemon_ok st" and "idle k fd st" and "\<forall>n. e_alloc e n" and "askable (map tolower p)"
    and "xmldb_get_value (e_alloc e) None (map tolower p) (d_tree st) = Some v" and "length p + 1 < 2 ^ 16"
    and "i = \<lparr>ipc_action = RGDB_GET, ipc_length = of_nat (length p + 1), ipc_flags = 0, ipc_retcode = g\<rparr>"
  shows "\<exists>st'. serve e fd (ipc_image i @ p @ [NUL]) st = Some st' \<and> concat (replies fd st') = v @ [NUL] \<and> daemon_ok st'"
proof -
  let ?a = "asked k fd i [] st" and ?b = "asked k fd i (p @ [NUL]) st"
  note af = asked_fields [OF assms(2,1)]
  define ps where "ps = end_patch (put_all v (start_patch (d_patch st)))"
  have clean: "ob_chars (d_patch st) = []" "ob_written (d_patch st) = []" using assms(1) by (simp_all add: daemon_ok_def buffer_clean_def)
  have ok: "ob_ok (start_patch (d_patch st))" using clean by (simp add: ob_ok_def start_patch_def)
  have "sent (start_patch (d_patch st)) = []" using clean by (simp add: sent_def start_patch_def)
  then have "sent ps = v @ [NUL]" "ob_chars ps = []"
    using put_all_props [OF ok, of v] end_patch_props [of "put_all v (start_patch (d_patch st))"] by (simp_all add: ps_def)
  then have out: "concat (ob_written ps) = v @ [NUL]" by (simp add: sent_def)
  have m: "xmldb_patch_message (e_alloc e) (d_tree st) None 0 (map tolower p) (d_patch st) = Some (0, ps)"
    using do_mapping_askable [OF assms(4,3,5)] by (simp add: xmldb_patch_message_def block_info_def ps_def)
  let ?w = "sock_write fd (ob_written ps) (?a\<lparr>d_patch := ps\<lparr>ob_written := []\<rparr>\<rparr>)"
  have "do_get e k ?b = Some (int (length p) + 1, ?w)"
    unfolding do_get_def using assms(6,7) askable_chars(2) [OF assms(4)] m
    by (subst with_param_asked [OF assms(1-3)]) (simp_all add: af run_patch_def)
  then have h: "rhandler e k ?b = Some (int (length p) + 1, set_ipc k ((client_ipc k ?w)\<lparr>ipc_action := RGDB_NONE\<rparr>) ?w)"
    using assms(7) by (simp add: rhandler_def af Let_def action_done_def RGDB_NONE_def RGDB_GET_def)
  have sv: "serve e fd (ipc_image i @ p @ [NUL]) st = Some (set_ipc k ((client_ipc k ?w)\<lparr>ipc_action := RGDB_NONE\<rparr>) ?w)"
    by (rule serve_request [OF assms(1,2) h]) simp
  have "replies fd (set_ipc k ((client_ipc k ?w)\<lparr>ipc_action := RGDB_NONE\<rparr>) ?w) = ob_written ps"
    by (simp add: replies_def set_ipc_def sock_write_def af)
  moreover have "daemon_ok (set_ipc k ((client_ipc k ?w)\<lparr>ipc_action := RGDB_NONE\<rparr>) ?w)"
    using sv dispatch_all_ok daemon_ok_deliver [OF assms(1)] unfolding serve_def by (meson bind_eq_Some_conv)
  ultimately show ?thesis using sv out by auto
qed

lemma send_cmd_frame:
  assumes "length data + 1 < 2 ^ 16"
  shows "send_xmldb_cmd True True g act flags data = (0,
    [ipc_image \<lparr>ipc_action = act, ipc_length = of_nat (length data + 1), ipc_flags = flags, ipc_retcode = g\<rparr>, data @ [NUL]])"
proof -
  have u: "unat (of_nat (length data + 1) :: u16) = length data + 1" using assms by (simp add: unat_of_nat take_bit_eq_mod del: of_nat_add of_nat_Suc)
  then have "(of_nat (length data + 1) :: u16) \<noteq> 0" by (metis unat_0 add_eq_0_iff_both_eq_0 one_neq_zero)
  with u show ?thesis unfolding send_xmldb_cmd_def Let_def by simp
qed

lemma ack_request_served:
  assumes "reply = [ipc_image (j\<lparr>ipc_retcode := 0\<rparr>)]" and "length data + 1 < 2 ^ 16"
  shows "ack_request True True g act flags data reply = Some (0,
    [ipc_image \<lparr>ipc_action = act, ipc_length = of_nat (length data + 1), ipc_flags = flags, ipc_retcode = g\<rparr>, data @ [NUL]])"
  using assms ipc_of_image [of "j\<lparr>ipc_retcode := 0\<rparr>" "[]"] send_cmd_frame [OF assms(2)]
  by (simp add: ack_request_def)

subsection \<open>Client libraries\<close>

text \<open>What the daemon relies on in a client library: a request to set or to get is a header and a parameter that ends
  with NUL, the acknowledgement decides the result of the former, and the text up to NUL is the answer to the latter.
  The arguments of the operations are the uninitialised return code in the header, the flags, the node, the value and what
  is read from the socket; \<open>limit\<close> bounds the parameter.\<close>

locale db_client =
  fixes cset :: "u32 \<Rightarrow> u32 \<Rightarrow> char list \<Rightarrow> char list \<Rightarrow> char list list \<Rightarrow> (int \<times> char list list) option"
    and cget :: "u32 \<Rightarrow> u32 \<Rightarrow> char list \<Rightarrow> char list list \<Rightarrow> int \<times> char list list \<times> char list"
    and limit :: nat
  assumes limit_fits: "limit + 2 < 2 ^ 16"
    and set_frame: "length node + length v < limit \<Longrightarrow>
      cset g flags node v [ipc_image (j\<lparr>ipc_retcode := 0\<rparr>)] = Some (0,
        [ipc_image \<lparr>ipc_action = RGDB_SET, ipc_length = of_nat (length node + length v + 2), ipc_flags = flags, ipc_retcode = g\<rparr>,
         node @ CHR '' '' # v @ [NUL]])"
    and get_frame: "length node < limit \<Longrightarrow> concat pieces = v @ [NUL] \<Longrightarrow> NUL \<notin> set v \<Longrightarrow> [] \<notin> set pieces \<Longrightarrow>
      cget g flags node pieces = (0,
        [ipc_image \<lparr>ipc_action = RGDB_GET, ipc_length = of_nat (length node + 1), ipc_flags = flags, ipc_retcode = g\<rparr>, node @ [NUL]], v)"
begin

lemma set_then_get:
  assumes "daemon_ok st" and "idle a fa st" and "idle b fb st" and "fa \<noteq> fb" and "\<forall>n. e_alloc e n"
    and "askable (map tolower node)" and "NUL \<notin> set v" and "length node + length v < limit"
  shows "\<exists>m1 m2 st1 st2. serve e fa (concat m1) st = Some st1 \<and> cset g flags node v (replies fa st1) = Some (0, m1) \<and>
    serve e fb (concat m2) st1 = Some st2 \<and>
    (\<forall>pieces. concat pieces = concat (replies fb st2) \<and> [] \<notin> set pieces \<longrightarrow> cget h 0 node pieces = (0, m2, v))"
proof -
  let ?i = "\<lparr>ipc_action = RGDB_SET, ipc_length = of_nat (length node + length v + 2), ipc_flags = flags, ipc_retcode = g\<rparr>"
  let ?j = "\<lparr>ipc_action = RGDB_GET, ipc_length = of_nat (length node + 1), ipc_flags = 0, ipc_retcode = h\<rparr>"
  let ?m1 = "[ipc_image ?i, node @ CHR '' '' # v @ [NUL]]" and ?m2 = "[ipc_image ?j, node @ [NUL]]"
  have legal: "legal_path (map tolower node)" using assms(6) by (simp add: askable_def)
  have len: "length node + length v + 2 < 2 ^ 16" "length node + 1 < 2 ^ 16" using assms(8) limit_fits by simp_all
  obtain st1 where s1: "serve e fa (concat ?m1) st = Some st1"
    and get: "xmldb_get_value (e_alloc e) None (map tolower node) (d_tree st1) = Some v"
    and ack: "replies fa st1 = [ipc_image (?i\<lparr>ipc_action := RGDB_NONE, ipc_length := 0, ipc_retcode := 0\<rparr>)]"
    and b: "idle b fb st1" and ok: "daemon_ok st1"
    using serve_set [OF assms(1,2,5) legal askable_chars [OF assms(6)] assms(7) len(1) refl, of flags g] assms(3,4) by fastforce
  obtain st2 where s2: "serve e fb (concat ?m2) st1 = Some st2" and out: "concat (replies fb st2) = v @ [NUL]"
    using serve_get [OF ok b assms(5,6) get len(2) refl, of h] by auto
  have 1: "cset g flags node v (replies fa st1) = Some (0, ?m1)" unfolding ack by (rule set_frame [OF assms(8)])
  have 2: "cget h 0 node pieces = (0, ?m2, v)" if "concat pieces = concat (replies fb st2)" "[] \<notin> set pieces" for pieces
    using that out assms(7,8) by (intro get_frame) simp_all
  show ?thesis
    using s1 1 s2 2 by (intro exI [of _ ?m1] exI [of _ ?m2] exI [of _ st1] exI [of _ st2]) simp
qed

end

lemma lrgdb_set_frame:
  assumes "length node + length v < 254"
  shows "lrgdb_set True True g flags node v [ipc_image (j\<lparr>ipc_retcode := 0\<rparr>)] = Some (0,
    [ipc_image \<lparr>ipc_action = RGDB_SET, ipc_length = of_nat (length node + length v + 2), ipc_flags = flags, ipc_retcode = g\<rparr>,
     node @ CHR '' '' # v @ [NUL]])"
proof -
  have "set_message node v = node @ CHR '' '' # v" using assms by (simp add: set_message_def)
  then show ?thesis
    using ack_request_served [OF refl, of "node @ CHR '' '' # v" g RGDB_SET flags j] assms by (simp add: lrgdb_set_def)
qed

lemma text_request_served:
  assumes "length data + 1 < 2 ^ 16" and "concat pieces = v @ [NUL]" and "NUL \<notin> set v" and "[] \<notin> set pieces"
  shows "text_request True True g act flags data pieces = (0,
    [ipc_image \<lparr>ipc_action = act, ipc_length = of_nat (length data + 1), ipc_flags = flags, ipc_retcode = g\<rparr>, data @ [NUL]], v)"
  using redirect_chunks [OF assms(2-4), of "[]"] send_cmd_frame [OF assms(1)] by (simp add: text_request_def)

lemma lrgdb_get_frame:
  assumes "length node < 254" and "concat pieces = v @ [NUL]" and "NUL \<notin> set v" and "[] \<notin> set pieces"
  shows "lrgdb_get True True g flags node pieces = (0,
    [ipc_image \<lparr>ipc_action = RGDB_GET, ipc_length = of_nat (length node + 1), ipc_flags = flags, ipc_retcode = g\<rparr>, node @ [NUL]], v)"
  unfolding lrgdb_get_def using assms by (intro text_request_served) simp_all

interpretation lrgdb: db_client "lrgdb_set True True" "lrgdb_get True True" 254
  by unfold_locales (simp, rule lrgdb_set_frame, assumption, rule lrgdb_get_frame, assumption+)

text \<open>C15: The configuration database end to end. Let two clients be connected to the daemon, on sockets \<open>fa\<close> and \<open>fb\<close>,
  both with no request under way. The first calls \<open>lrgdb_set\<close> for an absolute path and a value that fit the
  message of 254 characters; what the library sends is served by the daemon in two rounds of its main loop, and the
  library, reading the daemon's acknowledgement, returns 0. The second then calls \<open>lrgdb_get\<close> for the same path; its
  request is served as well, and in whatever non-empty pieces the answer arrives, the library prints exactly the
  value that the first client has set, and returns 0.\<close>

theorem rgdb_set_then_get:
  assumes "daemon_ok st" and "idle a fa st" and "idle b fb st" and "fa \<noteq> fb" and "\<forall>n. e_alloc e n"
    and "askable (map tolower node)" and "NUL \<notin> set v" and "length node + length v < 254"
  shows "\<exists>m1 m2 st1 st2. serve e fa (concat m1) st = Some st1 \<and> lrgdb_set True True g flags node v (replies fa st1) = Some (0, m1) \<and>
    serve e fb (concat m2) st1 = Some st2 \<and>
    (\<forall>pieces. concat pieces = concat (replies fb st2) \<and> [] \<notin> set pieces \<longrightarrow> lrgdb_get True True h 0 node pieces = (0, m2, v))"
  by (rule lrgdb.set_then_get [OF assms])

definition example_session :: daemon where
  "example_session = accept_client 4 (accept_client 3 (daemon_start (Xml_node 0 ''root'' None None []) (\<lambda>_. None)))"

lemma example_session_clients:
  "daemon_ok example_session" "idle 0 3 example_session" "idle 1 4 example_session"
proof -
  show "daemon_ok example_session"
    unfolding example_session_def by (intro accept_ok daemon_start_ok) (simp_all add: accept_client_def daemon_start_def)
  show "idle 0 3 example_session" "idle 1 4 example_session"
    by (simp_all add: example_session_def idle_def accept_client_def daemon_start_def init_clients_def MAX_CLIENT_LIST_def
        client_ipc_def idle_ipc_def numeral_nat)
qed

theorem rgdb_set_then_get_witness:
  "\<exists>m1 m2 st1 st2. serve example_env 3 (concat m1) example_session = Some st1 \<and>
    lrgdb_set True True 7 0 ''/lan/IP'' ''192.168.0.1'' (replies 3 st1) = Some (0, m1) \<and>
    serve example_env 4 (concat m2) st1 = Some st2 \<and>
    lrgdb_get True True 9 0 ''/lan/IP'' [concat (replies 4 st2)] = (0, m2, ''192.168.0.1'')"
proof -
  have ask: "askable (map tolower ''/lan/IP'')" by code_simp
  have ne: "concat (replies 4 st2) \<noteq> []" if "\<forall>pieces. concat pieces = concat (replies 4 st2) \<and> [] \<notin> set pieces \<longrightarrow>
      lrgdb_get True True 9 0 ''/lan/IP'' pieces = (0, m2, ''192.168.0.1'')" for st2 m2
  proof
    assume "concat (replies 4 st2) = []"
    with that have "lrgdb_get True True 9 0 ''/lan/IP'' [] = (0, m2, ''192.168.0.1'')" by simp
    then show False by (simp add: lrgdb_get_def text_request_def split: prod.splits if_splits)
  qed
  have "\<exists>m1 m2 st1 st2. serve example_env 3 (concat m1) example_session = Some st1 \<and>
    lrgdb_set True True 7 0 ''/lan/IP'' ''192.168.0.1'' (replies 3 st1) = Some (0, m1) \<and>
    serve example_env 4 (concat m2) st1 = Some st2 \<and>
    (\<forall>pieces. concat pieces = concat (replies 4 st2) \<and> [] \<notin> set pieces \<longrightarrow>
      lrgdb_get True True 9 0 ''/lan/IP'' pieces = (0, m2, ''192.168.0.1''))"
    by (rule rgdb_set_then_get [OF example_session_clients _ _ ask]) (simp_all add: example_env_def)
  then obtain m1 m2 st1 st2 where w: "serve example_env 3 (concat m1) example_session = Some st1"
    "lrgdb_set True True 7 0 ''/lan/IP'' ''192.168.0.1'' (replies 3 st1) = Some (0, m1)"
    "serve example_env 4 (concat m2) st1 = Some st2"
    and p: "\<forall>pieces. concat pieces = concat (replies 4 st2) \<and> [] \<notin> set pieces \<longrightarrow>
      lrgdb_get True True 9 0 ''/lan/IP'' pieces = (0, m2, ''192.168.0.1'')"
    by blast
  have "lrgdb_get True True 9 0 ''/lan/IP'' [concat (replies 4 st2)] = (0, m2, ''192.168.0.1'')"
    using p ne [OF p] by simp
  with w show ?thesis by blast
qed


end
