(* ===== verification/Xmldbc.thy ===== *)
theory Xmldbc
  imports Rgdb_Session
begin

text \<open>
  The second client library of the configuration database, \<^verbatim>\<open>src/comlib/libxmldbc.c\<close>. Each of its functions opens a
  connection of its own, sends one request and reads the answer, to a stream or into a buffer. \<open>opened\<close> says whether
  the connection could be made, \<open>w1\<close> and \<open>w2\<close> whether the two writes succeed, \<open>g\<close> is the uninitialised return code in
  the header, and \<open>reply\<close> is what the daemon sends, one list per read.
\<close>

subsection \<open>Constants and helpers\<close>

definition XMLDB_GET :: u16 where "XMLDB_GET = 1"
definition XMLDB_SET :: u16 where "XMLDB_SET = 2"
definition XMLDB_DEL :: u16 where "XMLDB_DEL = 3"
definition XMLDB_RELOAD :: u16 where "XMLDB_RELOAD = 4"
definition XMLDB_DUMP :: u16 where "XMLDB_DUMP = 5"
definition XMLDB_READ :: u16 where "XMLDB_READ = 6"
definition XMLDB_PATCH :: u16 where "XMLDB_PATCH = 7"
definition XMLDB_EPHP :: u16 where "XMLDB_EPHP = 10"
definition XMLDB_SETEXT :: u16 where "XMLDB_SETEXT = 11"
definition XMLDB_TIMER :: u16 where "XMLDB_TIMER = 12"
definition XMLDB_KILLTIMER :: u16 where "XMLDB_KILLTIMER = 13"
definition XMLDB_WRITE :: u16 where "XMLDB_WRITE = 14"

text \<open>The text functions are those of \<^verbatim>\<open>lrgbin.c\<close>, with a larger set of white space.\<close>

definition lxmldbc_run_shell :: "nat \<Rightarrow> char list option \<Rightarrow> (int \<times> char list) option" where
  "lxmldbc_run_shell size_b output = lrgbin_run_shell size_b output"

definition lxmldbc_eatwhite :: "char list \<Rightarrow> char list" where
  "lxmldbc_eatwhite s = dropWhile IS_WHITE s"

definition lxmldbc_reatwhite :: "char list \<Rightarrow> char list" where
  "lxmldbc_reatwhite s = rev (dropWhile IS_WHITE (rev s))"

subsection \<open>Requests\<close>

text \<open>Reading into a buffer of \<open>n\<close> bytes; \<open>w\<close> is what is in it. A read that fills the buffer leaves the loop, so
  nothing of a piece is left over when the loop goes on.\<close>

fun redirect_to_buffer :: "nat \<Rightarrow> char list \<Rightarrow> char list list \<Rightarrow> char list" where
  "redirect_to_buffer n w [] = w"
| "redirect_to_buffer n w (c # cs) = (let d = take (n - length w) c in
     if d = [] then w
     else if last d = NUL then w @ d
     else if n \<ge> length (w @ d) then w @ d
     else redirect_to_buffer n (w @ d) cs)"

definition cmd_w_out ::
    "bool \<Rightarrow> bool \<Rightarrow> bool \<Rightarrow> u16 \<Rightarrow> u32 \<Rightarrow> u32 \<Rightarrow> char list \<Rightarrow> char list list \<Rightarrow> int \<times> char list list \<times> char list" where
  "cmd_w_out opened w1 w2 a g f param reply =
     (if \<not> opened then (-1, [], []) else text_request w1 w2 g a f param reply)"

text \<open>\<open>None\<close> is the return code of an acknowledgement that was not read.\<close>

definition cmd_wo_out ::
    "bool \<Rightarrow> bool \<Rightarrow> bool \<Rightarrow> u16 \<Rightarrow> u32 \<Rightarrow> u32 \<Rightarrow> char list \<Rightarrow> char list list \<Rightarrow> (int \<times> char list list) option" where
  "cmd_wo_out opened w1 w2 a g f param reply =
     (if \<not> opened then Some (-1, []) else ack_request w1 w2 g a f param reply)"

definition cmd_wb ::
    "bool \<Rightarrow> bool \<Rightarrow> bool \<Rightarrow> u16 \<Rightarrow> u32 \<Rightarrow> u32 \<Rightarrow> char list \<Rightarrow> nat \<Rightarrow> char list list \<Rightarrow> int \<times> char list list \<times> char list" where
  "cmd_wb opened w1 w2 a g f param n reply = (if \<not> opened then (-1, [], [])
     else (case send_xmldb_cmd w1 w2 g a f param of (r, m) \<Rightarrow>
       if r \<ge> 0 then (0, m, redirect_to_buffer n [] reply) else (-1, m, [])))"

text \<open>\<^verbatim>\<open>snprintf\<close> with \<^verbatim>\<open>sizeof(buff)-1\<close>, which is 511, keeps 510 characters.\<close>

definition xmldbc_message :: "char list \<Rightarrow> char list \<Rightarrow> char list" where
  "xmldbc_message node v = take 510 (node @ CHR '' '' # v)"

definition xmldbc_get :: "bool \<Rightarrow> bool \<Rightarrow> bool \<Rightarrow> u32 \<Rightarrow> u32 \<Rightarrow> char list \<Rightarrow> char list list \<Rightarrow> int \<times> char list list \<times> char list" where
  "xmldbc_get opened w1 w2 = cmd_w_out opened w1 w2 XMLDB_GET"
definition xmldbc_get_wb ::
    "bool \<Rightarrow> bool \<Rightarrow> bool \<Rightarrow> u32 \<Rightarrow> u32 \<Rightarrow> char list \<Rightarrow> nat \<Rightarrow> char list list \<Rightarrow> int \<times> char list list \<times> char list" where
  "xmldbc_get_wb opened w1 w2 = cmd_wb opened w1 w2 XMLDB_GET"
definition xmldbc_ephp :: "bool \<Rightarrow> bool \<Rightarrow> bool \<Rightarrow> u32 \<Rightarrow> u32 \<Rightarrow> char list \<Rightarrow> char list list \<Rightarrow> int \<times> char list list \<times> char list" where
  "xmldbc_ephp opened w1 w2 = cmd_w_out opened w1 w2 XMLDB_EPHP"
definition xmldbc_ephp_wb ::
    "bool \<Rightarrow> bool \<Rightarrow> bool \<Rightarrow> u32 \<Rightarrow> u32 \<Rightarrow> char list \<Rightarrow> nat \<Rightarrow> char list list \<Rightarrow> int \<times> char list list \<times> char list" where
  "xmldbc_ephp_wb opened w1 w2 = cmd_wb opened w1 w2 XMLDB_EPHP"
definition xmldbc_set ::
    "bool \<Rightarrow> bool \<Rightarrow> bool \<Rightarrow> u32 \<Rightarrow> u32 \<Rightarrow> char list \<Rightarrow> char list \<Rightarrow> char list list \<Rightarrow> (int \<times> char list list) option" where
  "xmldbc_set opened w1 w2 g f node v = cmd_wo_out opened w1 w2 XMLDB_SET g f (xmldbc_message node v)"
definition xmldbc_setext ::
    "bool \<Rightarrow> bool \<Rightarrow> bool \<Rightarrow> u32 \<Rightarrow> u32 \<Rightarrow> char list \<Rightarrow> char list \<Rightarrow> char list list \<Rightarrow> (int \<times> char list list) option" where
  "xmldbc_setext opened w1 w2 g f node cmd = cmd_wo_out opened w1 w2 XMLDB_SETEXT g f (xmldbc_message node cmd)"
definition xmldbc_timer :: "bool \<Rightarrow> bool \<Rightarrow> bool \<Rightarrow> u32 \<Rightarrow> u32 \<Rightarrow> char list \<Rightarrow> char list list \<Rightarrow> (int \<times> char list list) option" where
  "xmldbc_timer opened w1 w2 = cmd_wo_out opened w1 w2 XMLDB_TIMER"
definition xmldbc_killtimer :: "bool \<Rightarrow> bool \<Rightarrow> bool \<Rightarrow> u32 \<Rightarrow> u32 \<Rightarrow> char list \<Rightarrow> char list list \<Rightarrow> (int \<times> char list list) option" where
  "xmldbc_killtimer opened w1 w2 = cmd_wo_out opened w1 w2 XMLDB_KILLTIMER"
definition xmldbc_del :: "bool \<Rightarrow> bool \<Rightarrow> bool \<Rightarrow> u32 \<Rightarrow> u32 \<Rightarrow> char list \<Rightarrow> char list list \<Rightarrow> (int \<times> char list list) option" where
  "xmldbc_del opened w1 w2 = cmd_wo_out opened w1 w2 XMLDB_DEL"
definition xmldbc_reload :: "bool \<Rightarrow> bool \<Rightarrow> bool \<Rightarrow> u32 \<Rightarrow> u32 \<Rightarrow> char list \<Rightarrow> char list list \<Rightarrow> (int \<times> char list list) option" where
  "xmldbc_reload opened w1 w2 = cmd_wo_out opened w1 w2 XMLDB_RELOAD"
definition xmldbc_patch :: "bool \<Rightarrow> bool \<Rightarrow> bool \<Rightarrow> u32 \<Rightarrow> u32 \<Rightarrow> char list \<Rightarrow> char list list \<Rightarrow> (int \<times> char list list) option" where
  "xmldbc_patch opened w1 w2 = cmd_wo_out opened w1 w2 XMLDB_PATCH"
definition xmldbc_read :: "bool \<Rightarrow> bool \<Rightarrow> bool \<Rightarrow> u32 \<Rightarrow> u32 \<Rightarrow> char list \<Rightarrow> char list list \<Rightarrow> (int \<times> char list list) option" where
  "xmldbc_read opened w1 w2 = cmd_wo_out opened w1 w2 XMLDB_READ"
definition xmldbc_write :: "bool \<Rightarrow> bool \<Rightarrow> bool \<Rightarrow> u32 \<Rightarrow> u32 \<Rightarrow> char list \<Rightarrow> char list list \<Rightarrow> int \<times> char list list \<times> char list" where
  "xmldbc_write opened w1 w2 = cmd_w_out opened w1 w2 XMLDB_WRITE"
definition xmldbc_dump :: "bool \<Rightarrow> bool \<Rightarrow> bool \<Rightarrow> u32 \<Rightarrow> u32 \<Rightarrow> char list \<Rightarrow> char list list \<Rightarrow> (int \<times> char list list) option" where
  "xmldbc_dump opened w1 w2 = cmd_wo_out opened w1 w2 XMLDB_DUMP"

subsection \<open>The same daemon\<close>

lemma xmldbc_actions: "XMLDB_GET = RGDB_GET" "XMLDB_SET = RGDB_SET" "XMLDB_DEL = RGDB_DEL" "XMLDB_EPHP = RGDB_EPHP"
  "XMLDB_READ = RGDB_PATCH" "XMLDB_PATCH = RGDB_PATCH_BUFF"
  by (simp_all add: XMLDB_GET_def RGDB_GET_def XMLDB_SET_def RGDB_SET_def XMLDB_DEL_def RGDB_DEL_def XMLDB_EPHP_def RGDB_EPHP_def
      XMLDB_READ_def RGDB_PATCH_def XMLDB_PATCH_def RGDB_PATCH_BUFF_def)

lemma xmldbc_set_frame:
  assumes "length node + length v < 510"
  shows "xmldbc_set True True True g flags node v [ipc_image (j\<lparr>ipc_retcode := 0\<rparr>)] = Some (0,
    [ipc_image \<lparr>ipc_action = RGDB_SET, ipc_length = of_nat (length node + length v + 2), ipc_flags = flags, ipc_retcode = g\<rparr>,
     node @ CHR '' '' # v @ [NUL]])"
proof -
  have "xmldbc_message node v = node @ CHR '' '' # v" using assms by (simp add: xmldbc_message_def)
  then show ?thesis
    using ack_request_served [OF refl, of "node @ CHR '' '' # v" g RGDB_SET flags j] assms
    by (simp add: xmldbc_set_def cmd_wo_out_def xmldbc_actions)
qed

lemma xmldbc_get_frame:
  assumes "length node < 510" and "concat pieces = v @ [NUL]" and "NUL \<notin> set v" and "[] \<notin> set pieces"
  shows "xmldbc_get True True True g flags node pieces = (0,
    [ipc_image \<lparr>ipc_action = RGDB_GET, ipc_length = of_nat (length node + 1), ipc_flags = flags, ipc_retcode = g\<rparr>, node @ [NUL]], v)"
  unfolding xmldbc_get_def cmd_w_out_def xmldbc_actions if_not_P [OF not_not [THEN iffD2, OF TrueI]]
  using assms by (intro text_request_served) simp_all

interpretation xmldbc: db_client "xmldbc_set True True True" "xmldbc_get True True True" 510
  by unfold_locales (simp, rule xmldbc_set_frame, assumption, rule xmldbc_get_frame, assumption+)

text \<open>Setting and getting through this library, with twice the room for node and value.\<close>

lemma xmldbc_set_then_get:
  assumes "daemon_ok st" and "idle a fa st" and "idle b fb st" and "fa \<noteq> fb" and "\<forall>n. e_alloc e n"
    and "askable (map tolower node)" and "NUL \<notin> set v" and "length node + length v < 510"
  shows "\<exists>m1 m2 st1 st2. serve e fa (concat m1) st = Some st1 \<and> xmldbc_set True True True g flags node v (replies fa st1) = Some (0, m1) \<and>
    serve e fb (concat m2) st1 = Some st2 \<and>
    (\<forall>pieces. concat pieces = concat (replies fb st2) \<and> [] \<notin> set pieces \<longrightarrow> xmldbc_get True True True h 0 node pieces = (0, m2, v))"
  by (rule xmldbc.set_then_get [OF assms])

text \<open>The buffered reader stops after its first read: the test for a full buffer is the wrong way round.\<close>

lemma redirect_to_buffer_first:
  "redirect_to_buffer n [] (c # cs) = take n c"
  by (simp add: Let_def)

text \<open>The functions that read into a buffer return what the first read delivers and nothing more, cut to the size of the
  buffer, and still report success. A value that arrives in two pieces is therefore returned without its end and without a
  terminating NUL, even when the buffer has room for all of it, whereas the functions that write to a stream
  return it whole.\<close>

theorem xmldbc_get_wb_truncates:
  assumes "length node < 510" and "[] \<notin> set (c # cs)" and "concat (c # cs) = v @ [NUL]" and "NUL \<notin> set v" and "cs \<noteq> []"
    and "length v < n"
  shows "\<exists>m. xmldbc_get_wb True True True g f node n (c # cs) = (0, m, c) \<and> NUL \<notin> set c \<and> length c \<le> length v \<and>
    xmldbc_get True True True g f node (c # cs) = (0, m, v)"
proof -
  obtain ds d where d: "cs = ds @ [d]" "d \<noteq> []" using assms(2,5) by (cases cs rule: rev_cases) auto
  then have v: "v = c @ concat ds @ butlast d"
    using assms(3) by (metis append_assoc append_butlast_last_id butlast_snoc concat.simps(2) concat_append concat.simps(1) append_Nil2)
  have "take n c = c" using v assms(6) by simp
  moreover have "send_xmldb_cmd True True g RGDB_GET f node = (0,
      [ipc_image \<lparr>ipc_action = RGDB_GET, ipc_length = of_nat (length node + 1), ipc_flags = f, ipc_retcode = g\<rparr>, node @ [NUL]])"
    using assms(1) by (intro send_cmd_frame) simp
  ultimately show ?thesis
    using v assms(4) xmldbc_get_frame [OF assms(1,3,4,2), of g f] redirect_to_buffer_first [of n c cs]
    by (auto simp: xmldbc_get_wb_def cmd_wb_def xmldbc_actions simp del: redirect_to_buffer.simps)
qed

theorem xmldbc_get_wb_truncates_witness:
  "\<exists>m. xmldbc_get_wb True True True 0 0 ''/a'' 64 [''19'', ''2.1'' @ [NUL]] = (0, m, ''19'') \<and>
    xmldbc_get True True True 0 0 ''/a'' [''19'', ''2.1'' @ [NUL]] = (0, m, ''192.1'')"
  using xmldbc_get_wb_truncates [of "''/a''" "''19''" "[''2.1'' @ [NUL]]" "''192.1''" 64 0 0] by auto

end
