(* ===== verification/Dhcp_Options.thy ===== *)
theory Dhcp_Options
  imports Cmodel_Prelude
begin

text \<open>
  DHCP messages and their options: \<^verbatim>\<open>progs.gpl/udhcpcd/options.c\<close> with the message layout of \<^verbatim>\<open>packet.h\<close>. The
  target is big endian, so a \<^verbatim>\<open>u_int32_t\<close> in network order is the number itself. The three fields that can
  hold options lie behind each other in the message; a pointer into them is an offset, and an access behind
  the end of the message is a fault.
\<close>

record dhcpMessage =
  m_op :: byte
  m_htype :: byte
  m_hlen :: byte
  m_hops :: byte
  m_xid :: u32
  m_secs :: u16
  m_flags :: u16
  m_ciaddr :: u32
  m_yiaddr :: u32
  m_siaddr :: u32
  m_giaddr :: u32
  m_chaddr :: "byte list"
  m_sname :: "byte list"
  m_file :: "byte list"
  m_cookie :: u32
  m_options :: "byte list"

definition be32 :: "u32 \<Rightarrow> byte list" where
  "be32 w = [ucast (drop_bit 24 w), ucast (drop_bit 16 w), ucast (drop_bit 8 w), ucast w]"

definition be16 :: "u16 \<Rightarrow> byte list" where
  "be16 w = [ucast (drop_bit 8 w), ucast w]"

definition of_be32 :: "byte list \<Rightarrow> u32" where
  "of_be32 bs = push_bit 24 (ucast (bs ! 0)) OR push_bit 16 (ucast (bs ! 1)) OR push_bit 8 (ucast (bs ! 2)) OR ucast (bs ! 3)"

definition packet_mem :: "dhcpMessage \<Rightarrow> byte list" where
  "packet_mem p = m_sname p @ m_file p @ be32 (m_cookie p) @ m_options p"

definition DHCP_PADDING :: byte where "DHCP_PADDING = 0x00"
definition DHCP_OPTION_OVER :: byte where "DHCP_OPTION_OVER = 0x34"
definition DHCP_END :: byte where "DHCP_END = 0xFF"

subsection \<open>Reading options\<close>

datatype field = OPTION_FIELD | FILE_FIELD | SNAME_FIELD

text \<open>\<^verbatim>\<open>optionptr\<close> and \<^verbatim>\<open>length\<close> for each field.\<close>

fun field_base :: "field \<Rightarrow> nat" where
  "field_base OPTION_FIELD = 196"
| "field_base FILE_FIELD = 64"
| "field_base SNAME_FIELD = 0"

fun field_length :: "field \<Rightarrow> nat" where
  "field_length OPTION_FIELD = 308"
| "field_length FILE_FIELD = 128"
| "field_length SNAME_FIELD = 64"

text \<open>Bits of the \<^verbatim>\<open>over\<close> variable: \<^verbatim>\<open>FILE_FIELD\<close> is 1 and \<^verbatim>\<open>SNAME_FIELD\<close> is 2.\<close>

fun next_field :: "field \<Rightarrow> byte \<Rightarrow> field option" where
  "next_field OPTION_FIELD over = (if over AND 1 \<noteq> 0 then Some FILE_FIELD else None)"
| "next_field FILE_FIELD over = (if over AND 2 \<noteq> 0 then Some SNAME_FIELD else None)"
| "next_field SNAME_FIELD over = None"

fun field_rank :: "field \<Rightarrow> nat" where
  "field_rank OPTION_FIELD = 2"
| "field_rank FILE_FIELD = 1"
| "field_rank SNAME_FIELD = 0"

lemma next_field_rank: "next_field f over = Some g \<Longrightarrow> field_rank g < field_rank f"
  by (cases f) (auto split: if_splits)

text \<open>The loop of \<^verbatim>\<open>get_option\<close>: \<open>None\<close> is a fault, \<open>Some None\<close> the null pointer.\<close>

function get_loop :: "byte list \<Rightarrow> byte \<Rightarrow> field \<Rightarrow> byte \<Rightarrow> nat \<Rightarrow> nat option option" where
  "get_loop mem code f over i =
     (if i \<ge> field_length f then Some None
      else Option.bind (rd mem (field_base f + i)) (\<lambda>c.
        if c = code then
          Option.bind (rd mem (field_base f + i + 1)) (\<lambda>l.
            if i + 1 + unat l \<ge> field_length f then Some None else Some (Some (field_base f + i + 2)))
        else if c = DHCP_PADDING then get_loop mem code f over (i + 1)
        else if c = DHCP_OPTION_OVER then
          Option.bind (rd mem (field_base f + i + 1)) (\<lambda>l.
            if i + 1 + unat l \<ge> field_length f then Some None
            else Option.bind (rd mem (field_base f + i + 3)) (\<lambda>ov.
              Option.bind (rd mem (field_base f + 1)) (\<lambda>l1.
                get_loop mem code f ov (i + unat l1 + 2))))
        else if c = DHCP_END then
          (case next_field f over of None \<Rightarrow> Some None | Some g \<Rightarrow> get_loop mem code g over 0)
        else Option.bind (rd mem (field_base f + i + 1)) (\<lambda>l. get_loop mem code f over (i + unat l + 2))))"
  by pat_completeness auto
termination
  by (relation "measures [\<lambda>(mem, code, f, over, i). field_rank f, \<lambda>(mem, code, f, over, i). field_length f - i]")
    (auto dest: next_field_rank)

declare get_loop.simps [simp del]

definition get_option :: "dhcpMessage \<Rightarrow> byte \<Rightarrow> nat option option" where
  "get_option p code = get_loop (packet_mem p) code OPTION_FIELD 0 0"

subsection \<open>Writing options\<close>

function end_loop :: "byte list \<Rightarrow> nat \<Rightarrow> nat option" where
  "end_loop opts i = (if i \<ge> length opts then None
     else if opts ! i = DHCP_END then Some i
     else if opts ! i = DHCP_PADDING then end_loop opts (i + 1)
     else Option.bind (rd opts (i + 1)) (\<lambda>l. end_loop opts (i + unat l + 2)))"
  by pat_completeness auto
termination by (relation "measure (\<lambda>(opts, i). length opts - i)") auto

declare end_loop.simps [simp del]

definition end_option :: "byte list \<Rightarrow> nat option" where
  "end_option opts = end_loop opts 0"

text \<open>The second component of the result is the option field after the call.\<close>

definition add_option_string :: "byte list \<Rightarrow> byte list \<Rightarrow> (nat \<times> byte list) option" where
  "add_option_string opts str = do {
     e \<leftarrow> end_option opts;
     l \<leftarrow> rd str 1;
     if e + unat l + 2 + 1 \<ge> 308 then Some (0, opts)
     else if length str < unat l + 2 then None
     else do {
       o1 \<leftarrow> blit opts e (take (unat l + 2) str);
       o2 \<leftarrow> wr o1 (e + unat l + 2) DHCP_END;
       Some (unat l + 2, o2) } }"

text \<open>The table of known options: type, whether it is a list, whether clients request it, code (built without the
  route options).\<close>

datatype otype = OPTION_IP | OPTION_IP_PAIR | OPTION_STRING | OPTION_BOOLEAN | OPTION_U8 | OPTION_U16 |
  OPTION_S16 | OPTION_U32 | OPTION_S32 | OPTION_33 | OPTION_121 | OPTION_249

record dhcp_option =
  o_name :: string
  o_type :: otype
  o_list :: bool
  o_req :: bool
  o_code :: byte

definition options_table :: "dhcp_option list" where
  "options_table = map (\<lambda>(n, t, l, r, c). \<lparr>o_name = n, o_type = t, o_list = l, o_req = r, o_code = c\<rparr>)
    [(''subnet'', OPTION_IP, False, True, 0x01), (''timezone'', OPTION_S32, False, False, 0x02),
     (''router'', OPTION_IP, True, True, 0x03), (''timesvr'', OPTION_IP, True, False, 0x04),
     (''namesvr'', OPTION_IP, True, False, 0x05), (''dns'', OPTION_IP, True, True, 0x06),
     (''logsvr'', OPTION_IP, True, False, 0x07), (''cookiesvr'', OPTION_IP, True, False, 0x08),
     (''lprsvr'', OPTION_IP, True, False, 0x09), (''hostname'', OPTION_STRING, False, False, 0x0c),
     (''bootsize'', OPTION_U16, False, False, 0x0d), (''domain'', OPTION_STRING, False, True, 0x0f),
     (''swapsvr'', OPTION_IP, False, False, 0x10), (''rootpath'', OPTION_STRING, False, False, 0x11),
     (''ipttl'', OPTION_U8, False, False, 0x17), (''mtu'', OPTION_U16, False, False, 0x1a),
     (''broadcast'', OPTION_IP, False, False, 0x1c), (''sstrout'', OPTION_33, True, True, 0x21),
     (''ntpsrv'', OPTION_IP, True, False, 0x2a), (''wins'', OPTION_IP, True, True, 0x2c),
     (''winstype'', OPTION_U8, False, True, 0x2e), (''scope'', OPTION_STRING, False, True, 0x2f),
     (''requestip'', OPTION_IP, False, False, 0x32), (''lease'', OPTION_U32, False, False, 0x33),
     (''dhcptype'', OPTION_U8, False, False, 0x35), (''serverid'', OPTION_IP, False, False, 0x36),
     (''message'', OPTION_STRING, False, False, 0x38), (''tftp'', OPTION_STRING, False, False, 0x42),
     (''bootfile'', OPTION_STRING, False, False, 0x43), (''clsstrout'', OPTION_121, True, True, 0x79),
     (''msclsstrout'', OPTION_249, True, True, 0xf9)]"

fun option_lengths :: "otype \<Rightarrow> nat" where
  "option_lengths OPTION_IP = 4"
| "option_lengths OPTION_IP_PAIR = 8"
| "option_lengths OPTION_BOOLEAN = 1"
| "option_lengths OPTION_STRING = 1"
| "option_lengths OPTION_U8 = 1"
| "option_lengths OPTION_U16 = 2"
| "option_lengths OPTION_S16 = 2"
| "option_lengths OPTION_U32 = 4"
| "option_lengths OPTION_S32 = 4"
| "option_lengths OPTION_33 = 8"
| "option_lengths OPTION_121 = 0"
| "option_lengths OPTION_249 = 0"

text \<open>The loop over the table; a later entry with the same code replaces an earlier one.\<close>

fun lookup_length :: "dhcp_option list \<Rightarrow> byte \<Rightarrow> nat \<Rightarrow> nat" where
  "lookup_length [] code n = n"
| "lookup_length (t # ts) code n = lookup_length ts code (if o_code t = code then option_lengths (o_type t) else n)"

text \<open>A length above four does not fit the local buffer.\<close>

definition add_simple_option :: "byte list \<Rightarrow> byte \<Rightarrow> u32 \<Rightarrow> (nat \<times> byte list) option" where
  "add_simple_option opts code data = (let n = lookup_length options_table code 0 in
     if n = 0 then Some (0, opts)
     else if n > 4 then None
     else add_option_string opts ([code, of_nat n] @
       (if n = 1 then [ucast data] else if n = 2 then be16 (ucast data) else be32 data)))"

subsection \<open>The list of configured options\<close>

text \<open>An \<^verbatim>\<open>option_set\<close> list as the list of its data strings; \<^verbatim>\<open>char code\<close> is signed.\<close>

fun find_option :: "byte list list \<Rightarrow> int \<Rightarrow> nat option" where
  "find_option [] code = None"
| "find_option (d # ds) code =
     (if uint (d ! 0) < code then map_option Suc (find_option ds code)
      else if uint (d ! 0) = code then Some 0 else None)"

fun insert_option :: "byte list \<Rightarrow> byte list list \<Rightarrow> byte list list" where
  "insert_option x [] = [x]"
| "insert_option x (d # ds) = (if d ! 0 < x ! 0 then d # insert_option x ds else x # d # ds)"

definition attach_option :: "byte list list \<Rightarrow> dhcp_option \<Rightarrow> byte list \<Rightarrow> byte list list" where
  "attach_option opts opt buffer = (case find_option opts (sint (o_code opt)) of
       Some k \<Rightarrow>
         if o_list opt \<and> unat (opts ! k ! 1) + length buffer \<le> 255
         then opts[k := (let d = opts ! k in
           [d ! 0, d ! 1 + of_nat (length buffer)] @ take (unat (d ! 1)) (drop 2 d) @ buffer)]
         else opts
     | None \<Rightarrow> insert_option ([o_code opt, of_nat (length buffer)] @ buffer) opts)"

subsection \<open>Byte order\<close>

lemma length_be32: "length (be32 v) = 4"
  by (simp add: be32_def)

lemma of_be32_be32 [simp]: "of_be32 (be32 w) = w"
proof (rule bit_word_eqI)
  fix n
  assume "n < LENGTH(32)"
  then consider "n < 8" | "8 \<le> n" "n < 16" | "16 \<le> n" "n < 24" | "24 \<le> n" "n < 32" by fastforce
  then show "bit (of_be32 (be32 w)) n = bit w n"
    by cases (auto simp: of_be32_def be32_def bit_simps)
qed

subsection \<open>Option fields as lists of options\<close>

fun tlv :: "byte \<times> byte list \<Rightarrow> byte list" where
  "tlv (c, d) = c # of_nat (length d) # d"

definition enc :: "(byte \<times> byte list) list \<Rightarrow> byte list" where
  "enc os = concat (map tlv os)"

definition plain_code :: "byte \<Rightarrow> bool" where
  "plain_code c \<longleftrightarrow> c \<notin> {DHCP_PADDING, DHCP_OPTION_OVER, DHCP_END}"

fun plain_option :: "byte \<times> byte list \<Rightarrow> bool" where
  "plain_option (c, d) \<longleftrightarrow> plain_code c \<and> length d \<le> 255"

text \<open>Where the data of the first option with a code starts.\<close>

fun opt_pos :: "(byte \<times> byte list) list \<Rightarrow> byte \<Rightarrow> nat option" where
  "opt_pos [] code = None"
| "opt_pos ((c, d) # os) code = (if c = code then Some 2 else map_option (\<lambda>k. length d + 2 + k) (opt_pos os code))"

lemma enc_simps [simp]:
  "enc [] = []" "enc ((c, d) # os) = c # of_nat (length d) # d @ enc os" "enc (os @ os') = enc os @ enc os'"
  by (simp_all add: enc_def)

lemma unat_length_byte [simp]: "length d \<le> 255 \<Longrightarrow> unat (of_nat (length d) :: byte) = length d"
  by (simp add: unat_of_nat take_bit_eq_mod)

lemma rd_append_length [simp]: "rd (xs @ y # ys) (length xs) = Some y"
  by (simp add: rd_def)

lemma rd_append_Suc: "rd (xs @ y # z # ys) (Suc (length xs)) = Some z"
  by (simp add: rd_def nth_append)

lemma tlv_at: "length P = n \<Longrightarrow> take (length d) (drop (n + 2) (P @ c # l # d @ r)) = d"
  by simp

lemma rd_at: "length P = n \<Longrightarrow> rd (P @ c # l # r) (n + 2 - 1) = Some l"
  by (auto simp: rd_def nth_append)

lemma end_loop_enc:
  "list_all plain_option os \<Longrightarrow> end_loop (pre @ enc os @ DHCP_END # rest) (length pre) = Some (length pre + length (enc os))"
proof (induction os arbitrary: pre)
  case Nil
  then show ?case by (subst end_loop.simps) simp
next
  case (Cons cd os)
  obtain c d where cd: "cd = (c, d)" by fastforce
  let ?pre = "pre @ c # of_nat (length d) # d"
  have e: "pre @ enc (cd # os) @ DHCP_END # rest = ?pre @ enc os @ DHCP_END # rest" by (simp add: cd)
  have c: "plain_code c" "length d \<le> 255" using Cons.prems cd by auto
  have "end_loop (?pre @ enc os @ DHCP_END # rest) (length pre) = end_loop (?pre @ enc os @ DHCP_END # rest) (length ?pre)"
    using c rd_append_Suc [of pre c "of_nat (length d)" "d @ enc os @ DHCP_END # rest"]
    by (subst end_loop.simps) (simp add: plain_code_def nth_append)
  with Cons.IH [of ?pre] Cons.prems show ?case unfolding e by (simp add: cd)
qed

lemma get_loop_enc:
  assumes "list_all plain_option os" and "code \<noteq> DHCP_PADDING" and "code \<noteq> DHCP_END" and "length A = field_base f"
    and "length (B @ enc os) < field_length f"
  shows "get_loop (A @ B @ enc os @ DHCP_END # rest) code f over (length B) =
    (case opt_pos os code of Some k \<Rightarrow> Some (Some (field_base f + length B + k))
     | None \<Rightarrow> (case next_field f over of None \<Rightarrow> Some None
         | Some g \<Rightarrow> get_loop (A @ B @ enc os @ DHCP_END # rest) code g over 0))"
  using assms(1,5)
proof (induction os arbitrary: B)
  case Nil
  then show ?case
    using assms(2-4) rd_append_length [of "A @ B" DHCP_END rest]
    by (subst get_loop.simps) (simp add: DHCP_END_def DHCP_PADDING_def DHCP_OPTION_OVER_def)
next
  case (Cons cd os)
  obtain c d where cd: "cd = (c, d)" by fastforce
  let ?B = "B @ c # of_nat (length d) # d"
  let ?mem = "A @ B @ enc (cd # os) @ DHCP_END # rest"
  have e: "?mem = A @ ?B @ enc os @ DHCP_END # rest" by (simp add: cd)
  have c: "plain_code c" "length d \<le> 255" "length B + length d + 2 + length (enc os) < field_length f"
    using Cons.prems cd by auto
  have r: "rd ?mem (field_base f + length B) = Some c" "rd ?mem (Suc (field_base f + length B)) = Some (of_nat (length d))"
    using rd_append_length [of "A @ B" c "of_nat (length d) # d @ enc os @ DHCP_END # rest"]
      rd_append_Suc [of "A @ B" c "of_nat (length d)" "d @ enc os @ DHCP_END # rest"] assms(4) by (simp_all add: cd)
  show ?case
  proof (cases "c = code")
    case True
    with c r show ?thesis by (subst get_loop.simps) (simp add: cd)
  next
    case False
    have "get_loop ?mem code f over (length B) = get_loop ?mem code f over (length ?B)"
      using False c r by (subst get_loop.simps) (simp add: plain_code_def)
    also have "\<dots> = (case opt_pos os code of Some k \<Rightarrow> Some (Some (field_base f + length ?B + k))
        | None \<Rightarrow> (case next_field f over of None \<Rightarrow> Some None | Some g \<Rightarrow> get_loop ?mem code g over 0))"
      unfolding e using Cons.IH [of ?B] Cons.prems(1) c(3) cd by simp
    finally show ?thesis using False cd by (cases "opt_pos os code") simp_all
  qed
qed

lemma opt_pos_append:
  "opt_pos (os @ os') code = (case opt_pos os code of Some k \<Rightarrow> Some k
     | None \<Rightarrow> map_option (\<lambda>k. length (enc os) + k) (opt_pos os' code))"
proof (induction os code rule: opt_pos.induct)
  case (1 code)
  then show ?case by (cases "opt_pos os' code") simp_all
next
  case (2 c d os code)
  then show ?case by (cases "opt_pos os' code") (auto split: option.splits)
qed

lemma opt_pos_None: "opt_pos os code = None \<longleftrightarrow> code \<notin> fst ` set os"
  by (induction os code rule: opt_pos.induct) auto

definition packet_ok :: "dhcpMessage \<Rightarrow> bool" where
  "packet_ok p \<longleftrightarrow> length (m_sname p) = 64 \<and> length (m_file p) = 128 \<and> length (m_options p) = 308"

lemma get_option_enc:
  assumes "packet_ok p" and "m_options p = enc os @ DHCP_END # rest" and "list_all plain_option os"
    and "code \<noteq> DHCP_PADDING" and "code \<noteq> DHCP_END"
  shows "get_option p code = Some (map_option (\<lambda>k. 196 + k) (opt_pos os code))"
proof -
  have "length (enc os) < 308" using assms(1,2) by (simp add: packet_ok_def)
  with get_loop_enc [OF assms(3-5), of "m_sname p @ m_file p @ be32 (m_cookie p)" OPTION_FIELD "[]" rest 0]
  show ?thesis using assms(1,2)
    by (simp add: get_option_def packet_mem_def packet_ok_def be32_def split: option.splits)
qed

lemma add_option_string_enc:
  assumes "length opts = 308" and "opts = enc os @ DHCP_END # rest" and "list_all plain_option os" and "length d \<le> 255"
  shows "add_option_string opts (tlv (c, d)) =
    (if length (enc os) + length d + 3 \<ge> 308 then Some (0, opts)
     else Some (length d + 2, enc (os @ [(c, d)]) @ DHCP_END # drop (length d + 2) rest))"
proof -
  let ?e = "length (enc os)"
  have e: "end_option opts = Some ?e"
    using end_loop_enc [OF assms(3), of "[]" rest] by (simp add: end_option_def assms(2))
  show ?thesis
  proof (cases "?e + length d + 3 \<ge> 308")
    case True
    with e assms(4) show ?thesis by (simp add: add_option_string_def rd_def)
  next
    case False
    have len: "length rest = 307 - ?e" "?e + (length d + 3) \<le> 307" using assms(1,2) False by simp_all
    have b: "blit opts ?e (tlv (c, d)) = Some (enc os @ tlv (c, d) @ drop (length d + 1) rest)"
      using len assms(1) by (simp add: assms(2))
    obtain x r where r: "drop (length d + 1) rest = x # r" using len by (cases "drop (length d + 1) rest") auto
    have "drop (length d + 2) rest = tl (drop (length d + 1) rest)" by (simp add: tl_drop drop_Suc)
    then have r': "r = drop (length d + 2) rest" using r by simp
    have "wr (enc os @ tlv (c, d) @ x # r) (?e + length d + 2) DHCP_END = Some (enc os @ tlv (c, d) @ DHCP_END # r)"
      by (simp add: wr_def list_update_append)
    with e b r r' False assms(4) show ?thesis by (simp add: add_option_string_def rd_def)
  qed
qed

text \<open>C31: Adding an option to a well-formed option field that does not have it either reports that it does not
  fit and changes nothing, or makes \<^verbatim>\<open>get_option\<close> find exactly the data that was added; every other
  option is found where it was.\<close>

theorem dhcp_option_roundtrip:
  assumes "packet_ok p" and "m_options p = enc os @ DHCP_END # rest" and "list_all plain_option os"
    and "plain_option (c, d)" and "c \<notin> fst ` set os"
  shows "if length (enc os) + length d + 3 \<ge> 308
    then add_option_string (m_options p) (tlv (c, d)) = Some (0, m_options p)
    else \<exists>opts k. add_option_string (m_options p) (tlv (c, d)) = Some (length d + 2, opts) \<and>
      get_option (p\<lparr>m_options := opts\<rparr>) c = Some (Some k) \<and>
      rd (packet_mem (p\<lparr>m_options := opts\<rparr>)) (k - 1) = Some (of_nat (length d)) \<and>
      take (length d) (drop k (packet_mem (p\<lparr>m_options := opts\<rparr>))) = d \<and>
      (\<forall>c'. c' \<noteq> c \<and> c' \<notin> {DHCP_PADDING, DHCP_END} \<longrightarrow>
        get_option (p\<lparr>m_options := opts\<rparr>) c' = get_option p c')"
proof -
  have d: "length d \<le> 255" "c \<noteq> DHCP_PADDING" "c \<noteq> DHCP_END" using assms(4) by (auto simp: plain_code_def)
  have len: "length (m_options p) = 308" using assms(1) by (simp add: packet_ok_def)
  note add = add_option_string_enc [OF len assms(2,3) d(1), of c]
  show ?thesis
  proof (cases "length (enc os) + length d + 3 \<ge> 308")
    case True
    with add show ?thesis by simp
  next
    case False
    let ?rest = "drop (length d + 2) rest"
    let ?opts = "enc (os @ [(c, d)]) @ DHCP_END # ?rest"
    let ?p = "p\<lparr>m_options := ?opts\<rparr>"
    have l: "length rest = 307 - length (enc os)" using len assms(2) by simp
    have ok: "packet_ok ?p" "list_all plain_option (os @ [(c, d)])"
      using assms(1,3,4) False l by (simp_all add: packet_ok_def)
    note get = get_option_enc [OF ok(1) _ ok(2), of ?rest]
    have pos: "opt_pos (os @ [(c, d)]) c = Some (length (enc os) + 2)"
      using assms(5) by (simp add: opt_pos_append opt_pos_None [THEN iffD2])
    have g: "get_option ?p c = Some (Some (196 + length (enc os) + 2))" using get [of c] d(2,3) pos by simp
    let ?pre = "m_sname p @ m_file p @ be32 (m_cookie p) @ enc os"
    have mem: "packet_mem ?p = ?pre @ c # of_nat (length d) # d @ DHCP_END # ?rest" by (simp add: packet_mem_def)
    have pre: "length ?pre = 196 + length (enc os)" using assms(1) by (simp add: packet_ok_def be32_def)
    have "take (length d) (drop (196 + length (enc os) + 2) (packet_mem ?p)) = d"
      unfolding mem by (rule tlv_at [OF pre])
    moreover have "rd (packet_mem ?p) (196 + length (enc os) + 2 - 1) = Some (of_nat (length d))"
      unfolding mem by (rule rd_at [OF pre])
    moreover have "get_option ?p c' = get_option p c'" if "c' \<noteq> c" "c' \<notin> {DHCP_PADDING, DHCP_END}" for c'
      using that get [of c'] get_option_enc [OF assms(1-3), of c'] by (simp add: opt_pos_append split: option.split)
    moreover have "add_option_string (m_options p) (tlv (c, d)) = Some (length d + 2, ?opts)" using add False by simp
    ultimately show ?thesis using g by (simp only: if_not_P [OF False]) blast
  qed
qed

theorem dhcp_option_roundtrip_witness:
  "\<exists>opts k. add_option_string (DHCP_END # replicate 307 0) (tlv (0x35, [2])) = Some (3, opts) \<and>
    get_option \<lparr>m_op = 0, m_htype = 0, m_hlen = 0, m_hops = 0, m_xid = 0, m_secs = 0, m_flags = 0, m_ciaddr = 0,
      m_yiaddr = 0, m_siaddr = 0, m_giaddr = 0, m_chaddr = [], m_sname = replicate 64 0, m_file = replicate 128 0,
      m_cookie = 0, m_options = opts\<rparr> 0x35 = Some (Some k)"
proof -
  let ?p = "\<lparr>m_op = 0, m_htype = 0, m_hlen = 0, m_hops = 0, m_xid = 0, m_secs = 0, m_flags = 0, m_ciaddr = 0,
      m_yiaddr = 0, m_siaddr = 0, m_giaddr = 0, m_chaddr = [], m_sname = replicate 64 0, m_file = replicate 128 0,
      m_cookie = 0, m_options = DHCP_END # replicate 307 0\<rparr> :: dhcpMessage"
  show ?thesis
    using dhcp_option_roundtrip [of ?p "[]" "replicate 307 0" "0x35" "[2]"]
    by (simp add: packet_ok_def plain_code_def DHCP_END_def DHCP_PADDING_def DHCP_OPTION_OVER_def numeral_3_eq_3) blast
qed

subsection \<open>Received messages\<close>

lemma get_loop_result:
  assumes "get_loop mem code f over i = Some (Some k)"
  shows "\<exists>g l. rd mem (k - 1) = Some l \<and> field_base g + 2 \<le> k \<and> k + unat l \<le> field_base g + field_length g"
  using assms
proof (induction mem code f over i rule: get_loop.induct)
  case (1 mem code f over i)
  note eq = 1(5) [unfolded get_loop.simps [of mem code f over i]]
  then obtain c where i: "\<not> i \<ge> field_length f" and c: "rd mem (field_base f + i) = Some c"
    by (auto simp: bind_Some_iff split: if_splits)
  consider (hit) "c = code" | (pad) "c \<noteq> code" "c = DHCP_PADDING" | (over) "c \<noteq> code" "c \<noteq> DHCP_PADDING" "c = DHCP_OPTION_OVER"
    | (fin) "c \<noteq> code" "c \<noteq> DHCP_PADDING" "c \<noteq> DHCP_OPTION_OVER" "c = DHCP_END"
    | (other) "c \<noteq> code" "c \<noteq> DHCP_PADDING" "c \<noteq> DHCP_OPTION_OVER" "c \<noteq> DHCP_END" by blast
  then show ?case
  proof cases
    case hit
    with eq i c obtain l where "rd mem (field_base f + i + 1) = Some l" "i + 1 + unat l < field_length f" "k = field_base f + i + 2"
      by (auto simp: bind_Some_iff split: if_splits)
    then show ?thesis by (intro exI [of _ f] exI [of _ l]) simp
  next
    case pad
    with eq i c 1(1) [OF i c] show ?thesis by simp
  next
    case over
    with eq i c obtain l ov l1 where "rd mem (field_base f + i + 1) = Some l" "\<not> i + 1 + unat l \<ge> field_length f"
      "rd mem (field_base f + i + 3) = Some ov" "rd mem (field_base f + 1) = Some l1"
      "get_loop mem code f ov (i + unat l1 + 2) = Some (Some k)"
      by (auto simp: bind_Some_iff split: if_splits)
    with 1(2) [OF i c over] show ?thesis by blast
  next
    case fin
    with eq i c obtain g where "next_field f over = Some g" "get_loop mem code g over 0 = Some (Some k)"
      by (auto split: option.splits)
    with 1(3) [OF i c fin] show ?thesis by blast
  next
    case other
    with eq i c obtain l where "rd mem (field_base f + i + 1) = Some l" "get_loop mem code f over (i + unat l + 2) = Some (Some k)"
      by (auto simp: bind_Some_iff)
    with 1(4) [OF i c other] show ?thesis by blast
  qed
qed

text \<open>The reader leaves the message only in the last bytes of the option field.\<close>

lemma get_loop_no_fault:
  assumes "length mem = 504" and "\<forall>j\<in>{501, 502, 503}. mem ! j = DHCP_PADDING" and "code \<noteq> DHCP_PADDING"
  shows "get_loop mem code f over i \<noteq> None"
  using assms
proof (induction mem code f over i rule: get_loop.induct)
  case (1 mem code f over i)
  show ?case
  proof (cases "i \<ge> field_length f")
    case True
    then show ?thesis by (subst get_loop.simps) simp
  next
    case i: False
    then have b: "field_base f + i < 504" by (cases f) auto
    then have c: "rd mem (field_base f + i) = Some (mem ! (field_base f + i))" using 1(5) by simp
    let ?c = "mem ! (field_base f + i)"
    have b3: "field_base f + i + 3 < 504" if "?c \<noteq> DHCP_PADDING"
    proof (rule ccontr)
      assume "\<not> field_base f + i + 3 < 504"
      with b have "field_base f + i \<in> {501, 502, 503}" by auto
      with that 1(6) show False by blast
    qed
    have l: "rd mem (field_base f + i + 1) = Some (mem ! (field_base f + i + 1))"
      "rd mem (field_base f + i + 3) = Some (mem ! (field_base f + i + 3))" if "?c \<noteq> DHCP_PADDING"
      using b3 [OF that] 1(5) by simp_all
    have l1: "rd mem (field_base f + 1) = Some (mem ! (field_base f + 1))" using 1(5) by (cases f) simp_all
    show ?thesis
      using 1(1-4) [OF i c] 1(5-7) i c l l1
      by (subst get_loop.simps) (auto split: option.split)
  qed
qed

text \<open>C32: Whatever a received message holds, the data of an option that \<^verbatim>\<open>get_option\<close> returns lies inside the
  field it was found in, and the search ends; it reads no byte outside the message when the last three bytes of
  the option field are padding.\<close>

theorem get_option_bounds:
  assumes "packet_ok p"
  shows "(\<forall>k. get_option p code = Some (Some k) \<longrightarrow>
      (\<exists>g l. rd (packet_mem p) (k - 1) = Some l \<and> field_base g + 2 \<le> k \<and> k + unat l \<le> field_base g + field_length g)) \<and>
    (drop 305 (m_options p) = replicate 3 DHCP_PADDING \<and> code \<noteq> DHCP_PADDING \<longrightarrow> get_option p code \<noteq> None)"
proof (intro conjI allI impI)
  show "\<exists>g l. rd (packet_mem p) (k - 1) = Some l \<and> field_base g + 2 \<le> k \<and> k + unat l \<le> field_base g + field_length g"
    if "get_option p code = Some (Some k)" for k
    using that get_loop_result unfolding get_option_def by blast
  assume a: "drop 305 (m_options p) = replicate 3 DHCP_PADDING \<and> code \<noteq> DHCP_PADDING"
  have len: "length (packet_mem p) = 504" using assms by (simp add: packet_mem_def packet_ok_def be32_def)
  have "packet_mem p ! (501 + j) = DHCP_PADDING" if "j < 3" for j
  proof -
    have "drop 305 (m_options p) ! j = DHCP_PADDING" using a that by simp
    moreover have "drop 501 (packet_mem p) = drop 305 (m_options p)"
      using assms by (simp add: packet_mem_def packet_ok_def be32_def)
    ultimately show ?thesis using len that by (simp add: nth_drop [symmetric])
  qed
  from this [of 0] this [of 1] this [of 2] have "\<forall>j\<in>{501, 502, 503}. packet_mem p ! j = DHCP_PADDING" by simp
  with get_loop_no_fault [OF len _, of code] a show "get_option p code \<noteq> None" by (simp add: get_option_def)
qed

definition blank_message :: dhcpMessage where
  "blank_message = \<lparr>m_op = 0, m_htype = 0, m_hlen = 0, m_hops = 0, m_xid = 0, m_secs = 0, m_flags = 0,
     m_ciaddr = 0, m_yiaddr = 0, m_siaddr = 0, m_giaddr = 0, m_chaddr = replicate 16 0,
     m_sname = replicate 64 0, m_file = replicate 128 0, m_cookie = 0, m_options = replicate 308 0\<rparr>"

theorem get_option_bounds_witness: "get_option blank_message 0x35 \<noteq> None"
proof -
  have "packet_ok blank_message" by (simp add: packet_ok_def blank_message_def)
  from get_option_bounds [OF this, of "0x35"] show ?thesis
    by (simp add: blank_message_def DHCP_PADDING_def numeral_3_eq_3)
qed

lemma get_loop_over:
  assumes "length A = field_base f"
  shows "get_loop (A @ DHCP_OPTION_OVER # 1 # v # ov # rest) code f over 0 =
    (if code = DHCP_OPTION_OVER then Some (Some (field_base f + 2))
     else get_loop (A @ DHCP_OPTION_OVER # 1 # v # ov # rest) code f ov 3)"
proof -
  let ?mem = "A @ DHCP_OPTION_OVER # 1 # v # ov # rest"
  have rds: "rd ?mem (field_base f) = Some DHCP_OPTION_OVER" "rd ?mem (Suc (field_base f)) = Some 1"
    "rd ?mem (field_base f + 3) = Some ov"
    using assms by (auto simp: rd_def nth_append numeral_3_eq_3)
  have "DHCP_OPTION_OVER \<noteq> DHCP_PADDING" by (simp add: DHCP_OPTION_OVER_def DHCP_PADDING_def)
  moreover have "2 < field_length f" by (cases f) simp_all
  ultimately show ?thesis
    using rds by (subst get_loop.simps) (auto simp: numeral_3_eq_3 numeral_2_eq_2)
qed

text \<open>The value of an option overload option is ignored: \<^verbatim>\<open>get_option\<close> takes the byte behind it. In a message
  whose options are the overload option and the end mark, the mark itself is taken for the value, so the file
  field is searched whatever the sender announced.\<close>

theorem get_option_overload_ignored:
  assumes "packet_ok p" and "m_options p = DHCP_OPTION_OVER # 1 # v # DHCP_END # rest"
    and "code \<notin> {DHCP_OPTION_OVER, DHCP_END}"
  shows "get_option p code = get_loop (packet_mem p) code FILE_FIELD DHCP_END 0"
proof -
  let ?A = "m_sname p @ m_file p @ be32 (m_cookie p)"
  have A: "length ?A = field_base OPTION_FIELD" using assms(1) by (simp add: packet_ok_def be32_def)
  have mem: "packet_mem p = ?A @ DHCP_OPTION_OVER # 1 # v # DHCP_END # rest" by (simp add: packet_mem_def assms(2))
  have "rd (packet_mem p) (field_base OPTION_FIELD + 3) = Some DHCP_END"
    unfolding mem using A by (auto simp: rd_def nth_append)
  then have "get_loop (packet_mem p) code OPTION_FIELD DHCP_END 3 = get_loop (packet_mem p) code FILE_FIELD DHCP_END 0"
    using assms(3) by (subst get_loop.simps) (simp add: DHCP_END_def DHCP_PADDING_def DHCP_OPTION_OVER_def)
  then show ?thesis
    using get_loop_over [OF A, of v DHCP_END rest code 0] assms(3) by (simp add: get_option_def mem)
qed

theorem get_option_overload_ignored_witness:
  "get_option (blank_message\<lparr>m_options := [DHCP_OPTION_OVER, 1, 0, DHCP_END] @ replicate 304 0,
      m_file := [0x35, 1, 2, DHCP_END] @ replicate 124 0\<rparr>) 0x35 = Some (Some 66)"
proof -
  let ?p = "blank_message\<lparr>m_options := [DHCP_OPTION_OVER, 1, 0, DHCP_END] @ replicate 304 0,
      m_file := [0x35, 1, 2, DHCP_END] @ replicate 124 0\<rparr>"
  have "packet_ok ?p" by (simp add: packet_ok_def blank_message_def)
  then have "get_option ?p 0x35 = get_loop (packet_mem ?p) 0x35 FILE_FIELD DHCP_END 0"
    by (rule get_option_overload_ignored) (simp_all add: DHCP_END_def DHCP_OPTION_OVER_def)
  also have "\<dots> = Some (Some 66)"
    by (subst get_loop.simps) (simp add: packet_mem_def blank_message_def rd_def nth_append)
  finally show ?thesis .
qed

subsection \<open>Configured options\<close>

definition sorted_options :: "byte list list \<Rightarrow> bool" where
  "sorted_options opts \<longleftrightarrow> sorted_wrt (\<lambda>a b. a ! 0 \<le> b ! 0) opts"

lemma insert_option_set: "set (insert_option x ds) = insert x (set ds)"
  by (induction ds) auto

lemma insert_option_sorted: "sorted_options ds \<Longrightarrow> sorted_options (insert_option x ds)"
  by (induction ds) (auto simp: sorted_options_def insert_option_set)

lemma find_option_Some: "find_option ds c = Some k \<Longrightarrow> k < length ds \<and> uint (ds ! k ! 0) = c"
  by (induction ds c arbitrary: k rule: find_option.induct) (auto split: if_splits)

lemma find_insert_option:
  "find_option ds (uint (x ! 0)) = None \<Longrightarrow>
    \<exists>k. find_option (insert_option x ds) (uint (x ! 0)) = Some k \<and> insert_option x ds ! k = x"
proof (induction ds)
  case (Cons d ds)
  then show ?case by (auto simp: word_less_def split: if_splits)
qed simp

lemma find_option_update:
  "find_option ds c = Some k \<Longrightarrow> d ! 0 = ds ! k ! 0 \<Longrightarrow> find_option (ds[k := d]) c = Some k"
proof (induction ds c arbitrary: k rule: find_option.induct)
  case (2 x ds c)
  then show ?case by (cases k) (auto split: if_splits)
qed simp

lemma sorted_options_update:
  "sorted_options ds \<Longrightarrow> k < length ds \<Longrightarrow> d ! 0 = ds ! k ! 0 \<Longrightarrow> sorted_options (ds[k := d])"
  by (auto simp: sorted_options_def sorted_wrt_iff_nth_less nth_list_update)

lemma insert_option_length [simp]: "length (insert_option x ds) = Suc (length ds)"
  by (induction ds) auto

lemma find_option_negative: "c < 0 \<Longrightarrow> find_option ds c = None"
  by (induction ds c rule: find_option.induct) (auto simp: not_less intro: order.trans [OF less_imp_le])

lemma sint_byte: "sint (c :: byte) = (if uint c < 128 then uint c else uint c - 256)"
proof -
  have "0 \<le> uint c" "uint c < 256" using uint_lt2p [of c] by simp_all
  then have "(uint c + 128) mod 256 = (if uint c < 128 then uint c + 128 else uint c - 128)"
    using mod_add_self2 [of "uint c - 128" 256] by (auto simp: add.commute)
  then show ?thesis by (simp add: sint_uint signed_take_bit_eq_take_bit_shift take_bit_eq_mod)
qed

text \<open>The list of configured options stays sorted. An option whose code is below 128 is found after it has been
  attached: a new one with exactly the given data, a repeated list option with the data appended as long as
  255 bytes suffice. A code of 128 or more (\<^verbatim>\<open>msclsstrout\<close>) is never found, because the code is passed as a
  signed character, so every call adds one more entry.\<close>

theorem attach_option_found:
  assumes "sorted_options opts" and "length buffer \<le> 255"
  shows "sorted_options (attach_option opts opt buffer) \<and>
    (uint (o_code opt) < 128 \<longrightarrow> (\<exists>k. find_option (attach_option opts opt buffer) (uint (o_code opt)) = Some k \<and>
      (case find_option opts (uint (o_code opt)) of
         None \<Rightarrow> attach_option opts opt buffer ! k = tlv (o_code opt, buffer)
       | Some j \<Rightarrow> k = j \<and> (o_list opt \<and> unat (opts ! j ! 1) + length buffer \<le> 255 \<longrightarrow>
           drop 2 (attach_option opts opt buffer ! k) = take (unat (opts ! j ! 1)) (drop 2 (opts ! j)) @ buffer)))) \<and>
    (128 \<le> uint (o_code opt) \<longrightarrow> length (attach_option opts opt buffer) = Suc (length opts))"
proof (cases "find_option opts (sint (o_code opt))")
  case None
  let ?x = "[o_code opt, of_nat (length buffer)] @ buffer"
  have at: "attach_option opts opt buffer = insert_option ?x opts" using None by (simp add: attach_option_def)
  have "\<exists>k. find_option (insert_option ?x opts) (uint (o_code opt)) = Some k \<and> insert_option ?x opts ! k = ?x"
    if "uint (o_code opt) < 128"
    using find_insert_option [of opts ?x] None that by (simp add: sint_byte)
  with None show ?thesis
    unfolding at using insert_option_sorted [OF assms(1)] by (auto simp: sint_byte)
next
  case (Some j)
  then have c: "uint (o_code opt) < 128" "sint (o_code opt) = uint (o_code opt)"
    using find_option_negative [of "sint (o_code opt)" opts] uint_lt2p [of "o_code opt"]
    by (auto simp: sint_byte split: if_splits)
  have j: "find_option opts (uint (o_code opt)) = Some j" "j < length opts"
    using Some c(2) find_option_Some by auto
  show ?thesis
  proof (cases "o_list opt \<and> unat (opts ! j ! 1) + length buffer \<le> 255")
    case False
    then have "attach_option opts opt buffer = opts" using Some by (auto simp: attach_option_def)
    then show ?thesis using j False c assms(1) by auto
  next
    case True
    let ?d = "opts ! j"
    let ?e = "[?d ! 0, ?d ! 1 + of_nat (length buffer)] @ take (unat (?d ! 1)) (drop 2 ?d) @ buffer"
    have at: "attach_option opts opt buffer = opts[j := ?e]"
      using Some True by (simp add: attach_option_def Let_def)
    have "find_option (opts[j := ?e]) (uint (o_code opt)) = Some j"
      by (rule find_option_update [OF j(1)]) simp
    moreover have "sorted_options (opts[j := ?e])" by (rule sorted_options_update [OF assms(1) j(2)]) simp
    ultimately show ?thesis unfolding at using j c by simp
  qed
qed

theorem attach_option_found_witness:
  "length (attach_option [] (options_table ! 30) [1]) = 1 \<and>
   (\<exists>k. find_option (attach_option [] (options_table ! 5) [10, 0, 0, 1]) 6 = Some k)"
  using attach_option_found [of "[]" "[1]" "options_table ! 30"]
    attach_option_found [of "[]" "[10, 0, 0, 1]" "options_table ! 5"]
  by (auto simp: sorted_options_def options_table_def)

end
