(* ===== verification/Dhcp_Packet.thy ===== *)
theory Dhcp_Packet
  imports Dhcp_Options
begin

text \<open>
  Packets on the wire: \<^verbatim>\<open>progs.gpl/udhcpcd/packet.c\<close>. The bytes of a received datagram become a message, a fresh
  message gets its header, and a reply that is unicast to a client without an address is wrapped into an IP and
  a UDP header that the server builds itself. The calls that move bytes through a socket are not modelled: the
  reader takes the bytes of one datagram, the writer returns those handed to \<^verbatim>\<open>sendto\<close>.
\<close>

definition DHCP_MAGIC :: u32 where "DHCP_MAGIC = 0x63825363"
definition DHCP_MESSAGE_TYPE :: byte where "DHCP_MESSAGE_TYPE = 0x35"
definition DHCP_VENDOR :: byte where "DHCP_VENDOR = 0x3c"
definition BOOTREQUEST :: byte where "BOOTREQUEST = 1"
definition BOOTREPLY :: byte where "BOOTREPLY = 2"
definition DHCPDISCOVER :: byte where "DHCPDISCOVER = 1"
definition DHCPOFFER :: byte where "DHCPOFFER = 2"
definition DHCPREQUEST :: byte where "DHCPREQUEST = 3"
definition DHCPDECLINE :: byte where "DHCPDECLINE = 4"
definition DHCPACK :: byte where "DHCPACK = 5"
definition DHCPNAK :: byte where "DHCPNAK = 6"
definition DHCPRELEASE :: byte where "DHCPRELEASE = 7"
definition DHCPINFORM :: byte where "DHCPINFORM = 8"

lemmas message_types = DHCPDISCOVER_def DHCPOFFER_def DHCPREQUEST_def DHCPDECLINE_def DHCPACK_def DHCPNAK_def
  DHCPRELEASE_def DHCPINFORM_def

text \<open>The message after \<^verbatim>\<open>memset(packet, 0, sizeof(struct dhcpMessage))\<close> is \<open>blank_message\<close>.\<close>

definition init_header :: "byte \<Rightarrow> dhcpMessage option" where
  "init_header type = (let
     op = (if type \<in> {DHCPDISCOVER, DHCPREQUEST, DHCPRELEASE, DHCPINFORM, DHCPDECLINE} then BOOTREQUEST
           else if type \<in> {DHCPOFFER, DHCPACK, DHCPNAK} then BOOTREPLY else 0);
     p = blank_message\<lparr>m_op := op, m_htype := 1, m_hlen := 6, m_cookie := DHCP_MAGIC,
           m_options := (m_options blank_message)[0 := DHCP_END]\<rparr>
   in map_option (\<lambda>(n, opts). p\<lparr>m_options := opts\<rparr>) (add_simple_option (m_options p) DHCP_MESSAGE_TYPE (ucast type)))"

definition of_be16 :: "byte list \<Rightarrow> u16" where
  "of_be16 bs = push_bit 8 (ucast (bs ! 0)) OR ucast (bs ! 1)"

text \<open>The 548 bytes of a message.\<close>

definition message_bytes :: "dhcpMessage \<Rightarrow> byte list" where
  "message_bytes p = [m_op p, m_htype p, m_hlen p, m_hops p] @ be32 (m_xid p) @ be16 (m_secs p) @ be16 (m_flags p) @
     be32 (m_ciaddr p) @ be32 (m_yiaddr p) @ be32 (m_siaddr p) @ be32 (m_giaddr p) @ m_chaddr p @ m_sname p @ m_file p @
     be32 (m_cookie p) @ m_options p"

definition message_of :: "byte list \<Rightarrow> dhcpMessage" where
  "message_of b = \<lparr>m_op = b ! 0, m_htype = b ! 1, m_hlen = b ! 2, m_hops = b ! 3, m_xid = of_be32 (drop 4 b),
     m_secs = of_be16 (drop 8 b), m_flags = of_be16 (drop 10 b), m_ciaddr = of_be32 (drop 12 b),
     m_yiaddr = of_be32 (drop 16 b), m_siaddr = of_be32 (drop 20 b), m_giaddr = of_be32 (drop 24 b),
     m_chaddr = take 16 (drop 28 b), m_sname = take 64 (drop 44 b), m_file = take 128 (drop 108 b),
     m_cookie = of_be32 (drop 236 b), m_options = take 308 (drop 240 b)\<rparr>"

definition broken_vendor :: "byte list" where
  "broken_vendor = [0x4D, 0x53, 0x46, 0x54, 0x20, 0x39, 0x38]"

text \<open>A datagram as \<^verbatim>\<open>read\<close> delivers it (\<open>None\<close> when it fails). The return value is -1, -2 or the number of bytes.\<close>

definition get_packet :: "byte list option \<Rightarrow> (int \<times> dhcpMessage) option" where
  "get_packet datagram = (case datagram of None \<Rightarrow> Some (-1, blank_message)
     | Some d \<Rightarrow> (let p = message_of (take 548 (d @ replicate 548 0)); bytes = int (min 548 (length d)) in
         if m_cookie p \<noteq> DHCP_MAGIC then Some (-2, p)
         else if m_op p = BOOTREQUEST then do {
           vendor \<leftarrow> get_option p DHCP_VENDOR;
           case vendor of None \<Rightarrow> Some (bytes, p)
           | Some k \<Rightarrow> do {
               l \<leftarrow> rd (packet_mem p) (k - 1);
               Some (bytes, if l = 7 \<and> take 7 (drop k (packet_mem p)) = broken_vendor
                 then p\<lparr>m_flags := m_flags p OR 0x8000\<rparr> else p) } }
         else Some (bytes, p)))"

subsection \<open>The Internet checksum\<close>

text \<open>The sum of the 16 bit words, a left-over byte counting as the high one. The 32 bit sum of the code does not
  overflow for the at most 576 bytes it is used on.\<close>

fun word_sum :: "byte list \<Rightarrow> nat" where
  "word_sum [] = 0"
| "word_sum [a] = 256 * unat a"
| "word_sum (a # b # bs) = 256 * unat a + unat b + word_sum bs"

function fold_sum :: "nat \<Rightarrow> nat" where
  "fold_sum s = (if s div 65536 \<noteq> 0 then fold_sum (s mod 65536 + s div 65536) else s)"
  by pat_completeness auto
termination
proof (relation "measure id")
  fix s :: nat
  assume "s div 65536 \<noteq> 0"
  with div_mult_mod_eq [of s 65536] have "s mod 65536 + s div 65536 < s" by linarith
  then show "(s mod 65536 + s div 65536, s) \<in> measure id" by simp
qed simp

declare fold_sum.simps [simp del]

definition checksum :: "byte list \<Rightarrow> u16" where
  "checksum bs = NOT (of_nat (fold_sum (word_sum bs)))"

definition ip_header :: "byte \<Rightarrow> u16 \<Rightarrow> byte \<Rightarrow> u16 \<Rightarrow> u32 \<Rightarrow> u32 \<Rightarrow> byte list" where
  "ip_header version_ihl tot_len ttl check saddr daddr =
     [version_ihl, 0] @ be16 tot_len @ [0, 0, 0, 0, ttl, 17] @ be16 check @ be32 saddr @ be32 daddr"

definition udp_header :: "u16 \<Rightarrow> u16 \<Rightarrow> u16 \<Rightarrow> u16 \<Rightarrow> byte list" where
  "udp_header sport dport len check = be16 sport @ be16 dport @ be16 len @ be16 check"

definition raw_packet :: "dhcpMessage \<Rightarrow> u32 \<Rightarrow> u16 \<Rightarrow> u32 \<Rightarrow> u16 \<Rightarrow> byte list" where
  "raw_packet payload source_ip source_port dest_ip dest_port = (let
     data = message_bytes payload;
     udp_check = checksum (ip_header 0 556 0 0 source_ip dest_ip @ udp_header source_port dest_port 556 0 @ data);
     ip_check = checksum (ip_header 0x45 576 64 0 source_ip dest_ip)
   in ip_header 0x45 576 64 ip_check source_ip dest_ip @ udp_header source_port dest_port 556 udp_check @ data)"

subsection \<open>Byte order\<close>

lemma of_be16_be16 [simp]: "of_be16 (be16 w) = w"
  by (simp add: of_be16_def be16_def) (rule bit_word_eqI, auto simp: bit_simps)

lemma of_be_append [simp]: "of_be16 (be16 w @ r) = w" "of_be32 (be32 v @ r) = v"
  using of_be16_be16 [of w] of_be32_be32 [of v] by (simp_all add: of_be16_def be16_def of_be32_def be32_def)

declare length_be32 [simp]

lemma length_be16 [simp]: "length (be16 w) = 2"
  by (simp add: be16_def)

definition message_ok :: "dhcpMessage \<Rightarrow> bool" where
  "message_ok p \<longleftrightarrow> length (m_chaddr p) = 16 \<and> packet_ok p"

lemma length_message_bytes [simp]: "message_ok p \<Longrightarrow> length (message_bytes p) = 548"
  by (simp add: message_ok_def packet_ok_def message_bytes_def)

lemma message_of_bytes:
  assumes "message_ok p"
  shows "message_of (message_bytes p @ r) = p"
proof -
  have l: "length (m_chaddr p) = 16" "length (m_sname p) = 64" "length (m_file p) = 128" "length (m_options p) = 308"
    using assms by (auto simp: message_ok_def packet_ok_def)
  then show ?thesis
    by (simp add: message_of_def message_bytes_def)
qed

subsection \<open>Checksums\<close>

lemma fold_sum_step: "s div 65536 \<noteq> 0 \<Longrightarrow> (s mod 65536 + s div 65536) mod 65535 = s mod 65535 \<and> s mod 65536 + s div 65536 \<noteq> 0" for s :: nat
proof
  have "s mod 65536 + s div 65536 + 65535 * (s div 65536) = s" using div_mult_mod_eq [of s 65536] by linarith
  then show "(s mod 65536 + s div 65536) mod 65535 = s mod 65535" by (metis mod_mult_self2)
qed auto

lemma fold_sum_spec: "fold_sum s mod 65535 = s mod 65535 \<and> fold_sum s < 65536 \<and> (fold_sum s = 0 \<longleftrightarrow> s = 0) \<and> fold_sum s \<le> s"
proof (induction s rule: fold_sum.induct)
  case (1 s)
  show ?case
  proof (cases "s div 65536 = 0")
    case True
    then have "fold_sum s = s" by (simp add: fold_sum.simps)
    with True show ?thesis by (simp add: div_eq_0_iff)
  next
    case False
    define x where "x = s mod 65536 + s div 65536"
    have e: "fold_sum s = fold_sum x" using False unfolding x_def by (subst fold_sum.simps) simp
    have "x \<le> s" "s \<noteq> 0" using False div_mult_mod_eq [of s 65536] unfolding x_def by linarith+
    moreover have "x mod 65535 = s mod 65535" "x \<noteq> 0" using fold_sum_step [OF False] False unfolding x_def by simp_all
    ultimately show ?thesis using 1 [OF False, folded x_def] unfolding e by simp
  qed
qed

lemma fold_sum_complement: "fold_sum (s + (65535 - fold_sum s)) = 65535"
proof -
  let ?t = "s + (65535 - fold_sum s)"
  note f = fold_sum_spec [of s] and g = fold_sum_spec [of ?t]
  have "65535 dvd s - fold_sum s" using f mod_eq_dvd_iff_nat [of "fold_sum s" s 65535] by simp
  then have "65535 dvd s - fold_sum s + 65535" by simp
  then have "65535 dvd ?t" using f by simp
  moreover have "?t \<noteq> 0" using f by (cases "s = 0") simp_all
  ultimately have "65535 dvd fold_sum ?t" "fold_sum ?t \<noteq> 0" "fold_sum ?t < 65536"
    using g by (simp_all add: mod_eq_0_iff_dvd [symmetric])
  then show ?thesis by (auto elim!: dvdE)
qed

lemma word_sum_append: "even (length xs) \<Longrightarrow> word_sum (xs @ ys) = word_sum xs + word_sum ys"
  by (induction xs rule: word_sum.induct) simp_all

lemma word_sum_be16 [simp]: "word_sum (be16 w) = unat w"
proof -
  have w: "unat w < 65536" using unsigned_less [of w] by simp
  have "unat (ucast (drop_bit 8 w) :: byte) = unat w div 256"
    using w by (simp add: unsigned_ucast_eq take_bit_eq_mod drop_bit_eq_div unat_div)
  moreover have "unat (ucast w :: byte) = unat w mod 256" by (simp add: unsigned_ucast_eq take_bit_eq_mod)
  ultimately show ?thesis by (simp add: be16_def)
qed

lemma checksum_alt: "checksum xs = of_nat (65535 - fold_sum (word_sum xs))"
proof -
  let ?f = "fold_sum (word_sum xs)"
  have "?f \<le> 65535" using fold_sum_spec [of "word_sum xs"] by linarith
  then have "of_nat (65535 - ?f) = (of_nat 65535 - of_nat ?f :: u16)" by (rule of_nat_diff)
  also have "\<dots> = - 1 - of_nat ?f" by simp
  finally show ?thesis by (simp add: checksum_def not_eq_complement)
qed

lemma unat_checksum: "unat (checksum xs) = 65535 - fold_sum (word_sum xs)"
  by (simp add: checksum_alt unat_of_nat take_bit_eq_mod)

text \<open>A checksum computed with its own field zero, over words in any order, makes the whole verify.\<close>

lemma checksum_verifies:
  assumes "even (length xs)" and "word_sum zs = word_sum xs + word_sum ys"
  shows "checksum (xs @ be16 (checksum zs) @ ys) = 0"
proof -
  have "word_sum (xs @ be16 (checksum zs) @ ys) = word_sum zs + (65535 - fold_sum (word_sum zs))"
    using assms by (simp add: word_sum_append unat_checksum)
  then show ?thesis by (simp add: checksum_alt fold_sum_complement)
qed

text \<open>The packets the server builds are well formed: 576 bytes, an IP header whose checksum verifies, and a UDP
  checksum that verifies over the pseudo-header of RFC 768, although the code computes it over the unfinished IP
  header, whose words come in another order.\<close>

theorem raw_packet_checksums:
  assumes "message_ok p"
  shows "let b = raw_packet p src sport dst dport in
    length b = 576 \<and> checksum (take 20 b) = 0 \<and>
    checksum (be32 src @ be32 dst @ [0, 17] @ be16 556 @ drop 20 b) = 0 \<and> message_of (drop 28 b) = p"
proof -
  let ?d = "message_bytes p"
  let ?ip = "ip_header 0 556 0 0 src dst @ udp_header sport dport 556 0 @ ?d"
  let ?h = "ip_header 0x45 576 64 0 src dst"
  let ?b = "raw_packet p src sport dst dport"
  have b: "?b = ip_header 0x45 576 64 (checksum ?h) src dst @ udp_header sport dport 556 (checksum ?ip) @ ?d"
    by (simp add: raw_packet_def Let_def)
  have len: "length (ip_header v t l c src dst) = 20" "length (udp_header sport dport n k) = 8" for v t l c n k
    by (simp_all add: ip_header_def udp_header_def)
  have t: "take 20 ?b = ip_header 0x45 576 64 (checksum ?h) src dst"
    and dr: "drop 20 ?b = udp_header sport dport 556 (checksum ?ip) @ ?d" "drop 28 ?b = ?d"
    unfolding b by (simp_all add: len)
  have "checksum (([0x45, 0] @ be16 576 @ [0, 0, 0, 0, 64, 17]) @ be16 (checksum ?h) @ be32 src @ be32 dst) = 0"
    by (rule checksum_verifies) (simp_all add: ip_header_def word_sum_append be16_def)
  then have ip: "checksum (take 20 ?b) = 0" unfolding t by (simp add: ip_header_def)
  have "checksum ((be32 src @ be32 dst @ [0, 17] @ be16 556 @ be16 sport @ be16 dport @ be16 556) @
      be16 (checksum ?ip) @ ?d) = 0"
    by (rule checksum_verifies) (simp_all add: ip_header_def udp_header_def word_sum_append)
  then have udp: "checksum (be32 src @ be32 dst @ [0, 17] @ be16 556 @ drop 20 ?b) = 0"
    unfolding dr by (simp add: udp_header_def)
  have "message_of (drop 28 ?b) = p" using message_of_bytes [OF assms, of "[]"] unfolding dr by simp
  with ip udp b len assms show ?thesis by (simp add: Let_def)
qed

theorem raw_packet_checksums_witness:
  "length (raw_packet blank_message 0xC0A80001 67 0xC0A80014 68) = 576 \<and>
   checksum (take 20 (raw_packet blank_message 0xC0A80001 67 0xC0A80014 68)) = 0"
  using raw_packet_checksums [of blank_message "0xC0A80001" 67 "0xC0A80014" 68]
  by (simp add: message_ok_def packet_ok_def blank_message_def Let_def)

end
