(* ===== verification/Dhcp_Leases.thy ===== *)
theory Dhcp_Leases
  imports Dhcp_Options
begin

text \<open>
  The lease table of the DHCP server: \<^verbatim>\<open>progs.gpl/udhcpcd/leases.c\<close>. The table is the list of its
  \<^verbatim>\<open>max_leases\<close> entries and a pointer to an entry is its index. The uptime in seconds is an argument; every
  call of \<^verbatim>\<open>get_uptime\<close> while one message is handled sees the same value. Whether somebody answers an ARP
  request for an address is a function given to the operations that ask (\<^verbatim>\<open>arpping\<close>). The build has neither
  \<^verbatim>\<open>HOLD_LAN_IP\<close> nor \<^verbatim>\<open>MULTI_INSTANCE\<close>.
\<close>

record dhcpOfferedAddr =
  l_chaddr :: "byte list"
  l_yiaddr :: u32
  l_expires :: u32
  l_ACKed :: u32
  l_hostname :: "byte list"
  l_options :: "byte list list"

text \<open>The part of \<^verbatim>\<open>struct server_config_t\<close> that the server logic reads; a null string is \<open>None\<close>.\<close>

record server_config_t =
  sc_server :: u32
  sc_start :: u32
  sc_end :: u32
  sc_options :: "byte list list"
  sc_lease :: u32
  sc_remaining :: bool
  sc_decline_time :: u32
  sc_offer_time :: u32
  sc_min_lease :: u32
  sc_siaddr :: u32
  sc_sname :: "byte list option"
  sc_boot_file :: "byte list option"
  sc_mask :: u32
  sc_force_bcast :: bool

definition MAX_STATIC_LEASES :: nat where "MAX_STATIC_LEASES = 32"

definition blank_chaddr :: "byte list" where "blank_chaddr = replicate 16 0"

text \<open>An entry after \<^verbatim>\<open>memset(&lease, 0, sizeof lease)\<close>.\<close>

definition no_lease :: dhcpOfferedAddr where
  "no_lease = \<lparr>l_chaddr = blank_chaddr, l_yiaddr = 0, l_expires = 0, l_ACKed = 0,
     l_hostname = replicate 64 0, l_options = []\<rparr>"

definition clear_lease :: "dhcpOfferedAddr list \<Rightarrow> byte list \<Rightarrow> u32 \<Rightarrow> dhcpOfferedAddr list" where
  "clear_lease leases chaddr yiaddr = (let j = length (takeWhile ((=) 0) (take 16 chaddr)) in
     map (\<lambda>l. if (j \<noteq> 16 \<and> l_chaddr l = chaddr) \<or> (yiaddr \<noteq> 0 \<and> l_yiaddr l = yiaddr) then no_lease else l) leases)"

definition lease_expired :: "u32 \<Rightarrow> dhcpOfferedAddr \<Rightarrow> bool" where
  "lease_expired now lease \<longleftrightarrow> l_expires lease \<le> now"

fun oldest_loop :: "dhcpOfferedAddr list \<Rightarrow> nat \<Rightarrow> u32 \<Rightarrow> nat option \<Rightarrow> nat option" where
  "oldest_loop [] i oldest_lease oldest = oldest"
| "oldest_loop (l # ls) i oldest_lease oldest =
     (if oldest_lease \<ge> l_expires l then oldest_loop ls (i + 1) (l_expires l) (Some i)
      else oldest_loop ls (i + 1) oldest_lease oldest)"

definition oldest_expired_lease :: "u32 \<Rightarrow> dhcpOfferedAddr list \<Rightarrow> nat option" where
  "oldest_expired_lease now leases = oldest_loop leases 0 now None"

text \<open>\<^verbatim>\<open>strncpy(dst, src, n)\<close>: the string cut or padded with zeros to \<open>n\<close> bytes.\<close>

definition strncpy_bytes :: "nat \<Rightarrow> byte list \<Rightarrow> byte list" where
  "strncpy_bytes n src = take n (src @ replicate n 0)"

text \<open>\<open>set_hostname\<close> is the copy into the fixed field with its terminator.\<close>

definition set_hostname :: "byte list option \<Rightarrow> dhcpOfferedAddr \<Rightarrow> dhcpOfferedAddr" where
  "set_hostname hostname l = (case hostname of None \<Rightarrow> l
     | Some h \<Rightarrow> l\<lparr>l_hostname := (strncpy_bytes 64 h)[63 := 0]\<rparr>)"

definition add_lease :: "u32 \<Rightarrow> dhcpOfferedAddr list \<Rightarrow> byte list \<Rightarrow> u32 \<Rightarrow> u32 \<Rightarrow> byte list option \<Rightarrow>
    nat option \<times> dhcpOfferedAddr list" where
  "add_lease now leases chaddr yiaddr lease hostname = (let ls = clear_lease leases chaddr yiaddr in
     case oldest_expired_lease now ls of
       None \<Rightarrow> (None, ls)
     | Some i \<Rightarrow> (Some i, ls[i := set_hostname hostname
         ((ls ! i)\<lparr>l_chaddr := chaddr, l_yiaddr := yiaddr, l_expires := now + lease\<rparr>)]))"

text \<open>The index of the first entry with a property: the shape of the four lookup loops.\<close>

fun index_of :: "('a \<Rightarrow> bool) \<Rightarrow> 'a list \<Rightarrow> nat option" where
  "index_of P [] = None"
| "index_of P (x # xs) = (if P x then Some 0 else map_option Suc (index_of P xs))"

text \<open>The loops over the static leases stop at the first entry without an address.\<close>

definition static_entries :: "dhcpOfferedAddr list \<Rightarrow> dhcpOfferedAddr list" where
  "static_entries statics = takeWhile (\<lambda>l. l_yiaddr l \<noteq> 0) (take MAX_STATIC_LEASES statics)"

definition find_static_lease_by_chaddr :: "dhcpOfferedAddr list \<Rightarrow> byte list \<Rightarrow> nat option" where
  "find_static_lease_by_chaddr statics chaddr = index_of (\<lambda>l. l_chaddr l = chaddr) (static_entries statics)"

definition find_static_lease_by_yiaddr :: "dhcpOfferedAddr list \<Rightarrow> u32 \<Rightarrow> nat option" where
  "find_static_lease_by_yiaddr statics yiaddr = index_of (\<lambda>l. l_yiaddr l = yiaddr) (static_entries statics)"

definition find_lease_by_chaddr :: "dhcpOfferedAddr list \<Rightarrow> byte list \<Rightarrow> nat option" where
  "find_lease_by_chaddr leases chaddr = index_of (\<lambda>l. l_chaddr l = chaddr) leases"

definition find_lease_by_yiaddr :: "dhcpOfferedAddr list \<Rightarrow> u32 \<Rightarrow> nat option" where
  "find_lease_by_yiaddr leases yiaddr = index_of (\<lambda>l. l_yiaddr l = yiaddr) leases"

text \<open>\<^verbatim>\<open>check_ip\<close>: \<open>arp a\<close> says that somebody answered, i.e. \<^verbatim>\<open>arpping\<close> returned 0.\<close>

definition check_ip :: "(u32 \<Rightarrow> bool) \<Rightarrow> u32 \<Rightarrow> bool" where
  "check_ip arp addr = arp addr"

text \<open>One turn of the loop of \<^verbatim>\<open>find_address\<close>: whether the address is returned.\<close>

definition assignable :: "server_config_t \<Rightarrow> (u32 \<Rightarrow> bool) \<Rightarrow> u32 \<Rightarrow> dhcpOfferedAddr list \<Rightarrow> dhcpOfferedAddr list \<Rightarrow>
    bool \<Rightarrow> u32 \<Rightarrow> bool" where
  "assignable cfg arp now leases statics check_expired addr \<longleftrightarrow>
     addr AND sc_mask cfg \<noteq> 0 \<and> addr AND sc_mask cfg \<noteq> sc_mask cfg \<and>
     find_static_lease_by_yiaddr statics addr = None \<and>
     (case find_lease_by_yiaddr leases addr of None \<Rightarrow> True
      | Some i \<Rightarrow> check_expired \<and> lease_expired now (leases ! i)) \<and>
     \<not> check_ip arp addr"

text \<open>The loop itself; \<open>None\<close> means that it does not end.\<close>

partial_function (option) find_address_loop ::
    "(u32 \<Rightarrow> bool) \<Rightarrow> u32 \<Rightarrow> u32 \<Rightarrow> u32 option" where
  "find_address_loop ok limit addr =
     (if addr \<le> limit then (if ok addr then Some addr else find_address_loop ok limit (addr + 1)) else Some 0)"

definition find_address :: "server_config_t \<Rightarrow> (u32 \<Rightarrow> bool) \<Rightarrow> u32 \<Rightarrow> dhcpOfferedAddr list \<Rightarrow> dhcpOfferedAddr list \<Rightarrow>
    bool \<Rightarrow> u32 option" where
  "find_address cfg arp now leases statics check_expired =
     find_address_loop (assignable cfg arp now leases statics check_expired) (sc_end cfg) (sc_start cfg)"

subsection \<open>Lookup\<close>

lemma index_of_Some: "index_of P xs = Some i \<Longrightarrow> i < length xs \<and> P (xs ! i)"
  by (induction xs arbitrary: i) (auto split: if_splits)

lemma index_of_first: "index_of P xs = Some i \<Longrightarrow> j < i \<Longrightarrow> \<not> P (xs ! j)"
  by (induction xs arbitrary: i j) (auto split: if_splits simp: nth_Cons split: nat.split)

lemma index_of_None: "index_of P xs = None \<longleftrightarrow> (\<forall>x\<in>set xs. \<not> P x)"
  by (induction xs) auto

lemma index_of_unique:
  assumes "i < length xs" and "P (xs ! i)" and "\<And>j. j < length xs \<Longrightarrow> P (xs ! j) \<Longrightarrow> j = i"
  shows "index_of P xs = Some i"
proof (cases "index_of P xs")
  case None
  then show ?thesis using assms(1,2) index_of_None [of P xs] nth_mem by blast
next
  case (Some k)
  then show ?thesis using assms(3) [of k] index_of_Some [OF Some] by simp
qed

subsection \<open>The oldest expired entry\<close>

text \<open>What the two loop variables say about the entries already seen.\<close>

definition oldest_inv :: "u32 \<Rightarrow> dhcpOfferedAddr list \<Rightarrow> u32 \<Rightarrow> nat option \<Rightarrow> bool" where
  "oldest_inv now seen t best \<longleftrightarrow> (\<forall>l\<in>set seen. if best = None then now < l_expires l else t \<le> l_expires l) \<and> t \<le> now \<and>
     (case best of None \<Rightarrow> t = now | Some k \<Rightarrow> k < length seen \<and> l_expires (seen ! k) = t)"

lemma oldest_loop_inv:
  "oldest_inv now seen t best \<Longrightarrow> \<exists>t'. oldest_inv now (seen @ ls) t' (oldest_loop ls (length seen) t best)"
proof (induction ls arbitrary: seen t best)
  case Nil
  then show ?case by auto
next
  case (Cons l ls)
  show ?case
  proof (cases "l_expires l \<le> t")
    case True
    then have "oldest_inv now (seen @ [l]) (l_expires l) (Some (length seen))"
      using Cons(2) by (auto simp: oldest_inv_def split: if_splits intro: order.trans less_imp_le)
    from Cons(1) [OF this] True show ?thesis by simp
  next
    case False
    then have "oldest_inv now (seen @ [l]) t best"
      using Cons(2) by (auto simp: oldest_inv_def nth_append split: option.splits)
    from Cons(1) [OF this] False show ?thesis by simp
  qed
qed

lemma oldest_expired_lease_inv: "\<exists>t. oldest_inv now ls t (oldest_expired_lease now ls)"
  using oldest_loop_inv [of now "[]" now None ls] by (simp add: oldest_inv_def oldest_expired_lease_def)

lemma oldest_expired_lease_None:
  "oldest_expired_lease now ls = None \<longleftrightarrow> (\<forall>l\<in>set ls. \<not> lease_expired now l)"
proof -
  obtain t where t: "oldest_inv now ls t (oldest_expired_lease now ls)" using oldest_expired_lease_inv by blast
  show ?thesis
  proof (cases "oldest_expired_lease now ls")
    case None
    with t show ?thesis by (simp add: oldest_inv_def lease_expired_def not_le)
  next
    case (Some k)
    with t have "k < length ls" "l_expires (ls ! k) \<le> now" by (auto simp: oldest_inv_def)
    then have "ls ! k \<in> set ls" "lease_expired now (ls ! k)" by (simp_all add: lease_expired_def)
    with Some show ?thesis by auto
  qed
qed

lemma oldest_expired_lease_Some:
  assumes "oldest_expired_lease now ls = Some k"
  shows "k < length ls" "lease_expired now (ls ! k)" "\<forall>l\<in>set ls. l_expires (ls ! k) \<le> l_expires l"
  using oldest_expired_lease_inv [of now ls] assms by (auto simp: oldest_inv_def lease_expired_def)

subsection \<open>No address and no client twice\<close>

definition compatible :: "dhcpOfferedAddr \<Rightarrow> dhcpOfferedAddr \<Rightarrow> bool" where
  "compatible a b \<longleftrightarrow> (l_yiaddr a = l_yiaddr b \<longrightarrow> l_yiaddr a = 0) \<and> (l_chaddr a = l_chaddr b \<longrightarrow> l_chaddr a = blank_chaddr)"

definition leases_ok :: "dhcpOfferedAddr list \<Rightarrow> bool" where
  "leases_ok ls \<longleftrightarrow> list_all (\<lambda>l. length (l_chaddr l) = 16) ls \<and> sorted_wrt compatible ls"

lemma compatible_sym: "compatible a b \<Longrightarrow> compatible b a"
  by (auto simp: compatible_def)

lemma compatible_no_lease [simp]: "compatible no_lease l" "compatible l no_lease"
  by (auto simp: compatible_def no_lease_def)

lemma leases_okD:
  assumes "leases_ok ls" and "i < length ls" and "j < length ls" and "i \<noteq> j"
  shows "compatible (ls ! i) (ls ! j)"
  using assms sorted_wrt_nth_less [of compatible ls i j] sorted_wrt_nth_less [of compatible ls j i] compatible_sym
  by (auto simp: leases_ok_def neq_iff)

lemma leases_ok_update:
  assumes "leases_ok ls" and "length (l_chaddr x) = 16" and "\<And>j. j < length ls \<Longrightarrow> j \<noteq> i \<Longrightarrow> compatible x (ls ! j)"
  shows "leases_ok (ls[i := x])"
  unfolding leases_ok_def sorted_wrt_iff_nth_less
proof (intro conjI allI impI)
  show "list_all (\<lambda>l. length (l_chaddr l) = 16) (ls[i := x])"
    using assms(1,2) set_update_subset_insert [of ls i x] by (auto simp: leases_ok_def list_all_iff)
  fix j k
  assume "j < k" "k < length (ls[i := x])"
  then show "compatible (ls[i := x] ! j) (ls[i := x] ! k)"
    using leases_okD [OF assms(1), of j k] assms(3) [of j] assms(3) [of k] compatible_sym
    by (cases "i < length ls") (auto simp: nth_list_update)
qed

text \<open>An entry may change all but its address and its client, or lose its client.\<close>

lemma leases_ok_same:
  assumes "leases_ok ls" and "l_yiaddr x = l_yiaddr (ls ! i)" and "l_chaddr x \<in> {l_chaddr (ls ! i), blank_chaddr}"
  shows "leases_ok (ls[i := x])"
proof (cases "i < length ls")
  case True
  show ?thesis
  proof (rule leases_ok_update [OF assms(1)])
    show "length (l_chaddr x) = 16"
      using assms(1,3) True by (auto simp: leases_ok_def list_all_length blank_chaddr_def)
    show "compatible x (ls ! j)" if "j < length ls" "j \<noteq> i" for j
      using leases_okD [OF assms(1) True that(1)] that(2) assms(2,3) by (auto simp: compatible_def)
  qed
qed (use assms(1) in \<open>simp add: list_update_beyond\<close>)

lemma leases_ok_ACK: "leases_ok ls \<Longrightarrow> leases_ok (ls[k := (ls ! k)\<lparr>l_ACKed := a\<rparr>])"
  by (rule leases_ok_same) simp_all

text \<open>What an entry turns into when an address or a client is cleared.\<close>

definition conflicting :: "byte list \<Rightarrow> u32 \<Rightarrow> dhcpOfferedAddr \<Rightarrow> bool" where
  "conflicting chaddr yiaddr l \<longleftrightarrow> (chaddr \<noteq> blank_chaddr \<and> l_chaddr l = chaddr) \<or> (yiaddr \<noteq> 0 \<and> l_yiaddr l = yiaddr)"

lemma blank_chaddr_scan:
  assumes "length chaddr = 16"
  shows "length (takeWhile ((=) 0) (take 16 chaddr)) = 16 \<longleftrightarrow> chaddr = blank_chaddr"
proof
  assume "length (takeWhile ((=) 0) (take 16 chaddr)) = 16"
  then have "takeWhile ((=) 0) chaddr = chaddr" using assms by (metis length_takeWhile_le order_refl take_all takeWhile_eq_take)
  then have "\<forall>b\<in>set chaddr. b = 0" by (auto simp: takeWhile_eq_all_conv)
  then show "chaddr = blank_chaddr" using assms by (metis blank_chaddr_def replicate_eqI)
qed (simp add: blank_chaddr_def)

lemma clear_lease_alt:
  "length chaddr = 16 \<Longrightarrow> clear_lease ls chaddr yiaddr = map (\<lambda>l. if conflicting chaddr yiaddr l then no_lease else l) ls"
  by (simp only: clear_lease_def Let_def blank_chaddr_scan conflicting_def)

lemma clear_lease_length [simp]: "length (clear_lease ls chaddr yiaddr) = length ls"
  by (simp add: clear_lease_def Let_def)

lemma clear_lease_ok:
  assumes "leases_ok ls" and "length chaddr = 16"
  shows "leases_ok (clear_lease ls chaddr yiaddr)"
proof -
  have "sorted_wrt compatible (map (\<lambda>l. if conflicting chaddr yiaddr l then no_lease else l) ls)"
    unfolding sorted_wrt_map
    by (rule sorted_wrt_mono_rel [of ls compatible]) (use assms in \<open>auto simp: leases_ok_def\<close>)
  with assms show ?thesis
    by (auto simp: leases_ok_def clear_lease_alt list_all_iff no_lease_def blank_chaddr_def)
qed

lemma not_conflicting_no_lease: "\<not> conflicting chaddr yiaddr no_lease"
  by (auto simp: conflicting_def no_lease_def)

lemma clear_lease_not_conflicting:
  "length chaddr = 16 \<Longrightarrow> l \<in> set (clear_lease ls chaddr yiaddr) \<Longrightarrow> \<not> conflicting chaddr yiaddr l"
  by (auto simp: clear_lease_alt not_conflicting_no_lease)

lemma not_conflicting_compatible:
  "\<not> conflicting (l_chaddr x) (l_yiaddr x) l \<Longrightarrow> compatible x l"
  by (auto simp: conflicting_def compatible_def)

lemma set_hostname_simps [simp]:
  "l_chaddr (set_hostname h l) = l_chaddr l" "l_yiaddr (set_hostname h l) = l_yiaddr l"
  "l_expires (set_hostname h l) = l_expires l" "l_ACKed (set_hostname h l) = l_ACKed l"
  by (simp_all add: set_hostname_def split: option.split)

lemma add_lease_Some:
  assumes "add_lease now ls chaddr yiaddr lease h = (Some i, ls')"
  shows "i < length ls" "lease_expired now (clear_lease ls chaddr yiaddr ! i)" "length ls' = length ls"
    "l_chaddr (ls' ! i) = chaddr" "l_yiaddr (ls' ! i) = yiaddr" "l_expires (ls' ! i) = now + lease"
    "j \<noteq> i \<Longrightarrow> ls' ! j = clear_lease ls chaddr yiaddr ! j"
    "ls' = (clear_lease ls chaddr yiaddr)[i := ls' ! i]"
proof -
  let ?c = "clear_lease ls chaddr yiaddr"
  have o: "oldest_expired_lease now ?c = Some i"
    and ls': "ls' = ?c[i := set_hostname h ((?c ! i)\<lparr>l_chaddr := chaddr, l_yiaddr := yiaddr, l_expires := now + lease\<rparr>)]"
    using assms by (auto simp: add_lease_def Let_def split: option.splits)
  note s = oldest_expired_lease_Some [OF o]
  from s(1,2) ls'
  show "i < length ls" "lease_expired now (?c ! i)" "length ls' = length ls"
    "l_chaddr (ls' ! i) = chaddr" "l_yiaddr (ls' ! i) = yiaddr" "l_expires (ls' ! i) = now + lease"
    "j \<noteq> i \<Longrightarrow> ls' ! j = ?c ! j" "ls' = ?c[i := ls' ! i]" by simp_all
qed

lemma add_lease_None:
  assumes "length chaddr = 16"
  shows "fst (add_lease now ls chaddr yiaddr lease h) = None \<longleftrightarrow>
    (\<forall>l\<in>set ls. \<not> lease_expired now l \<and> \<not> conflicting chaddr yiaddr l)"
proof -
  have "fst (add_lease now ls chaddr yiaddr lease h) = None \<longleftrightarrow>
      (\<forall>l\<in>set (clear_lease ls chaddr yiaddr). \<not> lease_expired now l)"
    by (simp add: add_lease_def Let_def oldest_expired_lease_None [symmetric] split: option.split)
  moreover have "lease_expired now no_lease" by (simp add: lease_expired_def no_lease_def)
  ultimately show ?thesis by (auto simp: clear_lease_alt [OF assms])
qed

text \<open>Whatever the outcome, adding a lease leaves no address and no client twice.\<close>

lemma add_lease_ok:
  assumes "leases_ok ls" and "length chaddr = 16"
  shows "leases_ok (snd (add_lease now ls chaddr yiaddr lease h))"
proof (cases "add_lease now ls chaddr yiaddr lease h")
  case (Pair r ls')
  let ?c = "clear_lease ls chaddr yiaddr"
  have c: "leases_ok ?c" by (rule clear_lease_ok [OF assms])
  show ?thesis
  proof (cases r)
    case None
    with Pair have "ls' = ?c" by (auto simp: add_lease_def Let_def split: option.splits)
    with Pair c show ?thesis by simp
  next
    case (Some i)
    note a = add_lease_Some [OF Pair [unfolded Some]]
    have "compatible (ls' ! i) (?c ! j)" if "j < length ?c" for j
      by (rule not_conflicting_compatible) (use clear_lease_not_conflicting [OF assms(2) nth_mem [OF that]] a in simp)
    then have "leases_ok (?c[i := ls' ! i])" using leases_ok_update [OF c, of "ls' ! i" i] a(4) assms(2) by simp
    with a(8) Pair show ?thesis by simp
  qed
qed

lemma clear_lease_nth:
  "length chaddr = 16 \<Longrightarrow> j < length ls \<Longrightarrow>
    clear_lease ls chaddr yiaddr ! j = (if conflicting chaddr yiaddr (ls ! j) then no_lease else ls ! j)"
  by (simp add: clear_lease_alt)

lemma clear_lease_id: "length chaddr = 16 \<Longrightarrow> \<forall>l\<in>set ls. \<not> conflicting chaddr yiaddr l \<Longrightarrow> clear_lease ls chaddr yiaddr = ls"
  by (simp add: clear_lease_alt map_idI)

lemma add_lease_finds:
  assumes "add_lease now ls chaddr yiaddr lease h = (Some i, ls')" and "length chaddr = 16"
  shows "yiaddr \<noteq> 0 \<Longrightarrow> find_lease_by_yiaddr ls' yiaddr = Some i"
    and "chaddr \<noteq> blank_chaddr \<Longrightarrow> find_lease_by_chaddr ls' chaddr = Some i"
proof -
  note a = add_lease_Some [OF assms(1)]
  have other: "\<not> conflicting chaddr yiaddr (ls' ! j)" if "j < length ls'" "j \<noteq> i" for j
  proof -
    have "clear_lease ls chaddr yiaddr ! j \<in> set (clear_lease ls chaddr yiaddr)" using that a(3) by simp
    from clear_lease_not_conflicting [OF assms(2) this] show ?thesis using a(7) [OF that(2)] by simp
  qed
  show "find_lease_by_yiaddr ls' yiaddr = Some i" if "yiaddr \<noteq> 0"
    unfolding find_lease_by_yiaddr_def
    by (rule index_of_unique) (use a(1,3,5) other that in \<open>auto simp: conflicting_def\<close>)
  show "find_lease_by_chaddr ls' chaddr = Some i" if "chaddr \<noteq> blank_chaddr"
    unfolding find_lease_by_chaddr_def
    by (rule index_of_unique) (use a(1,3,4) other that in \<open>auto simp: conflicting_def\<close>)
qed

text \<open>C25: \<^verbatim>\<open>add_lease\<close> fails exactly when no entry is expired and none belongs to the client or the address, and
  then the table is unchanged. Otherwise it overwrites an entry that was expired or conflicting; the client and
  the address are found at that entry afterwards, with the new expiry time, and of the other entries exactly the
  conflicting ones are cleared.\<close>

theorem add_lease_found:
  assumes "length chaddr = 16"
  shows "case add_lease now ls chaddr yiaddr lease h of
      (None, ls') \<Rightarrow> ls' = ls \<and> (\<forall>l\<in>set ls. \<not> lease_expired now l \<and> \<not> conflicting chaddr yiaddr l)
    | (Some i, ls') \<Rightarrow> i < length ls \<and> (lease_expired now (ls ! i) \<or> conflicting chaddr yiaddr (ls ! i)) \<and>
        l_chaddr (ls' ! i) = chaddr \<and> l_yiaddr (ls' ! i) = yiaddr \<and> l_expires (ls' ! i) = now + lease \<and>
        (yiaddr \<noteq> 0 \<longrightarrow> find_lease_by_yiaddr ls' yiaddr = Some i) \<and>
        (chaddr \<noteq> blank_chaddr \<longrightarrow> find_lease_by_chaddr ls' chaddr = Some i) \<and>
        (\<forall>j < length ls. j \<noteq> i \<longrightarrow> ls' ! j = (if conflicting chaddr yiaddr (ls ! j) then no_lease else ls ! j))"
proof (cases "add_lease now ls chaddr yiaddr lease h")
  case (Pair r ls')
  show ?thesis
  proof (cases r)
    case None
    have n: "\<forall>l\<in>set ls. \<not> lease_expired now l \<and> \<not> conflicting chaddr yiaddr l"
      using add_lease_None [OF assms, of now ls yiaddr lease h] Pair None by simp
    have "ls' = clear_lease ls chaddr yiaddr"
      using Pair None by (auto simp: add_lease_def Let_def split: option.splits)
    with n clear_lease_id [OF assms] show ?thesis using Pair None by auto
  next
    case (Some i)
    note a = add_lease_Some [OF Pair [unfolded Some]] and f = add_lease_finds [OF Pair [unfolded Some] assms]
    have "lease_expired now (ls ! i) \<or> conflicting chaddr yiaddr (ls ! i)"
      using a(1,2) clear_lease_nth [OF assms a(1), of yiaddr] by auto
    moreover have "\<forall>j < length ls. j \<noteq> i \<longrightarrow> ls' ! j = (if conflicting chaddr yiaddr (ls ! j) then no_lease else ls ! j)"
      using a(7) clear_lease_nth [OF assms, of _ ls yiaddr] by simp
    ultimately show ?thesis using a(1,4-6) f Pair Some by simp
  qed
qed

theorem add_lease_found_witness:
  "find_lease_by_yiaddr (snd (add_lease 100 [no_lease] (replicate 16 1) 7 60 None)) 7 = Some 0 \<and>
   add_lease 100 [no_lease\<lparr>l_expires := 200\<rparr>] (replicate 16 1) 7 60 None = (None, [no_lease\<lparr>l_expires := 200\<rparr>])"
  using add_lease_found [where chaddr = "replicate 16 1" and now = 100 and ls = "[no_lease]" and yiaddr = 7
      and lease = 60 and h = None]
    add_lease_found [where chaddr = "replicate 16 1" and now = 100 and ls = "[no_lease\<lparr>l_expires := 200\<rparr>]"
      and yiaddr = 7 and lease = 60 and h = None]
  by (simp add: lease_expired_def no_lease_def conflicting_def blank_chaddr_def split: prod.splits option.splits)

subsection \<open>The search for an address\<close>

lemma find_address_loop_spec:
  assumes "limit < 0xFFFFFFFF"
  shows "\<exists>r. find_address_loop ok limit addr = Some r \<and>
    (if \<exists>a. addr \<le> a \<and> a \<le> limit \<and> ok a
     then ok r \<and> addr \<le> r \<and> r \<le> limit \<and> (\<forall>a. addr \<le> a \<and> a < r \<longrightarrow> \<not> ok a) else r = 0)"
proof (induction "unat limit + 1 - unat addr" arbitrary: addr)
  case 0
  then have "\<not> addr \<le> limit" by (simp add: word_le_nat_alt)
  then show ?case by (subst find_address_loop.simps) (auto dest: order.trans)
next
  case (Suc n)
  show ?case
  proof (cases "addr \<le> limit")
    case False
    then show ?thesis by (subst find_address_loop.simps) (auto dest: order.trans)
  next
    case le: True
    show ?thesis
    proof (cases "ok addr")
      case True
      with le show ?thesis by (subst find_address_loop.simps) auto
    next
      case False
      have "addr < 0xFFFFFFFF" using le assms by simp
      then have "unat addr < 4294967295" by (simp add: word_less_nat_alt)
      then have u: "unat (addr + 1) = unat addr + 1" by (simp add: unat_word_ariths(1))
      then have "n = unat limit + 1 - unat (addr + 1)" using Suc(2) by linarith
      from Suc(1) [OF this] obtain r where r: "find_address_loop ok limit (addr + 1) = Some r"
        "if \<exists>a. addr + 1 \<le> a \<and> a \<le> limit \<and> ok a
          then ok r \<and> addr + 1 \<le> r \<and> r \<le> limit \<and> (\<forall>a. addr + 1 \<le> a \<and> a < r \<longrightarrow> \<not> ok a) else r = 0" by blast
      have step: "addr \<le> a \<longleftrightarrow> a = addr \<or> addr + 1 \<le> a" for a
        using u by (auto simp: word_le_nat_alt word_unat_eq_iff)
      show ?thesis using r le False by (subst find_address_loop.simps) (auto simp: step split: if_splits)
    qed
  qed
qed

text \<open>Without the bound on the range the loop may run forever, but what it returns is still right.\<close>

lemma find_address_loop_result: "find_address_loop ok limit addr = Some r \<Longrightarrow> r = 0 \<or> ok r \<and> r \<le> limit"
  by (rule find_address_loop.raw_induct [where P = "\<lambda>ok limit addr r. r = 0 \<or> ok r \<and> r \<le> limit"]) (auto split: if_splits)

text \<open>C28: With an address range that ends below 255.255.255.255 the search for an address ends: it returns the
  first assignable address of the range, or 0 when there is none. An assignable address has host bits that are
  neither all 0 nor all 1, is not reserved by a static lease, has no lease (or, on request, an expired one), and
  nobody answers for it on the network.\<close>

theorem find_address_first:
  assumes "sc_end cfg < 0xFFFFFFFF"
  shows "\<exists>r. find_address cfg arp now leases statics check_expired = Some r \<and>
    (let good = assignable cfg arp now leases statics check_expired in
     if \<exists>a. sc_start cfg \<le> a \<and> a \<le> sc_end cfg \<and> good a
     then good r \<and> r \<noteq> 0 \<and> sc_start cfg \<le> r \<and> r \<le> sc_end cfg \<and> (\<forall>a. sc_start cfg \<le> a \<and> a < r \<longrightarrow> \<not> good a)
     else r = 0)"
proof -
  have "\<not> assignable cfg arp now leases statics check_expired 0" by (simp add: assignable_def)
  with find_address_loop_spec [OF assms, of "assignable cfg arp now leases statics check_expired" "sc_start cfg"]
  show ?thesis unfolding find_address_def Let_def by metis
qed

definition example_config :: server_config_t where
  "example_config = \<lparr>sc_server = 0xC0A80001, sc_start = 0xC0A80014, sc_end = 0xC0A800FE, sc_options = [],
     sc_lease = 864000, sc_remaining = True, sc_decline_time = 3600, sc_offer_time = 60, sc_min_lease = 60,
     sc_siaddr = 0, sc_sname = None, sc_boot_file = None, sc_mask = 0xFF, sc_force_bcast = False\<rparr>"

theorem find_address_first_witness:
  "\<exists>r. find_address example_config (\<lambda>a. False) 100 [no_lease] [] False = Some r \<and> r \<noteq> 0"
proof -
  have "assignable example_config (\<lambda>a. False) 100 [no_lease] [] False 0xC0A80014"
    by (simp add: assignable_def example_config_def find_static_lease_by_yiaddr_def static_entries_def
        find_lease_by_yiaddr_def no_lease_def check_ip_def)
  moreover have "sc_start example_config \<le> 0xC0A80014" "(0xC0A80014::u32) \<le> sc_end example_config"
    by (simp_all add: example_config_def)
  ultimately have ex: "\<exists>a. sc_start example_config \<le> a \<and> a \<le> sc_end example_config \<and>
    assignable example_config (\<lambda>a. False) 100 [no_lease] [] False a" by blast
  have "sc_end example_config < 0xFFFFFFFF" by (simp add: example_config_def)
  from find_address_first [OF this, where arp = "\<lambda>a. False" and now = 100 and leases = "[no_lease]"
      and statics = "[]" and check_expired = False]
  show ?thesis unfolding Let_def if_P [OF ex] by blast
qed

end
