(* ===== verification/Dhcp_Lease_File.thy ===== *)
theory Dhcp_Lease_File
  imports Dhcp_Leases
begin

text \<open>
  The lease file: \<^verbatim>\<open>write_leases\<close> and \<^verbatim>\<open>read_leases\<close> of \<^verbatim>\<open>progs.gpl/udhcpcd/files.c\<close>, as functions between the
  two lease tables and the bytes of the file. Opening the file and the helper programs that are run after
  writing it are not modelled.
\<close>

definition lease_record :: "dhcpOfferedAddr \<Rightarrow> u32 \<Rightarrow> byte list" where
  "lease_record l lease_time = l_chaddr l @ be32 (l_yiaddr l) @ be32 lease_time @ be32 (l_ACKed l) @ l_hostname l"

definition lease_time_of :: "server_config_t \<Rightarrow> u32 \<Rightarrow> dhcpOfferedAddr \<Rightarrow> u32" where
  "lease_time_of cfg now l =
     (if sc_remaining cfg then (if lease_expired now l then 0 else l_expires l - now) else l_expires l)"

definition write_leases :: "server_config_t \<Rightarrow> u32 \<Rightarrow> dhcpOfferedAddr list \<Rightarrow> dhcpOfferedAddr list \<Rightarrow> byte list" where
  "write_leases cfg now leases statics =
     concat (map (\<lambda>l. if l_yiaddr l \<noteq> 0 \<and> l_ACKed l \<noteq> 0 then lease_record l (lease_time_of cfg now l) else []) leases) @
     concat (map (\<lambda>l. if l_ACKed l \<noteq> 0 then lease_record l (l_expires l) else []) (static_entries statics))"

text \<open>\<^verbatim>\<open>sizeof(struct dhcpOfferedAddr)\<close>: the 92 bytes of a record and the pointer \<^verbatim>\<open>options\<close> behind them.\<close>

definition sizeof_lease :: nat where "sizeof_lease = 96"

definition lease_of :: "byte list \<Rightarrow> dhcpOfferedAddr" where
  "lease_of b = \<lparr>l_chaddr = take 16 b, l_yiaddr = of_be32 (drop 16 b), l_expires = of_be32 (drop 20 b),
     l_ACKed = of_be32 (drop 24 b), l_hostname = take 64 (drop 28 b), l_options = []\<rparr>"

text \<open>The loop over the static leases: whether one of them has the client or the address, and the table in which
  it is marked as acknowledged when it has both.\<close>

fun match_static :: "dhcpOfferedAddr \<Rightarrow> dhcpOfferedAddr list \<Rightarrow> nat \<Rightarrow> bool \<times> dhcpOfferedAddr list" where
  "match_static lease [] n = (False, [])"
| "match_static lease (s # ss) n =
     (if n = 0 \<or> l_yiaddr s = 0 then (False, s # ss)
      else if l_chaddr lease = l_chaddr s \<and> l_yiaddr s = l_yiaddr lease then (True, s\<lparr>l_ACKed := 1\<rparr> # ss)
      else if l_chaddr lease = l_chaddr s \<or> l_yiaddr s = l_yiaddr lease then (True, s # ss)
      else map_prod id (Cons s) (match_static lease ss (n - 1)))"

text \<open>One turn of the loop: whether it goes on, how many leases were added, and the tables.\<close>

definition read_entry :: "server_config_t \<Rightarrow> u32 \<Rightarrow> dhcpOfferedAddr \<Rightarrow> dhcpOfferedAddr list \<Rightarrow> dhcpOfferedAddr list \<Rightarrow>
    bool \<times> nat \<times> dhcpOfferedAddr list \<times> dhcpOfferedAddr list" where
  "read_entry cfg now lease leases statics =
     (if sc_start cfg \<le> l_yiaddr lease \<and> l_yiaddr lease \<le> sc_end cfg \<and> l_ACKed lease \<noteq> 0 then
        (case match_static lease statics MAX_STATIC_LEASES of
           (True, statics') \<Rightarrow> (True, 0, leases, statics')
         | (False, _) \<Rightarrow>
             let e1 = (if sc_remaining cfg then l_expires lease else l_expires lease - now);
                 e2 = (if e1 = 0xFFFFFFFF then sc_lease cfg else e1) in
             (case add_lease now leases (l_chaddr lease) (l_yiaddr lease) e2
                 (Some (takeWhile (\<lambda>b. b \<noteq> 0) (l_hostname lease))) of
                (None, leases') \<Rightarrow> (False, 0, leases', statics)
              | (Some k, leases') \<Rightarrow> (True, 1, leases'[k := (leases' ! k)\<lparr>l_ACKed := 1\<rparr>], statics)))
      else (True, 0, leases, statics))"

function read_leases_loop :: "server_config_t \<Rightarrow> u32 \<Rightarrow> nat \<Rightarrow> byte list \<Rightarrow> dhcpOfferedAddr list \<Rightarrow> dhcpOfferedAddr list \<Rightarrow>
    dhcpOfferedAddr list \<times> dhcpOfferedAddr list" where
  "read_leases_loop cfg now i bytes leases statics =
     (if i < length leases \<and> sizeof_lease \<le> length bytes then
        (case read_entry cfg now (lease_of bytes) leases statics of (go, n, leases', statics') \<Rightarrow>
           if go then read_leases_loop cfg now (i + n) (drop sizeof_lease bytes) leases' statics' else (leases', statics'))
      else (leases, statics))"
  by pat_completeness auto
termination
  by (relation "measure (\<lambda>(cfg, now, i, bytes, leases, statics). length bytes)") (auto simp: sizeof_lease_def)

declare read_leases_loop.simps [simp del]

definition read_leases :: "server_config_t \<Rightarrow> u32 \<Rightarrow> byte list \<Rightarrow> dhcpOfferedAddr list \<Rightarrow> dhcpOfferedAddr list \<Rightarrow>
    dhcpOfferedAddr list \<times> dhcpOfferedAddr list" where
  "read_leases cfg now bytes leases statics = read_leases_loop cfg now 0 bytes leases statics"

subsection \<open>The table stays unique\<close>

lemma length_chaddr_lease_of: "sizeof_lease \<le> length file \<Longrightarrow> length (l_chaddr (lease_of file)) = 16"
  by (simp add: lease_of_def sizeof_lease_def)

lemma read_entry_ok:
  assumes "leases_ok leases" and "length (l_chaddr lease) = 16" and "read_entry cfg now lease leases statics = (go, n, ls, ss)"
  shows "leases_ok ls"
  using assms(3) add_lease_ok [OF assms(1,2)] leases_ok_ACK assms(1)
  by (simp add: read_entry_def Let_def split: if_splits prod.splits bool.splits option.splits) (metis snd_conv)+

text \<open>Whatever a lease file holds, reading it leaves no address and no client twice.\<close>

lemma read_leases_loop_ok: "leases_ok leases \<Longrightarrow> leases_ok (fst (read_leases_loop cfg now i bytes leases statics))"
proof (induction cfg now i bytes leases statics rule: read_leases_loop.induct)
  case (1 cfg now i bytes leases statics)
  show ?case
  proof (cases "i < length leases \<and> sizeof_lease \<le> length bytes")
    case False
    then show ?thesis using 1(2) by (subst read_leases_loop.simps) auto
  next
    case True
    obtain go n ls ss where e: "read_entry cfg now (lease_of bytes) leases statics = (go, n, ls, ss)" by (metis prod_cases4)
    have "leases_ok ls" using read_entry_ok [OF 1(2) length_chaddr_lease_of e] True by simp
    with 1(1) [OF True e [symmetric] refl refl] True e show ?thesis by (subst read_leases_loop.simps) auto
  qed
qed

subsection \<open>Records are written with 92 bytes and read with 96\<close>

definition written :: "server_config_t \<Rightarrow> u32 \<Rightarrow> dhcpOfferedAddr list \<Rightarrow> dhcpOfferedAddr list \<Rightarrow> (dhcpOfferedAddr \<times> u32) list" where
  "written cfg now leases statics =
     map (\<lambda>l. (l, lease_time_of cfg now l)) (filter (\<lambda>l. l_yiaddr l \<noteq> 0 \<and> l_ACKed l \<noteq> 0) leases) @
     map (\<lambda>l. (l, l_expires l)) (filter (\<lambda>l. l_ACKed l \<noteq> 0) (static_entries statics))"

definition record_ok :: "dhcpOfferedAddr \<Rightarrow> bool" where
  "record_ok l \<longleftrightarrow> length (l_chaddr l) = 16 \<and> length (l_hostname l) = 64"

lemma concat_map_filter: "concat (map (\<lambda>x. if P x then f x else []) xs) = concat (map f (filter P xs))"
  by (induction xs) auto

lemma write_leases_written:
  "write_leases cfg now leases statics = concat (map (\<lambda>(l, t). lease_record l t) (written cfg now leases statics))"
  by (simp add: write_leases_def written_def concat_map_filter o_def)

lemma length_lease_record: "record_ok l \<Longrightarrow> length (lease_record l t) = 92"
  by (simp add: record_ok_def lease_record_def be32_def)

lemma length_records:
  "\<forall>(l, t) \<in> set ws. record_ok l \<Longrightarrow> length (concat (map (\<lambda>(l, t). lease_record l t) ws)) = 92 * length ws"
  by (induction ws) (auto simp: length_lease_record)

lemma lease_of_record:
  assumes "record_ok l"
  shows "lease_of (lease_record l t @ r) = l\<lparr>l_expires := t, l_options := []\<rparr>"
proof -
  have be: "of_be32 (be32 w @ x) = w" for w x
    using of_be32_be32 [of w] by (simp add: of_be32_def be32_def)
  have "lease_of (l_chaddr l @ be32 (l_yiaddr l) @ be32 t @ be32 (l_ACKed l) @ l_hostname l @ r) =
      l\<lparr>l_expires := t, l_options := []\<rparr>"
    using assms be [of "l_yiaddr l"] be [of t] be [of "l_ACKed l"]
    by (simp add: lease_of_def record_ok_def length_be32)
  then show ?thesis by (simp add: lease_record_def)
qed

lemma lease_of_second:
  assumes "record_ok l" and "record_ok l'"
  shows "l_chaddr (lease_of (drop 96 (lease_record l t @ lease_record l' t' @ r))) = drop 4 (l_chaddr l') @ be32 (l_yiaddr l')"
  using assms by (simp add: lease_of_def length_lease_record)
    (simp add: lease_record_def record_ok_def length_be32)

text \<open>C39: The lease file cannot be read back. Every lease in use is written with 92 bytes, but the reader takes 96
  for each, the size of the structure since it has a pointer to options. A file with a single lease is ignored
  altogether. With several, the first lease is read correctly, and the record taken for the second starts four bytes
  too late: what is read as its hardware address is the end of the real one followed by the IP address.\<close>

theorem lease_file_misread:
  assumes "\<forall>(l, t) \<in> set (written cfg now leases statics). record_ok l"
  shows "length (write_leases cfg now leases statics) = 92 * length (written cfg now leases statics) \<and>
    (length (written cfg now leases statics) = 1 \<longrightarrow>
       read_leases cfg' now' (write_leases cfg now leases statics) ls ss = (ls, ss)) \<and>
    (\<forall>l t l' t' ws. written cfg now leases statics = (l, t) # (l', t') # ws \<longrightarrow>
       lease_of (write_leases cfg now leases statics) = l\<lparr>l_expires := t, l_options := []\<rparr> \<and>
       l_chaddr (lease_of (drop sizeof_lease (write_leases cfg now leases statics))) = drop 4 (l_chaddr l') @ be32 (l_yiaddr l'))"
proof (intro conjI impI allI)
  show len: "length (write_leases cfg now leases statics) = 92 * length (written cfg now leases statics)"
    unfolding write_leases_written by (rule length_records [OF assms])
  show "read_leases cfg' now' (write_leases cfg now leases statics) ls ss = (ls, ss)"
    if "length (written cfg now leases statics) = 1"
    using len that unfolding read_leases_def by (subst read_leases_loop.simps) (simp add: sizeof_lease_def)
  fix l t l' t' ws
  assume w: "written cfg now leases statics = (l, t) # (l', t') # ws"
  with assms have ok: "record_ok l" "record_ok l'" by auto
  let ?r = "concat (map (\<lambda>(l, t). lease_record l t) ws)"
  have f: "write_leases cfg now leases statics = lease_record l t @ lease_record l' t' @ ?r"
    by (simp add: write_leases_written w)
  show "lease_of (write_leases cfg now leases statics) = l\<lparr>l_expires := t, l_options := []\<rparr>"
    unfolding f by (rule lease_of_record [OF ok(1)])
  show "l_chaddr (lease_of (drop sizeof_lease (write_leases cfg now leases statics))) = drop 4 (l_chaddr l') @ be32 (l_yiaddr l')"
    unfolding f sizeof_lease_def by (rule lease_of_second [OF ok])
qed

definition example_lease :: dhcpOfferedAddr where
  "example_lease = no_lease\<lparr>l_chaddr := replicate 16 1, l_yiaddr := 0xC0A80014, l_expires := 5000, l_ACKed := 1\<rparr>"

theorem lease_file_misread_witness:
  "read_leases example_config 0 (write_leases example_config 100 [example_lease] []) [no_lease] [] = ([no_lease], [])"
  using lease_file_misread [where cfg = example_config and now = 100 and leases = "[example_lease]" and statics = "[]"
      and cfg' = example_config and now' = 0 and ls = "[no_lease]" and ss = "[]"]
  by (simp add: written_def example_lease_def static_entries_def record_ok_def no_lease_def)

end
