(* ===== verification/Dhcp_Server.thy ===== *)
theory Dhcp_Server
  imports Dhcp_Packet Dhcp_Lease_File
begin

text \<open>
  The DHCP server: the replies of \<^verbatim>\<open>progs.gpl/udhcpcd/serverpacket.c\<close> and the treatment of one message in
  \<^verbatim>\<open>progs.gpl/udhcpcd/dhcpd.c\<close>. The state is the two lease tables and the lease file. What the environment
  answers is given by three arguments: the uptime, who answers an ARP request (\<open>arp\<close>), and what the call that
  sends a packet returns (\<open>tx\<close>). An operation returns its result, the new state and the packets it sent, or
  \<open>None\<close> when it leaves the memory of a message or does not return. Log messages are left out.
\<close>

definition DHCP_REQUESTED_IP :: byte where "DHCP_REQUESTED_IP = 0x32"
definition DHCP_LEASE_TIME :: byte where "DHCP_LEASE_TIME = 0x33"
definition DHCP_SERVER_ID :: byte where "DHCP_SERVER_ID = 0x36"
definition DHCP_HOST_NAME :: byte where "DHCP_HOST_NAME = 0x0c"
definition INADDR_BROADCAST :: u32 where "INADDR_BROADCAST = 0xFFFFFFFF"

record server =
  s_leases :: "dhcpOfferedAddr list"
  s_static :: "dhcpOfferedAddr list"
  s_file :: "byte list"

text \<open>Where a packet goes: through the kernel to a relay agent, or as a raw packet to an IP and hardware address.\<close>

datatype destination = To_relay u32 | To_client u32 "byte list"

type_synonym sent = "destination \<times> dhcpMessage"
type_synonym transmit = "destination \<Rightarrow> dhcpMessage \<Rightarrow> int"

definition send_packet_to_client :: "server_config_t \<Rightarrow> dhcpMessage \<Rightarrow> bool \<Rightarrow> destination" where
  "send_packet_to_client cfg payload force_broadcast =
     (if force_broadcast \<or> sc_force_bcast cfg then To_client INADDR_BROADCAST (replicate 6 0xFF)
      else if m_flags payload AND 0x8000 \<noteq> 0 then To_client INADDR_BROADCAST (replicate 6 0xFF)
      else if m_ciaddr payload \<noteq> 0 then To_client (m_ciaddr payload) (take 6 (m_chaddr payload))
      else To_client (m_yiaddr payload) (take 6 (m_chaddr payload)))"

definition send_packet :: "server_config_t \<Rightarrow> dhcpMessage \<Rightarrow> bool \<Rightarrow> destination" where
  "send_packet cfg payload force_broadcast =
     (if m_giaddr payload \<noteq> 0 then To_relay (m_giaddr payload) else send_packet_to_client cfg payload force_broadcast)"

definition init_packet :: "server_config_t \<Rightarrow> dhcpMessage \<Rightarrow> byte \<Rightarrow> dhcpMessage option" where
  "init_packet cfg oldpacket type = do {
     p \<leftarrow> init_header type;
     (_, opts) \<leftarrow> add_simple_option (m_options p) DHCP_SERVER_ID (sc_server cfg);
     Some (p\<lparr>m_xid := m_xid oldpacket, m_chaddr := m_chaddr oldpacket, m_flags := m_flags oldpacket,
       m_giaddr := m_giaddr oldpacket, m_ciaddr := m_ciaddr oldpacket, m_options := opts\<rparr>) }"

definition add_bootp_options :: "server_config_t \<Rightarrow> dhcpMessage \<Rightarrow> dhcpMessage" where
  "add_bootp_options cfg p = p\<lparr>m_siaddr := sc_siaddr cfg,
     m_sname := (case sc_sname cfg of None \<Rightarrow> m_sname p | Some s \<Rightarrow> strncpy_bytes 63 s @ drop 63 (m_sname p)),
     m_file := (case sc_boot_file cfg of None \<Rightarrow> m_file p | Some s \<Rightarrow> strncpy_bytes 127 s @ drop 127 (m_file p))\<rparr>"

text \<open>The loop that adds the configured options, the lease time aside.\<close>

fun add_configured :: "byte list \<Rightarrow> byte list list \<Rightarrow> byte list option" where
  "add_configured opts [] = Some opts"
| "add_configured opts (d # ds) = do {
     c \<leftarrow> rd d 0;
     if c \<noteq> DHCP_LEASE_TIME then do { (_, opts') \<leftarrow> add_option_string opts d; add_configured opts' ds }
     else add_configured opts ds }"

text \<open>The four bytes at an option, and the host name as the C string the code builds from the option.\<close>

definition u32_at :: "dhcpMessage \<Rightarrow> nat \<Rightarrow> u32 option" where
  "u32_at p k = (if k + 4 \<le> length (packet_mem p) then Some (of_be32 (drop k (packet_mem p))) else None)"

definition option_u32 :: "dhcpMessage \<Rightarrow> byte \<Rightarrow> u32 option option" where
  "option_u32 p code = do {
     r \<leftarrow> get_option p code;
     case r of None \<Rightarrow> Some None | Some k \<Rightarrow> map_option Some (u32_at p k) }"

definition host_name :: "dhcpMessage \<Rightarrow> byte list option option" where
  "host_name p = do {
     r \<leftarrow> get_option p DHCP_HOST_NAME;
     case r of None \<Rightarrow> Some None
     | Some k \<Rightarrow> do {
         n \<leftarrow> rd (packet_mem p) (k - 1);
         if k + unat n \<le> length (packet_mem p)
         then Some (Some (takeWhile (\<lambda>b. b \<noteq> 0) (take (unat n) (drop k (packet_mem p))))) else None } }"

subsection \<open>Replies\<close>

text \<open>The common end of an offer and an acknowledgement: lease time, configured and boot options.\<close>

definition finish_packet :: "server_config_t \<Rightarrow> dhcpMessage \<Rightarrow> u32 \<Rightarrow> byte list list \<Rightarrow> dhcpMessage option" where
  "finish_packet cfg p lease_time ds = do {
     (_, o1) \<leftarrow> add_simple_option (m_options p) DHCP_LEASE_TIME lease_time;
     o2 \<leftarrow> add_configured o1 ds;
     Some (add_bootp_options cfg (p\<lparr>m_options := o2\<rparr>)) }"

text \<open>The address a client without a static lease is offered, 0 for none, and the lease time from its entry.\<close>

definition offer_address :: "server_config_t \<Rightarrow> (u32 \<Rightarrow> bool) \<Rightarrow> u32 \<Rightarrow> server \<Rightarrow> dhcpMessage \<Rightarrow> (u32 \<times> u32) option" where
  "offer_address cfg arp now st oldpacket = do {
     (addr, lease_time) \<leftarrow>
       (case find_lease_by_chaddr (s_leases st) (m_chaddr oldpacket) of
          Some i \<Rightarrow> let l = s_leases st ! i in
            Some (l_yiaddr l, if \<not> lease_expired now l then l_expires l - now else sc_lease cfg)
        | None \<Rightarrow> do {
            req \<leftarrow> option_u32 oldpacket DHCP_REQUESTED_IP;
            Some (case req of None \<Rightarrow> 0
              | Some r \<Rightarrow>
                  if sc_start cfg \<le> r \<and> r \<le> sc_end cfg \<and> find_static_lease_by_yiaddr (s_static st) r = None \<and>
                     (case find_lease_by_yiaddr (s_leases st) r of None \<Rightarrow> True | Some i \<Rightarrow> lease_expired now (s_leases st ! i))
                  then r else 0, sc_lease cfg) });
     if addr \<noteq> 0 then Some (addr, lease_time)
     else do {
       a0 \<leftarrow> find_address cfg arp now (s_leases st) (s_static st) False;
       if a0 \<noteq> 0 then Some (a0, lease_time)
       else do { a1 \<leftarrow> find_address cfg arp now (s_leases st) (s_static st) True; Some (a1, lease_time) } } }"

definition offer_lease_time :: "server_config_t \<Rightarrow> u32 option \<Rightarrow> u32 \<Rightarrow> u32" where
  "offer_lease_time cfg req lease_time = (let
     t = (case req of None \<Rightarrow> lease_time | Some r \<Rightarrow> if r > sc_lease cfg then sc_lease cfg else r)
   in if t \<le> sc_min_lease cfg then sc_lease cfg else t)"

definition sendOffer :: "server_config_t \<Rightarrow> (u32 \<Rightarrow> bool) \<Rightarrow> transmit \<Rightarrow> u32 \<Rightarrow> server \<Rightarrow> dhcpMessage \<Rightarrow>
    (int \<times> server \<times> sent list) option" where
  "sendOffer cfg arp tx now st oldpacket = do {
     p \<leftarrow> init_packet cfg oldpacket DHCPOFFER;
     case find_static_lease_by_chaddr (s_static st) (m_chaddr oldpacket) of
       Some i \<Rightarrow> do {
         q \<leftarrow> finish_packet cfg (p\<lparr>m_yiaddr := l_yiaddr (s_static st ! i)\<rparr>) 0xFFFFFFFF (l_options (s_static st ! i));
         let d = send_packet cfg q False in Some (tx d q, st, [(d, q)]) }
     | None \<Rightarrow> do {
         (addr, lease_time) \<leftarrow> offer_address cfg arp now st oldpacket;
         if addr = 0 then Some (-1, st, [])
         else do {
           h \<leftarrow> host_name oldpacket;
           case add_lease now (s_leases st) (m_chaddr p) addr (sc_offer_time cfg) h of
             (None, ls) \<Rightarrow> Some (-1, st\<lparr>s_leases := ls\<rparr>, [])
           | (Some k, ls) \<Rightarrow> do {
               req \<leftarrow> option_u32 oldpacket DHCP_LEASE_TIME;
               q \<leftarrow> finish_packet cfg (p\<lparr>m_yiaddr := addr\<rparr>) (offer_lease_time cfg req lease_time) (sc_options cfg);
               let d = send_packet cfg q False in Some (tx d q, st\<lparr>s_leases := ls\<rparr>, [(d, q)]) } } } }"

definition sendNAK :: "server_config_t \<Rightarrow> server \<Rightarrow> dhcpMessage \<Rightarrow> (server \<times> sent list) option" where
  "sendNAK cfg st oldpacket = do {
     p \<leftarrow> init_packet cfg oldpacket DHCPNAK;
     Some (st, [(send_packet cfg p True, p)]) }"

definition ack_lease_time :: "server_config_t \<Rightarrow> u32 option \<Rightarrow> u32" where
  "ack_lease_time cfg req = (case req of None \<Rightarrow> sc_lease cfg
     | Some r \<Rightarrow> if r \<noteq> 0xFFFFFFFF \<and> r > sc_lease cfg then sc_lease cfg
                 else if r < sc_min_lease cfg then sc_lease cfg else r)"

text \<open>\<^verbatim>\<open>if ((Offered = add_lease(...))) Offered->ACKed = 1\<close>\<close>

definition add_acked_lease :: "u32 \<Rightarrow> dhcpOfferedAddr list \<Rightarrow> byte list \<Rightarrow> u32 \<Rightarrow> u32 \<Rightarrow> byte list option \<Rightarrow>
    dhcpOfferedAddr list" where
  "add_acked_lease now leases chaddr yiaddr t h = (case add_lease now leases chaddr yiaddr t h of
     (None, ls) \<Rightarrow> ls | (Some k, ls) \<Rightarrow> ls[k := (ls ! k)\<lparr>l_ACKed := 1\<rparr>])"

definition sendACK :: "server_config_t \<Rightarrow> transmit \<Rightarrow> u32 \<Rightarrow> server \<Rightarrow> dhcpMessage \<Rightarrow> u32 \<Rightarrow>
    (server \<times> sent list) option" where
  "sendACK cfg tx now st oldpacket yiaddr = do {
     p \<leftarrow> init_packet cfg oldpacket DHCPACK;
     case find_static_lease_by_chaddr (s_static st) (m_chaddr oldpacket) of
       Some i \<Rightarrow> do {
         q \<leftarrow> finish_packet cfg (p\<lparr>m_yiaddr := yiaddr\<rparr>) 0xFFFFFFFF (l_options (s_static st ! i));
         h \<leftarrow> host_name oldpacket;
         let d = send_packet cfg q False in
         Some (if tx d q < 0 then st
           else st\<lparr>s_static := (s_static st)[i := set_hostname h ((s_static st ! i)\<lparr>l_ACKed := 1\<rparr>)]\<rparr>, [(d, q)]) }
     | None \<Rightarrow> do {
         req \<leftarrow> option_u32 oldpacket DHCP_LEASE_TIME;
         let t = ack_lease_time cfg req in do {
         q \<leftarrow> finish_packet cfg (p\<lparr>m_yiaddr := yiaddr\<rparr>) t (sc_options cfg);
         h \<leftarrow> host_name oldpacket;
         let d = send_packet cfg q False in
         Some (if tx d q < 0 then st
           else let ls = add_acked_lease now (s_leases st) (m_chaddr q) yiaddr t h in st\<lparr>s_leases := ls, s_file := write_leases cfg now ls (s_static st)\<rparr>, [(d, q)]) } } }"

definition send_inform :: "server_config_t \<Rightarrow> server \<Rightarrow> dhcpMessage \<Rightarrow> (server \<times> sent list) option" where
  "send_inform cfg st oldpacket = do {
     p \<leftarrow> init_packet cfg oldpacket DHCPACK;
     opts \<leftarrow> add_configured (m_options p) (sc_options cfg);
     let q = add_bootp_options cfg (p\<lparr>m_options := opts\<rparr>) in
     Some (st, [(send_packet cfg q False, q)]) }"

subsection \<open>One message\<close>

definition valid_ip :: "server_config_t \<Rightarrow> u32 \<Rightarrow> bool" where
  "valid_ip cfg ipaddr \<longleftrightarrow> \<not> (ipaddr < sc_start cfg \<or> ipaddr > sc_end cfg) \<and> ipaddr AND 0xFF \<noteq> 0 \<and>
     ipaddr AND 0xFF \<noteq> 0xFF \<and> ipaddr \<noteq> sc_server cfg"

text \<open>A pointer to a lease: into one of the two tables.\<close>

datatype lease_ptr = Static nat | Dynamic nat

definition lookup_client :: "server \<Rightarrow> byte list \<Rightarrow> lease_ptr option" where
  "lookup_client st chaddr = (case find_static_lease_by_chaddr (s_static st) chaddr of
       Some i \<Rightarrow> Some (Static i)
     | None \<Rightarrow> map_option Dynamic (find_lease_by_chaddr (s_leases st) chaddr))"

fun lease_at :: "server \<Rightarrow> lease_ptr \<Rightarrow> dhcpOfferedAddr" where
  "lease_at st (Static i) = s_static st ! i"
| "lease_at st (Dynamic i) = s_leases st ! i"

definition handle_request :: "server_config_t \<Rightarrow> (u32 \<Rightarrow> bool) \<Rightarrow> transmit \<Rightarrow> u32 \<Rightarrow> server \<Rightarrow> dhcpMessage \<Rightarrow>
    (server \<times> sent list) option" where
  "handle_request cfg arp tx now st packet = do {
     requested \<leftarrow> option_u32 packet DHCP_REQUESTED_IP;
     server_id \<leftarrow> option_u32 packet DHCP_SERVER_ID;
     case lookup_client st (m_chaddr packet) of
       Some lp \<Rightarrow> (let y = l_yiaddr (lease_at st lp) in
         case server_id of
           Some sid \<Rightarrow> if sid = sc_server cfg \<and> requested = Some y then sendACK cfg tx now st packet y else Some (st, [])
         | None \<Rightarrow> (case requested of
             Some r \<Rightarrow> if y = r then sendACK cfg tx now st packet y else sendNAK cfg st packet
           | None \<Rightarrow> if y = m_ciaddr packet then sendACK cfg tx now st packet y else sendNAK cfg st packet))
     | None \<Rightarrow> (case server_id of
         Some sid \<Rightarrow> Some (st, [])
       | None \<Rightarrow> (case requested of
           Some r \<Rightarrow> (case find_lease_by_yiaddr (s_leases st) r of
               Some i \<Rightarrow> if lease_expired now (s_leases st ! i)
                 then Some (st\<lparr>s_leases := (s_leases st)[i := (s_leases st ! i)\<lparr>l_chaddr := blank_chaddr\<rparr>]\<rparr>, [])
                 else sendNAK cfg st packet
             | None \<Rightarrow> if valid_ip cfg r \<and> \<not> check_ip arp r then sendACK cfg tx now st packet r else sendNAK cfg st packet)
         | None \<Rightarrow> if m_ciaddr packet \<noteq> 0 \<and> valid_ip cfg (m_ciaddr packet)
             then sendACK cfg tx now st packet (m_ciaddr packet) else sendNAK cfg st packet)) }"

definition handle_decline :: "server_config_t \<Rightarrow> u32 \<Rightarrow> server \<Rightarrow> dhcpMessage \<Rightarrow> server" where
  "handle_decline cfg now st packet = (case lookup_client st (m_chaddr packet) of
       Some (Dynamic i) \<Rightarrow> st\<lparr>s_leases := (s_leases st)[i := (s_leases st ! i)\<lparr>l_chaddr := blank_chaddr,
         l_expires := now + sc_decline_time cfg\<rparr>]\<rparr>
     | _ \<Rightarrow> st)"

definition handle_release :: "server_config_t \<Rightarrow> u32 \<Rightarrow> server \<Rightarrow> dhcpMessage \<Rightarrow> server" where
  "handle_release cfg now st packet = (case lookup_client st (m_chaddr packet) of
       Some (Dynamic i) \<Rightarrow> (let ls = (s_leases st)[i := (s_leases st ! i)\<lparr>l_expires := now\<rparr>] in
         st\<lparr>s_leases := ls, s_file := write_leases cfg now ls (s_static st)\<rparr>)
     | Some (Static i) \<Rightarrow> (let ss = (s_static st)[i := (s_static st ! i)\<lparr>l_ACKed := 0\<rparr>] in
         st\<lparr>s_static := ss, s_file := write_leases cfg now (s_leases st) ss\<rparr>)
     | None \<Rightarrow> st)"

definition handle_message :: "server_config_t \<Rightarrow> (u32 \<Rightarrow> bool) \<Rightarrow> transmit \<Rightarrow> u32 \<Rightarrow> server \<Rightarrow> dhcpMessage \<Rightarrow>
    (server \<times> sent list) option" where
  "handle_message cfg arp tx now st packet = do {
     state \<leftarrow> get_option packet DHCP_MESSAGE_TYPE;
     case state of None \<Rightarrow> Some (st, [])
     | Some k \<Rightarrow> do {
         type \<leftarrow> rd (packet_mem packet) k;
         if type = DHCPDISCOVER then map_option snd (sendOffer cfg arp tx now st packet)
         else if type = DHCPREQUEST then handle_request cfg arp tx now st packet
         else if type = DHCPDECLINE then Some (handle_decline cfg now st packet, [])
         else if type = DHCPRELEASE then Some (handle_release cfg now st packet, [])
         else if type = DHCPINFORM then send_inform cfg st packet
         else Some (st, []) } }"

subsection \<open>Option fields under construction\<close>

definition opts_enc :: "byte list \<Rightarrow> (byte \<times> byte list) list \<Rightarrow> bool" where
  "opts_enc opts os \<longleftrightarrow> length opts = 308 \<and> list_all plain_option os \<and> (\<exists>rest. opts = enc os @ DHCP_END # rest)"

definition option_string_ok :: "byte list \<Rightarrow> bool" where
  "option_string_ok d \<longleftrightarrow> (\<exists>c x. d = tlv (c, x) \<and> plain_option (c, x))"

lemma opts_enc_add:
  assumes "opts_enc opts os" and "plain_option (c, d)"
  shows "\<exists>n opts'. add_option_string opts (tlv (c, d)) = Some (n, opts') \<and>
    opts_enc opts' (if length (enc os) + length d + 3 \<ge> 308 then os else os @ [(c, d)])"
proof -
  obtain rest where o: "length opts = 308" "opts = enc os @ DHCP_END # rest" "list_all plain_option os"
    using assms(1) by (auto simp: opts_enc_def)
  have d: "length d \<le> 255" using assms(2) by simp
  note add = add_option_string_enc [OF o d, of c]
  show ?thesis
  proof (cases "length (enc os) + length d + 3 \<ge> 308")
    case True
    with add assms(1) show ?thesis by simp
  next
    case False
    have "length rest = 307 - length (enc os)" using o(1,2) by simp
    with False have "length (enc (os @ [(c, d)]) @ DHCP_END # drop (length d + 2) rest) = 308" by simp
    with False add o(3) assms(2) show ?thesis by (auto simp: opts_enc_def)
  qed
qed

lemma add_configured_enc:
  assumes "\<forall>d\<in>set ds. option_string_ok d" and "opts_enc opts os"
  shows "\<exists>opts' os'. add_configured opts ds = Some opts' \<and> opts_enc opts' (os @ os')"
  using assms
proof (induction ds arbitrary: opts os)
  case Nil
  then show ?case by (auto intro: exI [of _ "[]"])
next
  case (Cons d ds)
  obtain c x where d: "d = tlv (c, x)" "plain_option (c, x)" using Cons.prems(1) by (auto simp: option_string_ok_def)
  have ds: "\<forall>d\<in>set ds. option_string_ok d" using Cons.prems(1) by simp
  obtain n o1 where a: "add_option_string opts (tlv (c, x)) = Some (n, o1)"
    and o1: "opts_enc o1 (if length (enc os) + length x + 3 \<ge> 308 then os else os @ [(c, x)])"
    using opts_enc_add [OF Cons.prems(2) d(2)] by blast
  obtain o2 os2 where o2: "add_configured o1 ds = Some o2"
    "opts_enc o2 ((if length (enc os) + length x + 3 \<ge> 308 then os else os @ [(c, x)]) @ os2)"
    using Cons.IH [OF ds o1] by blast
  obtain o3 os3 where o3: "add_configured opts ds = Some o3" "opts_enc o3 (os @ os3)"
    using Cons.IH [OF ds Cons.prems(2)] by blast
  show ?case
  proof (cases "c = DHCP_LEASE_TIME")
    case True
    with o3 d show ?thesis by auto
  next
    case False
    then have "add_configured opts (d # ds) = Some o2" using a o2(1) d by simp
    moreover have "\<exists>os'. opts_enc o2 (os @ os')" using o2(2) by (auto split: if_splits)
    ultimately show ?thesis by blast
  qed
qed

lemma ucast_byte_u32 [simp]: "ucast (ucast (t :: byte) :: u32) = t"
  by (rule bit_word_eqI) (simp add: bit_simps)

lemma add_simple_option_tlv:
  "add_simple_option opts DHCP_MESSAGE_TYPE (ucast t) = add_option_string opts (tlv (DHCP_MESSAGE_TYPE, [t]))"
  "add_simple_option opts DHCP_SERVER_ID v = add_option_string opts (tlv (DHCP_SERVER_ID, be32 v))"
  "add_simple_option opts DHCP_LEASE_TIME v = add_option_string opts (tlv (DHCP_LEASE_TIME, be32 v))"
  by (simp_all add: add_simple_option_def options_table_def DHCP_MESSAGE_TYPE_def DHCP_SERVER_ID_def DHCP_LEASE_TIME_def
      Let_def length_be32)

lemma plain_fixed:
  "plain_option (DHCP_MESSAGE_TYPE, [t])" "plain_option (DHCP_SERVER_ID, be32 v)" "plain_option (DHCP_LEASE_TIME, be32 v)"
  by (simp_all add: plain_code_def DHCP_MESSAGE_TYPE_def DHCP_SERVER_ID_def DHCP_LEASE_TIME_def DHCP_PADDING_def
      DHCP_OPTION_OVER_def DHCP_END_def)

text \<open>What every reply has in common: it answers the message, and its first two options are its type and the server.\<close>

definition header_options :: "server_config_t \<Rightarrow> byte \<Rightarrow> (byte \<times> byte list) list" where
  "header_options cfg t = [(DHCP_MESSAGE_TYPE, [t]), (DHCP_SERVER_ID, be32 (sc_server cfg))]"

definition reply_to :: "server_config_t \<Rightarrow> dhcpMessage \<Rightarrow> byte \<Rightarrow> (byte \<times> byte list) list \<Rightarrow> dhcpMessage \<Rightarrow> bool" where
  "reply_to cfg old t os q \<longleftrightarrow> message_ok q \<and> m_op q = BOOTREPLY \<and> m_cookie q = DHCP_MAGIC \<and>
     m_xid q = m_xid old \<and> m_chaddr q = m_chaddr old \<and> m_giaddr q = m_giaddr old \<and> m_ciaddr q = m_ciaddr old \<and>
     m_flags q = m_flags old \<and> opts_enc (m_options q) (header_options cfg t @ os)"

lemma init_header_opts:
  "\<exists>opts. init_header t = Some (blank_message\<lparr>m_op := (if t \<in> {DHCPDISCOVER, DHCPREQUEST, DHCPRELEASE, DHCPINFORM, DHCPDECLINE}
        then BOOTREQUEST else if t \<in> {DHCPOFFER, DHCPACK, DHCPNAK} then BOOTREPLY else 0), m_htype := 1, m_hlen := 6,
      m_cookie := DHCP_MAGIC, m_options := opts\<rparr>) \<and> opts_enc opts [(DHCP_MESSAGE_TYPE, [t])]"
proof -
  let ?o = "(replicate 308 0)[0 := DHCP_END]"
  have "?o = enc [] @ DHCP_END # replicate 307 0" by (simp add: numeral_eq_Suc)
  then have "opts_enc ?o []" unfolding opts_enc_def by (intro conjI exI) simp_all
  from opts_enc_add [OF this plain_fixed(1) [of t]] obtain n opts where
    "add_option_string ?o (tlv (DHCP_MESSAGE_TYPE, [t])) = Some (n, opts)" "opts_enc opts [(DHCP_MESSAGE_TYPE, [t])]"
    by auto
  then show ?thesis by (simp add: init_header_def Let_def add_simple_option_tlv blank_message_def del: tlv.simps)
qed

lemma init_header_enc:
  assumes "t \<in> {DHCPOFFER, DHCPACK, DHCPNAK}"
  shows "\<exists>opts. init_header t = Some (blank_message\<lparr>m_op := BOOTREPLY, m_htype := 1, m_hlen := 6, m_cookie := DHCP_MAGIC,
      m_options := opts\<rparr>) \<and> opts_enc opts [(DHCP_MESSAGE_TYPE, [t])]"
proof -
  have "t \<notin> {DHCPDISCOVER, DHCPREQUEST, DHCPRELEASE, DHCPINFORM, DHCPDECLINE}" using assms by (auto simp: message_types)
  with init_header_opts [of t] assms show ?thesis by simp
qed

lemma init_packet_reply:
  assumes "t \<in> {DHCPOFFER, DHCPACK, DHCPNAK}" and "message_ok old"
  shows "\<exists>p. init_packet cfg old t = Some p \<and> reply_to cfg old t [] p"
proof -
  obtain opts where h: "init_header t = Some (blank_message\<lparr>m_op := BOOTREPLY, m_htype := 1, m_hlen := 6,
      m_cookie := DHCP_MAGIC, m_options := opts\<rparr>)" and o: "opts_enc opts [(DHCP_MESSAGE_TYPE, [t])]"
    using init_header_enc [OF assms(1)] by blast
  from opts_enc_add [OF o plain_fixed(2) [of "sc_server cfg"]] obtain n o2 where
    "add_option_string opts (tlv (DHCP_SERVER_ID, be32 (sc_server cfg))) = Some (n, o2)" "opts_enc o2 (header_options cfg t)"
    by (auto simp: header_options_def)
  then show ?thesis
    using h assms(2)
    by (simp add: init_packet_def add_simple_option_tlv reply_to_def message_ok_def packet_ok_def blank_message_def
        opts_enc_def del: tlv.simps)
qed

lemma add_bootp_reply: "reply_to cfg old t os q \<Longrightarrow> reply_to cfg old t os (add_bootp_options cfg q)"
  by (auto simp: reply_to_def add_bootp_options_def message_ok_def packet_ok_def strncpy_bytes_def split: option.splits)

lemma finish_packet_reply:
  assumes "reply_to cfg old t [] p" and "\<forall>d\<in>set ds. option_string_ok d"
  shows "\<exists>q os. finish_packet cfg (p\<lparr>m_yiaddr := y\<rparr>) lt ds = Some q \<and>
    reply_to cfg old t ((DHCP_LEASE_TIME, be32 lt) # os) q \<and> m_yiaddr q = y"
proof -
  have "opts_enc (m_options p) (header_options cfg t)" using assms(1) by (simp add: reply_to_def)
  from opts_enc_add [OF this plain_fixed(3) [of lt]] obtain n o1 where
    a: "add_option_string (m_options p) (tlv (DHCP_LEASE_TIME, be32 lt)) = Some (n, o1)"
    and o1: "opts_enc o1 (header_options cfg t @ [(DHCP_LEASE_TIME, be32 lt)])"
    by (auto simp: header_options_def)
  obtain o2 os where b: "add_configured o1 ds = Some o2"
    and o2: "opts_enc o2 ((header_options cfg t @ [(DHCP_LEASE_TIME, be32 lt)]) @ os)"
    using add_configured_enc [OF assms(2) o1] by blast
  let ?q = "add_bootp_options cfg (p\<lparr>m_yiaddr := y, m_options := o2\<rparr>)"
  have "finish_packet cfg (p\<lparr>m_yiaddr := y\<rparr>) lt ds = Some ?q"
    using a b by (simp add: finish_packet_def add_simple_option_tlv del: tlv.simps)
  moreover have "reply_to cfg old t ((DHCP_LEASE_TIME, be32 lt) # os) ?q"
    by (rule add_bootp_reply) (use assms(1) o2 in \<open>auto simp: reply_to_def message_ok_def packet_ok_def opts_enc_def\<close>)
  moreover have "m_yiaddr ?q = y" by (simp add: add_bootp_options_def)
  ultimately show ?thesis by blast
qed

subsection \<open>The lease table of a running server\<close>

lemma init_packet_chaddr: "init_packet cfg old t = Some p \<Longrightarrow> m_chaddr p = m_chaddr old"
  by (auto simp: init_packet_def bind_Some_iff)

lemma finish_packet_chaddr: "finish_packet cfg p lt ds = Some q \<Longrightarrow> m_chaddr q = m_chaddr p"
  by (auto simp: finish_packet_def bind_Some_iff add_bootp_options_def)

lemma finish_packet_yiaddr: "finish_packet cfg p lt ds = Some q \<Longrightarrow> m_yiaddr q = m_yiaddr p"
  by (auto simp: finish_packet_def bind_Some_iff add_bootp_options_def)

lemma sendOffer_ok:
  assumes "leases_ok (s_leases st)" and "length (m_chaddr old) = 16" and "sendOffer cfg arp tx now st old = Some (r, st', out)"
  shows "leases_ok (s_leases st')"
proof -
  obtain p where p: "init_packet cfg old DHCPOFFER = Some p" using assms(3) by (auto simp: sendOffer_def bind_Some_iff)
  note c = init_packet_chaddr [OF p]
  show ?thesis
  proof (cases "find_static_lease_by_chaddr (s_static st) (m_chaddr old)")
    case (Some i)
    with assms(1,3) p show ?thesis by (auto simp: sendOffer_def bind_Some_iff Let_def)
  next
    case None
    with assms(3) p obtain addr lt where a: "offer_address cfg arp now st old = Some (addr, lt)"
      by (auto simp: sendOffer_def bind_Some_iff)
    show ?thesis
    proof (cases "addr = 0")
      case True
      with assms(1,3) p None a show ?thesis by (auto simp: sendOffer_def)
    next
      case False
      with assms(3) p None a obtain h where h: "host_name old = Some h" by (auto simp: sendOffer_def bind_Some_iff)
      obtain k ls where al: "add_lease now (s_leases st) (m_chaddr p) addr (sc_offer_time cfg) h = (k, ls)"
        by (cases "add_lease now (s_leases st) (m_chaddr p) addr (sc_offer_time cfg) h")
      have "leases_ok ls"
        using add_lease_ok [OF assms(1), of "m_chaddr p" now addr "sc_offer_time cfg" h] assms(2) c al by simp
      with assms(3) p None a False h al show ?thesis
        by (auto simp: sendOffer_def bind_Some_iff Let_def split: option.splits)
    qed
  qed
qed

lemma sendACK_ok:
  assumes "leases_ok (s_leases st)" and "length (m_chaddr old) = 16" and "sendACK cfg tx now st old y = Some (st', out)"
  shows "leases_ok (s_leases st')"
proof -
  obtain p where p: "init_packet cfg old DHCPACK = Some p" using assms(3) by (auto simp: sendACK_def bind_Some_iff)
  show ?thesis
  proof (cases "find_static_lease_by_chaddr (s_static st) (m_chaddr old)")
    case (Some i)
    with assms(1,3) p show ?thesis by (auto simp: sendACK_def bind_Some_iff Let_def)
  next
    case None
    with assms(3) p obtain req q h where
      q: "finish_packet cfg (p\<lparr>m_yiaddr := y\<rparr>) (ack_lease_time cfg req) (sc_options cfg) = Some q"
      and h: "option_u32 old DHCP_LEASE_TIME = Some req" "host_name old = Some h"
      by (auto simp: sendACK_def bind_Some_iff Let_def)
    have c: "m_chaddr q = m_chaddr old" using finish_packet_chaddr [OF q] init_packet_chaddr [OF p] by simp
    have "leases_ok (add_acked_lease now (s_leases st) (m_chaddr q) y (ack_lease_time cfg req) h)"
      using add_lease_ok [OF assms(1), of "m_chaddr q" now y "ack_lease_time cfg req" h] assms(2) c leases_ok_ACK
      by (auto simp: add_acked_lease_def split: prod.split option.split)
    with assms(1,3) p None q h show ?thesis
      by (auto simp: sendACK_def Let_def split: if_splits)
  qed
qed

lemma sendNAK_state: "sendNAK cfg st old = Some (st', out) \<Longrightarrow> st' = st"
  by (auto simp: sendNAK_def bind_Some_iff)

text \<open>The possible outcomes of a request; the address acknowledged is that of the client's entry, or a valid one.\<close>

lemma handle_request_cases:
  assumes "handle_request cfg arp tx now st p = Some r"
  obtains (ack) y where "sendACK cfg tx now st p y = Some r"
  | (nak) "sendNAK cfg st p = Some r"
  | (silent) "r = (st, [])"
  | (forget) i where "r = (st\<lparr>s_leases := (s_leases st)[i := (s_leases st ! i)\<lparr>l_chaddr := blank_chaddr\<rparr>]\<rparr>, [])"
proof -
  obtain requested server_id where "option_u32 p DHCP_REQUESTED_IP = Some requested" "option_u32 p DHCP_SERVER_ID = Some server_id"
    using assms by (auto simp: handle_request_def bind_Some_iff)
  then have "(\<exists>y. sendACK cfg tx now st p y = Some r) \<or> sendNAK cfg st p = Some r \<or> r = (st, []) \<or>
      (\<exists>i. r = (st\<lparr>s_leases := (s_leases st)[i := (s_leases st ! i)\<lparr>l_chaddr := blank_chaddr\<rparr>]\<rparr>, []))"
    using assms unfolding handle_request_def Let_def
    by (cases "lookup_client st (m_chaddr p)"; cases server_id; cases requested)
      (simp_all split: option.splits if_splits, blast+)
  then show ?thesis using that by blast
qed

lemma handle_request_ok:
  assumes "leases_ok (s_leases st)" and "length (m_chaddr p) = 16" and "handle_request cfg arp tx now st p = Some (st', out)"
  shows "leases_ok (s_leases st')"
  using assms(3)
proof (cases rule: handle_request_cases)
  case (ack y)
  then show ?thesis by (rule sendACK_ok [OF assms(1,2)])
next
  case nak
  from sendNAK_state [OF this] assms(1) show ?thesis by simp
next
  case (forget i)
  then show ?thesis by (simp add: leases_ok_same [OF assms(1)])
qed (use assms(1) in simp)

lemma handle_message_ok:
  assumes "leases_ok (s_leases st)" and "length (m_chaddr p) = 16" and "handle_message cfg arp tx now st p = Some (st', out)"
  shows "leases_ok (s_leases st')"
proof -
  have dec: "leases_ok (s_leases (handle_decline cfg now st p))"
    using assms(1) by (auto simp: handle_decline_def split: option.split lease_ptr.split intro!: leases_ok_same)
  have rel: "leases_ok (s_leases (handle_release cfg now st p))"
    using assms(1) by (auto simp: handle_release_def Let_def split: option.split lease_ptr.split intro!: leases_ok_same)
  have inf: "st' = st" if "send_inform cfg st p = Some (st', out)"
    using that by (auto simp: send_inform_def bind_Some_iff Let_def)
  obtain state where s: "get_option p DHCP_MESSAGE_TYPE = Some state" using assms(3) by (auto simp: handle_message_def bind_Some_iff)
  show ?thesis
  proof (cases state)
    case None
    with s assms(1,3) show ?thesis by (simp add: handle_message_def)
  next
    case (Some k)
    with s assms(3) obtain t where t: "rd (packet_mem p) k = Some t" by (auto simp: handle_message_def bind_Some_iff)
    have off: "leases_ok (s_leases st')" if "map_option snd (sendOffer cfg arp tx now st p) = Some (st', out)"
      using that sendOffer_ok [OF assms(1,2)] by auto
    have req: "leases_ok (s_leases st')" if "handle_request cfg arp tx now st p = Some (st', out)"
      by (rule handle_request_ok [OF assms(1,2) that])
    show ?thesis
      using assms(3) s t Some off req dec rel inf assms(1) unfolding handle_message_def
      by (simp split: if_splits)
  qed
qed

subsection \<open>Reachable states\<close>

text \<open>What \<^verbatim>\<open>udhcpd_main\<close> does before its loop: an empty table, filled from the lease file, which is written again.\<close>

definition start_server :: "server_config_t \<Rightarrow> u32 \<Rightarrow> nat \<Rightarrow> byte list \<Rightarrow> dhcpOfferedAddr list \<Rightarrow> server" where
  "start_server cfg now max_leases bytes statics =
     (let (ls, ss) = read_leases cfg now bytes (replicate max_leases no_lease) statics
      in \<lparr>s_leases = ls, s_static = ss, s_file = write_leases cfg now ls ss\<rparr>)"

text \<open>The turns of the main loop: a datagram that \<^verbatim>\<open>get_packet\<close> accepts, one that it refuses, and the periodic or
  requested writing of the lease file.\<close>

inductive server_step :: "server_config_t \<Rightarrow> server \<Rightarrow> sent list \<Rightarrow> server \<Rightarrow> bool" for cfg where
  message: "get_packet datagram = Some (n, p) \<Longrightarrow> 0 \<le> n \<Longrightarrow> handle_message cfg arp tx now st p = Some (st', out) \<Longrightarrow>
    server_step cfg st out st'"
| refused: "get_packet datagram = Some (n, p) \<Longrightarrow> n < 0 \<Longrightarrow> server_step cfg st [] st"
| flush: "server_step cfg st [] (st\<lparr>s_file := write_leases cfg now (s_leases st) (s_static st)\<rparr>)"

inductive reachable :: "server_config_t \<Rightarrow> server \<Rightarrow> bool" for cfg where
  start: "reachable cfg (start_server cfg now max_leases bytes statics)"
| step: "reachable cfg st \<Longrightarrow> server_step cfg st out st' \<Longrightarrow> reachable cfg st'"

lemma message_of_ok: "548 \<le> length b \<Longrightarrow> message_ok (message_of b)"
  by (simp add: message_ok_def packet_ok_def message_of_def)

lemma get_packet_ok:
  assumes "get_packet datagram = Some (n, p)"
  shows "message_ok p"
proof (cases datagram)
  case None
  with assms show ?thesis by (auto simp: get_packet_def message_ok_def packet_ok_def blank_message_def)
next
  case (Some d)
  have m: "message_ok (message_of (take 548 (d @ replicate 548 0)))" by (rule message_of_ok) simp
  then have f: "message_ok ((message_of (take 548 (d @ replicate 548 0)))\<lparr>m_flags := x\<rparr>)" for x
    by (simp add: message_ok_def packet_ok_def)
  obtain x where "p = message_of (take 548 (d @ replicate 548 0)) \<or> p = (message_of (take 548 (d @ replicate 548 0)))\<lparr>m_flags := x\<rparr>"
    using assms Some unfolding get_packet_def Let_def
    by (auto simp: bind_Some_iff split: if_splits option.splits)
  with m f show ?thesis by auto
qed

lemma leases_ok_replicate: "leases_ok (replicate n no_lease)"
  by (auto simp: leases_ok_def list_all_iff sorted_wrt_iff_nth_less no_lease_def blank_chaddr_def compatible_def)

lemma reachable_ok: "reachable cfg st \<Longrightarrow> leases_ok (s_leases st)"
proof (induction rule: reachable.induct)
  case (start now max_leases bytes statics)
  show ?case
    using read_leases_loop_ok [OF leases_ok_replicate, of cfg now 0 bytes max_leases statics]
    by (auto simp: start_server_def read_leases_def split: prod.split)
next
  case (step st out st')
  from step.hyps(2) show ?case
  proof (cases rule: server_step.cases)
    case (message datagram n p arp tx now)
    then have "length (m_chaddr p) = 16" using get_packet_ok by (simp add: message_ok_def)
    from handle_message_ok [OF step.IH this message(3)] show ?thesis .
  qed (use step.IH in simp_all)
qed

text \<open>C1: In every state a running server can reach, whatever it read from the lease file and whatever datagrams,
  answers to ARP requests, send errors and clock values it saw, no IP address (0 aside) and no client (the blank
  hardware address aside) is in two entries of the lease table.\<close>

theorem server_leases_unique:
  assumes "reachable cfg st" and "i < length (s_leases st)" and "j < length (s_leases st)" and "i \<noteq> j"
  shows "(l_yiaddr (s_leases st ! i) = l_yiaddr (s_leases st ! j) \<longrightarrow> l_yiaddr (s_leases st ! i) = 0) \<and>
    (l_chaddr (s_leases st ! i) = l_chaddr (s_leases st ! j) \<longrightarrow> l_chaddr (s_leases st ! i) = blank_chaddr)"
  using leases_okD [OF reachable_ok [OF assms(1)] assms(2-4)] by (simp add: compatible_def)

lemma start_server_example:
  "start_server example_config 100 2 [] [] = \<lparr>s_leases = [no_lease, no_lease], s_static = [], s_file = []\<rparr>"
  by (simp add: start_server_def read_leases_def read_leases_loop.simps sizeof_lease_def write_leases_def static_entries_def
      no_lease_def numeral_2_eq_2)

theorem server_leases_unique_witness:
  "l_yiaddr (s_leases (start_server example_config 100 2 [] []) ! 0) = 0"
proof -
  have "reachable example_config (start_server example_config 100 2 [] [])" by (rule reachable.start)
  from server_leases_unique [OF this, of 0 1] show ?thesis by (simp add: start_server_example no_lease_def)
qed

subsection \<open>Offers\<close>

lemma same_address_same_entry:
  assumes "leases_ok ls" and "i < length ls" and "l \<in> set ls" and "l_yiaddr l = l_yiaddr (ls ! i)" and "l_yiaddr l \<noteq> 0"
  shows "l = ls ! i"
proof -
  obtain j where j: "j < length ls" "l = ls ! j" using assms(3) by (auto simp: in_set_conv_nth)
  with leases_okD [OF assms(1,2) j(1)] assms(4,5) show ?thesis by (cases "i = j") (auto simp: compatible_def)
qed

lemma free_or_expired:
  assumes "leases_ok ls" and "a \<noteq> 0" and "case find_lease_by_yiaddr ls a of None \<Rightarrow> True | Some i \<Rightarrow> lease_expired now (ls ! i)"
    and "l \<in> set ls" and "l_yiaddr l = a"
  shows "lease_expired now l"
proof (cases "find_lease_by_yiaddr ls a")
  case None
  with assms(4,5) show ?thesis by (auto simp: find_lease_by_yiaddr_def index_of_None)
next
  case (Some i)
  then have "i < length ls" "l_yiaddr (ls ! i) = a" using index_of_Some by (auto simp: find_lease_by_yiaddr_def)
  with same_address_same_entry [OF assms(1) _ assms(4), of i] assms(2,3,5) Some show ?thesis by simp
qed

lemma find_address_free:
  assumes "find_address cfg arp now ls ss e = Some a" and "a \<noteq> 0"
  shows "case find_lease_by_yiaddr ls a of None \<Rightarrow> True | Some i \<Rightarrow> lease_expired now (ls ! i)"
    and "find_static_lease_by_yiaddr ss a = None" and "a \<le> sc_end cfg"
  using find_address_loop_result [OF assms(1) [unfolded find_address_def]] assms(2) by (auto simp: assignable_def split: option.splits)

text \<open>An address that does not come from the client's own entry is free and not reserved.\<close>

lemma offer_address_cases:
  assumes "offer_address cfg arp now st old = Some (a, t)" and "a \<noteq> 0"
  obtains (own) i where "find_lease_by_chaddr (s_leases st) (m_chaddr old) = Some i" "a = l_yiaddr (s_leases st ! i)"
  | (free) "case find_lease_by_yiaddr (s_leases st) a of None \<Rightarrow> True | Some i \<Rightarrow> lease_expired now (s_leases st ! i)"
      "find_static_lease_by_yiaddr (s_static st) a = None" "a \<le> sc_end cfg"
proof (cases "\<exists>e. find_address cfg arp now (s_leases st) (s_static st) e = Some a")
  case True
  with find_address_free assms(2) that(2) show ?thesis by metis
next
  case fa: False
  show ?thesis
  proof (cases "find_lease_by_chaddr (s_leases st) (m_chaddr old)")
    case (Some i)
    with assms(1) fa have "a = l_yiaddr (s_leases st ! i)"
      by (auto simp: offer_address_def Let_def bind_Some_iff split: if_splits)
    with Some that(1) show ?thesis by blast
  next
    case None
    with assms(1) obtain req where r: "option_u32 old DHCP_REQUESTED_IP = Some req"
      by (auto simp: offer_address_def bind_Some_iff)
    have "find_static_lease_by_yiaddr (s_static st) a = None \<and> a \<le> sc_end cfg \<and>
        (case find_lease_by_yiaddr (s_leases st) a of None \<Rightarrow> True | Some i \<Rightarrow> lease_expired now (s_leases st ! i))"
      using assms None r fa
      by (auto simp: offer_address_def bind_Some_iff split: option.splits if_splits)
    then show ?thesis by (intro that(2)) simp_all
  qed
qed

text \<open>What the server does with a client that has no static lease, once it has chosen an address.\<close>

lemma sendOffer_dynamic:
  assumes "find_static_lease_by_chaddr (s_static st) (m_chaddr old) = None"
    and "sendOffer cfg arp tx now st old = Some (r, st', out)" and "(d, q) \<in> set out"
  obtains lt h k where "offer_address cfg arp now st old = Some (m_yiaddr q, lt)" "m_yiaddr q \<noteq> 0" "host_name old = Some h"
    "add_lease now (s_leases st) (m_chaddr old) (m_yiaddr q) (sc_offer_time cfg) h = (Some k, s_leases st')"
    "s_static st' = s_static st"
proof -
  obtain p where p: "init_packet cfg old DHCPOFFER = Some p" using assms(2) by (auto simp: sendOffer_def bind_Some_iff)
  then obtain addr lt where a: "offer_address cfg arp now st old = Some (addr, lt)"
    using assms by (auto simp: sendOffer_def bind_Some_iff)
  have nz: "addr \<noteq> 0" using assms p a by (auto simp: sendOffer_def)
  then obtain h where h: "host_name old = Some h" using assms p a by (auto simp: sendOffer_def bind_Some_iff)
  obtain k ls where al: "add_lease now (s_leases st) (m_chaddr p) addr (sc_offer_time cfg) h = (k, ls)"
    by (cases "add_lease now (s_leases st) (m_chaddr p) addr (sc_offer_time cfg) h")
  have k: "k \<noteq> None" using assms p a nz h al by (cases k) (auto simp: sendOffer_def)
  have y: "m_yiaddr q = addr" if "finish_packet cfg (p\<lparr>m_yiaddr := addr\<rparr>) t ds = Some q" for t ds
    using finish_packet_yiaddr [OF that] by simp
  from k have "s_leases st' = ls \<and> m_yiaddr q = addr \<and> s_static st' = s_static st"
    using assms p a nz h al y by (auto simp: sendOffer_def bind_Some_iff Let_def)
  with a nz h al k init_packet_chaddr [OF p] that show ?thesis by fastforce
qed

lemma static_entry_found:
  assumes "find_static_lease_by_chaddr ss c = Some i"
  shows "i < length ss" "l_chaddr (ss ! i) = c" "l_yiaddr (ss ! i) \<noteq> 0"
proof -
  have i: "i < length (static_entries ss)" "l_chaddr (static_entries ss ! i) = c"
    using index_of_Some [OF assms [unfolded find_static_lease_by_chaddr_def]] by simp_all
  then have n: "static_entries ss ! i = take MAX_STATIC_LEASES ss ! i" "i < length (take MAX_STATIC_LEASES ss)"
    using length_takeWhile_le [of "\<lambda>l. l_yiaddr l \<noteq> 0" "take MAX_STATIC_LEASES ss"] by (simp_all add: static_entries_def takeWhile_nth)
  moreover have "l_yiaddr (static_entries ss ! i) \<noteq> 0"
    using nth_mem [OF i(1)] set_takeWhileD [of _ "\<lambda>l. l_yiaddr l \<noteq> 0"] unfolding static_entries_def by blast
  ultimately show "i < length ss" "l_chaddr (ss ! i) = c" "l_yiaddr (ss ! i) \<noteq> 0" using i(2) by simp_all
qed

lemma sendOffer_reserved:
  assumes "find_static_lease_by_chaddr (s_static st) (m_chaddr old) = Some i"
    and "sendOffer cfg arp tx now st old = Some (r, st', out)" and "(d, q) \<in> set out"
  shows "m_yiaddr q = l_yiaddr (s_static st ! i) \<and> st' = st"
  using assms by (auto simp: sendOffer_def bind_Some_iff Let_def dest!: finish_packet_yiaddr)

text \<open>C2: What a running server offers. A client with a reservation (a static lease) is offered exactly the reserved address, which is not 0,
  and the table stays as it is; who else holds that address is not looked at. A client without a
  reservation is never offered an address that another client holds: the address is not 0, every entry with that address
  belongs to the client itself or is expired, and for a client that is new to the table it is not reserved by a static lease.
  After such an offer the client is found in the table with this address, which is kept for it during the offer time.\<close>

theorem offer_never_steals:
  assumes "reachable cfg st" and "length (m_chaddr old) = 16"
    and "sendOffer cfg arp tx now st old = Some (r, st', out)" and "(d, q) \<in> set out"
  shows "m_yiaddr q \<noteq> 0 \<and> (case find_static_lease_by_chaddr (s_static st) (m_chaddr old) of
      Some i \<Rightarrow> i < length (s_static st) \<and> l_chaddr (s_static st ! i) = m_chaddr old \<and> m_yiaddr q = l_yiaddr (s_static st ! i) \<and> st' = st
    | None \<Rightarrow>
        (\<forall>l\<in>set (s_leases st). l_yiaddr l = m_yiaddr q \<longrightarrow> l_chaddr l = m_chaddr old \<or> lease_expired now l) \<and>
        (find_lease_by_chaddr (s_leases st) (m_chaddr old) = None \<longrightarrow> find_static_lease_by_yiaddr (s_static st) (m_yiaddr q) = None) \<and>
        (m_chaddr old \<noteq> blank_chaddr \<longrightarrow> (\<exists>k. find_lease_by_chaddr (s_leases st') (m_chaddr old) = Some k \<and>
          l_yiaddr (s_leases st' ! k) = m_yiaddr q \<and> l_expires (s_leases st' ! k) = now + sc_offer_time cfg)))"
proof (cases "find_static_lease_by_chaddr (s_static st) (m_chaddr old)")
  case (Some i)
  with sendOffer_reserved [OF Some assms(3,4)] static_entry_found [OF Some] show ?thesis by simp
next
  case None
  note ok = reachable_ok [OF assms(1)]
  from None assms(3,4) obtain lt h k where a: "offer_address cfg arp now st old = Some (m_yiaddr q, lt)" "m_yiaddr q \<noteq> 0"
    and al: "add_lease now (s_leases st) (m_chaddr old) (m_yiaddr q) (sc_offer_time cfg) h = (Some k, s_leases st')"
    by (rule sendOffer_dynamic)
  from a have "(\<forall>l\<in>set (s_leases st). l_yiaddr l = m_yiaddr q \<longrightarrow> l_chaddr l = m_chaddr old \<or> lease_expired now l) \<and>
      (find_lease_by_chaddr (s_leases st) (m_chaddr old) = None \<longrightarrow> find_static_lease_by_yiaddr (s_static st) (m_yiaddr q) = None)"
  proof (cases rule: offer_address_cases)
    case (own i)
    then have "i < length (s_leases st)" "l_chaddr (s_leases st ! i) = m_chaddr old"
      using index_of_Some [OF own(1) [unfolded find_lease_by_chaddr_def]] by simp_all
    with own a(2) same_address_same_entry [OF ok] show ?thesis by auto
  next
    case free
    with free_or_expired [OF ok a(2)] show ?thesis by blast
  qed
  moreover have "\<exists>k. find_lease_by_chaddr (s_leases st') (m_chaddr old) = Some k \<and>
      l_yiaddr (s_leases st' ! k) = m_yiaddr q \<and> l_expires (s_leases st' ! k) = now + sc_offer_time cfg"
    if "m_chaddr old \<noteq> blank_chaddr"
    using add_lease_finds(2) [OF al assms(2) that] add_lease_Some(5,6) [OF al] by blast
  ultimately show ?thesis using a(2) None by simp
qed

subsection \<open>Every well-formed discover is answered\<close>

lemma opt_pos_bound: "opt_pos os code = Some k \<Longrightarrow> \<exists>d. (code, d) \<in> set os \<and> k + length d \<le> length (enc os)"
proof (induction os code arbitrary: k rule: opt_pos.induct)
  case (2 c d os code)
  show ?case
  proof (cases "c = code")
    case True
    with 2(2) show ?thesis by (intro exI [of _ d]) auto
  next
    case False
    with 2(2) obtain j where j: "opt_pos os code = Some j" "k = length d + 2 + j" by auto
    from 2(1) [OF False j(1)] j(2) show ?thesis by auto
  qed
qed simp

definition u32_options_ok :: "(byte \<times> byte list) list \<Rightarrow> bool" where
  "u32_options_ok os \<longleftrightarrow> (\<forall>(c, d) \<in> set os. c \<in> {DHCP_REQUESTED_IP, DHCP_LEASE_TIME, DHCP_SERVER_ID} \<longrightarrow> length d = 4)"

lemma get_option_opts_enc:
  assumes "message_ok p" and "opts_enc (m_options p) os" and "plain_code code"
  shows "get_option p code = Some (map_option (\<lambda>k. 196 + k) (opt_pos os code))"
  using assms get_option_enc [of p os _ code] by (auto simp: opts_enc_def message_ok_def plain_code_def)

lemma plain_codes:
  "plain_code DHCP_REQUESTED_IP" "plain_code DHCP_LEASE_TIME" "plain_code DHCP_SERVER_ID" "plain_code DHCP_HOST_NAME"
  "plain_code DHCP_MESSAGE_TYPE"
  by (simp_all add: plain_code_def DHCP_REQUESTED_IP_def DHCP_LEASE_TIME_def DHCP_SERVER_ID_def DHCP_HOST_NAME_def
      DHCP_MESSAGE_TYPE_def DHCP_PADDING_def DHCP_OPTION_OVER_def DHCP_END_def)

lemma length_packet_mem: "message_ok p \<Longrightarrow> length (packet_mem p) = 504"
  by (simp add: packet_mem_def message_ok_def packet_ok_def)

lemma length_enc_bound: "opts_enc opts os \<Longrightarrow> length (enc os) < 308"
  by (auto simp: opts_enc_def)

lemma option_u32_total:
  assumes "message_ok p" and "opts_enc (m_options p) os" and "u32_options_ok os"
    and "code \<in> {DHCP_REQUESTED_IP, DHCP_LEASE_TIME, DHCP_SERVER_ID}"
  shows "\<exists>r. option_u32 p code = Some r \<and> (r = None \<longleftrightarrow> code \<notin> fst ` set os)"
proof -
  have "plain_code code" using assms(4) plain_codes by auto
  note g = get_option_opts_enc [OF assms(1,2) this]
  show ?thesis
  proof (cases "opt_pos os code")
    case None
    with g show ?thesis by (simp add: option_u32_def opt_pos_None)
  next
    case (Some k)
    from opt_pos_bound [OF this] obtain d where d: "(code, d) \<in> set os" "k + length d \<le> length (enc os)" by blast
    then have "k + 4 \<le> length (enc os)" using assms(3,4) by (auto simp: u32_options_ok_def)
    moreover have "code \<in> fst ` set os" using d(1) by force
    ultimately show ?thesis
      using g Some length_enc_bound [OF assms(2)] length_packet_mem [OF assms(1)] by (simp add: option_u32_def u32_at_def)
  qed
qed

lemma host_name_total:
  assumes "message_ok p" and "opts_enc (m_options p) os"
  shows "\<exists>h. host_name p = Some h"
proof (cases "opt_pos os DHCP_HOST_NAME")
  case None
  with get_option_opts_enc [OF assms plain_codes(4)] show ?thesis by (simp add: host_name_def)
next
  case (Some k)
  with get_option_opts_enc [OF assms plain_codes(4)] have g: "get_option p DHCP_HOST_NAME = Some (Some (196 + k))" by simp
  from get_loop_result [OF this [unfolded get_option_def]] obtain f l where
    "rd (packet_mem p) (196 + k - 1) = Some l" "196 + k + unat l \<le> field_base f + field_length f" by blast
  moreover have "field_base f + field_length f \<le> 504" by (cases f) simp_all
  ultimately show ?thesis using g length_packet_mem [OF assms(1)] by (simp add: host_name_def)
qed

lemma offer_address_total:
  assumes "message_ok old" and "opts_enc (m_options old) os" and "u32_options_ok os" and "sc_end cfg < 0xFFFFFFFF"
    and "\<exists>a. sc_start cfg \<le> a \<and> a \<le> sc_end cfg \<and> assignable cfg arp now (s_leases st) (s_static st) False a"
  shows "\<exists>a t. offer_address cfg arp now st old = Some (a, t) \<and> a \<noteq> 0"
proof -
  obtain a where "find_address cfg arp now (s_leases st) (s_static st) False = Some a" "a \<noteq> 0"
  proof -
    from find_address_loop_spec [OF assms(4), of "assignable cfg arp now (s_leases st) (s_static st) False" "sc_start cfg"] assms(5)
    obtain r where "find_address cfg arp now (s_leases st) (s_static st) False = Some r"
      "assignable cfg arp now (s_leases st) (s_static st) False r" by (auto simp: find_address_def)
    moreover from this(2) have "r \<noteq> 0" by (auto simp: assignable_def)
    ultimately show ?thesis using that by blast
  qed
  moreover obtain req where "option_u32 old DHCP_REQUESTED_IP = Some req" using option_u32_total [OF assms(1-3)] by blast
  ultimately show ?thesis
    by (cases "find_lease_by_chaddr (s_leases st) (m_chaddr old)") (auto simp: offer_address_def Let_def)
qed

lemma discover_offer:
  assumes "message_ok old" and "opts_enc (m_options old) os" and "u32_options_ok os"
    and "\<forall>d\<in>set (sc_options cfg). option_string_ok d" and "sc_end cfg < 0xFFFFFFFF"
    and "find_static_lease_by_chaddr (s_static st) (m_chaddr old) = None"
    and "\<exists>a. sc_start cfg \<le> a \<and> a \<le> sc_end cfg \<and> assignable cfg arp now (s_leases st) (s_static st) False a"
    and "\<exists>l\<in>set (s_leases st). lease_expired now l"
  shows "\<exists>r st' d q lt os'. sendOffer cfg arp tx now st old = Some (r, st', [(d, q)]) \<and> m_yiaddr q \<noteq> 0 \<and>
    reply_to cfg old DHCPOFFER ((DHCP_LEASE_TIME, be32 lt) # os') q"
proof -
  obtain p where p: "init_packet cfg old DHCPOFFER = Some p" "reply_to cfg old DHCPOFFER [] p"
    using init_packet_reply [OF _ assms(1), of DHCPOFFER] by auto
  obtain a t where a: "offer_address cfg arp now st old = Some (a, t)" "a \<noteq> 0"
    using offer_address_total [OF assms(1-3,5,7)] by blast
  obtain h where h: "host_name old = Some h" using host_name_total [OF assms(1,2)] by blast
  obtain req where req: "option_u32 old DHCP_LEASE_TIME = Some req" using option_u32_total [OF assms(1-3)] by blast
  have c: "length (m_chaddr p) = 16" using p(2) assms(1) by (simp add: reply_to_def message_ok_def)
  obtain k ls where al: "add_lease now (s_leases st) (m_chaddr p) a (sc_offer_time cfg) h = (Some k, ls)"
    using add_lease_None [OF c, of now "s_leases st" a "sc_offer_time cfg" h] assms(8)
    by (cases "add_lease now (s_leases st) (m_chaddr p) a (sc_offer_time cfg) h") auto
  from finish_packet_reply [OF p(2) assms(4), of a "offer_lease_time cfg req t"] obtain q os' where
    q: "finish_packet cfg (p\<lparr>m_yiaddr := a\<rparr>) (offer_lease_time cfg req t) (sc_options cfg) = Some q"
    "reply_to cfg old DHCPOFFER ((DHCP_LEASE_TIME, be32 (offer_lease_time cfg req t)) # os') q" "m_yiaddr q = a" by blast
  have "sendOffer cfg arp tx now st old =
      Some (tx (send_packet cfg q False) q, st\<lparr>s_leases := ls\<rparr>, [(send_packet cfg q False, q)])"
    using p(1) assms(6) a h req al q(1) by (simp add: sendOffer_def Let_def)
  with q(2,3) a(2) show ?thesis by blast
qed

text \<open>C13: A client is served while there is something to give. When the discover message and the configured options
  are well formed, the range holds an assignable address and the lease table an expired or free entry, the server
  sends exactly one offer: a reply to this message, of type OFFER, with the identifier of the server and a lease
  time, and with a non-zero address.\<close>

theorem discover_gets_offer:
  assumes "message_ok old" and "opts_enc (m_options old) os" and "u32_options_ok os"
    and "\<forall>d\<in>set (sc_options cfg). option_string_ok d" and "sc_end cfg < 0xFFFFFFFF"
    and "find_static_lease_by_chaddr (s_static st) (m_chaddr old) = None"
    and "\<exists>a. sc_start cfg \<le> a \<and> a \<le> sc_end cfg \<and> assignable cfg arp now (s_leases st) (s_static st) False a"
    and "\<exists>l\<in>set (s_leases st). lease_expired now l"
  shows "\<exists>r st' d q lt os'. sendOffer cfg arp tx now st old = Some (r, st', [(d, q)]) \<and> m_yiaddr q \<noteq> 0 \<and>
    reply_to cfg old DHCPOFFER ((DHCP_LEASE_TIME, be32 lt) # os') q"
  by (rule discover_offer [OF assms])

definition example_message :: dhcpMessage where
  "example_message = blank_message\<lparr>m_op := BOOTREQUEST, m_xid := 42, m_cookie := DHCP_MAGIC, m_chaddr := replicate 16 1,
     m_options := enc [] @ DHCP_END # replicate 307 0\<rparr>"

lemma example_message_ok: "message_ok example_message" "opts_enc (m_options example_message) []"
  unfolding opts_enc_def by (auto simp: example_message_def message_ok_def packet_ok_def blank_message_def)

lemma example_assignable:
  "\<exists>a. sc_start example_config \<le> a \<and> a \<le> sc_end example_config \<and> assignable example_config (\<lambda>a. False) 100 [no_lease, no_lease] [] False a"
  by (intro exI [of _ "0xC0A80014"])
    (simp add: assignable_def example_config_def find_static_lease_by_yiaddr_def static_entries_def
      find_lease_by_yiaddr_def no_lease_def check_ip_def)

lemma example_offer_premises:
  "u32_options_ok []" "\<forall>d\<in>set (sc_options example_config). option_string_ok d" "sc_end example_config < 0xFFFFFFFF"
  "find_static_lease_by_chaddr (s_static (start_server example_config 100 2 [] [])) (m_chaddr example_message) = None"
  "\<exists>a. sc_start example_config \<le> a \<and> a \<le> sc_end example_config \<and>
    assignable example_config (\<lambda>a. False) 100 (s_leases (start_server example_config 100 2 [] []))
      (s_static (start_server example_config 100 2 [] [])) False a"
  "\<exists>l\<in>set (s_leases (start_server example_config 100 2 [] [])). lease_expired 100 l"
  using example_assignable
  by (simp_all add: start_server_example u32_options_ok_def find_static_lease_by_chaddr_def static_entries_def
      lease_expired_def)
    (simp_all add: example_config_def no_lease_def)

theorem discover_gets_offer_witness:
  "\<exists>r st' d q. sendOffer example_config (\<lambda>a. False) (\<lambda>d q. 0) 100 (start_server example_config 100 2 [] []) example_message =
    Some (r, st', [(d, q)]) \<and> m_yiaddr q \<noteq> 0"
  using discover_gets_offer [OF example_message_ok example_offer_premises, of "\<lambda>d q. 0"] by blast

theorem offer_never_steals_witness:
  "\<exists>r st' d q k. sendOffer example_config (\<lambda>a. False) (\<lambda>d q. 0) 100 (start_server example_config 100 2 [] []) example_message =
    Some (r, st', [(d, q)]) \<and> find_lease_by_chaddr (s_leases st') (replicate 16 1) = Some k \<and>
    l_expires (s_leases st' ! k) = 160"
proof -
  let ?st = "start_server example_config 100 2 [] []"
  obtain r st' d q where s: "sendOffer example_config (\<lambda>a. False) (\<lambda>d q. 0) 100 ?st example_message = Some (r, st', [(d, q)])"
    using discover_offer [OF example_message_ok example_offer_premises, of "\<lambda>d q. 0"] by blast
  have l: "length (m_chaddr example_message) = 16" by (simp add: example_message_def)
  have c: "m_chaddr example_message = replicate 16 1" "100 + sc_offer_time example_config = 160"
    by (simp_all add: example_message_def example_config_def)
  have b: "m_chaddr example_message \<noteq> blank_chaddr" by (simp add: example_message_def blank_chaddr_def)
  have "(d, q) \<in> set [(d, q)]" by simp
  from offer_never_steals [OF reachable.start l s this] example_offer_premises(4) b obtain k where
    "find_lease_by_chaddr (s_leases st') (m_chaddr example_message) = Some k"
    "l_expires (s_leases st' ! k) = 100 + sc_offer_time example_config" by auto
  with s show ?thesis unfolding c by blast
qed

subsection \<open>Acknowledgements\<close>

lemma sendACK_dynamic:
  assumes "message_ok old" and "opts_enc (m_options old) os" and "\<forall>d\<in>set (sc_options cfg). option_string_ok d"
    and "find_static_lease_by_chaddr (s_static st) (m_chaddr old) = None" and "option_u32 old DHCP_LEASE_TIME = Some req"
    and "\<And>d q. 0 \<le> tx d q"
  shows "\<exists>d q os' h ls. ls = add_acked_lease now (s_leases st) (m_chaddr old) y (ack_lease_time cfg req) h \<and>
    sendACK cfg tx now st old y = Some (st\<lparr>s_leases := ls, s_file := write_leases cfg now ls (s_static st)\<rparr>, [(d, q)]) \<and>
    reply_to cfg old DHCPACK ((DHCP_LEASE_TIME, be32 (ack_lease_time cfg req)) # os') q \<and> m_yiaddr q = y"
proof -
  obtain p where p: "init_packet cfg old DHCPACK = Some p" "reply_to cfg old DHCPACK [] p"
    using init_packet_reply [OF _ assms(1), of DHCPACK] by auto
  obtain h where h: "host_name old = Some h" using host_name_total [OF assms(1,2)] by blast
  from finish_packet_reply [OF p(2) assms(3), of y "ack_lease_time cfg req"] obtain q os' where
    q: "finish_packet cfg (p\<lparr>m_yiaddr := y\<rparr>) (ack_lease_time cfg req) (sc_options cfg) = Some q"
    "reply_to cfg old DHCPACK ((DHCP_LEASE_TIME, be32 (ack_lease_time cfg req)) # os') q" "m_yiaddr q = y" by blast
  have "m_chaddr q = m_chaddr old" using q(2) by (simp add: reply_to_def)
  moreover have "\<not> tx (send_packet cfg q False) q < 0" using assms(6) by (simp add: not_less)
  ultimately have "sendACK cfg tx now st old y = (let ls = add_acked_lease now (s_leases st) (m_chaddr old) y (ack_lease_time cfg req) h in
      Some (st\<lparr>s_leases := ls, s_file := write_leases cfg now ls (s_static st)\<rparr>, [(send_packet cfg q False, q)]))"
    using p(1) assms(4,5) h q(1) by (simp add: sendACK_def Let_def)
  with q(2,3) show ?thesis unfolding Let_def by blast
qed

lemma add_acked_lease_finds:
  assumes "length c = 16" and "\<exists>l\<in>set ls. lease_expired now l \<or> conflicting c y l" and "c \<noteq> blank_chaddr" and "y \<noteq> 0"
  obtains k where "find_lease_by_chaddr (add_acked_lease now ls c y t h) c = Some k"
    "add_acked_lease now ls c y t h ! k = (snd (add_lease now ls c y t h) ! k)\<lparr>l_ACKed := 1\<rparr>"
    "l_yiaddr (add_acked_lease now ls c y t h ! k) = y" "l_expires (add_acked_lease now ls c y t h ! k) = now + t"
    "l_ACKed (add_acked_lease now ls c y t h ! k) = 1"
proof -
  obtain k ls' where al: "add_lease now ls c y t h = (Some k, ls')"
    using add_lease_None [OF assms(1), of now ls y t h] assms(2) by (cases "add_lease now ls c y t h") auto
  note a = add_lease_Some [OF al] and f = add_lease_finds(2) [OF al assms(1,3)]
  have aa: "add_acked_lease now ls c y t h = ls'[k := (ls' ! k)\<lparr>l_ACKed := 1\<rparr>]" by (simp add: add_acked_lease_def al)
  have k: "k < length ls'" using a(1,3) by simp
  have idx: "index_of (\<lambda>l. l_chaddr l = c) (xs[j := (xs ! j)\<lparr>l_ACKed := 1\<rparr>]) = index_of (\<lambda>l. l_chaddr l = c) xs" for xs j
  proof (induction xs arbitrary: j)
    case (Cons x xs)
    then show ?case by (cases j) auto
  qed simp
  show ?thesis
    by (rule that [of k]) (use f a k idx [of ls' k] in \<open>simp_all add: aa al find_lease_by_chaddr_def\<close>)
qed

text \<open>C24: A client that renews the address the table has for it is acknowledged, with this address and the lease
  time granted, and the table then holds the same client and address as acknowledged until now plus the lease time
  (sums modulo \<open>2 ^ 32\<close>).\<close>

theorem renewal_acknowledged:
  assumes "message_ok old" and "opts_enc (m_options old) os" and "u32_options_ok os"
    and "DHCP_REQUESTED_IP \<notin> fst ` set os" and "DHCP_SERVER_ID \<notin> fst ` set os"
    and "\<forall>d\<in>set (sc_options cfg). option_string_ok d"
    and "find_static_lease_by_chaddr (s_static st) (m_chaddr old) = None"
    and "find_lease_by_chaddr (s_leases st) (m_chaddr old) = Some i" and "l_yiaddr (s_leases st ! i) = m_ciaddr old"
    and "m_chaddr old \<noteq> blank_chaddr" and "m_ciaddr old \<noteq> 0" and "\<And>d q. 0 \<le> tx d q"
  shows "\<exists>st' d q lt os' k. handle_request cfg arp tx now st old = Some (st', [(d, q)]) \<and> m_yiaddr q = m_ciaddr old \<and>
    reply_to cfg old DHCPACK ((DHCP_LEASE_TIME, be32 lt) # os') q \<and>
    find_lease_by_chaddr (s_leases st') (m_chaddr old) = Some k \<and> l_yiaddr (s_leases st' ! k) = m_ciaddr old \<and>
    l_ACKed (s_leases st' ! k) = 1 \<and> l_expires (s_leases st' ! k) = now + lt"
proof -
  let ?c = "m_chaddr old" and ?y = "m_ciaddr old"
  obtain req where req: "option_u32 old DHCP_LEASE_TIME = Some req" using option_u32_total [OF assms(1-3)] by blast
  have no: "option_u32 old DHCP_REQUESTED_IP = Some None" "option_u32 old DHCP_SERVER_ID = Some None"
    using option_u32_total [OF assms(1-3), of DHCP_REQUESTED_IP] option_u32_total [OF assms(1-3), of DHCP_SERVER_ID] assms(4,5)
    by auto
  have r: "handle_request cfg arp tx now st old = sendACK cfg tx now st old ?y"
    using no assms(7-9) by (simp add: handle_request_def lookup_client_def)
  obtain d q os' h ls where ls: "ls = add_acked_lease now (s_leases st) ?c ?y (ack_lease_time cfg req) h"
    and ack: "sendACK cfg tx now st old ?y = Some (st\<lparr>s_leases := ls, s_file := write_leases cfg now ls (s_static st)\<rparr>, [(d, q)])"
    and q: "reply_to cfg old DHCPACK ((DHCP_LEASE_TIME, be32 (ack_lease_time cfg req)) # os') q" "m_yiaddr q = ?y"
    using sendACK_dynamic [where tx = tx and now = now and y = "?y", OF assms(1,2,6,7) req assms(12)] by blast
  have "s_leases st ! i \<in> set (s_leases st)" "l_chaddr (s_leases st ! i) = ?c"
    using index_of_Some [OF assms(8) [unfolded find_lease_by_chaddr_def]] by simp_all
  then have ex: "\<exists>l\<in>set (s_leases st). lease_expired now l \<or> conflicting ?c ?y l"
    using assms(10) by (auto simp: conflicting_def)
  have c: "length ?c = 16" using assms(1) by (simp add: message_ok_def)
  from c ex assms(10,11) obtain k where k: "find_lease_by_chaddr ls ?c = Some k" "l_yiaddr (ls ! k) = ?y"
    "l_expires (ls ! k) = now + ack_lease_time cfg req" "l_ACKed (ls ! k) = 1"
    unfolding ls by (rule add_acked_lease_finds)
  let ?st = "st\<lparr>s_leases := ls, s_file := write_leases cfg now ls (s_static st)\<rparr>"
  have "handle_request cfg arp tx now st old = Some (?st, [(d, q)])" using r ack by simp
  moreover have "s_leases ?st = ls" by simp
  ultimately show ?thesis using q k by metis
qed

definition renewing_message :: dhcpMessage where
  "renewing_message = example_message\<lparr>m_ciaddr := 0xC0A80014\<rparr>"

lemma renewing_message_ok: "message_ok renewing_message" "opts_enc (m_options renewing_message) []"
  using example_message_ok by (simp_all add: renewing_message_def message_ok_def packet_ok_def)

definition one_lease_server :: server where
  "one_lease_server = \<lparr>s_leases = [example_lease], s_static = [], s_file = []\<rparr>"

theorem renewal_acknowledged_witness:
  "\<exists>st' d q k. handle_request example_config (\<lambda>a. False) (\<lambda>d q. 0) 100 one_lease_server renewing_message = Some (st', [(d, q)]) \<and>
    find_lease_by_chaddr (s_leases st') (replicate 16 1) = Some k \<and> l_yiaddr (s_leases st' ! k) = 0xC0A80014"
proof -
  have m: "m_chaddr renewing_message = replicate 16 1" "m_ciaddr renewing_message = 0xC0A80014"
    by (simp_all add: renewing_message_def example_message_def)
  have "find_static_lease_by_chaddr (s_static one_lease_server) (m_chaddr renewing_message) = None"
    "find_lease_by_chaddr (s_leases one_lease_server) (m_chaddr renewing_message) = Some 0"
    "l_yiaddr (s_leases one_lease_server ! 0) = m_ciaddr renewing_message"
    unfolding m by (simp_all add: one_lease_server_def example_lease_def find_static_lease_by_chaddr_def static_entries_def
        find_lease_by_chaddr_def)
  moreover have "m_chaddr renewing_message \<noteq> blank_chaddr" "m_ciaddr renewing_message \<noteq> 0"
    by (simp_all add: m blank_chaddr_def)
  ultimately show ?thesis
    using renewal_acknowledged [OF renewing_message_ok example_offer_premises(1) _ _ example_offer_premises(2),
        where tx = "\<lambda>d q. 0" and st = one_lease_server and i = 0 and now = 100 and arp = "\<lambda>a. False"]
    by (simp add: m) blast
qed

lemma add_acked_lease_forgets:
  assumes "leases_ok ls" and "length c = 16" and "find_lease_by_chaddr ls c = None" and "y \<noteq> 0"
    and "v \<in> set ls" and "l_yiaddr v = y" and "l_chaddr v \<noteq> blank_chaddr"
  shows "find_lease_by_chaddr (add_acked_lease now ls c y t h) (l_chaddr v) = None"
proof -
  obtain i where i: "i < length ls" "v = ls ! i" using assms(5) by (auto simp: in_set_conv_nth)
  have nc: "l_chaddr v \<noteq> c" using assms(3,5) by (auto simp: find_lease_by_chaddr_def index_of_None)
  have "conflicting c y v" using assms(4,6) by (simp add: conflicting_def)
  then obtain k ls' where al: "add_lease now ls c y t h = (Some k, ls')"
    using add_lease_None [OF assms(2), of now ls y t h] assms(5) by (cases "add_lease now ls c y t h") auto
  note a = add_lease_Some [OF al]
  have aa: "add_acked_lease now ls c y t h = ls'[k := (ls' ! k)\<lparr>l_ACKed := 1\<rparr>]" by (simp add: add_acked_lease_def al)
  have "l_chaddr (ls'[k := (ls' ! k)\<lparr>l_ACKed := 1\<rparr>] ! j) \<noteq> l_chaddr v" if "j < length ls'" for j
  proof (cases "j = k")
    case True
    with a(4) nc that show ?thesis by simp
  next
    case False
    have j: "j < length ls" using that a(3) by simp
    have "ls' ! j = (if conflicting c y (ls ! j) then no_lease else ls ! j)" using a(7) [OF False] clear_lease_nth [OF assms(2) j] by simp
    moreover have "l_chaddr (ls ! j) \<noteq> l_chaddr v" if "j \<noteq> i"
      using leases_okD [OF assms(1) j i(1) that] i(2) assms(7) by (auto simp: compatible_def)
    ultimately show ?thesis using False \<open>conflicting c y v\<close> i(2) assms(7) by (auto simp: no_lease_def)
  qed
  then show ?thesis by (auto simp: aa find_lease_by_chaddr_def index_of_None in_set_conv_nth)
qed

text \<open>C38: An address in use can be taken over. A client the table does not know that sends a renewing request is
  acknowledged with the address it names whenever that lies in the range, even if another client holds an unexpired
  lease of it. The other client's entry is dropped and the server forgets it.\<close>

theorem renewal_takes_over:
  assumes "leases_ok (s_leases st)" and "message_ok old" and "opts_enc (m_options old) os" and "u32_options_ok os"
    and "DHCP_REQUESTED_IP \<notin> fst ` set os" and "DHCP_SERVER_ID \<notin> fst ` set os"
    and "\<forall>d\<in>set (sc_options cfg). option_string_ok d" and "\<And>d q. 0 \<le> tx d q"
    and "lookup_client st (m_chaddr old) = None" and "m_chaddr old \<noteq> blank_chaddr"
    and "m_ciaddr old \<noteq> 0" and "valid_ip cfg (m_ciaddr old)"
    and "victim \<in> set (s_leases st)" and "l_yiaddr victim = m_ciaddr old" and "l_chaddr victim \<noteq> blank_chaddr"
  shows "\<exists>st' d q lt os' k. handle_request cfg arp tx now st old = Some (st', [(d, q)]) \<and> m_yiaddr q = l_yiaddr victim \<and>
    reply_to cfg old DHCPACK ((DHCP_LEASE_TIME, be32 lt) # os') q \<and>
    find_lease_by_chaddr (s_leases st') (m_chaddr old) = Some k \<and> l_yiaddr (s_leases st' ! k) = l_yiaddr victim \<and>
    find_lease_by_chaddr (s_leases st') (l_chaddr victim) = None"
proof -
  let ?c = "m_chaddr old" and ?y = "m_ciaddr old"
  have c: "length ?c = 16" using assms(2) by (simp add: message_ok_def)
  obtain req where req: "option_u32 old DHCP_LEASE_TIME = Some req" using option_u32_total [OF assms(2-4)] by blast
  have no: "option_u32 old DHCP_REQUESTED_IP = Some None" "option_u32 old DHCP_SERVER_ID = Some None"
    using option_u32_total [OF assms(2-4), of DHCP_REQUESTED_IP] option_u32_total [OF assms(2-4), of DHCP_SERVER_ID] assms(5,6)
    by auto
  have st: "find_static_lease_by_chaddr (s_static st) ?c = None" "find_lease_by_chaddr (s_leases st) ?c = None"
    using assms(9) by (auto simp: lookup_client_def split: option.splits)
  have r: "handle_request cfg arp tx now st old = sendACK cfg tx now st old ?y"
    using no assms(9,11,12) by (simp add: handle_request_def)
  obtain d q os' h ls where ls: "ls = add_acked_lease now (s_leases st) ?c ?y (ack_lease_time cfg req) h"
    and ack: "sendACK cfg tx now st old ?y = Some (st\<lparr>s_leases := ls, s_file := write_leases cfg now ls (s_static st)\<rparr>, [(d, q)])"
    and q: "reply_to cfg old DHCPACK ((DHCP_LEASE_TIME, be32 (ack_lease_time cfg req)) # os') q" "m_yiaddr q = ?y"
    using sendACK_dynamic [where tx = tx and now = now and y = "?y", OF assms(2,3,7) st(1) req assms(8)] by blast
  have ex: "\<exists>l\<in>set (s_leases st). lease_expired now l \<or> conflicting ?c ?y l"
    using assms(11,13,14) by (auto simp: conflicting_def)
  from c ex assms(10,11) obtain k where k: "find_lease_by_chaddr ls ?c = Some k" "l_yiaddr (ls ! k) = ?y"
    unfolding ls by (rule add_acked_lease_finds)
  have nv: "find_lease_by_chaddr ls (l_chaddr victim) = None"
    unfolding ls by (rule add_acked_lease_forgets [OF assms(1) c st(2) assms(11,13-15)])
  let ?st = "st\<lparr>s_leases := ls, s_file := write_leases cfg now ls (s_static st)\<rparr>"
  have "handle_request cfg arp tx now st old = Some (?st, [(d, q)])" using r ack by simp
  moreover have "s_leases ?st = ls" by simp
  ultimately show ?thesis using q k nv assms(14) by metis
qed

definition other_message :: dhcpMessage where
  "other_message = renewing_message\<lparr>m_chaddr := replicate 16 2\<rparr>"

lemma other_message_ok: "message_ok other_message" "opts_enc (m_options other_message) []"
  using renewing_message_ok by (simp_all add: other_message_def message_ok_def packet_ok_def)

theorem renewal_takes_over_witness:
  "\<exists>st' d q. handle_request example_config (\<lambda>a. False) (\<lambda>d q. 0) 100 one_lease_server other_message = Some (st', [(d, q)]) \<and>
    m_yiaddr q = l_yiaddr example_lease \<and> find_lease_by_chaddr (s_leases st') (l_chaddr example_lease) = None"
proof -
  have m: "m_chaddr other_message = replicate 16 2" "m_ciaddr other_message = 0xC0A80014"
    by (simp_all add: other_message_def renewing_message_def example_message_def)
  have v: "l_yiaddr example_lease = 0xC0A80014" "l_chaddr example_lease = replicate 16 1" by (simp_all add: example_lease_def)
  have "lookup_client one_lease_server (m_chaddr other_message) = None"
    unfolding m by (simp add: one_lease_server_def example_lease_def find_static_lease_by_chaddr_def static_entries_def
        find_lease_by_chaddr_def lookup_client_def)
  moreover have "valid_ip example_config (m_ciaddr other_message)"
    unfolding m by (simp add: valid_ip_def example_config_def)
  moreover have "leases_ok (s_leases one_lease_server)" "example_lease \<in> set (s_leases one_lease_server)"
    by (simp_all add: one_lease_server_def leases_ok_def v)
  ultimately show ?thesis
    using renewal_takes_over [where cfg = example_config and st = one_lease_server and old = other_message and os = "[]"
        and tx = "\<lambda>d q. 0" and victim = example_lease and now = 100 and arp = "\<lambda>a. False"]
      other_message_ok example_offer_premises(1,2)
    by (simp add: m v blank_chaddr_def) blast
qed

text \<open>An infinite lease is over at once. When a client without a static lease asks for the lease time
  0xFFFFFFFF, the acknowledgement grants it, but the expiry time wraps around: the entry counts as expired
  immediately, so the address may be given to somebody else.\<close>

theorem infinite_lease_expires:
  assumes "message_ok old" and "opts_enc (m_options old) os" and "\<forall>d\<in>set (sc_options cfg). option_string_ok d"
    and "find_static_lease_by_chaddr (s_static st) (m_chaddr old) = None"
    and "option_u32 old DHCP_LEASE_TIME = Some (Some 0xFFFFFFFF)" and "\<And>d q. 0 \<le> tx d q"
    and "\<exists>l\<in>set (s_leases st). lease_expired now l" and "m_chaddr old \<noteq> blank_chaddr" and "y \<noteq> 0" and "now \<noteq> 0"
  shows "\<exists>st' d q os' k. sendACK cfg tx now st old y = Some (st', [(d, q)]) \<and>
    reply_to cfg old DHCPACK ((DHCP_LEASE_TIME, be32 0xFFFFFFFF) # os') q \<and>
    find_lease_by_chaddr (s_leases st') (m_chaddr old) = Some k \<and> lease_expired now (s_leases st' ! k)"
proof -
  let ?c = "m_chaddr old"
  have "\<not> (0xFFFFFFFF :: u32) < sc_min_lease cfg" 
    using unsigned_less [of "sc_min_lease cfg", where ?'a = nat] by (simp add: not_less word_le_nat_alt)
  then have lt: "ack_lease_time cfg (Some 0xFFFFFFFF) = 0xFFFFFFFF" by (simp add: ack_lease_time_def)
  obtain d q os' h ls where ls: "ls = add_acked_lease now (s_leases st) ?c y 0xFFFFFFFF h"
    and ack: "sendACK cfg tx now st old y = Some (st\<lparr>s_leases := ls, s_file := write_leases cfg now ls (s_static st)\<rparr>, [(d, q)])"
    and q: "reply_to cfg old DHCPACK ((DHCP_LEASE_TIME, be32 0xFFFFFFFF) # os') q"
    using sendACK_dynamic [where tx = tx and now = now and y = y, OF assms(1-6)] unfolding lt by blast
  have c: "length ?c = 16" using assms(1) by (simp add: message_ok_def)
  have ex: "\<exists>l\<in>set (s_leases st). lease_expired now l \<or> conflicting ?c y l" using assms(7) by blast
  from c ex assms(8,9) obtain k where k: "find_lease_by_chaddr ls ?c = Some k" "l_expires (ls ! k) = now + 0xFFFFFFFF"
    unfolding ls by (rule add_acked_lease_finds)
  have "l_expires (ls ! k) = now - 1" unfolding k(2) by simp
  moreover have "now - 1 \<le> now" using assms(10) by (simp add: word_le_nat_alt unat_minus_one)
  ultimately have "lease_expired now (ls ! k)" by (simp only: lease_expired_def)
  with ack q k(1) show ?thesis by fastforce
qed

definition infinite_message :: dhcpMessage where
  "infinite_message = example_message\<lparr>m_options := enc [(DHCP_LEASE_TIME, replicate 4 0xFF)] @ DHCP_END # replicate 301 0\<rparr>"

lemma infinite_message_ok:
  "message_ok infinite_message" "opts_enc (m_options infinite_message) [(DHCP_LEASE_TIME, replicate 4 0xFF)]"
  unfolding opts_enc_def using example_message_ok(1) plain_codes(2)
  by (auto simp: infinite_message_def message_ok_def packet_ok_def)

lemma infinite_message_lease_time: "option_u32 infinite_message DHCP_LEASE_TIME = Some (Some 0xFFFFFFFF)"
proof -
  have g: "get_option infinite_message DHCP_LEASE_TIME = Some (Some 198)"
    using get_option_opts_enc [OF infinite_message_ok plain_codes(2)] by simp
  let ?pre = "m_sname infinite_message @ m_file infinite_message @ be32 (m_cookie infinite_message) @ [DHCP_LEASE_TIME, 4]"
  have mem: "packet_mem infinite_message = ?pre @ [0xFF, 0xFF, 0xFF, 0xFF] @ DHCP_END # replicate 301 0"
    by (simp add: packet_mem_def infinite_message_def numeral_eq_Suc)
  have "length ?pre = 198" using infinite_message_ok(1) by (simp add: message_ok_def packet_ok_def)
  then have "drop 198 (packet_mem infinite_message) = [0xFF, 0xFF, 0xFF, 0xFF] @ DHCP_END # replicate 301 0" unfolding mem by simp
  then have "of_be32 (drop 198 (packet_mem infinite_message)) = 0xFFFFFFFF" by (simp add: of_be32_def)
  with g length_packet_mem [OF infinite_message_ok(1)] show ?thesis by (simp add: option_u32_def u32_at_def)
qed

theorem infinite_lease_expires_witness:
  "\<exists>st' d q k. sendACK example_config (\<lambda>d q. 0) 100 (start_server example_config 100 2 [] []) infinite_message 0xC0A80014 = Some (st', [(d, q)]) \<and>
    find_lease_by_chaddr (s_leases st') (replicate 16 1) = Some k \<and> lease_expired 100 (s_leases st' ! k)"
proof -
  have m: "m_chaddr infinite_message = replicate 16 1" "m_chaddr example_message = replicate 16 1"
    by (simp_all add: infinite_message_def example_message_def)
  have n: "find_static_lease_by_chaddr (s_static (start_server example_config 100 2 [] [])) (m_chaddr infinite_message) = None"
    using example_offer_premises(4) by (simp add: m)
  show ?thesis
    using infinite_lease_expires [OF infinite_message_ok example_offer_premises(2) n infinite_message_lease_time _ example_offer_premises(6),
        of "\<lambda>d q. 0" "0xC0A80014"]
    by (simp add: m blank_chaddr_def) blast
qed

end
