(* ===== verification/Dhcp_Client.thy ===== *)
theory Dhcp_Client
  imports Dhcp_Server
begin

text \<open>
  The DHCP client: the messages of \<^verbatim>\<open>progs.gpl/udhcpcd/clientpacket.c\<close> and the state machine of
  \<^verbatim>\<open>progs.gpl/udhcpcd/dhcpc.c\<close>. One turn of the main loop is a timeout, a received packet or a signal; each is a
  function of the state that returns the new state and the actions taken: messages sent, scripts run, the end
  of the process. The clock, the random transaction number and the answer to an ARP request are arguments. The build
  has \<^verbatim>\<open>REQUEST_BROADCAST\<close> and neither \<^verbatim>\<open>DHCPPLUS\<close> nor the options of other vendors; the detection mode (\<^verbatim>\<open>-t\<close>) only prints,
  and the further runs of the script, one per route of an acknowledgement, leave the state alone: neither is modelled.
\<close>

definition DHCP_PARAM_REQ :: byte where "DHCP_PARAM_REQ = 0x37"
definition SERVER_PORT :: u16 where "SERVER_PORT = 67"
definition CLIENT_PORT :: u16 where "CLIENT_PORT = 68"

record client_config_t =
  cc_foreground :: bool
  cc_quit_after_lease :: bool
  cc_abort_if_no_lease :: bool
  cc_background_if_no_lease :: bool
  cc_clientid :: "byte list"
  cc_hostname :: "byte list option"
  cc_arp :: "byte list"
  cc_discover_delay :: u32
  cc_discover_retry :: nat
  cc_discover_sleep :: u32
  cc_query :: bool
  cc_unicast :: bool

subsection \<open>Messages\<close>

definition client_init_packet :: "client_config_t \<Rightarrow> byte \<Rightarrow> dhcpMessage option" where
  "client_init_packet cc type = do {
     p \<leftarrow> init_header type;
     (_, o1) \<leftarrow> add_option_string (m_options p) (cc_clientid cc);
     (_, o2) \<leftarrow> (case cc_hostname cc of None \<Rightarrow> Some (0, o1) | Some h \<Rightarrow> add_option_string o1 h);
     Some (p\<lparr>m_chaddr := take 6 (cc_arp cc) @ drop 6 (m_chaddr p), m_options := o2\<rparr>) }"

text \<open>The codes of the parameter request list; it is written over the end mark without a bounds check.\<close>

definition requested_codes :: "byte list" where
  "requested_codes = map o_code (filter o_req options_table) @ [43, 60, 212]"

definition add_requests :: "client_config_t \<Rightarrow> dhcpMessage \<Rightarrow> dhcpMessage option" where
  "add_requests cc p = do {
     e \<leftarrow> end_option (m_options p);
     opts \<leftarrow> blit (m_options p) e
       (DHCP_PARAM_REQ # of_nat (length requested_codes) # requested_codes @ [DHCP_END]);
     Some (p\<lparr>m_options := opts,
       m_flags := (if \<not> cc_unicast cc then m_flags p OR 0x8000 else m_flags p AND NOT 0x8000)\<rparr>) }"

definition send_discover :: "client_config_t \<Rightarrow> u32 \<Rightarrow> u32 \<Rightarrow> dhcpMessage option" where
  "send_discover cc xid requested = do {
     p \<leftarrow> client_init_packet cc DHCPDISCOVER;
     (_, opts) \<leftarrow> (if requested \<noteq> 0 then add_simple_option (m_options p) DHCP_REQUESTED_IP requested else Some (0, m_options p));
     add_requests cc (p\<lparr>m_xid := xid, m_options := opts\<rparr>) }"

definition send_selecting :: "client_config_t \<Rightarrow> u32 \<Rightarrow> u32 \<Rightarrow> u32 \<Rightarrow> dhcpMessage option" where
  "send_selecting cc xid server requested = do {
     p \<leftarrow> client_init_packet cc DHCPREQUEST;
     (_, o1) \<leftarrow> add_simple_option (m_options p) DHCP_REQUESTED_IP requested;
     (_, o2) \<leftarrow> add_simple_option o1 DHCP_SERVER_ID server;
     add_requests cc (p\<lparr>m_xid := xid, m_options := o2\<rparr>) }"

definition send_renew :: "client_config_t \<Rightarrow> u32 \<Rightarrow> u32 \<Rightarrow> dhcpMessage option" where
  "send_renew cc xid ciaddr = do {
     p \<leftarrow> client_init_packet cc DHCPREQUEST;
     add_requests cc (p\<lparr>m_xid := xid, m_ciaddr := ciaddr\<rparr>) }"

definition send_release :: "client_config_t \<Rightarrow> u32 \<Rightarrow> u32 \<Rightarrow> u32 \<Rightarrow> dhcpMessage option" where
  "send_release cc rnd server ciaddr = do {
     p \<leftarrow> client_init_packet cc DHCPRELEASE;
     (_, o1) \<leftarrow> add_simple_option (m_options p) DHCP_REQUESTED_IP ciaddr;
     (_, o2) \<leftarrow> add_simple_option o1 DHCP_SERVER_ID server;
     Some (p\<lparr>m_xid := rnd, m_ciaddr := ciaddr, m_options := o2\<rparr>) }"

definition send_decline :: "client_config_t \<Rightarrow> u32 \<Rightarrow> u32 \<Rightarrow> u32 \<Rightarrow> dhcpMessage option" where
  "send_decline cc xid server ciaddr = do {
     p \<leftarrow> client_init_packet cc DHCPDECLINE;
     (_, o1) \<leftarrow> add_simple_option (m_options p) DHCP_REQUESTED_IP ciaddr;
     (_, o2) \<leftarrow> add_simple_option o1 DHCP_SERVER_ID server;
     Some (p\<lparr>m_xid := xid, m_options := o2\<rparr>) }"

text \<open>A frame from the raw socket. \<open>payload\<close> is the message left from the previous call, which a short packet
  overwrites only in part. A total length below that of the two headers makes the size of the copy wrap around: a
  fault.\<close>

definition get_raw_packet :: "byte list option \<Rightarrow> dhcpMessage \<Rightarrow> (int \<times> dhcpMessage) option" where
  "get_raw_packet datagram payload = (case datagram of None \<Rightarrow> Some (-1, payload)
     | Some d \<Rightarrow> (let
         pk = take 576 (d @ replicate 576 0);
         tot_len = of_be16 (drop 2 pk); saddr = of_be32 (drop 12 pk); daddr = of_be32 (drop 16 pk);
         udp_len = of_be16 (drop 24 pk); udp_check = of_be16 (drop 26 pk);
         bytes = unat tot_len in
       if min 576 (length d) < 28 then Some (-2, payload)
       else if min 576 (length d) < bytes then Some (-2, payload)
       else if pk ! 9 \<noteq> 17 \<or> drop_bit 4 (pk ! 0) \<noteq> 4 \<or> pk ! 0 AND 15 \<noteq> 5 \<or> of_be16 (drop 22 pk) \<noteq> CLIENT_PORT \<or>
          bytes > 576 \<or> udp_len \<noteq> tot_len - 20 then Some (-2, payload)
       else if of_be16 (drop 10 pk) \<noteq> checksum (take 10 pk @ [0, 0] @ take 8 (drop 12 pk)) then Some (-1, payload)
       else if udp_check \<noteq> 0 \<and> udp_check \<noteq> checksum (take bytes
            (ip_header 0 udp_len 0 0 saddr daddr @ take 6 (drop 20 pk) @ [0, 0] @ drop 28 pk)) then Some (-2, payload)
       else if bytes < 28 then None
       else let p = message_of (take (bytes - 28) (drop 28 pk) @ drop (bytes - 28) (message_bytes payload)) in
         if m_cookie p \<noteq> DHCP_MAGIC then Some (-2, p) else Some (int bytes - 28, p)))"

subsection \<open>The state machine\<close>

datatype client_state = INIT_SELECTING | REQUESTING | BOUND | RENEWING | REBINDING | RENEW_REQUESTED | RELEASED

datatype listen_mode = LISTEN_NONE | LISTEN_KERNEL | LISTEN_RAW

record client =
  c_state :: client_state
  c_listen :: listen_mode
  c_foreground :: bool
  c_requested_ip :: u32
  c_server_addr :: u32
  c_timeout :: u32
  c_packet_num :: nat
  c_t1 :: u32
  c_t2 :: u32
  c_xid :: u32
  c_start :: u32
  c_lease :: u32

datatype action = Broadcast dhcpMessage | Unicast u32 dhcpMessage | Run_script string | Background | Print string | Exit nat

text \<open>The end of \<^verbatim>\<open>send_renew\<close>: to the server, or to everybody when it is not known.\<close>

definition to_server :: "u32 \<Rightarrow> dhcpMessage \<Rightarrow> action" where
  "to_server server m = (if server \<noteq> 0 then Unicast server m else Broadcast m)"

definition change_mode :: "listen_mode \<Rightarrow> client \<Rightarrow> client" where
  "change_mode new_mode c = c\<lparr>c_listen := new_mode\<rparr>"

definition perform_renew :: "client \<Rightarrow> client \<times> action list" where
  "perform_renew c = (let
     (c1, acts) = (case c_state c of
         BOUND \<Rightarrow> ((change_mode LISTEN_KERNEL c)\<lparr>c_state := RENEW_REQUESTED\<rparr>, [])
       | RENEWING \<Rightarrow> (c\<lparr>c_state := RENEW_REQUESTED\<rparr>, [])
       | REBINDING \<Rightarrow> (c\<lparr>c_state := RENEW_REQUESTED\<rparr>, [])
       | RENEW_REQUESTED \<Rightarrow> ((change_mode LISTEN_RAW c)\<lparr>c_state := INIT_SELECTING\<rparr>, [Run_script ''deconfig''])
       | REQUESTING \<Rightarrow> ((change_mode LISTEN_RAW c)\<lparr>c_state := INIT_SELECTING\<rparr>, [])
       | RELEASED \<Rightarrow> ((change_mode LISTEN_RAW c)\<lparr>c_state := INIT_SELECTING\<rparr>, [])
       | INIT_SELECTING \<Rightarrow> (c, []))
   in (c1\<lparr>c_packet_num := 0, c_timeout := 0\<rparr>, acts))"

definition perform_release :: "client_config_t \<Rightarrow> u32 \<Rightarrow> client \<Rightarrow> (client \<times> action list) option" where
  "perform_release cc rnd c = do {
     acts \<leftarrow> (if c_state c \<in> {BOUND, RENEWING, REBINDING} then do {
         m \<leftarrow> send_release cc rnd (c_server_addr c) (c_requested_ip c);
         Some [Unicast (c_server_addr c) m, Run_script ''deconfig''] }
       else Some []);
     Some ((change_mode LISTEN_NONE c)\<lparr>c_state := RELEASED, c_timeout := 0x7fffffff\<rparr>, acts) }"

text \<open>The delay before the next attempt: doubled every time, at most 64 seconds.\<close>

definition backoff :: "client_config_t \<Rightarrow> u32 \<Rightarrow> nat \<Rightarrow> u32" where
  "backoff cc now n = (let t = push_bit n (cc_discover_delay cc) in (if t > 64 then 64 else t) + now)"

definition timeout_selecting :: "client_config_t \<Rightarrow> u32 \<Rightarrow> u32 \<Rightarrow> client \<Rightarrow> (client \<times> action list) option" where
  "timeout_selecting cc now rnd c =
     (if c_packet_num c < cc_discover_retry cc then do {
        let xid = (if c_packet_num c = 0 then rnd else c_xid c);
        m \<leftarrow> send_discover cc xid (c_requested_ip c);
        Some (c\<lparr>c_xid := xid, c_timeout := backoff cc now (c_packet_num c), c_packet_num := c_packet_num c + 1\<rparr>, [Broadcast m]) }
      else if cc_query cc then Some (c, [Print ''no'', Exit 1])
      else if cc_background_if_no_lease cc then
        Some (c\<lparr>c_foreground := True, c_packet_num := 0, c_timeout := now + cc_discover_sleep cc\<rparr>,
          Background # (if cc_discover_sleep cc = 0 then [Exit 1] else []))
      else if cc_abort_if_no_lease cc then Some (c, [Exit 1])
      else Some (c\<lparr>c_packet_num := 0, c_timeout := now + cc_discover_sleep cc\<rparr>,
        if cc_discover_sleep cc = 0 then [Exit 1] else []))"

definition timeout_requesting :: "client_config_t \<Rightarrow> u32 \<Rightarrow> client \<Rightarrow> (client \<times> action list) option" where
  "timeout_requesting cc now c =
     (if c_packet_num c < cc_discover_retry cc then do {
        act \<leftarrow> (if c_state c = RENEW_REQUESTED
          then map_option (to_server (c_server_addr c)) (send_renew cc (c_xid c) (c_requested_ip c))
          else map_option Broadcast (send_selecting cc (c_xid c) (c_server_addr c) (c_requested_ip c)));
        Some (c\<lparr>c_timeout := backoff cc now (c_packet_num c), c_packet_num := c_packet_num c + 1\<rparr>, [act]) }
      else let acts = (if c_state c = RENEW_REQUESTED then [Run_script ''deconfig''] else []) in
        if cc_discover_sleep cc = 0 then Some (c, acts @ [Exit 1])
        else Some ((change_mode LISTEN_RAW c)\<lparr>c_state := INIT_SELECTING, c_timeout := now, c_packet_num := 0\<rparr>, acts))"

definition timeout_renewing :: "client_config_t \<Rightarrow> u32 \<Rightarrow> client \<Rightarrow> (client \<times> action list) option" where
  "timeout_renewing cc now c =
     (if c_t2 c - c_t1 c \<le> c_lease c div 14400 + 1
      then Some (c\<lparr>c_state := REBINDING, c_timeout := now + (c_t2 c - c_t1 c)\<rparr>, [])
      else do {
        m \<leftarrow> send_renew cc (c_xid c) (c_requested_ip c);
        let t1 = (c_t2 c - c_t1 c) div 2 + c_t1 c;
        Some (c\<lparr>c_t1 := t1, c_timeout := t1 + c_start c\<rparr>,
          [to_server (c_server_addr c) m]) })"

definition timeout_rebinding :: "client_config_t \<Rightarrow> u32 \<Rightarrow> client \<Rightarrow> (client \<times> action list) option" where
  "timeout_rebinding cc now c =
     (if c_lease c - c_t2 c \<le> c_lease c div 14400 + 1
      then Some ((change_mode LISTEN_RAW c)\<lparr>c_state := INIT_SELECTING, c_timeout := now, c_packet_num := 0\<rparr>,
        [Run_script ''deconfig''])
      else do {
        m \<leftarrow> send_renew cc (c_xid c) (c_requested_ip c);
        let t2 = (c_lease c - c_t2 c) div 2 + c_t2 c;
        Some (c\<lparr>c_t2 := t2, c_timeout := t2 + c_start c\<rparr>, [Broadcast m]) })"

definition on_timeout :: "client_config_t \<Rightarrow> u32 \<Rightarrow> u32 \<Rightarrow> client \<Rightarrow> (client \<times> action list) option" where
  "on_timeout cc now rnd c = (case c_state c of
       INIT_SELECTING \<Rightarrow> timeout_selecting cc now rnd c
     | RENEW_REQUESTED \<Rightarrow> timeout_requesting cc now c
     | REQUESTING \<Rightarrow> timeout_requesting cc now c
     | BOUND \<Rightarrow> timeout_renewing cc now ((change_mode LISTEN_KERNEL c)\<lparr>c_state := RENEWING\<rparr>)
     | RENEWING \<Rightarrow> timeout_renewing cc now c
     | REBINDING \<Rightarrow> timeout_rebinding cc now c
     | RELEASED \<Rightarrow> Some (c\<lparr>c_timeout := 0x7fffffff\<rparr>, []))"

definition receive_offer :: "client_config_t \<Rightarrow> u32 \<Rightarrow> dhcpMessage \<Rightarrow> client \<Rightarrow> (client \<times> action list) option" where
  "receive_offer cc now p c = do {
     sid \<leftarrow> option_u32 p DHCP_SERVER_ID;
     Some (case sid of None \<Rightarrow> (c, [])
       | Some s \<Rightarrow>
           if cc_query cc then (c, [Print ''yes'', Exit 0])
           else (c\<lparr>c_server_addr := s, c_xid := m_xid p, c_requested_ip := m_yiaddr p, c_state := REQUESTING,
             c_timeout := now, c_packet_num := 0\<rparr>, [])) }"

text \<open>An acknowledgement; \<open>arp\<close> says that somebody already uses the address.\<close>

definition receive_ack :: "client_config_t \<Rightarrow> u32 \<Rightarrow> bool \<Rightarrow> dhcpMessage \<Rightarrow> client \<Rightarrow> (client \<times> action list) option" where
  "receive_ack cc now arp p c =
     (if c_state c = REQUESTING \<and> arp then do {
        m \<leftarrow> send_decline cc (c_xid c) (c_server_addr c) (m_yiaddr p);
        Some (c\<lparr>c_state := INIT_SELECTING, c_timeout := now, c_requested_ip := 0, c_packet_num := 0\<rparr>, [Broadcast m]) }
      else do {
        lt \<leftarrow> option_u32 p DHCP_LEASE_TIME;
        let lease = (case lt of None \<Rightarrow> 60 * 60 | Some l \<Rightarrow> l);
        let t1 = lease div 2;
        let t2 = drop_bit 3 (lease * 0x7);
        let acts = [Run_script (if c_state c = RENEWING \<or> c_state c = REBINDING then ''renew'' else ''bound'')] @
          (if cc_quit_after_lease cc then [Exit 0] else if \<not> c_foreground c then [Background] else []);
        Some ((change_mode LISTEN_NONE c)\<lparr>c_state := BOUND, c_lease := lease, c_t1 := t1, c_t2 := t2, c_start := now,
          c_timeout := t1 + now, c_requested_ip := m_yiaddr p, c_foreground := True\<rparr>, acts) })"

definition receive_nak :: "u32 \<Rightarrow> dhcpMessage \<Rightarrow> client \<Rightarrow> (client \<times> action list) option" where
  "receive_nak now p c = do {
     sid \<leftarrow> option_u32 p DHCP_SERVER_ID;
     Some (if sid = Some (c_server_addr c)
       then ((change_mode LISTEN_RAW c)\<lparr>c_state := INIT_SELECTING, c_timeout := now, c_requested_ip := 0, c_packet_num := 0\<rparr>,
         Run_script ''nak'' # (if c_state c \<noteq> REQUESTING then [Run_script ''deconfig''] else []))
       else (c, [])) }"

definition on_packet :: "client_config_t \<Rightarrow> u32 \<Rightarrow> bool \<Rightarrow> dhcpMessage \<Rightarrow> client \<Rightarrow> (client \<times> action list) option" where
  "on_packet cc now arp p c =
     (if c_listen c = LISTEN_NONE \<or> m_xid p \<noteq> c_xid c then Some (c, [])
      else do {
        msg \<leftarrow> get_option p DHCP_MESSAGE_TYPE;
        case msg of None \<Rightarrow> Some (c, [])
        | Some k \<Rightarrow> do {
            t \<leftarrow> rd (packet_mem p) k;
            if c_state c = INIT_SELECTING then (if t = DHCPOFFER then receive_offer cc now p c else Some (c, []))
            else if c_state c \<in> {RENEW_REQUESTED, REQUESTING, RENEWING, REBINDING} then
              (if t = DHCPACK then receive_ack cc now arp p c
               else if t = DHCPNAK then receive_nak now p c else Some (c, []))
            else Some (c, []) } })"

datatype signal = SIGUSR1 | SIGUSR2 | SIGTERM

fun on_signal :: "client_config_t \<Rightarrow> u32 \<Rightarrow> signal \<Rightarrow> client \<Rightarrow> (client \<times> action list) option" where
  "on_signal cc rnd SIGUSR1 c = Some (perform_renew c)"
| "on_signal cc rnd SIGUSR2 c = perform_release cc rnd c"
| "on_signal cc rnd SIGTERM c = map_option (\<lambda>(c', acts). (c', acts @ [Exit 0])) (perform_release cc rnd c)"

definition client_start :: "client_config_t \<Rightarrow> u32 \<Rightarrow> u32 \<Rightarrow> client" where
  "client_start cc requested now = \<lparr>c_state = INIT_SELECTING, c_listen = LISTEN_RAW, c_foreground = cc_foreground cc,
     c_requested_ip = requested, c_server_addr = 0, c_timeout = now, c_packet_num = 0, c_t1 = 0, c_t2 = 0, c_xid = 0,
     c_start = 0, c_lease = 0\<rparr>"

subsection \<open>Frames\<close>

lemma raw_packet_fields:
  assumes "message_ok p"
  shows "raw_packet p src sport dst dport =
    [0x45, 0] @ be16 576 @ [0, 0, 0, 0, 64, 17] @ be16 (checksum (ip_header 0x45 576 64 0 src dst)) @ be32 src @ be32 dst @
    be16 sport @ be16 dport @ be16 556 @
    be16 (checksum (ip_header 0 556 0 0 src dst @ udp_header sport dport 556 0 @ message_bytes p)) @ message_bytes p"
  by (simp add: raw_packet_def Let_def ip_header_def udp_header_def)

text \<open>What the server sends is what the client receives: the frame built for a message passes all checks of the
  client's raw socket reader, header fields, lengths and both checksums, and is delivered unchanged.\<close>

theorem raw_packet_received:
  assumes "message_ok p" and "m_cookie p = DHCP_MAGIC" and "message_ok old"
  shows "get_raw_packet (Some (raw_packet p src SERVER_PORT dst CLIENT_PORT)) old = Some (548, p)"
proof -
  let ?ic = "checksum (ip_header 0x45 576 64 0 src dst)"
  let ?uc = "checksum (ip_header 0 556 0 0 src dst @ udp_header SERVER_PORT CLIENT_PORT 556 0 @ message_bytes p)"
  let ?tail = "be16 SERVER_PORT @ be16 CLIENT_PORT @ be16 556 @ be16 ?uc @ message_bytes p"
  let ?b = "[0x45, 0] @ be16 576 @ [0, 0, 0, 0, 64, 17] @ be16 ?ic @ be32 src @ be32 dst @ ?tail"
  have b: "raw_packet p src SERVER_PORT dst CLIENT_PORT = ?b" by (rule raw_packet_fields [OF assms(1)])
  have len: "length ?b = 576" "take 576 (?b @ replicate 576 0) = ?b" using assms(1) by simp_all
  have f: "of_be16 (drop 2 ?b) = 576" "of_be32 (drop 12 ?b) = src" "of_be32 (drop 16 ?b) = dst" "of_be16 (drop 24 ?b) = 556"
    "of_be16 (drop 26 ?b) = ?uc" "?b ! 9 = 17" "?b ! 0 = 0x45" "of_be16 (drop 22 ?b) = CLIENT_PORT" "of_be16 (drop 10 ?b) = ?ic"
    by (simp_all add: nth_append)
  have i: "take 10 ?b @ [0, 0] @ take 8 (drop 12 ?b) = ip_header 0x45 576 64 0 src dst"
    by (simp add: ip_header_def be16_def [of 0])
  have u: "take 576 (ip_header 0 556 0 0 src dst @ take 6 (drop 20 ?b) @ [0, 0] @ drop 28 ?b) =
      ip_header 0 556 0 0 src dst @ udp_header SERVER_PORT CLIENT_PORT 556 0 @ message_bytes p"
    using assms(1) by (simp add: ip_header_def udp_header_def be16_def [of 0])
  have n: "unat (576 :: u16) = 576" by simp
  have m: "message_of (take 548 (drop 28 ?b) @ drop 548 (message_bytes old)) = p"
    using assms(1,3) message_of_bytes [OF assms(1), of "[]"] by simp
  show ?thesis
    unfolding get_raw_packet_def b option.case Let_def len f n i u
    using m assms(2) by simp
qed

theorem raw_packet_received_witness:
  "get_raw_packet (Some (raw_packet example_message 0xC0A80001 SERVER_PORT 0xC0A80014 CLIENT_PORT)) blank_message = Some (548, example_message)"
  by (rule raw_packet_received)
    (use example_message_ok(1) in \<open>auto simp: example_message_def message_ok_def packet_ok_def blank_message_def\<close>)

text \<open>A frame whose IP header announces fewer bytes than the two headers have crashes the client. With a total
  length below 28 and a UDP length to match all checks pass, and the number of bytes to copy wraps around.\<close>

theorem get_raw_packet_short_length:
  assumes "t < 28"
  shows "get_raw_packet (Some (ip_header 0x45 t 64 (checksum (ip_header 0x45 t 64 0 src dst)) src dst @
      udp_header sport CLIENT_PORT (t - 20) 0 @ rest)) old = None"
proof -
  let ?ic = "checksum (ip_header 0x45 t 64 0 src dst)"
  let ?d = "[0x45, 0] @ be16 t @ [0, 0, 0, 0, 64, 17] @ be16 ?ic @ be32 src @ be32 dst @
    be16 sport @ be16 CLIENT_PORT @ be16 (t - 20) @ be16 0 @ rest"
  have d: "ip_header 0x45 t 64 ?ic src dst @ udp_header sport CLIENT_PORT (t - 20) 0 @ rest = ?d"
    by (simp add: ip_header_def udp_header_def)
  define z where "z = take (576 - 28) (rest @ replicate 576 0)"
  let ?b = "[0x45, 0] @ be16 t @ [0, 0, 0, 0, 64, 17] @ be16 ?ic @ be32 src @ be32 dst @
    be16 sport @ be16 CLIENT_PORT @ be16 (t - 20) @ be16 0 @ z"
  have pk: "take 576 (?d @ replicate 576 0) = ?b" by (simp add: z_def)
  have f: "of_be16 (drop 2 ?b) = t" "of_be16 (drop 24 ?b) = t - 20" "of_be16 (drop 26 ?b) = 0" "?b ! 9 = 17" "?b ! 0 = 0x45"
    "of_be16 (drop 22 ?b) = CLIENT_PORT" "of_be16 (drop 10 ?b) = ?ic"
    by (simp_all add: nth_append)
  have i: "take 10 ?b @ [0, 0] @ take 8 (drop 12 ?b) = ip_header 0x45 t 64 0 src dst"
    by (simp add: ip_header_def be16_def [of 0])
  have t: "unat t < 28" using assms by (simp add: word_less_nat_alt)
  have len: "28 \<le> min 576 (length ?d)" by simp
  show ?thesis
    unfolding get_raw_packet_def d option.case Let_def pk f i using t len by simp
qed

theorem get_raw_packet_short_length_witness:
  "get_raw_packet (Some (ip_header 0x45 24 64 (checksum (ip_header 0x45 24 64 0 1 2)) 1 2 @ udp_header 67 CLIENT_PORT 4 0 @ []))
    blank_message = None"
  using get_raw_packet_short_length [of 24 1 2 67 "[]" blank_message] by simp

subsection \<open>Messages of the client are well formed\<close>

definition cc_ok :: "client_config_t \<Rightarrow> bool" where
  "cc_ok cc \<longleftrightarrow> length (cc_arp cc) = 6 \<and> (\<exists>d. cc_clientid cc = tlv (0x3d, d) \<and> length d \<le> 64) \<and>
     (\<forall>h. cc_hostname cc = Some h \<longrightarrow> (\<exists>d. h = tlv (DHCP_HOST_NAME, d) \<and> length d \<le> 64))"

definition client_chaddr :: "client_config_t \<Rightarrow> byte list" where
  "client_chaddr cc = cc_arp cc @ replicate 10 0"

text \<open>\<open>client_message cc t os m\<close>: a request of type \<open>t\<close> from this client with the options \<open>os\<close> behind the type.\<close>

definition client_message :: "client_config_t \<Rightarrow> byte \<Rightarrow> (byte \<times> byte list) list \<Rightarrow> dhcpMessage \<Rightarrow> bool" where
  "client_message cc t os m \<longleftrightarrow> message_ok m \<and> m_op m = BOOTREQUEST \<and> m_cookie m = DHCP_MAGIC \<and> m_chaddr m = client_chaddr cc \<and>
     opts_enc (m_options m) ((DHCP_MESSAGE_TYPE, [t]) # os)"

lemma init_header_request:
  assumes "t \<in> {DHCPDISCOVER, DHCPREQUEST, DHCPRELEASE, DHCPDECLINE}"
  shows "\<exists>opts. init_header t = Some (blank_message\<lparr>m_op := BOOTREQUEST, m_htype := 1, m_hlen := 6, m_cookie := DHCP_MAGIC,
      m_options := opts\<rparr>) \<and> opts_enc opts [(DHCP_MESSAGE_TYPE, [t])]"
  using assms init_header_opts [of t] by auto

lemma opts_enc_fits:
  "opts_enc opts os \<Longrightarrow> plain_option (c, d) \<Longrightarrow> length (enc os) + length d + 3 < 308 \<Longrightarrow>
    \<exists>n opts'. add_option_string opts (tlv (c, d)) = Some (n, opts') \<and> opts_enc opts' (os @ [(c, d)])"
  using opts_enc_add [of opts os c d] by auto

lemma plain_client_codes: "plain_code 0x3d" "plain_code DHCP_PARAM_REQ"
  by (simp_all add: plain_code_def DHCP_PADDING_def DHCP_OPTION_OVER_def DHCP_END_def DHCP_PARAM_REQ_def)

lemma client_init_packet_message:
  assumes "cc_ok cc" and "t \<in> {DHCPDISCOVER, DHCPREQUEST, DHCPRELEASE, DHCPDECLINE}"
  shows "\<exists>p os. client_init_packet cc t = Some p \<and> client_message cc t os p \<and> fst ` set os \<subseteq> {0x3d, DHCP_HOST_NAME} \<and>
    length (enc os) \<le> 132 \<and> m_giaddr p = 0 \<and> m_ciaddr p = 0 \<and> m_flags p = 0"
proof -
  obtain opts where h: "init_header t = Some (blank_message\<lparr>m_op := BOOTREQUEST, m_htype := 1, m_hlen := 6,
      m_cookie := DHCP_MAGIC, m_options := opts\<rparr>)" and o: "opts_enc opts [(DHCP_MESSAGE_TYPE, [t])]"
    using init_header_request [OF assms(2)] by blast
  obtain d where d: "cc_clientid cc = tlv (0x3d, d)" "length d \<le> 64" "length (cc_arp cc) = 6"
    using assms(1) by (auto simp: cc_ok_def)
  have pd: "plain_option (0x3d, d)" using d(2) plain_client_codes(1) by simp
  obtain n1 o1 where o1: "add_option_string opts (tlv (0x3d, d)) = Some (n1, o1)"
    "opts_enc o1 ([(DHCP_MESSAGE_TYPE, [t])] @ [(0x3d, d)])"
    using opts_enc_fits [OF o pd] d(2) by auto
  obtain n2 o2 os where o2: "(case cc_hostname cc of None \<Rightarrow> Some (0, o1) | Some h \<Rightarrow> add_option_string o1 h) = Some (n2, o2)"
    "opts_enc o2 ((DHCP_MESSAGE_TYPE, [t]) # (0x3d, d) # os)" "fst ` set os \<subseteq> {DHCP_HOST_NAME}" "length (enc os) \<le> 66"
  proof (cases "cc_hostname cc")
    case None
    with o1(2) that [of 0 o1 "[]"] show ?thesis by simp
  next
    case (Some h)
    then obtain e where e: "h = tlv (DHCP_HOST_NAME, e)" "length e \<le> 64" using assms(1) by (auto simp: cc_ok_def)
    have "plain_option (DHCP_HOST_NAME, e)" using e(2) plain_codes(4) by simp
    from opts_enc_fits [OF o1(2) this] e(2) d(2) obtain n2 o2 where
      "add_option_string o1 (tlv (DHCP_HOST_NAME, e)) = Some (n2, o2)"
      "opts_enc o2 ([(DHCP_MESSAGE_TYPE, [t])] @ [(0x3d, d)] @ [(DHCP_HOST_NAME, e)])" by auto
    with that [of n2 o2 "[(DHCP_HOST_NAME, e)]"] Some e show ?thesis by simp
  qed
  let ?p = "blank_message\<lparr>m_op := BOOTREQUEST, m_htype := 1, m_hlen := 6, m_cookie := DHCP_MAGIC,
      m_chaddr := client_chaddr cc, m_options := o2\<rparr>"
  have "client_init_packet cc t = Some ?p"
    using h o1(1) o2(1) d by (simp add: client_init_packet_def client_chaddr_def blank_message_def del: tlv.simps)
  moreover have "client_message cc t ((0x3d, d) # os) ?p"
    using o2(2) d(3) by (simp add: client_message_def message_ok_def packet_ok_def blank_message_def client_chaddr_def opts_enc_def)
  moreover have "fst ` set ((0x3d, d) # os) \<subseteq> {0x3d, DHCP_HOST_NAME}" "length (enc ((0x3d, d) # os)) \<le> 132"
    using o2(3,4) d(2) by auto
  ultimately show ?thesis by (intro exI [of _ ?p] exI [of _ "(0x3d, d) # os"]) (simp add: blank_message_def)
qed

lemma blit_append: "length ys \<le> length zs \<Longrightarrow> blit (xs @ zs) (length xs) ys = Some (xs @ ys @ drop (length ys) zs)"
  by (simp add: blit_def)

lemma requested_codes_length: "length requested_codes = 13"
  by (simp add: requested_codes_def options_table_def)

lemma add_requests_message:
  assumes "client_message cc t os p" and "length (enc os) \<le> 200"
  shows "\<exists>q. add_requests cc p = Some q \<and> client_message cc t (os @ [(DHCP_PARAM_REQ, requested_codes)]) q \<and>
    m_xid q = m_xid p \<and> m_giaddr q = m_giaddr p \<and> m_ciaddr q = m_ciaddr p"
proof -
  let ?os = "(DHCP_MESSAGE_TYPE, [t]) # os" and ?w = "DHCP_PARAM_REQ # of_nat (length requested_codes) # requested_codes @ [DHCP_END]"
  obtain rest where o: "length (m_options p) = 308" "m_options p = enc ?os @ DHCP_END # rest" "list_all plain_option ?os"
    using assms(1) by (auto simp: client_message_def opts_enc_def)
  have e: "end_option (m_options p) = Some (length (enc ?os))"
    using end_loop_enc [OF o(3), of "[]" rest] by (simp add: end_option_def o(2))
  have w: "length ?w = 16" by (simp add: requested_codes_length)
  have b: "blit (m_options p) (length (enc ?os)) ?w = Some (enc ?os @ ?w @ drop 15 rest)"
  proof -
    have "length ?w \<le> length (DHCP_END # rest)" using w o(1) assms(2) unfolding o(2) by simp
    from blit_append [OF this, of "enc ?os"] show ?thesis unfolding o(2) w by simp
  qed
  have eq: "enc ?os @ ?w @ drop 15 rest = enc (?os @ [(DHCP_PARAM_REQ, requested_codes)]) @ DHCP_END # drop 15 rest" by simp
  have "length (enc ?os @ ?w @ drop 15 rest) = 308" using b o(1) blit_length by metis
  moreover have "list_all plain_option (?os @ [(DHCP_PARAM_REQ, requested_codes)])"
    using o(3) plain_client_codes(2) by (simp add: requested_codes_length)
  ultimately have "opts_enc (enc ?os @ ?w @ drop 15 rest) (?os @ [(DHCP_PARAM_REQ, requested_codes)])"
    unfolding opts_enc_def using eq by blast
  with e b assms(1) show ?thesis
    by (auto simp: add_requests_def client_message_def message_ok_def packet_ok_def opts_enc_def)
qed

lemma client_message_add:
  assumes "client_message cc t os p" and "plain_option (c, d)" and "length (enc os) + length d \<le> 290"
  shows "\<exists>n opts. add_option_string (m_options p) (tlv (c, d)) = Some (n, opts) \<and>
    client_message cc t (os @ [(c, d)]) (p\<lparr>m_options := opts\<rparr>)"
proof -
  have "opts_enc (m_options p) ((DHCP_MESSAGE_TYPE, [t]) # os)" using assms(1) by (simp add: client_message_def)
  from opts_enc_fits [OF this assms(2)] assms(3) obtain n opts where
    "add_option_string (m_options p) (tlv (c, d)) = Some (n, opts)" "opts_enc opts (((DHCP_MESSAGE_TYPE, [t]) # os) @ [(c, d)])"
    by auto
  with assms(1) show ?thesis
    by (auto simp: client_message_def message_ok_def packet_ok_def opts_enc_def simp del: tlv.simps)
qed

lemma client_message_update:
  "client_message cc t os p \<Longrightarrow> client_message cc t os (p\<lparr>m_xid := x\<rparr>)"
  "client_message cc t os p \<Longrightarrow> client_message cc t os (p\<lparr>m_ciaddr := a\<rparr>)"
  "client_message cc t os (p\<lparr>m_options := opts\<rparr>) \<Longrightarrow> client_message cc t os (p\<lparr>m_xid := x, m_options := opts\<rparr>)"
  by (auto simp: client_message_def message_ok_def packet_ok_def)

lemma requested_ip_tlv:
  "add_simple_option opts DHCP_REQUESTED_IP v = add_option_string opts (tlv (DHCP_REQUESTED_IP, be32 v))"
  "plain_option (DHCP_REQUESTED_IP, be32 v)"
  using plain_codes(1)
  by (simp_all add: add_simple_option_def options_table_def DHCP_REQUESTED_IP_def Let_def)

lemma code_neqs:
  "DHCP_REQUESTED_IP \<noteq> DHCP_SERVER_ID" "DHCP_REQUESTED_IP \<noteq> 0x3d" "DHCP_REQUESTED_IP \<noteq> DHCP_HOST_NAME"
  "DHCP_SERVER_ID \<noteq> 0x3d" "DHCP_SERVER_ID \<noteq> DHCP_HOST_NAME" "DHCP_REQUESTED_IP \<noteq> DHCP_PARAM_REQ"
  "DHCP_SERVER_ID \<noteq> DHCP_PARAM_REQ" "DHCP_LEASE_TIME \<noteq> DHCP_PARAM_REQ" "DHCP_LEASE_TIME \<noteq> 0x3d"
  "DHCP_LEASE_TIME \<noteq> DHCP_HOST_NAME" "DHCP_LEASE_TIME \<noteq> DHCP_REQUESTED_IP" "DHCP_LEASE_TIME \<noteq> DHCP_SERVER_ID"
  "DHCP_MESSAGE_TYPE \<noteq> DHCP_SERVER_ID" "DHCP_MESSAGE_TYPE \<noteq> DHCP_REQUESTED_IP" "DHCP_MESSAGE_TYPE \<noteq> DHCP_LEASE_TIME"
  by (simp_all add: DHCP_REQUESTED_IP_def DHCP_SERVER_ID_def DHCP_HOST_NAME_def DHCP_PARAM_REQ_def DHCP_LEASE_TIME_def
      DHCP_MESSAGE_TYPE_def)

text \<open>The options of a client message other than the addresses.\<close>

definition own_options :: "(byte \<times> byte list) list \<Rightarrow> bool" where
  "own_options os \<longleftrightarrow> fst ` set os \<subseteq> {0x3d, DHCP_HOST_NAME} \<and> length (enc os) \<le> 132"

lemma send_renew_message:
  assumes "cc_ok cc"
  shows "\<exists>m os. send_renew cc xid a = Some m \<and> client_message cc DHCPREQUEST (os @ [(DHCP_PARAM_REQ, requested_codes)]) m \<and>
    own_options os \<and> m_xid m = xid \<and> m_ciaddr m = a"
proof -
  obtain p os where p: "client_init_packet cc DHCPREQUEST = Some p" "client_message cc DHCPREQUEST os p"
    "fst ` set os \<subseteq> {0x3d, DHCP_HOST_NAME}" "length (enc os) \<le> 132"
    using client_init_packet_message [OF assms, of DHCPREQUEST] by auto
  have "client_message cc DHCPREQUEST os (p\<lparr>m_xid := xid, m_ciaddr := a\<rparr>)"
    using client_message_update(2) [OF client_message_update(1) [OF p(2)]] by simp
  from add_requests_message [OF this] p(4) obtain q where
    "add_requests cc (p\<lparr>m_xid := xid, m_ciaddr := a\<rparr>) = Some q"
    "client_message cc DHCPREQUEST (os @ [(DHCP_PARAM_REQ, requested_codes)]) q" "m_xid q = xid" "m_ciaddr q = a" by auto
  then show ?thesis using p by (auto simp: send_renew_def own_options_def)
qed

lemma send_discover_message:
  assumes "cc_ok cc"
  shows "\<exists>m os rs. send_discover cc xid a = Some m \<and>
    client_message cc DHCPDISCOVER (os @ rs @ [(DHCP_PARAM_REQ, requested_codes)]) m \<and> own_options os \<and>
    rs = (if a \<noteq> 0 then [(DHCP_REQUESTED_IP, be32 a)] else []) \<and> m_xid m = xid"
proof -
  obtain p os where p: "client_init_packet cc DHCPDISCOVER = Some p" "client_message cc DHCPDISCOVER os p"
    "fst ` set os \<subseteq> {0x3d, DHCP_HOST_NAME}" "length (enc os) \<le> 132"
    using client_init_packet_message [OF assms, of DHCPDISCOVER] by auto
  define rs where "rs = (if a \<noteq> 0 then [(DHCP_REQUESTED_IP, be32 a)] else [])"
  obtain n opts where o: "(if a \<noteq> 0 then add_simple_option (m_options p) DHCP_REQUESTED_IP a else Some (0, m_options p)) = Some (n, opts)"
    "client_message cc DHCPDISCOVER (os @ rs) (p\<lparr>m_options := opts\<rparr>)"
  proof (cases "a = 0")
    case True
    with p(2) that [of 0 "m_options p"] show ?thesis by (simp add: rs_def)
  next
    case False
    with client_message_add [OF p(2) requested_ip_tlv(2) [of a]] p(4) that show ?thesis
      by (auto simp: rs_def requested_ip_tlv(1) simp del: tlv.simps)
  qed
  have "length (enc (os @ rs)) \<le> 200" using p(4) by (simp add: rs_def)
  from add_requests_message [OF client_message_update(3) [OF o(2), of xid] this] obtain q where
    "add_requests cc (p\<lparr>m_xid := xid, m_options := opts\<rparr>) = Some q"
    "client_message cc DHCPDISCOVER ((os @ rs) @ [(DHCP_PARAM_REQ, requested_codes)]) q" "m_xid q = xid" by auto
  then show ?thesis using p o(1) rs_def
    by (intro exI [of _ q] exI [of _ os] exI [of _ rs]) (auto simp: send_discover_def own_options_def)
qed

lemma send_selecting_message:
  assumes "cc_ok cc"
  shows "\<exists>m os. send_selecting cc xid s a = Some m \<and>
    client_message cc DHCPREQUEST (os @ [(DHCP_REQUESTED_IP, be32 a), (DHCP_SERVER_ID, be32 s), (DHCP_PARAM_REQ, requested_codes)]) m \<and>
    own_options os \<and> m_xid m = xid"
proof -
  obtain p os where p: "client_init_packet cc DHCPREQUEST = Some p" "client_message cc DHCPREQUEST os p"
    "fst ` set os \<subseteq> {0x3d, DHCP_HOST_NAME}" "length (enc os) \<le> 132"
    using client_init_packet_message [OF assms, of DHCPREQUEST] by auto
  obtain n1 o1 where o1: "add_simple_option (m_options p) DHCP_REQUESTED_IP a = Some (n1, o1)"
    "client_message cc DHCPREQUEST (os @ [(DHCP_REQUESTED_IP, be32 a)]) (p\<lparr>m_options := o1\<rparr>)"
    using client_message_add [OF p(2) requested_ip_tlv(2) [of a]] p(4) by (auto simp: requested_ip_tlv(1) simp del: tlv.simps)
  obtain n2 o2 where o2: "add_simple_option o1 DHCP_SERVER_ID s = Some (n2, o2)"
    "client_message cc DHCPREQUEST ((os @ [(DHCP_REQUESTED_IP, be32 a)]) @ [(DHCP_SERVER_ID, be32 s)]) (p\<lparr>m_options := o2\<rparr>)"
    using client_message_add [OF o1(2) plain_fixed(2) [of s]] p(4) by (auto simp: add_simple_option_tlv simp del: tlv.simps)
  have "length (enc ((os @ [(DHCP_REQUESTED_IP, be32 a)]) @ [(DHCP_SERVER_ID, be32 s)])) \<le> 200" using p(4) by simp
  from add_requests_message [OF client_message_update(3) [OF o2(2), of xid] this] obtain q where
    "add_requests cc (p\<lparr>m_xid := xid, m_options := o2\<rparr>) = Some q" "m_xid q = xid"
    "client_message cc DHCPREQUEST (((os @ [(DHCP_REQUESTED_IP, be32 a)]) @ [(DHCP_SERVER_ID, be32 s)]) @ [(DHCP_PARAM_REQ, requested_codes)]) q"
    by auto
  then show ?thesis using p o1(1) o2(1) by (intro exI [of _ q] exI [of _ os]) (auto simp: send_selecting_def own_options_def)
qed

subsection \<open>A client that hears nothing\<close>

text \<open>The next \<open>n\<close> timeouts, each handled when it is due.\<close>

fun silent :: "client_config_t \<Rightarrow> nat \<Rightarrow> client \<Rightarrow> (client \<times> action list) option" where
  "silent cc 0 c = Some (c, [])"
| "silent cc (Suc n) c = do {
     (c1, acts1) \<leftarrow> on_timeout cc (c_timeout c) 0 c;
     (c2, acts2) \<leftarrow> silent cc n c1;
     Some (c2, acts1 @ acts2) }"

lemma silent_append:
  "silent cc m c = Some (c1, a1) \<Longrightarrow> silent cc n c1 = Some (c2, a2) \<Longrightarrow> silent cc (m + n) c = Some (c2, a1 @ a2)"
proof (induction m arbitrary: c a1)
  case (Suc m)
  from Suc.prems(1) obtain c' b1 b2 where "on_timeout cc (c_timeout c) 0 c = Some (c', b1)" "silent cc m c' = Some (c1, b2)"
    "a1 = b1 @ b2" by (auto simp: bind_Some_iff)
  with Suc.IH [OF _ Suc.prems(2), of c' b2] show ?case by simp
qed simp

definition holds_lease :: "client \<Rightarrow> bool" where
  "holds_lease c \<longleftrightarrow> unat (c_start c) + unat (c_lease c) < 2 ^ 32 \<and> c_t2 c \<le> c_lease c \<and>
     (if c_state c = REBINDING then c_timeout c = c_t2 c + c_start c
      else c_state c \<in> {BOUND, RENEWING} \<and> c_t1 c \<le> c_t2 c \<and> c_timeout c = c_t1 c + c_start c)"

lemma halfway:
  fixes a b :: u32
  assumes "a \<le> b" and "b - a > l div 14400 + 1"
  shows "a < (b - a) div 2 + a" and "(b - a) div 2 + a \<le> b"
proof -
  have gap: "unat (b - a) = unat b - unat a" using assms(1) by (simp add: unat_sub word_le_nat_alt)
  have "unat l div 14400 < 4294967295" using unsigned_less [of l, where ?'a = nat] by (simp add: div_less_iff_less_mult)
  then have "unat (l div 14400 + 1) = unat l div 14400 + 1" by (simp add: unat_word_ariths unat_div)
  then have two: "2 \<le> unat b - unat a" using assms(2) gap by (simp add: word_less_nat_alt)
  have "unat ((b - a) div 2 + a) = (unat b - unat a) div 2 + unat a"
    using unsigned_less [of b, where ?'a = nat] assms(1) gap by (simp add: unat_word_ariths unat_div word_le_nat_alt)
  with two show "a < (b - a) div 2 + a" "(b - a) div 2 + a \<le> b" by (simp_all add: word_less_nat_alt word_le_nat_alt)
qed

lemma silent_renewing:
  assumes "cc_ok cc" and "holds_lease c" and "c_state c \<in> {BOUND, RENEWING}"
  shows "\<exists>n c' acts. silent cc n c = Some (c', acts) \<and> holds_lease c' \<and> c_state c' = REBINDING \<and>
    c_start c' = c_start c \<and> c_lease c' = c_lease c"
  using assms(2,3)
proof (induction "unat (c_t2 c - c_t1 c)" arbitrary: c rule: less_induct)
  case less
  let ?c = "if c_state c = BOUND then (change_mode LISTEN_KERNEL c)\<lparr>c_state := RENEWING\<rparr> else c"
  have f: "c_t1 ?c = c_t1 c" "c_t2 ?c = c_t2 c" "c_lease ?c = c_lease c" "c_start ?c = c_start c" "c_timeout ?c = c_timeout c"
    by (simp_all add: change_mode_def)
  have ot: "on_timeout cc (c_timeout c) 0 c = timeout_renewing cc (c_timeout c) ?c"
    using less.prems(2) by (auto simp: on_timeout_def)
  have inv: "unat (c_start c) + unat (c_lease c) < 2 ^ 32" "c_t2 c \<le> c_lease c" "c_t1 c \<le> c_t2 c" "c_timeout c = c_t1 c + c_start c"
    using less.prems by (auto simp: holds_lease_def split: if_splits)
  show ?case
  proof (cases "c_t2 c - c_t1 c \<le> c_lease c div 14400 + 1")
    case True
    let ?d = "?c\<lparr>c_state := REBINDING, c_timeout := c_timeout c + (c_t2 c - c_t1 c)\<rparr>"
    have "silent cc 1 c = Some (?d, [])" using ot True f by (simp add: timeout_renewing_def)
    moreover have "holds_lease ?d" using inv f by (simp add: holds_lease_def)
    ultimately show ?thesis using f by (intro exI [of _ 1] exI [of _ ?d]) simp
  next
    case False
    define t1 where "t1 = (c_t2 c - c_t1 c) div 2 + c_t1 c"
    have t1: "c_t1 c < t1" "t1 \<le> c_t2 c" using halfway [OF inv(3)] False by (simp_all add: t1_def not_le)
    obtain m where m: "send_renew cc (c_xid ?c) (c_requested_ip ?c) = Some m" using send_renew_message [OF assms(1)] by blast
    let ?d = "?c\<lparr>c_t1 := t1, c_timeout := t1 + c_start c\<rparr>"
    have step: "on_timeout cc (c_timeout c) 0 c = Some (?d, [to_server (c_server_addr ?c) m])"
      unfolding ot timeout_renewing_def f t1_def using False m by (simp add: Let_def)
    have "holds_lease ?d" "c_state ?d \<in> {BOUND, RENEWING}"
      using inv t1 less.prems(2) f by (auto simp: holds_lease_def change_mode_def)
    moreover have "unat (c_t2 ?d - c_t1 ?d) < unat (c_t2 c - c_t1 c)"
      using t1 inv(3) f by (simp add: unat_sub word_le_nat_alt word_less_nat_alt)
    ultimately obtain n c' acts where r: "silent cc n ?d = Some (c', acts)" "holds_lease c'" "c_state c' = REBINDING"
      "c_start c' = c_start ?d" "c_lease c' = c_lease ?d" using less.hyps [of ?d] by blast
    have "silent cc (Suc n) c = Some (c', to_server (c_server_addr ?c) m # acts)" using step r(1) by simp
    with r f show ?thesis by (intro exI [of _ "Suc n"] exI [of _ c']) simp
  qed
qed

lemma timeout_in_lease:
  assumes "unat (s :: u32) + unat (l :: u32) < 2 ^ 32" and "t \<le> l"
  shows "s \<le> t + s \<and> t + s \<le> s + l"
  using assms by (simp add: word_le_nat_alt unat_word_ariths)

lemma silent_rebinding:
  assumes "cc_ok cc" and "holds_lease c" and "c_state c = REBINDING"
  shows "\<exists>n c' acts. silent cc n c = Some (c', acts) \<and> c_state c' = INIT_SELECTING \<and> Run_script ''deconfig'' \<in> set acts \<and>
    c_start c \<le> c_timeout c' \<and> c_timeout c' \<le> c_start c + c_lease c"
  using assms(2,3)
proof (induction "unat (c_lease c - c_t2 c)" arbitrary: c rule: less_induct)
  case less
  have ot: "on_timeout cc (c_timeout c) 0 c = timeout_rebinding cc (c_timeout c) c"
    using less.prems(2) by (simp add: on_timeout_def)
  have inv: "unat (c_start c) + unat (c_lease c) < 2 ^ 32" "c_t2 c \<le> c_lease c" "c_timeout c = c_t2 c + c_start c"
    using less.prems by (auto simp: holds_lease_def)
  show ?case
  proof (cases "c_lease c - c_t2 c \<le> c_lease c div 14400 + 1")
    case True
    let ?d = "(change_mode LISTEN_RAW c)\<lparr>c_state := INIT_SELECTING, c_timeout := c_timeout c, c_packet_num := 0\<rparr>"
    have "silent cc 1 c = Some (?d, [Run_script ''deconfig''])" using ot True by (simp add: timeout_rebinding_def)
    moreover have "c_start c \<le> c_timeout ?d \<and> c_timeout ?d \<le> c_start c + c_lease c"
      using timeout_in_lease [OF inv(1,2)] inv(3) by simp
    ultimately show ?thesis by (intro exI [of _ 1] exI [of _ ?d]) simp
  next
    case False
    define t2 where "t2 = (c_lease c - c_t2 c) div 2 + c_t2 c"
    have t2: "c_t2 c < t2" "t2 \<le> c_lease c" using halfway [OF inv(2)] False by (simp_all add: t2_def not_le)
    obtain m where m: "send_renew cc (c_xid c) (c_requested_ip c) = Some m" using send_renew_message [OF assms(1)] by blast
    let ?d = "c\<lparr>c_t2 := t2, c_timeout := t2 + c_start c\<rparr>"
    have step: "on_timeout cc (c_timeout c) 0 c = Some (?d, [Broadcast m])"
      unfolding ot timeout_rebinding_def t2_def using False m by (simp add: Let_def)
    have "holds_lease ?d" "c_state ?d = REBINDING" using inv t2 less.prems(2) by (simp_all add: holds_lease_def)
    moreover have "unat (c_lease ?d - c_t2 ?d) < unat (c_lease c - c_t2 c)"
      using t2 inv(2) by (simp add: unat_sub word_le_nat_alt word_less_nat_alt)
    ultimately obtain n c' acts where r: "silent cc n ?d = Some (c', acts)" "c_state c' = INIT_SELECTING"
      "Run_script ''deconfig'' \<in> set acts" "c_start ?d \<le> c_timeout c'" "c_timeout c' \<le> c_start ?d + c_lease ?d"
      using less.hyps [of ?d] by blast
    have "silent cc (Suc n) c = Some (c', Broadcast m # acts)" using step r(1) by simp
    with r show ?thesis by (intro exI [of _ "Suc n"] exI [of _ c']) simp
  qed
qed

lemma receive_ack_bound:
  assumes "receive_ack cc now False p c = Some (c', acts)"
  shows "c_state c' = BOUND" "c_start c' = now" "c_t1 c' = c_lease c' div 2" "c_t2 c' = drop_bit 3 (c_lease c' * 7)"
    "c_timeout c' = c_t1 c' + now" "c_requested_ip c' = m_yiaddr p"
    "option_u32 p DHCP_LEASE_TIME = Some lt \<Longrightarrow> c_lease c' = (case lt of None \<Rightarrow> 60 * 60 | Some l \<Rightarrow> l)"
  using assms by (auto simp: receive_ack_def Let_def bind_Some_iff change_mode_def)

lemma times_ordered:
  fixes l :: u32
  assumes "unat l * 7 < 2 ^ 32"
  shows "l div 2 \<le> drop_bit 3 (l * 7)" and "drop_bit 3 (l * 7) \<le> l"
proof -
  have "unat (drop_bit 3 (l * 7)) = unat l * 7 div 8"
    using assms by (simp add: drop_bit_eq_div unat_div unat_word_ariths)
  then show "l div 2 \<le> drop_bit 3 (l * 7)" "drop_bit 3 (l * 7) \<le> l" by (simp_all add: word_le_nat_alt unat_div)
qed

text \<open>C26: A client gives up its address in time. After an acknowledgement, if nothing is heard any more and every
  timeout is handled when it is due, finitely many timeouts lead through renewing and rebinding back to the initial
  state; the script that removes the address is run, and this happens within the lease time. (Lease times up to 19
  years, and a clock that does not overflow.)\<close>

theorem client_gives_up_in_time:
  assumes "cc_ok cc" and "receive_ack cc now False p c0 = Some (c, acts0)"
    and "unat (c_lease c) * 7 < 2 ^ 32" and "unat now + unat (c_lease c) < 2 ^ 32"
  shows "\<exists>n c' acts. silent cc n c = Some (c', acts) \<and> c_state c' = INIT_SELECTING \<and> Run_script ''deconfig'' \<in> set acts \<and>
    now \<le> c_timeout c' \<and> c_timeout c' \<le> now + c_lease c"
proof -
  note b = receive_ack_bound [OF assms(2)]
  have inv: "holds_lease c" using b assms(4) times_ordered [OF assms(3)] by (simp add: holds_lease_def)
  obtain m c1 a1 where r1: "silent cc m c = Some (c1, a1)" "holds_lease c1" "c_state c1 = REBINDING"
    "c_start c1 = c_start c" "c_lease c1 = c_lease c"
    using silent_renewing [OF assms(1) inv] b(1) by blast
  obtain n c2 a2 where r2: "silent cc n c1 = Some (c2, a2)" "c_state c2 = INIT_SELECTING" "Run_script ''deconfig'' \<in> set a2"
    "c_start c1 \<le> c_timeout c2" "c_timeout c2 \<le> c_start c1 + c_lease c1"
    using silent_rebinding [OF assms(1) r1(2,3)] by blast
  from silent_append [OF r1(1) r2(1)] r1 r2 b(2) show ?thesis
    by (intro exI [of _ "m + n"] exI [of _ c2] exI [of _ "a1 @ a2"]) simp
qed

definition example_client_config :: client_config_t where
  "example_client_config = \<lparr>cc_foreground = True, cc_quit_after_lease = False, cc_abort_if_no_lease = False,
     cc_background_if_no_lease = False, cc_clientid = tlv (0x3d, [1, 2, 3, 4, 5, 6, 7]), cc_hostname = None,
     cc_arp = [2, 3, 4, 5, 6, 7], cc_discover_delay = 4, cc_discover_retry = 5, cc_discover_sleep = 60, cc_query = False,
     cc_unicast = False\<rparr>"

lemma example_client_config_ok: "cc_ok example_client_config"
  unfolding cc_ok_def example_client_config_def by (auto simp del: tlv.simps intro!: exI [of _ "[1, 2, 3, 4, 5, 6, 7]"])

lemma example_message_no_lease_time: "option_u32 example_message DHCP_LEASE_TIME = Some None"
  using get_option_opts_enc [OF example_message_ok plain_codes(2)] by (simp add: option_u32_def)

theorem client_gives_up_in_time_witness:
  "\<exists>c acts0 n c' acts. receive_ack example_client_config 100 False example_message (client_start example_client_config 0 0) = Some (c, acts0) \<and>
    silent example_client_config n c = Some (c', acts) \<and> c_state c' = INIT_SELECTING \<and> c_timeout c' \<le> 3700"
proof -
  obtain c acts0 where r: "receive_ack example_client_config 100 False example_message (client_start example_client_config 0 0) = Some (c, acts0)"
    by (auto simp: receive_ack_def example_message_no_lease_time Let_def)
  then have l: "c_lease c = 3600" using receive_ack_bound(7) [OF r example_message_no_lease_time] by simp
  from client_gives_up_in_time [OF example_client_config_ok r] l obtain n c' acts where
    "silent example_client_config n c = Some (c', acts)" "c_state c' = INIT_SELECTING" "c_timeout c' \<le> 100 + 3600" by auto
  with r show ?thesis by fastforce
qed

text \<open>With an infinite lease the two times are in the wrong order: the product with 7 wraps around, so the
  rebinding time is a quarter of the renewing time.\<close>

theorem client_infinite_lease_times:
  assumes "receive_ack cc now False p c0 = Some (c, acts)" and "option_u32 p DHCP_LEASE_TIME = Some (Some 0xFFFFFFFF)"
  shows "c_t1 c = 0x7FFFFFFF \<and> c_t2 c = 0x1FFFFFFF \<and> c_t2 c < c_t1 c"
  using receive_ack_bound(3,4) [OF assms(1)] receive_ack_bound(7) [OF assms] by (simp add: drop_bit_eq_div)

theorem client_infinite_lease_times_witness:
  "\<exists>c acts. receive_ack example_client_config 100 False infinite_message (client_start example_client_config 0 0) = Some (c, acts) \<and>
    c_t2 c < c_t1 c"
proof -
  obtain c acts where r: "receive_ack example_client_config 100 False infinite_message (client_start example_client_config 0 0) = Some (c, acts)"
    by (auto simp: receive_ack_def infinite_message_lease_time Let_def)
  from client_infinite_lease_times [OF r infinite_message_lease_time] r show ?thesis by blast
qed

end
