(* ===== verification/Dhcp_Exchange.thy ===== *)
theory Dhcp_Exchange
  imports Dhcp_Client
begin

text \<open>
  The DHCP client and the DHCP server together: the four messages by which a client gets an address. The messages
  built by one side are read by the options code of the other, so the exchange rests on the option round trips, on
  the lease table and on both state machines.
\<close>

subsection \<open>Reading the options of a well-formed message\<close>

lemma opt_pos_data:
  "opt_pos os code = Some k \<Longrightarrow> \<exists>d r. map_of os code = Some d \<and> drop k (enc os) = d @ r \<and> k \<le> length (enc os)"
proof (induction os code arbitrary: k rule: opt_pos.induct)
  case (2 c d os code)
  show ?case
  proof (cases "c = code")
    case True
    with 2(2) show ?thesis by (auto simp: numeral_2_eq_2)
  next
    case False
    with 2(2) obtain j where j: "opt_pos os code = Some j" "k = length d + 2 + j" by auto
    from 2(1) [OF False j(1)] False j(2) show ?thesis by (auto simp: numeral_2_eq_2)
  qed
qed simp

lemma option_bytes:
  assumes "message_ok p" and "opts_enc (m_options p) os" and "plain_code code" and "map_of os code = Some d"
  shows "\<exists>k r. get_option p code = Some (Some k) \<and> drop k (packet_mem p) = d @ r \<and> k + length d \<le> 504"
proof -
  obtain j where j: "opt_pos os code = Some j"
    using assms(4) opt_pos_None [of os code] map_of_eq_None_iff [of os code] by (cases "opt_pos os code") auto
  from opt_pos_data [OF j] assms(4) obtain r where r: "drop j (enc os) = d @ r" "j \<le> length (enc os)" by auto
  obtain rest where o: "m_options p = enc os @ DHCP_END # rest" using assms(2) by (auto simp: opts_enc_def)
  let ?pre = "m_sname p @ m_file p @ be32 (m_cookie p)"
  have pre: "length ?pre = 196" using assms(1) by (simp add: message_ok_def packet_ok_def)
  have mem: "packet_mem p = ?pre @ enc os @ DHCP_END # rest" by (simp add: packet_mem_def o)
  have dr: "drop (196 + j) (packet_mem p) = drop j (enc os) @ DHCP_END # rest" unfolding mem using pre r(2) by simp
  have "length (drop (196 + j) (packet_mem p)) = 504 - (196 + j)" using length_packet_mem [OF assms(1)] by simp
  moreover have "length d \<le> length (drop (196 + j) (packet_mem p))" using dr r(1) by simp
  moreover have "196 + j \<le> 504" using r(2) length_enc_bound [OF assms(2)] by simp
  ultimately have "196 + j + length d \<le> 504" by linarith
  with dr r(1) get_option_opts_enc [OF assms(1-3)] j show ?thesis by (intro exI [of _ "196 + j"]) simp
qed

lemma option_u32_value:
  assumes "message_ok p" and "opts_enc (m_options p) os" and "plain_code code" and "map_of os code = Some (be32 v)"
  shows "option_u32 p code = Some (Some v)"
proof -
  obtain k r where k: "get_option p code = Some (Some k)" "drop k (packet_mem p) = be32 v @ r" "k + 4 \<le> 504"
    using option_bytes [OF assms] by auto
  then show ?thesis using length_packet_mem [OF assms(1)] by (simp add: option_u32_def u32_at_def)
qed

lemma option_u32_absent:
  assumes "message_ok p" and "opts_enc (m_options p) os" and "plain_code code" and "code \<notin> fst ` set os"
  shows "option_u32 p code = Some None"
  using get_option_opts_enc [OF assms(1-3)] assms(4) by (simp add: option_u32_def opt_pos_None [THEN iffD2])

lemma message_type:
  assumes "message_ok p" and "opts_enc (m_options p) ((DHCP_MESSAGE_TYPE, [t]) # os)"
  shows "\<exists>k. get_option p DHCP_MESSAGE_TYPE = Some (Some k) \<and> rd (packet_mem p) k = Some t"
proof -
  obtain k r where k: "get_option p DHCP_MESSAGE_TYPE = Some (Some k)" "drop k (packet_mem p) = [t] @ r" "k + 1 \<le> 504"
    using option_bytes [OF assms plain_codes(5), of "[t]"] by auto
  have "k < length (packet_mem p)" using k(3) length_packet_mem [OF assms(1)] by simp
  moreover have "packet_mem p ! k = t" using k(2) calculation by (metis append_Cons hd_drop_conv_nth list.sel(1))
  ultimately show ?thesis using k(1) by simp
qed

subsection \<open>What each side makes of the other's messages\<close>

lemma server_reads_discover:
  assumes "client_message cc DHCPDISCOVER os m"
  shows "handle_message cfg arp tx now st m = map_option snd (sendOffer cfg arp tx now st m)"
proof -
  obtain k where "get_option m DHCP_MESSAGE_TYPE = Some (Some k)" "rd (packet_mem m) k = Some DHCPDISCOVER"
    using message_type [of m DHCPDISCOVER os] assms by (auto simp: client_message_def)
  then show ?thesis by (simp add: handle_message_def)
qed

lemma server_reads_request:
  assumes "client_message cc DHCPREQUEST os m"
  shows "handle_message cfg arp tx now st m = handle_request cfg arp tx now st m"
proof -
  obtain k where "get_option m DHCP_MESSAGE_TYPE = Some (Some k)" "rd (packet_mem m) k = Some DHCPREQUEST"
    using message_type [of m DHCPREQUEST os] assms by (auto simp: client_message_def)
  then show ?thesis by (simp add: handle_message_def message_types)
qed

lemma reply_type:
  assumes "reply_to cfg old t os q"
  shows "\<exists>k. get_option q DHCP_MESSAGE_TYPE = Some (Some k) \<and> rd (packet_mem q) k = Some t"
  using assms message_type [of q t "(DHCP_SERVER_ID, be32 (sc_server cfg)) # os"] by (auto simp: reply_to_def header_options_def)

lemma client_reads_offer:
  assumes "reply_to cfg old DHCPOFFER os q" and "m_xid old = c_xid c" and "c_state c = INIT_SELECTING" and "c_listen c \<noteq> LISTEN_NONE"
    and "\<not> cc_query cc"
  shows "on_packet cc now b q c = Some (c\<lparr>c_server_addr := sc_server cfg, c_xid := m_xid old, c_requested_ip := m_yiaddr q,
    c_state := REQUESTING, c_timeout := now, c_packet_num := 0\<rparr>, [])"
proof -
  obtain k where k: "get_option q DHCP_MESSAGE_TYPE = Some (Some k)" "rd (packet_mem q) k = Some DHCPOFFER"
    using reply_type [OF assms(1)] by blast
  have q: "message_ok q" "opts_enc (m_options q) (header_options cfg DHCPOFFER @ os)" "m_xid q = m_xid old"
    using assms(1) by (auto simp: reply_to_def)
  have "option_u32 q DHCP_SERVER_ID = Some (Some (sc_server cfg))"
    by (rule option_u32_value [OF q(1,2) plain_codes(3)]) (simp add: header_options_def code_neqs code_neqs(13-15) [symmetric])
  with k q(3) assms(2-5) show ?thesis by (simp add: on_packet_def receive_offer_def)
qed

lemma client_reads_ack:
  assumes "reply_to cfg old DHCPACK ((DHCP_LEASE_TIME, be32 lt) # os) q" and "m_xid old = c_xid c" and "c_state c = REQUESTING"
    and "c_listen c \<noteq> LISTEN_NONE"
  shows "\<exists>c' acts. on_packet cc now False q c = Some (c', acts) \<and> c_state c' = BOUND \<and> c_requested_ip c' = m_yiaddr q \<and>
    c_lease c' = lt \<and> c_start c' = now \<and> Run_script ''bound'' \<in> set acts"
proof -
  obtain k where k: "get_option q DHCP_MESSAGE_TYPE = Some (Some k)" "rd (packet_mem q) k = Some DHCPACK"
    using reply_type [OF assms(1)] by blast
  have q: "message_ok q" "opts_enc (m_options q) (header_options cfg DHCPACK @ (DHCP_LEASE_TIME, be32 lt) # os)" "m_xid q = m_xid old"
    using assms(1) by (auto simp: reply_to_def)
  have "option_u32 q DHCP_LEASE_TIME = Some (Some lt)"
    by (rule option_u32_value [OF q(1,2) plain_codes(2)]) (simp add: header_options_def code_neqs code_neqs(13-15) [symmetric])
  with k q(3) assms(2-4) show ?thesis by (simp add: on_packet_def receive_ack_def Let_def change_mode_def)
qed

subsection \<open>The exchange\<close>

lemma own_options_no_u32:
  assumes "own_options os"
  shows "DHCP_REQUESTED_IP \<notin> fst ` set os" "DHCP_SERVER_ID \<notin> fst ` set os" "DHCP_LEASE_TIME \<notin> fst ` set os"
  using assms code_neqs(2-5,9,10) by (auto simp: own_options_def)

lemma map_of_absent: "code \<notin> fst ` set os \<Longrightarrow> map_of os code = None"
  by (simp add: map_of_eq_None_iff)

text \<open>The second half: the request for the offered address is acknowledged and recorded.\<close>

lemma selecting_acknowledged:
  assumes "cc_ok cc" and "client_chaddr cc \<noteq> blank_chaddr" and "\<forall>d\<in>set (sc_options cfg). option_string_ok d"
    and "find_static_lease_by_chaddr (s_static st) (client_chaddr cc) = None"
    and "find_lease_by_chaddr (s_leases st) (client_chaddr cc) = Some i" and "l_yiaddr (s_leases st ! i) = y" and "y \<noteq> 0"
    and "\<And>d q. 0 \<le> tx d q"
  shows "\<exists>m st' d q os k. send_selecting cc xid (sc_server cfg) y = Some m \<and> m_xid m = xid \<and>
    handle_message cfg arp tx now st m = Some (st', [(d, q)]) \<and>
    reply_to cfg m DHCPACK ((DHCP_LEASE_TIME, be32 (sc_lease cfg)) # os) q \<and> m_yiaddr q = y \<and>
    find_lease_by_chaddr (s_leases st') (client_chaddr cc) = Some k \<and> l_yiaddr (s_leases st' ! k) = y \<and>
    l_ACKed (s_leases st' ! k) = 1 \<and> l_expires (s_leases st' ! k) = now + sc_lease cfg"
proof -
  obtain m os where m: "send_selecting cc xid (sc_server cfg) y = Some m" "own_options os" "m_xid m = xid"
    "client_message cc DHCPREQUEST (os @ [(DHCP_REQUESTED_IP, be32 y), (DHCP_SERVER_ID, be32 (sc_server cfg)),
      (DHCP_PARAM_REQ, requested_codes)]) m"
    using send_selecting_message [OF assms(1)] by blast
  let ?os = "(DHCP_MESSAGE_TYPE, [DHCPREQUEST]) # os @ [(DHCP_REQUESTED_IP, be32 y), (DHCP_SERVER_ID, be32 (sc_server cfg)),
      (DHCP_PARAM_REQ, requested_codes)]"
  have mo: "message_ok m" "opts_enc (m_options m) ?os" "m_chaddr m = client_chaddr cc"
    using m(4) by (simp_all add: client_message_def)
  note no = own_options_no_u32 [OF m(2)]
  note neq = code_neqs code_neqs [symmetric]
  have r: "option_u32 m DHCP_REQUESTED_IP = Some (Some y)"
    by (rule option_u32_value [OF mo(1,2) plain_codes(1)]) (simp add: neq map_add_def map_of_absent [OF no(1)])
  have s: "option_u32 m DHCP_SERVER_ID = Some (Some (sc_server cfg))"
    by (rule option_u32_value [OF mo(1,2) plain_codes(3)]) (simp add: neq map_add_def map_of_absent [OF no(2)])
  have l: "option_u32 m DHCP_LEASE_TIME = Some None"
    by (rule option_u32_absent [OF mo(1,2) plain_codes(2)]) (use no(3) in \<open>auto simp: neq\<close>)
  have lk: "lookup_client st (m_chaddr m) = Some (Dynamic i)" using assms(4,5) mo(3) by (simp add: lookup_client_def)
  have h: "handle_message cfg arp tx now st m = sendACK cfg tx now st m y"
    unfolding server_reads_request [OF m(4)] using r s lk assms(6) by (simp add: handle_request_def)
  have st: "find_static_lease_by_chaddr (s_static st) (m_chaddr m) = None" using assms(4) mo(3) by simp
  obtain d q os' hn ls where ls: "ls = add_acked_lease now (s_leases st) (client_chaddr cc) y (sc_lease cfg) hn"
    and ack: "sendACK cfg tx now st m y = Some (st\<lparr>s_leases := ls, s_file := write_leases cfg now ls (s_static st)\<rparr>, [(d, q)])"
    and q: "reply_to cfg m DHCPACK ((DHCP_LEASE_TIME, be32 (sc_lease cfg)) # os') q" "m_yiaddr q = y"
    using sendACK_dynamic [where tx = tx and now = now and y = y, OF mo(1,2) assms(3) st l assms(8)] mo(3)
    by (auto simp: ack_lease_time_def)
  have c: "length (client_chaddr cc) = 16" using assms(1) by (simp add: client_chaddr_def cc_ok_def)
  have "s_leases st ! i \<in> set (s_leases st)" "l_chaddr (s_leases st ! i) = client_chaddr cc"
    using index_of_Some [OF assms(5) [unfolded find_lease_by_chaddr_def]] by simp_all
  then have ex: "\<exists>l\<in>set (s_leases st). lease_expired now l \<or> conflicting (client_chaddr cc) y l"
    using assms(2) by (auto simp: conflicting_def)
  from c ex assms(2,7) obtain k where "find_lease_by_chaddr ls (client_chaddr cc) = Some k" "l_yiaddr (ls ! k) = y"
    "l_expires (ls ! k) = now + sc_lease cfg" "l_ACKed (ls ! k) = 1"
    unfolding ls by (rule add_acked_lease_finds)
  with m(1,3) h ack q show ?thesis by fastforce
qed

lemma discover_offered:
  assumes "cc_ok cc" and "client_chaddr cc \<noteq> blank_chaddr" and "\<forall>d\<in>set (sc_options cfg). option_string_ok d"
    and "sc_end cfg < 0xFFFFFFFF" and "find_static_lease_by_chaddr (s_static st) (client_chaddr cc) = None"
    and "\<exists>a. sc_start cfg \<le> a \<and> a \<le> sc_end cfg \<and> assignable cfg arp now (s_leases st) (s_static st) False a"
    and "\<exists>l\<in>set (s_leases st). lease_expired now l"
  shows "\<exists>m st' d q os k. send_discover cc xid a0 = Some m \<and> m_xid m = xid \<and>
    handle_message cfg arp tx now st m = Some (st', [(d, q)]) \<and> reply_to cfg m DHCPOFFER os q \<and> m_yiaddr q \<noteq> 0 \<and>
    s_static st' = s_static st \<and> find_lease_by_chaddr (s_leases st') (client_chaddr cc) = Some k \<and>
    l_yiaddr (s_leases st' ! k) = m_yiaddr q"
proof -
  obtain m os rs where m: "send_discover cc xid a0 = Some m" "own_options os" "m_xid m = xid"
    "rs = (if a0 \<noteq> 0 then [(DHCP_REQUESTED_IP, be32 a0)] else [])"
    "client_message cc DHCPDISCOVER (os @ rs @ [(DHCP_PARAM_REQ, requested_codes)]) m"
    using send_discover_message [OF assms(1)] by blast
  let ?os = "(DHCP_MESSAGE_TYPE, [DHCPDISCOVER]) # os @ rs @ [(DHCP_PARAM_REQ, requested_codes)]"
  have mo: "message_ok m" "opts_enc (m_options m) ?os" "m_chaddr m = client_chaddr cc"
    using m(5) by (simp_all add: client_message_def)
  note no = own_options_no_u32 [OF m(2)]
  have "length d = 4" if "(c, d) \<in> set ?os" "c \<in> {DHCP_REQUESTED_IP, DHCP_LEASE_TIME, DHCP_SERVER_ID}" for c d
  proof -
    have "(c, d) \<notin> set os" using that(2) no by force
    with that m(4) show ?thesis using code_neqs by (auto split: if_splits)
  qed
  then have u: "u32_options_ok ?os" unfolding u32_options_ok_def by blast
  have st: "find_static_lease_by_chaddr (s_static st) (m_chaddr m) = None" using assms(5) mo(3) by simp
  obtain r st' d q lt os' where o: "sendOffer cfg arp tx now st m = Some (r, st', [(d, q)])" "m_yiaddr q \<noteq> 0"
    "reply_to cfg m DHCPOFFER ((DHCP_LEASE_TIME, be32 lt) # os') q"
    using discover_offer [OF mo(1,2) u assms(3,4) st assms(6,7)] by blast
  have mem: "(d, q) \<in> set [(d, q)]" by simp
  from st o(1) mem obtain lt' h k where al: "add_lease now (s_leases st) (m_chaddr m) (m_yiaddr q) (sc_offer_time cfg) h = (Some k, s_leases st')"
    and ss: "s_static st' = s_static st" by (rule sendOffer_dynamic)
  have c: "length (m_chaddr m) = 16" using mo(1) by (simp add: message_ok_def)
  have "find_lease_by_chaddr (s_leases st') (client_chaddr cc) = Some k" "l_yiaddr (s_leases st' ! k) = m_yiaddr q"
    using add_lease_finds(2) [OF al c] add_lease_Some(5) [OF al] assms(2) mo(3) by simp_all
  moreover have "handle_message cfg arp tx now st m = Some (st', [(d, q)])"
    unfolding server_reads_discover [OF m(5)] using o(1) by simp
  ultimately show ?thesis using m(1,3) o(2,3) ss by blast
qed

text \<open>C3: A client and the server agree. A client in its initial state broadcasts a discover message; while the server
  has an assignable address and a free or expired entry, it answers with an offer; the client, at its next timeout,
  requests the offered address from this server, which acknowledges it; the client, if nobody else answers for the
  address, ends up bound to exactly the address that the lease table holds, as acknowledged, for its hardware
  address, and for exactly the lease time the table has recorded.\<close>

theorem dhcp_exchange:
  assumes "cc_ok cc" and "client_chaddr cc \<noteq> blank_chaddr" and "\<not> cc_query cc" and "0 < cc_discover_retry cc"
    and "c_state c = INIT_SELECTING" and "c_packet_num c = 0" and "c_listen c \<noteq> LISTEN_NONE"
    and "\<forall>d\<in>set (sc_options cfg). option_string_ok d" and "sc_end cfg < 0xFFFFFFFF"
    and "find_static_lease_by_chaddr (s_static st) (client_chaddr cc) = None"
    and "\<exists>a. sc_start cfg \<le> a \<and> a \<le> sc_end cfg \<and> assignable cfg arp now1 (s_leases st) (s_static st) False a"
    and "\<exists>l\<in>set (s_leases st). lease_expired now1 l" and "\<And>d q. 0 \<le> tx d q"
  shows "\<exists>c1 discover st1 d1 offer c2 c3 request st2 d2 ack c4 acts k.
    on_timeout cc t1 rnd c = Some (c1, [Broadcast discover]) \<and>
    handle_message cfg arp tx now1 st discover = Some (st1, [(d1, offer)]) \<and>
    on_packet cc t2 b offer c1 = Some (c2, []) \<and>
    on_timeout cc t3 rnd' c2 = Some (c3, [Broadcast request]) \<and>
    handle_message cfg arp' tx now2 st1 request = Some (st2, [(d2, ack)]) \<and>
    on_packet cc t4 False ack c3 = Some (c4, acts) \<and>
    c_state c4 = BOUND \<and> Run_script ''bound'' \<in> set acts \<and> c_requested_ip c4 \<noteq> 0 \<and>
    find_lease_by_chaddr (s_leases st2) (client_chaddr cc) = Some k \<and>
    l_yiaddr (s_leases st2 ! k) = c_requested_ip c4 \<and> l_ACKed (s_leases st2 ! k) = 1 \<and>
    l_expires (s_leases st2 ! k) = now2 + c_lease c4"
proof -
  obtain m1 st1 d1 q1 os1 k1 where o: "send_discover cc rnd (c_requested_ip c) = Some m1" "m_xid m1 = rnd"
    "handle_message cfg arp tx now1 st m1 = Some (st1, [(d1, q1)])" "reply_to cfg m1 DHCPOFFER os1 q1" "m_yiaddr q1 \<noteq> 0"
    "s_static st1 = s_static st" "find_lease_by_chaddr (s_leases st1) (client_chaddr cc) = Some k1"
    "l_yiaddr (s_leases st1 ! k1) = m_yiaddr q1"
    using discover_offered [OF assms(1,2,8-12), of rnd "c_requested_ip c" tx] by blast
  let ?c1 = "c\<lparr>c_xid := rnd, c_timeout := backoff cc t1 0, c_packet_num := 1\<rparr>"
  have s1: "on_timeout cc t1 rnd c = Some (?c1, [Broadcast m1])"
    using o(1) assms(4-6) by (simp add: on_timeout_def timeout_selecting_def Let_def)
  let ?c2 = "?c1\<lparr>c_server_addr := sc_server cfg, c_xid := m_xid m1, c_requested_ip := m_yiaddr q1, c_state := REQUESTING,
    c_timeout := t2, c_packet_num := 0\<rparr>"
  have s2: "on_packet cc t2 b q1 ?c1 = Some (?c2, [])"
    by (rule client_reads_offer [OF o(4)]) (use o(2) assms(3,5,7) in simp_all)
  have st: "find_static_lease_by_chaddr (s_static st1) (client_chaddr cc) = None" using o(6) assms(10) by simp
  obtain m2 st2 d2 q2 os2 k where a: "send_selecting cc rnd (sc_server cfg) (m_yiaddr q1) = Some m2" "m_xid m2 = rnd"
    "handle_message cfg arp' tx now2 st1 m2 = Some (st2, [(d2, q2)])"
    "reply_to cfg m2 DHCPACK ((DHCP_LEASE_TIME, be32 (sc_lease cfg)) # os2) q2" "m_yiaddr q2 = m_yiaddr q1"
    "find_lease_by_chaddr (s_leases st2) (client_chaddr cc) = Some k" "l_yiaddr (s_leases st2 ! k) = m_yiaddr q1"
    "l_ACKed (s_leases st2 ! k) = 1" "l_expires (s_leases st2 ! k) = now2 + sc_lease cfg"
    using selecting_acknowledged [where tx = tx and xid = rnd and arp = arp' and now = now2,
        OF assms(1,2,8) st o(7,8,5) assms(13)] by blast
  let ?c3 = "?c2\<lparr>c_timeout := backoff cc t3 0, c_packet_num := 1\<rparr>"
  have s3: "on_timeout cc t3 rnd' ?c2 = Some (?c3, [Broadcast m2])"
    using a(1) o(2) assms(4) by (simp add: on_timeout_def timeout_requesting_def Let_def)
  obtain c4 acts where s4: "on_packet cc t4 False q2 ?c3 = Some (c4, acts)" "c_state c4 = BOUND" "c_requested_ip c4 = m_yiaddr q2"
    "c_lease c4 = sc_lease cfg" "Run_script ''bound'' \<in> set acts"
    using client_reads_ack [OF a(4), of ?c3 cc t4] a(2) o(2) assms(7) by auto
  show ?thesis
    by (rule exI [of _ ?c1], rule exI [of _ m1], rule exI [of _ st1], rule exI [of _ d1], rule exI [of _ q1], rule exI [of _ ?c2],
        rule exI [of _ ?c3], rule exI [of _ m2], rule exI [of _ st2], rule exI [of _ d2], rule exI [of _ q2], rule exI [of _ c4],
        rule exI [of _ acts], rule exI [of _ k])
      (use s1 o s2 s3 a s4 in simp)
qed

theorem dhcp_exchange_witness:
  "\<exists>c1 discover st1 d1 offer. on_timeout example_client_config 10 42 (client_start example_client_config 0 0) = Some (c1, [Broadcast discover]) \<and>
    handle_message example_config (\<lambda>a. False) (\<lambda>d q. 0) 100 (start_server example_config 100 2 [] []) discover = Some (st1, [(d1, offer)])"
proof -
  have c: "client_chaddr example_client_config \<noteq> blank_chaddr"
    by (simp add: client_chaddr_def example_client_config_def blank_chaddr_def numeral_eq_Suc)
  have f: "\<not> cc_query example_client_config" "0 < cc_discover_retry example_client_config"
    "c_state (client_start example_client_config 0 0) = INIT_SELECTING" "c_packet_num (client_start example_client_config 0 0) = 0"
    "c_listen (client_start example_client_config 0 0) \<noteq> LISTEN_NONE"
    by (simp_all add: example_client_config_def client_start_def)
  have n: "find_static_lease_by_chaddr (s_static (start_server example_config 100 2 [] [])) (client_chaddr example_client_config) = None"
    by (simp add: start_server_example find_static_lease_by_chaddr_def static_entries_def)
  have t: "\<And>(d::destination) (q::dhcpMessage). (0::int) \<le> (\<lambda>d q. 0) d q" by simp
  show ?thesis
    using dhcp_exchange [OF example_client_config_ok c f example_offer_premises(2,3) n example_offer_premises(5,6) t,
        where ?t1.0 = 10 and rnd = 42] by blast
qed

end
