(* ===== verification/Dhcp_Script.thy ===== *)
theory Dhcp_Script
  imports Xmldb_File Dhcp_Exchange
begin

text \<open>
  The script the DHCP client runs when something happens to its lease: \<^verbatim>\<open>progs.gpl/udhcpcd/script.c\<close>. The options of a
  message become the environment of a child process, one string per option, each in a block whose size is computed
  beforehand. A write behind such a block, behind the array of strings or behind a local array is a fault, and so is a
  read behind the message. Allocations succeed. The build has neither the three route options nor \<^verbatim>\<open>SIX_RD_OPTION\<close>.
\<close>

subsection \<open>Texts\<close>

text \<open>\<^verbatim>\<open>dest += sprintf(dest, ...)\<close> in a block of \<open>cap\<close> bytes that holds \<open>dest\<close>: the text and its terminator.\<close>

definition put :: "nat \<Rightarrow> char list \<Rightarrow> char list \<Rightarrow> char list option" where
  "put cap dest s = (if length dest + length s + 1 \<le> cap then Some (dest @ s) else None)"

definition chars_of :: "byte list \<Rightarrow> char list" where
  "chars_of bs = map (\<lambda>b. char_of (unat b)) bs"

definition fmt_u :: "byte \<Rightarrow> char list" where
  "fmt_u b = decimal (unat b)"

definition fmt_ld :: "int \<Rightarrow> char list" where
  "fmt_ld i = (if i < 0 then CHR ''-'' # decimal (nat (- i)) else decimal (nat i))"

definition dotted :: "byte list \<Rightarrow> char list" where
  "dotted ip = fmt_u (ip ! 0) @ ''.'' @ fmt_u (ip ! 1) @ ''.'' @ fmt_u (ip ! 2) @ ''.'' @ fmt_u (ip ! 3)"

definition sprintip :: "nat \<Rightarrow> char list \<Rightarrow> char list \<Rightarrow> char list \<Rightarrow> byte list \<Rightarrow> char list option" where
  "sprintip cap dest pre pos ip = put cap dest (pre @ dotted ip @ pos)"

definition slice :: "byte list \<Rightarrow> nat \<Rightarrow> nat \<Rightarrow> byte list option" where
  "slice mem i n = (if i + n \<le> length mem then Some (take n (drop i mem)) else None)"

definition ntohs_of :: "byte list \<Rightarrow> nat" where
  "ntohs_of bs = unat (bs ! 0) * 256 + unat (bs ! 1)"

subsection \<open>Sizes\<close>

fun max_option_length :: "otype \<Rightarrow> nat" where
  "max_option_length OPTION_IP = 17"
| "max_option_length OPTION_IP_PAIR = 34"
| "max_option_length OPTION_STRING = 1"
| "max_option_length OPTION_BOOLEAN = 5"
| "max_option_length OPTION_U8 = 5"
| "max_option_length OPTION_U16 = 7"
| "max_option_length OPTION_S16 = 8"
| "max_option_length OPTION_U32 = 12"
| "max_option_length OPTION_S32 = 13"
| "max_option_length OPTION_33 = 55"
| "max_option_length OPTION_121 = 0"
| "max_option_length OPTION_249 = 0"

definition upper_length :: "nat \<Rightarrow> dhcp_option \<Rightarrow> nat" where
  "upper_length n opt = max_option_length (o_type opt) * (n div option_lengths (o_type opt))"

text \<open>The number of significant bytes of a destination, \<^verbatim>\<open>ceil(width / 8)\<close>.\<close>

definition octets :: "byte \<Rightarrow> nat" where
  "octets w = (unat w + 7) div 8"

function dotted_len_loop :: "byte list \<Rightarrow> nat \<Rightarrow> nat \<Rightarrow> nat \<Rightarrow> nat \<Rightarrow> nat option" where
  "dotted_len_loop mem p len i n =
     (if i < len then Option.bind (rd mem (p + i)) (\<lambda>w. dotted_len_loop mem p len (i + octets w + 4 + 1) (n + 51))
      else Some n)"
  by pat_completeness auto
termination by (relation "measure (\<lambda>(mem, p, len, i, n). len - i)") auto

declare dotted_len_loop.simps [simp del]

definition get_opt121_dotted_dec_len :: "byte list \<Rightarrow> nat \<Rightarrow> nat option" where
  "get_opt121_dotted_dec_len mem temp = do {
     len \<leftarrow> rd mem (temp - 1);
     dotted_len_loop mem temp (unat len) 0 0 }"

subsection \<open>Options\<close>

text \<open>One turn of the \<^verbatim>\<open>switch\<close>: the text so far, the pointer, the length left and \<^verbatim>\<open>optlen\<close>. A width above 32 makes the
  loop over the destination write behind its four bytes.\<close>

definition route_mask :: "byte \<Rightarrow> u32" where
  "route_mask w = (if w = 0 then 0 else push_bit (32 - unat w) 0xFFFFFFFF)"

definition fill_value :: "otype \<Rightarrow> byte list \<Rightarrow> nat \<Rightarrow> nat \<Rightarrow> int \<Rightarrow> char list \<Rightarrow> (char list \<times> nat \<times> int \<times> nat) option" where
  "fill_value t mem cap i len dest = (case t of
       OPTION_IP \<Rightarrow> do {
         ip \<leftarrow> slice mem i 4;
         d \<leftarrow> sprintip cap dest [] '' '' ip;
         Some (d, i, len, 4) }
     | OPTION_IP_PAIR \<Rightarrow> do {
         ip \<leftarrow> slice mem i 4;
         d1 \<leftarrow> sprintip cap dest [] '' '' ip;
         d2 \<leftarrow> (if length d1 < cap then Some (d1 @ ''/'') else None);
         ip2 \<leftarrow> slice mem (i + 4) 4;
         d3 \<leftarrow> sprintip cap d2 [] '' '' ip2;
         Some (d3, i + 4, len, 4) }
     | OPTION_STRING \<Rightarrow> None
     | OPTION_BOOLEAN \<Rightarrow> do {
         b \<leftarrow> rd mem i;
         d \<leftarrow> put cap dest (if b \<noteq> 0 then ''yes '' else ''no '');
         Some (d, i, len, 1) }
     | OPTION_U8 \<Rightarrow> do {
         b \<leftarrow> rd mem i;
         d \<leftarrow> put cap dest (fmt_u b @ '' '');
         Some (d, i, len, 1) }
     | OPTION_U16 \<Rightarrow> do {
         bs \<leftarrow> slice mem i 2;
         d \<leftarrow> put cap dest (decimal (ntohs_of bs) @ '' '');
         Some (d, i, len, 2) }
     | OPTION_S16 \<Rightarrow> do {
         bs \<leftarrow> slice mem i 2;
         d \<leftarrow> put cap dest (decimal (ntohs_of bs) @ '' '');
         Some (d, i, len, 2) }
     | OPTION_U32 \<Rightarrow> do {
         bs \<leftarrow> slice mem i 4;
         d \<leftarrow> put cap dest (decimal (unat (of_be32 bs)) @ '' '');
         Some (d, i, len, 4) }
     | OPTION_S32 \<Rightarrow> do {
         bs \<leftarrow> slice mem i 4;
         d \<leftarrow> put cap dest (fmt_ld (sint (of_be32 bs)) @ '' '');
         Some (d, i, len, 4) }
     | OPTION_33 \<Rightarrow> do {
         ip \<leftarrow> slice mem i 4;
         d1 \<leftarrow> sprintip cap dest [] '','' ip;
         d2 \<leftarrow> put cap d1 ''255.255.255.255,32,'';
         gw \<leftarrow> slice mem (i + 4) 4;
         d3 \<leftarrow> sprintip cap d2 [] '' '' gw;
         Some (d3, i + 4, len - 4, 4) }
     | _ \<Rightarrow> do {
         w \<leftarrow> rd mem i;
         let nos = octets w;
         if nos > 4 then None
         else do {
           bs \<leftarrow> slice mem (i + 1) nos;
           d1 \<leftarrow> sprintip cap dest [] '','' (be32 (of_be32 (bs @ replicate (4 - nos) 0) AND route_mask w));
           d2 \<leftarrow> sprintip cap d1 [] '','' (be32 (route_mask w));
           d3 \<leftarrow> put cap d2 (fmt_u w @ '','');
           gw \<leftarrow> slice mem (i + nos + 1) 4;
           d4 \<leftarrow> sprintip cap d3 [] '' '' gw;
           Some (d4, i, len, nos + 4 + 1) } })"

lemma fill_value_progress: "fill_value t mem cap i len dest = Some (d, i', len', optlen) \<Longrightarrow> 0 < optlen \<and> len' \<le> len"
  by (cases t) (auto simp: fill_value_def bind_eq_Some_conv Let_def split: if_splits)

text \<open>The loop of \<^verbatim>\<open>fill_options\<close>: what the block holds in front of the last terminator. A string is copied as it is.\<close>

function fill_loop :: "otype \<Rightarrow> byte list \<Rightarrow> nat \<Rightarrow> nat \<Rightarrow> int \<Rightarrow> char list \<Rightarrow> char list option" where
  "fill_loop t mem cap i len dest =
     (if t = OPTION_STRING then
        Option.bind (slice mem i (nat len)) (\<lambda>bs. put cap dest (chars_of bs))
      else (case fill_value t mem cap i len dest of
          None \<Rightarrow> None
        | Some (d, i', len', optlen) \<Rightarrow>
            if len' - int optlen \<le> 0 then Some d else fill_loop t mem cap (i' + optlen) (len' - int optlen) d))"
  by pat_completeness auto
termination
  by (relation "measure (\<lambda>(t, mem, cap, i, len, dest). nat len)") (auto dest!: fill_value_progress)

declare fill_loop.simps [simp del]

definition fill_options :: "nat \<Rightarrow> byte list \<Rightarrow> nat \<Rightarrow> dhcp_option \<Rightarrow> char list option" where
  "fill_options cap mem option opt = do {
     len \<leftarrow> rd mem (option - 1);
     dest \<leftarrow> put cap [] (o_name opt @ ''='');
     fill_loop (o_type opt) mem cap option (int (unat len)) dest }"

subsection \<open>The environment\<close>

text \<open>What the code takes from the process: the name of the interface, the script, and \<^verbatim>\<open>environ\<close>.\<close>

record script_env =
  se_interface :: "char list"
  se_script :: "char list option"
  se_environ :: "char list list"

definition find_env :: "script_env \<Rightarrow> char list \<Rightarrow> char list \<Rightarrow> char list" where
  "find_env S pre dflt = (case filter (\<lambda>e. take (length pre) e = pre) (se_environ S) of
       [] \<Rightarrow> dflt
     | e # _ \<Rightarrow> e)"

text \<open>The size of the block for an option, and the string in it.\<close>

definition option_block :: "byte list \<Rightarrow> nat \<Rightarrow> dhcp_option \<Rightarrow> nat option" where
  "option_block mem temp opt = do {
     c \<leftarrow> rd mem (temp - 2);
     if c = 0x79 \<or> c = 0xf9 then do {
       n \<leftarrow> get_opt121_dotted_dec_len mem temp;
       Some (n + length (o_name opt) + 2) }
     else do {
       len \<leftarrow> rd mem (temp - 1);
       Some (upper_length (unat len) opt + length (o_name opt) + 2) } }"

fun fill_table :: "dhcp_option list \<Rightarrow> dhcpMessage \<Rightarrow> char list list option" where
  "fill_table [] p = Some []"
| "fill_table (t # ts) p = do {
     found \<leftarrow> get_option p (o_code t);
     case found of
       None \<Rightarrow> fill_table ts p
     | Some temp \<Rightarrow> do {
         cap \<leftarrow> option_block (packet_mem p) temp t;
         s \<leftarrow> fill_options cap (packet_mem p) temp t;
         rest \<leftarrow> fill_table ts p;
         Some (s # rest) } }"

fun count_table :: "dhcp_option list \<Rightarrow> dhcpMessage \<Rightarrow> nat option" where
  "count_table [] p = Some 0"
| "count_table (t # ts) p = do {
     found \<leftarrow> get_option p (o_code t);
     n \<leftarrow> count_table ts p;
     Some (if found = None then n else n + 1) }"

text \<open>The string in a fixed field of the message, whose last byte is overwritten by a terminator.\<close>

definition field_text :: "byte list \<Rightarrow> char list" where
  "field_text f = chars_of (takeWhile (\<lambda>b. b \<noteq> 0) (butlast f))"

definition overload :: "dhcpMessage \<Rightarrow> byte option" where
  "overload p = do {
     temp \<leftarrow> get_option p DHCP_OPTION_OVER;
     case temp of None \<Rightarrow> Some 0 | Some k \<Rightarrow> rd (packet_mem p) k }"

definition has_file :: "byte \<Rightarrow> dhcpMessage \<Rightarrow> bool" where
  "has_file over p \<longleftrightarrow> over AND 1 = 0 \<and> m_file p ! 0 \<noteq> 0"

definition has_sname :: "byte \<Rightarrow> dhcpMessage \<Rightarrow> bool" where
  "has_sname over p \<longleftrightarrow> over AND 2 = 0 \<and> m_sname p ! 0 \<noteq> 0"

definition fill_envp :: "script_env \<Rightarrow> dhcpMessage option \<Rightarrow> char list list option" where
  "fill_envp S packet = (let base = [''interface='' @ se_interface S,
       find_env S ''PATH'' ''PATH=/bin:/usr/bin:/sbin:/usr/sbin'', find_env S ''HOME'' ''HOME=/''] in
     case packet of
       None \<Rightarrow> Some base
     | Some p \<Rightarrow> do {
         n \<leftarrow> count_table options_table p;
         over \<leftarrow> overload p;
         let num_options = n + (if m_siaddr p \<noteq> 0 then 1 else 0) + (if has_file over p then 1 else 0) +
           (if has_sname over p then 1 else 0);
         ip \<leftarrow> sprintip 19 [] ''ip='' '' '' (be32 (m_yiaddr p));
         opts \<leftarrow> fill_table options_table p;
         siaddr \<leftarrow> (if m_siaddr p \<noteq> 0
           then map_option (\<lambda>s. [s]) (sprintip 23 [] ''siaddr='' '' '' (be32 (m_siaddr p))) else Some []);
         let envp = base @ [ip] @ opts @ siaddr @
           (if has_file over p then [''boot_file='' @ field_text (m_file p)] else []) @
           (if has_sname over p then [''sname='' @ field_text (m_sname p)] else []);
         if length envp + 1 \<le> num_options + 5 then Some envp else None })"

text \<open>\<^verbatim>\<open>run_script\<close>: the program, its argument and its environment, when there is a script.\<close>

definition run_script :: "script_env \<Rightarrow> dhcpMessage option \<Rightarrow> char list \<Rightarrow> (char list \<times> char list \<times> char list list) option option" where
  "run_script S packet name = (case se_script S of
       None \<Rightarrow> Some None
     | Some script \<Rightarrow> do {
         envp \<leftarrow> fill_envp S packet;
         Some (Some (script, name, envp)) })"

subsection \<open>What an option says\<close>

text \<open>The length and the text of the first value of an option, the text of all of them, and whether they fit the
  option exactly. Pairs of addresses do not occur in the table of options.\<close>

definition value_len :: "otype \<Rightarrow> byte list \<Rightarrow> nat" where
  "value_len t d = (if t \<in> {OPTION_121, OPTION_249} then octets (d ! 0) + 5 else option_lengths t)"

definition value_text :: "otype \<Rightarrow> byte list \<Rightarrow> char list" where
  "value_text t d = (case t of
       OPTION_IP \<Rightarrow> dotted (take 4 d) @ '' ''
     | OPTION_BOOLEAN \<Rightarrow> (if d ! 0 \<noteq> 0 then ''yes '' else ''no '')
     | OPTION_U8 \<Rightarrow> fmt_u (d ! 0) @ '' ''
     | OPTION_U16 \<Rightarrow> decimal (ntohs_of (take 2 d)) @ '' ''
     | OPTION_S16 \<Rightarrow> decimal (ntohs_of (take 2 d)) @ '' ''
     | OPTION_U32 \<Rightarrow> decimal (unat (of_be32 (take 4 d))) @ '' ''
     | OPTION_S32 \<Rightarrow> fmt_ld (sint (of_be32 (take 4 d))) @ '' ''
     | OPTION_33 \<Rightarrow> dotted (take 4 d) @ '','' @ ''255.255.255.255,32,'' @ dotted (take 4 (drop 4 d)) @ '' ''
     | _ \<Rightarrow> (let w = d ! 0; n = octets w; m = route_mask w in
         dotted (be32 (of_be32 (take n (drop 1 d) @ replicate (4 - n) 0) AND m)) @ '','' @ dotted (be32 m) @ '','' @
         fmt_u w @ '','' @ dotted (take 4 (drop (n + 1) d)) @ '' ''))"

abbreviation spec_type :: "otype \<Rightarrow> bool" where
  "spec_type t \<equiv> t \<noteq> OPTION_IP_PAIR \<and> t \<noteq> OPTION_STRING"

definition value_fits :: "otype \<Rightarrow> byte list \<Rightarrow> bool" where
  "value_fits t d \<longleftrightarrow> value_len t d \<le> length d \<and> (t \<in> {OPTION_121, OPTION_249} \<longrightarrow> unat (d ! 0) \<le> 32)"

lemma slice_at:
  assumes "drop i mem = d @ r" and "d \<noteq> []" and "j + n \<le> length d"
  shows "slice mem (i + j) n = Some (take n (drop j d))"
proof -
  have "length mem - i = length d + length r" using arg_cong [OF assms(1), of length] by simp
  moreover have "0 < length d" using assms(2) by simp
  ultimately have "i + j + n \<le> length mem" using assms(3) by arith
  moreover have "drop (i + j) mem = drop j (d @ r)" using arg_cong [OF assms(1), of "drop j"] by (simp add: add.commute)
  ultimately show ?thesis using assms(3) by (simp add: slice_def)
qed

lemma rd_first: "drop i mem = d @ r \<Longrightarrow> d \<noteq> [] \<Longrightarrow> rd mem i = Some (d ! 0)"
proof -
  assume a: "drop i mem = d @ r" "d \<noteq> []"
  then have "i < length mem" using drop_all [of mem i] by (cases "i < length mem") auto
  moreover from this have "mem ! i = (d @ r) ! 0" using hd_drop_conv_nth [of i mem] a by (simp add: hd_conv_nth)
  ultimately show ?thesis using a(2) by (simp add: nth_append)
qed

lemma put_Some: "length dest + length s + 1 \<le> cap \<Longrightarrow> put cap dest s = Some (dest @ s)"
  by (simp add: put_def)

lemma octets_le: "unat w \<le> 32 \<Longrightarrow> octets w \<le> 4"
  by (simp add: octets_def)

lemma fill_value_spec:
  assumes "drop i mem = d @ r" and "spec_type t" and "value_fits t d" and "length dest + length (value_text t d) + 1 \<le> cap"
  shows "\<exists>i' len' optlen. fill_value t mem cap i len dest = Some (dest @ value_text t d, i', len', optlen) \<and>
    i' + optlen = i + value_len t d \<and> len' - int optlen = len - int (value_len t d)"
proof -
  have ne: "d \<noteq> []" using assms(2,3) by (cases t) (auto simp: value_fits_def value_len_def)
  note sl = slice_at [OF assms(1) ne] and r0 = rd_first [OF assms(1) ne]
  have s0: "n \<le> length d \<Longrightarrow> slice mem i n = Some (take n d)" for n using sl [of 0 n] by simp
  show ?thesis
  proof (cases "t \<in> {OPTION_121, OPTION_249}")
    case True
    let ?n = "octets (d ! 0)"
    have n: "?n \<le> 4" "?n + 5 \<le> length d" using assms(3) True octets_le by (auto simp: value_fits_def value_len_def)
    have "slice mem (i + 1) ?n = Some (take ?n (drop 1 d))" "slice mem (i + ?n + 1) 4 = Some (take 4 (drop (?n + 1) d))"
      using sl [of 1 ?n] sl [of "?n + 1" 4] n(2) by (simp_all add: add.assoc)
    with True assms(4) n(1) r0 show ?thesis
      by (auto simp: fill_value_def value_text_def value_len_def sprintip_def put_Some Let_def)
  next
    case False
    have l: "option_lengths t \<le> length d" using assms(3) False by (simp add: value_fits_def value_len_def)
    show ?thesis
      using False assms(2,4) l r0 s0 sl [of 4 4]
      by (cases t) (simp_all add: fill_value_def value_text_def value_len_def sprintip_def put_Some)
  qed
qed

function values_text :: "otype \<Rightarrow> byte list \<Rightarrow> char list" where
  "values_text t d = (if d = [] \<or> value_len t d = 0 then [] else value_text t d @ values_text t (drop (value_len t d) d))"
  by pat_completeness auto
termination by (relation "measure (\<lambda>(t, d). length d)") auto

function values_fit :: "otype \<Rightarrow> byte list \<Rightarrow> bool" where
  "values_fit t d = (if d = [] then True else if value_len t d = 0 \<or> \<not> value_fits t d then False
     else values_fit t (drop (value_len t d) d))"
  by pat_completeness auto
termination by (relation "measure (\<lambda>(t, d). length d)") auto

declare values_text.simps [simp del] values_fit.simps [simp del]

lemma fill_loop_spec:
  "drop i mem = d @ r \<Longrightarrow> spec_type t \<Longrightarrow> values_fit t d \<Longrightarrow> d \<noteq> [] \<Longrightarrow> length dest + length (values_text t d) + 1 \<le> cap \<Longrightarrow>
    fill_loop t mem cap i (int (length d)) dest = Some (dest @ values_text t d)"
proof (induction t d arbitrary: i dest rule: values_text.induct)
  case (1 t d)
  let ?n = "value_len t d" let ?d = "drop ?n d"
  have f: "value_fits t d" "?n \<noteq> 0" "values_fit t ?d" "?n \<le> length d"
    using 1(4,5) values_fit.simps [of t d] by (auto simp: value_fits_def split: if_splits)
  have tx: "values_text t d = value_text t d @ values_text t ?d" using 1(5) f(2) values_text.simps [of t d] by simp
  from fill_value_spec [OF 1(2,3) f(1), of dest cap "int (length d)"] 1(6) tx obtain i' len' optlen where
    v: "fill_value t mem cap i (int (length d)) dest = Some (dest @ value_text t d, i', len', optlen)"
      "i' + optlen = i + ?n" "len' - int optlen = int (length d) - int ?n" by auto
  have dr: "drop (i + ?n) mem = ?d @ r" using arg_cong [OF 1(2), of "drop ?n"] f(4) by (simp add: add.commute)
  show ?case
  proof (cases "?d = []")
    case True
    then have "len' - int optlen \<le> 0" using v(3) by simp
    with v(1) 1(3) True tx show ?thesis by (subst fill_loop.simps) (simp add: values_text.simps)
  next
    case False
    then have "\<not> len' - int optlen \<le> 0" "len' - int optlen = int (length ?d)" using v(3) by auto
    with v(1,2) 1(3) 1(1) [OF _ dr 1(3) f(3) False, of "dest @ value_text t d"] 1(5,6) f(2) tx show ?thesis
      by (subst fill_loop.simps) simp
  qed
qed

subsection \<open>The blocks are large enough\<close>

lemma fmt_u_length: "length (fmt_u b) \<le> 3" "unat b \<le> 32 \<Longrightarrow> length (fmt_u b) \<le> 2"
proof -
  have "unat b < 256" using unsigned_less [of b] by simp
  then show "length (fmt_u b) \<le> 3" "unat b \<le> 32 \<Longrightarrow> length (fmt_u b) \<le> 2"
    using decimal_length [of "unat b" 3] decimal_length [of "unat b" 2] by (simp_all add: fmt_u_def)
qed

lemma dotted_length: "length (dotted ip) \<le> 15"
  using fmt_u_length(1) [of "ip ! 0"] fmt_u_length(1) [of "ip ! 1"] fmt_u_length(1) [of "ip ! 2"] fmt_u_length(1) [of "ip ! 3"]
  by (simp add: dotted_def)

lemma u32_length: "length (decimal (unat (w :: u32))) \<le> 10"
proof -
  have "unat w < 2 ^ 32" using unsigned_less [of w] by simp
  then show ?thesis using decimal_length [of "unat w" 10] by simp
qed

lemma u16_length: "length (decimal (ntohs_of bs)) \<le> 5"
proof -
  have "unat (bs ! 0) < 256" "unat (bs ! 1) < 256" using unsigned_less [of "bs ! 0"] unsigned_less [of "bs ! 1"] by simp_all
  then show ?thesis using decimal_length [of "ntohs_of bs" 5] by (simp add: ntohs_of_def)
qed

lemma s32_length: "length (fmt_ld (sint (w :: u32))) \<le> 11"
proof -
  have "- (2 ^ 31) \<le> sint w" "sint w < 2 ^ 31" using sint_ge [of w] sint_lt [of w] by simp_all
  then have "nat (- sint w) < 10 ^ 10" "nat (sint w) < 10 ^ 10" by simp_all
  then show ?thesis
    using decimal_length [of "nat (- sint w)" 10] decimal_length [of "nat (sint w)" 10] by (simp add: fmt_ld_def)
qed

lemma value_text_length:
  assumes "t \<notin> {OPTION_121, OPTION_249}" and "spec_type t"
  shows "length (value_text t d) \<le> max_option_length t"
  using assms dotted_length [of "take 4 d"] dotted_length [of "take 4 (drop 4 d)"] fmt_u_length(1) [of "d ! 0"]
    u16_length [of "take 2 d"] u32_length [of "of_be32 (take 4 d)"] s32_length [of "of_be32 (take 4 d)"]
  by (cases t) (simp_all add: value_text_def)

lemma route_text_length:
  assumes "t \<in> {OPTION_121, OPTION_249}" and "unat (d ! 0) \<le> 32"
  shows "length (value_text t d) \<le> 51"
proof -
  let ?w = "d ! 0" let ?a = "be32 (of_be32 (take (octets ?w) (drop 1 d) @ replicate (4 - octets ?w) 0) AND route_mask ?w)"
  have "length (dotted ?a) \<le> 15" "length (dotted (be32 (route_mask ?w))) \<le> 15"
    "length (dotted (take 4 (drop (octets ?w + 1) d))) \<le> 15" by (rule dotted_length)+
  with assms fmt_u_length(2) [of ?w] show ?thesis by (auto simp: value_text_def Let_def)
qed

lemma values_text_length:
  "t \<notin> {OPTION_121, OPTION_249} \<Longrightarrow> spec_type t \<Longrightarrow> values_fit t d \<Longrightarrow>
    length (values_text t d) \<le> max_option_length t * (length d div option_lengths t)"
proof (induction t d rule: values_text.induct)
  case (1 t d)
  show ?case
  proof (cases "d = []")
    case False
    let ?n = "option_lengths t"
    have n: "value_len t d = ?n" using 1(2) by (simp add: value_len_def)
    have f: "0 < ?n" "values_fit t (drop ?n d)" "?n \<le> length d"
      using 1(4) False n values_fit.simps [of t d] by (auto simp: value_fits_def split: if_splits)
    then obtain k where k: "length d div ?n = Suc k" "length (drop ?n d) div ?n = k"
      by (metis le_div_geq length_drop)
    have "length (values_text t (drop ?n d)) \<le> max_option_length t * k"
      using 1(1) n False f(1) 1(2,3) f(2) k(2) by auto
    moreover have "values_text t d = value_text t d @ values_text t (drop ?n d)" using False f(1) n values_text.simps [of t d] by simp
    ultimately show ?thesis using value_text_length [OF 1(2,3), of d] k(1) by simp
  qed (simp add: values_text.simps)
qed

lemma route_block:
  "t \<in> {OPTION_121, OPTION_249} \<Longrightarrow> values_fit t d \<Longrightarrow> drop (p + i) mem = d @ r \<Longrightarrow>
    \<exists>m. dotted_len_loop mem p (i + length d) i n = Some (n + m) \<and> length (values_text t d) \<le> m"
proof (induction t d arbitrary: i n rule: values_text.induct)
  case (1 t d)
  show ?case
  proof (cases "d = []")
    case True
    then show ?thesis by (subst dotted_len_loop.simps) (simp add: values_text.simps)
  next
    case False
    let ?n = "value_len t d"
    have n: "?n = octets (d ! 0) + 4 + 1" using 1(2) by (auto simp: value_len_def)
    have f: "value_fits t d" "values_fit t (drop ?n d)" using 1(3) False values_fit.simps [of t d] by (auto split: if_splits)
    then have l: "?n \<le> length d" "unat (d ! 0) \<le> 32" using 1(2) by (auto simp: value_fits_def)
    have dr: "drop (p + (i + ?n)) mem = drop ?n d @ r"
      using arg_cong [OF 1(4), of "drop ?n"] l(1) by (simp add: add.commute add.left_commute)
    obtain m where m: "dotted_len_loop mem p (i + ?n + length (drop ?n d)) (i + ?n) (n + 51) = Some (n + 51 + m)"
        "length (values_text t (drop ?n d)) \<le> m"
      using 1(1) [OF _ 1(2) f(2) dr, of "n + 51"] False n by auto
    have "dotted_len_loop mem p (i + length d) i n = dotted_len_loop mem p (i + length d) (i + ?n) (n + 51)"
      using rd_first [OF 1(4) False] False n by (subst dotted_len_loop.simps) (simp add: ac_simps)
    moreover have "i + ?n + length (drop ?n d) = i + length d" using l(1) by simp
    moreover have "values_text t d = value_text t d @ values_text t (drop ?n d)" using False n values_text.simps [of t d] by simp
    ultimately show ?thesis using m route_text_length [OF 1(2) l(2)] by (intro exI [of _ "51 + m"]) auto
  qed
qed


subsection \<open>The environment of a well-formed message\<close>

definition option_ok :: "dhcp_option \<Rightarrow> byte list \<Rightarrow> bool" where
  "option_ok t d \<longleftrightarrow> o_type t = OPTION_STRING \<or> d \<noteq> [] \<and> values_fit (o_type t) d"

definition option_text :: "dhcp_option \<Rightarrow> byte list \<Rightarrow> char list" where
  "option_text t d = o_name t @ ''='' @ (if o_type t = OPTION_STRING then chars_of d else values_text (o_type t) d)"

lemma opt_pos_header:
  "opt_pos os code = Some k \<Longrightarrow> \<exists>d r. map_of os code = Some d \<and> 2 \<le> k \<and> k \<le> length (enc os) \<and>
    drop (k - 2) (enc os) = code # of_nat (length d) # d @ r"
proof (induction os code arbitrary: k rule: opt_pos.induct)
  case (2 c d os code)
  show ?case
  proof (cases "c = code")
    case False
    with 2(2) obtain j where j: "opt_pos os code = Some j" "k = length d + 2 + j" by auto
    from 2(1) [OF False j(1)] obtain d' r where r: "map_of os code = Some d'" "2 \<le> j" "j \<le> length (enc os)"
      "drop (j - 2) (enc os) = code # of_nat (length d') # d' @ r" by blast
    have k: "k - 2 = length (c # of_nat (length d) # d) + (j - 2)" using j(2) r(2) by simp
    have "drop (k - 2) (enc ((c, d) # os)) = drop (j - 2) (enc os)"
      unfolding k using drop_append [of "length (c # of_nat (length d) # d) + (j - 2)" "c # of_nat (length d) # d" "enc os"] by simp
    with r j(2) False show ?thesis by auto
  qed (use 2(2) in auto)
qed simp

lemma option_header:
  assumes "message_ok p" and "opts_enc (m_options p) os" and "plain_code code" and "map_of os code = Some d"
  shows "\<exists>k r. get_option p code = Some (Some k) \<and> 2 \<le> k \<and> drop (k - 2) (packet_mem p) = code # of_nat (length d) # d @ r \<and>
    length d \<le> 255"
proof -
  obtain j where j: "opt_pos os code = Some j"
    using assms(4) opt_pos_None [of os code] map_of_eq_None_iff [of os code] by (cases "opt_pos os code") auto
  from opt_pos_header [OF j] assms(4) obtain r where
    r: "2 \<le> j" "j \<le> length (enc os)" "drop (j - 2) (enc os) = code # of_nat (length d) # d @ r" by auto
  obtain rest where o: "m_options p = enc os @ DHCP_END # rest" using assms(2) by (auto simp: opts_enc_def)
  let ?pre = "m_sname p @ m_file p @ be32 (m_cookie p)"
  have pre: "length ?pre = 196" using assms(1) by (simp add: message_ok_def packet_ok_def length_be32)
  have mem: "packet_mem p = ?pre @ enc os @ DHCP_END # rest" by (simp add: packet_mem_def o)
  have "196 + j - 2 = 196 + (j - 2)" using r(1) by simp
  then have "drop (196 + j - 2) (packet_mem p) = drop (j - 2) (enc os) @ DHCP_END # rest" unfolding mem using pre r(2) by simp
  moreover have "length d \<le> 255" using assms(2) map_of_SomeD [OF assms(4)] by (auto simp: opts_enc_def list_all_iff)
  ultimately show ?thesis
    using r(1,3) get_option_opts_enc [OF assms(1-3)] j by (intro exI [of _ "196 + j"]) simp
qed

lemma table_types:
  "list_all (\<lambda>t. o_type t \<noteq> OPTION_IP_PAIR \<and> (o_type t \<in> {OPTION_121, OPTION_249} \<longleftrightarrow> o_code t \<in> {0x79, 0xf9}) \<and>
     plain_code (o_code t)) options_table"
  by (simp add: options_table_def plain_code_def DHCP_PADDING_def DHCP_OPTION_OVER_def DHCP_END_def)

lemma fill_one:
  assumes "drop (k - 2) mem = o_code t # of_nat (length d) # d @ r" and "2 \<le> k" and "length d \<le> 255"
    and "t \<in> set options_table" and "option_ok t d"
  shows "\<exists>cap. option_block mem k t = Some cap \<and> fill_options cap mem k t = Some (option_text t d)"
proof -
  have ty: "o_type t \<noteq> OPTION_IP_PAIR" "o_type t \<in> {OPTION_121, OPTION_249} \<longleftrightarrow> o_code t \<in> {0x79, 0xf9}"
    using assms(4) table_types by (auto simp: list_all_iff)
  have c: "rd mem (k - 2) = Some (o_code t)" using rd_first [of "k - 2" mem "[o_code t]"] assms(1) by simp
  have "drop 1 (drop (k - 2) mem) = of_nat (length d) # d @ r" "drop 2 (drop (k - 2) mem) = d @ r" unfolding assms(1) by simp_all
  moreover have "1 + (k - 2) = k - 1" "2 + (k - 2) = k" using assms(2) by simp_all
  ultimately have d1: "drop (k - 1) mem = of_nat (length d) # d @ r" and d0: "drop k mem = d @ r"
    by (metis drop_drop)+
  have l: "rd mem (k - 1) = Some (of_nat (length d))" using rd_first [of "k - 1" mem "[of_nat (length d)]"] d1 by simp
  have u: "unat (of_nat (length d) :: byte) = length d" using assms(3) by simp
  have u2: "uint (of_nat (length d) :: byte) = int (length d)" using arg_cong [OF u, of int] by simp
  show ?thesis
  proof (cases "o_type t = OPTION_STRING")
    case True
    have "slice mem k (length d) = Some d"
      using slice_at [of "k - 1" mem "of_nat (length d) # d" r 1 "length d"] d1 assms(2) by simp
    moreover have "option_block mem k t = Some (length d + length (o_name t) + 2)"
      using c l ty(2) True u by (simp add: option_block_def upper_length_def)
    ultimately show ?thesis
      using True l u by (simp add: fill_options_def put_Some option_text_def fill_loop.simps chars_of_def)
  next
    case False
    let ?tx = "values_text (o_type t) d"
    have s: "spec_type (o_type t)" using ty(1) False by simp
    have v: "values_fit (o_type t) d" "d \<noteq> []" using assms(5) False by (simp_all add: option_ok_def)
    have "\<exists>m. option_block mem k t = Some (m + length (o_name t) + 2) \<and> length ?tx \<le> m"
    proof (cases "o_type t \<in> {OPTION_121, OPTION_249}")
      case True
      with route_block [OF True v(1), of k 0 mem r 0] d0 l u c ty(2) show ?thesis
        by (auto simp: option_block_def get_opt121_dotted_dec_len_def)
    next
      case False
      with values_text_length [OF False s v(1)] l u c ty(2) show ?thesis by (simp add: option_block_def upper_length_def)
    qed
    then obtain m where m: "option_block mem k t = Some (m + length (o_name t) + 2)" "length ?tx \<le> m" by blast
    have "fill_loop (o_type t) mem (m + length (o_name t) + 2) k (int (length d)) (o_name t @ ''='') = Some (o_name t @ ''='' @ ?tx)"
      using fill_loop_spec [OF d0 s v, of "o_name t @ ''=''" "m + length (o_name t) + 2"] m(2) by simp
    with m(1) l u False show ?thesis by (simp add: fill_options_def put_Some option_text_def u2)
  qed
qed


definition options_env :: "(byte \<times> byte list) list \<Rightarrow> dhcp_option list \<Rightarrow> char list list" where
  "options_env os ts = concat (map (\<lambda>t. case map_of os (o_code t) of None \<Rightarrow> [] | Some d \<Rightarrow> [option_text t d]) ts)"

lemma get_option_absent:
  assumes "message_ok p" and "opts_enc (m_options p) os" and "code \<noteq> DHCP_PADDING" and "code \<noteq> DHCP_END" and "map_of os code = None"
  shows "get_option p code = Some None"
  using get_option_enc [of p os _ code] opt_pos_None [of os code] assms
  by (auto simp: opts_enc_def message_ok_def map_of_eq_None_iff)

lemma plain_not_mark: "plain_code c \<Longrightarrow> c \<noteq> DHCP_PADDING \<and> c \<noteq> DHCP_END"
  by (simp add: plain_code_def)

lemma fill_table_spec:
  assumes "message_ok p" and "opts_enc (m_options p) os" and "set ts \<subseteq> set options_table"
    and "\<forall>t\<in>set ts. \<forall>d. map_of os (o_code t) = Some d \<longrightarrow> option_ok t d"
  shows "fill_table ts p = Some (options_env os ts)" "count_table ts p = Some (length (options_env os ts))"
proof -
  have "fill_table ts p = Some (options_env os ts) \<and> count_table ts p = Some (length (options_env os ts))"
    using assms(3,4)
  proof (induction ts)
    case (Cons t ts)
    have t: "t \<in> set options_table" "plain_code (o_code t)" using Cons.prems(1) table_types by (auto simp: list_all_iff)
    have IH: "fill_table ts p = Some (options_env os ts)" "count_table ts p = Some (length (options_env os ts))"
      using Cons.IH Cons.prems by auto
    show ?case
    proof (cases "map_of os (o_code t)")
      case None
      have "get_option p (o_code t) = Some None"
        using get_option_absent [OF assms(1,2) _ _ None] plain_not_mark [OF t(2)] by blast
      with None IH show ?thesis by (simp add: options_env_def)
    next
      case (Some d)
      from option_header [OF assms(1,2) t(2) Some] obtain k r where k: "get_option p (o_code t) = Some (Some k)" "2 \<le> k"
        "drop (k - 2) (packet_mem p) = o_code t # of_nat (length d) # d @ r" "length d \<le> 255" by blast
      from fill_one [OF k(3,2,4) t(1)] Some Cons.prems(2) obtain cap where
        "option_block (packet_mem p) k t = Some cap" "fill_options cap (packet_mem p) k t = Some (option_text t d)" by auto
      with k(1) Some IH show ?thesis by (simp add: options_env_def)
    qed
  qed (simp add: options_env_def)
  then show "fill_table ts p = Some (options_env os ts)" "count_table ts p = Some (length (options_env os ts))" by simp_all
qed

lemma overload_none:
  assumes "message_ok p" and "opts_enc (m_options p) os"
  shows "overload p = Some 0"
proof -
  have "map_of os DHCP_OPTION_OVER = None"
    using assms(2) by (auto simp: opts_enc_def list_all_iff map_of_eq_None_iff plain_code_def)
  moreover have "DHCP_OPTION_OVER \<noteq> DHCP_PADDING" "DHCP_OPTION_OVER \<noteq> DHCP_END"
    by (simp_all add: DHCP_OPTION_OVER_def DHCP_PADDING_def DHCP_END_def)
  ultimately show ?thesis using get_option_absent [OF assms] by (simp add: overload_def)
qed

text \<open>The environment as the scripts expect it.\<close>

definition script_environment :: "script_env \<Rightarrow> dhcpMessage \<Rightarrow> (byte \<times> byte list) list \<Rightarrow> char list list" where
  "script_environment S p os =
     [''interface='' @ se_interface S, find_env S ''PATH'' ''PATH=/bin:/usr/bin:/sbin:/usr/sbin'', find_env S ''HOME'' ''HOME=/'',
      ''ip='' @ dotted (be32 (m_yiaddr p)) @ '' ''] @ options_env os options_table @
     (if m_siaddr p \<noteq> 0 then [''siaddr='' @ dotted (be32 (m_siaddr p)) @ '' ''] else []) @
     (if m_file p ! 0 \<noteq> 0 then [''boot_file='' @ field_text (m_file p)] else []) @
     (if m_sname p ! 0 \<noteq> 0 then [''sname='' @ field_text (m_sname p)] else [])"

text \<open>C27: for a message each of whose options holds whole values, at least one where it is no string, the script runs
  with exactly one string per option of the table that the message has, behind interface, path, home and address and
  in front of the server, file and host names; no computed block, nor the array of strings, is too small. The two
  addresses are assumed to take fewer than 15 characters.\<close>

theorem script_gets_options:
  assumes "message_ok p" and "opts_enc (m_options p) os"
    and "\<forall>t\<in>set options_table. \<forall>d. map_of os (o_code t) = Some d \<longrightarrow> option_ok t d"
    and "length (dotted (be32 (m_yiaddr p))) < 15" and "m_siaddr p = 0 \<or> length (dotted (be32 (m_siaddr p))) < 15"
    and "se_script S = Some script"
  shows "run_script S (Some p) name = Some (Some (script, name, script_environment S p os))"
proof -
  note t = fill_table_spec [OF assms(1,2) order_refl assms(3)]
  have ip: "sprintip 19 [] ''ip='' '' '' (be32 (m_yiaddr p)) = Some (''ip='' @ dotted (be32 (m_yiaddr p)) @ '' '')"
    using assms(4) by (simp add: sprintip_def put_def)
  have si: "(if m_siaddr p \<noteq> 0 then map_option (\<lambda>s. [s]) (sprintip 23 [] ''siaddr='' '' '' (be32 (m_siaddr p))) else Some []) =
      Some (if m_siaddr p \<noteq> 0 then [''siaddr='' @ dotted (be32 (m_siaddr p)) @ '' ''] else [])"
    using assms(5) by (auto simp: sprintip_def put_def)
  have "fill_envp S (Some p) = Some (script_environment S p os)"
    unfolding fill_envp_def option.case Let_def t overload_none [OF assms(1,2)] bind.bind_lunit ip si
    by (simp add: script_environment_def has_file_def has_sname_def)
  then show ?thesis using assms(6) by (simp add: run_script_def)
qed


definition script_options :: "(byte \<times> byte list) list" where
  "script_options = [(0x03, [10, 0, 0, 1]), (0x06, [10, 0, 0, 1, 10, 0, 0, 2]), (0x0f, [108, 97, 110]),
     (0x79, [24, 192, 168, 2, 10, 0, 0, 1])]"

definition script_message :: dhcpMessage where
  "script_message = example_message\<lparr>m_yiaddr := 0x0A000005,
     m_options := enc script_options @ DHCP_END # replicate (307 - length (enc script_options)) 0\<rparr>"

definition script_client :: script_env where
  "script_client = \<lparr>se_interface = ''eth1'', se_script = Some ''/var/servd/WAN-1-udhcpc.sh'', se_environ = [''HOME=/root'']\<rparr>"

lemma script_message_ok: "message_ok script_message" "opts_enc (m_options script_message) script_options"
  using example_message_ok(1)
  by (simp_all add: script_message_def message_ok_def packet_ok_def opts_enc_def script_options_def plain_code_def
      DHCP_PADDING_def DHCP_OPTION_OVER_def DHCP_END_def)

lemma script_options_ok: "\<forall>t\<in>set options_table. \<forall>d. map_of script_options (o_code t) = Some d \<longrightarrow> option_ok t d"
proof -
  have "list_all (\<lambda>t. case map_of script_options (o_code t) of None \<Rightarrow> True | Some d \<Rightarrow> option_ok t d) options_table"
    by code_simp
  then show ?thesis by (auto simp: list_all_iff split: option.splits)
qed

theorem script_gets_options_witness:
  "\<exists>envp. run_script script_client (Some script_message) ''bound'' = Some (Some (''/var/servd/WAN-1-udhcpc.sh'', ''bound'', envp)) \<and>
     [''interface=eth1'', ''PATH=/bin:/usr/bin:/sbin:/usr/sbin'', ''HOME=/root'', ''ip=10.0.0.5 '', ''router=10.0.0.1 '',
      ''dns=10.0.0.1 10.0.0.2 '', ''domain=lan'', ''clsstrout=192.168.2.0,255.255.255.0,24,10.0.0.1 ''] = envp"
proof -
  have m: "m_yiaddr script_message = 0x0A000005" "m_siaddr script_message = 0" "m_file script_message ! 0 = 0" "m_sname script_message ! 0 = 0"
    by (simp_all add: script_message_def example_message_def blank_message_def)
  have c: "se_interface script_client = ''eth1''" "se_script script_client = Some ''/var/servd/WAN-1-udhcpc.sh''"
    by (simp_all add: script_client_def)
  have d: "dotted (be32 0x0A000005) = ''10.0.0.5''" by code_simp
  have o: "options_env script_options options_table = [''router=10.0.0.1 '', ''dns=10.0.0.1 10.0.0.2 '', ''domain=lan'',
      ''clsstrout=192.168.2.0,255.255.255.0,24,10.0.0.1 '']" by code_simp
  have e: "find_env script_client ''PATH'' x = x" "find_env script_client ''HOME'' x = ''HOME=/root''" for x
    by (simp_all add: find_env_def script_client_def)
  from script_gets_options [OF script_message_ok script_options_ok, of script_client "''/var/servd/WAN-1-udhcpc.sh''" "''bound''"]
  show ?thesis by (simp add: m d c) (simp add: script_environment_def m d o e c)
qed

subsection \<open>Messages that break the client\<close>

text \<open>For every address that takes 15 characters, such as 192.168.100.100, the string with the address is written
  behind the end of its block: the size counts the terminator but not the blank.\<close>

theorem script_address_overflow:
  assumes "length (dotted (be32 (m_yiaddr p))) = 15"
  shows "fill_envp S (Some p) = None"
proof -
  have "sprintip 19 [] ''ip='' '' '' (be32 (m_yiaddr p)) = None" using assms by (simp add: sprintip_def put_def)
  then show ?thesis by (simp add: fill_envp_def Let_def bind_eq_None_conv)
qed

theorem script_address_overflow_witness:
  "fill_envp script_client (Some (script_message\<lparr>m_yiaddr := 0xC0A86464\<rparr>)) = None"
proof -
  have "length (dotted (be32 0xC0A86464)) = 15" by code_simp
  then show ?thesis using script_address_overflow [of "script_message\<lparr>m_yiaddr := 0xC0A86464\<rparr>"] by simp
qed

lemma fill_table_fault:
  "t \<in> set ts \<Longrightarrow> get_option p (o_code t) = Some (Some k) \<Longrightarrow>
    (\<And>cap. option_block (packet_mem p) k t = Some cap \<Longrightarrow> fill_options cap (packet_mem p) k t = None) \<Longrightarrow> fill_table ts p = None"
proof (induction ts)
  case (Cons u ts)
  show ?case
  proof (cases "u = t")
    case True
    with Cons.prems(2,3) show ?thesis by (cases "option_block (packet_mem p) k t") simp_all
  next
    case False
    then have "fill_table ts p = None" using Cons by simp
    then show ?thesis by (auto simp: bind_eq_None_conv split: option.split)
  qed
qed simp

lemma fill_options_short:
  assumes "o_type t = OPTION_IP" and "rd mem (k - 2) = Some (o_code t)" and "o_code t \<notin> {0x79, 0xf9}"
    and "rd mem (k - 1) = Some (of_nat (length d))" and "length d < 4" and "option_block mem k t = Some cap"
  shows "fill_options cap mem k t = None"
proof -
  have u: "unat (of_nat (length d) :: byte) = length d" using assms(5) by simp
  have "cap = length (o_name t) + 2"
    using assms u by (simp add: option_block_def upper_length_def)
  then have "fill_value OPTION_IP mem cap k len (o_name t @ ''='') = None" for len
    by (auto simp: fill_value_def sprintip_def put_def dotted_def bind_eq_None_conv)
  with assms(1,4) show ?thesis by (simp add: fill_options_def fill_loop.simps put_def)
qed

text \<open>C37: an address option of fewer than four bytes, which any server can send, gets a block without room for a value,
  and one address is written into it all the same: the client writes behind the block.\<close>

theorem script_short_option_overflow:
  assumes "message_ok p" and "opts_enc (m_options p) os" and "t \<in> set options_table" and "o_type t = OPTION_IP"
    and "map_of os (o_code t) = Some d" and "length d < 4"
  shows "fill_envp S (Some p) = None"
proof -
  have t: "plain_code (o_code t)" "o_code t \<notin> {0x79, 0xf9}" using assms(3,4) table_types by (auto simp: list_all_iff)
  from option_header [OF assms(1,2) t(1) assms(5)] obtain k r where k: "get_option p (o_code t) = Some (Some k)" "2 \<le> k"
    "drop (k - 2) (packet_mem p) = o_code t # of_nat (length d) # d @ r" by blast
  have c: "rd (packet_mem p) (k - 2) = Some (o_code t)" using rd_first [of "k - 2" "packet_mem p" "[o_code t]"] k(3) by simp
  have "drop 1 (drop (k - 2) (packet_mem p)) = of_nat (length d) # d @ r" unfolding k(3) by simp
  moreover have "1 + (k - 2) = k - 1" using k(2) by simp
  ultimately have "drop (k - 1) (packet_mem p) = [of_nat (length d)] @ d @ r" by (metis append_Cons append_Nil drop_drop)
  from rd_first [OF this] have l: "rd (packet_mem p) (k - 1) = Some (of_nat (length d))" by simp
  have "fill_table options_table p = None"
    using fill_table_fault [OF assms(3) k(1)] fill_options_short [OF assms(4) c t(2) l assms(6)] by blast
  then show ?thesis by (simp add: fill_envp_def Let_def bind_eq_None_conv)
qed

theorem script_short_option_overflow_witness:
  "fill_envp script_client (Some (example_message\<lparr>m_options := enc [(0x03, [10])] @ DHCP_END # replicate 304 0\<rparr>)) = None"
proof -
  let ?p = "example_message\<lparr>m_options := enc [(0x03, [10])] @ DHCP_END # replicate 304 0\<rparr>"
  have "message_ok ?p" "opts_enc (m_options ?p) [(0x03, [10])]"
    using example_message_ok(1)
    by (simp_all add: message_ok_def packet_ok_def opts_enc_def plain_code_def DHCP_PADDING_def DHCP_OPTION_OVER_def DHCP_END_def)
  moreover have "options_table ! 2 \<in> set options_table" "o_type (options_table ! 2) = OPTION_IP" "o_code (options_table ! 2) = 0x03"
    by (simp_all add: options_table_def)
  ultimately show ?thesis
    using script_short_option_overflow [of ?p "[(0x03, [10])]" "options_table ! 2" "[10]" script_client] by simp
qed

end
