(* ===== verification/Libc_Text.thy ===== *)
theory Libc_Text
  imports Xmldb
begin

text \<open>
  The text functions of the C library the programs are linked with (uClibc, under
  \<^verbatim>\<open>rsdk-1.3.6-4181-EB-2.6.30-0.9.30/config/uclibc/libc\<close>): \<^verbatim>\<open>strtok\<close> on a memory block, \<^verbatim>\<open>strtoul\<close> and \<^verbatim>\<open>strtol\<close>
  with a dynamic base, and \<^verbatim>\<open>inet_aton\<close>. A pointer into a block is an offset; \<^verbatim>\<open>long\<close> has 32 bits.
\<close>

definition str_at :: "char list \<Rightarrow> nat \<Rightarrow> char list option" where
  "str_at b p = cstr (drop p b)"

subsection \<open>Tokens\<close>

text \<open>\<^verbatim>\<open>strtok_r\<close> from position \<open>p\<close>: the token or the null pointer, the saved position, and the block, in which
  the delimiter behind the token has become a NUL.\<close>

definition strtok :: "char list \<Rightarrow> char list \<Rightarrow> nat \<Rightarrow> (nat option \<times> nat \<times> char list) option" where
  "strtok delim b p = do {
     s \<leftarrow> str_at b p;
     let k = length (takeWhile (\<lambda>c. c \<in> set delim) s);
     let t = drop k s;
     let n = length (takeWhile (\<lambda>c. c \<notin> set delim) t);
     if t = [] then Some (None, p + k, b)
     else if n = length t then Some (Some (p + k), p + length s, b)
     else do {
       b' \<leftarrow> wr b (p + k + n) NUL;
       Some (Some (p + k), p + k + n + 1, b') } }"

subsection \<open>Numbers\<close>

definition strto_digit :: "char \<Rightarrow> int" where
  "strto_digit c = (if 48 \<le> uchar c \<and> uchar c \<le> 57 then uchar c - 48
     else if 97 \<le> (32 OR uchar c) then (32 OR uchar c) - 87 else 40)"

text \<open>The digit loop: the number, whether the sign is still to be applied, and the text behind the digits; \<open>fail\<close>
  is the text \<^verbatim>\<open>fail_char\<close> points to.\<close>

fun strto_loop :: "int \<Rightarrow> bool \<Rightarrow> int \<Rightarrow> bool \<Rightarrow> char list \<Rightarrow> char list \<Rightarrow> int \<times> bool \<times> char list" where
  "strto_loop base sflag number negative fail [] = (number, negative, fail)"
| "strto_loop base sflag number negative fail (c # s) =
     (if strto_digit c \<ge> base then (number, negative, fail)
      else if number * base + strto_digit c > 2 ^ 32 - 1
        then strto_loop base sflag (2 ^ 32 - 1) (negative \<and> sflag) s s
      else strto_loop base sflag (number * base + strto_digit c) negative s s)"

definition strto_base :: "char list \<Rightarrow> char list \<Rightarrow> int \<times> char list \<times> char list" where
  "strto_base str s = (case s of
       [] \<Rightarrow> (10, str, s)
     | c # s1 \<Rightarrow>
         if c \<noteq> CHR ''0'' then (10, str, s)
         else (case s1 of [] \<Rightarrow> (8, s1, s1)
           | x # s2 \<Rightarrow> if x = CHR ''x'' \<or> x = CHR ''X'' then (16, s1, s2) else (8, s1, s1)))"

text \<open>\<^verbatim>\<open>_stdlib_strto_l\<close> with base 0: the value and the text behind it.\<close>

definition strto_l :: "bool \<Rightarrow> char list \<Rightarrow> u32 \<times> char list" where
  "strto_l sflag str = (let
     s0 = dropWhile isspace str;
     negative = (s0 \<noteq> [] \<and> hd s0 = CHR ''-'');
     s = (if s0 \<noteq> [] \<and> (hd s0 = CHR ''-'' \<or> hd s0 = CHR ''+'') then tl s0 else s0);
     (base, fail, ds) = strto_base str s;
     (number, neg, rest) = strto_loop base sflag 0 negative fail ds;
     limit = (if neg then 2 ^ 31 else 2 ^ 31 - 1);
     n = (if sflag \<and> number > limit then limit else number)
     in (if neg then - of_int n else of_int n, rest))"

definition strtoul :: "char list \<Rightarrow> u32 \<times> char list" where
  "strtoul s = strto_l False s"

definition strtol :: "char list \<Rightarrow> u32 \<times> char list" where
  "strtol s = strto_l True s"

subsection \<open>Addresses\<close>

fun inet_part :: "char list \<Rightarrow> int \<Rightarrow> (int \<times> char list) option" where
  "inet_part [] v = Some (v, [])"
| "inet_part (c # s) v =
     (if isdigit c then
        (let v' = v * 10 + (uchar c - 48) in if v' > 255 then None else inet_part s v')
      else Some (v, c # s))"

text \<open>The loop over the parts; the first argument counts the parts that are left.\<close>

fun inet_loop :: "nat \<Rightarrow> u32 \<Rightarrow> char list \<Rightarrow> u32 option" where
  "inet_loop 0 addr s = Some addr"
| "inet_loop (Suc k) addr s =
     (if s = [] \<or> \<not> isdigit (hd s) then None
      else (case inet_part s 0 of None \<Rightarrow> None
        | Some (v, r) \<Rightarrow>
            if k > 0 then
              (if r = [] \<or> hd r \<noteq> CHR ''.'' then None
               else inet_loop k (push_bit 8 addr OR of_int v) (tl r))
            else if r \<noteq> [] \<and> \<not> isspace (hd r) then None
            else inet_loop k (push_bit 8 addr OR of_int v) r))"

definition inet_aton :: "char list option \<Rightarrow> u32 option" where
  "inet_aton cp = (case cp of None \<Rightarrow> None | Some s \<Rightarrow> inet_loop 4 0 s)"

end
