(* ===== verification/Dhcp_Config.thy ===== *)
theory Dhcp_Config
  imports Libc_Text Dhcp_Server
begin

text \<open>
  The configuration file of the DHCP server: \<^verbatim>\<open>read_config\<close> of \<^verbatim>\<open>progs.gpl/udhcpcd/files.c\<close> with the handlers of
  its keywords, and the start of \<^verbatim>\<open>main\<close> in \<^verbatim>\<open>dhcpd.c\<close> that turns what was read into the configuration and the
  static leases of the server. The line buffer is a memory block the handlers cut into tokens; \<open>None\<close> is an access
  outside a block, through a null pointer, or of an indeterminate value. Allocations succeed. The build has neither
  \<^verbatim>\<open>HOLD_LAN_IP\<close> nor \<^verbatim>\<open>MULTI_INSTANCE\<close>.
\<close>

record config_t = server_config_t +
  sc_interface :: "char list option"
  sc_max_leases :: u32
  sc_auto_time :: u32
  sc_conflict_time :: u32
  sc_lease_file :: "char list option"
  sc_pidfile :: "char list option"
  sc_notify_file :: "char list option"
  sc_dhcp_helper :: "char list option"

text \<open>The globals \<^verbatim>\<open>server_config\<close> and \<^verbatim>\<open>static_leases\<close>, the static variable \<^verbatim>\<open>index\<close> of \<^verbatim>\<open>read_static\<close>, and the
  messages sent to the log.\<close>

record config_state =
  cs_config :: config_t
  cs_static :: "dhcpOfferedAddr list"
  cs_index :: nat
  cs_log :: "char list list"

text \<open>What the code gets from outside: the answer of \<^verbatim>\<open>gethostbyname\<close> (an address in network order), and what
  the stack holds where \<^verbatim>\<open>read_static\<close> has its variable \<^verbatim>\<open>yiaddr\<close>.\<close>

record config_env =
  ce_gethostbyname :: "char list \<Rightarrow> u32 option"
  ce_stack :: u32

definition bytes_of :: "char list \<Rightarrow> byte list" where
  "bytes_of s = map of_char s"

abbreviation TAB :: char where "TAB \<equiv> CHR 0x09"
abbreviation LF :: char where "LF \<equiv> CHR 0x0A"

subsection \<open>Values\<close>

definition read_ip :: "config_env \<Rightarrow> char list option \<Rightarrow> u32 option" where
  "read_ip E line = (case inet_aton line of
       Some a \<Rightarrow> Some a
     | None \<Rightarrow> Option.bind line (ce_gethostbyname E))"

definition read_u32 :: "char list \<Rightarrow> bool \<times> u32" where
  "read_u32 line = (let (v, endptr) = strtoul line in (endptr = [], v))"

definition read_yn :: "char list \<Rightarrow> bool option" where
  "read_yn line = (if strcasecmp ''yes'' line = 0 then Some True
     else if strcasecmp ''no'' line = 0 then Some False else None)"

text \<open>The text a pointer points to; the null pointer has none.\<close>

definition text_at :: "char list \<Rightarrow> nat option \<Rightarrow> char list option option" where
  "text_at b v = (case v of None \<Rightarrow> Some None | Some p \<Rightarrow> map_option Some (str_at b p))"

text \<open>The \<^verbatim>\<open>switch\<close> on the type of an option: the return value (\<open>None\<close> when no branch sets it), the bytes in
  \<^verbatim>\<open>buffer\<close>, the block, the position saved by \<^verbatim>\<open>strtok\<close>, and the pointer \<^verbatim>\<open>val\<close>.\<close>

definition number_value :: "u32 \<times> char list \<Rightarrow> (u32 \<Rightarrow> byte list) \<Rightarrow> bool option \<times> byte list" where
  "number_value n f = (Some (snd n = []), f (fst n))"

definition plain_value :: "config_env \<Rightarrow> otype \<Rightarrow> char list option \<Rightarrow> (bool option \<times> byte list) option" where
  "plain_value E t v = (case t of
       OPTION_IP \<Rightarrow> Some (case read_ip E v of None \<Rightarrow> (Some False, []) | Some a \<Rightarrow> (Some True, be32 a))
     | OPTION_IP_PAIR \<Rightarrow> Some (None, [])
     | OPTION_STRING \<Rightarrow> map_option (\<lambda>s. if s \<noteq> [] then (Some True, bytes_of (take 254 s)) else (None, [])) v
     | OPTION_BOOLEAN \<Rightarrow> map_option (\<lambda>s. case read_yn s of None \<Rightarrow> (Some False, [])
         | Some y \<Rightarrow> (Some True, [if y then 1 else 0])) v
     | OPTION_U8 \<Rightarrow> map_option (\<lambda>s. number_value (strtoul s) (\<lambda>w. [ucast w])) v
     | OPTION_U16 \<Rightarrow> map_option (\<lambda>s. number_value (strtoul s) (\<lambda>w. be16 (ucast w))) v
     | OPTION_S16 \<Rightarrow> map_option (\<lambda>s. number_value (strtol s) (\<lambda>w. be16 (ucast w))) v
     | OPTION_U32 \<Rightarrow> map_option (\<lambda>s. number_value (strtoul s) be32) v
     | OPTION_S32 \<Rightarrow> map_option (\<lambda>s. number_value (strtol s) be32) v
     | OPTION_33 \<Rightarrow> Some (None, [])
     | OPTION_121 \<Rightarrow> Some (None, [])
     | OPTION_249 \<Rightarrow> Some (None, []))"

definition switch_value :: "config_env \<Rightarrow> otype \<Rightarrow> char list \<Rightarrow> nat \<Rightarrow> nat option \<Rightarrow>
    (bool option \<times> byte list \<times> char list \<times> nat \<times> nat option) option" where
  "switch_value E t b save val =
     (if t = OPTION_IP_PAIR then do {
        s \<leftarrow> text_at b val;
        (val2, save2, b2) \<leftarrow> strtok ('', '' @ [TAB] @ ''/-'') b save;
        s2 \<leftarrow> text_at b2 val2;
        Some (case (read_ip E s, val2) of
            (Some a, Some _) \<Rightarrow> (case read_ip E s2 of None \<Rightarrow> (Some False, [], b2, save2, val2)
              | Some a2 \<Rightarrow> (Some True, be32 a @ be32 a2, b2, save2, val2))
          | _ \<Rightarrow> (Some False, [], b2, save2, val2)) }
      else do {
        s \<leftarrow> text_at b val;
        (retval, data) \<leftarrow> plain_value E t s;
        Some (retval, data, b, save, val) })"

subsection \<open>Options\<close>

text \<open>The loop over the table of options: the last entry of that name, or what was found before.\<close>

definition option_named :: "dhcp_option option \<Rightarrow> char list \<Rightarrow> dhcp_option option" where
  "option_named found name =
     foldl (\<lambda>acc t. if strcmp (o_name t) name = 0 then Some t else acc) found options_table"

text \<open>The loop of \<^verbatim>\<open>read_opt\<close>; \<open>q\<close> is \<^verbatim>\<open>line + strlen(opt) + 1\<close>, where the value of a one-byte type is taken from.\<close>

fun opt_loop :: "nat \<Rightarrow> config_env \<Rightarrow> dhcp_option \<Rightarrow> nat \<Rightarrow> char list \<Rightarrow> nat \<Rightarrow> bool \<Rightarrow> byte list list \<Rightarrow>
    (bool \<times> char list \<times> byte list list) option" where
  "opt_loop 0 E opt q b save retval opts = None"
| "opt_loop (Suc n) E opt q b save retval opts = do {
     (val, save1, b1) \<leftarrow> (if option_lengths (o_type opt) > 1 then strtok ('', '' @ [TAB]) b save
       else Some (Some q, save, b));
     (case val of
        None \<Rightarrow> Some (retval, b1, opts)
      | Some p \<Rightarrow> do {
          (r, data, b2, save2, val2) \<leftarrow> switch_value E (o_type opt) b1 save1 (Some p);
          let ok = (r = Some True);
          let opts2 = (if ok then attach_option opts opt data else opts);
          if val2 \<noteq> None \<and> ok \<and> o_list opt then opt_loop n E opt q b2 save2 ok opts2
          else Some (ok, b2, opts2) }) }"

definition read_opt :: "config_env \<Rightarrow> char list \<Rightarrow> nat \<Rightarrow> byte list list \<Rightarrow> (bool \<times> char list \<times> byte list list) option" where
  "read_opt E b line opts = do {
     (opt, save, b1) \<leftarrow> strtok ('' '' @ [TAB] @ ''='') b line;
     (case opt of
        None \<Rightarrow> Some (False, b1, opts)
      | Some q \<Rightarrow> do {
          name \<leftarrow> str_at b1 q;
          (case option_named None name of
             None \<Rightarrow> Some (False, b1, opts)
           | Some t \<Rightarrow> opt_loop (Suc (length b)) E t (line + length name + 1) b1 save False opts) }) }"

text \<open>\<^verbatim>\<open>add_opt\<close>: no branch sets \<^verbatim>\<open>retval\<close> for the route options, and the test of it is undefined.\<close>

definition add_opt :: "config_env \<Rightarrow> dhcp_option \<Rightarrow> char list \<Rightarrow> nat \<Rightarrow> nat option \<Rightarrow> byte list list \<Rightarrow>
    (char list \<times> nat \<times> byte list list) option" where
  "add_opt E opt b save val opts = do {
     (r, data, b2, save2, val2) \<leftarrow> switch_value E (o_type opt) b save val;
     retval \<leftarrow> r;
     Some (b2, save2, if retval then attach_option opts opt data else opts) }"

subsection \<open>Hardware addresses\<close>

definition nibble :: "char \<Rightarrow> int option" where
  "nibble c = (if isdigit c then Some (uchar c - 48)
     else if 97 \<le> uchar c \<and> uchar c \<le> 102 then Some (uchar c - 97 + 10)
     else if 65 \<le> uchar c \<and> uchar c \<le> 70 then Some (uchar c - 65 + 10)
     else None)"

definition is_sep :: "char \<Rightarrow> bool" where "is_sep c \<longleftrightarrow> c = CHR '':'' \<or> c = CHR ''-''"

text \<open>One address byte: its value and the text behind it and a separator.\<close>

definition haddr_byte :: "char \<Rightarrow> char list \<Rightarrow> (int \<times> char list) option" where
  "haddr_byte c s = do {
     h \<leftarrow> nibble c;
     (v, r) \<leftarrow> (case s of
         [] \<Rightarrow> Some (h, [])
       | d # s2 \<Rightarrow> (case nibble d of
             Some l \<Rightarrow> Some (h * 16 + l, s2)
           | None \<Rightarrow> if is_sep d then Some (h, s2) else None));
     Some (v, (if r \<noteq> [] \<and> is_sep (hd r) then tl r else r)) }"

lemma haddr_byte_length: "haddr_byte c s = Some (v, r) \<Longrightarrow> length r \<le> length s"
  by (cases s) (auto simp: haddr_byte_def bind_eq_Some_conv split: option.splits if_splits)

function haddr_loop :: "char list \<Rightarrow> nat \<Rightarrow> byte list \<Rightarrow> (bool \<times> byte list) option" where
  "haddr_loop [] i chaddr = Some (i = 6, chaddr)"
| "haddr_loop (c # s) i chaddr =
     (if i \<ge> 6 then Some (False, chaddr)
      else (case haddr_byte c s of
          None \<Rightarrow> Some (False, chaddr)
        | Some (v, r) \<Rightarrow> Option.bind (wr chaddr i (of_int v)) (haddr_loop r (i + 1))))"
  by pat_completeness auto
termination by (relation "measure (\<lambda>(s, i, chaddr). length s)") (auto dest: haddr_byte_length)

definition read_haddr :: "char list \<Rightarrow> byte list \<Rightarrow> (bool \<times> byte list) option" where
  "read_haddr block chaddr = do {
     (bufp, save, b) \<leftarrow> strtok ('', '' @ [TAB]) block 0;
     p \<leftarrow> bufp;
     s \<leftarrow> str_at b p;
     haddr_loop s 0 chaddr }"

subsection \<open>Static leases\<close>

definition cpyact :: "byte list \<Rightarrow> byte list list \<Rightarrow> byte list list" where
  "cpyact d opts = insert_option ([d ! 0, d ! 1] @ take (unat (d ! 1)) (drop 2 d)) opts"

definition copy_option :: "byte list list \<Rightarrow> byte list list \<Rightarrow> nat \<Rightarrow> byte list list" where
  "copy_option config opts i = (let code = sint (o_code (options_table ! i)) in
     case find_option opts code of
       Some _ \<Rightarrow> opts
     | None \<Rightarrow> (case find_option config code of None \<Rightarrow> opts | Some k \<Rightarrow> cpyact (config ! k) opts))"

text \<open>Subnet, router, DNS, domain and WINS.\<close>

definition cpyopttostatic_leases :: "byte list list \<Rightarrow> byte list list \<Rightarrow> byte list list" where
  "cpyopttostatic_leases config opts = foldl (copy_option config) opts [0, 2, 5, 11, 19]"

text \<open>The loop over the options at the end of a static line; \<open>found\<close> is the variable \<^verbatim>\<open>option\<close>, which keeps its value
  from one turn to the next.\<close>

fun static_options :: "nat \<Rightarrow> config_env \<Rightarrow> char list \<Rightarrow> nat \<Rightarrow> dhcp_option option \<Rightarrow> byte list list \<Rightarrow>
    (char list \<times> byte list list) option" where
  "static_options 0 E b save found opts = None"
| "static_options (Suc n) E b save found opts = do {
     (val, save1, b1) \<leftarrow> strtok ('' '' @ [TAB]) b save;
     (case val of
        None \<Rightarrow> Some (b1, opts)
      | Some q \<Rightarrow> do {
          name \<leftarrow> str_at b1 q;
          (val2, save2, b2) \<leftarrow> strtok ('', '' @ [TAB]) b1 save1;
          opt \<leftarrow> option_named found name;
          (b3, save3, opts3) \<leftarrow> add_opt E opt b2 save2 val2 opts;
          static_options n E b3 save3 (Some opt) opts3 }) }"

definition hostname_block :: "char list \<Rightarrow> char list" where
  "hostname_block val = (if length val > 64 then (take 64 val)[63 := NUL] else val @ replicate (64 - length val) NUL)"

definition static_entry :: "byte list list \<Rightarrow> byte list list \<Rightarrow> byte list \<Rightarrow> u32 \<Rightarrow> byte list \<Rightarrow> dhcpOfferedAddr \<Rightarrow> dhcpOfferedAddr" where
  "static_entry config opts hostname yiaddr chaddr l =
     l\<lparr>l_hostname := hostname, l_yiaddr := yiaddr, l_chaddr := chaddr, l_ACKed := 0, l_expires := 0xFFFFFFFF,
       l_options := cpyopttostatic_leases config opts\<rparr>"

definition read_static :: "config_env \<Rightarrow> char list \<Rightarrow> nat \<Rightarrow> config_state \<Rightarrow> (bool \<times> char list \<times> config_state) option" where
  "read_static E b line st = (if cs_index st \<ge> MAX_STATIC_LEASES then Some (False, b, st)
     else do {
       l \<leftarrow> rd (cs_static st) (cs_index st);
       (val1, save1, b1) \<leftarrow> strtok ('', '' @ [TAB]) b line;
       p1 \<leftarrow> val1;
       name \<leftarrow> str_at b1 p1;
       (val2, save2, b2) \<leftarrow> strtok ('', '' @ [TAB] @ ''/-'') b1 save1;
       addr \<leftarrow> text_at b2 val2;
       let yiaddr = read_ip E addr;
       (val3, save3, b3) \<leftarrow> strtok ('', '' @ [TAB] @ ''/-'') b2 save2;
       p3 \<leftarrow> val3;
       mac \<leftarrow> str_at b3 p3;
       strchaddr \<leftarrow> blit (replicate 64 NUL) 0 mac;
       (b4, opts) \<leftarrow> static_options (Suc (length b)) E b3 save3 None (l_options l);
       (_, chaddr) \<leftarrow> read_haddr strchaddr blank_chaddr;
       host \<leftarrow> cstr (hostname_block name);
       hostname \<leftarrow> blit (l_hostname l) 0 (bytes_of host @ [0]);
       let l2 = static_entry (sc_options (cs_config st)) opts hostname
         (case yiaddr of Some a \<Rightarrow> a | None \<Rightarrow> ce_stack E) chaddr l;
       Some (yiaddr \<noteq> None, b4, st\<lparr>cs_static := (cs_static st)[cs_index st := l2], cs_index := cs_index st + 1\<rparr>) })"

subsection \<open>Keywords\<close>

text \<open>A handler with the address of its variable, given as the update of the field.\<close>

datatype handler =
    Read_ip "(u32 \<Rightarrow> u32) \<Rightarrow> config_t \<Rightarrow> config_t"
  | Read_str "(char list option \<Rightarrow> char list option) \<Rightarrow> config_t \<Rightarrow> config_t"
  | Read_bytes "(byte list option \<Rightarrow> byte list option) \<Rightarrow> config_t \<Rightarrow> config_t"
  | Read_u32 "(u32 \<Rightarrow> u32) \<Rightarrow> config_t \<Rightarrow> config_t"
  | Read_yn "(bool \<Rightarrow> bool) \<Rightarrow> config_t \<Rightarrow> config_t"
  | Read_opt
  | Read_static

text \<open>\<open>Read_bytes\<close> is \<^verbatim>\<open>read_str\<close> too, for the strings that go into messages as bytes. The first component of
  \<open>scalar_value\<close> is the return value of the handler.\<close>

fun scalar_value :: "handler \<Rightarrow> config_env \<Rightarrow> char list \<Rightarrow> config_t \<Rightarrow> bool \<times> config_t" where
  "scalar_value (Read_ip f) E s c = (case read_ip E (Some s) of None \<Rightarrow> (False, c) | Some a \<Rightarrow> (True, f (\<lambda>_. a) c))"
| "scalar_value (Read_str f) E s c = (True, f (\<lambda>_. Some s) c)"
| "scalar_value (Read_bytes f) E s c = (True, f (\<lambda>_. Some (bytes_of s)) c)"
| "scalar_value (Read_u32 f) E s c = (let (ok, v) = read_u32 s in (ok, f (\<lambda>_. v) c))"
| "scalar_value (Read_yn f) E s c = (case read_yn s of None \<Rightarrow> (False, c) | Some y \<Rightarrow> (True, f (\<lambda>_. y) c))"
| "scalar_value Read_opt E s c = (False, c)"
| "scalar_value Read_static E s c = (False, c)"

definition call_keyword :: "handler \<Rightarrow> config_env \<Rightarrow> char list \<Rightarrow> nat \<Rightarrow> config_state \<Rightarrow>
    (bool \<times> char list \<times> config_state) option" where
  "call_keyword h E b line st = (case h of
       Read_opt \<Rightarrow> do {
         (r, b2, opts) \<leftarrow> read_opt E b line (sc_options (cs_config st));
         Some (r, b2, st\<lparr>cs_config := (cs_config st)\<lparr>sc_options := opts\<rparr>\<rparr>) }
     | Read_static \<Rightarrow> read_static E b line st
     | _ \<Rightarrow> do {
         s \<leftarrow> str_at b line;
         let (r, c) = scalar_value h E s (cs_config st);
         Some (r, b, st\<lparr>cs_config := c\<rparr>) })"

definition keyword_table :: "(char list \<times> handler \<times> char list) list" where
  "keyword_table =
    [(''start'', Read_ip sc_start_update, ''192.168.0.20''),
     (''end'', Read_ip sc_end_update, ''192.168.0.254''),
     (''interface'', Read_str sc_interface_update, ''eth0''),
     (''option'', Read_opt, ''''),
     (''opt'', Read_opt, ''''),
     (''max_leases'', Read_u32 sc_max_leases_update, ''254''),
     (''remaining'', Read_yn sc_remaining_update, ''yes''),
     (''auto_time'', Read_u32 sc_auto_time_update, ''7200''),
     (''decline_time'', Read_u32 sc_decline_time_update, ''3600''),
     (''conflict_time'', Read_u32 sc_conflict_time_update, ''3600''),
     (''offer_time'', Read_u32 sc_offer_time_update, ''60''),
     (''min_lease'', Read_u32 sc_min_lease_update, ''60''),
     (''lease_file'', Read_str sc_lease_file_update, ''/var/lib/misc/udhcpd.leases''),
     (''pidfile'', Read_str sc_pidfile_update, ''/var/run/udhcpd.pid''),
     (''notify_file'', Read_str sc_notify_file_update, ''''),
     (''siaddr'', Read_ip sc_siaddr_update, ''0.0.0.0''),
     (''sname'', Read_bytes sc_sname_update, ''''),
     (''boot_file'', Read_bytes sc_boot_file_update, ''''),
     (''dhcp_helper'', Read_str sc_dhcp_helper_update, ''''),
     (''static'', Read_static, ''''),
     (''force_bcast'', Read_yn sc_force_bcast_update, ''no'')]"

text \<open>The default of a keyword in its array of 30 bytes.\<close>

definition def_block :: "char list \<Rightarrow> char list" where
  "def_block d = d @ replicate (30 - length d) NUL"

subsection \<open>Lines\<close>

definition parse_error :: "char list \<Rightarrow> char list" where
  "parse_error orig = ''unable to parse '' @ [CHR 0x27] @ orig @ [CHR 0x27]"

fun try_keywords :: "(char list \<times> handler \<times> char list) list \<Rightarrow> config_env \<Rightarrow> char list \<Rightarrow> char list \<Rightarrow> nat \<Rightarrow>
    char list \<Rightarrow> config_state \<Rightarrow> (char list \<times> config_state) option" where
  "try_keywords [] E orig token line b st = Some (b, st)"
| "try_keywords ((k, h, d) # ks) E orig token line b st =
     (if strcasecmp token k \<noteq> 0 then try_keywords ks E orig token line b st
      else do {
        (r, b1, st1) \<leftarrow> call_keyword h E b line st;
        if r then try_keywords ks E orig token line b1 st1
        else do {
          (_, _, st2) \<leftarrow> call_keyword h E (def_block d) 0 (st1\<lparr>cs_log := cs_log st1 @ [parse_error orig]\<rparr>);
          try_keywords ks E orig token line b1 st2 } })"

definition rtrim :: "char list \<Rightarrow> char list" where
  "rtrim s = rev (dropWhile isspace (rev s))"

definition config_line :: "config_env \<Rightarrow> char list \<Rightarrow> config_state \<Rightarrow> (char list \<times> config_state) option" where
  "config_line E b0 st = do {
     s0 \<leftarrow> cstr b0;
     let b = (case strchr s0 LF of Some k \<Rightarrow> b0[k := NUL] | None \<Rightarrow> b0);
     orig \<leftarrow> cstr b;
     let t = length (takeWhile (\<lambda>c. c \<in> set ('' '' @ [TAB])) orig);
     let l = t + length (takeWhile (\<lambda>c. c \<notin> set ('' '' @ [TAB] @ ''='')) (drop t orig));
     if t = length orig \<or> l = length orig then Some (b, st)
     else do {
       let token = take (l - t) (drop t orig);
       let b1 = b[l := NUL];
       s1 \<leftarrow> str_at b1 (l + 1);
       let line = l + 1 + length (takeWhile (\<lambda>c. c \<in> set ('' '' @ [TAB] @ ''='')) s1);
       s2 \<leftarrow> str_at b1 line;
       b2 \<leftarrow> wr b1 (line + length (rtrim s2)) NUL;
       try_keywords keyword_table E orig token line b2 st } }"

subsection \<open>The file\<close>

text \<open>What \<^verbatim>\<open>fgets(buffer, n, in)\<close> takes from the rest of the file.\<close>

definition fgets_chunk :: "nat \<Rightarrow> char list \<Rightarrow> char list" where
  "fgets_chunk n inp = (let l = takeWhile (\<lambda>c. c \<noteq> LF) inp in
     take (n - 1) (if length l < length inp then l @ [LF] else l))"

lemma fgets_chunk_pos: "inp \<noteq> [] \<Longrightarrow> 1 < n \<Longrightarrow> 0 < length (fgets_chunk n inp)"
  by (cases inp) (auto simp: fgets_chunk_def Let_def)

lemma fgets_chunk_shorter: "inp \<noteq> [] \<Longrightarrow> length inp - length (fgets_chunk 153 inp) < length inp"
  using fgets_chunk_pos [of inp 153] by simp

function config_loop :: "config_env \<Rightarrow> char list \<Rightarrow> char list \<Rightarrow> config_state \<Rightarrow> config_state option" where
  "config_loop E inp b st = (if inp = [] then Some st
     else do {
       b1 \<leftarrow> blit b 0 (fgets_chunk 153 inp @ [NUL]);
       (b2, st2) \<leftarrow> config_line E b1 st;
       config_loop E (drop (length (fgets_chunk 153 inp)) inp) b2 st2 })"
  by pat_completeness auto
termination
  by (relation "measure (\<lambda>(E, inp, b, st). length inp)") (auto dest: fgets_chunk_shorter)

declare config_loop.simps [simp del]

fun read_defaults :: "(char list \<times> handler \<times> char list) list \<Rightarrow> config_env \<Rightarrow> config_state \<Rightarrow> config_state option" where
  "read_defaults [] E st = Some st"
| "read_defaults ((k, h, d) # ks) E st =
     (if d = [] then read_defaults ks E st
      else do {
        (_, _, st1) \<leftarrow> call_keyword h E (def_block d) 0 st;
        read_defaults ks E st1 })"

text \<open>\<open>file\<close> is the contents of the file when it can be opened, \<open>buffer\<close> what the line buffer holds at first.\<close>

definition read_config :: "config_env \<Rightarrow> char list \<Rightarrow> char list option \<Rightarrow> char list \<Rightarrow> config_state \<Rightarrow>
    (bool \<times> config_state) option" where
  "read_config E name file buffer st = do {
     st1 \<leftarrow> read_defaults keyword_table E st;
     (case file of
        None \<Rightarrow> Some (False, st1\<lparr>cs_log := cs_log st1 @ [''unable to open config file: '' @ name]\<rparr>)
      | Some text \<Rightarrow> do {
          st2 \<leftarrow> config_loop E text buffer st1;
          Some (True, st2) }) }"


subsection \<open>The loops end\<close>

lemma cstr_length: "cstr xs = Some s \<Longrightarrow> length s < length xs"
  by (induction xs arbitrary: s) (auto split: if_splits)

lemma strtok_bounds:
  assumes "strtok delim b p = Some (v, save, b')"
  shows "p \<le> save" "save < length b" "length b' = length b" "v \<noteq> None \<Longrightarrow> p < save"
proof -
  obtain s where s: "str_at b p = Some s" using assms by (auto simp: strtok_def bind_eq_Some_conv)
  then have l: "p + length s < length b" using cstr_length [of "drop p b" s] by (simp add: str_at_def)
  let ?k = "length (takeWhile (\<lambda>c. c \<in> set delim) s)"
  let ?t = "drop ?k s"
  let ?n = "length (takeWhile (\<lambda>c. c \<notin> set delim) ?t)"
  have k: "?k \<le> length s" by (rule length_takeWhile_le)
  have n: "?n \<le> length s - ?k" using length_takeWhile_le [of _ ?t] by simp
  consider (none) "v = None" "save = p + ?k" "b' = b" | (last) "?t \<noteq> []" "save = p + length s" "b' = b"
    | (mid) "?t \<noteq> []" "?n < length ?t" "save = p + ?k + ?n + 1" "length b' = length b"
    using assms s n by (auto simp: strtok_def Let_def bind_eq_Some_conv wr_eq_Some split: if_splits)
  then show "p \<le> save" "save < length b" "length b' = length b" "v \<noteq> None \<Longrightarrow> p < save"
    using l k n by (cases; fastforce)+
qed

lemma switch_value_bounds:
  assumes "switch_value E t b save val = Some (r, d, b2, save2, val2)"
  shows "save \<le> save2 \<and> length b2 = length b"
proof (cases "t = OPTION_IP_PAIR")
  case True
  with assms obtain v where "strtok ('', '' @ [TAB] @ ''/-'') b save = Some (v, save2, b2)"
    by (auto simp: switch_value_def bind_eq_Some_conv split: option.splits)
  from strtok_bounds [OF this] show ?thesis by simp
next
  case False
  with assms show ?thesis by (auto simp: switch_value_def bind_eq_Some_conv)
qed

text \<open>The fuel of the two loops, one more than the size of the block, is enough: more of it gives the same result. In
  the table of options every list option has values of more than one byte or is refused at once.\<close>

lemma opt_loop_enough:
  assumes "option_lengths (o_type opt) > 1 \<or> \<not> o_list opt"
  shows "length b - save < n \<Longrightarrow> length b - save < n' \<Longrightarrow>
    opt_loop n E opt q b save ret opts = opt_loop n' E opt q b save ret opts"
proof (induction n arbitrary: n' b save ret opts)
  case (Suc n)
  obtain k where n': "n' = Suc k" using Suc.prems by (cases n') auto
  have "opt_loop n E opt q b2 save2 ok opts2 = opt_loop k E opt q b2 save2 ok opts2"
    if "option_lengths (o_type opt) > 1" and "strtok ('', '' @ [TAB]) b save = Some (Some p, save1, b1)"
      and "switch_value E (o_type opt) b1 save1 (Some p) = Some (r, d, b2, save2, val2)" for p save1 b1 r d b2 save2 val2 ok opts2
  proof -
    have "length b2 - save2 < n" "length b2 - save2 < k"
      using strtok_bounds [OF that(2)] switch_value_bounds [OF that(3)] Suc.prems n' by auto
    then show ?thesis by (rule Suc.IH)
  qed
  with assms show ?case
    unfolding n' opt_loop.simps by (auto simp: Let_def intro!: Option.bind_cong split: option.split)
qed simp

lemma static_options_enough:
  "length b - save < n \<Longrightarrow> length b - save < n' \<Longrightarrow>
    static_options n E b save found opts = static_options n' E b save found opts"
proof (induction n arbitrary: n' b save found opts)
  case (Suc n)
  obtain k where n': "n' = Suc k" using Suc.prems by (cases n') auto
  have "static_options n E b3 save3 (Some t) opts3 = static_options k E b3 save3 (Some t) opts3"
    if "strtok ('' '' @ [TAB]) b save = Some (Some q, save1, b1)" and "strtok ('', '' @ [TAB]) b1 save1 = Some (val2, save2, b2)"
      and "add_opt E t b2 save2 val2 opts = Some (b3, save3, opts3)" for q save1 b1 val2 save2 b2 t b3 save3 opts3
  proof -
    have "save2 \<le> save3 \<and> length b3 = length b2"
      using that(3) by (auto simp: add_opt_def bind_eq_Some_conv dest: switch_value_bounds)
    then have "length b3 - save3 < n" "length b3 - save3 < k"
      using strtok_bounds [OF that(1)] strtok_bounds(1-3) [OF that(2)] Suc.prems n' by auto
    then show ?thesis by (rule Suc.IH)
  qed
  then show ?case
    unfolding n' static_options.simps by (auto intro!: Option.bind_cong split: option.split)
qed simp

lemma opt_loop_refused:
  assumes "o_type opt \<in> {OPTION_121, OPTION_249}"
  shows "opt_loop (Suc n) E opt q b save ret opts = opt_loop (Suc n') E opt q b save ret opts"
  using assms by (auto simp: switch_value_def plain_value_def text_at_def Let_def)

lemma list_options_wide:
  "list_all (\<lambda>t. option_lengths (o_type t) > 1 \<or> \<not> o_list t \<or> o_type t \<in> {OPTION_121, OPTION_249}) options_table"
  by code_simp

text \<open>So no run of \<^verbatim>\<open>read_opt\<close> is cut short.\<close>

lemma read_opt_enough:
  assumes "t \<in> set options_table" and "length b < n" and "length b < n'"
  shows "opt_loop n E t q b save ret opts = opt_loop n' E t q b save ret opts"
proof (cases "o_type t \<in> {OPTION_121, OPTION_249}")
  case True
  from assms(2,3) obtain k k' where "n = Suc k" "n' = Suc k'" by (cases n; cases n') auto
  with opt_loop_refused [OF True] show ?thesis by simp
next
  case False
  with assms(1) list_options_wide have "option_lengths (o_type t) > 1 \<or> \<not> o_list t" by (auto simp: list_all_iff)
  then show ?thesis by (rule opt_loop_enough) (use assms(2,3) in simp_all)
qed

end
