(* ===== verification/Dhcp_Startup.thy ===== *)
theory Dhcp_Startup
  imports Xmldb_File Hexstring Dhcp_Config
begin

text \<open>
  From the configuration file to the running DHCP server. The first part is what \<^verbatim>\<open>main\<close> of
  \<^verbatim>\<open>progs.gpl/udhcpcd/dhcpd.c\<close> does before its loop. The second part is an abstract view of a configuration file,
  a list of settings, options and reservations, with the text that expresses it; reading that text has exactly the effect of
  the items, and a reserved client is offered its address.
\<close>

subsection \<open>The start of the server\<close>

definition blank_config :: config_t where
  "blank_config = \<lparr>sc_server = 0, sc_start = 0, sc_end = 0, sc_options = [], sc_lease = 0, sc_remaining = False,
     sc_decline_time = 0, sc_offer_time = 0, sc_min_lease = 0, sc_siaddr = 0, sc_sname = None, sc_boot_file = None,
     sc_mask = 0, sc_force_bcast = False, sc_interface = None, sc_max_leases = 0, sc_auto_time = 0,
     sc_conflict_time = 0, sc_lease_file = None, sc_pidfile = None, sc_notify_file = None, sc_dhcp_helper = None\<rparr>"

definition start_state :: config_state where
  "start_state = \<lparr>cs_config = blank_config, cs_static = replicate MAX_STATIC_LEASES no_lease, cs_index = 0, cs_log = []\<rparr>"

definition option_word :: "byte list list \<Rightarrow> byte \<Rightarrow> u32 \<Rightarrow> (u32 \<Rightarrow> u32) \<Rightarrow> u32 option" where
  "option_word opts code dflt f = (case find_option opts (sint code) of
       None \<Rightarrow> Some dflt
     | Some k \<Rightarrow> if length (opts ! k) < 6 then None else Some (f (of_be32 (drop 2 (opts ! k)))))"

definition LEASE_TIME :: u32 where "LEASE_TIME = 864000"

definition derive_config :: "config_t \<Rightarrow> config_t option" where
  "derive_config c = do {
     lease \<leftarrow> option_word (sc_options c) DHCP_LEASE_TIME LEASE_TIME (\<lambda>w. w);
     mask \<leftarrow> option_word (sc_options c) 0x01 0xff (\<lambda>w. NOT w);
     Some (c\<lparr>sc_lease := lease, sc_mask := mask\<rparr>) }"

text \<open>\<open>bytes\<close> is the contents of the lease file, \<open>server\<close> the address \<^verbatim>\<open>read_interface\<close> finds.\<close>

definition dhcpd_start :: "config_env \<Rightarrow> char list \<Rightarrow> char list option \<Rightarrow> char list \<Rightarrow> u32 \<Rightarrow> byte list \<Rightarrow> u32 \<Rightarrow>
    (config_t \<times> Dhcp_Server.server) option" where
  "dhcpd_start E name file buffer now bytes server = do {
     (_, st) \<leftarrow> read_config E name file buffer start_state;
     c \<leftarrow> derive_config (cs_config st);
     let srv = start_server (server_config_t.truncate c) now (unat (sc_max_leases c)) bytes (cs_static st);
     Some (c\<lparr>sc_server := server\<rparr>, srv) }"

subsection \<open>Configuration files\<close>

datatype config_item =
    Setting "char list" "char list"
  | Ip_option "char list" "u32 list"
  | Reservation "char list" u32 "byte list"

definition fmt_ip :: "u32 \<Rightarrow> char list" where
  "fmt_ip a = (let d = (\<lambda>n. decimal (unat (drop_bit n a) mod 256)) in
     d 24 @ ''.'' @ d 16 @ ''.'' @ d 8 @ ''.'' @ d 0)"

definition fmt_mac :: "byte list \<Rightarrow> char list" where
  "fmt_mac m = fmt_02x (m ! 0) @ concat (map (\<lambda>b. '':'' @ fmt_02x b) (tl m))"

definition show_ips :: "u32 list \<Rightarrow> char list" where
  "show_ips as = concat (map (\<lambda>a. '' '' @ fmt_ip a) as)"

fun show_item :: "config_item \<Rightarrow> char list" where
  "show_item (Setting k v) = k @ '' '' @ v"
| "show_item (Ip_option name as) = ''opt '' @ name @ show_ips as"
| "show_item (Reservation name a m) = ''static '' @ name @ '' '' @ fmt_ip a @ '' '' @ fmt_mac m"

definition show_config :: "config_item list \<Rightarrow> char list" where
  "show_config its = concat (map (\<lambda>i. show_item i @ [LF]) its)"

text \<open>The effect of an item: a value that cannot be read is logged and gives way to the default; a reservation fills
  the next static lease as long as there is one.\<close>

definition apply_setting :: "config_env \<Rightarrow> char list \<Rightarrow> char list \<Rightarrow> handler \<Rightarrow> char list \<Rightarrow> config_state \<Rightarrow> config_state" where
  "apply_setting E k v h d st = (case scalar_value h E v (cs_config st) of
       (True, c) \<Rightarrow> st\<lparr>cs_config := c\<rparr>
     | (False, c) \<Rightarrow> st\<lparr>cs_config := snd (scalar_value h E d c),
         cs_log := cs_log st @ [parse_error (k @ '' '' @ v)]\<rparr>)"

definition reserved :: "byte list list \<Rightarrow> char list \<Rightarrow> u32 \<Rightarrow> byte list \<Rightarrow> dhcpOfferedAddr" where
  "reserved config name a m = \<lparr>l_chaddr = m @ replicate 10 0, l_yiaddr = a, l_expires = 0xFFFFFFFF, l_ACKed = 0,
     l_hostname = bytes_of name @ replicate (64 - length name) 0, l_options = cpyopttostatic_leases config []\<rparr>"

fun apply_item :: "config_env \<Rightarrow> config_item \<Rightarrow> config_state \<Rightarrow> config_state" where
  "apply_item E (Setting k v) st = (case map_of keyword_table k of
       None \<Rightarrow> st
     | Some (h, d) \<Rightarrow> apply_setting E k v h d st)"
| "apply_item E (Ip_option name as) st = (case option_named None name of
       None \<Rightarrow> st
     | Some t \<Rightarrow> st\<lparr>cs_config := (cs_config st)\<lparr>sc_options :=
         foldl (\<lambda>opts a. attach_option opts t (be32 a)) (sc_options (cs_config st)) as\<rparr>\<rparr>)"
| "apply_item E (Reservation name a m) st =
     (if cs_index st < MAX_STATIC_LEASES
      then st\<lparr>cs_static := (cs_static st)[cs_index st := reserved (sc_options (cs_config st)) name a m],
        cs_index := cs_index st + 1\<rparr>
      else st\<lparr>cs_log := cs_log st @ [parse_error (show_item (Reservation name a m))]\<rparr>)"

definition word_chars :: "char list \<Rightarrow> bool" where
  "word_chars s \<longleftrightarrow> s \<noteq> [] \<and> (\<forall>c\<in>set s. c \<notin> set ([NUL, LF, TAB, CHR '' '', CHR ''='', CHR '','']))"

definition value_chars :: "char list \<Rightarrow> bool" where
  "value_chars v \<longleftrightarrow> NUL \<notin> set v \<and> LF \<notin> set v \<and>
     (v \<noteq> [] \<longrightarrow> hd v \<notin> set ('' '' @ [TAB] @ ''='') \<and> \<not> isspace (last v))"

definition scalar_handler :: "handler \<Rightarrow> bool" where
  "scalar_handler h \<longleftrightarrow> (case h of Read_opt \<Rightarrow> False | Read_static \<Rightarrow> False | _ \<Rightarrow> True)"

text \<open>An item that fits the buffers: a line of at most 151 characters, a name of at most 63. Several addresses are
  for list options only.\<close>

fun item_ok :: "config_item \<Rightarrow> bool" where
  "item_ok (Setting k v) \<longleftrightarrow> (case map_of keyword_table k of None \<Rightarrow> False | Some (h, d) \<Rightarrow> scalar_handler h) \<and> value_chars v \<and>
     length k + length v \<le> 150"
| "item_ok (Ip_option name as) \<longleftrightarrow> (case option_named None name of None \<Rightarrow> False
     | Some t \<Rightarrow> o_type t = OPTION_IP \<and> (o_list t \<or> length as = 1)) \<and> as \<noteq> [] \<and> length as \<le> 8"
| "item_ok (Reservation name a m) \<longleftrightarrow> word_chars name \<and> length name \<le> 63 \<and> length m = 6"

subsection \<open>Lines\<close>

lemma takeWhile_upto: "\<forall>x\<in>set l. P x \<Longrightarrow> \<not> P c \<Longrightarrow> takeWhile P (l @ c # r) = l"
  by (induction l) auto

lemma fgets_chunk_line: "LF \<notin> set l \<Longrightarrow> length l \<le> 151 \<Longrightarrow> fgets_chunk 153 (l @ LF # r) = l @ [LF]"
  by (subst fgets_chunk_def, subst takeWhile_upto) auto

lemma strchr_line: "c \<notin> set s \<Longrightarrow> strchr (s @ c # r) c = Some (length s)"
  by (induction s) auto

lemma str_at_append: "NUL \<notin> set s \<Longrightarrow> length l = n \<Longrightarrow> str_at (l @ s @ NUL # r) n = Some s"
  by (simp add: str_at_def cstr_append)

lemma rtrim_value: "v = [] \<or> \<not> isspace (last v) \<Longrightarrow> rtrim v = v"
  by (cases v rule: rev_cases) (simp_all add: rtrim_def)

lemma config_line_eq:
  assumes k: "word_chars k" and v: "value_chars v"
  shows "config_line E (k @ CHR '' '' # v @ LF # NUL # r) st =
    try_keywords keyword_table E (k @ '' '' @ v) k (length k + 1) (k @ NUL # v @ NUL # NUL # r) st"
proof -
  let ?b = "k @ CHR '' '' # v @ NUL # NUL # r" and ?b1 = "k @ NUL # v @ NUL # NUL # r"
  have n: "NUL \<notin> set k" "LF \<notin> set k" "NUL \<notin> set v" "LF \<notin> set v"
    using k v by (auto simp: word_chars_def value_chars_def)
  have c0: "cstr (k @ CHR '' '' # v @ LF # NUL # r) = Some (k @ CHR '' '' # v @ [LF])"
    using cstr_append [of "k @ CHR '' '' # v @ [LF]" r] n by simp
  have lf: "strchr (k @ CHR '' '' # v @ [LF]) LF = Some (length k + 1 + length v)"
    using strchr_line [of LF "k @ CHR '' '' # v" "[]"] n by simp
  have u: "(k @ CHR '' '' # v @ LF # NUL # r)[length k + 1 + length v := NUL] = ?b"
    by (simp add: list_update_append)
  have c: "cstr ?b = Some (k @ CHR '' '' # v)"
    using cstr_append [of "k @ CHR '' '' # v" "NUL # r"] n by simp
  have kc: "\<forall>x\<in>set k. x \<notin> set ('' '' @ [TAB] @ ''='')" "k \<noteq> []" using k by (auto simp: word_chars_def)
  then have t: "takeWhile (\<lambda>c. c \<in> set ('' '' @ [TAB])) (k @ CHR '' '' # v) = []" by (cases k) auto
  have l: "takeWhile (\<lambda>c. c \<notin> set ('' '' @ [TAB] @ ''='')) (k @ CHR '' '' # v) = k"
    using kc(1) by (intro takeWhile_upto) auto
  have u1: "?b[length k := NUL] = ?b1" by (simp add: list_update_append)
  have s: "str_at ?b1 (length k + 1) = Some v"
    using str_at_append [of v "k @ [NUL]" "length k + 1" "NUL # r"] n by simp
  have w: "takeWhile (\<lambda>c. c \<in> set ('' '' @ [TAB] @ ''='')) v = []"
    using v by (cases v) (auto simp: value_chars_def)
  have rt: "rtrim v = v" using v by (intro rtrim_value) (auto simp: value_chars_def)
  have wr: "wr ?b1 (length k + 1 + length v) NUL = Some ?b1"
    by (simp add: wr_def list_update_append)
  show ?thesis
    unfolding config_line_def c0 bind.bind_lunit lf option.case u Let_def c t l u1 s w rt list.size drop_0 add_0 add_0_right wr
    using kc(2) by simp
qed

subsection \<open>Settings\<close>

definition keyword_result :: "handler \<Rightarrow> char list \<Rightarrow> config_env \<Rightarrow> char list \<Rightarrow> nat \<Rightarrow> char list \<Rightarrow> config_state \<Rightarrow>
    (char list \<times> config_state) option" where
  "keyword_result h d E orig line b st = do {
     (r, b1, st1) \<leftarrow> call_keyword h E b line st;
     if r then Some (b1, st1)
     else do {
       (_, _, st2) \<leftarrow> call_keyword h E (def_block d) 0 (st1\<lparr>cs_log := cs_log st1 @ [parse_error orig]\<rparr>);
       Some (b1, st2) } }"

lemma strcasecmp_zero: "strcasecmp a b = 0 \<longleftrightarrow> map tolower a = map tolower b"
  by (simp add: strcasecmp_def strcmp_zero)

lemma try_keywords_none:
  "map tolower k \<notin> (\<lambda>e. map tolower (fst e)) ` set ks \<Longrightarrow> try_keywords ks E orig k line b st = Some (b, st)"
  by (induction ks E orig k line b st rule: try_keywords.induct) (auto simp: strcasecmp_zero)

lemma try_keywords_one:
  "distinct (map (\<lambda>e. map tolower (fst e)) ks) \<Longrightarrow> map_of ks k = Some (h, d) \<Longrightarrow>
    try_keywords ks E orig k line b st = keyword_result h d E orig line b st"
proof (induction ks)
  case (Cons e ks)
  obtain k' h' d' where e: "e = (k', h', d')" by (cases e)
  show ?case
  proof (cases "k = k'")
    case True
    with Cons.prems e have "map tolower k \<notin> (\<lambda>e. map tolower (fst e)) ` set ks" "h' = h" "d' = d" by auto
    moreover from this(1) have n: "try_keywords ks E orig k line = (\<lambda>b1 st. Some (b1, st))"
      by (intro ext) (rule try_keywords_none)
    ultimately show ?thesis using True e
      by (simp add: strcasecmp_zero keyword_result_def n [unfolded True] cong: if_cong)
  next
    case False
    with Cons.prems e have m: "map_of ks k = Some (h, d)" by simp
    then have "map tolower k \<in> (\<lambda>e. map tolower (fst e)) ` set ks" by (force dest: map_of_SomeD)
    moreover have "map tolower k' \<notin> (\<lambda>e. map tolower (fst e)) ` set ks" using Cons.prems(1) e by simp
    ultimately have "map tolower k \<noteq> map tolower k'" by metis
    then show ?thesis using Cons.IH Cons.prems(1) m e by (simp add: strcasecmp_zero)
  qed
qed simp

lemma keyword_table_distinct: "distinct (map (\<lambda>e. map tolower (fst e)) keyword_table)"
  by code_simp

lemma keyword_table_ok:
  "list_all (\<lambda>(k, h, d). word_chars k \<and> NUL \<notin> set d \<and> length d < 30 \<and> length k < 20) keyword_table"
  by (simp add: keyword_table_def word_chars_def)

lemma keyword_ok:
  assumes "map_of keyword_table k = Some (h, d)"
  shows "word_chars k" "NUL \<notin> set d" "length d < 30" "length k < 20"
  using map_of_SomeD [OF assms] keyword_table_ok by (auto simp: list_all_iff)

lemma str_at_def_block: "NUL \<notin> set d \<Longrightarrow> length d < 30 \<Longrightarrow> str_at (def_block d) 0 = Some d"
  using str_at_append [of d "[]" 0 "replicate (29 - length d) NUL"] replicate_Suc [of "29 - length d" NUL]
  by (simp add: def_block_def Suc_diff_le [symmetric])

lemma call_keyword_scalar:
  assumes "scalar_handler h" and "str_at b line = Some v"
  shows "call_keyword h E b line st =
    Some (fst (scalar_value h E v (cs_config st)), b, st\<lparr>cs_config := snd (scalar_value h E v (cs_config st))\<rparr>)"
  using assms by (cases h) (simp_all add: call_keyword_def scalar_handler_def Let_def split_beta)

lemma setting_result:
  assumes "map_of keyword_table k = Some (h, d)" and "scalar_handler h" and "str_at b line = Some v"
  shows "keyword_result h d E (k @ '' '' @ v) line b st = Some (b, apply_setting E k v h d st)"
  using call_keyword_scalar [OF assms(2,3)] call_keyword_scalar [OF assms(2) str_at_def_block [OF keyword_ok(2,3) [OF assms(1)]]]
  by (simp add: keyword_result_def apply_setting_def split: prod.split bool.split)

subsection \<open>Tokens\<close>

lemma strtok_next:
  assumes "drop p b = t @ d # s @ NUL # r" and "t \<noteq> []" and "NUL \<notin> set t" and "NUL \<notin> set s"
    and "\<forall>c\<in>set t. c \<notin> set delim" and "d \<in> set delim" and "d \<noteq> NUL"
  shows "\<exists>b'. strtok delim b p = Some (Some p, p + length t + 1, b') \<and> length b' = length b \<and> str_at b' p = Some t \<and>
    drop (p + length t + 1) b' = s @ NUL # r"
proof -
  have "length b - p = Suc (length t + length (s @ NUL # r))" using arg_cong [OF assms(1), of length] by simp
  then have len: "p + length t < length b" by arith
  have st: "str_at b p = Some (t @ d # s)"
    using assms(1,3,4,7) cstr_append [of "t @ d # s" r] by (simp add: str_at_def)
  have k: "takeWhile (\<lambda>c. c \<in> set delim) (t @ d # s) = []" using assms(2,5) by (cases t) auto
  have n: "takeWhile (\<lambda>c. c \<notin> set delim) (t @ d # s) = t" using assms(5,6) by (intro takeWhile_upto) auto
  let ?b = "b[p + length t := NUL]"
  have "drop p ?b = (drop p b)[length t := NUL]" using len by (simp add: drop_update_swap)
  then have dr: "drop p ?b = t @ NUL # s @ NUL # r" using assms(1) by (simp add: list_update_append)
  have "drop (length t + 1) (drop p ?b) = s @ NUL # r" unfolding dr by simp
  then have "drop (p + length t + 1) ?b = s @ NUL # r" by (simp add: add.commute)
  moreover have "str_at ?b p = Some t" using dr assms(3) cstr_append [of t "s @ NUL # r"] by (simp add: str_at_def)
  moreover have "strtok delim b p = Some (Some p, p + length t + 1, ?b)"
    unfolding strtok_def st bind.bind_lunit Let_def k list.size drop_0 n
    using assms(2) len by simp
  ultimately show ?thesis by (intro exI [of _ ?b]) simp
qed

lemma strtok_last:
  assumes "drop p b = t @ NUL # r" and "t \<noteq> []" and "NUL \<notin> set t" and "\<forall>c\<in>set t. c \<notin> set delim"
  shows "strtok delim b p = Some (Some p, p + length t, b)" and "str_at b p = Some t"
    and "drop (p + length t) b = NUL # r"
proof -
  show st: "str_at b p = Some t" using assms(1,3) cstr_append [of t r] by (simp add: str_at_def)
  have k: "takeWhile (\<lambda>c. c \<in> set delim) t = []" using assms(2,4) by (cases t) auto
  have n: "takeWhile (\<lambda>c. c \<notin> set delim) t = t" using assms(4) by (simp add: takeWhile_eq_all_conv)
  show "strtok delim b p = Some (Some p, p + length t, b)"
    unfolding strtok_def st bind.bind_lunit Let_def k list.size drop_0 n using assms(2) by simp
  show "drop (p + length t) b = NUL # r"
    using arg_cong [OF assms(1), of "drop (length t)"] by (simp add: add.commute)
qed

lemma strtok_none: "drop p b = NUL # r \<Longrightarrow> strtok delim b p = Some (None, p, b)"
  by (simp add: strtok_def str_at_def)

subsection \<open>Addresses\<close>

abbreviation digits_from :: "int \<Rightarrow> char list \<Rightarrow> int" where
  "digits_from \<equiv> foldl (\<lambda>n d. 10 * n + (uchar d - 48))"

lemma digits_from_ge: "\<forall>d\<in>set ds. isdigit d \<Longrightarrow> 0 \<le> v \<Longrightarrow> v \<le> digits_from v ds"
proof (induction ds arbitrary: v)
  case (Cons d ds)
  then have "0 \<le> uchar d - 48" by (simp add: isdigit_def)
  with Cons.prems Cons.IH [of "10 * v + (uchar d - 48)"] show ?case by simp
qed simp

lemma inet_part_digits:
  "\<forall>d\<in>set ds. isdigit d \<Longrightarrow> 0 \<le> v \<Longrightarrow> digits_from v ds \<le> 255 \<Longrightarrow> r = [] \<or> \<not> isdigit (hd r) \<Longrightarrow>
    inet_part (ds @ r) v = Some (digits_from v ds, r)"
proof (induction ds arbitrary: v)
  case Nil
  then show ?case by (cases r) auto
next
  case (Cons d ds)
  then have d: "0 \<le> uchar d - 48" by (simp add: isdigit_def)
  with Cons.prems digits_from_ge [of ds "10 * v + (uchar d - 48)"] have "10 * v + (uchar d - 48) \<le> 255" by simp
  with d Cons.prems Cons.IH [of "10 * v + (uchar d - 48)"] show ?case by (simp add: mult.commute)
qed

lemma inet_part_decimal:
  "n < 256 \<Longrightarrow> r = [] \<or> \<not> isdigit (hd r) \<Longrightarrow> inet_part (decimal n @ r) 0 = Some (int n, r)"
  using inet_part_digits [of "decimal n" 0 r] decimal_digits [of n] by (simp add: digits_value_def)

lemma decimal_head: "decimal n @ r \<noteq> []" "isdigit (hd (decimal n @ r))"
  using decimal_digits [of n] by (cases "decimal n"; simp)+

lemma inet_loop_decimal:
  assumes "n < 256"
  shows "inet_loop (Suc (Suc k)) a (decimal n @ CHR ''.'' # r) = inet_loop (Suc k) (push_bit 8 a OR of_nat n) r"
    and "inet_loop (Suc 0) a (decimal n) = Some (push_bit 8 a OR of_nat n)"
proof -
  have d: "\<not> isdigit (CHR ''.'')" by (simp add: isdigit_def uchar_def)
  show "inet_loop (Suc (Suc k)) a (decimal n @ CHR ''.'' # r) = inet_loop (Suc k) (push_bit 8 a OR of_nat n) r"
    using inet_part_decimal [OF assms, of "CHR ''.'' # r"] decimal_head [of n "CHR ''.'' # r"] d by simp
  show "inet_loop (Suc 0) a (decimal n) = Some (push_bit 8 a OR of_nat n)"
    using inet_part_decimal [OF assms, of "[]"] decimal_head [of n "[]"] by simp
qed

lemma byte_of_word: "of_nat (unat (w :: u32) mod 256) = take_bit 8 w"
proof -
  have "unat w mod 256 = unat (take_bit 8 w)" by (simp add: unsigned_take_bit_eq) (simp add: take_bit_eq_mod)
  then show ?thesis by simp
qed

lemma bytes_join:
  "push_bit 8 (push_bit 8 (push_bit 8 (take_bit 8 (drop_bit 24 a)) OR take_bit 8 (drop_bit 16 a)) OR take_bit 8 (drop_bit 8 a)) OR
    take_bit 8 a = (a :: u32)"
proof (rule bit_word_eqI)
  fix n
  assume "n < LENGTH(32)"
  then consider "n < 8" | "8 \<le> n" "n < 16" | "16 \<le> n" "n < 24" | "24 \<le> n" "n < 32" by fastforce
  then show "bit (push_bit 8 (push_bit 8 (push_bit 8 (take_bit 8 (drop_bit 24 a)) OR take_bit 8 (drop_bit 16 a)) OR
      take_bit 8 (drop_bit 8 a)) OR take_bit 8 a) n = bit a n"
    by cases (auto simp: bit_simps)
qed

lemma inet_aton_fmt_ip: "inet_aton (Some (fmt_ip a)) = Some a"
proof -
  have lt: "m mod 256 < 256" for m :: nat by simp
  have four: "(4::nat) = Suc (Suc (Suc (Suc 0)))" by simp
  show ?thesis
    unfolding inet_aton_def fmt_ip_def Let_def option.case four
    by (simp only: append_Cons append_Nil inet_loop_decimal [OF lt] push_bit_of_0 or.left_neutral byte_of_word bytes_join
        drop_bit_0 id_apply)
qed

lemma nibble_digits: "list_all (\<lambda>k. nibble (''0123456789abcdef'' ! k) = Some (int k)) [0..<16]"
  by code_simp

lemma nibble_digit: "k < 16 \<Longrightarrow> nibble (''0123456789abcdef'' ! k) = Some (int k)"
  using nibble_digits unfolding list_all_iff by (metis atLeastLessThan_iff le0 set_upt)

lemma fmt_02x_Cons:
  obtains c d h l where "fmt_02x b = [c, d]" "nibble c = Some h" "nibble d = Some l" "h * 16 + l = int (unat b)"
proof -
  have "unat b < 256" using unsigned_less [of b] by simp
  then have "unat b div 16 < 16" "unat b mod 16 < 16" by auto
  note d = nibble_digit [OF this(1)] nibble_digit [OF this(2)]
  have "int (unat b div 16) * 16 + int (unat b mod 16) = int (unat b div 16 * 16 + unat b mod 16)"
    by (simp only: of_nat_add of_nat_mult of_nat_numeral)
  then have "int (unat b div 16) * 16 + int (unat b mod 16) = int (unat b)" by (simp only: div_mult_mod_eq)
  with d show ?thesis by (intro that [OF fmt_02x_def])
qed

lemma haddr_loop_step:
  assumes "i < 6" and "i < length ch"
  shows "haddr_loop (fmt_02x b @ r) i ch = haddr_loop (if r \<noteq> [] \<and> is_sep (hd r) then tl r else r) (i + 1) (ch[i := b])"
proof -
  obtain c d h l where f: "fmt_02x b = [c, d]" "nibble c = Some h" "nibble d = Some l" "h * 16 + l = int (unat b)"
    by (rule fmt_02x_Cons)
  have "(of_int (h * 16 + l) :: byte) = b" unfolding f(4) by simp
  with f assms show ?thesis by (simp add: haddr_byte_def)
qed

lemma haddr_loop_mac:
  "i + length bs + 1 = 6 \<Longrightarrow> length ch = n \<Longrightarrow> 6 \<le> n \<Longrightarrow>
    haddr_loop (fmt_02x b @ concat (map (\<lambda>b. '':'' @ fmt_02x b) bs)) i ch = Some (True, take i ch @ b # bs @ drop 6 ch)"
proof (induction bs arbitrary: i b ch)
  case Nil
  then show ?case
    using haddr_loop_step [of i ch b "[]"] id_take_nth_drop [of 5 "ch[5 := b]"] by (simp add: upd_conv_take_nth_drop)
next
  case (Cons b' bs)
  have lt: "i < 6" "i < length ch" using Cons.prems by auto
  have "haddr_loop (fmt_02x b @ concat (map (\<lambda>b. '':'' @ fmt_02x b) (b' # bs))) i ch =
      haddr_loop (fmt_02x b' @ concat (map (\<lambda>b. '':'' @ fmt_02x b) bs)) (i + 1) (ch[i := b])"
    using haddr_loop_step [OF lt, of b "concat (map (\<lambda>b. '':'' @ fmt_02x b) (b' # bs))"] by (simp add: is_sep_def)
  also have "\<dots> = Some (True, take (i + 1) (ch[i := b]) @ b' # bs @ drop 6 (ch[i := b]))"
    using Cons.IH [of "i + 1" "ch[i := b]" b'] Cons.prems by simp
  finally show ?case using lt by (simp add: take_Suc_conv_app_nth)
qed

subsection \<open>Reservations\<close>

definition token_chars :: "char list \<Rightarrow> bool" where
  "token_chars s \<longleftrightarrow> word_chars s \<and> CHR ''/'' \<notin> set s \<and> CHR ''-'' \<notin> set s"

lemma not_isdigit [simp]:
  "\<not> isdigit NUL" "\<not> isdigit LF" "\<not> isdigit TAB" "\<not> isdigit (CHR '' '')" "\<not> isdigit (CHR ''='')" "\<not> isdigit (CHR '','')"
  "\<not> isdigit (CHR ''/'')" "\<not> isdigit (CHR ''-'')"
  by (simp_all add: isdigit_def uchar_def)

lemma not_nibble [simp]:
  "nibble NUL = None" "nibble LF = None" "nibble TAB = None" "nibble (CHR '' '') = None" "nibble (CHR ''='') = None"
  "nibble (CHR '','') = None" "nibble (CHR ''/'') = None" "nibble (CHR ''-'') = None"
  by (simp_all add: nibble_def) (simp_all add: uchar_def)

lemma decimal_byte_length: "n < 256 \<Longrightarrow> length (decimal n) \<le> 3"
  using decimal_length [of n 3] by simp

lemma fmt_ip_chars: "token_chars (fmt_ip a)"
proof -
  have "\<forall>c\<in>set (fmt_ip a). isdigit c \<or> c = CHR ''.''"
    using decimal_digits by (auto simp: fmt_ip_def Let_def)
  moreover have "fmt_ip a \<noteq> []" by (simp add: fmt_ip_def Let_def)
  ultimately show ?thesis by (fastforce simp: token_chars_def word_chars_def)
qed

lemma fmt_mac_chars:
  assumes "length m = 6"
  shows "token_chars (fmt_mac m)"
proof -
  have f: "\<forall>c\<in>set (fmt_02x b). nibble c \<noteq> None" for b by (rule fmt_02x_Cons [of b]) auto
  have "\<forall>c\<in>set (fmt_mac m). nibble c \<noteq> None \<or> c = CHR '':''" using f by (auto simp: fmt_mac_def)
  moreover have "fmt_mac m \<noteq> []" by (simp add: fmt_mac_def)
  ultimately show ?thesis by (fastforce simp: token_chars_def word_chars_def)
qed

lemma fmt_ip_length: "length (fmt_ip a) \<le> 15"
proof -
  have d: "length (decimal (m mod 256)) \<le> 3" for m by (rule decimal_byte_length) simp
  show ?thesis
    using d [of "unat (drop_bit 24 a)"] d [of "unat (drop_bit 16 a)"] d [of "unat (drop_bit 8 a)"] d [of "unat (drop_bit 0 a)"]
    by (simp add: fmt_ip_def Let_def)
qed

lemma fmt_mac_length: "length m = 6 \<Longrightarrow> length (fmt_mac m) = 17"
  by (cases m) (simp_all add: fmt_mac_def length_concat comp_def fmt_02x_length sum_list_triv)

lemma read_haddr_mac:
  assumes "length m = 6"
  shows "read_haddr (fmt_mac m @ NUL # r) blank_chaddr = Some (True, m @ replicate 10 0)"
proof -
  obtain b bs where m: "m = b # bs" "length bs = 5" using assms by (cases m) auto
  have "haddr_loop (fmt_mac m) 0 blank_chaddr = Some (True, m @ replicate 10 0)"
    using haddr_loop_mac [of 0 bs blank_chaddr 16 b] m by (simp add: fmt_mac_def blank_chaddr_def)
  moreover have "NUL \<notin> set (fmt_mac m)" "fmt_mac m \<noteq> []" "\<forall>c\<in>set (fmt_mac m). c \<notin> set ('', '' @ [TAB])"
    using fmt_mac_chars [OF assms] by (auto simp: token_chars_def word_chars_def)
  ultimately show ?thesis
    using strtok_last [of 0 "fmt_mac m @ NUL # r" "fmt_mac m" r "'', '' @ [TAB]"] by (simp add: read_haddr_def)
qed

definition statics_fresh :: "config_state \<Rightarrow> bool" where
  "statics_fresh st \<longleftrightarrow> length (cs_static st) = MAX_STATIC_LEASES \<and>
     (\<forall>i. cs_index st \<le> i \<longrightarrow> i < MAX_STATIC_LEASES \<longrightarrow> cs_static st ! i = no_lease)"

lemma no_lease_fields: "l_options no_lease = []" "l_hostname no_lease = replicate 64 0"
  by (simp_all add: no_lease_def)

lemma hostname_copied:
  assumes "word_chars name" and "length name \<le> 63"
  shows "cstr (hostname_block name) = Some name"
    and "blit (replicate 64 0) 0 (bytes_of name @ [0]) = Some (bytes_of name @ replicate (64 - length name) 0)"
proof -
  have n: "64 - length name = Suc (63 - length name)" using assms(2) by simp
  show "cstr (hostname_block name) = Some name"
    using assms cstr_append [of name "replicate (63 - length name) NUL"]
    by (auto simp: hostname_block_def n word_chars_def)
  show "blit (replicate 64 0) 0 (bytes_of name @ [0]) = Some (bytes_of name @ replicate (64 - length name) 0)"
    using assms(2) by (simp add: bytes_of_def n)
qed

lemma read_static_line:
  assumes "drop p b = name @ CHR '' '' # addr @ CHR '' '' # fmt_mac m @ NUL # r" and "token_chars addr"
    and "word_chars name" and "length name \<le> 63" and "length m = 6"
    and "cs_index st < MAX_STATIC_LEASES" and "statics_fresh st"
    and "y = (case read_ip E (Some addr) of Some a \<Rightarrow> a | None \<Rightarrow> ce_stack E)"
  shows "\<exists>b'. read_static E b p st = Some (read_ip E (Some addr) \<noteq> None, b', apply_item E (Reservation name y m) st) \<and>
    length b' = length b"
proof -
  have l: "rd (cs_static st) (cs_index st) = Some no_lease" using assms(6,7) by (simp add: statics_fresh_def)
  have ip: "NUL \<notin> set addr" "addr \<noteq> []" "\<forall>c\<in>set addr. c \<notin> set ('', '' @ [TAB] @ ''/-'')"
    using assms(2) by (auto simp: token_chars_def word_chars_def)
  have mac: "NUL \<notin> set (fmt_mac m)" "fmt_mac m \<noteq> []" "\<forall>c\<in>set (fmt_mac m). c \<notin> set ('', '' @ [TAB] @ ''/-'')"
    using fmt_mac_chars [OF assms(5)] by (auto simp: token_chars_def word_chars_def)
  have name: "NUL \<notin> set name" "name \<noteq> []" "\<forall>c\<in>set name. c \<notin> set ('', '' @ [TAB])"
    using assms(3) by (auto simp: word_chars_def)
  obtain b1 where t1: "strtok ('', '' @ [TAB]) b p = Some (Some p, p + length name + 1, b1)" "length b1 = length b"
      "str_at b1 p = Some name" and d1: "drop (p + length name + 1) b1 = addr @ CHR '' '' # fmt_mac m @ NUL # r"
    using strtok_next [of p b name "CHR '' ''" "addr @ CHR '' '' # fmt_mac m" r "'', '' @ [TAB]"] assms(1) name ip(1) mac(1)
    by auto
  let ?p2 = "p + length name + 1" let ?p3 = "?p2 + length addr + 1"
  obtain b2 where t2: "strtok ('', '' @ [TAB] @ ''/-'') b1 ?p2 = Some (Some ?p2, ?p3, b2)" "length b2 = length b1"
      "str_at b2 ?p2 = Some addr" and d2: "drop ?p3 b2 = fmt_mac m @ NUL # r"
    using strtok_next [OF d1 ip(2,1) mac(1) ip(3)] by auto
  note t3 = strtok_last [OF d2 mac(2,1,3)]
  have t4: "static_options (Suc (length b)) E b2 (?p3 + length (fmt_mac m)) None [] = Some (b2, [])"
    using strtok_none [OF t3(3)] by simp
  have bl: "blit (replicate 64 NUL) 0 (fmt_mac m) = Some (fmt_mac m @ NUL # replicate 46 NUL)"
    using fmt_mac_length [OF assms(5)] by (simp add: numeral_eq_Suc)
  have e: "static_entry (sc_options (cs_config st)) [] (bytes_of name @ replicate (64 - length name) 0) y (m @ replicate 10 0) no_lease =
      reserved (sc_options (cs_config st)) name y m"
    by (simp add: static_entry_def reserved_def no_lease_def)
  have "read_static E b p st = Some (read_ip E (Some addr) \<noteq> None, b2, apply_item E (Reservation name y m) st)"
    using assms(6) l t1(1,3) t2(1,3) t3(1,2) t4 bl read_haddr_mac [OF assms(5)] hostname_copied [OF assms(3,4)] e
    by (simp add: read_static_def text_at_def Let_def no_lease_fields assms(8) [symmetric] del: static_options.simps)
  with t1(2) t2(2) show ?thesis by simp
qed

lemma read_static_reserves:
  assumes "drop p b = name @ CHR '' '' # fmt_ip a @ CHR '' '' # fmt_mac m @ NUL # r"
    and "word_chars name" and "length name \<le> 63" and "length m = 6"
    and "cs_index st < MAX_STATIC_LEASES" and "statics_fresh st"
  shows "\<exists>b'. read_static E b p st = Some (True, b', apply_item E (Reservation name a m) st) \<and> length b' = length b"
  using read_static_line [OF assms(1) fmt_ip_chars assms(2-6) refl] by (simp add: read_ip_def inet_aton_fmt_ip del: apply_item.simps)

lemma nibble_not_space: "nibble c \<noteq> None \<Longrightarrow> \<not> isspace c"
  by (auto simp: nibble_def isspace_def isdigit_def split: if_splits) (auto simp: uchar_def)

lemma fmt_mac_last:
  assumes "length m = 6"
  shows "\<not> isspace (last (fmt_mac m))"
proof -
  obtain ms b where m: "m = ms @ [b]" "length ms = 5" using assms by (cases m rule: rev_cases) auto
  then have "ms \<noteq> []" by auto
  with m(1) have "last (fmt_mac m) = last (fmt_02x b)" by (simp add: fmt_mac_def last_append)
  moreover have "nibble (last (fmt_02x b)) \<noteq> None" by (rule fmt_02x_Cons [of b]) auto
  ultimately show ?thesis by (simp add: nibble_not_space)
qed

lemma fmt_ip_word: "word_chars (fmt_ip a)"
  using fmt_ip_chars by (simp add: token_chars_def)

lemma reservation_value:
  assumes "word_chars name" and "length m = 6" and "word_chars addr"
  shows "value_chars (name @ CHR '' '' # addr @ CHR '' '' # fmt_mac m)"
proof -
  let ?v = "name @ CHR '' '' # addr @ CHR '' '' # fmt_mac m"
  have c: "word_chars addr" "word_chars (fmt_mac m)"
    using assms(3) fmt_mac_chars [OF assms(2)] by (simp_all add: token_chars_def)
  have free: "word_chars s \<Longrightarrow> x \<in> {NUL, LF, TAB, CHR '' '', CHR ''=''} \<Longrightarrow> x \<notin> set s" for s x
    by (auto simp: word_chars_def)
  have ne: "name \<noteq> []" "fmt_mac m \<noteq> []" using assms(1) c(2) by (simp_all add: word_chars_def)
  then have h: "hd ?v \<in> set name" "last ?v = last (fmt_mac m)" by simp_all
  have "hd ?v \<notin> {NUL, LF, TAB, CHR '' '', CHR ''=''}" using h(1) free [OF assms(1), of "hd ?v"] by metis
  moreover have "NUL \<notin> set ?v" "LF \<notin> set ?v"
    using free [OF assms(1)] free [OF c(1)] free [OF c(2)] by simp_all
  moreover have "\<not> isspace (last ?v)" unfolding h(2) by (rule fmt_mac_last [OF assms(2)])
  ultimately show ?thesis unfolding value_chars_def by simp
qed

subsection \<open>Options with addresses\<close>

lemma options_table_names: "list_all (\<lambda>t. word_chars (o_name t) \<and> length (o_name t) \<le> 11) options_table"
  by (simp add: options_table_def word_chars_def)

lemma option_named_Some:
  assumes "option_named None name = Some t"
  shows "t \<in> set options_table" "o_name t = name"
proof -
  have "foldl (\<lambda>acc t. if strcmp (o_name t) name = 0 then Some t else acc) x ts = Some t \<Longrightarrow>
      x = Some t \<or> t \<in> set ts \<and> o_name t = name" for x ts
    by (induction ts arbitrary: x) (fastforce simp: strcmp_zero split: if_splits)+
  from this [of None options_table] assms show "t \<in> set options_table" "o_name t = name" by (simp_all add: option_named_def)
qed

lemma option_named_word:
  assumes "option_named None name = Some t"
  shows "word_chars name" "length name \<le> 11"
  using option_named_Some [OF assms] options_table_names by (auto simp: list_all_iff)

lemma show_ips_simps [simp]: "show_ips [] = []" "show_ips (a # as) = CHR '' '' # fmt_ip a @ show_ips as"
  by (simp_all add: show_ips_def)

lemma show_ips_NUL: "NUL \<notin> set (show_ips as)" "LF \<notin> set (show_ips as)"
  using fmt_ip_chars by (induction as) (fastforce simp: token_chars_def word_chars_def)+

lemma show_ips_length: "length (show_ips as) \<le> 16 * length as"
proof (induction as)
  case (Cons a as)
  then show ?case using fmt_ip_length [of a] by simp
qed simp

lemma opt_loop_ips:
  assumes "o_type t = OPTION_IP" and "o_list t \<or> as = []" and "length as < n" and "drop save b = fmt_ip a @ show_ips as @ NUL # r"
  shows "\<exists>b'. opt_loop (Suc n) E t q b save ret opts =
      Some (True, b', foldl (\<lambda>opts a. attach_option opts t (be32 a)) opts (a # as)) \<and> length b' = length b"
  using assms
proof (induction as arbitrary: n save b a ret opts)
  case Nil
  have ip: "NUL \<notin> set (fmt_ip a)" "fmt_ip a \<noteq> []" "\<forall>c\<in>set (fmt_ip a). c \<notin> set ('', '' @ [TAB])"
    using fmt_ip_chars [of a] by (auto simp: token_chars_def word_chars_def)
  have "drop save b = fmt_ip a @ NUL # r" using Nil.prems(4) by simp
  note t = strtok_last [OF this ip(2,1,3)]
  obtain n' where n: "n = Suc n'" using Nil.prems(3) by (cases n) auto
  show ?case
    using t Nil.prems(1) strtok_none [OF t(3)]
    by (simp add: n switch_value_def text_at_def plain_value_def read_ip_def inet_aton_fmt_ip Let_def)
next
  case (Cons a' as)
  have ip: "NUL \<notin> set (fmt_ip a)" "fmt_ip a \<noteq> []" "\<forall>c\<in>set (fmt_ip a). c \<notin> set ('', '' @ [TAB])"
    using fmt_ip_chars [of a] by (auto simp: token_chars_def word_chars_def)
  have nul: "NUL \<notin> set (fmt_ip a' @ show_ips as)" using show_ips_NUL(1) [of "a' # as"] by simp
  have "drop save b = fmt_ip a @ CHR '' '' # (fmt_ip a' @ show_ips as) @ NUL # r" using Cons.prems(4) by simp
  from strtok_next [OF this ip(2,1) nul ip(3)] obtain b1 where
    t: "strtok ('', '' @ [TAB]) b save = Some (Some save, save + length (fmt_ip a) + 1, b1)" "length b1 = length b"
      "str_at b1 save = Some (fmt_ip a)" and d: "drop (save + length (fmt_ip a) + 1) b1 = fmt_ip a' @ show_ips as @ NUL # r"
    by auto
  obtain n' where n: "n = Suc n'" "length as < n'" using Cons.prems(3) by (cases n) auto
  have l: "o_list t" using Cons.prems(2) by simp
  from Cons.IH [OF Cons.prems(1) _ n(2) d, of True "attach_option opts t (be32 a)"] l obtain b' where
    "opt_loop (Suc n') E t q b1 (save + length (fmt_ip a) + 1) True (attach_option opts t (be32 a)) =
      Some (True, b', foldl (\<lambda>opts a. attach_option opts t (be32 a)) (attach_option opts t (be32 a)) (a' # as))"
    "length b' = length b1" by blast
  then show ?case
    using t Cons.prems(1) l
    by (subst opt_loop.simps)
      (simp add: n switch_value_def text_at_def plain_value_def read_ip_def inet_aton_fmt_ip Let_def del: opt_loop.simps)
qed

lemma show_ips_ge: "length as \<le> length (show_ips as)"
  by (induction as) auto

lemma option_value:
  assumes "word_chars name"
  shows "value_chars (name @ show_ips (a # as))"
proof -
  let ?v = "name @ show_ips (a # as)"
  have "show_ips (a # as) \<noteq> [] \<and> \<not> isspace (last (show_ips (a # as)))"
  proof (induction as arbitrary: a)
    case Nil
    have "last (fmt_ip a) = last (decimal (unat (drop_bit 0 a) mod 256))"
      using decimal_digits by (simp add: fmt_ip_def Let_def last_append)
    moreover have "isdigit (last (decimal (unat (drop_bit 0 a) mod 256)))" using decimal_digits last_in_set by blast
    moreover have "fmt_ip a \<noteq> []" by (simp add: fmt_ip_def Let_def)
    ultimately show ?case using nibble_not_space [of "last (fmt_ip a)"] by (simp add: nibble_def)
  next
    case (Cons b as)
    have "show_ips (a # b # as) = (CHR '' '' # fmt_ip a) @ show_ips (b # as)" by simp
    with Cons [of b] show ?case by (metis append_is_Nil_conv last_appendR)
  qed
  then have l: "\<not> isspace (last ?v)" by (simp add: last_append del: show_ips_simps)
  have ne: "name \<noteq> []" using assms by (simp add: word_chars_def)
  then have h: "hd ?v = hd name" "hd name \<in> set name" by simp_all
  moreover have "hd name \<notin> set ('' '' @ [TAB] @ ''='')" using h(2) assms by (auto simp: word_chars_def)
  moreover have "NUL \<notin> set ?v" "LF \<notin> set ?v"
    using assms show_ips_NUL [of "a # as"] by (auto simp: word_chars_def simp del: show_ips_simps)
  ultimately show ?thesis unfolding value_chars_def using l by simp
qed

lemma option_result:
  assumes "drop p b = name @ show_ips (a # as) @ NUL # r" and "item_ok (Ip_option name (a # as))"
  shows "\<exists>b'. keyword_result Read_opt [] E orig p b st = Some (b', apply_item E (Ip_option name (a # as)) st) \<and>
    length b' = length b"
proof -
  from assms(2) obtain t where t: "option_named None name = Some t" "o_type t = OPTION_IP" "o_list t \<or> as = []"
    by (auto split: option.splits)
  note w = option_named_word(1) [OF t(1)]
  then have name: "NUL \<notin> set name" "name \<noteq> []" "\<forall>c\<in>set name. c \<notin> set ('' '' @ [TAB] @ ''='')"
    by (auto simp: word_chars_def)
  have nul: "NUL \<notin> set (fmt_ip a @ show_ips as)" using show_ips_NUL(1) [of "a # as"] by simp
  have d0: "drop p b = name @ CHR '' '' # (fmt_ip a @ show_ips as) @ NUL # r" using assms(1) by simp
  from strtok_next [OF this name(2,1) nul name(3)] obtain b1 where
    t1: "strtok ('' '' @ [TAB] @ ''='') b p = Some (Some p, p + length name + 1, b1)" "length b1 = length b"
      "str_at b1 p = Some name" and d: "drop (p + length name + 1) b1 = fmt_ip a @ show_ips as @ NUL # r"
    by auto
  have "length as < length b" using arg_cong [OF d0, of length] show_ips_ge [of as] by simp
  from opt_loop_ips [OF t(2,3) this d, of E "p + length name + 1" False "sc_options (cs_config st)"] obtain b' where
    l: "opt_loop (Suc (length b)) E t (p + length name + 1) b1 (p + length name + 1) False (sc_options (cs_config st)) =
      Some (True, b', foldl (\<lambda>opts a. attach_option opts t (be32 a)) (sc_options (cs_config st)) (a # as))"
    "length b' = length b1" by blast
  then have "read_opt E b p (sc_options (cs_config st)) =
      Some (True, b', foldl (\<lambda>opts a. attach_option opts t (be32 a)) (sc_options (cs_config st)) (a # as))"
    using t1(1,3) t(1) by (simp add: read_opt_def del: opt_loop.simps)
  with l(2) t1(2) t(1) show ?thesis by (simp add: keyword_result_def call_keyword_def)
qed

lemma opt_keyword: "map_of keyword_table ''opt'' = Some (Read_opt, [])"
  by (simp add: keyword_table_def)

lemma static_keyword: "map_of keyword_table ''static'' = Some (Read_static, [])"
  by (simp add: keyword_table_def)

lemma reservation_result:
  assumes "drop p b = name @ CHR '' '' # fmt_ip a @ CHR '' '' # fmt_mac m @ NUL # r"
    and "item_ok (Reservation name a m)" and "statics_fresh st"
  shows "\<exists>b'. keyword_result Read_static [] E (show_item (Reservation name a m)) p b st =
    Some (b', apply_item E (Reservation name a m) st) \<and> length b' = length b"
proof (cases "cs_index st < MAX_STATIC_LEASES")
  case True
  from read_static_reserves [OF assms(1) _ _ _ True assms(3)] assms(2) obtain b' where
    "read_static E b p st = Some (True, b', apply_item E (Reservation name a m) st)" "length b' = length b" by auto
  then show ?thesis by (auto simp: keyword_result_def call_keyword_def)
next
  case False
  then show ?thesis by (simp add: keyword_result_def call_keyword_def read_static_def)
qed

lemma statics_fresh_apply: "statics_fresh st \<Longrightarrow> statics_fresh (apply_item E it st)"
  by (cases it) (auto simp: statics_fresh_def apply_setting_def split: option.splits prod.splits bool.splits)

lemma item_line:
  assumes "item_ok it" and "statics_fresh st"
  shows "\<exists>b'. config_line E (show_item it @ LF # NUL # r) st = Some (b', apply_item E it st) \<and>
    length b' = length (show_item it @ LF # NUL # r)"
proof (cases it)
  case (Setting k v)
  with assms(1) obtain h d where m: "map_of keyword_table k = Some (h, d)" "scalar_handler h" "value_chars v"
    by (auto split: option.splits)
  let ?b = "k @ NUL # v @ NUL # NUL # r"
  have "NUL \<notin> set v" using m(3) by (simp add: value_chars_def)
  then have "str_at ?b (length k + 1) = Some v" using str_at_append [of v "k @ [NUL]" "length k + 1" "NUL # r"] by simp
  with config_line_eq [OF keyword_ok(1) [OF m(1)] m(3)] try_keywords_one [OF keyword_table_distinct m(1)] setting_result [OF m(1,2)]
  show ?thesis using Setting m(1) by simp
next
  case (Ip_option name as)
  with assms(1) obtain a as' t where as: "as = a # as'" "option_named None name = Some t"
    by (cases as) (auto split: option.splits)
  let ?v = "name @ show_ips (a # as')"
  let ?b = "''opt'' @ NUL # ?v @ NUL # NUL # r"
  have v: "value_chars ?v" by (rule option_value [OF option_named_word(1) [OF as(2)]])
  have "drop (length ''opt'' + 1) ?b = name @ show_ips (a # as') @ NUL # NUL # r" by simp
  from option_result [OF this, of E "show_item it" st] assms Ip_option as(1) obtain b' where
    "keyword_result Read_opt [] E (show_item it) (length ''opt'' + 1) ?b st = Some (b', apply_item E it st)"
    "length b' = length ?b" by auto
  then show ?thesis
    using config_line_eq [OF keyword_ok(1) [OF opt_keyword] v, of E r st] try_keywords_one [OF keyword_table_distinct opt_keyword]
      Ip_option as(1) by simp
next
  case (Reservation name a m)
  let ?v = "name @ CHR '' '' # fmt_ip a @ CHR '' '' # fmt_mac m"
  let ?b = "''static'' @ NUL # ?v @ NUL # NUL # r"
  have v: "value_chars ?v" using reservation_value fmt_ip_word assms(1) Reservation by simp
  have "drop (length ''static'' + 1) ?b = name @ CHR '' '' # fmt_ip a @ CHR '' '' # fmt_mac m @ NUL # NUL # r" by simp
  from reservation_result [OF this, of st E] assms Reservation obtain b' where
    "keyword_result Read_static [] E (show_item it) (length ''static'' + 1) ?b st = Some (b', apply_item E it st)"
    "length b' = length ?b" by auto
  then show ?thesis
    using config_line_eq [OF keyword_ok(1) [OF static_keyword] v, of E r st] try_keywords_one [OF keyword_table_distinct static_keyword]
      Reservation by simp
qed


subsection \<open>Reading a configuration file\<close>

lemma show_item_ok:
  assumes "item_ok it"
  shows "LF \<notin> set (show_item it)" "length (show_item it) \<le> 151"
proof -
  show "LF \<notin> set (show_item it)"
  proof (cases it)
    case (Setting k v)
    with assms obtain h d where "map_of keyword_table k = Some (h, d)" by (auto split: option.splits)
    from keyword_ok(1) [OF this] assms Setting show ?thesis by (auto simp: word_chars_def value_chars_def)
  next
    case (Ip_option name as)
    with assms obtain t where "option_named None name = Some t" by (auto split: option.splits)
    from option_named_word(1) [OF this] show ?thesis
      using Ip_option show_ips_NUL(2) [of as] by (auto simp: word_chars_def)
  next
    case (Reservation name a m)
    with assms reservation_value [of name m "fmt_ip a"] fmt_ip_word show ?thesis by (simp add: value_chars_def)
  qed
  show "length (show_item it) \<le> 151"
  proof (cases it)
    case (Ip_option name as)
    with assms obtain t where "option_named None name = Some t" "length as \<le> 8" by (auto split: option.splits)
    with option_named_word(2) [OF this(1)] show ?thesis using Ip_option show_ips_length [of as] by simp
  next
    case (Reservation name a m)
    with assms fmt_ip_length [of a] fmt_mac_length [of m] show ?thesis by simp
  qed (use assms in simp)
qed

lemma config_loop_prefix:
  "list_all item_ok its \<Longrightarrow> length b = 153 \<Longrightarrow> statics_fresh st \<Longrightarrow>
    \<exists>b'. config_loop E (show_config its @ rest) b st = config_loop E rest b' (fold (apply_item E) its st) \<and> length b' = 153"
proof (induction its arbitrary: b st)
  case Nil
  then show ?case by (auto simp: show_config_def)
next
  case (Cons it its)
  have ok: "item_ok it" using Cons.prems(1) by simp
  let ?l = "show_item it" and ?more = "show_config its @ rest"
  have inp: "show_config (it # its) @ rest = ?l @ LF # ?more" by (simp add: show_config_def)
  note ch = fgets_chunk_line [OF show_item_ok [OF ok], of ?more]
  let ?r = "drop (length ?l + 2) b"
  have bl: "blit b 0 (fgets_chunk 153 (?l @ LF # ?more) @ [NUL]) = Some (?l @ LF # NUL # ?r)"
    using Cons.prems(2) show_item_ok(2) [OF ok] unfolding ch by simp
  from item_line [OF ok Cons.prems(3), of E ?r] obtain b1 where
    b1: "config_line E (?l @ LF # NUL # ?r) st = Some (b1, apply_item E it st)" "length b1 = length (?l @ LF # NUL # ?r)" by blast
  have "length b1 = 153" unfolding b1(2) using Cons.prems(2) show_item_ok(2) [OF ok] by simp
  then obtain b' where "config_loop E ?more b1 (apply_item E it st) = config_loop E rest b' (fold (apply_item E) its (apply_item E it st))"
      "length b' = 153"
    using Cons.IH [OF _ _ statics_fresh_apply [OF Cons.prems(3)], of b1 E it] Cons.prems(1) by auto
  moreover have "config_loop E (?l @ LF # ?more) b st = config_loop E ?more b1 (apply_item E it st)"
    using bl b1(1) ch by (subst config_loop.simps) simp
  ultimately show ?case unfolding inp by auto
qed

lemma config_loop_items:
  assumes "list_all item_ok its" and "length b = 153" and "statics_fresh st"
  shows "config_loop E (show_config its) b st = Some (fold (apply_item E) its st)"
  using config_loop_prefix [OF assms, of E "[]"] by (auto simp: config_loop.simps)

text \<open>The values of the keywords that have a default.\<close>

definition default_config :: "config_t \<Rightarrow> config_t" where
  "default_config c = c\<lparr>sc_start := 0xC0A80014, sc_end := 0xC0A800FE, sc_interface := Some ''eth0'', sc_max_leases := 254,
     sc_remaining := True, sc_auto_time := 7200, sc_decline_time := 3600, sc_conflict_time := 3600, sc_offer_time := 60,
     sc_min_lease := 60, sc_lease_file := Some ''/var/lib/misc/udhcpd.leases'',
     sc_pidfile := Some ''/var/run/udhcpd.pid'', sc_siaddr := 0, sc_force_bcast := False\<rparr>"

lemma default_addresses:
  "read_ip E (Some ''192.168.0.20'') = Some 0xC0A80014" "read_ip E (Some ''192.168.0.254'') = Some 0xC0A800FE"
  "read_ip E (Some ''0.0.0.0'') = Some 0"
proof -
  have "inet_aton (Some ''192.168.0.20'') = Some 0xC0A80014" "inet_aton (Some ''192.168.0.254'') = Some 0xC0A800FE"
    "inet_aton (Some ''0.0.0.0'') = Some 0" by code_simp+
  then show "read_ip E (Some ''192.168.0.20'') = Some 0xC0A80014" "read_ip E (Some ''192.168.0.254'') = Some 0xC0A800FE"
    "read_ip E (Some ''0.0.0.0'') = Some 0" by (simp_all add: read_ip_def)
qed

lemma default_numbers:
  "read_u32 ''254'' = (True, 254)" "read_u32 ''7200'' = (True, 7200)" "read_u32 ''3600'' = (True, 3600)"
  "read_u32 ''60'' = (True, 60)" "read_yn ''yes'' = Some True" "read_yn ''no'' = Some False"
  by code_simp+

lemma read_defaults_step:
  assumes "d \<noteq> []" and "scalar_handler h" and "NUL \<notin> set d" and "length d < 30"
  shows "read_defaults ((k, h, d) # ks) E st = read_defaults ks E (st\<lparr>cs_config := snd (scalar_value h E d (cs_config st))\<rparr>)"
  using assms(1) call_keyword_scalar [OF assms(2) str_at_def_block [OF assms(3,4)]] by simp

lemma read_defaults_skip: "read_defaults ((k, h, []) # ks) E st = read_defaults ks E st"
  by simp

lemma read_defaults_eq: "read_defaults keyword_table E st = Some (st\<lparr>cs_config := default_config (cs_config st)\<rparr>)"
  unfolding keyword_table_def
  by (simp add: read_defaults_step read_defaults_skip scalar_handler_def default_addresses default_numbers default_config_def del: read_defaults.simps(2))

lemma read_config_items:
  assumes "list_all item_ok its" and "length buffer = 153" and "statics_fresh st"
  shows "read_config E name (Some (show_config its)) buffer st =
    Some (True, fold (apply_item E) its (st\<lparr>cs_config := default_config (cs_config st)\<rparr>))"
proof -
  have "statics_fresh (st\<lparr>cs_config := default_config (cs_config st)\<rparr>)" using assms(3) by (simp add: statics_fresh_def)
  from config_loop_items [OF assms(1,2) this, of E] show ?thesis by (simp add: read_config_def read_defaults_eq)
qed


text \<open>C6: reading the text of a configuration file, whatever the line buffer held before, ends and has exactly the
  effect of its items, in their order, on the defaults: a setting assigns its field, or, when its value cannot be read,
  is logged and assigns the default; an option attaches its addresses; a reservation fills the next static lease, or
  is logged when all 32 are taken.\<close>

theorem config_file_refines:
  assumes "list_all item_ok its" and "length buffer = 153" and "statics_fresh st"
  shows "read_config E name (Some (show_config its)) buffer st =
    Some (True, fold (apply_item E) its (st\<lparr>cs_config := default_config (cs_config st)\<rparr>))"
  by (rule read_config_items [OF assms])

definition example_env :: config_env where
  "example_env = \<lparr>ce_gethostbyname = (\<lambda>s. None), ce_stack = 0\<rparr>"

definition example_items :: "config_item list" where
  "example_items = [Setting ''start'' ''10.0.0.10'', Setting ''max_leases'' ''many'',
     Ip_option ''dns'' [0x0A000001, 0x0A000002], Reservation ''tv'' 0x0A000005 (replicate 6 1)]"

lemma example_items_ok: "list_all item_ok example_items"
  by code_simp

lemma example_values:
  "inet_aton (Some ''10.0.0.10'') = Some 0x0A00000A" "read_u32 ''many'' = (False, 0)" "read_u32 ''254'' = (True, 254)"
  "option_named None ''dns'' = Some (options_table ! 5)"
  by code_simp+

theorem config_file_refines_witness:
  "\<exists>st. read_config example_env ''conf'' (Some (show_config example_items)) (replicate 153 NUL) start_state = Some (True, st) \<and>
     sc_start (cs_config st) = 0x0A00000A \<and> sc_max_leases (cs_config st) = 254 \<and>
     sc_options (cs_config st) = [[6, 8, 10, 0, 0, 1, 10, 0, 0, 2]] \<and> l_yiaddr (cs_static st ! 0) = 0x0A000005 \<and>
     cs_log st = [parse_error ''max_leases many'']"
proof -
  have k: "map_of keyword_table ''start'' = Some (Read_ip sc_start_update, ''192.168.0.20'')"
    "map_of keyword_table ''max_leases'' = Some (Read_u32 sc_max_leases_update, ''254'')"
    by (simp_all add: keyword_table_def)
  have fresh: "statics_fresh start_state" by (simp add: statics_fresh_def start_state_def)
  have opts: "attach_option (attach_option [] (options_table ! 5) (be32 0x0A000001)) (options_table ! 5) (be32 0x0A000002) =
    [[6, 8, 10, 0, 0, 1, 10, 0, 0, 2]]" by code_simp
  show ?thesis
    using config_file_refines [OF example_items_ok _ fresh, of "replicate 153 NUL" example_env "''conf''"] opts
    by (simp add: example_items_def k example_values apply_setting_def read_ip_def default_config_def start_state_def
        blank_config_def reserved_def MAX_STATIC_LEASES_def)
qed

subsection \<open>What a configuration leaves behind\<close>

fun reservations :: "config_item list \<Rightarrow> (char list \<times> u32 \<times> byte list) list" where
  "reservations [] = []"
| "reservations (Reservation name a m # its) = (name, a, m) # reservations its"
| "reservations (Setting k v # its) = reservations its"
| "reservations (Ip_option name as # its) = reservations its"

definition static_key :: "dhcpOfferedAddr \<Rightarrow> byte list \<times> u32" where
  "static_key l = (l_chaddr l, l_yiaddr l)"

fun reserved_key :: "char list \<times> u32 \<times> byte list \<Rightarrow> byte list \<times> u32" where
  "reserved_key (name, a, m) = (m @ replicate 10 0, a)"

definition wide_option :: "byte list \<Rightarrow> bool" where
  "wide_option d \<longleftrightarrow> option_string_ok d \<and> 6 \<le> length d"

definition options_ok :: "config_state \<Rightarrow> bool" where
  "options_ok st \<longleftrightarrow> (\<forall>d\<in>set (sc_options (cs_config st)). wide_option d) \<and>
     (\<forall>l\<in>set (cs_static st). \<forall>d\<in>set (l_options l). option_string_ok d)"

definition holds_reserved :: "(char list \<times> u32 \<times> byte list) list \<Rightarrow> config_state \<Rightarrow> bool" where
  "holds_reserved rs st \<longleftrightarrow> cs_index st = length rs \<and> statics_fresh st \<and>
     map static_key (take (length rs) (cs_static st)) = map reserved_key rs"

lemma apply_item_reserved:
  assumes "holds_reserved rs st" and "length rs < MAX_STATIC_LEASES"
  shows "holds_reserved (rs @ [(name, a, m)]) (apply_item E (Reservation name a m) st)"
proof -
  have "statics_fresh (apply_item E (Reservation name a m) st)" by (rule statics_fresh_apply) (use assms in \<open>simp add: holds_reserved_def\<close>)
  moreover have "length rs < length (cs_static st)" using assms by (simp add: holds_reserved_def statics_fresh_def)
  ultimately show ?thesis
    using assms by (simp add: holds_reserved_def take_Suc_conv_app_nth static_key_def reserved_def)
qed

lemma apply_setting_index:
  "cs_index (apply_setting E k v h d st) = cs_index st" "cs_static (apply_setting E k v h d st) = cs_static st"
  by (auto simp: apply_setting_def split: prod.splits bool.splits)

lemma apply_item_other:
  assumes "holds_reserved rs st" and "reservations [it] = []"
  shows "holds_reserved rs (apply_item E it st)"
proof -
  have "statics_fresh (apply_item E it st)" by (rule statics_fresh_apply) (use assms in \<open>simp add: holds_reserved_def\<close>)
  with assms show ?thesis
    by (cases it) (auto simp: holds_reserved_def apply_setting_index split: option.splits prod.splits)
qed

lemma fold_reserved:
  "holds_reserved rs st \<Longrightarrow> length rs + length (reservations its) \<le> MAX_STATIC_LEASES \<Longrightarrow>
    holds_reserved (rs @ reservations its) (fold (apply_item E) its st)"
proof (induction its arbitrary: rs st)
  case (Cons it its)
  show ?case
  proof (cases it)
    case (Reservation name a m)
    with Cons.prems have "length rs < MAX_STATIC_LEASES" by simp
    from Cons.IH [OF apply_item_reserved [OF Cons.prems(1) this, of name a m E]] Cons.prems(2) Reservation
    show ?thesis by simp
  next
    case (Setting k v)
    with Cons.IH [OF apply_item_other [OF Cons.prems(1), of it E]] Cons.prems(2) show ?thesis by simp
  next
    case (Ip_option name as)
    with Cons.IH [OF apply_item_other [OF Cons.prems(1), of it E]] Cons.prems(2) show ?thesis by simp
  qed
qed simp

lemma keyword_options: "list_all (\<lambda>(k, h, d). \<forall>E v c. sc_options (snd (scalar_value h E v c)) = sc_options c) keyword_table"
  by (simp add: keyword_table_def split: option.split prod.split)

lemma apply_setting_options:
  assumes "map_of keyword_table k = Some (h, d)"
  shows "sc_options (cs_config (apply_setting E k v h d st)) = sc_options (cs_config st)"
proof -
  have o: "sc_options (snd (scalar_value h E w c)) = sc_options c" for w c
    using map_of_SomeD [OF assms] keyword_options by (auto simp: list_all_iff)
  show ?thesis
  proof (cases "scalar_value h E v (cs_config st)")
    case (Pair r c)
    with o [of v "cs_config st"] o [of d c] show ?thesis by (simp add: apply_setting_def split: bool.split)
  qed
qed

lemma table_codes_plain: "list_all (\<lambda>t. plain_code (o_code t)) options_table"
  by (simp add: options_table_def plain_code_def DHCP_PADDING_def DHCP_OPTION_OVER_def DHCP_END_def)

lemma wide_new: "plain_code c \<Longrightarrow> wide_option ([c, of_nat (length (be32 a))] @ be32 a)"
  by (auto simp: wide_option_def option_string_ok_def length_be32 intro!: exI [of _ c] exI [of _ "be32 a"])

lemma wide_appended:
  assumes "wide_option d" and "unat (d ! 1) + length (be32 a) \<le> 255"
  shows "wide_option ([d ! 0, d ! 1 + of_nat (length (be32 a))] @ take (unat (d ! 1)) (drop 2 d) @ be32 a)"
proof -
  obtain c x where d: "d = tlv (c, x)" "plain_option (c, x)" using assms(1) by (auto simp: wide_option_def option_string_ok_def)
  then have "[d ! 0, d ! 1 + of_nat (length (be32 a))] @ take (unat (d ! 1)) (drop 2 d) @ be32 a = tlv (c, x @ be32 a)"
    by simp
  moreover have "plain_option (c, x @ be32 a)" using d assms(2) by simp
  ultimately show ?thesis unfolding wide_option_def option_string_ok_def by (auto simp: length_be32)
qed

lemma Ball_update: "\<forall>x\<in>set xs. P x \<Longrightarrow> P y \<Longrightarrow> \<forall>x\<in>set (xs[k := y]). P x"
  using set_update_subset_insert [of xs k y] by blast

lemma Ball_foldl:
  "(\<And>xs a. \<forall>x\<in>set xs. P x \<Longrightarrow> \<forall>x\<in>set (f xs a). P x) \<Longrightarrow> \<forall>x\<in>set xs. P x \<Longrightarrow> \<forall>x\<in>set (foldl f xs as). P x"
proof (induction as arbitrary: xs)
  case (Cons a as)
  show ?case using Cons.IH [OF Cons.prems(1) Cons.prems(1) [OF Cons.prems(2)]] by simp
qed simp

lemma attach_wide:
  assumes "\<forall>d\<in>set opts. wide_option d" and "plain_code (o_code t)"
  shows "\<forall>d\<in>set (attach_option opts t (be32 a)). wide_option d"
proof (cases "find_option opts (sint (o_code t))")
  case None
  with assms wide_new [OF assms(2), of a] show ?thesis by (simp add: attach_option_def insert_option_set)
next
  case (Some k)
  then have "opts ! k \<in> set opts" using find_option_Some by fastforce
  then have w: "wide_option (opts ! k)" using assms(1) by simp
  show ?thesis
  proof (cases "o_list t \<and> unat (opts ! k ! 1) + length (be32 a) \<le> 255")
    case True
    let ?d = "[opts ! k ! 0, opts ! k ! 1 + of_nat (length (be32 a))] @ take (unat (opts ! k ! 1)) (drop 2 (opts ! k)) @ be32 a"
    have "wide_option ?d" by (rule wide_appended [OF w]) (use True in simp)
    moreover have "attach_option opts t (be32 a) = opts[k := ?d]" using Some True by (simp add: attach_option_def Let_def)
    ultimately show ?thesis using Ball_update [OF assms(1)] by simp
  next
    case False
    with Some have "attach_option opts t (be32 a) = opts" by (auto simp: attach_option_def)
    with assms(1) show ?thesis by simp
  qed
qed

lemma cpyact_ok:
  assumes "wide_option d" and "\<forall>x\<in>set opts. option_string_ok x"
  shows "\<forall>x\<in>set (cpyact d opts). option_string_ok x"
proof -
  obtain c x where d: "d = tlv (c, x)" "plain_option (c, x)" using assms(1) by (auto simp: wide_option_def option_string_ok_def)
  then have "[d ! 0, d ! 1] @ take (unat (d ! 1)) (drop 2 d) = d" by simp
  with assms show ?thesis unfolding cpyact_def by (simp add: insert_option_set wide_option_def)
qed

lemma copy_option_ok:
  assumes "\<forall>d\<in>set config. wide_option d" and "\<forall>x\<in>set opts. option_string_ok x"
  shows "\<forall>x\<in>set (copy_option config opts i). option_string_ok x"
proof -
  have "wide_option (config ! k)" if "find_option config c = Some k" for k c
    using assms(1) find_option_Some [OF that] by simp
  then have "\<forall>x\<in>set (cpyact (config ! k) opts). option_string_ok x" if "find_option config c = Some k" for k c
    using cpyact_ok [OF _ assms(2)] that by blast
  with assms(2) show ?thesis by (simp add: copy_option_def Let_def split: option.split)
qed

lemma cpyopttostatic_ok:
  assumes "\<forall>d\<in>set config. wide_option d"
  shows "\<forall>x\<in>set (cpyopttostatic_leases config []). option_string_ok x"
  unfolding cpyopttostatic_leases_def by (rule Ball_foldl [OF copy_option_ok [OF assms]]) simp_all

lemma apply_item_options:
  assumes "options_ok st"
  shows "options_ok (apply_item E it st)"
proof (cases it)
  case (Setting k v)
  with assms show ?thesis
    by (auto simp: options_ok_def apply_setting_options apply_setting_index split: option.split)
next
  case (Ip_option name as)
  show ?thesis
  proof (cases "option_named None name")
    case (Some t)
    have c: "plain_code (o_code t)" using option_named_Some(1) [OF Some] table_codes_plain by (auto simp: list_all_iff)
    have "\<forall>d\<in>set (foldl (\<lambda>opts a. attach_option opts t (be32 a)) (sc_options (cs_config st)) as). wide_option d"
      by (rule Ball_foldl [OF attach_wide [OF _ c]]) (use assms in \<open>simp_all add: options_ok_def\<close>)
    with assms Ip_option Some show ?thesis by (simp add: options_ok_def)
  qed (use assms Ip_option in simp)
next
  case (Reservation name a m)
  have "\<forall>d\<in>set (l_options (reserved (sc_options (cs_config st)) name a m)). option_string_ok d"
    using cpyopttostatic_ok [of "sc_options (cs_config st)"] assms by (simp add: reserved_def options_ok_def)
  then have "\<forall>l\<in>set ((cs_static st)[cs_index st := reserved (sc_options (cs_config st)) name a m]).
      \<forall>d\<in>set (l_options l). option_string_ok d"
    using assms by (intro Ball_update) (simp_all add: options_ok_def)
  with assms Reservation show ?thesis by (simp add: options_ok_def)
qed

lemma fold_options: "options_ok st \<Longrightarrow> options_ok (fold (apply_item E) its st)"
  using apply_item_options by (induction its arbitrary: st) auto

subsection \<open>Reserved clients\<close>

text \<open>Reading the lease file can mark a static lease as acknowledged and changes nothing else in the static table.\<close>

definition fixed_part :: "dhcpOfferedAddr \<Rightarrow> (byte list \<times> u32) \<times> byte list list" where
  "fixed_part l = (static_key l, l_options l)"

lemma match_static_fixed: "map fixed_part (snd (match_static lease ss n)) = map fixed_part ss"
  by (induction lease ss n rule: match_static.induct) (simp_all add: fixed_part_def static_key_def)

lemma read_entry_fixed:
  assumes "read_entry cfg now lease leases statics = (go, n, ls, ss)"
  shows "map fixed_part ss = map fixed_part statics"
proof -
  have "map fixed_part ss' = map fixed_part statics" if "match_static lease statics MAX_STATIC_LEASES = (r, ss')" for r ss'
    using match_static_fixed [of lease statics MAX_STATIC_LEASES] that by simp
  with assms show ?thesis
    by (auto simp: read_entry_def Let_def split: if_splits prod.splits bool.splits option.splits)
qed

lemma read_leases_loop_fixed:
  "map fixed_part (snd (read_leases_loop cfg now i bytes leases statics)) = map fixed_part statics"
proof (induction cfg now i bytes leases statics rule: read_leases_loop.induct)
  case (1 cfg now i bytes leases statics)
  show ?case
  proof (cases "i < length leases \<and> sizeof_lease \<le> length bytes")
    case False
    then show ?thesis by (subst read_leases_loop.simps) auto
  next
    case True
    obtain go n ls ss where e: "read_entry cfg now (lease_of bytes) leases statics = (go, n, ls, ss)" by (metis prod_cases4)
    from read_entry_fixed [OF e] 1 [OF True e [symmetric] refl refl] True e show ?thesis
      by (subst read_leases_loop.simps) auto
  qed
qed

lemma start_server_fixed: "map fixed_part (s_static (start_server cfg now n bytes ss)) = map fixed_part ss"
  using read_leases_loop_fixed [of cfg now 0 bytes "replicate n no_lease" ss]
  by (auto simp: start_server_def read_leases_def split: prod.split)

lemma index_of_map: "index_of P (map f xs) = index_of (\<lambda>x. P (f x)) xs"
  by (induction xs) auto

lemma find_static_keys:
  "find_static_lease_by_chaddr ss ch =
     index_of (\<lambda>k. fst k = ch) (takeWhile (\<lambda>k. snd k \<noteq> 0) (take MAX_STATIC_LEASES (map static_key ss)))"
  by (simp add: find_static_lease_by_chaddr_def static_entries_def take_map takeWhile_map index_of_map static_key_def comp_def)

lemma holds_reserved_find:
  assumes "holds_reserved rs st" and "length rs \<le> MAX_STATIC_LEASES" and "\<forall>(name, a, m)\<in>set rs. a \<noteq> 0"
    and "distinct (map (\<lambda>(name, a, m). m) rs)" and "(name, a, m) \<in> set rs"
  shows "\<exists>i. find_static_lease_by_chaddr (cs_static st) (m @ replicate 10 0) = Some i \<and> i < MAX_STATIC_LEASES \<and>
    l_yiaddr (cs_static st ! i) = a"
proof -
  let ?ks = "map reserved_key rs" and ?ch = "m @ replicate 10 (0 :: byte)"
  have len: "length (cs_static st) = MAX_STATIC_LEASES" using assms(1) by (simp add: holds_reserved_def statics_fresh_def)
  have fresh: "drop (length rs) (cs_static st) = replicate (MAX_STATIC_LEASES - length rs) no_lease"
    using assms(1) len by (intro nth_equalityI) (auto simp: holds_reserved_def statics_fresh_def)
  have keys: "map static_key (cs_static st) = ?ks @ replicate (MAX_STATIC_LEASES - length rs) (blank_chaddr, 0)"
  proof -
    have "map static_key (cs_static st) = map static_key (take (length rs) (cs_static st)) @ map static_key (drop (length rs) (cs_static st))"
      by (simp flip: map_append)
    then show ?thesis using assms(1) fresh by (simp add: holds_reserved_def static_key_def no_lease_def)
  qed
  have nz: "\<forall>k\<in>set ?ks. snd k \<noteq> 0" using assms(3) by auto
  have "takeWhile (\<lambda>k. snd k \<noteq> 0) (?ks @ replicate (MAX_STATIC_LEASES - length rs) (blank_chaddr, 0)) = ?ks"
    using nz by (cases "MAX_STATIC_LEASES - length rs") (simp_all add: takeWhile_upto takeWhile_eq_all_conv)
  then have find: "find_static_lease_by_chaddr (cs_static st) ?ch = index_of (\<lambda>k. fst k = ?ch) ?ks"
    using keys len assms(2) by (simp add: find_static_keys)
  obtain i where i: "i < length rs" "rs ! i = (name, a, m)" using assms(5) by (auto simp: in_set_conv_nth)
  have "index_of (\<lambda>k. fst k = ?ch) ?ks = Some i"
  proof (rule index_of_unique)
    fix j
    assume j: "j < length ?ks" "fst (?ks ! j) = ?ch"
    obtain n b m' where r: "rs ! j = (n, b, m')" by (metis prod_cases3)
    then have "m' = m" using j by simp
    then have "map (\<lambda>(name, a, m). m) rs ! j = map (\<lambda>(name, a, m). m) rs ! i" using i j r by simp
    then show "j = i" using assms(4) i(1) j(1) by (simp only: nth_eq_iff_index_eq length_map)
  qed (use i in simp_all)
  moreover have "static_key (cs_static st ! i) = reserved_key (rs ! i)"
    using arg_cong [OF keys, of "\<lambda>ks. ks ! i"] i(1) len assms(2) by (simp add: nth_append)
  ultimately show ?thesis using find i assms(2) by (auto simp: static_key_def)
qed

lemma sendOffer_static:
  assumes "find_static_lease_by_chaddr (s_static st) (m_chaddr old) = Some i" and "message_ok old"
    and "\<forall>d\<in>set (l_options (s_static st ! i)). option_string_ok d"
  shows "\<exists>r d q os. sendOffer cfg arp tx now st old = Some (r, st, [(d, q)]) \<and> m_yiaddr q = l_yiaddr (s_static st ! i) \<and>
    reply_to cfg old DHCPOFFER ((DHCP_LEASE_TIME, be32 0xFFFFFFFF) # os) q"
proof -
  obtain p where p: "init_packet cfg old DHCPOFFER = Some p" "reply_to cfg old DHCPOFFER [] p"
    using init_packet_reply [OF _ assms(2), of DHCPOFFER] by auto
  from finish_packet_reply [OF p(2) assms(3), of "l_yiaddr (s_static st ! i)" "0xFFFFFFFF"] obtain q os where
    q: "finish_packet cfg (p\<lparr>m_yiaddr := l_yiaddr (s_static st ! i)\<rparr>) 0xFFFFFFFF (l_options (s_static st ! i)) = Some q"
      "reply_to cfg old DHCPOFFER ((DHCP_LEASE_TIME, be32 0xFFFFFFFF) # os) q" "m_yiaddr q = l_yiaddr (s_static st ! i)" by blast
  with p(1) assms(1) show ?thesis by (auto simp: sendOffer_def Let_def)
qed

lemma derive_config_total:
  assumes "\<forall>d\<in>set (sc_options c). wide_option d"
  shows "\<exists>l k. derive_config c = Some (c\<lparr>sc_lease := l, sc_mask := k\<rparr>)"
proof -
  have "\<exists>w. option_word (sc_options c) code x f = Some w" for code x f
  proof (cases "find_option (sc_options c) (sint code)")
    case (Some k)
    with assms find_option_Some [OF Some] have "6 \<le> length (sc_options c ! k)" by (simp add: wide_option_def)
    with Some show ?thesis by (simp add: option_word_def)
  qed (simp add: option_word_def)
  then show ?thesis unfolding derive_config_def by (metis bind.bind_lunit)
qed


lemma start_state_ok: "statics_fresh start_state" "holds_reserved [] (start_state\<lparr>cs_config := c\<rparr>)"
  by (simp_all add: statics_fresh_def start_state_def holds_reserved_def)

lemma start_options_ok: "options_ok (start_state\<lparr>cs_config := default_config blank_config\<rparr>)"
  by (simp add: options_ok_def start_state_def default_config_def blank_config_def no_lease_def)

text \<open>C4: a server started with a configuration file whose reservations have different hardware addresses answers
  every DISCOVER of a client with a reservation by one OFFER of exactly the reserved address, with an unlimited lease
  time and without touching its tables, whatever the lease file held.\<close>

theorem reserved_client_offered:
  assumes "list_all item_ok its" and "length buffer = 153" and "length (reservations its) \<le> MAX_STATIC_LEASES"
    and "\<forall>(name, a, m)\<in>set (reservations its). a \<noteq> 0" and "distinct (map (\<lambda>(name, a, m). m) (reservations its))"
    and "(name, a, m) \<in> set (reservations its)" and "message_ok old" and "m_chaddr old = m @ replicate 10 0"
  shows "\<exists>c srv r d q os. dhcpd_start E path (Some (show_config its)) buffer now bytes server = Some (c, srv) \<and>
    sendOffer (server_config_t.truncate c) arp tx now' srv old = Some (r, srv, [(d, q)]) \<and> m_yiaddr q = a \<and>
    reply_to (server_config_t.truncate c) old DHCPOFFER ((DHCP_LEASE_TIME, be32 0xFFFFFFFF) # os) q"
proof -
  let ?init = "start_state\<lparr>cs_config := default_config blank_config\<rparr>"
  let ?st = "fold (apply_item E) its ?init"
  have rc: "read_config E path (Some (show_config its)) buffer start_state = Some (True, ?st)"
    using read_config_items [OF assms(1,2) start_state_ok(1), of E path] by (simp add: start_state_def)
  have opts: "options_ok ?st" by (rule fold_options [OF start_options_ok])
  have held: "holds_reserved (reservations its) ?st"
    using fold_reserved [OF start_state_ok(2) [of "default_config blank_config"], of its E] assms(3) by simp
  then have fresh: "statics_fresh ?st" by (simp add: holds_reserved_def)
  from holds_reserved_find [OF held assms(3-6)] obtain i where
    i: "find_static_lease_by_chaddr (cs_static ?st) (m_chaddr old) = Some i" "i < MAX_STATIC_LEASES"
      "l_yiaddr (cs_static ?st ! i) = a" unfolding assms(8) by blast
  obtain l k where dc: "derive_config (cs_config ?st) = Some ((cs_config ?st)\<lparr>sc_lease := l, sc_mask := k\<rparr>)" (is "_ = Some ?c")
    using derive_config_total [of "cs_config ?st"] opts unfolding options_ok_def by blast
  let ?srv = "start_server (server_config_t.truncate ?c) now (unat (sc_max_leases ?c)) bytes (cs_static ?st)"
  have start: "dhcpd_start E path (Some (show_config its)) buffer now bytes server = Some (?c\<lparr>sc_server := server\<rparr>, ?srv)"
    using rc dc by (simp add: dhcpd_start_def Let_def)
  have fx: "map fixed_part (s_static ?srv) = map fixed_part (cs_static ?st)" by (rule start_server_fixed)
  have len: "length (cs_static ?st) = MAX_STATIC_LEASES" using fresh by (simp add: statics_fresh_def)
  then have same: "fixed_part (s_static ?srv ! i) = fixed_part (cs_static ?st ! i)"
    using arg_cong [OF fx, of "\<lambda>xs. xs ! i"] arg_cong [OF fx, of length] i(2) by simp
  have "map static_key (s_static ?srv) = map static_key (cs_static ?st)"
    using arg_cong [OF fx, of "map fst"] by (simp add: fixed_part_def comp_def)
  then have find: "find_static_lease_by_chaddr (s_static ?srv) (m_chaddr old) = Some i" using i(1) by (simp add: find_static_keys)
  have "cs_static ?st ! i \<in> set (cs_static ?st)" using i(2) len by simp
  then have ok: "\<forall>d\<in>set (l_options (s_static ?srv ! i)). option_string_ok d"
    using opts same unfolding options_ok_def fixed_part_def by (metis snd_conv)
  have "l_yiaddr (s_static ?srv ! i) = a" using same i(3) by (simp add: fixed_part_def static_key_def)
  with sendOffer_static [OF find assms(7) ok, of "server_config_t.truncate (?c\<lparr>sc_server := server\<rparr>)" arp tx now'] start
  show ?thesis by metis
qed

theorem reserved_client_offered_witness:
  "\<exists>c srv r d q. dhcpd_start example_env ''conf'' (Some (show_config example_items)) (replicate 153 NUL) 100 [] 0x0A000001 =
     Some (c, srv) \<and>
     sendOffer (server_config_t.truncate c) (\<lambda>a. False) (\<lambda>d q. 0) 100 srv
       (example_message\<lparr>m_chaddr := replicate 6 1 @ replicate 10 0\<rparr>) = Some (r, srv, [(d, q)]) \<and> m_yiaddr q = 0x0A000005"
proof -
  let ?old = "example_message\<lparr>m_chaddr := replicate 6 1 @ replicate 10 0\<rparr>"
  have r: "reservations example_items = [(''tv'', 0x0A000005, replicate 6 1)]" by (simp add: example_items_def)
  have "message_ok ?old" using example_message_ok(1) by (simp add: message_ok_def packet_ok_def)
  from reserved_client_offered [OF example_items_ok, of "replicate 153 NUL" "''tv''" "0x0A000005" "replicate 6 1" ?old
      example_env "''conf''" 100 "[]" "0x0A000001" "\<lambda>a. False" "\<lambda>d q. 0" 100] this
  show ?thesis unfolding r by (simp add: MAX_STATIC_LEASES_def) blast
qed

subsection \<open>An address that cannot be read\<close>

lemma read_static_default: "cs_index st < MAX_STATIC_LEASES \<Longrightarrow> read_static E (def_block []) 0 st = None"
  by (simp add: read_static_def def_block_def strtok_def str_at_def numeral_eq_Suc)

lemma bad_address_line:
  assumes "word_chars host" and "length host \<le> 63" and "token_chars addr" and "length m = 6"
    and "read_ip E (Some addr) = None" and "statics_fresh st" and "cs_index st + 1 < MAX_STATIC_LEASES"
  shows "config_line E (''static '' @ host @ '' '' @ addr @ '' '' @ fmt_mac m @ LF # NUL # r) st = None"
proof -
  let ?v = "host @ CHR '' '' # addr @ CHR '' '' # fmt_mac m"
  let ?b = "''static'' @ NUL # ?v @ NUL # NUL # r"
  have v: "value_chars ?v" using reservation_value assms(1,3,4) by (simp add: token_chars_def)
  have "drop (length ''static'' + 1) ?b = host @ CHR '' '' # addr @ CHR '' '' # fmt_mac m @ NUL # NUL # r" by simp
  from read_static_line [OF this assms(3,1,2,4) _ assms(6) refl, of E] assms(5,7) obtain b' where
    r: "read_static E ?b (length ''static'' + 1) st = Some (False, b', apply_item E (Reservation host (ce_stack E) m) st)" by auto
  have "keyword_result Read_static [] E orig (length ''static'' + 1) ?b st = None" for orig
    unfolding keyword_result_def call_keyword_def handler.case r using assms(7) by (simp add: read_static_default)
  then show ?thesis
    using config_line_eq [OF keyword_ok(1) [OF static_keyword] v, of E r st] try_keywords_one [OF keyword_table_distinct static_keyword]
    by simp
qed

text \<open>C36: a reservation whose address can neither be parsed nor resolved stops the server: after the message about
  the line the handler is called a second time with the empty default, and works on a null pointer. This holds while at
  least one static lease is left for the second call.\<close>

theorem unreadable_reservation_faults:
  assumes "list_all item_ok its" and "length buffer = 153" and "length (reservations its) + 1 < MAX_STATIC_LEASES"
    and "word_chars host" and "length host \<le> 63" and "token_chars addr" and "length addr \<le> 60" and "length m = 6"
    and "read_ip E (Some addr) = None"
  shows "read_config E name (Some (show_config its @ ''static '' @ host @ '' '' @ addr @ '' '' @ fmt_mac m @ [LF] @ rest))
    buffer start_state = None"
proof -
  let ?l = "''static '' @ host @ '' '' @ addr @ '' '' @ fmt_mac m"
  let ?init = "start_state\<lparr>cs_config := default_config (cs_config start_state)\<rparr>" and ?more = "?l @ LF # rest"
  let ?st = "fold (apply_item E) its ?init"
  have fresh: "statics_fresh ?init" using start_state_ok(1) by (simp add: statics_fresh_def)
  have held: "holds_reserved (reservations its) ?st"
    using fold_reserved [OF start_state_ok(2) [of "default_config (cs_config start_state)"], of its E] assms(3) by simp
  from config_loop_prefix [OF assms(1,2) fresh, of E ?more] obtain b where
    b: "config_loop E (show_config its @ ?more) buffer ?init = config_loop E ?more b ?st" "length b = 153" by blast
  have "value_chars (host @ CHR '' '' # addr @ CHR '' '' # fmt_mac m)"
    using reservation_value assms(4,6,8) by (simp add: token_chars_def)
  then have "LF \<notin> set ?l" "length ?l \<le> 151"
    using assms(5,7) fmt_mac_length [OF assms(8)] by (simp_all add: value_chars_def)
  note ch = fgets_chunk_line [OF this, of rest]
  have "blit b 0 (fgets_chunk 153 ?more @ [NUL]) = Some (?l @ LF # NUL # drop (length ?l + 2) b)"
    unfolding ch using b(2) assms(5,7) fmt_mac_length [OF assms(8)] by simp
  moreover have "config_line E (?l @ LF # NUL # drop (length ?l + 2) b) ?st = None"
    using bad_address_line [OF assms(4,5,6,8,9), of ?st "drop (length ?l + 2) b"] held assms(3)
    by (simp add: holds_reserved_def)
  ultimately have "config_loop E ?more b ?st = None" by (subst config_loop.simps) simp
  with b(1) show ?thesis by (simp add: read_config_def read_defaults_eq)
qed

theorem unreadable_reservation_faults_witness:
  "read_config example_env ''conf'' (Some (show_config example_items @ ''static pc 10.0.0.300 '' @ fmt_mac (replicate 6 2) @ [LF]))
    (replicate 153 NUL) start_state = None"
proof -
  have "inet_aton (Some ''10.0.0.300'') = None" by code_simp
  then have "read_ip example_env (Some ''10.0.0.300'') = None" by (simp add: read_ip_def example_env_def)
  moreover have "word_chars ''pc''" "token_chars ''10.0.0.300''" by (simp_all add: word_chars_def token_chars_def)
  moreover have "length (reservations example_items) + 1 < MAX_STATIC_LEASES" by (simp add: example_items_def MAX_STATIC_LEASES_def)
  ultimately show ?thesis
    using unreadable_reservation_faults [OF example_items_ok, of "replicate 153 NUL" "''pc''" "''10.0.0.300''" "replicate 6 2"
        example_env "''conf''" "[]"] by simp
qed

end
