(* ===== verification/Ephp_Exec.thy ===== *)
theory Ephp_Exec
  imports Ephp_Run
begin

text \<open>
  What the interpreter of \<^verbatim>\<open>tools/alpha/xmldb/ephp.c\<close> keeps whatever it executes. The locale \<open>exec_relation\<close> states what a relation between
  states has to satisfy for the primitive effects, and proves once that then every statement, block and page
  satisfies it. It is interpreted for the output (whole blocks of 1024 bytes are written, nothing is lost), for the
  pointers saved by \<^verbatim>\<open>for\<close>, and, for programs that delete nothing, for the values of these pointers. The second part
  shows that more fuel changes nothing, and that programs without \<^verbatim>\<open>require\<close> agree, from a fuel on that is read off the program,
  with an evaluation that has none: a loop ends because the number of its entry is written into eight bytes.
\<close>

subsection \<open>Programs that delete nothing\<close>

fun keeps_nodes :: "sblock_t \<Rightarrow> bool" where
  "keeps_nodes (SB_DEL l) \<longleftrightarrow> False"
| "keeps_nodes (SB_REQUIRE l) \<longleftrightarrow> False"
| "keeps_nodes (SB_IF cs yes no) \<longleftrightarrow> list_all keeps_nodes yes \<and> list_all keeps_nodes no"
| "keeps_nodes (SB_FOR l bs) \<longleftrightarrow> list_all keeps_nodes bs"
| "keeps_nodes _ \<longleftrightarrow> True"

lemma format_error: "(case res of Inl (msg, r) \<Rightarrow> Inl (- 1, b_puts msg st) | Inr (bs, r) \<Rightarrow> Inr bs) = Inl (c, st1) \<Longrightarrow> \<exists>m. st1 = b_puts m st"
  by (cases res) auto

text \<open>A block that is not a list of statements prints a variable or a message.\<close>

lemma check_format_Inl: "check_format al st = Some (Inl (c, st1)) \<Longrightarrow> \<exists>s vs. st1 = b_puts s (st\<lparr>ep_vars := vs\<rparr>)"
proof -
  assume "check_format al st = Some (Inl (c, st1))"
  then have "(\<exists>s. st1 = b_puts s st) \<or> (\<exists>s vs. st1 = b_puts s (st\<lparr>ep_vars := vs\<rparr>))"
    by (auto simp: check_format_def Let_def bind_Some_iff dest!: format_error split: if_split_asm)
  moreover have "st = st\<lparr>ep_vars := ep_vars st\<rparr>" by simp
  ultimately show ?thesis by metis
qed

subsection \<open>The interface\<close>

locale exec_relation =
  fixes dels :: bool and R :: "ephp \<Rightarrow> ephp \<Rightarrow> bool"
  assumes R_refl: "R st st"
    and R_trans: "R st st1 \<Longrightarrow> R st1 st2 \<Longrightarrow> R st st2"
    and R_vars: "R st (st\<lparr>ep_vars := vs\<rparr>)"
    and R_anchor: "R st (st\<lparr>ep_anchor := a\<rparr>)"
    and R_pb: "R st (st\<lparr>ep_pb := pb\<rparr>)"
    and R_putc: "R st (b_putc c st)"
    and R_tree: "R st (st\<lparr>ep_tree := t, ep_notify := ms\<rparr>)"
    and R_freed: "dels \<Longrightarrow> R st (freed_at d (st\<lparr>ep_tree := t\<rparr>))"
    and R_frame: "R (st\<lparr>ep_saved := a # b # ep_saved st\<rparr>) st1 \<Longrightarrow> R st (st1\<lparr>ep_saved := drop 2 (ep_saved st1)\<rparr>)"
begin

lemma R_puts: "R st (b_puts s st)"
  unfolding b_puts_def by (induction s arbitrary: st) (auto intro: R_refl R_trans [OF R_putc])

lemma R_puts_after: "R st st1 \<Longrightarrow> R st (b_puts s st1)"
  by (rule R_trans [OF _ R_puts])

lemma R_convert: "convert_strlst al l st = Some (s, st1) \<Longrightarrow> R st st1"
  by (auto simp: convert_strlst_def bind_Some_iff intro: R_vars)

lemma R_check: "check_condition al ret cs st = Some (r, st1) \<Longrightarrow> R st st1"
proof (induction al ret cs st rule: check_condition.induct)
  case (2 al ret c cs st)
  from "2.prems" obtain op1 sa op2 sb where c: "convert_strlst al (operand1 c) st = Some (op1, sa)"
      "convert_strlst al (operand2 c) sa = Some (op2, sb)" by (auto simp: bind_Some_iff)
  have R: "R st sb" using R_trans [OF R_convert [OF c(1)] R_convert [OF c(2)]] .
  show ?case
  proof (cases "st1 = sb")
    case False
    with "2.prems" c obtain x y where xy: "op1 = Some x" "op2 = Some y"
      "check_condition al (of_bool (holds (c_op c) x y)) cs sb = Some (r, st1)"
      by (auto simp: Let_def split: option.splits if_splits)
    then have "R sb st1" using "2.IH" [OF c(1) refl c(2) refl refl xy(1,2) refl] "2.prems" c False
      by (auto simp: Let_def split: if_splits)
    with R show ?thesis by (rule R_trans)
  qed (use R in simp)
qed (auto intro: R_refl)

lemma R_match: "map_match al v ms st = Some (o', st1) \<Longrightarrow> R st st1"
  by (induction al v ms st rule: map_match.induct)
    (auto simp: bind_Some_iff intro: R_refl R_trans [OF R_convert R_convert] R_trans [OF R_convert] split: if_splits)

lemma R_log_output: "log_output fs f st = Some st1 \<Longrightarrow> R st st1"
  by (induction fs f st rule: log_output.induct)
    (auto simp: Let_def intro: R_refl R_trans [OF R_putc] R_trans [OF R_puts] split: if_splits list.splits)

lemma R_log_lines: "log_lines al format fh st = Some st1 \<Longrightarrow> R st st1"
proof (induction al format fh st rule: log_lines.induct)
  case (1 al format fh st)
  note eq = 1(2) [unfolded log_lines.simps [of al format fh st]]
  from eq obtain line r where l: "lrgbin_get_line_from_file al True fh = Some (line, r)" by (auto simp: bind_Some_iff)
  show ?case
  proof (cases line)
    case None
    with eq l show ?thesis by (auto intro: R_refl)
  next
    case (Some x)
    with eq l obtain fs f sa where s: "log_fields 0 (xmldb_eatwhite x) = Some fs" "format = Some f" "log_output fs f st = Some sa"
        "log_lines al format r (b_putc NL sa) = Some st1" by (auto simp: bind_Some_iff)
    have "R (b_putc NL sa) st1" by (rule 1(1) [OF l refl Some s(1,2,3,4)])
    with R_log_output [OF s(3)] R_putc show ?thesis by (blast intro: R_trans)
  qed
qed

lemma R_anchor_stmt: "execute_anchor al l st = Some (r, st1) \<Longrightarrow> R st st1"
  by (auto simp: execute_anchor_def bind_Some_iff intro: R_convert R_trans [OF R_convert R_anchor] split: option.splits)

lemma R_query: "exec_query al l js st = Some (r, st1) \<Longrightarrow> R st st1"
proof -
  assume eq: "exec_query al l js st = Some (r, st1)"
  then obtain n sa where c: "convert_strlst al l st = Some (n, sa)" by (auto simp: exec_query_def bind_Some_iff)
  with eq have "st1 = sa \<or> (\<exists>w. st1 = b_puts w sa)" by (auto simp: exec_query_def bind_Some_iff split: option.splits)
  with R_convert [OF c] show ?thesis by (auto intro: R_puts_after)
qed

lemma R_del: "dels \<Longrightarrow> execute_del al l st = Some (r, st1) \<Longrightarrow> R st st1"
  by (auto simp: execute_del_def bind_Some_iff intro: R_convert R_trans [OF R_convert R_freed] split: option.splits)

lemma R_set: "execute_set al l1 l2 st = Some (r, st1) \<Longrightarrow> R st st1"
proof -
  assume eq: "execute_set al l1 l2 st = Some (r, st1)"
  then obtain n sa v sb where c: "convert_strlst al l1 st = Some (n, sa)" "convert_strlst al l2 sa = Some (v, sb)"
    by (auto simp: execute_set_def bind_Some_iff)
  have R: "R st sb" using R_trans [OF R_convert [OF c(1)] R_convert [OF c(2)]] .
  with eq c R_trans [OF R R_tree] show ?thesis by (auto simp: execute_set_def bind_Some_iff split: option.splits)
qed

lemma R_echo: "execute_echo al l st = Some (r, st1) \<Longrightarrow> R st st1"
  by (auto simp: execute_echo_def bind_Some_iff intro: R_convert R_trans [OF R_convert R_puts] split: option.splits)

lemma R_assign: "execute_assign al aop n l st = Some (r, st1) \<Longrightarrow> R st st1"
  by (auto simp: execute_assign_def bind_Some_iff intro: R_convert R_trans [OF R_convert R_vars] split: option.splits)

lemma R_map: "execute_map al l d ms st = Some (r, st1) \<Longrightarrow> R st st1"
proof -
  assume eq: "execute_map al l d ms st = Some (r, st1)"
  then obtain n sa where c: "convert_strlst al l st = Some (n, sa)" by (auto simp: execute_map_def bind_Some_iff)
  have 1: "R st sa" by (rule R_convert [OF c])
  show ?thesis
  proof (cases "st1 = sa")
    case False
    with eq c obtain node where n: "n = Some node" by (cases n) (auto simp: execute_map_def)
    with eq c obtain v where q: "query_node al (ep_tree sa) (ep_anchor sa) node False = Some v" by (auto simp: execute_map_def bind_Some_iff)
    with eq c n False obtain w where "v = Some w" by (cases v) (auto simp: execute_map_def)
    with eq c n q obtain out sb out' sc where m: "map_match al w ms sa = Some (out, sb)"
        "(case (out, d) of (None, Some (_, x)) \<Rightarrow> convert_strlst al x sb | _ \<Rightarrow> Some (out, sb)) = Some (out', sc)"
        "st1 = b_puts (case out' of Some t \<Rightarrow> t | None \<Rightarrow> w) sc"
      by (auto simp: execute_map_def bind_Some_iff)
    have "R sb sc" using m(2) by (auto intro: R_refl R_convert split: option.splits)
    with 1 R_match [OF m(1)] have "R st sc" by (blast intro: R_trans)
    then show ?thesis unfolding m(3) by (rule R_puts_after)
  qed (use 1 in simp)
qed

lemma R_inclog: "execute_inclog E f g st = Some (r, st1) \<Longrightarrow> R st st1"
  by (auto simp: execute_inclog_def bind_Some_iff intro: R_refl R_log_lines split: option.splits if_splits)

lemma R_plain: "dels \<or> keeps_nodes b \<Longrightarrow> exec_plain E b st = Some (r, st1) \<Longrightarrow> R st st1"
  by (cases b) (auto simp: exec_plain_def execute_query_def execute_queryjs_def
      intro: R_refl R_anchor_stmt R_query R_del R_set R_echo R_assign R_map R_inclog)

text \<open>The statements with blocks keep the relation when the functions they call do.\<close>

lemma R_if:
  assumes "\<And>l s r s'. dels \<or> list_all keeps_nodes l \<Longrightarrow> run l s = Some (r, s') \<Longrightarrow> R s s'"
    and "dels \<or> list_all keeps_nodes yes \<and> list_all keeps_nodes no" and "execute_if run al cs yes no st = Some (r, st1)"
  shows "R st st1"
proof -
  from assms(3) obtain c sa where c: "check_condition al (-1) cs st = Some (c, sa)" by (auto simp: execute_if_def bind_Some_iff)
  have "R sa st1" using assms c by (auto simp: execute_if_def R_refl split: if_splits)
  with R_check [OF c] show ?thesis by (rule R_trans)
qed

lemma R_for_step:
  assumes "\<And>s r s'. run stmts s = Some (r, s') \<Longrightarrow> R s s'" and "\<And>j s r s'. again j s = Some (r, s') \<Longrightarrow> R s s'"
    and "for_step run again al entry stmts i st = Some (r, st1)"
  shows "R st st1"
proof -
  have step: "R st (st\<lparr>ep_anchor := a, ep_vars := vs\<rparr>)" for a vs using R_trans [OF R_anchor R_vars] .
  consider a where "st1 = st\<lparr>ep_anchor := a\<rparr>" | a vs c sb where "run stmts (st\<lparr>ep_anchor := a, ep_vars := vs\<rparr>) = Some (c, sb)"
      "(if c \<noteq> 0 then Some (c, sb) else again (i + 1) sb) = Some (r, st1)"
    using assms(3) by (auto simp: for_step_def bind_Some_iff split: nptr.splits option.splits if_split_asm)
  then show ?thesis
  proof cases
    case (2 a vs c sb)
    have "R sb st1" using 2(2) assms(2) R_refl by (auto split: if_splits)
    with step assms(1) [OF 2(1)] show ?thesis by (blast intro: R_trans)
  qed (simp add: R_anchor)
qed

lemma R_for:
  assumes "\<And>e i s r s'. loop e i s = Some (r, s') \<Longrightarrow> R s s'" and "execute_for loop al l st = Some (r, st1)"
  shows "R st st1"
proof -
  from assms(2) obtain p sa where c: "convert_strlst al l st = Some (p, sa)" by (auto simp: execute_for_def bind_Some_iff)
  have 1: "R st sa" by (rule R_convert [OF c])
  consider "st1 = sa" | s where "st1 = b_puts s sa" | pnode entry vs sb vs2 where
      "loop entry 1 (sa\<lparr>ep_vars := vs, ep_saved := pnode # ep_anchor sa # ep_saved sa\<rparr>) = Some (r, sb)"
      "st1 = sb\<lparr>ep_vars := vs2, ep_anchor := ep_saved sb ! 1, ep_saved := drop 2 (ep_saved sb)\<rparr>"
    using assms(2) c by (auto simp: execute_for_def bind_Some_iff split: option.splits if_splits)
  then show ?thesis
  proof cases
    case (3 pnode entry vs sb vs2)
    have "R (sa\<lparr>ep_vars := vs\<rparr>) (sb\<lparr>ep_saved := drop 2 (ep_saved sb)\<rparr>)"
      by (rule R_frame [where a = pnode and b = "ep_anchor sa"]) (use assms(1) [OF 3(1)] in simp)
    with R_vars have "R sa (sb\<lparr>ep_saved := drop 2 (ep_saved sb)\<rparr>)" by (rule R_trans)
    from R_trans [OF R_trans [OF this R_vars [of _ vs2]] R_anchor [of _ "ep_saved sb ! 1"]] 3(2) have "R sa st1" by (cases sb) simp
    with 1 show ?thesis by (rule R_trans)
  qed (use 1 R_puts_after in auto)
qed

lemma R_require:
  assumes "\<And>pg s r s'. page pg s = Some (r, s') \<Longrightarrow> R s s'" and "execute_require page E l st = Some (r, st1)"
  shows "R st st1"
  using assms(2) by (auto simp: execute_require_def bind_Some_iff intro: R_convert R_trans [OF R_convert] dest!: assms(1) split: option.splits)

lemma R_block:
  assumes "\<And>l s r s'. dels \<or> list_all keeps_nodes l \<Longrightarrow> run l s = Some (r, s') \<Longrightarrow> R s s'"
    and "\<And>e l i s r s'. dels \<or> list_all keeps_nodes l \<Longrightarrow> loop e l i s = Some (r, s') \<Longrightarrow> R s s'"
    and "\<And>pg s r s'. dels \<Longrightarrow> page pg s = Some (r, s') \<Longrightarrow> R s s'"
    and "dels \<or> keeps_nodes b" and "exec_block run loop page E b st = Some (r, st1)"
  shows "R st st1"
proof (cases b)
  case (SB_IF cs yes no)
  with assms(4,5) show ?thesis by (intro R_if [OF assms(1)]) (auto simp: exec_block_def)
next
  case (SB_FOR l bs)
  with assms(4,5) show ?thesis by (intro R_for [OF assms(2)]) (auto simp: exec_block_def)
next
  case (SB_REQUIRE l)
  with assms(4,5) show ?thesis by (intro R_require [OF assms(3)]) (auto simp: exec_block_def)
qed (use assms(4,5) R_plain [of b] in \<open>auto simp: exec_block_def\<close>)

lemma R_page_step:
  assumes "\<And>l s r s'. run l s = Some (r, s') \<Longrightarrow> R s s'" and "\<And>pg s r s'. page pg s = Some (r, s') \<Longrightarrow> R s s'"
    and "page_step run page E text_b st = Some (r, st1)"
  shows "R st st1"
proof -
  obtain out pb rest where s: "embeded_scan (pe_alloc E) Sc_text (ep_pb st) [] text_b = (out, pb, rest)" by (cases "embeded_scan (pe_alloc E) Sc_text (ep_pb st) [] text_b") auto
  define sa where "sa = b_puts out (st\<lparr>ep_pb := pb\<rparr>)"
  have 1: "R st sa" unfolding sa_def by (rule R_puts_after [OF R_pb])
  show ?thesis
  proof (cases rest)
    case None
    with assms(3) s 1 show ?thesis by (simp add: page_step_def sa_def Let_def)
  next
    case (Some pg)
    with assms(3) s have "Option.bind (check_format (pe_alloc E) sa) (\<lambda>f. Option.bind (case f of Inl x \<Rightarrow> Some x | Inr bs \<Rightarrow> run bs sa)
        (\<lambda>(ret, st1). if ret \<noteq> 0 then Some (ret, st1) else page pg st1)) = Some (r, st1)"
      unfolding sa_def by (simp add: page_step_def Let_def)
    then obtain f c sb where f: "check_format (pe_alloc E) sa = Some f" "(case f of Inl x \<Rightarrow> Some x | Inr bs \<Rightarrow> run bs sa) = Some (c, sb)"
        "(if c \<noteq> 0 then Some (c, sb) else page pg sb) = Some (r, st1)"
      by (auto simp: bind_Some_iff)
    have "R sa sb"
    proof (cases f)
      case (Inl x)
      with f(1,2) show ?thesis by (auto dest!: check_format_Inl intro: R_puts_after [OF R_vars])
    qed (use f(2) assms(1) in auto)
    moreover have "R sb st1" using f(3) assms(2) R_refl by (auto split: if_splits)
    ultimately show ?thesis using 1 by (blast intro: R_trans)
  qed
qed

lemma R_exec:
  "dels \<or> list_all keeps_nodes bs \<Longrightarrow> execute_sblist n E bs st = Some (r, st1) \<Longrightarrow> R st st1"
  "dels \<or> list_all keeps_nodes bs \<Longrightarrow> for_loop n E entry bs i st = Some (r, st1) \<Longrightarrow> R st st1"
  "dels \<Longrightarrow> do_embeded_php n E pg st = Some (r, st1) \<Longrightarrow> R st st1"
proof (induction n arbitrary: bs st r st1 entry i pg)
  case 0
  { case 1 then show ?case by (cases bs) (auto intro: R_refl) }
  { case 2 then show ?case by simp }
  { case 3 then show ?case by simp }
next
  case (Suc n)
  { case 1
    show ?case
    proof (cases bs)
      case Nil
      with 1 show ?thesis by (auto intro: R_refl)
    next
      case (Cons b bs')
      with 1(2) obtain c sa where c: "exec_block (\<lambda>l s. execute_sblist n E l s) (\<lambda>entry l i s. for_loop n E entry l i s)
          (\<lambda>pg s. do_embeded_php n E pg s) E b st = Some (c, sa)" "(if c \<noteq> 0 then Some (c, sa) else execute_sblist n E bs' sa) = Some (r, st1)"
        by (auto simp: bind_Some_iff)
      have "R st sa" by (rule R_block [OF _ _ _ _ c(1)]) (use 1(1) Cons Suc.IH in auto)
      moreover have "R sa st1" using c(2) Suc.IH(1) [of bs' sa r st1] 1(1) Cons by (auto intro: R_refl split: if_splits)
      ultimately show ?thesis by (rule R_trans)
    qed }
  { case 2
    show ?case by (rule R_for_step [OF Suc.IH(1) [OF 2(1)] Suc.IH(2) [OF 2(1)] 2(2) [unfolded for_loop.simps]]) }
  { case 3
    show ?case by (rule R_page_step [OF Suc.IH(1) [OF disjI1 [OF 3(1)]] Suc.IH(3) [OF 3(1)] 3(2) [unfolded do_embeded_php.simps]]) }
qed

end

subsection \<open>The output\<close>

text \<open>What was written and what waits in the buffer; a state is sound when there is room in the buffer.\<close>

definition ep_out :: "ephp \<Rightarrow> char list" where "ep_out st = concat (ep_writes st) @ ep_buffer st"

definition buffer_ok :: "ephp \<Rightarrow> bool" where "buffer_ok st \<longleftrightarrow> length (ep_buffer st) < 1024"

definition writes_on :: "ephp \<Rightarrow> ephp \<Rightarrow> bool" where
  "writes_on st st1 \<longleftrightarrow> (buffer_ok st \<longrightarrow> buffer_ok st1 \<and>
     (\<exists>ws s. ep_writes st1 = ep_writes st @ ws \<and> list_all (\<lambda>w. length w = 1024) ws \<and> ep_out st1 = ep_out st @ s))"

lemma b_putc_out: "buffer_ok st \<Longrightarrow> buffer_ok (b_putc c st) \<and> ep_out (b_putc c st) = ep_out st @ [c] \<and>
    (\<exists>ws. ep_writes (b_putc c st) = ep_writes st @ ws \<and> list_all (\<lambda>w. length w = 1024) ws)"
  by (auto simp: b_putc_def b_flush_def buffer_ok_def ep_out_def Let_def)

lemma b_puts_out: "buffer_ok st \<Longrightarrow> buffer_ok (b_puts s st) \<and> ep_out (b_puts s st) = ep_out st @ s"
  unfolding b_puts_def by (induction s arbitrary: st) (simp_all add: b_putc_out)

lemma b_putc_other:
  "ep_tree (b_putc c st) = ep_tree st" "ep_anchor (b_putc c st) = ep_anchor st" "ep_saved (b_putc c st) = ep_saved st"
  "ep_vars (b_putc c st) = ep_vars st" "ep_pb (b_putc c st) = ep_pb st" "ep_notify (b_putc c st) = ep_notify st"
  by (simp_all add: b_putc_def b_flush_def Let_def)

lemma b_puts_other [simp]:
  "ep_tree (b_puts s st) = ep_tree st" "ep_anchor (b_puts s st) = ep_anchor st" "ep_saved (b_puts s st) = ep_saved st"
  "ep_vars (b_puts s st) = ep_vars st" "ep_pb (b_puts s st) = ep_pb st" "ep_notify (b_puts s st) = ep_notify st"
  unfolding b_puts_def by (induction s arbitrary: st) (simp_all add: b_putc_other)

lemma ep_out_update [simp]:
  "ep_out (st\<lparr>ep_vars := vs\<rparr>) = ep_out st" "ep_out (st\<lparr>ep_anchor := a\<rparr>) = ep_out st" "ep_out (st\<lparr>ep_pb := pb\<rparr>) = ep_out st"
  "ep_out (st\<lparr>ep_tree := t\<rparr>) = ep_out st" "ep_out (st\<lparr>ep_notify := ms\<rparr>) = ep_out st" "ep_out (st\<lparr>ep_saved := ps\<rparr>) = ep_out st"
  "buffer_ok (st\<lparr>ep_vars := vs\<rparr>) = buffer_ok st" "buffer_ok (st\<lparr>ep_anchor := a\<rparr>) = buffer_ok st" "buffer_ok (st\<lparr>ep_pb := pb\<rparr>) = buffer_ok st"
  "buffer_ok (st\<lparr>ep_tree := t\<rparr>) = buffer_ok st" "buffer_ok (st\<lparr>ep_notify := ms\<rparr>) = buffer_ok st" "buffer_ok (st\<lparr>ep_saved := ps\<rparr>) = buffer_ok st"
  by (simp_all add: ep_out_def buffer_ok_def)

lemma freed_at_out [simp]: "ep_out (freed_at d st) = ep_out st" "buffer_ok (freed_at d st) = buffer_ok st" "ep_writes (freed_at d st) = ep_writes st"
  by (simp_all add: freed_at_def split: option.split)

lemma writes_on_same: "ep_writes st1 = ep_writes st \<Longrightarrow> ep_buffer st1 = ep_buffer st \<Longrightarrow> writes_on st st1"
  by (simp add: writes_on_def ep_out_def buffer_ok_def)

interpretation printed: exec_relation True writes_on
proof
  show "writes_on st st2" if "writes_on st st1" "writes_on st1 st2" for st st1 st2
    using that unfolding writes_on_def by (auto simp: append_assoc)
  show "writes_on st (b_putc c st)" for st c
    using b_putc_out [of st c] unfolding writes_on_def by auto
  show "writes_on st (freed_at d (st\<lparr>ep_tree := t\<rparr>))" for st d t
    unfolding writes_on_def by auto
  show "writes_on st (st1\<lparr>ep_saved := drop 2 (ep_saved st1)\<rparr>)" if "writes_on (st\<lparr>ep_saved := a # b # ep_saved st\<rparr>) st1" for st a b st1
    using that unfolding writes_on_def by simp
qed (simp_all add: writes_on_same)

subsection \<open>An example\<close>

definition ephp_example_env :: ephp_env where
  "ephp_example_env = \<lparr>pe_alloc = plenty, pe_files = (\<lambda>_. None), pe_tlogs = False, pe_tlog_text = (\<lambda>_. None)\<rparr>"

definition ephp_example_state :: ephp where
  "ephp_example_state = \<lparr>ep_tree = Xml_node 0 [] None None [Xml_node 0 ''l'' None None [Xml_node 1 ''h'' (Some ''v'') None []]], ep_anchor = Null, ep_saved = [], ep_vars = [],
     ep_buffer = [], ep_writes = [], ep_notify = [], ep_pb = \<lparr>wb_text = [], wb_live = True, wb_alloc = 1024\<rparr>\<rparr>"

subsection \<open>The pointers that are saved\<close>

interpretation stack: exec_relation True "\<lambda>st st1. length (ep_saved st1) = length (ep_saved st)"
  by standard (auto simp: b_putc_other freed_at_def split: option.split)

interpretation frames: exec_relation False "\<lambda>st st1. ep_saved st1 = ep_saved st"
  by standard (auto simp: b_putc_other)

subsection \<open>Variables\<close>

text \<open>The value of a variable, as reading it gives it: a variable that is not there is empty.\<close>

definition var_value :: "nspace \<Rightarrow> char list \<Rightarrow> char list" where
  "var_value vs n = (case find (\<lambda>x. fst x = Some n) vs of None \<Rightarrow> [] | Some x \<Rightarrow> the (snd x))"

definition vars_ok :: "nspace \<Rightarrow> bool" where
  "vars_ok vs \<longleftrightarrow> list_all (\<lambda>(n, v). n \<noteq> None \<and> v \<noteq> None) vs"

definition first_at :: "char list \<Rightarrow> nspace \<Rightarrow> nat \<Rightarrow> bool" where
  "first_at name vs k \<longleftrightarrow> k < length vs \<and> fst (vs ! k) = Some name \<and> (\<forall>j<k. fst (vs ! j) \<noteq> Some name)"

lemma first_at_Suc: "fst x \<noteq> Some name \<Longrightarrow> first_at name vs k \<Longrightarrow> first_at name (x # vs) (Suc k)"
  by (auto simp: first_at_def nth_Cons split: nat.split)

lemma var_pos_ok:
  assumes "vars_ok vs"
  obtains "var_pos name vs = Some None" "find (\<lambda>x. fst x = Some name) vs = None" | k where "var_pos name vs = Some (Some k)" "first_at name vs k"
proof -
  have "var_pos name vs = Some None \<and> find (\<lambda>x. fst x = Some name) vs = None \<or> (\<exists>k. var_pos name vs = Some (Some k) \<and> first_at name vs k)"
    using assms
  proof (induction vs)
    case (Cons x vs)
    obtain n v where "x = (Some n, Some v)" using Cons.prems by (cases x) (auto simp: vars_ok_def)
    with Cons show ?case
      by (cases "n = name") (auto simp: vars_ok_def first_at_Suc first_at_def [where k = 0])
  qed simp
  then show thesis using that by auto
qed

lemma first_at_find: "first_at name vs k \<Longrightarrow> find (\<lambda>x. fst x = Some name) vs = Some (vs ! k)"
  by (auto simp: first_at_def find_Some_iff)

lemma find_update:
  "first_at name vs k \<Longrightarrow> find (\<lambda>x. fst x = Some n) (vs[k := (Some name, y)]) = (if n = name then Some (Some name, y) else find (\<lambda>x. fst x = Some n) vs)"
proof (induction vs arbitrary: k)
  case (Cons x vs)
  show ?case
  proof (cases k)
    case (Suc j)
    with Cons.prems have "fst x \<noteq> Some name" "first_at name vs j" by (auto simp: first_at_def)
    with Suc Cons.IH [of j] show ?thesis by auto
  qed (use Cons.prems in \<open>auto simp: first_at_def\<close>)
qed (simp add: first_at_def)

lemma get_var_value_ok:
  assumes "vars_ok vs"
  shows "\<exists>vs1. get_var_value plenty name vs = Some (var_value vs name, vs1) \<and> vars_ok vs1 \<and> (\<forall>n. var_value vs1 n = var_value vs n)"
  using assms
proof (cases rule: var_pos_ok [of vs name])
  case 1
  with assms show ?thesis by (auto simp: get_var_value_def ephp_get_var_def new_var_def strdup_def var_value_def vars_ok_def Let_def)
next
  case (2 k)
  then have "snd (vs ! k) \<noteq> None" using assms by (auto simp: vars_ok_def list_all_length first_at_def split_beta)
  with 2 assms show ?thesis by (auto simp: get_var_value_def ephp_get_var_def var_value_def first_at_find)
qed

lemma set_var_ok:
  assumes "vars_ok vs"
  shows "\<exists>vs1. ephp_set_var plenty name v vs = Some vs1 \<and> vars_ok vs1 \<and> (\<forall>n. var_value vs1 n = (if n = name then v else var_value vs n))"
  using assms
proof (cases rule: var_pos_ok [of vs name])
  case 1
  with assms show ?thesis by (auto simp: ephp_set_var_def ephp_get_var_def new_var_def strdup_def var_value_def vars_ok_def Let_def)
next
  case (2 k)
  then have "fst (vs ! k) = Some name" by (simp add: first_at_def)
  moreover have "vars_ok (vs[k := (Some name, Some v)])"
    using assms by (auto simp: vars_ok_def list_all_iff dest!: set_update_subset_insert [THEN subsetD])
  ultimately show ?thesis using 2 find_update [OF 2(2), of _ "Some v"] by (auto simp: ephp_set_var_def ephp_get_var_def strdup_def var_value_def)
qed

lemma var_pos_first: "var_pos name vs = Some (Some k) \<Longrightarrow> first_at name vs k"
proof (induction vs arbitrary: k)
  case (Cons x vs)
  then show ?case by (cases x) (auto simp: first_at_Suc first_at_def [where k = 0] split: option.splits if_splits)
qed simp

lemma set_var_value: "ephp_set_var plenty name v vs = Some vs1 \<Longrightarrow> var_value vs1 name = v"
proof -
  assume eq: "ephp_set_var plenty name v vs = Some vs1"
  then obtain i where i: "var_pos name vs = Some i" by (auto simp: ephp_set_var_def ephp_get_var_def bind_Some_iff)
  show ?thesis
  proof (cases i)
    case None
    with eq i show ?thesis by (auto simp: ephp_set_var_def ephp_get_var_def new_var_def strdup_def var_value_def Let_def)
  next
    case (Some k)
    with i have f: "first_at name vs k" using var_pos_first by simp
    then have "fst (vs ! k) = Some name" by (simp add: first_at_def)
    with eq i Some find_update [OF f, of name "Some v"] show ?thesis by (auto simp: ephp_set_var_def ephp_get_var_def strdup_def var_value_def)
  qed
qed

lemma save_num_value: "save_num plenty vs = Some (v, vs1) \<Longrightarrow> vars_ok vs \<Longrightarrow> v = var_value vs ''#''"
proof -
  assume eq: "save_num plenty vs = Some (v, vs1)" and ok: "vars_ok vs"
  from get_var_value_ok [OF ok] obtain vs2 where "get_var_value plenty ''#'' vs = Some (var_value vs ''#'', vs2)" by blast
  then obtain k where "ephp_get_var plenty ''#'' vs = Some (Some k, vs2)" "snd (vs2 ! k) = Some (var_value vs ''#'')"
    by (auto simp: get_var_value_def bind_Some_iff)
  with eq show ?thesis by (simp add: save_num_def split: if_splits)
qed

text \<open>Evaluating a string list changes the value of no variable.\<close>

definition same_vars :: "nspace \<Rightarrow> nspace \<Rightarrow> bool" where
  "same_vars vs vs1 \<longleftrightarrow> vars_ok vs1 \<and> (\<forall>n. var_value vs1 n = var_value vs n)"

lemma same_vars_trans: "same_vars vs vs1 \<Longrightarrow> same_vars vs1 vs2 \<Longrightarrow> same_vars vs vs2"
  by (simp add: same_vars_def)

lemma get_var_value_same: "vars_ok vs \<Longrightarrow> get_var_value plenty name vs = Some (v, vs1) \<Longrightarrow> same_vars vs vs1"
  using get_var_value_ok [of vs name] by (auto simp: same_vars_def)

lemma operand_ok_same [simp]: "operand_ok s vs = Some (t, vs1) \<longleftrightarrow> length s < 511 \<and> t = s \<and> vs1 = vs"
  by (auto simp: operand_ok_def)

lemma conv_same:
  "conv_loop al tree a c final vs l = Some (t, vs1) \<Longrightarrow> al = plenty \<Longrightarrow> vars_ok vs \<Longrightarrow> same_vars vs vs1"
  "conv_entry al tree a vs e = Some (t, vs1) \<Longrightarrow> al = plenty \<Longrightarrow> vars_ok vs \<Longrightarrow> same_vars vs vs1"
proof (induction al tree a c final vs l and al tree a vs e arbitrary: t vs1 and t vs1 rule: conv_loop_conv_entry.induct)
  case (2 al tree a c final vs e es)
  from "2.prems"(1) obtain res va final' where 1: "conv_entry al tree a vs e = Some (res, va)" "apply_op c final res = Some final'"
      "(if sl_op e \<in> set arith_ops then conv_loop al tree a (sl_op e) final' va es else Some (final', va)) = Some (t, vs1)"
    by (auto simp: bind_Some_iff)
  have s: "same_vars vs va" using "2.IH"(1) [OF 1(1) "2.prems"(2,3)] .
  then have ok: "vars_ok va" by (simp add: same_vars_def)
  have "same_vars va vs1"
  proof (cases "sl_op e \<in> set arith_ops")
    case True
    with 1(3) show ?thesis using "2.IH"(2) [OF 1(1) refl 1(2) True _ "2.prems"(2) ok] by simp
  qed (use 1(3) ok in \<open>simp add: same_vars_def\<close>)
  with s show ?case by (rule same_vars_trans)
next
  case (4 al tree a vs s c)
  then show ?case by (auto simp: bind_Some_iff intro: get_var_value_same)
next
  case (5 al tree a vs l c)
  then obtain node where n: "conv_loop al tree a NUL [] vs l = Some (node, vs1)" by (auto simp: bind_Some_iff split: option.splits)
  show ?case by (rule "5.IH" [OF n "5.prems"(2,3)])
next
  case (6 al tree a vs l c)
  then obtain node where n: "conv_loop al tree a NUL [] vs l = Some (node, vs1)" by (auto simp: bind_Some_iff split: option.splits)
  show ?case by (rule "6.IH" [OF n "6.prems"(2,3)])
qed (auto simp: bind_Some_iff same_vars_def)

lemma convert_same:
  "convert_strlst plenty l st = Some (s, st1) \<Longrightarrow> vars_ok (ep_vars st) \<Longrightarrow>
   same_vars (ep_vars st) (ep_vars st1) \<and> ep_anchor st1 = ep_anchor st \<and> ep_saved st1 = ep_saved st \<and> ep_tree st1 = ep_tree st"
  by (auto simp: convert_strlst_def bind_Some_iff intro: conv_same)

subsection \<open>Fuel\<close>

text \<open>An outcome that is at least as defined, and how the constructs of the interpreter respect this.\<close>

definition le_opt :: "'a option \<Rightarrow> 'a option \<Rightarrow> bool" where "le_opt x y \<longleftrightarrow> x = None \<or> x = y"

lemma le_opt_rules:
  "\<lbrakk>le_opt x x'; \<And>a. le_opt (f a) (f' a)\<rbrakk> \<Longrightarrow> le_opt (Option.bind x f) (Option.bind x' f')"
  "\<lbrakk>le_opt y y'; le_opt z z'\<rbrakk> \<Longrightarrow> le_opt (if c then y else z) (if c then y' else z')"
  "\<lbrakk>le_opt y y'; \<And>a. le_opt (g a) (g' a)\<rbrakk> \<Longrightarrow> le_opt (case o' of None \<Rightarrow> y | Some a \<Rightarrow> g a) (case o' of None \<Rightarrow> y' | Some a \<Rightarrow> g' a)"
  "(\<And>a b. le_opt (h a b) (h' a b)) \<Longrightarrow> le_opt (case p of (a, b) \<Rightarrow> h a b) (case p of (a, b) \<Rightarrow> h' a b)"
  "\<lbrakk>\<And>a. le_opt (k a) (k' a); \<And>b. le_opt (m b) (m' b)\<rbrakk> \<Longrightarrow> le_opt (case s of Inl a \<Rightarrow> k a | Inr b \<Rightarrow> m b) (case s of Inl a \<Rightarrow> k' a | Inr b \<Rightarrow> m' b)"
  "\<lbrakk>le_opt u u'; \<And>q. le_opt (v q) (v' q); le_opt w w'\<rbrakk> \<Longrightarrow> le_opt (case n of Null \<Rightarrow> u | Node q \<Rightarrow> v q | Dangling \<Rightarrow> w) (case n of Null \<Rightarrow> u' | Node q \<Rightarrow> v' q | Dangling \<Rightarrow> w')"
  "le_opt x x"
  by (cases x; cases x'; auto simp: le_opt_def split: option.split prod.split sum.split nptr.split)+

lemma le_opt_Some: "le_opt x y \<Longrightarrow> x = Some z \<Longrightarrow> y = Some z"
  by (simp add: le_opt_def)

lemma exec_block_mono:
  assumes "\<And>l s. le_opt (run l s) (run' l s)" and "\<And>e l i s. le_opt (loop e l i s) (loop' e l i s)" and "\<And>pg s. le_opt (page pg s) (page' pg s)"
  shows "le_opt (exec_block run loop page E b st) (exec_block run' loop' page' E b st)"
  by (cases b) (simp_all add: exec_block_def execute_if_def execute_for_def execute_require_def, (rule assms le_opt_rules)+)

lemma for_step_mono:
  assumes "\<And>l s. le_opt (run l s) (run' l s)" and "\<And>j s. le_opt (again j s) (again' j s)"
  shows "le_opt (for_step run again al entry stmts i st) (for_step run' again' al entry stmts i st)"
  unfolding for_step_def by (rule assms le_opt_rules)+

lemma page_step_mono:
  assumes "\<And>l s. le_opt (run l s) (run' l s)" and "\<And>pg s. le_opt (page pg s) (page' pg s)"
  shows "le_opt (page_step run page E text_b st) (page_step run' page' E text_b st)"
  unfolding page_step_def Let_def by (rule assms le_opt_rules)+

lemma fuel_Suc:
  "le_opt (execute_sblist n E bs st) (execute_sblist (Suc n) E bs st)"
  "le_opt (for_loop n E entry bs i st) (for_loop (Suc n) E entry bs i st)"
  "le_opt (do_embeded_php n E pg st) (do_embeded_php (Suc n) E pg st)"
proof (induction n arbitrary: bs st entry i pg)
  case 0
  { case 1 show ?case by (cases bs) (simp_all add: le_opt_def) }
  { case 2 show ?case by (simp add: le_opt_def) }
  { case 3 show ?case by (simp add: le_opt_def) }
next
  case (Suc n)
  { case 1
    show ?case
    proof (cases bs)
      case (Cons b bs')
      show ?thesis unfolding Cons execute_sblist.simps(3) by (rule exec_block_mono Suc.IH le_opt_rules)+
    qed (simp add: le_opt_def) }
  { case 2
    show ?case unfolding for_loop.simps(2) [of n E entry bs i st] for_loop.simps(2) [of "Suc n" E entry bs i st] by (intro for_step_mono Suc.IH) }
  { case 3
    show ?case unfolding do_embeded_php.simps(2) [of n E pg st] do_embeded_php.simps(2) [of "Suc n" E pg st] by (intro page_step_mono Suc.IH) }
qed

lemma fuel_mono:
  assumes "n \<le> m"
  shows "execute_sblist n E bs st = Some y \<Longrightarrow> execute_sblist m E bs st = Some y"
    and "do_embeded_php n E pg st = Some y \<Longrightarrow> do_embeded_php m E pg st = Some y"
  using assms by (induction rule: dec_induct) (auto intro: le_opt_Some [OF fuel_Suc(1)] le_opt_Some [OF fuel_Suc(3)] simp del: execute_sblist.simps do_embeded_php.simps)

subsection \<open>Evaluation without fuel\<close>

text \<open>The number of an entry has to fit into eight bytes, so a loop has less than ten million rounds.\<close>

lemma decimal_longer: "10 ^ k \<le> n \<Longrightarrow> k < length (decimal n)"
proof (induction k arbitrary: n)
  case 0
  show ?case by (subst decimal.simps) simp
next
  case (Suc k)
  have "(10 :: nat) \<le> 10 * 10 ^ k" by simp
  with Suc.prems have "10 ^ k \<le> n div 10" "\<not> n < 10" unfolding power_Suc by linarith+
  with Suc.IH [of "n div 10"] show ?case by (subst decimal.simps) simp
qed

lemma itoa_short: "length (itoa i) < 8 \<Longrightarrow> i < 10 ^ 7"
proof (rule ccontr)
  assume l: "length (itoa i) < 8" and "\<not> i < 10 ^ 7"
  then have "10 ^ 7 \<le> nat i" by (simp add: nat_le_iff)
  from decimal_longer [OF this] l \<open>\<not> i < 10 ^ 7\<close> show False by (simp add: itoa_def)
qed

function run_entries :: "(ephp \<Rightarrow> outcome) \<Rightarrow> alloc \<Rightarrow> char list \<Rightarrow> int \<Rightarrow> ephp \<Rightarrow> outcome" where
  "run_entries run al entry i st = (case ep_saved st ! 0 of
       Node q \<Rightarrow> Option.bind (node_at (ep_tree st) q) (\<lambda>nd. case sibling (node_child nd) entry i of
           None \<Rightarrow> Some (0, st\<lparr>ep_anchor := Null\<rparr>)
         | Some k \<Rightarrow> if length (itoa i) \<ge> 8 then None
             else Option.bind (ephp_set_var al ''#'' (itoa i) (ep_vars st)) (\<lambda>vs.
               Option.bind (run (st\<lparr>ep_anchor := Node (q @ [k]), ep_vars := vs\<rparr>)) (\<lambda>(ret, st1).
                 if ret \<noteq> 0 then Some (ret, st1) else run_entries run al entry (i + 1) st1)))
     | _ \<Rightarrow> None)"
  by pat_completeness auto
termination by (relation "measure (\<lambda>(run, al, entry, i, st). nat (10 ^ 7 - i))") (auto simp: not_le dest!: itoa_short)

declare run_entries.simps [simp del]

text \<open>Statements by structural recursion, without fuel. What a required page does is not described: \<^verbatim>\<open>require\<close> gives no result.\<close>

fun run_list :: "ephp_env \<Rightarrow> sblock_t list \<Rightarrow> ephp \<Rightarrow> outcome"
and run_block :: "ephp_env \<Rightarrow> sblock_t \<Rightarrow> ephp \<Rightarrow> outcome"
where
  "run_list E [] st = Some (0, st)"
| "run_list E (b # bs) st = Option.bind (run_block E b st) (\<lambda>(ret, st1). if ret \<noteq> 0 then Some (ret, st1) else run_list E bs st1)"
| "run_block E (SB_IF cs yes no) st = Option.bind (check_condition (pe_alloc E) (-1) cs st) (\<lambda>(ret, st1).
     if ret < 0 then Some (-1, st1) else if ret \<noteq> 0 then run_list E yes st1 else run_list E no st1)"
| "run_block E (SB_FOR l bs) st = execute_for (run_entries (\<lambda>s. run_list E bs s) (pe_alloc E)) (pe_alloc E) l st"
| "run_block E b st = exec_plain E b st"

fun no_require :: "sblock_t \<Rightarrow> bool" where
  "no_require (SB_FOR l bs) \<longleftrightarrow> list_all no_require bs"
| "no_require (SB_REQUIRE l) \<longleftrightarrow> False"
| "no_require (SB_IF cs yes no) \<longleftrightarrow> list_all no_require yes \<and> list_all no_require no"
| "no_require _ \<longleftrightarrow> True"

text \<open>The fuel such a program needs.\<close>

fun cost_list :: "sblock_t list \<Rightarrow> nat" and cost_block :: "sblock_t \<Rightarrow> nat" where
  "cost_list [] = 0"
| "cost_list (b # bs) = Suc (max (cost_block b) (cost_list bs))"
| "cost_block (SB_IF cs yes no) = max (cost_list yes) (cost_list no)"
| "cost_block (SB_FOR l bs) = 10 ^ 7 + cost_list bs"
| "cost_block b = 0"

lemma run_entries_step:
  "run_entries run al entry i st = for_step (\<lambda>_ s. run s) (\<lambda>j s. run_entries run al entry j s) al entry bs i st"
  by (subst run_entries.simps) (simp add: for_step_def)

text \<open>A round that is not the last one has a number below ten million, so that what follows it needs less fuel.\<close>

lemma for_step_cong:
  assumes "\<And>s. run bs s = run' bs s" and "\<And>s. i < 10 ^ 7 \<Longrightarrow> again (i + 1) s = again' (i + 1) s"
  shows "for_step run again al entry bs i st = for_step run' again' al entry bs i st"
proof (cases "length (itoa i) \<ge> 8")
  case False
  then have "again (i + 1) s = again' (i + 1) s" for s using assms(2) itoa_short by simp
  then show ?thesis unfolding for_step_def assms(1) by presburger
qed (simp add: for_step_def cong: if_cong option.case_cong nptr.case_cong)

lemma execute_for_cong:
  assumes "\<And>entry s. loop entry 1 s = loop' entry 1 s"
  shows "execute_for loop al l st = execute_for loop' al l st"
  unfolding execute_for_def assms ..

lemma no_require_exec:
  "list_all no_require bs \<Longrightarrow> cost_list bs \<le> n \<Longrightarrow> execute_sblist n E bs st = run_list E bs st"
  "list_all no_require bs \<Longrightarrow> Suc (nat (10 ^ 7 - i)) + cost_list bs \<le> n \<Longrightarrow>
   for_loop n E entry bs i st = run_entries (\<lambda>s. run_list E bs s) (pe_alloc E) entry i st"
proof (induction n arbitrary: bs st i entry)
  case 0
  { case 1 then show ?case by (cases bs) simp_all }
  { case 2 then show ?case by simp }
next
  case (Suc n)
  { case 1
    show ?case
    proof (cases bs)
      case (Cons b bs')
      have "exec_block (\<lambda>l s. execute_sblist n E l s) (\<lambda>entry l i s. for_loop n E entry l i s) (\<lambda>pg s. do_embeded_php n E pg s) E b st = run_block E b st"
      proof (cases b)
        case (SB_IF cs yes no)
        with 1 Cons have "list_all no_require yes" "list_all no_require no" "cost_list yes \<le> n" "cost_list no \<le> n" by auto
        with SB_IF show ?thesis
          by (cases "check_condition (pe_alloc E) (- 1) cs st") (auto simp: exec_block_def execute_if_def Suc.IH)
      next
        case (SB_FOR l stmts)
        with 1 Cons have "for_loop n E entry stmts 1 s = run_entries (\<lambda>s. run_list E stmts s) (pe_alloc E) entry 1 s" for entry s
          by (intro Suc.IH(2)) auto
        then have "execute_for (\<lambda>entry i s. for_loop n E entry stmts i s) (pe_alloc E) l st = run_block E b st"
          unfolding SB_FOR run_block.simps by (rule execute_for_cong)
        with SB_FOR show ?thesis by (simp add: exec_block_def)
      qed (use 1 Cons in \<open>auto simp: exec_block_def\<close>)
      moreover have "execute_sblist n E bs' s = run_list E bs' s" for s using Suc.IH(1) 1 Cons by simp
      ultimately show ?thesis using Cons by (cases "run_block E b st") auto
    qed simp }
  { case 2
    have "for_loop n E entry bs (i + 1) s = run_entries (\<lambda>s. run_list E bs s) (pe_alloc E) entry (i + 1) s" if "i < 10 ^ 7" for s
      using 2 that by (intro Suc.IH(2)) simp_all
    moreover have "execute_sblist n E bs s = run_list E bs s" for s using 2 by (intro Suc.IH(1)) simp_all
    ultimately show ?case
      unfolding for_loop.simps run_entries_step [of _ _ entry i st bs] by (intro for_step_cong) simp_all }
qed

text \<open>A program without \<^verbatim>\<open>require\<close> always ends: with the fuel \<open>cost_list\<close> the interpreter agrees, in result, state and
  faults, with the evaluation that has no fuel at all, and with any larger fuel the result is the same.\<close>

theorem ephp_program_ends:
  assumes "list_all no_require bs"
  shows "execute_sblist (cost_list bs + k) E bs st = run_list E bs st"
  by (rule no_require_exec(1) [OF assms]) simp

theorem ephp_program_ends_witness:
  "execute_sblist (cost_list [SB_ECHO [ST_STR (Some ''x'') NUL], SB_EXIT] + 5) ephp_example_env [SB_ECHO [ST_STR (Some ''x'') NUL], SB_EXIT] ephp_example_state =
   run_list ephp_example_env [SB_ECHO [ST_STR (Some ''x'') NUL], SB_EXIT] ephp_example_state"
  by (rule ephp_program_ends) simp

subsection \<open>Loops\<close>

lemma keeps_nodes_no_require: "keeps_nodes b \<Longrightarrow> no_require b"
  by (induction b rule: keeps_nodes.induct) (auto simp: list_all_iff)

lemma for_frame:
  assumes "execute_sblist n E [SB_FOR l bs] st = Some (r, st1)" and "list_all keeps_nodes bs" and "pe_alloc E = plenty" and "vars_ok (ep_vars st)"
  shows "ep_anchor st1 = ep_anchor st \<and> ep_saved st1 = ep_saved st \<and> var_value (ep_vars st1) ''#'' = var_value (ep_vars st) ''#''"
proof -
  from assms(1) obtain m where n: "n = Suc m" by (cases n) auto
  with assms(1,3) have "execute_for (\<lambda>entry i s. for_loop m E entry bs i s) plenty l st = Some (r, st1)"
    by (auto simp: exec_block_def bind_Some_iff split: if_splits)
  then obtain p sa where c: "convert_strlst plenty l st = Some (Some p, sa)"
    and eq: "execute_for (\<lambda>entry i s. for_loop m E entry bs i s) plenty l st = Some (r, st1)"
    by (auto simp: execute_for_def convert_strlst_def strdup_def bind_Some_iff)
  have sa: "same_vars (ep_vars st) (ep_vars sa)" "ep_anchor sa = ep_anchor st" "ep_saved sa = ep_saved st"
    using convert_same [OF c assms(4)] by simp_all
  consider "st1 = sa" | pnode entry oldnum vs sb vs2 where "save_num plenty (ep_vars sa) = Some (oldnum, vs)"
      "for_loop m E entry bs 1 (sa\<lparr>ep_vars := vs, ep_saved := pnode # ep_anchor sa # ep_saved sa\<rparr>) = Some (r, sb)"
      "ephp_set_var plenty ''#'' oldnum (ep_vars sb) = Some vs2"
      "st1 = sb\<lparr>ep_vars := vs2, ep_anchor := ep_saved sb ! 1, ep_saved := drop 2 (ep_saved sb)\<rparr>"
    using eq c by (auto simp: execute_for_def bind_Some_iff split: if_splits)
  then show ?thesis
  proof cases
    case 1
    with sa show ?thesis by (simp add: same_vars_def)
  next
    case s: (2 pnode entry oldnum vs sb vs2)
    have "ep_saved sb = pnode # ep_anchor sa # ep_saved sa" using frames.R_exec(2) [OF _ s(2)] assms(2) by simp
    then show ?thesis using s(4) set_var_value [OF s(3)] save_num_value [OF s(1)] sa by (simp add: same_vars_def)
  qed
qed

text \<open>C23: A \<^verbatim>\<open>for\<close> statement whose body, at any depth, neither deletes a node nor requires a page always ends, when memory is available and every variable has a name and a value: with the fuel for ten
  million rounds and one pass through the body, or with more, the interpreter does exactly what the evaluation without
  fuel does, so that there is a result unless the code faults. When there is one, the anchor, the variable \<^verbatim>\<open>$#\<close>
  with the number of the entry, and the pointers of the loops around are as the statement found them, however often the body
  ran, whatever anchors it set, whatever entries it created and however it was left.\<close>

theorem ephp_for_restores:
  assumes "list_all keeps_nodes bs" and "pe_alloc E = plenty" and "vars_ok (ep_vars st)" and "10 ^ 7 + cost_list bs < n"
  shows "execute_sblist n E [SB_FOR l bs] st = run_list E [SB_FOR l bs] st \<and>
    (\<forall>r st1. run_list E [SB_FOR l bs] st = Some (r, st1) \<longrightarrow>
      ep_anchor st1 = ep_anchor st \<and> ep_saved st1 = ep_saved st \<and> var_value (ep_vars st1) ''#'' = var_value (ep_vars st) ''#'')"
proof -
  have "list_all no_require [SB_FOR l bs]" using assms(1) by (auto simp: list_all_iff keeps_nodes_no_require)
  then have "execute_sblist n E [SB_FOR l bs] st = run_list E [SB_FOR l bs] st" using assms(4) by (intro no_require_exec) simp_all
  with for_frame [OF _ assms(1-3), of n l] show ?thesis by metis
qed

theorem ephp_for_restores_witness:
  "\<exists>st1. execute_sblist (10 ^ 7 + 3) ephp_example_env [SB_FOR [ST_STR (Some ''/l/h'') NUL] [SB_ECHO [ST_VAR (Some ''#'') NUL], SB_ANCHOR [ST_STR (Some ''/x'') NUL]]] ephp_example_state = Some (0, st1) \<and>
     ep_out st1 = ''1'' \<and> ep_anchor st1 = ep_anchor ephp_example_state \<and> ep_saved st1 = ep_saved ephp_example_state \<and>
     var_value (ep_vars st1) ''#'' = var_value (ep_vars ephp_example_state) ''#''"
proof -
  let ?bs = "[SB_ECHO [ST_VAR (Some ''#'') NUL], SB_ANCHOR [ST_STR (Some ''/x'') NUL]]" let ?l = "[ST_STR (Some ''/l/h'') NUL]"
  have "map_option (\<lambda>(r, s). (r, ep_out s)) (run_list ephp_example_env [SB_FOR ?l ?bs] ephp_example_state) = Some (0, ''1'')" by code_simp
  then obtain st1 where x: "run_list ephp_example_env [SB_FOR ?l ?bs] ephp_example_state = Some (0, st1)" "ep_out st1 = ''1''" by auto
  from ephp_for_restores [of ?bs ephp_example_env ephp_example_state "10 ^ 7 + 3" ?l] x show ?thesis
    by (auto simp: ephp_example_env_def ephp_example_state_def vars_ok_def simp del: run_list.simps execute_sblist.simps)
qed

subsection \<open>Pages without fuel\<close>

lemma scan_shorter: "embeded_scan al s pb t pg = (t', pb', Some rest) \<Longrightarrow> length rest < length pg"
  by (induction al s pb t pg rule: embeded_scan.induct) (auto split: list.splits if_splits)

text \<open>Any text as a page: blocks with a \<^verbatim>\<open>require\<close> are given no result.\<close>

function eval_page :: "ephp_env \<Rightarrow> char list \<Rightarrow> ephp \<Rightarrow> outcome" where
  "eval_page E pg st = (case embeded_scan (pe_alloc E) Sc_text (ep_pb st) [] pg of (t, pb, rest) \<Rightarrow>
     case rest of
       None \<Rightarrow> Some (0, b_puts t (st\<lparr>ep_pb := pb\<rparr>))
     | Some pg' \<Rightarrow> Option.bind (check_format (pe_alloc E) (b_puts t (st\<lparr>ep_pb := pb\<rparr>))) (\<lambda>f.
         Option.bind (case f of Inl x \<Rightarrow> Some x
             | Inr bs \<Rightarrow> if list_all no_require bs then run_list E bs (b_puts t (st\<lparr>ep_pb := pb\<rparr>)) else None) (\<lambda>(ret, st1).
           if ret \<noteq> 0 then Some (ret, st1) else eval_page E pg' st1)))"
  by pat_completeness auto
termination by (relation "measure (\<lambda>(E, pg, st). length pg)") (auto dest: scan_shorter [OF sym])

declare eval_page.simps [simp del]

lemma eval_page_fuel: "eval_page E pg st = Some y \<Longrightarrow> \<exists>n. do_embeded_php n E pg st = Some y"
proof (induction E pg st rule: eval_page.induct)
  case (1 E pg st)
  obtain t pb rest where s: "embeded_scan (pe_alloc E) Sc_text (ep_pb st) [] pg = (t, pb, rest)" by (metis prod_cases3)
  note eq = "1.prems" [unfolded eval_page.simps [of E pg st]]
  let ?st = "b_puts t (st\<lparr>ep_pb := pb\<rparr>)"
  show ?case
  proof (cases rest)
    case None
    with eq s show ?thesis by (intro exI [of _ "Suc 0"]) (simp add: page_step_def)
  next
    case (Some pg')
    let ?r = "\<lambda>f. case f of Inl x \<Rightarrow> Some x | Inr bs \<Rightarrow> if list_all no_require bs then run_list E bs ?st else None"
    from eq s Some obtain f ret st1 where f: "check_format (pe_alloc E) ?st = Some f" "?r f = Some (ret, st1)"
        "(if ret \<noteq> 0 then Some (ret, st1) else eval_page E pg' st1) = Some y" by (auto simp: bind_Some_iff)
    define m where "m = (case f of Inl _ \<Rightarrow> 0 | Inr bs \<Rightarrow> cost_list bs)"
    have run: "(case f of Inl x \<Rightarrow> Some x | Inr bs \<Rightarrow> execute_sblist n E bs ?st) = Some (ret, st1)" if "m \<le> n" for n
      using f(2) that by (cases f) (auto simp: m_def no_require_exec split: if_splits)
    have "\<exists>k. ret = 0 \<longrightarrow> do_embeded_php k E pg' st1 = Some y"
      using "1.IH" [OF s [symmetric] refl Some f(1) f(2) refl] f(3) by auto
    then obtain k where k: "ret = 0 \<longrightarrow> do_embeded_php k E pg' st1 = Some y" by blast
    have "do_embeded_php (Suc (max m k)) E pg st = Some y"
      using s Some f(1,3) run [of "max m k"] k fuel_mono(2) [of k "max m k" E pg' st1 y]
      by (auto simp: page_step_def Let_def split: if_splits)
    then show ?thesis ..
  qed
qed

text \<open>C22: Whatever the text of a page is, with whatever database, variables, files and allocator, as long as it needs no \<^verbatim>\<open>require\<close>
  and the code does not fault (\<open>eval_page\<close>, which has no fuel, gives a result): with enough fuel the interpreter returns this
  result, what was printed before stays as it was and is only added to, everything that was written
  meanwhile was written in blocks of exactly 1024 bytes, the rest waits in the buffer, and the buffer is not full.\<close>

theorem ephp_output:
  assumes "eval_page E pg st = Some (r, st1)" and "buffer_ok st"
  shows "(\<exists>n. \<forall>m\<ge>n. do_embeded_php m E pg st = Some (r, st1)) \<and> buffer_ok st1 \<and>
    (\<exists>ws s. ep_writes st1 = ep_writes st @ ws \<and> list_all (\<lambda>w. length w = 1024) ws \<and> ep_out st1 = ep_out st @ s)"
proof -
  obtain n where n: "do_embeded_php n E pg st = Some (r, st1)" using eval_page_fuel [OF assms(1)] by blast
  with fuel_mono(2) [OF _ n] printed.R_exec(3) [OF _ n] assms(2) show ?thesis by (auto simp: writes_on_def)
qed

theorem ephp_output_witness:
  "\<exists>st1 n. do_embeded_php n ephp_example_env ''a<b<?for(\"/l/h\"){echo $#;}?>c'' ephp_example_state = Some (0, st1) \<and> buffer_ok st1 \<and> ep_out st1 = ''a<b1c''"
proof -
  have "map_option (\<lambda>(r, s). (r, ep_out s)) (eval_page ephp_example_env ''a<b<?for(\"/l/h\"){echo $#;}?>c'' ephp_example_state) = Some (0, ''a<b1c'')" by code_simp
  then obtain st1 where x: "eval_page ephp_example_env ''a<b<?for(\"/l/h\"){echo $#;}?>c'' ephp_example_state = Some (0, st1)" "ep_out st1 = ''a<b1c''" by auto
  have b: "buffer_ok ephp_example_state" by (simp add: buffer_ok_def ephp_example_state_def)
  from ephp_output [OF x(1) b] x(2) show ?thesis by auto
qed

end
