(* ===== verification/Ephp_Print.thy ===== *)
theory Ephp_Print
  imports Ephp_Parse
begin

text \<open>
  The concrete syntax of the template language of \<^verbatim>\<open>tools/alpha/xmldb/ephp.c\<close>, as the inverse of the parser: a printer for string lists
  and statements, the statements that can be written down (\<open>block_ok\<close>), and the proof that \<^verbatim>\<open>parse_ephp\<close> reads back
  exactly the statements that were printed. The last part is about an \<^verbatim>\<open>else\<close> that is followed by a plain statement.
\<close>

subsection \<open>Printing string lists\<close>

fun escape :: "char list \<Rightarrow> char list" where
  "escape [] = []"
| "escape (c # s) = (if c = QUOT \<or> c = BSL then [BSL, c] else [c]) @ escape s"

definition quoted :: "char list \<Rightarrow> char list" where "quoted s = [QUOT] @ escape s @ [QUOT]"

definition show_op :: "char \<Rightarrow> char list" where "show_op c = (if c = NUL then [] else [c])"

fun show_entry :: "strlist_t \<Rightarrow> char list" where
  "show_entry (ST_STR s c) = quoted (the s) @ show_op c"
| "show_entry (ST_VAR s c) = CHR ''$'' # the s @ show_op c"
| "show_entry (ST_QUERY l c) = ''query('' @ concat (map show_entry l) @ '')'' @ show_op c"
| "show_entry (ST_QUERYJS l c) = ''queryjs('' @ concat (map show_entry l) @ '')'' @ show_op c"

definition show_strlst :: "strlist_t list \<Rightarrow> char list" where "show_strlst l = concat (map show_entry l)"

subsection \<open>The string lists that can be written\<close>

fun entry_op :: "strlist_t \<Rightarrow> char" where
  "entry_op (ST_STR s c) = c"
| "entry_op (ST_VAR s c) = c"
| "entry_op (ST_QUERY l c) = c"
| "entry_op (ST_QUERYJS l c) = c"

text \<open>Every entry but the last is followed by an operator.\<close>

definition ops_ok :: "char list \<Rightarrow> char list \<Rightarrow> bool" where
  "ops_ok ops cs \<longleftrightarrow> cs \<noteq> [] \<and> last cs = NUL \<and> set (butlast cs) \<subseteq> set ops"

definition name_ok :: "char list \<Rightarrow> char list \<Rightarrow> bool" where
  "name_ok stop n \<longleftrightarrow> length n + 1 < MAX_STRING_LEN \<and> list_all (\<lambda>c. \<not> IS_WHITE c \<and> c \<notin> set stop) n"

definition str_ok :: "char list \<Rightarrow> bool" where
  "str_ok s \<longleftrightarrow> length s < MAX_STRING_LEN \<and> NUL \<notin> set s"

fun entry_ok :: "char list \<Rightarrow> strlist_t \<Rightarrow> bool" where
  "entry_ok marks (ST_STR s c) \<longleftrightarrow> (case s of None \<Rightarrow> False | Some t \<Rightarrow> str_ok t)"
| "entry_ok marks (ST_VAR s c) \<longleftrightarrow> (case s of None \<Rightarrow> False | Some t \<Rightarrow> name_ok marks t)"
| "entry_ok marks (ST_QUERY l c) \<longleftrightarrow> list_all (entry_ok ''.)'') l \<and> ops_ok ''.'' (map entry_op l)"
| "entry_ok marks (ST_QUERYJS l c) \<longleftrightarrow> list_all (entry_ok ''.)'') l \<and> ops_ok ''.'' (map entry_op l)"

definition strlst_ok :: "char list \<Rightarrow> char list \<Rightarrow> strlist_t list \<Rightarrow> bool" where
  "strlst_ok ops stop l \<longleftrightarrow> list_all (entry_ok (ops @ stop)) l \<and> ops_ok ops (map entry_op l)"

text \<open>Operators and stop characters are told apart, and neither is white space or the end of the text.\<close>

definition marks_ok :: "char list \<Rightarrow> char list \<Rightarrow> bool" where
  "marks_ok ops stop \<longleftrightarrow> list_all (\<lambda>c. \<not> IS_WHITE c \<and> c \<noteq> NUL \<and> c \<notin> set stop) ops \<and> list_all (\<lambda>c. \<not> IS_WHITE c) stop"

subsection \<open>Reading them back\<close>

lemma quoted_ex_escape:
  "length acc + length s < MAX_STRING_LEN \<Longrightarrow> quoted_ex acc (escape s @ QUOT # r) = Some (acc @ s, Some r)"
  by (induction s arbitrary: acc) auto

lemma read_quoted_ex: "str_ok s \<Longrightarrow> read_string_ex (quoted s @ r) stop = Some (s, True, r)"
  by (simp add: read_string_ex_def quoted_def quoted_ex_escape str_ok_def)

lemma eatwhite_nonwhite: "\<not> IS_WHITE c \<Longrightarrow> xmldb_eatwhite (c # s) = c # s"
  by (simp add: xmldb_eatwhite_def)

lemma takeWhile_stop: "list_all P s \<Longrightarrow> \<not> P d \<Longrightarrow> takeWhile P (s @ d # r) = s \<and> dropWhile P (s @ d # r) = d # r"
  by (induction s) auto

lemma read_name:
  assumes "name_ok stop n" and "d \<in> set stop" and "CHR ''$'' \<notin> set stop"
  shows "read_string_ex (CHR ''$'' # n @ d # r) stop = Some (CHR ''$'' # n, False, d # r)"
proof -
  let ?P = "\<lambda>c. \<not> IS_WHITE c \<and> c \<notin> set stop"
  have "list_all ?P (CHR ''$'' # n)" using assms by (simp add: name_ok_def IS_WHITE_def)
  from takeWhile_stop [OF this, of d r] assms show ?thesis by (auto simp: read_string_ex_def name_ok_def)
qed

text \<open>The part of the loop of \<^verbatim>\<open>read_strlst\<close> that reads one entry.\<close>

definition entry_of :: "alloc \<Rightarrow> char list \<Rightarrow> char list \<Rightarrow> (char list + ((char \<Rightarrow> strlist_t) \<times> char list)) option" where
  "entry_of al marks cur =
     (if is_query cur then
        (if query_text cur = [] \<or> hd (query_text cur) \<noteq> CHR ''('' then Some (Inl (query_text cur))
         else Option.bind (read_strlst al ''.'' '')'' (xmldb_eatwhite (tl (query_text cur)))) (\<lambda>res. Some (close_query (is_queryjs cur) res)))
      else token_entry al marks cur)"

lemma strlst_loop_step:
  assumes "entry_of al (ops @ stop) (c # s) = Some (Inr (e, d # r))" and "\<not> IS_WHITE c" and "\<not> IS_WHITE d" and "al SIZEOF_STRLIST"
  shows "strlst_loop al ops stop m (c # s) = (if d \<in> set stop then Some (Inr ([e NUL], d # r))
    else Option.bind (strlst_loop al ops stop m r) (\<lambda>x. case x of Inl r2 \<Rightarrow> Some (Inl r2) | Inr (l, r2) \<Rightarrow> Some (Inr (e d # l, r2))))"
proof -
  have "(if is_query (c # s) then
       (if query_text (c # s) = [] \<or> hd (query_text (c # s)) \<noteq> CHR ''('' then Some (Inl (query_text (c # s)))
        else Option.bind (strlst_loop al ''.'' '')'' (xmldb_eatwhite (tl (query_text (c # s)))) (xmldb_eatwhite (tl (query_text (c # s)))))
          (\<lambda>res. Some (close_query (is_queryjs (c # s)) res)))
     else token_entry al (ops @ stop) (c # s)) = Some (Inr (e, d # r))"
    using assms(1) by (simp only: entry_of_def read_strlst_def)
  with assms(2-) show ?thesis
    unfolding strlst_loop.simps [of al ops stop m "c # s"] Let_def eatwhite_nonwhite [OF assms(2)] by (simp add: eatwhite_nonwhite)
qed

lemma show_op_next: "\<exists>d r'. show_op c @ t # r = d # r' \<and> (d = c \<and> c \<noteq> NUL \<or> d = t \<and> c = NUL)"
  by (simp add: show_op_def)

definition show_body :: "strlist_t \<Rightarrow> char list" where
  "show_body e = (case e of
       ST_STR s c \<Rightarrow> quoted (the s)
     | ST_VAR s c \<Rightarrow> CHR ''$'' # the s
     | ST_QUERY l c \<Rightarrow> ''query('' @ show_strlst l @ '')''
     | ST_QUERYJS l c \<Rightarrow> ''queryjs('' @ show_strlst l @ '')'')"

definition with_op :: "strlist_t \<Rightarrow> char \<Rightarrow> strlist_t" where
  "with_op e = (case e of ST_STR s c \<Rightarrow> ST_STR s | ST_VAR s c \<Rightarrow> ST_VAR s | ST_QUERY l c \<Rightarrow> ST_QUERY l | ST_QUERYJS l c \<Rightarrow> ST_QUERYJS l)"

lemma show_entry_body: "show_entry e = show_body e @ show_op (entry_op e)"
  by (cases e) (simp_all add: show_body_def show_strlst_def)

lemma with_op_entry [simp]: "with_op e (entry_op e) = e"
  by (cases e) (simp_all add: with_op_def)

lemma show_body_head: "\<exists>c s. show_body e = c # s \<and> \<not> IS_WHITE c"
  by (cases e) (simp_all add: show_body_def quoted_def IS_WHITE_def)

lemma show_strlst_Cons: "show_strlst (e # l) = show_body e @ show_op (entry_op e) @ show_strlst l"
  by (simp add: show_strlst_def show_entry_body)

lemma show_strlst_head: "l \<noteq> [] \<Longrightarrow> \<exists>c s. show_strlst l = c # s \<and> \<not> IS_WHITE c"
  using show_body_head [of "hd l"] by (cases l) (auto simp: show_strlst_Cons)

text \<open>One entry is read back, whatever mark follows.\<close>

definition entry_back :: "alloc \<Rightarrow> char list \<Rightarrow> strlist_t \<Rightarrow> bool" where
  "entry_back al marks e \<longleftrightarrow> (\<forall>d r. d \<in> set marks \<longrightarrow> entry_of al marks (show_body e @ d # r) = Some (Inr (with_op e, d # r)))"

lemma ops_ok_Cons: "ops_ok ops (c # cs) \<longleftrightarrow> (if cs = [] then c = NUL else c \<in> set ops \<and> ops_ok ops cs)"
  by (auto simp: ops_ok_def)

lemma strlst_back:
  assumes "\<forall>e\<in>set l. entry_back al (ops @ stop) e" and "ops_ok ops (map entry_op l)" and "marks_ok ops stop" and "d \<in> set stop" and "al SIZEOF_STRLIST"
  shows "strlst_loop al ops stop m (show_strlst l @ d # r) = Some (Inr (l, d # r))"
  using assms(1,2)
proof (induction l)
  case (Cons e l)
  obtain c s where h: "show_body e = c # s" "\<not> IS_WHITE c" using show_body_head by blast
  show ?case
  proof (cases "l = []")
    case True
    then have op: "entry_op e = NUL" using Cons.prems by (simp add: ops_ok_Cons)
    have "entry_of al (ops @ stop) (c # s @ d # r) = Some (Inr (with_op e, d # r))"
      using Cons.prems(1) assms(4) h(1) by (simp add: entry_back_def)
    from strlst_loop_step [OF this h(2) _ assms(5), of m] assms(3,4) have
      "strlst_loop al ops stop m (c # s @ d # r) = Some (Inr ([with_op e NUL], d # r))"
      by (auto simp: marks_ok_def list_all_iff)
    with op True h show ?thesis using with_op_entry [of e] by (simp add: show_strlst_Cons show_op_def) (simp add: show_strlst_def)
  next
    case False
    then have op: "entry_op e \<in> set ops" "ops_ok ops (map entry_op l)" using Cons.prems by (simp_all add: ops_ok_Cons)
    then have o: "\<not> IS_WHITE (entry_op e)" "entry_op e \<noteq> NUL" "entry_op e \<notin> set stop"
      using assms(3) by (auto simp: marks_ok_def list_all_iff)
    have "entry_of al (ops @ stop) (c # s @ entry_op e # show_strlst l @ d # r) = Some (Inr (with_op e, entry_op e # show_strlst l @ d # r))"
      using Cons.prems(1) op(1) h(1) by (simp add: entry_back_def)
    from strlst_loop_step [OF this h(2) o(1) assms(5), of m] o(3) Cons.IH Cons.prems(1) op(2) have
      "strlst_loop al ops stop m (c # s @ entry_op e # show_strlst l @ d # r) = Some (Inr (e # l, d # r))"
      by simp
    with o(2) h(1) show ?thesis by (simp add: show_strlst_Cons show_op_def)
  qed
qed (simp add: ops_ok_def)

lemma query_words:
  "is_query (''query('' @ s) = True" "is_queryjs (''query('' @ s) = False" "query_text (''query('' @ s) = CHR ''('' # s"
  "is_query (''queryjs('' @ s) = True" "is_queryjs (''queryjs('' @ s) = True" "query_text (''queryjs('' @ s) = CHR ''('' # s"
  by (simp_all add: is_query_def is_queryjs_def query_text_def strncmp_zero xmldb_eatwhite_def IS_WHITE_def)

lemma no_query [simp]: "\<not> is_query (QUOT # s)" "\<not> is_query (CHR ''$'' # s)"
  by (simp_all add: is_query_def strncmp_zero)

lemma query_back:
  assumes "\<forall>e\<in>set l. entry_back al ''.)'' e" and "ops_ok ''.'' (map entry_op l)" and "al SIZEOF_STRLIST"
  shows "entry_of al marks (''query('' @ show_strlst l @ CHR '')'' # t) = Some (Inr (ST_QUERY l, t))"
    and "entry_of al marks (''queryjs('' @ show_strlst l @ CHR '')'' # t) = Some (Inr (ST_QUERYJS l, t))"
proof -
  have "strlst_loop al ''.'' '')'' m (show_strlst l @ CHR '')'' # t) = Some (Inr (l, CHR '')'' # t))" for m
    using assms by (intro strlst_back) (simp_all add: marks_ok_def IS_WHITE_def)
  moreover obtain c s where h: "show_strlst l = c # s" "\<not> IS_WHITE c"
    using assms(2) show_strlst_head [of l] by (auto simp: ops_ok_def)
  ultimately have r: "read_strlst al ''.'' '')'' (xmldb_eatwhite (show_strlst l @ CHR '')'' # t)) = Some (Inr (l, CHR '')'' # t))"
    by (simp add: read_strlst_def eatwhite_nonwhite)
  show "entry_of al marks (''query('' @ show_strlst l @ CHR '')'' # t) = Some (Inr (ST_QUERY l, t))"
    unfolding entry_of_def query_words if_True list.sel r by (simp add: close_query_def)
  show "entry_of al marks (''queryjs('' @ show_strlst l @ CHR '')'' # t) = Some (Inr (ST_QUERYJS l, t))"
    unfolding entry_of_def query_words if_True list.sel r by (simp add: close_query_def)
qed

lemma entry_back_ok: "entry_ok marks e \<Longrightarrow> CHR ''$'' \<notin> set marks \<Longrightarrow> entry_back plenty marks e"
proof (induction marks e rule: entry_ok.induct)
  case (1 marks s c)
  then obtain t where t: "s = Some t" "str_ok t" by (auto split: option.splits)
  have "\<not> is_query (quoted t @ r)" for r by (simp add: quoted_def)
  with t show ?case by (simp add: entry_back_def entry_of_def show_body_def with_op_def token_entry_def read_quoted_ex strdup_def)
next
  case (2 marks s c)
  then obtain t where "s = Some t" "name_ok marks t" by (auto split: option.splits)
  with 2(2) show ?case by (simp add: entry_back_def entry_of_def show_body_def with_op_def token_entry_def read_name strdup_def)
next
  case (3 marks l c)
  then have l: "\<forall>e\<in>set l. entry_back plenty ''.)'' e" "ops_ok ''.'' (map entry_op l)" by (auto simp: list_all_iff)
  show ?case unfolding entry_back_def show_body_def with_op_def using query_back(1) [OF l, of marks] by simp
next
  case (4 marks l c)
  then have l: "\<forall>e\<in>set l. entry_back plenty ''.)'' e" "ops_ok ''.'' (map entry_op l)" by (auto simp: list_all_iff)
  show ?case unfolding entry_back_def show_body_def with_op_def using query_back(2) [OF l, of marks] by simp
qed

lemma read_strlst_back:
  assumes "strlst_ok ops stop l" and "marks_ok ops stop" and "CHR ''$'' \<notin> set (ops @ stop)" and "d \<in> set stop"
  shows "read_strlst plenty ops stop (show_strlst l @ d # r) = Some (Inr (l, d # r))"
proof -
  have "\<forall>e\<in>set l. entry_back plenty (ops @ stop) e" using assms(1,3) by (simp add: strlst_ok_def list_all_iff entry_back_ok)
  with assms show ?thesis unfolding read_strlst_def by (intro strlst_back) (simp_all add: strlst_ok_def)
qed

lemma with_strlst_back:
  assumes "strlst_ok ops stop l" and "marks_ok ops stop \<and> CHR ''$'' \<notin> set (ops @ stop)" and "d \<in> set stop"
  shows "with_strlst plenty ops stop (show_strlst l @ d # r) k = k l (d # r)"
  using assms by (simp add: with_strlst_def read_strlst_back)

lemma marks_used:
  "marks_ok ''.'' '')'' \<and> CHR ''$'' \<notin> set (''.'' @ '')'')" "marks_ok ''.'' '','' \<and> CHR ''$'' \<notin> set (''.'' @ '','')"
  "marks_ok ''.'' '';'' \<and> CHR ''$'' \<notin> set (''.'' @ '';'')" "marks_ok ''.'' '',)'' \<and> CHR ''$'' \<notin> set (''.'' @ '',)'')"
  "marks_ok arith_ops '';'' \<and> CHR ''$'' \<notin> set (arith_ops @ '';'')" "marks_ok arith_ops ''!=<>'' \<and> CHR ''$'' \<notin> set (arith_ops @ ''!=<>'')"
  "marks_ok arith_ops ''|&)'' \<and> CHR ''$'' \<notin> set (arith_ops @ ''|&)'')"
  by (simp_all add: marks_ok_def IS_WHITE_def arith_ops_def)

lemma eat_strlst: "strlst_ok ops stop l \<Longrightarrow> xmldb_eatwhite (show_strlst l @ r) = show_strlst l @ r"
  using show_strlst_head [of l] by (auto simp: strlst_ok_def ops_ok_def eatwhite_nonwhite)

lemma eat_quoted [simp]: "xmldb_eatwhite (quoted s @ r) = quoted s @ r"
  by (simp add: quoted_def xmldb_eatwhite_def IS_WHITE_def)

lemma expect_Cons [simp]: "expect c msg (c # r) k = k r"
  by (simp add: expect_def)

lemma eat_mark [simp]:
  "xmldb_eatwhite (CHR ''('' # s) = CHR ''('' # s" "xmldb_eatwhite (CHR '')'' # s) = CHR '')'' # s"
  "xmldb_eatwhite (CHR '','' # s) = CHR '','' # s" "xmldb_eatwhite (CHR '';'' # s) = CHR '';'' # s"
  "xmldb_eatwhite (CHR ''{'' # s) = CHR ''{'' # s" "xmldb_eatwhite (CHR ''}'' # s) = CHR ''}'' # s"
  "xmldb_eatwhite [] = []"
  by (simp_all add: xmldb_eatwhite_def IS_WHITE_def)

lemmas reads_back = with_strlst_back [OF _ marks_used(1)] with_strlst_back [OF _ marks_used(2)] with_strlst_back [OF _ marks_used(3)]
  with_strlst_back [OF _ marks_used(4)] with_strlst_back [OF _ marks_used(5)] with_strlst_back [OF _ marks_used(6)]
  with_strlst_back [OF _ marks_used(7)] eat_strlst

subsection \<open>Printing statements\<close>

fun show_aop :: "aop_t \<Rightarrow> char list" where
  "show_aop AOP_ASSIGN = ''=''"
| "show_aop AOP_ADD = ''+=''"
| "show_aop AOP_SUB = ''-=''"
| "show_aop AOP_INCREASE = ''++''"
| "show_aop AOP_DECREASE = ''--''"

fun show_ifop :: "ifop_t \<Rightarrow> char list" where
  "show_ifop IFOP_EQUAL = ''==''"
| "show_ifop IFOP_NOTEQUAL = ''!=''"
| "show_ifop IFOP_GREATERTHAN = ''>''"
| "show_ifop IFOP_LESSTHAN = ''<''"
| "show_ifop IFOP_GREATEREQUAL = ''>=''"
| "show_ifop IFOP_LESSEQUAL = ''<=''"

fun show_next :: "ifnext_t \<Rightarrow> char list" where
  "show_next IFNEXT_END = []"
| "show_next IFNEXT_AND = ''&&''"
| "show_next IFNEXT_OR = ''||''"

definition show_cond :: "cond_t \<Rightarrow> char list" where
  "show_cond c = show_strlst (operand1 c) @ show_ifop (c_op c) @ show_strlst (operand2 c) @ show_next (c_next c)"

definition show_match :: "match_t \<Rightarrow> char list" where
  "show_match m = '','' @ show_strlst (fst m) @ '','' @ show_strlst (snd m)"

text \<open>The patterns of a map are stored with the last one first; the default is written last.\<close>

definition show_matches :: "match_t option \<Rightarrow> match_t list \<Rightarrow> char list" where
  "show_matches d ms = concat (map show_match (rev ms)) @ (case d of None \<Rightarrow> [] | Some m \<Rightarrow> show_match m)"

fun show_block :: "sblock_t \<Rightarrow> char list" where
  "show_block (SB_REQUIRE l) = ''require('' @ show_strlst l @ '');''"
| "show_block (SB_ANCHOR l) = ''anchor('' @ show_strlst l @ '');''"
| "show_block (SB_QUERY l) = ''query('' @ show_strlst l @ '');''"
| "show_block (SB_QUERYJS l) = ''queryjs('' @ show_strlst l @ '');''"
| "show_block (SB_DEL l) = ''del('' @ show_strlst l @ '');''"
| "show_block (SB_SET l v) = ''set('' @ show_strlst l @ '','' @ show_strlst v @ '');''"
| "show_block (SB_ECHO l) = ''echo '' @ show_strlst l @ '';''"
| "show_block (SB_ASSIGN aop n l) = ''$'' @ the n @ show_aop aop @ show_strlst l @ '';''"
| "show_block (SB_MAP l d ms) = ''map('' @ show_strlst l @ show_matches d ms @ '');''"
| "show_block (SB_INCLOG f g) = ''inclog('' @ quoted (the f) @ '','' @ quoted (the g) @ '');''"
| "show_block (SB_IF cs yes no) = ''if('' @ concat (map show_cond cs) @ ''){'' @ concat (map show_block yes) @ ''}'' @
     (if no = [] then [] else ''else{'' @ concat (map show_block no) @ ''}'')"
| "show_block (SB_FOR l bs) = ''for('' @ show_strlst l @ ''){'' @ concat (map show_block bs) @ ''}''"
| "show_block SB_EXIT = ''exit;''"

definition show_ephp :: "sblock_t list \<Rightarrow> char list" where "show_ephp bs = concat (map show_block bs)"

subsection \<open>The statements that can be written\<close>

definition conds_ok :: "cond_t list \<Rightarrow> bool" where
  "conds_ok cs \<longleftrightarrow> cs \<noteq> [] \<and> list_all (\<lambda>c. strlst_ok arith_ops ''!=<>'' (operand1 c) \<and> strlst_ok arith_ops ''|&)'' (operand2 c)) cs \<and>
     c_next (last cs) = IFNEXT_END \<and> list_all (\<lambda>c. c_next c \<noteq> IFNEXT_END) (butlast cs)"

definition is_star :: "strlist_t list \<Rightarrow> bool" where
  "is_star l \<longleftrightarrow> (case l of ST_STR s c # _ \<Rightarrow> s = Some ''*'' | _ \<Rightarrow> False)"

definition match_ok :: "bool \<Rightarrow> match_t \<Rightarrow> bool" where
  "match_ok star m \<longleftrightarrow> strlst_ok ''.'' '','' (fst m) \<and> strlst_ok ''.'' '',)'' (snd m) \<and> is_star (fst m) = star"

definition var_ok :: "char list option \<Rightarrow> bool" where
  "var_ok n \<longleftrightarrow> (case n of None \<Rightarrow> False | Some m \<Rightarrow> name_ok ''=+-'' m \<and> m \<noteq> [] \<and> hd m \<noteq> QUOT)"

definition opt_str_ok :: "char list option \<Rightarrow> bool" where
  "opt_str_ok s \<longleftrightarrow> (case s of None \<Rightarrow> False | Some t \<Rightarrow> str_ok t)"

fun block_ok :: "sblock_t \<Rightarrow> bool" where
  "block_ok (SB_REQUIRE l) \<longleftrightarrow> strlst_ok ''.'' '')'' l"
| "block_ok (SB_ANCHOR l) \<longleftrightarrow> strlst_ok ''.'' '')'' l"
| "block_ok (SB_QUERY l) \<longleftrightarrow> strlst_ok ''.'' '')'' l"
| "block_ok (SB_QUERYJS l) \<longleftrightarrow> strlst_ok ''.'' '')'' l"
| "block_ok (SB_DEL l) \<longleftrightarrow> strlst_ok ''.'' '')'' l"
| "block_ok (SB_SET l v) \<longleftrightarrow> strlst_ok ''.'' '','' l \<and> strlst_ok ''.'' '')'' v"
| "block_ok (SB_ECHO l) \<longleftrightarrow> strlst_ok ''.'' '';'' l"
| "block_ok (SB_ASSIGN aop n l) \<longleftrightarrow> var_ok n \<and> strlst_ok arith_ops '';'' l"
| "block_ok (SB_MAP l d ms) \<longleftrightarrow> strlst_ok ''.'' '','' l \<and> list_all (match_ok False) ms \<and> (case d of None \<Rightarrow> ms \<noteq> [] | Some m \<Rightarrow> match_ok True m)"
| "block_ok (SB_INCLOG f g) \<longleftrightarrow> opt_str_ok f \<and> opt_str_ok g"
| "block_ok (SB_IF cs yes no) \<longleftrightarrow> conds_ok cs \<and> list_all block_ok yes \<and> list_all block_ok no"
| "block_ok (SB_FOR l bs) \<longleftrightarrow> strlst_ok ''.'' '')'' l \<and> list_all block_ok bs"
| "block_ok SB_EXIT \<longleftrightarrow> True"

subsection \<open>Reading the statements back\<close>

lemma parse_one_back: "strlst_ok ''.'' '')'' l \<Longrightarrow> parse_one_strlst plenty (CHR ''('' # show_strlst l @ '');'' @ r) = Some (Inr (l, r))"
  by (simp add: parse_one_strlst_def reads_back)

lemma parse_single_back: "strlst_ok ''.'' '')'' l \<Longrightarrow> parse_single plenty f (CHR ''('' # show_strlst l @ '');'' @ r) = Some (Inr (f l, r))"
  using parse_one_back [of l r] by (simp add: parse_single_def)

lemma parse_set_back:
  "strlst_ok ''.'' '','' l \<Longrightarrow> strlst_ok ''.'' '')'' v \<Longrightarrow>
   parse_set plenty (CHR ''('' # show_strlst l @ '','' @ show_strlst v @ '');'' @ r) = Some (Inr (SB_SET l v, r))"
  by (simp add: parse_set_def reads_back)

lemma parse_echo_back: "strlst_ok ''.'' '';'' l \<Longrightarrow> parse_echo plenty (CHR '' '' # show_strlst l @ '';'' @ r) = Some (Inr (SB_ECHO l, r))"
proof -
  assume l: "strlst_ok ''.'' '';'' l"
  have "xmldb_eatwhite (CHR '' '' # show_strlst l @ CHR '';'' # r) = show_strlst l @ CHR '';'' # r"
    using eat_strlst [OF l, of "CHR '';'' # r"] by (simp add: xmldb_eatwhite_def IS_WHITE_def)
  with l show ?thesis by (simp add: parse_echo_def reads_back)
qed

lemma assign_op_back:
  "strlst_ok ops stop l \<Longrightarrow> assign_op (xmldb_eatwhite (show_aop aop @ show_strlst l @ r)) = Some (aop, show_strlst l @ r)"
  using show_strlst_head [of l]
  by (cases aop) (auto simp: assign_op_def strncmp_zero xmldb_eatwhite_def IS_WHITE_def strlst_ok_def ops_ok_def)


lemma parse_assign_back:
  assumes "var_ok n" and "strlst_ok arith_ops '';'' l"
  shows "parse_assign plenty (the n @ show_aop aop @ show_strlst l @ '';'' @ r) = Some (Inr (SB_ASSIGN aop n l, r))"
proof -
  from assms(1) obtain m where m: "n = Some m" "name_ok ''=+-'' m" "m \<noteq> []" "hd m \<noteq> QUOT" by (auto simp: var_ok_def split: option.splits)
  obtain d s where d: "show_aop aop = d # s" "d \<in> set ''=+-''" by (cases aop) auto
  let ?P = "\<lambda>c. \<not> IS_WHITE c \<and> c \<notin> set ''=+-''"
  have all: "list_all ?P m" using m(2) by (simp add: name_ok_def)
  have "takeWhile ?P (m @ d # x) = m \<and> dropWhile ?P (m @ d # x) = d # x" for x by (rule takeWhile_stop [OF all]) (use d in auto)
  then have read: "read_string_ex (m @ d # x) ''=+-'' = Some (m, False, d # x)" for x
    using m unfolding read_string_ex_def Let_def by (auto simp: name_ok_def)
  have name: "xmldb_reatwhite m = m"
  proof -
    have "\<not> IS_WHITE (last m)" using all m(3) by (simp add: list_all_iff)
    with m(3) have "dropWhile IS_WHITE (rev m) = rev m" by (subst dropWhile_eq_self_iff) (simp add: hd_rev)
    then show ?thesis by (simp add: xmldb_reatwhite_def)
  qed
  have "parse_assign plenty (the n @ show_aop aop @ show_strlst l @ '';'' @ r) =
    parse_assign plenty (m @ d # (s @ show_strlst l @ '';'' @ r))" using d m(1) by simp
  also have "\<dots> = Some (Inr (SB_ASSIGN aop n l, r))"
    using read [of "s @ show_strlst l @ CHR '';'' # r"] m(1,3) assms(2) name assign_op_back [OF assms(2), of aop "CHR '';'' # r"]
    by (simp add: parse_assign_def reads_back d(1) strdup_def)
  finally show ?thesis .
qed

lemma map_item_back:
  assumes "match_ok star m" and "d \<in> set '',)''"
  shows "map_item plenty (show_match m @ d # r) = Some (Inr (m, d # r))"
proof -
  from assms(1) have ok: "strlst_ok ''.'' '','' (fst m)" "strlst_ok ''.'' '',)'' (snd m)" by (simp_all add: match_ok_def)
  from assms(2) have "xmldb_eatwhite (d # r) = d # r" by auto
  with with_strlst_back [OF ok(2) marks_used(4) assms(2), of r "\<lambda>out c. Some (Inr ((fst m, out), xmldb_eatwhite c))"] ok(1) show ?thesis
    by (simp add: map_item_def show_match_def reads_back)
qed

lemma map_add_back:
  assumes "match_ok star m"
  shows "map_add m d ms = Some (if star then (Some m, ms) else (d, m # ms))"
proof -
  from assms have "strlst_ok ''.'' '','' (fst m)" "is_star (fst m) = star" by (simp_all add: match_ok_def)
  then show ?thesis
    by (auto simp: map_add_def is_star_def strlst_ok_def ops_ok_def split: list.splits strlist_t.splits option.splits)
qed

lemma map_loop_matches:
  assumes "list_all (match_ok False) qs" and "\<exists>c s. r = c # s \<and> c \<in> set '',)''"
  shows "map_loop plenty d ms (concat (map show_match qs) @ r) = map_loop plenty d (rev qs @ ms) r"
  using assms(1)
proof (induction qs arbitrary: ms)
  case (Cons q qs)
  obtain c s where c: "concat (map show_match qs) @ r = c # s" "c \<in> set '',)''"
    using assms(2) by (cases qs) (auto simp: show_match_def)
  have "map_loop plenty d ms (show_match q @ c # s) = map_loop plenty d (q # ms) (c # s)"
    using map_item_back [of False q c s] map_add_back [of False q d ms] Cons.prems c(2)
    by (subst map_loop.simps) (simp add: show_match_def)
  with Cons c(1) show ?case by simp
qed simp

lemma show_match_ne: "show_match m = CHR '','' # tl (show_match m)"
  by (simp add: show_match_def)

lemma map_loop_back:
  assumes "list_all (match_ok False) ms" and "\<forall>m. d = Some m \<longrightarrow> match_ok True m"
  shows "map_loop plenty None [] (show_matches d ms @ CHR '')'' # r) = Some (Inr ((d, ms), r))"
proof (cases d)
  case None
  then show ?thesis using map_loop_matches [of "rev ms" "CHR '')'' # r" None "[]"] assms(1)
    by (simp add: show_matches_def list_all_iff map_loop.simps)
next
  case (Some m)
  have "map_loop plenty None ms (show_match m @ CHR '')'' # r) = map_loop plenty (Some m) ms (CHR '')'' # r)"
    using map_item_back [of True m "CHR '')''" r] map_add_back [of True m None ms] assms(2) Some
    by (subst map_loop.simps) (simp add: show_match_def)
  moreover have "\<exists>c s. show_match m @ CHR '')'' # r = c # s \<and> c \<in> set '',)''" by (simp add: show_match_def)
  ultimately show ?thesis using map_loop_matches [of "rev ms" "show_match m @ CHR '')'' # r" None "[]"] assms(1) Some
    by (simp add: show_matches_def list_all_iff map_loop.simps)
qed

lemma parse_map_back:
  assumes "strlst_ok ''.'' '','' l" and "list_all (match_ok False) ms" and "\<forall>m. d = Some m \<longrightarrow> match_ok True m" and "ms \<noteq> [] \<or> d \<noteq> None"
  shows "parse_map plenty (CHR ''('' # show_strlst l @ show_matches d ms @ '');'' @ r) = Some (Inr (SB_MAP l d ms, r))"
proof -
  obtain s where s: "show_matches d ms @ '');'' @ r = CHR '','' # s"
    using assms(4) by (cases "rev ms") (auto simp: show_matches_def show_match_def)
  have "map_loop plenty None [] (CHR '','' # s) = Some (Inr ((d, ms), CHR '';'' # r))"
    using map_loop_back [OF assms(2,3), of "CHR '';'' # r"] s by simp
  with assms(1) show ?thesis unfolding s by (simp add: parse_map_def reads_back)
qed

lemma parse_inclog_back:
  assumes "opt_str_ok f" and "opt_str_ok g"
  shows "parse_inclog plenty (CHR ''('' # quoted (the f) @ '','' @ quoted (the g) @ '');'' @ r) = Some (Inr (SB_INCLOG f g, r))"
proof -
  obtain s t where "f = Some s" "g = Some t" "str_ok s" "str_ok t" using assms by (auto simp: opt_str_ok_def split: option.splits)
  then show ?thesis by (simp add: parse_inclog_def read_quoted_ex strdup_def)
qed


lemma cond_op_back:
  "strlst_ok ops stop l \<Longrightarrow> cond_op (show_ifop oper @ show_strlst l @ r) = Some (oper, show_strlst l @ r)"
  using show_strlst_head [of l]
  by (cases oper; cases l) (auto simp: cond_op_def strncmp_zero strlst_ok_def ops_ok_def show_strlst_Cons show_body_def quoted_def split: strlist_t.splits)

lemma cond_item_back:
  assumes "strlst_ok arith_ops ''!=<>'' (operand1 c)" and "strlst_ok arith_ops ''|&)'' (operand2 c)"
    and "c_next c = IFNEXT_END \<Longrightarrow> \<exists>s. r = CHR '')'' # s"
  shows "cond_item plenty (show_cond c @ r) = Some (Inr (c, r))"
proof -
  obtain d s where d: "show_ifop (c_op c) = d # s" "d \<in> set ''!=<>''" "xmldb_eatwhite (d # x) = d # x" for x
    by (cases "c_op c") (auto simp: eatwhite_nonwhite IS_WHITE_def)
  have n: "show_next (c_next c) @ r \<noteq> [] \<and> hd (show_next (c_next c) @ r) \<in> set ''|&)'' \<and> cond_next (show_next (c_next c) @ r) = (c_next c, r)"
  proof (cases "c_next c")
    case IFNEXT_END
    with assms(3) obtain s where "r = CHR '')'' # s" by blast
    with IFNEXT_END show ?thesis by (simp add: cond_next_def strncmp_zero)
  qed (simp_all add: cond_next_def strncmp_zero)
  then obtain e t where e: "show_next (c_next c) @ r = e # t" "e \<in> set ''|&)''" "cond_next (e # t) = (c_next c, r)"
    by (cases "show_next (c_next c) @ r") auto
  then have e4: "xmldb_eatwhite (e # t) = e # t" by (auto simp: eatwhite_nonwhite IS_WHITE_def)
  have 1: "with_strlst plenty arith_ops ''!=<>'' (show_strlst (operand1 c) @ d # x) k = k (operand1 c) (d # x)" for x k
    by (rule with_strlst_back [OF assms(1) marks_used(6) d(2)])
  have 2: "with_strlst plenty arith_ops ''|&)'' (show_strlst (operand2 c) @ e # t) k = k (operand2 c) (e # t)" for k
    by (rule with_strlst_back [OF assms(2) marks_used(7) e(2)])
  have 3: "cond_op (d # s @ show_strlst (operand2 c) @ e # t) = Some (c_op c, show_strlst (operand2 c) @ e # t)"
    using cond_op_back [OF assms(2), of "c_op c" "e # t"] d(1) by simp
  have "cond_item plenty (show_strlst (operand1 c) @ d # s @ show_strlst (operand2 c) @ e # t) = Some (Inr (c, r))"
    by (simp add: cond_item_def 1 2 3 d(3) e(3) e4 eat_strlst [OF assms(1)] eat_strlst [OF assms(2)])
  then show ?thesis using d(1) e(1) by (simp add: show_cond_def)
qed

lemma cond_loop_back: "conds_ok cs \<Longrightarrow> cond_loop plenty (concat (map show_cond cs) @ CHR '')'' # r) = Some (Inr (cs, CHR '')'' # r))"
proof (induction cs)
  case (Cons c cs)
  show ?case
  proof (cases "cs = []")
    case True
    then show ?thesis using Cons.prems cond_item_back [of c "CHR '')'' # r"] by (subst cond_loop.simps) (simp add: conds_ok_def)
  next
    case False
    with Cons.prems have "conds_ok cs" "c_next c \<noteq> IFNEXT_END" by (auto simp: conds_ok_def)
    with Cons cond_item_back [of c "concat (map show_cond cs) @ CHR '')'' # r"] show ?thesis
      by (subst cond_loop.simps) (simp add: conds_ok_def)
  qed
qed (simp add: conds_ok_def)

lemma if_head_back: "conds_ok cs \<Longrightarrow> if_head plenty (CHR ''('' # concat (map show_cond cs) @ ''){'' @ r) = Some (Inr (cs, r))"
  using cond_loop_back [of cs "CHR ''{'' # r"] by (simp add: if_head_def)

lemma for_head_back: "strlst_ok ''.'' '')'' l \<Longrightarrow> for_head plenty (CHR ''('' # show_strlst l @ ''){'' @ r) = Some (Inr (l, r))"
  by (simp add: for_head_def reads_back)

text \<open>One statement, as \<^verbatim>\<open>parse_ephp\<close> reads it; \<open>follows\<close> is what may stand behind a statement.\<close>

definition stmt_of :: "alloc \<Rightarrow> char list \<Rightarrow> sblock_t list pres" where
  "stmt_of al cur = (if keyword ''if'' cur then parse_if al (drop 2 cur)
     else if keyword ''for'' cur then parse_for al (drop 3 cur)
     else one_block (the (parse_plain al cur)))"

definition follows :: "char list \<Rightarrow> bool" where
  "follows r \<longleftrightarrow> r = [] \<or> \<not> IS_WHITE (hd r) \<and> \<not> keyword ''else'' r"

definition stmt_back :: "sblock_t \<Rightarrow> bool" where
  "stmt_back b \<longleftrightarrow> (\<forall>r. follows r \<longrightarrow> stmt_of plenty (show_block b @ r) = Some (Inr ([b], r)))"

lemma keyword_if: "keyword w cur \<longleftrightarrow> take (length w) cur = w"
  by (simp add: keyword_def strncmp_zero)

lemma show_block_head:
  "\<exists>c s. show_block b = c # s \<and> \<not> IS_WHITE c \<and> c \<noteq> CHR ''}''" "\<not> keyword ''else'' (show_block b @ r)"
  "keyword ''if'' (show_block b @ r) \<or> keyword ''for'' (show_block b @ r) \<or> parse_plain al (show_block b @ r) \<noteq> None"
  by (cases b; simp add: keyword_if IS_WHITE_def parse_plain_def)+

lemma follows_ephp: "follows (show_ephp bs @ r)" if "follows r"
  using that show_block_head [of "hd bs"] by (cases bs) (auto simp: show_ephp_def follows_def)

lemma eat_follows: "follows r \<Longrightarrow> xmldb_eatwhite r = r"
  by (cases r) (simp_all add: follows_def eatwhite_nonwhite)

lemma follows_end: "r = [] \<or> hd r = CHR ''}'' \<Longrightarrow> follows r"
  by (cases r) (auto simp: follows_def keyword_if IS_WHITE_def)

lemma parse_ephp_end: "r = [] \<or> hd r = CHR ''}'' \<Longrightarrow> parse_ephp al r = Some (Inr ([], r))"
  using eat_follows [OF follows_end [of r]] by (subst parse_ephp.simps) simp

lemma parse_ephp_step:
  assumes "stmt_of al s = Some (Inr (bs, r))" and "xmldb_eatwhite s = s" and "s \<noteq> []" and "hd s \<noteq> CHR ''}''"
    and "keyword ''if'' s \<or> keyword ''for'' s \<or> parse_plain al s \<noteq> None"
  shows "parse_ephp al s = andthen (parse_ephp al r) (\<lambda>cs r2. Some (Inr (bs @ cs, r2)))"
proof -
  have "complain (stmt_of al s) = Some (Inr (bs, r))" using assms(1) by (simp add: complain_Inr)
  with assms(2-) show ?thesis unfolding stmt_of_def by (subst parse_ephp.simps) (auto simp: Let_def)
qed

lemma parse_list_back:
  assumes "\<forall>b\<in>set bs. stmt_back b" and "r = [] \<or> hd r = CHR ''}''"
  shows "parse_ephp plenty (show_ephp bs @ r) = Some (Inr (bs, r))"
  using assms(1)
proof (induction bs)
  case Nil
  show ?case using parse_ephp_end [OF assms(2)] by (simp add: show_ephp_def)
next
  case (Cons b bs)
  let ?r = "show_ephp bs @ r"
  have f: "follows ?r" by (intro follows_ephp follows_end assms(2))
  obtain c s where h: "show_block b = c # s" "\<not> IS_WHITE c" "c \<noteq> CHR ''}''" using show_block_head(1) by blast
  have "stmt_of plenty (show_block b @ ?r) = Some (Inr ([b], ?r))" using Cons.prems f by (simp add: stmt_back_def)
  then have "parse_ephp plenty (show_block b @ ?r) = andthen (parse_ephp plenty ?r) (\<lambda>cs r2. Some (Inr ([b] @ cs, r2)))"
    by (rule parse_ephp_step [OF _ _ _ _ show_block_head(3)]) (use h in \<open>simp_all add: eatwhite_nonwhite\<close>)
  with Cons show ?case by (simp add: show_ephp_def)
qed

lemma for_back:
  assumes "strlst_ok ''.'' '')'' l" and "\<forall>b\<in>set bs. stmt_back b"
  shows "stmt_back (SB_FOR l bs)"
proof -
  have "parse_for plenty (CHR ''('' # show_strlst l @ ''){'' @ show_ephp bs @ CHR ''}'' # r) = Some (Inr ([SB_FOR l bs], r))" for r
    using for_head_back [OF assms(1)] parse_list_back [OF assms(2), of "CHR ''}'' # r"] by (subst parse_for.simps) simp
  then show ?thesis by (simp add: stmt_back_def stmt_of_def keyword_if show_ephp_def)
qed

lemma if_back:
  assumes "conds_ok cs" and "\<forall>b\<in>set yes. stmt_back b" and "\<forall>b\<in>set no. stmt_back b"
  shows "stmt_back (SB_IF cs yes no)"
proof -
  have "parse_if plenty (CHR ''('' # concat (map show_cond cs) @ ''){'' @ show_ephp yes @ CHR ''}'' #
      (if no = [] then [] else ''else{'' @ show_ephp no @ ''}'') @ r) = Some (Inr ([SB_IF cs yes no], r))" if "follows r" for r
  proof (cases "no = []")
    case True
    with that eat_follows [OF that] if_head_back [OF assms(1)] parse_list_back [OF assms(2), of "CHR ''}'' # r"] show ?thesis
      by (subst parse_if.simps) (auto simp: follows_def keyword_if)
  next
    case False
    let ?e = "''else{'' @ show_ephp no @ CHR ''}'' # r"
    have "xmldb_eatwhite ?e = ?e" by (simp add: eatwhite_nonwhite IS_WHITE_def)
    with False if_head_back [OF assms(1)] parse_list_back [OF assms(2), of "CHR ''}'' # ?e"] parse_list_back [OF assms(3), of "CHR ''}'' # r"]
    show ?thesis by (subst parse_if.simps) (simp add: keyword_if)
  qed
  moreover have "show_block (SB_IF cs yes no) @ r = CHR ''i'' # CHR ''f'' # CHR ''('' # concat (map show_cond cs) @ ''){'' @ show_ephp yes @ CHR ''}'' #
      (if no = [] then [] else ''else{'' @ show_ephp no @ ''}'') @ r" for r
    by (simp add: show_ephp_def)
  ultimately show ?thesis unfolding stmt_back_def by (simp only:) (simp add: stmt_of_def keyword_if del: append.simps show_block.simps)
qed

lemma plain_back:
  assumes "\<And>r. parse_plain plenty (show_block b @ r) = Some (Some (Inr (b, r)))" and "\<And>r. \<not> keyword ''if'' (show_block b @ r)" and "\<And>r. \<not> keyword ''for'' (show_block b @ r)"
  shows "stmt_back b"
  using assms by (simp add: stmt_back_def stmt_of_def one_block_def)


lemma block_back: "block_ok b \<Longrightarrow> stmt_back b"
proof (induction b rule: block_ok.induct)
  case (6 l v)
  then show ?case using parse_set_back [of l v] by (intro plain_back) (simp_all add: parse_plain_def keyword_if)
next
  case (7 l)
  then show ?case using parse_echo_back [of l] by (intro plain_back) (simp_all add: parse_plain_def keyword_if)
next
  case (8 aop n l)
  then show ?case using parse_assign_back [of n l aop] by (intro plain_back) (simp_all add: parse_plain_def keyword_if)
next
  case (9 l d ms)
  then have "parse_map plenty (CHR ''('' # show_strlst l @ show_matches d ms @ '');'' @ r) = Some (Inr (SB_MAP l d ms, r))" for r
    by (intro parse_map_back) (auto split: option.splits)
  then show ?case by (intro plain_back) (simp_all add: parse_plain_def keyword_if)
next
  case (10 f g)
  then show ?case using parse_inclog_back [of f g] by (intro plain_back) (simp_all add: parse_plain_def keyword_if)
next
  case (11 cs yes no)
  then show ?case by (intro if_back) (auto simp: list_all_iff)
next
  case (12 l bs)
  then show ?case by (intro for_back) (auto simp: list_all_iff)
next
  case 13
  show ?case by (intro plain_back) (simp_all add: parse_plain_def keyword_if parse_exit_def)
qed (intro plain_back; simp add: parse_plain_def keyword_if parse_keyword_defs parse_single_back [unfolded append_Cons append_Nil])+

text \<open>C9: The parser inverts the printer. Every list of statements that can be written, of any kind and nested to any
  depth, is read back by \<^verbatim>\<open>parse_ephp\<close> from its text, and nothing of the text is left over.\<close>

theorem ephp_parse_print:
  assumes "list_all block_ok bs"
  shows "parse_ephp plenty (show_ephp bs) = Some (Inr (bs, []))"
  using parse_list_back [of bs "[]"] block_back assms by (simp add: list_all_iff)

theorem ephp_parse_print_witness:
  "let bs = [SB_IF [\<lparr>operand1 = [ST_VAR (Some ''a'') (CHR ''+''), ST_STR (Some ''1'') NUL], operand2 = [ST_QUERY [ST_STR (Some ''/x'') NUL] NUL],
        c_op = IFOP_LESSEQUAL, c_next = IFNEXT_AND\<rparr>,
      \<lparr>operand1 = [ST_VAR (Some ''b'') NUL], operand2 = [ST_STR (Some [QUOT]) NUL], c_op = IFOP_EQUAL, c_next = IFNEXT_END\<rparr>]
     [SB_FOR [ST_STR (Some ''/lan/h'') NUL] [SB_ECHO [ST_VAR (Some ''@'') NUL], SB_ASSIGN AOP_ADD (Some ''n'') [ST_STR (Some ''2'') NUL]]]
     [SB_EXIT], SB_MAP [ST_STR (Some ''m'') NUL] (Some ([ST_STR (Some ''*'') NUL], [ST_STR (Some ''?'') NUL])) [([ST_STR (Some ''1'') NUL], [ST_STR (Some ''on'') NUL])]]
   in parse_ephp plenty (show_ephp bs) = Some (Inr (bs, []))"
  unfolding Let_def
  by (rule ephp_parse_print) (simp add: conds_ok_def strlst_ok_def ops_ok_def str_ok_def name_ok_def match_ok_def is_star_def var_ok_def
    arith_ops_def IS_WHITE_def MAX_STRING_LEN_def)

subsection \<open>An else without a brace\<close>

definition is_if :: "sblock_t \<Rightarrow> bool" where
  "is_if b \<longleftrightarrow> (case b of SB_IF _ _ _ \<Rightarrow> True | _ \<Rightarrow> False)"

text \<open>An \<^verbatim>\<open>else\<close> that is followed by a plain statement instead of a block is accepted without a message, but the whole \<^verbatim>\<open>if\<close> statement
  is dropped: neither its condition nor its block is kept, and the statement behind the \<^verbatim>\<open>else\<close> is executed
  unconditionally.\<close>

theorem else_statement_drops_if:
  assumes "conds_ok cs" and "list_all block_ok yes" and "list_all block_ok (b # bs)" and "\<not> is_if b"
  shows "parse_ephp plenty (''if('' @ concat (map show_cond cs) @ ''){'' @ show_ephp yes @ ''}else '' @ show_ephp (b # bs)) = Some (Inr (b # bs, []))"
proof -
  let ?r = "show_ephp (b # bs)" let ?s = "''if('' @ concat (map show_cond cs) @ ''){'' @ show_ephp yes @ ''}else '' @ ?r"
  have b: "\<forall>b\<in>set yes. stmt_back b" "\<forall>b\<in>set (b # bs). stmt_back b" using assms(2,3) block_back by (auto simp: list_all_iff)
  have "follows ?r" using follows_ephp [of "[]" "b # bs"] by (simp add: follows_def)
  then have "xmldb_eatwhite (CHR '' '' # ?r) = ?r" using eat_follows [of ?r] by (simp add: xmldb_eatwhite_def IS_WHITE_def)
  moreover have "xmldb_eatwhite (''else '' @ ?r) = ''else '' @ ?r" by (simp add: eatwhite_nonwhite IS_WHITE_def)
  moreover have "\<not> keyword ''if'' ?r" "hd ?r \<noteq> CHR ''{''"
    using assms(4) by (cases b; simp add: show_ephp_def keyword_if is_if_def)+
  ultimately have "parse_if plenty (CHR ''('' # concat (map show_cond cs) @ ''){'' @ show_ephp yes @ CHR ''}'' # ''else '' @ ?r) = Some (Inr ([], ?r))"
    using if_head_back [OF assms(1)] parse_list_back [OF b(1), of "CHR ''}'' # ''else '' @ ?r"]
    by (subst parse_if.simps) (simp add: keyword_if [of "''else''"])
  then have "stmt_of plenty ?s = Some (Inr ([], ?r))" by (simp add: stmt_of_def keyword_if)
  then have "parse_ephp plenty ?s = andthen (parse_ephp plenty ?r) (\<lambda>cs r2. Some (Inr ([] @ cs, r2)))"
    by (rule parse_ephp_step) (simp_all add: xmldb_eatwhite_def IS_WHITE_def keyword_if)
  with parse_list_back [OF b(2), of "[]"] show ?thesis by simp
qed

theorem else_statement_drops_if_witness:
  "parse_ephp plenty (''if('' @ concat (map show_cond [\<lparr>operand1 = [ST_VAR (Some ''a'') NUL], operand2 = [ST_STR (Some ''1'') NUL],
      c_op = IFOP_EQUAL, c_next = IFNEXT_END\<rparr>]) @ ''){'' @ show_ephp [SB_ECHO [ST_STR (Some ''yes'') NUL]] @ ''}else '' @
      show_ephp [SB_ECHO [ST_STR (Some ''no'') NUL]]) = Some (Inr ([SB_ECHO [ST_STR (Some ''no'') NUL]], []))"
  by (rule else_statement_drops_if) (simp_all add: is_if_def conds_ok_def strlst_ok_def ops_ok_def str_ok_def name_ok_def arith_ops_def IS_WHITE_def MAX_STRING_LEN_def)


end
