(* ===== verification/Ephp_Page.thy ===== *)
theory Ephp_Page
  imports Ephp_Exec Ephp_Print
begin

text \<open>
  Whole pages of \<^verbatim>\<open>tools/alpha/xmldb/ephp.c\<close>: text with blocks of statements between \<open><?\<close> and \<open>?>\<close>. A page is described as a list of
  pieces, printed with the printer of the statements, and given a meaning by \<open>render\<close>, which knows neither the scanner
  nor the parser nor the buffer for blocks nor fuel, and evaluates the single statements as the model of the interpreter does; executing
  the printed page is shown to have this meaning, for pages without \<^verbatim>\<open>require\<close>. The last part follows
  a request for a page to the bytes the client receives.
\<close>

subsection \<open>The scanner\<close>

text \<open>Text that is copied as it is: a \<open><\<close> is never followed by a question mark or another \<open><\<close>, and is not the last character.\<close>

fun plain_text :: "char list \<Rightarrow> bool" where
  "plain_text [] \<longleftrightarrow> True"
| "plain_text [c] \<longleftrightarrow> c \<noteq> CHR ''<''"
| "plain_text (c # d # s) \<longleftrightarrow> \<not> (c = CHR ''<'' \<and> d \<in> {CHR ''?'', CHR ''<''}) \<and> plain_text (d # s)"

text \<open>A block without comments and question marks.\<close>

fun clean_code :: "char list \<Rightarrow> bool" where
  "clean_code [] \<longleftrightarrow> True"
| "clean_code [c] \<longleftrightarrow> c \<noteq> CHR ''?'' \<and> c \<noteq> CHR ''/'' \<and> c \<noteq> NUL"
| "clean_code (c # d # s) \<longleftrightarrow> c \<noteq> CHR ''?'' \<and> c \<noteq> NUL \<and> \<not> (c = CHR ''/'' \<and> d \<in> {CHR ''/'', CHR ''*''}) \<and> clean_code (d # s)"

lemma plain_text_tl: "plain_text (c # s) \<Longrightarrow> plain_text s"
  by (cases s) auto

lemma plain_text_append: "plain_text s \<Longrightarrow> plain_text t \<Longrightarrow> plain_text (s @ t)"
  by (induction s rule: plain_text.induct) (cases t; auto)+

lemma scan_text: "plain_text t \<Longrightarrow> embeded_scan al Sc_text pb out (t @ s) = embeded_scan al Sc_text pb (out @ t) s"
proof (induction t arbitrary: out rule: length_induct)
  case (1 t)
  show ?case
  proof (cases t rule: plain_text.cases)
    case (2 c)
    with 1(2) show ?thesis by simp
  next
    case (3 c d r)
    show ?thesis
    proof (cases "c = CHR ''<''")
      case True
      from 3 1(2) True have "plain_text r" "d \<noteq> CHR ''?''" by (auto dest: plain_text_tl)
      with 1(1) 3 True show ?thesis by simp
    next
      case False
      from 3 1(2) have "plain_text (d # r)" by simp
      with 1(1) [rule_format, of "d # r" "out @ [c]"] 3 False show ?thesis by simp
    qed
  qed simp
qed

text \<open>The buffer for blocks can be used when it is there or was never allocated.\<close>

definition pb_ok :: "wbuf \<Rightarrow> bool" where "pb_ok pb \<longleftrightarrow> wb_live pb \<or> wb_alloc pb = 0"

lemma pi_putc_plenty:
  "wb_live pb \<or> (wb_alloc pb = 0) \<Longrightarrow> wb_live (snd (pi_putc plenty pb c)) \<and> wb_text (snd (pi_putc plenty pb c)) = wb_text pb @ [c]"
  by (auto simp: pi_putc_def Let_def)

lemma clean_code_tl: "clean_code (c # s) \<Longrightarrow> clean_code s"
  by (cases s) auto

lemma scan_block:
  assumes "clean_code p" and "pb_ok pb"
  shows "\<exists>pb'. embeded_scan plenty Sc_block pb out (p @ ''?>'' @ r) = (out, pb', Some r) \<and> wb_live pb' \<and> wb_text pb' = wb_text pb @ p @ [NUL]"
  using assms
proof (induction p arbitrary: pb rule: length_induct)
  case (1 p)
  note put = pi_putc_plenty [OF 1(3) [unfolded pb_ok_def]]
  have live: "pb_ok (snd (pi_putc plenty pb c))" for c using put by (simp add: pb_ok_def)
  show ?case
  proof (cases p rule: clean_code.cases)
    case 1
    with put show ?thesis by simp
  next
    case (2 c)
    with put 1(2) pi_putc_plenty [of "snd (pi_putc plenty pb c)" NUL] show ?thesis by simp
  next
    case (3 c d s)
    show ?thesis
    proof (cases "c = CHR ''/''")
      case True
      from 3 "1.prems"(1) True have c: "clean_code s" "d \<noteq> CHR ''/''" "d \<noteq> CHR ''*''" by (auto dest: clean_code_tl)
      let ?pb = "snd (pi_putc plenty (snd (pi_putc plenty pb c)) d)"
      have "wb_live ?pb" "wb_text ?pb = wb_text pb @ [c, d]" using put pi_putc_plenty [of "snd (pi_putc plenty pb c)" d] by auto
      with "1.IH" [rule_format, of s ?pb] c 3 True show ?thesis by (simp add: pb_ok_def)
    next
      case False
      from 3 "1.prems"(1) have c: "clean_code (d # s)" "c \<noteq> CHR ''?''" by auto
      with "1.IH" [rule_format, of "d # s" "snd (pi_putc plenty pb c)"] put live 3 False show ?thesis by simp
    qed
  qed
qed

subsection \<open>One block\<close>

lemma clean_no_nul: "clean_code p \<Longrightarrow> NUL \<notin> set p"
  by (induction p rule: clean_code.induct) auto

lemma cut_nul: "NUL \<notin> set p \<Longrightarrow> Xmldb_File.cut (p @ [NUL]) = p"
  unfolding Xmldb_File.cut_def by (induction p) auto

lemma show_ephp_format: "\<not> keyword ''ephp'' (show_ephp bs) \<and> \<not> (show_ephp bs \<noteq> [] \<and> hd (show_ephp bs) = CHR ''='')"
proof (cases bs)
  case (Cons b bs')
  then show ?thesis by (cases b) (simp_all add: show_ephp_def keyword_if)
qed (simp add: show_ephp_def keyword_if)

lemma check_format_code:
  assumes "list_all block_ok bs" and "clean_code (show_ephp bs)" and "wb_live (ep_pb st)" and "wb_text (ep_pb st) = show_ephp bs @ [NUL]"
  shows "check_format plenty st = Some (Inr bs)"
proof -
  have "Xmldb_File.cut (wb_text (ep_pb st)) = show_ephp bs" unfolding assms(4) by (rule cut_nul [OF clean_no_nul [OF assms(2)]])
  moreover have "parse_ephp plenty (show_ephp bs) = Some (Inr (bs, []))" using parse_list_back [of bs "[]"] block_back assms(1) by (simp add: list_all_iff)
  ultimately show ?thesis using show_ephp_format [of bs] assms(3) by (auto simp: check_format_def Let_def)
qed

lemma page_block:
  assumes "plain_text t" and "list_all block_ok bs" and "clean_code (show_ephp bs)" and "pe_alloc E = plenty" and "pb_ok (ep_pb st)"
  obtains pb where "wb_live pb" and "do_embeded_php (Suc n) E (t @ ''<?'' @ show_ephp bs @ ''?>'' @ rest) st =
    Option.bind (execute_sblist n E bs (b_puts t (st\<lparr>ep_pb := pb\<rparr>))) (\<lambda>(ret, st1). if ret \<noteq> 0 then Some (ret, st1) else do_embeded_php n E rest st1)"
proof -
  have "pb_ok (ep_pb st\<lparr>wb_text := []\<rparr>)" using assms(5) by (simp add: pb_ok_def)
  from scan_block [OF assms(3) this] obtain pb where pb: "embeded_scan plenty Sc_block (ep_pb st\<lparr>wb_text := []\<rparr>) t (show_ephp bs @ ''?>'' @ rest) = (t, pb, Some rest)"
      "wb_live pb" "wb_text pb = show_ephp bs @ [NUL]" by auto
  have s: "embeded_scan plenty Sc_text (ep_pb st) [] (t @ ''<?'' @ show_ephp bs @ ''?>'' @ rest) = (t, pb, Some rest)"
    using scan_text [OF assms(1), of plenty "ep_pb st" "[]" "''<?'' @ show_ephp bs @ ''?>'' @ rest"] pb(1) by simp
  let ?st = "b_puts t (st\<lparr>ep_pb := pb\<rparr>)"
  have "check_format plenty ?st = Some (Inr bs)" by (rule check_format_code [OF assms(2,3)]) (simp_all add: pb)
  then have "do_embeded_php (Suc n) E (t @ ''<?'' @ show_ephp bs @ ''?>'' @ rest) st =
      Option.bind (execute_sblist n E bs ?st) (\<lambda>(ret, st1). if ret \<noteq> 0 then Some (ret, st1) else do_embeded_php n E rest st1)"
    unfolding do_embeded_php.simps page_step_def assms(4) s by (simp add: Let_def)
  with pb(2) that show ?thesis by blast
qed

lemma page_end: "plain_text t \<Longrightarrow> do_embeded_php (Suc n) E t st = Some (0, b_puts t st)"
  using scan_text [of t "pe_alloc E" "ep_pb st" "[]" "[]"] by (simp add: page_step_def)

subsection \<open>Statements do not look at the buffer for blocks\<close>

definition with_pb :: "wbuf \<Rightarrow> ('a \<times> ephp) option \<Rightarrow> ('a \<times> ephp) option" where
  "with_pb pb = map_option (\<lambda>(r, st). (r, st\<lparr>ep_pb := pb\<rparr>))"

lemma with_pb_simps [simp]: "with_pb pb None = None" "with_pb pb (Some (r, st)) = Some (r, st\<lparr>ep_pb := pb\<rparr>)"
  by (simp_all add: with_pb_def)

lemma with_pb_bind: "with_pb pb (Option.bind x g) = Option.bind x (\<lambda>a. with_pb pb (g a))"
  by (cases x) simp_all

lemma b_putc_pb: "b_putc c (st\<lparr>ep_pb := pb\<rparr>) = (b_putc c st)\<lparr>ep_pb := pb\<rparr>"
  by (simp add: b_putc_def b_flush_def Let_def)

lemma b_puts_pb [simp]: "b_puts s (st\<lparr>ep_pb := pb\<rparr>) = (b_puts s st)\<lparr>ep_pb := pb\<rparr>"
  unfolding b_puts_def by (induction s arbitrary: st) (simp_all add: b_putc_pb)

lemma convert_pb: "convert_strlst al l (st\<lparr>ep_pb := pb\<rparr>) = with_pb pb (convert_strlst al l st)"
  by (cases "conv_loop al (ep_tree st) (ep_anchor st) NUL [] (ep_vars st) l") (auto simp: convert_strlst_def)

lemma convert_pb_cases:
  obtains "convert_strlst al l st = None" "convert_strlst al l (st\<lparr>ep_pb := pb\<rparr>) = None"
  | s st1 where "convert_strlst al l st = Some (s, st1)" "convert_strlst al l (st\<lparr>ep_pb := pb\<rparr>) = Some (s, st1\<lparr>ep_pb := pb\<rparr>)"
  using convert_pb [where al = al and l = l and st = st and pb = pb] by (cases "convert_strlst al l st") auto

lemma check_pb: "check_condition al r cs (st\<lparr>ep_pb := pb\<rparr>) = with_pb pb (check_condition al r cs st)"
proof (induction cs arbitrary: r st)
  case (Cons c cs)
  show ?case
  proof (cases rule: convert_pb_cases [of al "operand1 c" st pb])
    case (2 s sa)
    then show ?thesis
      by (cases rule: convert_pb_cases [of al "operand2 c" sa pb]) (auto simp: Cons.IH Let_def split: option.split)
  qed simp
qed simp

lemma match_pb: "map_match al v ms (st\<lparr>ep_pb := pb\<rparr>) = with_pb pb (map_match al v ms st)"
proof (induction ms arbitrary: st)
  case (Cons m ms)
  obtain p out where m: "m = (p, out)" by (cases m)
  show ?case
    by (cases rule: convert_pb_cases [of al p st pb]) (auto simp: m Cons.IH convert_pb)
qed simp

lemma log_output_pb: "log_output fs f (st\<lparr>ep_pb := pb\<rparr>) = map_option (\<lambda>st. st\<lparr>ep_pb := pb\<rparr>) (log_output fs f st)"
  by (induction fs f st rule: log_output.induct) (auto simp: b_putc_pb Let_def split: list.split)

lemma log_lines_pb: "log_lines al fmt fh (st\<lparr>ep_pb := pb\<rparr>) = map_option (\<lambda>st. st\<lparr>ep_pb := pb\<rparr>) (log_lines al fmt fh st)"
proof (induction al fmt fh st rule: log_lines.induct)
  case (1 al fmt fh st)
  show ?case
  proof (cases "lrgbin_get_line_from_file al True fh")
    case None
    then show ?thesis by (simp add: log_lines.simps)
  next
    case (Some x)
    obtain line r where x: "x = (line, r)" by (cases x)
    show ?thesis
    proof (cases line)
      case None
      with Some x show ?thesis by (simp add: log_lines.simps)
    next
      case l: (Some y)
      show ?thesis
      proof (cases "log_fields 0 (xmldb_eatwhite y) = None \<or> fmt = None")
        case True
        with Some x l show ?thesis by (auto simp: log_lines.simps [of al _ fh])
      next
        case False
        then obtain fs f where f: "log_fields 0 (xmldb_eatwhite y) = Some fs" "fmt = Some f" by auto
        show ?thesis
        proof (cases "log_output fs f st")
          case None
          with Some x l f show ?thesis by (simp add: log_lines.simps [of al _ fh] log_output_pb)
        next
          case o: (Some sa)
          from 1 [OF Some x [symmetric] l f o] Some x l f o show ?thesis
            by (simp add: log_lines.simps [of al _ fh] log_output_pb b_putc_pb)
        qed
      qed
    qed
  qed
qed


lemma freed_at_pb: "freed_at d (st\<lparr>ep_pb := pb\<rparr>) = (freed_at d st)\<lparr>ep_pb := pb\<rparr>"
  by (simp add: freed_at_def split: option.split)

lemma map_out_pb:
  "(case (out, d) of (None, Some (_, x)) \<Rightarrow> convert_strlst al x (st\<lparr>ep_pb := pb\<rparr>) | _ \<Rightarrow> Some (out, st\<lparr>ep_pb := pb\<rparr>)) =
   with_pb pb (case (out, d) of (None, Some (_, x)) \<Rightarrow> convert_strlst al x st | _ \<Rightarrow> Some (out, st))"
  by (auto simp: convert_pb split: option.split)

lemma bind_with_pb:
  assumes "\<And>r st. f r (st\<lparr>ep_pb := pb\<rparr>) = with_pb pb (f r st)"
  shows "Option.bind (with_pb pb x) (\<lambda>(r, st). f r st) = with_pb pb (Option.bind x (\<lambda>(r, st). f r st))"
  using assms by (cases x) auto

lemma execute_map_pb: "execute_map al l d ms (st\<lparr>ep_pb := pb\<rparr>) = with_pb pb (execute_map al l d ms st)"
proof (cases rule: convert_pb_cases [of al l st pb])
  case (2 n sa)
  have "Option.bind (map_match al w ms (sa\<lparr>ep_pb := pb\<rparr>)) (\<lambda>(out, st2).
      Option.bind (case (out, d) of (None, Some (_, x)) \<Rightarrow> convert_strlst al x st2 | _ \<Rightarrow> Some (out, st2)) (\<lambda>(out', st3).
        Some (0::int, b_puts (case out' of Some t \<Rightarrow> t | None \<Rightarrow> w) st3))) =
    with_pb pb (Option.bind (map_match al w ms sa) (\<lambda>(out, st2).
      Option.bind (case (out, d) of (None, Some (_, x)) \<Rightarrow> convert_strlst al x st2 | _ \<Rightarrow> Some (out, st2)) (\<lambda>(out', st3).
        Some (0, b_puts (case out' of Some t \<Rightarrow> t | None \<Rightarrow> w) st3))))" for w
    unfolding match_pb by (intro bind_with_pb) (unfold map_out_pb, intro bind_with_pb, simp)
  then show ?thesis
    using 2 by (cases n; cases "query_node al (ep_tree sa) (ep_anchor sa) (the n) False") (auto simp: execute_map_def split: option.split)
qed (simp add: execute_map_def)

lemma pb_last:
  "st\<lparr>ep_pb := pb, ep_vars := vs\<rparr> = st\<lparr>ep_vars := vs, ep_pb := pb\<rparr>" "st\<lparr>ep_pb := pb, ep_anchor := a\<rparr> = st\<lparr>ep_anchor := a, ep_pb := pb\<rparr>"
  "st\<lparr>ep_pb := pb, ep_saved := ps\<rparr> = st\<lparr>ep_saved := ps, ep_pb := pb\<rparr>" "st\<lparr>ep_pb := pb, ep_tree := t\<rparr> = st\<lparr>ep_tree := t, ep_pb := pb\<rparr>" "st\<lparr>ep_pb := pb, ep_notify := ms\<rparr> = st\<lparr>ep_notify := ms, ep_pb := pb\<rparr>"
  by (cases st; simp)+

lemmas pb_simps = pb_last freed_at_pb with_pb_bind case_prod_unfold

lemma execute_set_pb: "execute_set al l v (st\<lparr>ep_pb := pb\<rparr>) = with_pb pb (execute_set al l v st)"
proof (cases rule: convert_pb_cases [of al l st pb])
  case (2 n sa)
  then show ?thesis
    by (cases rule: convert_pb_cases [of al v sa pb]) (simp_all add: execute_set_def pb_simps split: option.split)
qed (simp add: execute_set_def)

lemma execute_anchor_pb: "execute_anchor al l (st\<lparr>ep_pb := pb\<rparr>) = with_pb pb (execute_anchor al l st)"
  by (cases rule: convert_pb_cases [of al l st pb]) (simp_all add: execute_anchor_def pb_simps split: option.split)

lemma exec_query_pb: "exec_query al l js (st\<lparr>ep_pb := pb\<rparr>) = with_pb pb (exec_query al l js st)"
proof (cases rule: convert_pb_cases [of al l st pb])
  case (2 n sa)
  have "Option.bind x (\<lambda>v. Some (case v of None \<Rightarrow> (-1, sa\<lparr>ep_pb := pb\<rparr>) | Some w \<Rightarrow> (0, b_puts w (sa\<lparr>ep_pb := pb\<rparr>)))) =
    with_pb pb (Option.bind x (\<lambda>v. Some (case v of None \<Rightarrow> (-1 :: int, sa) | Some w \<Rightarrow> (0, b_puts w sa))))" for x
    by (cases x; cases "the x") simp_all
  with 2 show ?thesis by (cases n) (simp_all add: exec_query_def)
qed (simp add: exec_query_def)

lemma execute_del_pb: "execute_del al l (st\<lparr>ep_pb := pb\<rparr>) = with_pb pb (execute_del al l st)"
  by (cases rule: convert_pb_cases [of al l st pb]) (simp_all add: execute_del_def pb_simps split: option.split)

lemma execute_echo_pb: "execute_echo al l (st\<lparr>ep_pb := pb\<rparr>) = with_pb pb (execute_echo al l st)"
  by (cases rule: convert_pb_cases [of al l st pb]) (simp_all add: execute_echo_def pb_simps split: option.split)

lemma execute_assign_pb: "execute_assign al aop n l (st\<lparr>ep_pb := pb\<rparr>) = with_pb pb (execute_assign al aop n l st)"
  by (cases rule: convert_pb_cases [of al l st pb]) (simp_all add: execute_assign_def pb_simps split: option.split)

lemma execute_inclog_pb: "execute_inclog E f g (st\<lparr>ep_pb := pb\<rparr>) = with_pb pb (execute_inclog E f g st)"
  by (cases g; cases "pe_tlogs E") (auto simp: execute_inclog_def log_lines_pb option.map_comp comp_def with_pb_def split: option.split)

lemma exec_plain_pb: "exec_plain E b (st\<lparr>ep_pb := pb\<rparr>) = with_pb pb (exec_plain E b st)"
  by (cases b) (simp_all add: exec_plain_def execute_query_def execute_queryjs_def execute_map_pb execute_set_pb execute_anchor_pb exec_query_pb execute_del_pb execute_echo_pb execute_assign_pb execute_inclog_pb)

lemma run_entries_pb:
  assumes "\<And>s. run (s\<lparr>ep_pb := pb\<rparr>) = with_pb pb (run s)"
  shows "run_entries run al entry i (st\<lparr>ep_pb := pb\<rparr>) = with_pb pb (run_entries run al entry i st)"
  using assms
proof (induction run al entry i st rule: run_entries.induct)
  case (1 run al entry i st)
  show ?case
  proof (cases "\<exists>q nd k vs ret sa. ep_saved st ! 0 = Node q \<and> node_at (ep_tree st) q = Some nd \<and> sibling (node_child nd) entry i = Some k \<and>
      length (itoa i) < 8 \<and> ephp_set_var al ''#'' (itoa i) (ep_vars st) = Some vs \<and>
      run (st\<lparr>ep_anchor := Node (q @ [k]), ep_vars := vs\<rparr>) = Some (0, sa)")
    case True
    then obtain q nd k vs sa where x: "ep_saved st ! 0 = Node q" "node_at (ep_tree st) q = Some nd" "sibling (node_child nd) entry i = Some k"
        "length (itoa i) < 8" "ephp_set_var al ''#'' (itoa i) (ep_vars st) = Some vs" "run (st\<lparr>ep_anchor := Node (q @ [k]), ep_vars := vs\<rparr>) = Some (0, sa)" by blast
    have "run_entries run al entry (i + 1) (sa\<lparr>ep_pb := pb\<rparr>) = with_pb pb (run_entries run al entry (i + 1) sa)"
      using "1.IH" x "1.prems" by simp
    with x "1.prems" [of "st\<lparr>ep_anchor := Node (q @ [k]), ep_vars := vs\<rparr>"] show ?thesis
      by (simp add: run_entries.simps [of _ _ _ i] pb_last)
  next
    case False
    with "1.prems" show ?thesis
      by (auto simp: run_entries.simps [of _ _ _ i] pb_last with_pb_bind case_prod_unfold split: nptr.split bind_split option.split)
  qed
qed

lemma execute_for_pb:
  assumes "\<And>entry s. loop entry 1 (s\<lparr>ep_pb := pb\<rparr>) = with_pb pb (loop entry 1 s)"
  shows "execute_for loop al l (st\<lparr>ep_pb := pb\<rparr>) = with_pb pb (execute_for loop al l st)"
proof (cases rule: convert_pb_cases [of al l st pb])
  case (2 path sa)
  then show ?thesis
    using assms by (cases path) (auto simp: execute_for_def pb_last with_pb_bind split: option.split bind_split)
qed (simp add: execute_for_def)

lemma run_pb:
  "run_list E bs (st\<lparr>ep_pb := pb\<rparr>) = with_pb pb (run_list E bs st)"
  "run_block E b (st\<lparr>ep_pb := pb\<rparr>) = with_pb pb (run_block E b st)"
proof (induction E bs st and E b st rule: run_list_run_block.induct)
  case (2 E b bs st)
  then show ?case by (cases "run_block E b st") auto
next
  case (3 E cs yes no st)
  then show ?case by (cases "check_condition (pe_alloc E) (- 1) cs st") (auto simp: check_pb)
next
  case (4 E l bs st)
  then show ?case unfolding run_block.simps by (intro execute_for_pb run_entries_pb)
qed (simp_all add: exec_plain_pb)

subsection \<open>Pages\<close>

datatype page_seg = Html "char list" | Code "sblock_t list"

fun show_page :: "page_seg list \<Rightarrow> char list" where
  "show_page [] = []"
| "show_page (Html t # ss) = t @ show_page ss"
| "show_page (Code bs # ss) = ''<?'' @ show_ephp bs @ ''?>'' @ show_page ss"

fun page_ok :: "page_seg list \<Rightarrow> bool" where
  "page_ok [] \<longleftrightarrow> True"
| "page_ok (Html t # ss) \<longleftrightarrow> plain_text t \<and> page_ok ss"
| "page_ok (Code bs # ss) \<longleftrightarrow> list_all block_ok bs \<and> list_all no_require bs \<and> clean_code (show_ephp bs) \<and> page_ok ss"

fun page_cost :: "page_seg list \<Rightarrow> nat" where
  "page_cost [] = 1"
| "page_cost (Html t # ss) = page_cost ss"
| "page_cost (Code bs # ss) = Suc (max (cost_list bs) (page_cost ss))"

text \<open>The meaning of a page.\<close>

fun render :: "ephp_env \<Rightarrow> page_seg list \<Rightarrow> ephp \<Rightarrow> outcome" where
  "render E [] st = Some (0, st)"
| "render E (Html t # ss) st = render E ss (b_puts t st)"
| "render E (Code bs # ss) st = Option.bind (run_list E bs st) (\<lambda>(ret, st1). if ret \<noteq> 0 then Some (ret, st1) else render E ss st1)"

lemma b_puts_append: "b_puts (s @ t) st = b_puts t (b_puts s st)"
  by (simp add: b_puts_def)

lemma with_pb_twice [simp]: "with_pb pb (with_pb pb' x) = with_pb pb x"
  by (cases x) auto

lemma render_pb: "render E ss (st\<lparr>ep_pb := pb\<rparr>) = with_pb pb (render E ss st)"
proof (induction E ss st rule: render.induct)
  case (3 E bs ss st)
  then show ?case by (cases "run_list E bs st") (auto simp: run_pb(1))
qed simp_all

lemma page_rendered:
  assumes "pe_alloc E = plenty" and "page_ok ss" and "page_cost ss \<le> n" and "plain_text t" and "pb_ok (ep_pb st)"
  shows "\<exists>pb. pb_ok pb \<and> do_embeded_php n E (t @ show_page ss) st = with_pb pb (render E ss (b_puts t st))"
  using assms(2-)
proof (induction ss arbitrary: n t st)
  case Nil
  then obtain m where "n = Suc m" by (cases n) auto
  with Nil show ?case using page_end [of t m E st] by (intro exI [of _ "ep_pb st"]) (simp add: with_pb_def)
next
  case (Cons s ss)
  show ?case
  proof (cases s)
    case (Html u)
    with Cons.IH [of n "t @ u" st] Cons.prems show ?thesis by (simp add: plain_text_append b_puts_append)
  next
    case (Code bs)
    with Cons.prems obtain m where m: "n = Suc m" "cost_list bs \<le> m" "page_cost ss \<le> m" by (cases n) auto
    have ok: "list_all block_ok bs" "list_all no_require bs" "clean_code (show_ephp bs)" "page_ok ss" using Cons.prems(1) Code by simp_all
    obtain pb where pb: "wb_live pb" "do_embeded_php (Suc m) E (t @ ''<?'' @ show_ephp bs @ ''?>'' @ show_page ss) st =
      Option.bind (execute_sblist m E bs (b_puts t (st\<lparr>ep_pb := pb\<rparr>))) (\<lambda>(ret, st1). if ret \<noteq> 0 then Some (ret, st1) else do_embeded_php m E (show_page ss) st1)"
      using page_block [OF Cons.prems(3) ok(1,3) assms(1) Cons.prems(4)] by blast
    have x: "execute_sblist m E bs (b_puts t (st\<lparr>ep_pb := pb\<rparr>)) = with_pb pb (run_list E bs (b_puts t st))"
      using no_require_exec(1) [OF ok(2) m(2)] run_pb(1) by simp
    show ?thesis
    proof (cases "run_list E bs (b_puts t st)")
      case None
      with pb x m(1) Code show ?thesis by (intro exI [of _ pb]) (simp add: pb_ok_def)
    next
      case (Some y)
      obtain r sa where y: "y = (r, sa)" by (cases y)
      show ?thesis
      proof (cases "r = 0")
        case True
        have "pb_ok (ep_pb (sa\<lparr>ep_pb := pb\<rparr>))" using pb(1) by (simp add: pb_ok_def)
        from Cons.IH [OF ok(4) m(3) _ this, of "[]"] obtain pb' where "pb_ok pb'"
            "do_embeded_php m E (show_page ss) (sa\<lparr>ep_pb := pb\<rparr>) = with_pb pb' (render E ss (sa\<lparr>ep_pb := pb\<rparr>))" by (auto simp: b_puts_def)
        moreover have "with_pb pb' (render E ss (sa\<lparr>ep_pb := pb\<rparr>)) = with_pb pb' (render E ss sa)" using render_pb by simp
        ultimately show ?thesis using pb x m(1) Code Some y True by auto
      next
        case False
        with pb x m(1) Code Some y show ?thesis by (intro exI [of _ pb]) (simp add: pb_ok_def)
      qed
    qed
  qed
qed


text \<open>C8: A page is made of text in which a \<open><\<close> is followed by neither a question mark nor another \<open><\<close>, and of blocks of
  statements, conditions and loops included but without \<^verbatim>\<open>require\<close>, written by the printer of the statements, with neither comments
  nor question marks in the code. When memory is available, with the fuel \<open>page_cost\<close> or more, executing its text does exactly what evaluating it piece by piece does:
  text is printed, the statements of the blocks are evaluated one after the other without fuel, and a
  statement that fails or \<^verbatim>\<open>exit\<close> ends the page. The scanner, the parser, the dispatch on the format of a block and the fuel drop out;
  the effect of a single statement and the buffer for the output are the same on both sides. The two agree in the result, in the state and in the faults, except for the contents of the
  buffer for blocks.\<close>

theorem ephp_page_refines:
  assumes "page_ok ss" and "page_cost ss \<le> n" and "pe_alloc E = plenty" and "pb_ok (ep_pb st)"
  shows "\<exists>pb. do_embeded_php n E (show_page ss) st = with_pb pb (render E ss st)"
  using page_rendered [OF assms(3,1,2) _ assms(4), of "[]"] by (auto simp: b_puts_def)

theorem ephp_page_refines_witness:
  "\<exists>st1. do_embeded_php (10 ^ 7 + 4) ephp_example_env (show_page [Html ''<b>'', Code [SB_FOR [ST_STR (Some ''/l/h'') NUL] [SB_ECHO [ST_VAR (Some ''#'') NUL]], SB_EXIT], Html ''</b>'']) ephp_example_state =
     Some (1, st1) \<and> ep_out st1 = ''<b>1''"
proof -
  let ?ss = "[Html ''<b>'', Code [SB_FOR [ST_STR (Some ''/l/h'') NUL] [SB_ECHO [ST_VAR (Some ''#'') NUL]], SB_EXIT], Html ''</b>'']"
  have "map_option (\<lambda>(r, s). (r, ep_out s)) (render ephp_example_env ?ss ephp_example_state) = Some (1, ''<b>1'')" by code_simp
  then obtain st1 where r: "render ephp_example_env ?ss ephp_example_state = Some (1, st1)" "ep_out st1 = ''<b>1''" by auto
  have "page_ok ?ss" by code_simp
  from ephp_page_refines [OF this, of "10 ^ 7 + 4" ephp_example_env ephp_example_state] r show ?thesis
    by (auto simp: ephp_example_env_def ephp_example_state_def pb_ok_def simp del: render.simps do_embeded_php.simps show_page.simps)
qed

subsection \<open>A request for a page\<close>

lemma query_statement:
  assumes "pe_alloc E = plenty" and "length p < 511" and "ep_anchor st = Null" and "xmldb_get_value plenty None p (ep_tree st) = Some v"
  shows "run_list E [SB_QUERY [ST_STR (Some p) NUL]] st = Some (0, b_puts v st)"
  using assms by (simp add: exec_plain_def execute_query_def exec_query_def convert_strlst_def operand_ok_def apply_op_def arith_ops_def
    query_node_def root_for_def strdup_def)

lemma page_query:
  assumes "pe_files E f = Some (t1 @ ''<?'' @ show_ephp [SB_QUERY [ST_STR (Some p) NUL]] @ ''?>'' @ t2)"
    and "plain_text t1" and "plain_text t2" and "clean_code (show_ephp [SB_QUERY [ST_STR (Some p) NUL]])" and "length p < 511"
    and "xmldb_get_value plenty None p (ep_tree st) = Some v" and "ep_anchor st = Null"
    and "CHR 0x0A \<notin> set f" and "pe_alloc E = plenty" and "pb_ok (ep_pb st)" and "buffer_ok st" and "vars_ok (ep_vars st)"
  shows "\<exists>st1. xmldb_ephp (k + 2) E f st = Some (0, st1) \<and> concat (ep_writes st1) = ep_out st @ t1 @ v @ t2 @ [NUL] \<and> ep_buffer st1 = [] \<and>
    ep_tree st1 = ep_tree st \<and> ep_vars st1 = []"
proof -
  let ?b = "SB_QUERY [ST_STR (Some p) NUL]" let ?ss = "[Html t1, Code [?b], Html t2]"
  obtain vs where vs: "ephp_set_var plenty ''#'' ''0'' (ep_vars st) = Some vs" using set_var_ok [OF assms(12)] by blast
  define s0 where "s0 = st\<lparr>ep_vars := vs\<rparr>"
  have NUL_p: "NUL \<notin> set (escape p)" using clean_no_nul [OF assms(4)] by (simp add: show_ephp_def show_strlst_def quoted_def)
  have "NUL \<notin> set p" using NUL_p by (induction p) (auto split: if_splits)
  then have "page_ok ?ss" using assms(2-5) by (simp add: strlst_ok_def ops_ok_def str_ok_def MAX_STRING_LEN_def)
  moreover have "page_cost ?ss \<le> k + 2" "pb_ok (ep_pb s0)" "plain_text []" using assms(10) by (simp_all add: s0_def)
  ultimately obtain pb where "do_embeded_php (k + 2) E (show_page ?ss) s0 = with_pb pb (render E ?ss (b_puts [] s0))"
    using page_rendered [OF assms(9), of ?ss "k + 2" "[]" s0] by auto
  moreover have "run_list E [?b] (b_puts t1 s0) = Some (0, b_puts v (b_puts t1 s0))"
    using assms(5-7,9) by (intro query_statement) (simp_all add: s0_def)
  moreover have "b_puts [] s0 = s0" by (simp add: b_puts_def)
  ultimately have page: "do_embeded_php (k + 2) E (show_page ?ss) s0 = Some (0, (b_puts t2 (b_puts v (b_puts t1 s0)))\<lparr>ep_pb := pb\<rparr>)"
    by (simp del: run_list.simps do_embeded_php.simps show_page.simps)
  let ?s = "(b_puts (t1 @ v @ t2) s0)\<lparr>ep_pb := pb, ep_vars := []\<rparr>"
  have "strchr f NL = None" using assms(8) by (induction f) auto
  with vs page assms(1,9) have x: "xmldb_ephp (k + 2) E f st = Some (0, b_flush (b_putc NUL ?s))"
    by (simp add: xmldb_ephp_def s0_def b_puts_append clear_var_def)
  have o: "buffer_ok ?s" "ep_out ?s = ep_out st @ t1 @ v @ t2" using b_puts_out [of s0 "t1 @ v @ t2"] assms(11) by (simp_all add: s0_def)
  have "concat (ep_writes (b_flush (b_putc NUL ?s))) = ep_out (b_putc NUL ?s)" by (simp add: b_flush_def ep_out_def)
  with b_putc_out [OF o(1), of NUL] o(2) have "concat (ep_writes (b_flush (b_putc NUL ?s))) = ep_out st @ t1 @ v @ t2 @ [NUL]" by simp
  moreover have "ep_tree (b_flush (b_putc NUL ?s)) = ep_tree st" "ep_vars (b_flush (b_putc NUL ?s)) = []" "ep_buffer (b_flush (b_putc NUL ?s)) = []"
    by (simp_all add: b_flush_def b_putc_other s0_def)
  ultimately show ?thesis using x by simp
qed

text \<open>A request for a page that shows a value of the database: the client receives the text before the statement, exactly the value
  that is stored under the path, the text behind it, and the terminating NUL, and everything has been written when the
  request is done. The database is as it was and the variables are gone.\<close>

theorem ephp_page_query:
  assumes "pe_files E f = Some (t1 @ ''<?'' @ show_ephp [SB_QUERY [ST_STR (Some p) NUL]] @ ''?>'' @ t2)"
    and "plain_text t1" and "plain_text t2" and "clean_code (show_ephp [SB_QUERY [ST_STR (Some p) NUL]])" and "length p < 511"
    and "xmldb_get_value plenty None p (ep_tree st) = Some v" and "ep_anchor st = Null"
    and "CHR 0x0A \<notin> set f" and "pe_alloc E = plenty" and "pb_ok (ep_pb st)" and "buffer_ok st" and "vars_ok (ep_vars st)"
  shows "\<exists>st1. xmldb_ephp (k + 2) E f st = Some (0, st1) \<and> concat (ep_writes st1) = ep_out st @ t1 @ v @ t2 @ [NUL] \<and> ep_buffer st1 = [] \<and>
    ep_tree st1 = ep_tree st \<and> ep_vars st1 = []"
  by (rule page_query [OF assms])

theorem ephp_page_query_witness:
  "let E = ephp_example_env\<lparr>pe_files := (\<lambda>f. if f = ''index'' then Some (''<b>'' @ ''<?'' @ show_ephp [SB_QUERY [ST_STR (Some ''/l/h:1'') NUL]] @ ''?>'' @ ''</b>'') else None)\<rparr> in
   \<exists>st1. xmldb_ephp (1 + 2) E ''index'' ephp_example_state = Some (0, st1) \<and>
     concat (ep_writes st1) = ep_out ephp_example_state @ ''<b>'' @ ''v'' @ ''</b>'' @ [NUL] \<and> ep_buffer st1 = [] \<and>
     ep_tree st1 = ep_tree ephp_example_state \<and> ep_vars st1 = []"
  unfolding Let_def
proof (rule ephp_page_query)
  show "xmldb_get_value plenty None ''/l/h:1'' (ep_tree ephp_example_state) = Some ''v''" by code_simp
qed (simp_all add: ephp_example_env_def ephp_example_state_def show_ephp_def show_strlst_def quoted_def show_op_def pb_ok_def buffer_ok_def vars_ok_def)

subsection \<open>Comments\<close>

lemma scan_comment: "CHR ''*'' \<notin> set s \<Longrightarrow> embeded_scan al Sc_comment pb out (s @ r) = embeded_scan al Sc_comment pb out r"
  by (induction s) auto

text \<open>A comment that ends with two stars and a slash is not closed: the second star is skipped together with the first. Unless
  a later comment ends in the usual way, the rest of the page, text and statements, is dropped without a message.\<close>

theorem comment_swallows_page:
  assumes "plain_text t" and "CHR ''*'' \<notin> set s" and "CHR ''*'' \<notin> set r"
  shows "do_embeded_php (Suc n) E (t @ ''<?/*'' @ s @ ''**/'' @ r) st = Some (0, b_puts t (st\<lparr>ep_pb := ep_pb st\<lparr>wb_text := []\<rparr>\<rparr>))"
proof -
  have "embeded_scan (pe_alloc E) Sc_comment (ep_pb st\<lparr>wb_text := []\<rparr>) t (s @ ''**/'' @ r) = (t, ep_pb st\<lparr>wb_text := []\<rparr>, None)"
    using scan_comment [OF assms(3), of "pe_alloc E" _ _ "[]"] by (simp add: scan_comment [OF assms(2)])
  then have "embeded_scan (pe_alloc E) Sc_text (ep_pb st) [] (t @ ''<?/*'' @ s @ ''**/'' @ r) = (t, ep_pb st\<lparr>wb_text := []\<rparr>, None)"
    using scan_text [OF assms(1), of "pe_alloc E" "ep_pb st" "[]" "''<?/*'' @ s @ ''**/'' @ r"] by simp
  then show ?thesis by (simp add: page_step_def)
qed

theorem comment_swallows_page_witness:
  "do_embeded_php (Suc 2) ephp_example_env (''a'' @ ''<?/*'' @ '' note '' @ ''**/'' @ '' echo 1;?>b'') ephp_example_state =
   Some (0, b_puts ''a'' (ephp_example_state\<lparr>ep_pb := ep_pb ephp_example_state\<lparr>wb_text := []\<rparr>\<rparr>))"
  by (rule comment_swallows_page) simp_all


end
