(* ===== verification/Ephp_Session.thy ===== *)
theory Ephp_Session
  imports Rgdb_Session Ephp_Page
begin

text \<open>
  A page of the web interface end to end: a client of the daemon sets a value, another one asks for a page that shows it. The
  library, the daemon, the tree and the interpreter of \<^verbatim>\<open>ephp.c\<close> work together here.
\<close>

text \<open>A request for a page with one query is answered with the page, the value in its place, and a NUL.\<close>

lemma serve_page:
  assumes "daemon_ok st" and "idle k fd st" and "\<forall>n. e_alloc e n"
    and "d_files st f = Some (t1 @ ''<?'' @ show_ephp [SB_QUERY [ST_STR (Some p) NUL]] @ ''?>'' @ t2)"
    and "plain_text t1" and "plain_text t2" and "clean_code (show_ephp [SB_QUERY [ST_STR (Some p) NUL]])" and "length p < 511"
    and "xmldb_get_value (e_alloc e) None p (d_tree st) = Some v" and "ep_anchor (d_ephp st) = Null" and "pb_ok (ep_pb (d_ephp st))"
    and "NL \<notin> set f" and "NUL \<notin> set f" and "e_fuel e = j + 2" and "length f + 1 < 2 ^ 16"
    and "i = \<lparr>ipc_action = RGDB_EPHP, ipc_length = of_nat (length f + 1), ipc_flags = fl, ipc_retcode = g\<rparr>"
  shows "\<exists>st'. serve e fd (ipc_image i @ f @ [NUL]) st = Some st' \<and> concat (replies fd st') = t1 @ v @ t2 @ [NUL]"
proof -
  let ?a = "asked k fd i [] st" and ?b = "asked k fd i (f @ [NUL]) st"
  note af = asked_fields [OF assms(2,1)]
  have al: "e_alloc e = plenty" using assms(3) by auto
  have clean: "ep_buffer (d_ephp st) = []" "ep_vars (d_ephp st) = []" using assms(1) by (simp_all add: daemon_ok_def buffer_clean_def)
  let ?E = "\<lparr>pe_alloc = e_alloc e, pe_files = d_files st, pe_tlogs = e_tlogs e, pe_tlog_text = e_tlog_text e\<rparr>"
  let ?s = "(d_ephp st)\<lparr>ep_tree := d_tree st, ep_writes := [], ep_notify := []\<rparr>"
  have "\<exists>es. xmldb_ephp (j + 2) ?E f ?s = Some (0, es) \<and> concat (ep_writes es) = ep_out ?s @ t1 @ v @ t2 @ [NUL] \<and> ep_buffer es = [] \<and>
      ep_tree es = ep_tree ?s \<and> ep_vars es = []"
    by (rule page_query) (use assms(4-12) clean al in \<open>simp_all add: buffer_ok_def vars_ok_def\<close>)
  then obtain es where es: "run_ephp e f ?a = Some (0, es)" "concat (ep_writes es) = t1 @ v @ t2 @ [NUL]"
    using clean by (auto simp: run_ephp_def assms(14) af ep_out_def)
  let ?w = "sock_write fd (ep_writes es) (?a\<lparr>d_tree := ep_tree es, d_notify := d_notify ?a @ ep_notify es, d_ephp := es\<rparr>)"
  have "do_ephp e k ?b = Some (int (length f) + 1, ?w)"
    unfolding do_ephp_def using assms(13,15,16) es(1) by (subst with_param_asked [OF assms(1-3)]) (simp_all add: af)
  then have h: "rhandler e k ?b = Some (int (length f) + 1, set_ipc k ((client_ipc k ?w)\<lparr>ipc_action := RGDB_NONE\<rparr>) ?w)"
    using assms(16) by (simp add: rhandler_def af Let_def action_done_def RGDB_NONE_def RGDB_GET_def RGDB_SET_def RGDB_SET_NOTIFY_def RGDB_DEL_def
      RGDB_RELOAD_def RGDB_DUMP_def RGDB_PATCH_def RGDB_EPHP_def)
  have "serve e fd (ipc_image i @ f @ [NUL]) st = Some (set_ipc k ((client_ipc k ?w)\<lparr>ipc_action := RGDB_NONE\<rparr>) ?w)"
    by (rule serve_request [OF assms(1,2) h]) simp
  moreover have "replies fd (set_ipc k ((client_ipc k ?w)\<lparr>ipc_action := RGDB_NONE\<rparr>) ?w) = ep_writes es"
    by (simp add: replies_def set_ipc_def sock_write_def af)
  ultimately show ?thesis using es(2) by simp
qed

text \<open>C5: The web interface end to end. One client of the daemon sets a value with \<open>lrgdb_set\<close>; then another one asks with \<open>lrgdb_ephp\<close> for
  a page that shows the value under this path (which the daemon has turned into lower case). Both requests are served
  in two rounds of the main loop each, and in whatever pieces the answer arrives, the second client prints the text of the page with
  exactly the value that the first one has set in place of the statement.\<close>

theorem rgdb_set_then_page:
  assumes "daemon_ok st" and "idle a fa st" and "idle b fb st" and "fa \<noteq> fb" and "\<forall>n. e_alloc e n"
    and "askable (map tolower node)" and "NUL \<notin> set v" and "length node + length v < 254"
    and "d_files st f = Some (t1 @ ''<?'' @ show_ephp [SB_QUERY [ST_STR (Some (map tolower node)) NUL]] @ ''?>'' @ t2)"
    and "plain_text t1" and "plain_text t2" and "clean_code (show_ephp [SB_QUERY [ST_STR (Some (map tolower node)) NUL]])"
    and "ep_anchor (d_ephp st) = Null" and "pb_ok (ep_pb (d_ephp st))" and "NUL \<notin> set (t1 @ t2)"
    and "NL \<notin> set f" and "NUL \<notin> set f" and "e_fuel e = j + 2" and "length f + 1 < 2 ^ 16"
  shows "\<exists>m1 m2 st1 st2. serve e fa (concat m1) st = Some st1 \<and> lrgdb_set True True g flags node v (replies fa st1) = Some (0, m1) \<and>
    serve e fb (concat m2) st1 = Some st2 \<and>
    (\<forall>pieces. concat pieces = concat (replies fb st2) \<and> [] \<notin> set pieces \<longrightarrow> lrgdb_ephp True True h fl f pieces = (0, m2, t1 @ v @ t2))"
proof -
  let ?i = "\<lparr>ipc_action = RGDB_SET, ipc_length = of_nat (length node + length v + 2), ipc_flags = flags, ipc_retcode = g\<rparr>"
  let ?j = "\<lparr>ipc_action = RGDB_EPHP, ipc_length = of_nat (length f + 1), ipc_flags = fl, ipc_retcode = h\<rparr>"
  let ?m1 = "[ipc_image ?i, node @ CHR '' '' # v @ [NUL]]" and ?m2 = "[ipc_image ?j, f @ [NUL]]"
  have legal: "legal_path (map tolower node)" using assms(6) by (simp add: askable_def)
  have len: "length node + length v + 2 < 2 ^ 16" using assms(8) by simp
  obtain st1 where s1: "serve e fa (concat ?m1) st = Some st1"
    and get: "xmldb_get_value (e_alloc e) None (map tolower node) (d_tree st1) = Some v"
    and ack: "replies fa st1 = [ipc_image (?i\<lparr>ipc_action := RGDB_NONE, ipc_length := 0, ipc_retcode := 0\<rparr>)]"
    and b: "idle b fb st1" and ok: "daemon_ok st1" and same: "d_files st1 = d_files st" "d_ephp st1 = d_ephp st"
    using serve_set [OF assms(1,2,5) legal askable_chars [OF assms(6)] assms(7) len refl, of flags g] assms(3,4) by fastforce
  have "\<exists>st2. serve e fb (ipc_image ?j @ f @ [NUL]) st1 = Some st2 \<and> concat (replies fb st2) = t1 @ v @ t2 @ [NUL]"
    by (rule serve_page [OF ok b assms(5) _ assms(10-12) _ get _ _ assms(16-19) refl]) (use assms(8,9,13,14) same in simp_all)
  then obtain st2 where s2: "serve e fb (concat ?m2) st1 = Some st2" and out: "concat (replies fb st2) = (t1 @ v @ t2) @ [NUL]" by auto
  have 1: "lrgdb_set True True g flags node v (replies fa st1) = Some (0, ?m1)" unfolding ack by (rule lrgdb_set_frame [OF assms(8)])
  have 2: "lrgdb_ephp True True h fl f pieces = (0, ?m2, t1 @ v @ t2)" if "concat pieces = concat (replies fb st2)" "[] \<notin> set pieces" for pieces
    unfolding lrgdb_ephp_def by (rule text_request_served [OF assms(19)]) (use that out assms(7,15) in auto)
  show ?thesis using s1 1 s2 2 by (intro exI [of _ ?m1] exI [of _ ?m2] exI [of _ st1] exI [of _ st2]) simp
qed

definition example_page :: "char list" where
  "example_page = ''<b>'' @ ''<?'' @ show_ephp [SB_QUERY [ST_STR (Some ''/n'') NUL]] @ ''?>'' @ ''</b>''"

definition example_site :: daemon where
  "example_site = accept_client 4 (accept_client 3 (daemon_start (Xml_node 0 ''root'' None None []) (\<lambda>f. if f = ''i'' then Some example_page else None)))"

lemma example_site_clients: "daemon_ok example_site" "idle 0 3 example_site" "idle 1 4 example_site"
proof -
  show "daemon_ok example_site"
    unfolding example_site_def by (intro accept_ok daemon_start_ok) (simp_all add: accept_client_def daemon_start_def)
  show "idle 0 3 example_site" "idle 1 4 example_site"
    by (simp_all add: example_site_def idle_def accept_client_def daemon_start_def init_clients_def MAX_CLIENT_LIST_def
        client_ipc_def idle_ipc_def numeral_nat)
qed

theorem rgdb_set_then_page_witness:
  "\<exists>m1 m2 st1 st2. serve example_env 3 (concat m1) example_site = Some st1 \<and> lrgdb_set True True 0 0 ''/N'' ''v'' (replies 3 st1) = Some (0, m1) \<and>
    serve example_env 4 (concat m2) st1 = Some st2 \<and> lrgdb_ephp True True 0 0 ''i'' [concat (replies 4 st2)] = (0, m2, ''<b>'' @ ''v'' @ ''</b>'')"
proof -
  have low: "map tolower ''/N'' = ''/n''" by code_simp
  have ask: "askable (map tolower ''/N'')" by code_simp
  have clean: "clean_code (show_ephp [SB_QUERY [ST_STR (Some (map tolower ''/N'')) NUL]])" by code_simp
  have ne: "concat (replies 4 st2) \<noteq> []" if "\<forall>pieces. concat pieces = concat (replies 4 st2) \<and> [] \<notin> set pieces \<longrightarrow>
      lrgdb_ephp True True 0 0 ''i'' pieces = (0, m2, ''<b>'' @ ''v'' @ ''</b>'')" for st2 m2
  proof
    assume "concat (replies 4 st2) = []"
    with that have "lrgdb_ephp True True 0 0 ''i'' [] = (0, m2, ''<b>'' @ ''v'' @ ''</b>'')" by simp
    then show False by (simp add: lrgdb_ephp_def text_request_def split: prod.splits if_splits)
  qed
  have "\<exists>m1 m2 st1 st2. serve example_env 3 (concat m1) example_site = Some st1 \<and> lrgdb_set True True 0 0 ''/N'' ''v'' (replies 3 st1) = Some (0, m1) \<and>
    serve example_env 4 (concat m2) st1 = Some st2 \<and>
    (\<forall>pieces. concat pieces = concat (replies 4 st2) \<and> [] \<notin> set pieces \<longrightarrow> lrgdb_ephp True True 0 0 ''i'' pieces = (0, m2, ''<b>'' @ ''v'' @ ''</b>''))"
    by (rule rgdb_set_then_page [OF example_site_clients _ _ ask _ _ _ _ _ clean, where j = 98])
      (simp_all only: low, simp_all add: example_env_def example_site_def accept_client_def daemon_start_def example_page_def pb_ok_def wb_empty_def)
  then obtain m1 m2 st1 st2 where w: "serve example_env 3 (concat m1) example_site = Some st1"
    "lrgdb_set True True 0 0 ''/N'' ''v'' (replies 3 st1) = Some (0, m1)" "serve example_env 4 (concat m2) st1 = Some st2"
    and p: "\<forall>pieces. concat pieces = concat (replies 4 st2) \<and> [] \<notin> set pieces \<longrightarrow> lrgdb_ephp True True 0 0 ''i'' pieces = (0, m2, ''<b>'' @ ''v'' @ ''</b>'')"
    by blast
  have "lrgdb_ephp True True 0 0 ''i'' [concat (replies 4 st2)] = (0, m2, ''<b>'' @ ''v'' @ ''</b>'')" using p ne [OF p] by simp
  with w show ?thesis by blast
qed


end
