(* ===== verification/Spec2Isabelle.thy ===== *)
theory Spec2Isabelle
  imports Dlist Strobj_Token Base64 Hexstring Md5 Sha1 Mem_Helper Sloop Xmldb_Template Xmldbc Dhcp_Script Dhcp_Startup Ephp_Session
begin

text \<open>
  Verification of the router firmware of the VGP-WAR100.

  \<^bold>\<open>The program.\<close> The repository is the source of a small big-endian MIPS router. Its own logic is C code in three
  places. \<^verbatim>\<open>comlib/\<close> with \<^verbatim>\<open>include/\<close> is the library all daemons share: doubly linked lists, a character stream
  with push back, a growing string object with escapings and a token reader, base64, hexadecimal strings, MD5,
  SHA-1, a pool allocator and an event loop. \<^verbatim>\<open>tools/alpha/xmldb/\<close> is the configuration database: a tree of named and
  numbered nodes, addressed by paths and stored in an XML file, a daemon that serves it on a local socket, and two
  interpreters, one that fills its values into template files and one for the pages of the web interface. Every other program reads and writes its configuration
  there, through the client libraries in \<^verbatim>\<open>tools/alpha/rgdb/\<close> and \<^verbatim>\<open>comlib/libxmldbc.c\<close>. \<^verbatim>\<open>progs.gpl/udhcpcd/\<close> is the DHCP server that hands out the addresses of the local network, and the
  DHCP client that gets an address from the provider.
  String objects are built on the stream and the lists, the token reader on string objects; the database keeps
  its values as C strings, the two interpreters and the daemon are built on it, and the clients talk to the daemon
  by headers of twelve bytes with a string behind; the DHCP server is built from options, lease table, lease file, configuration file and packets, and the client
  from the same options and packets.

  \<^bold>\<open>Modelling conventions\<close> (\<^verbatim>\<open>Cmodel_Prelude\<close>). A C function is a HOL function on explicit state. \<open>None\<close> is a fault: an
  access outside a live object, or a loop that does not return where the theory says so. Errors the code reports
  are values. Bytes and 16 or 32 bit integers are words and wrap around; a plain \<^verbatim>\<open>char\<close> is signed. Memory blocks are
  lists with checked reads and writes. The C library's allocator, the expansion of printf formats, handlers,
  descriptors, clocks and the network are arguments of the definitions that use them.

  \<^bold>\<open>Theories and what they show.\<close>
  \<^item> \<^verbatim>\<open>Dlist\<close> (\<^verbatim>\<open>include/dlist.h\<close>): links on a heap. The locale \<open>link_list\<close> states what a list is on sequences; the
    operations refine it, including moves between two lists and the frame of all other lists.
  \<^item> \<^verbatim>\<open>Xstream\<close> (\<^verbatim>\<open>comlib/xstream.c\<close>): file, descriptor and buffer streams with an undo buffer; what is read is
    exactly what is pending. The locale \<open>char_source\<close> is what the readers rely on.
  \<^item> \<^verbatim>\<open>Strobj\<close>, \<^verbatim>\<open>Strobj_Text\<close>, \<^verbatim>\<open>Strobj_Token\<close> (\<^verbatim>\<open>comlib/strobj.c\<close>): the buffer never overflows and is always terminated
    (locale \<open>text_sink\<close>), escapings are undone by their unescapings, and a quoted escaped string is read back as
    one token. Failures of the allocator are followed to the null pointer they lead to.
  \<^item> \<^verbatim>\<open>Base64\<close>, \<^verbatim>\<open>Hexstring\<close> (\<^verbatim>\<open>comlib/base64.c\<close>, \<^verbatim>\<open>comlib/hexstring.c\<close>): round trips, bounds of the buffers, and the bytes
    that are read behind the input or lost.
  \<^item> \<^verbatim>\<open>Digest\<close>, \<^verbatim>\<open>Md5\<close>, \<^verbatim>\<open>Sha1\<close> (\<^verbatim>\<open>comlib/md5.c\<close>, \<^verbatim>\<open>comlib/sha1.c\<close>): the locale \<open>stream_digest\<close> says that feeding chunks is
    feeding their concatenation; both algorithms are interpretations, and equal their definition on padded blocks.
  \<^item> \<^verbatim>\<open>Mem_Helper\<close> (\<^verbatim>\<open>comlib/mem_helper.c\<close>): pools of blocks of powers of two. An invariant over lists, counters and
    headers holds in every reachable state; the locale \<open>block_allocator\<close> is the contract of malloc and free.
  \<^item> \<^verbatim>\<open>Sloop\<close> (\<^verbatim>\<open>comlib/sloop.c\<close>): entry pools, registration, sorted timers, signals and the dispatch loops of one round.
    Handlers are arbitrary functions that may call back into the loop. Walks over the socket lists are
    \<^verbatim>\<open>partial_function (option)\<close>; that they end is proved, and where a handler breaks this is proved too.
  \<^item> \<^verbatim>\<open>Xmldb\<close>, \<^verbatim>\<open>Xmldb_File\<close> (\<^verbatim>\<open>tools/alpha/xmldb/xmldb.c\<close>): paths, lookup with creation, set, get, delete with renumbering and
    notification; the reader and the writer of the XML file, whose composition restores the tree.
  \<^item> \<^verbatim>\<open>Xmldb_Patch\<close>, \<^verbatim>\<open>Xmldb_Template\<close> (\<^verbatim>\<open>tools/alpha/xmldb/patch.c\<close>): the template interpreter with its calculations, maps, conditions,
    variables and nested arrays, as a total mutual recursion; only the calculations are partial: they return exactly when a
    number of rounds uses the text up, and calculations that go round for ever without a fault are shown. Templates are also a datatype with a printer and a rendering over the tree, and the
    interpreter writes for a printed template exactly its rendering.
  \<^item> \<^verbatim>\<open>Ephp_Parse\<close>, \<^verbatim>\<open>Ephp_Print\<close> (\<^verbatim>\<open>tools/alpha/xmldb/ephp.c\<close>, first half): string lists and the thirteen statements of the page language with
    their parser, a total mutual recursion; a printer that the parser inverts; an \<^verbatim>\<open>else\<close> without a brace loses the statement.
  \<^item> \<^verbatim>\<open>Ephp_Run\<close>, \<^verbatim>\<open>Ephp_Exec\<close>, \<^verbatim>\<open>Ephp_Page\<close> (\<^verbatim>\<open>ephp.c\<close>, second half): variables, buffered output, the execution of every statement and
    the scanner of pages. Pointers to nodes are paths that move or dangle when nodes are freed. The locale \<open>exec_relation\<close> lifts what
    the primitive effects keep to all programs; it is interpreted for the output, the stack of loops and the saved pointers.
    Programs without \<^verbatim>\<open>require\<close>, loops included, agree from an explicit fuel on with an evaluation without fuel, and pages
    made of them with a meaning that knows neither scanner nor parser; what is printed and what a loop restores is shown for these results.
  \<^item> \<^verbatim>\<open>Rgdb_Client\<close>, \<^verbatim>\<open>Xmldbc\<close> (\<^verbatim>\<open>tools/alpha/rgdb/\<close>, \<^verbatim>\<open>comlib/libxmldbc.c\<close>): the two client libraries and the command line tool.
  \<^item> \<^verbatim>\<open>Xmldb_Daemon\<close> (\<^verbatim>\<open>tools/alpha/xmldb/main.c\<close>): the table of clients, one function per request, the dispatch loop and the main
    loop as a step relation whose reachable states keep table, sockets and output buffer consistent.
  \<^item> \<^verbatim>\<open>Rgdb_Session\<close>: daemon and clients composed. The locale \<open>db_client\<close> is what the daemon relies on in a client library;
    under it a value that one client sets is the value that another one gets. Both libraries are interpretations.
  \<^item> \<^verbatim>\<open>Ephp_Session\<close>: the same with a page: what one client sets is shown in the page that another one asks for.
  \<^item> \<^verbatim>\<open>Dhcp_Options\<close> (\<^verbatim>\<open>options.c\<close>): the option fields of a message and the list of configured options.
  \<^item> \<^verbatim>\<open>Dhcp_Leases\<close>, \<^verbatim>\<open>Dhcp_Lease_File\<close> (\<^verbatim>\<open>leases.c\<close>, \<^verbatim>\<open>files.c\<close>): the lease table, the search for an address (a loop that may
    run forever only when the range ends at 255.255.255.255), and the file that survives a restart.
  \<^item> \<^verbatim>\<open>Dhcp_Packet\<close> (\<^verbatim>\<open>packet.c\<close>): message layout, Internet checksum, and the IP and UDP headers the server builds.
  \<^item> \<^verbatim>\<open>Dhcp_Server\<close> (\<^verbatim>\<open>serverpacket.c\<close>, \<^verbatim>\<open>dhcpd.c\<close>): the replies and the treatment of every message as a step relation.
    In all reachable states no address and no client is in the table twice; a client without a reservation is
    never offered an address in use, one with a reservation always exactly that, and offers are sent whenever possible; renewals are recorded. Three ways to lose this in an acknowledgement
    or a restart are proved as theorems about the code.
  \<^item> \<^verbatim>\<open>Dhcp_Client\<close> (\<^verbatim>\<open>clientpacket.c\<close>, \<^verbatim>\<open>dhcpc.c\<close>): the messages of the client, the reader of raw frames, and one function
    per event of the state machine. Frames of the server pass the checks of the client; a client that hears nothing
    gives up its address within the lease time; a frame with too short a length faults, and an infinite lease
    makes the two renewal times wrong.
  \<^item> \<^verbatim>\<open>Dhcp_Exchange\<close>: client and server composed. After discover, offer, request and acknowledgement the client is bound
    to the address and the time that the lease table has for it.
  \<^item> \<^verbatim>\<open>Dhcp_Script\<close> (\<^verbatim>\<open>script.c\<close>): the environment of the script the client runs, with the size of every block it is written
    into. For options that hold whole values the sizes are enough and the script gets exactly the values; addresses of
    15 characters and options that are too short are written behind their blocks.
  \<^item> \<^verbatim>\<open>Libc_Text\<close> (uClibc's \<^verbatim>\<open>strtok_r.c\<close>, \<^verbatim>\<open>stdlib.c\<close>, \<^verbatim>\<open>addr.c\<close>): the tokenizer, the number and the address reader of the C library.
  \<^item> \<^verbatim>\<open>Dhcp_Config\<close>, \<^verbatim>\<open>Dhcp_Startup\<close> (\<^verbatim>\<open>files.c\<close>, \<^verbatim>\<open>dhcpd.c\<close>): the configuration file of the server, with its line buffer, keywords and
    handlers, and the start of the server. A configuration is also a list of settings, options and reservations; reading
    its text has exactly their effect, and a reserved client is offered its address. A reservation that cannot be read
    stops the server, which is proved too.

  \<^bold>\<open>Bounds.\<close> Option fields have the 308 bytes of the structure, leases 92 bytes in the file, tags and values of the XML
  reader the sizes of their buffers. Loops are structural, have a measure, or are partial functions whose termination is a
  theorem. Only the execution of pages has fuel, since a page can require itself: fuel bounds the statements of a list, the rounds of a loop and the blocks of a page that follow each other,
  together with their nesting. More fuel never changes a result. Without \<^verbatim>\<open>require\<close> the length of the longest path is enough, a
  loop counting for ten million rounds, since the number of its entry has eight bytes and more rounds overflow them; from this fuel on \<open>None\<close> is a fault and nothing else; the daemon takes its fuel as an argument and its theorems hold for every value. Two loops over
  the tokens of a configuration line count down from the size of the line buffer, which is proved to be enough.

  \<^bold>\<open>Not modelled.\<close> Sockets, signals, files and child processes as such, logging and debugging output; the command line
  options of the DHCP client; the freeing of parsed statements; the arguments, the pid file
  and the listening socket of the database daemon;
  the socket helpers of \<^verbatim>\<open>comlib/\<close>, which only call the system. Kernels, tool chain, third-party
  programs and web templates are not code of this project.
\<close>

end
